(* ===== verification/Prelude.thy ===== *)
theory Prelude
  imports
    Main
    "HOL-Library.List_Lexorder"
    "HOL-Library.Char_ord"
    "HOL-Library.Product_Lexorder"
    "HOL-Library.AList"
begin

text \<open>
  Shared vocabulary of the development: Go's strings, slices and maps as the modelled code
  uses them, and the lemmas on them that several components share.

  A Go string is a byte sequence, here a \<^typ>\<open>string\<close>; \<open><\<close> on it is the bytewise
  lexicographic order (\<open>List_Lexorder\<close> over \<open>Char_ord\<close>), as in Go. A Go slice is a list
  (\<open>nil\<close> and the empty slice are both \<open>[]\<close>, unless a definition says otherwise). A Go map
  filled by a loop over a slice is \<open>map_last\<close>: a later entry for a key replaces an earlier one.
\<close>

named_theorems go_simps \<open>unfoldings of the small Go helpers\<close>
named_theorems key_simps \<open>rewrites about record, mutant and survivor keys\<close>

subsection \<open>Maps filled by a loop\<close>

definition map_last :: "('k \<times> 'v) list \<Rightarrow> 'k \<Rightarrow> 'v option" where
  "map_last kvs = map_of (rev kvs)"

lemma map_last_Nil [simp]: "map_last [] = Map.empty"
  by (simp add: map_last_def)

lemma map_last_Cons: "map_last (p # kvs) k =
    (case map_last kvs k of Some v \<Rightarrow> Some v | None \<Rightarrow> if fst p = k then Some (snd p) else None)"
  by (cases p) (simp add: map_last_def map_add_def split: option.splits)

lemma map_last_None: "map_last kvs k = None \<longleftrightarrow> k \<notin> fst ` set kvs"
  by (simp add: map_last_def map_of_eq_None_iff)

lemma map_last_Some_in: "map_last kvs k = Some v \<Longrightarrow> (k, v) \<in> set kvs"
  by (simp add: map_last_def) (metis map_of_SomeD set_rev)

lemma map_last_distinct:
  "distinct (map fst kvs) \<Longrightarrow> (k, v) \<in> set kvs \<Longrightarrow> map_last kvs k = Some v"
  by (simp add: map_last_def rev_map[symmetric])

lemma map_last_snoc [simp]: "map_last (kvs @ [(k, v)]) = (map_last kvs)(k \<mapsto> v)"
  by (simp add: map_last_def)

lemma map_last_isSome: "k \<in> fst ` set kvs \<Longrightarrow> \<exists>v. map_last kvs k = Some v"
  using map_last_None [of kvs k] by auto

text \<open>Go's map read \<open>m[k]\<close> without the comma-ok form: the zero value where the key is absent.\<close>

definition get_or :: "'v \<Rightarrow> 'v option \<Rightarrow> 'v" where
  "get_or zero v = (case v of Some x \<Rightarrow> x | None \<Rightarrow> zero)"

lemma get_or_simps [simp]: "get_or z None = z" "get_or z (Some v) = v"
  by (simp_all add: get_or_def)

subsection \<open>Maps that are ranged over\<close>

text \<open>
  Where the code ranges over a map, the model keeps the map as an association list with distinct
  keys, updated in place (\<open>AList.update\<close>). Go leaves the order of the range open, so facts
  about such a result are stated on its set of rows or through lookups.
\<close>

definition map_keyed :: "('v \<Rightarrow> 'k) \<Rightarrow> 'v list \<Rightarrow> ('k \<times> 'v) list" where
  "map_keyed key vs = fold (\<lambda>v m. AList.update (key v) v m) vs []"

lemma keys_update [simp]: "fst ` set (AList.update k v m) = insert k (fst ` set m)"
  by (simp add: dom_update)

lemma map_of_update [simp]: "map_of (AList.update k v m) = (map_of m)(k \<mapsto> v)"
  by (rule update_conv')

lemma fold_update_distinct:
  "distinct (map fst m) \<Longrightarrow> distinct (map fst (fold (\<lambda>v m. AList.update (key v) v m) vs m))"
  by (induction vs arbitrary: m) (simp_all add: distinct_update)

lemma distinct_map_keyed [simp]: "distinct (map fst (map_keyed key vs))"
  by (simp add: map_keyed_def fold_update_distinct)

lemma fold_update_map_of:
  "map_of (fold (\<lambda>v m. AList.update (key v) v m) vs m) k =
    (case map_last (map (\<lambda>v. (key v, v)) vs) k of Some v \<Rightarrow> Some v | None \<Rightarrow> map_of m k)"
proof (induction vs arbitrary: m)
  case (Cons v vs)
  then show ?case
    by (cases "map_last (map (\<lambda>v. (key v, v)) vs) k") (simp_all add: map_last_Cons)
qed simp

lemma map_of_map_keyed: "map_of (map_keyed key vs) = map_last (map (\<lambda>v. (key v, v)) vs)"
proof
  fix k
  show "map_of (map_keyed key vs) k = map_last (map (\<lambda>v. (key v, v)) vs) k"
    by (cases "map_last (map (\<lambda>v. (key v, v)) vs) k")
      (simp_all add: map_keyed_def fold_update_map_of)
qed

lemma map_keyed_consistent: "(k, v) \<in> set (map_keyed key vs) \<Longrightarrow> key v = k \<and> v \<in> set vs"
proof -
  assume "(k, v) \<in> set (map_keyed key vs)"
  then have "map_of (map_keyed key vs) k = Some v" by (simp add: map_of_is_SomeI)
  then have "map_last (map (\<lambda>v. (key v, v)) vs) k = Some v" by (simp add: map_of_map_keyed)
  then show ?thesis by (auto dest: map_last_Some_in)
qed

lemma keys_map_keyed [simp]: "fst ` set (map_keyed key vs) = key ` set vs"
proof -
  have "dom (map_of (map_keyed key vs)) = dom (map_last (map (\<lambda>v. (key v, v)) vs))"
    by (simp add: map_of_map_keyed)
  also have "\<dots> = key ` set vs"
    using map_last_None [of "map (\<lambda>v. (key v, v)) vs"] by (force simp: dom_def)
  finally show ?thesis by (simp add: dom_map_of_conv_image_fst)
qed

subsection \<open>Small slice operations\<close>

text \<open>\<open>slices.Compact\<close>: consecutive equal elements are kept once.\<close>

definition compact :: "'a list \<Rightarrow> 'a list" where
  "compact xs = remdups_adj xs"

lemma set_compact [simp]: "set (compact xs) = set xs"
  by (simp add: compact_def)

lemma sorted_distinct_compact:
  assumes "sorted xs"
  shows "distinct (compact xs)"
proof -
  have "sorted ys \<Longrightarrow> distinct_adj ys \<Longrightarrow> distinct ys" for ys :: "'a::linorder list"
  proof (induction ys)
    case (Cons y ys)
    then show ?case
      by (cases ys) (auto simp: distinct_adj_Cons)
  qed simp
  then show ?thesis
    using assms by (simp add: compact_def)
qed

lemma sort_Nil_iff [simp]: "sort xs = [] \<longleftrightarrow> xs = []"
  by (metis set_empty set_sort)

lemma compact_sort [simp]: "sorted (compact (sort xs))" "distinct (compact (sort xs))"
  by (simp_all add: sorted_distinct_compact) (simp add: compact_def)

end
