(* ===== verification/Findings.thy ===== *)
theory Findings
  imports Prelude
begin

text \<open>
  The findings data model (\<open>findings.go\<close>, \<open>shaped.go\<close>, \<open>exemptions.go\<close>, \<open>gomutant.go\<close>):
  one record per Go struct, its fields prefixed by the struct's initials, and the record-level
  judgments every component shares: record keys, the execution-policy admission, open survivors.
\<close>

subsection \<open>Evidence\<close>

text \<open>
  \<open>gofresh.Fingerprint\<close> is a struct of an external package. The record carries the fields the
  modelled code reads or writes by name (the table \<open>legacyFieldTargets\<close> lists them) and one
  opaque component \<open>fp_Rest\<close> for whatever else the struct holds: the code only copies it and
  compares it for equality.
\<close>

record fingerprint =
  fp_MaximalClosure :: string
  fp_TestVariantClosure :: string
  fp_Toolchain :: string
  fp_BuildConfig :: string
  fp_ObservationAssertion :: string
  fp_PurityAssertion :: string
  fp_DynamicStateVouches :: string
  fp_PackageProcessDischarges :: string
  fp_SingleSubjectDischarges :: string
  fp_DynamicStateStrategy :: string
  fp_ClosureStrategy :: string
  fp_RuntimeInputs :: string
  fp_RuntimeDigest :: string
  fp_ProofStrategy :: string
  fp_SubjectPackage :: string
  fp_SubjectSymbol :: string
  fp_ProofReason :: string
  fp_ProofEvidence :: string
  fp_Observable :: bool
  fp_Rest :: string

definition zero_fingerprint :: fingerprint where
  "zero_fingerprint = \<lparr>fp_MaximalClosure = [], fp_TestVariantClosure = [], fp_Toolchain = [],
     fp_BuildConfig = [], fp_ObservationAssertion = [], fp_PurityAssertion = [],
     fp_DynamicStateVouches = [], fp_PackageProcessDischarges = [],
     fp_SingleSubjectDischarges = [], fp_DynamicStateStrategy = [], fp_ClosureStrategy = [],
     fp_RuntimeInputs = [], fp_RuntimeDigest = [], fp_ProofStrategy = [], fp_SubjectPackage = [],
     fp_SubjectSymbol = [], fp_ProofReason = [], fp_ProofEvidence = [], fp_Observable = False,
     fp_Rest = []\<rparr>"

record subject_evidence =
  e_Symbol :: string
  e_Fingerprint :: fingerprint
  e_ModuleBase :: string
  e_RuntimeUnverifiable :: bool
  e_RuntimeReason :: string
  e_RuntimeAttribution :: string

definition zero_evidence :: subject_evidence where
  "zero_evidence = \<lparr>e_Symbol = [], e_Fingerprint = zero_fingerprint, e_ModuleBase = [],
     e_RuntimeUnverifiable = False, e_RuntimeReason = [], e_RuntimeAttribution = []\<rparr>"

subsection \<open>Rows of a finding\<close>

record survivor =
  s_Position :: string
  s_Operator :: string
  s_Extent :: string
  s_Site :: string
  s_Execution :: string
  s_WithdrawnKiller :: string
  s_OtherSelection :: string

record kill =
  k_Position :: string
  k_Operator :: string
  k_Killer :: string

record candidate_evidence =
  ce_Position :: string
  ce_Operator :: string
  ce_Reason :: string
  ce_Disposition :: string

record attestation =
  a_Position :: string
  a_Operator :: string
  a_Reason :: string
  a_Site :: string

record withdrawn_attestation =
  w_Position :: string
  w_Operator :: string
  w_PriorReason :: string
  w_Reason :: string
  w_Site :: string

record operator_summary =
  o_Operator :: string
  o_Generated :: int
  o_Discarded :: int
  o_Killed :: int
  o_Survived :: int

record exemption =
  x_Subject :: string
  x_Reason :: string
  x_Rationale :: string

record compartment_declaration =
  cd_File :: string
  cd_Kind :: string
  cd_Name :: string
  cd_Receiver :: string
  cd_Hash :: string
  cd_Package :: string

record compartment_import =
  ci_Name :: string
  ci_Path :: string

record compartment_bindings =
  cb_Package :: string
  cb_References :: "string list"
  cb_Imports :: "compartment_import list"

record compartment_file_header =
  ch_File :: string
  ch_Hash :: string
  ch_Embedded :: bool
  ch_Bindings :: "compartment_bindings option"

record compartment_ledger =
  cl_BindingStrategy :: string
  cl_BaseFiles :: "compartment_file_header list"
  cl_Declarations :: "compartment_declaration list"
  cl_FileHeaders :: "compartment_file_header list"

record structural_spec =
  st_Class :: string
  st_Packages :: "string list"
  st_Forbidden :: string
  st_Type :: string
  st_Interface :: string

record manual_edit =
  me_Find :: string
  me_Replace :: string

record manual_spec =
  mn_File :: string
  mn_Edits :: "manual_edit list"

record target_shape =
  ts_Structural :: "structural_spec option"
  ts_Manual :: "manual_spec option"

subsection \<open>Targets and findings\<close>

record target =
  t_Symbol :: string
  t_Oracle :: "string list"
  t_Labels :: "string list"
  t_OracleExplicit :: bool
  t_Structural :: "structural_spec option"
  t_Manual :: "manual_spec option"

text \<open>
  Go's \<open>int\<close> and \<open>int64\<close> fields are \<^typ>\<open>int\<close>; the one sum the code guards against overflow
  (\<open>addNonnegative\<close>) writes the bound out.
\<close>

record finding =
  f_Symbol :: string
  f_Selection :: string
  f_Labels :: "string list"
  f_BodyHash :: string
  f_OperatorSet :: string
  f_Budget :: int
  f_Shape :: "target_shape option"
  f_TargetEvidence :: subject_evidence
  f_OracleEvidence :: "subject_evidence list"
  f_OracleExplicit :: bool
  f_OracleTimeout :: string
  f_OracleTimeoutDerived :: bool
  f_OracleMemoryBytes :: int
  f_OracleCeilingDecided :: bool
  f_PropertyRegime :: string
  f_OracleExecutionPolicy :: string
  f_CompartmentLedger :: "compartment_ledger option"
  f_Commit :: string
  f_Dirty :: bool
  f_EvidenceFault :: string
  f_Run :: string
  f_StagedTree :: string
  f_Exempted :: "exemption list"
  f_CandidateCount :: int
  f_Generated :: int
  f_Mutants :: int
  f_Killed :: int
  f_Discarded :: int
  f_Operators :: "operator_summary list"
  f_Kills :: "kill list"
  f_Survivors :: "survivor list"
  f_Attested :: "attestation list"
  f_Withdrawn :: "withdrawn_attestation list"
  f_CandidateEvidence :: "candidate_evidence list"
  f_Cached :: bool
  f_Skipped :: string
  f_Unreached :: bool

definition zero_finding :: finding where
  "zero_finding = \<lparr>f_Symbol = [], f_Selection = [], f_Labels = [], f_BodyHash = [],
     f_OperatorSet = [], f_Budget = 0, f_Shape = None, f_TargetEvidence = zero_evidence,
     f_OracleEvidence = [], f_OracleExplicit = False, f_OracleTimeout = [],
     f_OracleTimeoutDerived = False, f_OracleMemoryBytes = 0, f_OracleCeilingDecided = False,
     f_PropertyRegime = [], f_OracleExecutionPolicy = [], f_CompartmentLedger = None,
     f_Commit = [], f_Dirty = False, f_EvidenceFault = [], f_Run = [], f_StagedTree = [],
     f_Exempted = [], f_CandidateCount = 0, f_Generated = 0, f_Mutants = 0, f_Killed = 0,
     f_Discarded = 0, f_Operators = [], f_Kills = [], f_Survivors = [], f_Attested = [],
     f_Withdrawn = [], f_CandidateEvidence = [], f_Cached = False, f_Skipped = [],
     f_Unreached = False\<rparr>"

subsection \<open>Keys\<close>

type_synonym survivor_key = "string \<times> string"

definition s_key :: "survivor \<Rightarrow> survivor_key" where
  "s_key s = (s_Position s, s_Operator s)"

definition k_key :: "kill \<Rightarrow> survivor_key" where
  "k_key k = (k_Position k, k_Operator k)"

definition a_key :: "attestation \<Rightarrow> survivor_key" where
  "a_key a = (a_Position a, a_Operator a)"

definition w_key :: "withdrawn_attestation \<Rightarrow> survivor_key" where
  "w_key w = (w_Position w, w_Operator w)"

definition ce_key :: "candidate_evidence \<Rightarrow> survivor_key" where
  "ce_key e = (ce_Position e, ce_Operator e)"

lemmas mutant_keys = s_key_def k_key_def a_key_def w_key_def ce_key_def

text \<open>The separator byte of every composed key of the program (\<open>"\x00"\<close>).\<close>

definition nul :: char where
  "nul = CHR 0x00"

definition recordKeyOf :: "string \<Rightarrow> string \<Rightarrow> string" where
  "recordKeyOf smb selection = (if selection = [] then smb else smb @ nul # selection)"

definition recordKey :: "finding \<Rightarrow> string" where
  "recordKey f = recordKeyOf (f_Symbol f) (f_Selection f)"

text \<open>
  A symbol carries no NUL byte, so a record key names its symbol and its selection.
\<close>

lemma recordKeyOf_inject:
  assumes "nul \<notin> set s" "nul \<notin> set s'"
  shows "recordKeyOf s x = recordKeyOf s' x' \<longleftrightarrow> s = s' \<and> x = x'"
proof -
  have split: "takeWhile (\<lambda>c. c \<noteq> nul) (recordKeyOf t y) = t \<and>
      drop (Suc (length t)) (recordKeyOf t y) = y" if "nul \<notin> set t" for t y
  proof -
    have "takeWhile (\<lambda>c. c \<noteq> nul) t = t" using that by (auto simp: takeWhile_eq_all_conv)
    then show ?thesis using that
      by (auto simp: recordKeyOf_def takeWhile_append2)
  qed
  show ?thesis using split [OF assms(1), of x] split [OF assms(2), of x'] by metis
qed

definition mutantKey :: "string \<Rightarrow> string \<Rightarrow> string \<Rightarrow> string" where
  "mutantKey smb position operator = smb @ nul # position @ nul # operator"

lemma nul_cut:
  assumes "nul \<notin> set s" "nul \<notin> set s'" "s @ nul # r = s' @ nul # r'"
  shows "s = s' \<and> r = r'"
proof -
  have t: "takeWhile (\<lambda>c. c \<noteq> nul) (u @ nul # v) = u" if "nul \<notin> set u" for u v
  proof -
    have "\<And>x. x \<in> set u \<Longrightarrow> x \<noteq> nul" using that by auto
    then show ?thesis by (simp add: takeWhile_append2)
  qed
  have "s = s'" using t [OF assms(1), of r] t [OF assms(2), of r'] assms(3) by simp
  then show ?thesis using assms(3) by simp
qed

lemma mutantKey_inject:
  assumes "nul \<notin> set s" "nul \<notin> set s'" "nul \<notin> set p" "nul \<notin> set p'"
  shows "mutantKey s p r = mutantKey s' p' r' \<longleftrightarrow> s = s' \<and> p = p' \<and> r = r'"
proof
  assume eq: "mutantKey s p r = mutantKey s' p' r'"
  have "s = s' \<and> p @ nul # r = p' @ nul # r'"
    by (rule nul_cut [OF assms(1,2)]) (use eq in \<open>simp add: mutantKey_def\<close>)
  moreover from this have "p = p' \<and> r = r'"
    by (intro nul_cut [OF assms(3,4)]) simp
  ultimately show "s = s' \<and> p = p' \<and> r = r'" by simp
qed simp

subsection \<open>Execution policy\<close>

definition FullOracleExecutionPolicy :: string where
  "FullOracleExecutionPolicy = ''gomutant/full-oracle@3''"

definition OracleExecutionPolicyIssue :: "finding \<Rightarrow> string" where
  "OracleExecutionPolicyIssue f =
     (if f_OracleExecutionPolicy f = FullOracleExecutionPolicy then []
      else ''oracle execution policy is missing or unsupported; re-measure with the complete oracle'')"

lemma policy_issue_iff:
  "OracleExecutionPolicyIssue f = [] \<longleftrightarrow> f_OracleExecutionPolicy f = FullOracleExecutionPolicy"
  by (simp add: OracleExecutionPolicyIssue_def)

definition TimeoutKiller :: string where
  "TimeoutKiller = ''(timeout)''"

definition PackageKillerPrefix :: string where
  "PackageKillerPrefix = ''(package failure: ''"

end
