(* ===== verification/Codecs.thy ===== *)
theory Codecs
  imports GoStrings
begin

text \<open>
  The interface between a text format and its readers: a printer and a parser that agree on the
  values the format can spell, and the line files built on one (a separator joins the printed
  lines, the parser splits on it and stops at its first refusal).
\<close>

fun traverse :: "('a \<Rightarrow> 'e + 'b) \<Rightarrow> 'a list \<Rightarrow> 'e + 'b list" where
  "traverse g [] = Inr []"
| "traverse g (x # xs) =
     (case g x of
        Inl e \<Rightarrow> Inl e
      | Inr y \<Rightarrow> (case traverse g xs of Inl e \<Rightarrow> Inl e | Inr ys \<Rightarrow> Inr (y # ys)))"

lemma traverse_map: "(\<And>x. x \<in> set xs \<Longrightarrow> g (h x) = Inr x) \<Longrightarrow> traverse g (map h xs) = Inr xs"
  by (induction xs) auto

lemma traverse_bad: "x \<in> set xs \<Longrightarrow> g x = Inl e \<Longrightarrow> \<exists>e'. traverse g xs = Inl e'"
  by (induction xs) (auto split: sum.splits)

lemma traverse_Inr: "traverse g xs = Inr ys \<Longrightarrow> list_all2 (\<lambda>x y. g x = Inr y) xs ys"
  by (induction xs arbitrary: ys) (auto split: sum.splits)

lemma split_join_concat:
  "ls \<noteq> [] \<Longrightarrow> split_on c (join [c] ls) = concat (map (split_on c) ls)"
proof (induction "[c]" ls rule: join.induct)
  case (3 x y zs)
  have "split_on c (s @ c # r) = split_on c s @ split_on c r" for s r
    by (induction s) (auto split: list.splits)
  then show ?case using 3 by simp
qed simp_all

locale codec =
  fixes fmt :: "'a \<Rightarrow> 'b" and prs :: "'b \<Rightarrow> 'e + 'a" and ok :: "'a \<Rightarrow> bool"
  assumes parse_format: "ok x \<Longrightarrow> prs (fmt x) = Inr x"
begin

lemma format_inject: "ok x \<Longrightarrow> ok y \<Longrightarrow> fmt x = fmt y \<longleftrightarrow> x = y"
  by (metis parse_format sum.inject(2))

lemma format_not_refused: "ok x \<Longrightarrow> prs (fmt x) \<noteq> Inl e"
  by (simp add: parse_format)

lemma traverse_format: "\<forall>x \<in> set xs. ok x \<Longrightarrow> traverse prs (map fmt xs) = Inr xs"
  by (rule traverse_map) (simp add: parse_format)

end

locale line_codec = codec fmt prs ok
  for fmt :: "'a \<Rightarrow> string" and prs :: "string \<Rightarrow> 'e + 'a" and ok :: "'a \<Rightarrow> bool" +
  fixes sep :: char
  assumes format_no_sep: "ok x \<Longrightarrow> sep \<notin> set (fmt x)"
    and format_not_Nil: "ok x \<Longrightarrow> fmt x \<noteq> []"
begin

lemma split_lines:
  assumes "xs \<noteq> []" "\<forall>x \<in> set xs. ok x"
  shows "split_on sep (join [sep] (map fmt xs)) = map fmt xs"
  by (rule split_join) (use assms format_no_sep in auto)

lemma lines_not_Nil:
  assumes "xs \<noteq> []" "\<forall>x \<in> set xs. ok x"
  shows "join [sep] (map fmt xs) \<noteq> []"
  using assms format_not_Nil by (cases xs rule: remdups_adj.cases) auto

lemma lines_roundtrip:
  assumes "xs \<noteq> []" "\<forall>x \<in> set xs. ok x"
  shows "traverse prs (split_on sep (join [sep] (map fmt xs))) = Inr xs"
  using traverse_format [OF assms(2)] by (simp only: split_lines [OF assms])

end

end
