(* ===== verification/Selections.thy ===== *)
theory Selections
  imports Findings Codecs
begin

text \<open>
  Build selections and the cross-selection verdicts (\<open>findings.go\<close>, \<open>internal/engine/selection.go\<close>):
  the canonical key of a selection, its parser, the advisory verdict lines a survivor carries about
  other selections, their parser, and the annotation pass that writes them.
\<close>

subsection \<open>Selection keys\<close>

record selection =
  sel_Tags :: "string list"
  sel_Toolchain :: string

definition zero_selection :: selection where
  "zero_selection = \<lparr>sel_Tags = [], sel_Toolchain = []\<rparr>"

definition Declared :: "selection \<Rightarrow> bool" where
  "Declared s \<longleftrightarrow> sel_Tags s \<noteq> [] \<or> sel_Toolchain s \<noteq> []"

definition CanonicalTags :: "selection \<Rightarrow> string list" where
  "CanonicalTags s = compact (sort (sel_Tags s))"

definition SelectionKey :: "selection \<Rightarrow> string" where
  "SelectionKey s = join '';''
     ((if sel_Tags s \<noteq> [] then [''tags:'' @ join '','' (compact (sort (sel_Tags s)))] else []) @
      (if sel_Toolchain s \<noteq> [] then [''toolchain:'' @ sel_Toolchain s] else []))"

fun parse_parts :: "selection \<Rightarrow> string list \<Rightarrow> selection option" where
  "parse_parts s [] = Some s"
| "parse_parts s (part # parts) =
     (if has_prefix part ''tags:'' then
        (if sel_Tags s \<noteq> [] then None
         else let raw = trim_prefix part ''tags:'' in
           if raw = [] then None
           else let tags = split_on (CHR '','') raw in
             if \<exists>t \<in> set tags. t = [] \<or> trim_space t \<noteq> t then None
             else parse_parts (s\<lparr>sel_Tags := tags\<rparr>) parts)
      else if has_prefix part ''toolchain:'' then
        (if sel_Toolchain s \<noteq> [] then None
         else let tc = trim_prefix part ''toolchain:'' in
           if tc = [] \<or> trim_space tc \<noteq> tc then None
           else parse_parts (s\<lparr>sel_Toolchain := tc\<rparr>) parts)
      else None)"

definition parseSelectionKey :: "string \<Rightarrow> selection \<times> bool" where
  "parseSelectionKey s =
     (if s = [] then (zero_selection, True)
      else case parse_parts zero_selection (split_on (CHR '';'') s) of
        None \<Rightarrow> (zero_selection, False)
      | Some sel \<Rightarrow> (sel, SelectionKey sel = s))"

definition validateSelectionKey :: "string \<Rightarrow> bool" where
  "validateSelectionKey s \<longleftrightarrow> snd (parseSelectionKey s)"

definition SelectionOfKey :: "string \<Rightarrow> selection" where
  "SelectionOfKey s = fst (parseSelectionKey s)"

text \<open>
  The selections a key can spell: tags and toolchain are non-empty, carry no surrounding white
  space and none of the key's own separators.
\<close>

definition spellable :: "selection \<Rightarrow> bool" where
  "spellable s \<longleftrightarrow>
     (\<forall>t \<in> set (sel_Tags s). t \<noteq> [] \<and> trim_space t = t \<and> CHR '','' \<notin> set t \<and> CHR '';'' \<notin> set t) \<and>
     (sel_Toolchain s \<noteq> [] \<longrightarrow> trim_space (sel_Toolchain s) = sel_Toolchain s) \<and>
     CHR '';'' \<notin> set (sel_Toolchain s)"

definition canonical :: "selection \<Rightarrow> selection" where
  "canonical s = s\<lparr>sel_Tags := CanonicalTags s\<rparr>"

lemma compact_Nil [simp]: "compact xs = [] \<longleftrightarrow> xs = []"
  by (simp add: compact_def remdups_adj_Nil_iff)

lemma compact_sort_compact_sort [simp]: "compact (sort (compact (sort xs))) = compact (sort xs)"
proof -
  have "sort (compact (sort xs)) = compact (sort xs)"
    by (simp add: sorted_sort_id)
  then show ?thesis
    by (metis compact_def compact_sort(2) remdups_adj_distinct)
qed

lemma SelectionKey_canonical: "SelectionKey (canonical s) = SelectionKey s"
  by (simp add: SelectionKey_def canonical_def CanonicalTags_def)

lemma join_tags_spellable:
  assumes "spellable s" "sel_Tags s \<noteq> []"
  shows "split_on (CHR '','') (join '','' (CanonicalTags s)) = CanonicalTags s"
    and "join '','' (CanonicalTags s) \<noteq> []"
    and "CHR '';'' \<notin> set (join '','' (CanonicalTags s))"
proof -
  have ne: "CanonicalTags s \<noteq> []" using assms(2) by (simp add: CanonicalTags_def)
  have parts: "t \<noteq> [] \<and> CHR '','' \<notin> set t \<and> CHR '';'' \<notin> set t" if "t \<in> set (CanonicalTags s)" for t
    using that assms(1) by (auto simp: CanonicalTags_def spellable_def)
  show "split_on (CHR '','') (join '','' (CanonicalTags s)) = CanonicalTags s"
    by (rule split_join) (use ne parts in auto)
  obtain t ts where tts: "CanonicalTags s = t # ts" using ne by (metis list.exhaust)
  with parts [of t] show "join '','' (CanonicalTags s) \<noteq> []" by (cases ts) auto
  have "set (join '','' (CanonicalTags s)) \<subseteq> {CHR '',''} \<union> \<Union> (set ` set (CanonicalTags s))"
    using set_join [of "'',''" "CanonicalTags s"] by simp
  then show "CHR '';'' \<notin> set (join '','' (CanonicalTags s))" using parts by fastforce
qed

text \<open>The two parts of a key, named so that rewriting keeps them whole.\<close>

definition tags_part :: "selection \<Rightarrow> string" where
  "tags_part s = ''tags:'' @ join '','' (CanonicalTags s)"

definition toolchain_part :: "selection \<Rightarrow> string" where
  "toolchain_part s = ''toolchain:'' @ sel_Toolchain s"

lemma SelectionKey_parts: "SelectionKey s = join '';''
    ((if sel_Tags s \<noteq> [] then [tags_part s] else []) @
     (if sel_Toolchain s \<noteq> [] then [toolchain_part s] else []))"
  by (simp only: SelectionKey_def tags_part_def toolchain_part_def CanonicalTags_def)

lemma tags_part_prefix: "has_prefix (tags_part s) ''tags:''"
    "trim_prefix (tags_part s) ''tags:'' = join '','' (CanonicalTags s)"
  unfolding tags_part_def by (rule has_prefix_append, rule trim_prefix_append)

lemma toolchain_part_prefix: "has_prefix (toolchain_part s) ''toolchain:''"
    "trim_prefix (toolchain_part s) ''toolchain:'' = sel_Toolchain s"
    "\<not> has_prefix (toolchain_part s) ''tags:''"
  unfolding toolchain_part_def
  by (rule has_prefix_append, rule trim_prefix_append) (simp add: has_prefix_def)

lemma parse_parts_tags:
  assumes "spellable s" "sel_Tags s \<noteq> []" "sel_Tags a = []"
  shows "parse_parts a (tags_part s # ps) = parse_parts (a\<lparr>sel_Tags := CanonicalTags s\<rparr>) ps"
proof -
  have "\<not> (\<exists>t \<in> set (CanonicalTags s). t = [] \<or> trim_space t \<noteq> t)"
    using assms(1) by (auto simp: CanonicalTags_def spellable_def)
  then show ?thesis
    using assms join_tags_spellable [OF assms(1,2)]
    by (simp only: parse_parts.simps Let_def tags_part_prefix simp_thms if_True if_False)
qed

lemma parse_parts_toolchain:
  assumes "spellable s" "sel_Toolchain s \<noteq> []" "sel_Toolchain a = []"
  shows "parse_parts a (toolchain_part s # ps) = parse_parts (a\<lparr>sel_Toolchain := sel_Toolchain s\<rparr>) ps"
proof -
  have "trim_space (sel_Toolchain s) = sel_Toolchain s" using assms by (simp add: spellable_def)
  then show ?thesis
    using assms
    by (simp only: parse_parts.simps Let_def toolchain_part_prefix simp_thms if_True if_False)
qed

lemma part_free:
  "spellable s \<Longrightarrow> CHR '';'' \<notin> set (toolchain_part s)"
  "spellable s \<Longrightarrow> sel_Tags s \<noteq> [] \<Longrightarrow> CHR '';'' \<notin> set (tags_part s)"
  using join_tags_spellable(3) [of s]
  by (auto simp: toolchain_part_def tags_part_def spellable_def)

lemma parse_parts_SelectionKey:
  assumes "spellable s" "Declared s"
  shows "parse_parts zero_selection (split_on (CHR '';'') (SelectionKey s)) = Some (canonical s)"
proof -
  let ?ps = "(if sel_Tags s \<noteq> [] then [tags_part s] else []) @
     (if sel_Toolchain s \<noteq> [] then [toolchain_part s] else [])"
  have "split_on (CHR '';'') (SelectionKey s) = ?ps"
    unfolding SelectionKey_parts
  proof (rule split_join)
    show "?ps \<noteq> []" using assms(2) by (auto simp: Declared_def)
    show "CHR '';'' \<notin> set x" if "x \<in> set ?ps" for x
      using that part_free [OF assms(1)] by (auto split: if_splits)
  qed
  moreover have "parse_parts zero_selection ?ps = Some (canonical s)"
    by (cases "sel_Tags s = []"; cases "sel_Toolchain s = []")
      (simp_all add: parse_parts_tags [OF assms(1)] parse_parts_toolchain [OF assms(1)]
        parse_parts.simps(1) zero_selection_def canonical_def CanonicalTags_def compact_def
        del: parse_parts.simps(2))
  ultimately show ?thesis by simp
qed

lemma SelectionKey_undeclared: "SelectionKey s = [] \<longleftrightarrow> \<not> Declared s"
  by (simp add: SelectionKey_def Declared_def)

lemma selection_key_parse:
  assumes "spellable s"
  shows "parseSelectionKey (SelectionKey s) = (canonical s, True)"
proof (cases "Declared s")
  case True
  then have "SelectionKey s \<noteq> []" by (simp add: SelectionKey_undeclared)
  then show ?thesis
    using parse_parts_SelectionKey [OF assms True] SelectionKey_canonical [of s]
    by (simp add: parseSelectionKey_def)
next
  case False
  then have "SelectionKey s = []" by (simp add: SelectionKey_undeclared)
  moreover have "canonical s = zero_selection"
    using False by (simp add: canonical_def CanonicalTags_def zero_selection_def Declared_def compact_def)
  ultimately show ?thesis by (simp add: parseSelectionKey_def)
qed

text \<open>A selection key read back is the selection it spells, in canonical form: sorted tags
  without duplicates, the toolchain unchanged.\<close>

theorem selection_key_roundtrip:
  assumes "spellable s"
  shows "parseSelectionKey (SelectionKey s) = (canonical s, True)"
  using assms by (rule selection_key_parse)

theorem selection_key_roundtrip_witness:
  "spellable \<lparr>sel_Tags = [''b'', ''a'', ''b''], sel_Toolchain = ''go1.26''\<rparr> \<and>
   parseSelectionKey (SelectionKey \<lparr>sel_Tags = [''b'', ''a'', ''b''], sel_Toolchain = ''go1.26''\<rparr>) =
     (canonical \<lparr>sel_Tags = [''b'', ''a'', ''b''], sel_Toolchain = ''go1.26''\<rparr>, True)"
proof -
  have "spellable \<lparr>sel_Tags = [''b'', ''a'', ''b''], sel_Toolchain = ''go1.26''\<rparr>"
    by code_simp
  from this selection_key_roundtrip [OF this] show ?thesis by (rule conjI)
qed

text \<open>Canonical selections and their keys are a codec, so distinct ones have distinct keys.\<close>

definition selection_of :: "string \<Rightarrow> unit + selection" where
  "selection_of k = (case parseSelectionKey k of (s, ok) \<Rightarrow> if ok then Inr s else Inl ())"

interpretation selection_codec: codec SelectionKey selection_of
  "\<lambda>s. spellable s \<and> canonical s = s"
proof
  fix s assume "spellable s \<and> canonical s = s"
  then show "selection_of (SelectionKey s) = Inr s"
    using selection_key_parse [of s] by (simp add: selection_of_def)
qed

subsection \<open>Coverage bounds\<close>

record coverage_bound =
  cov_Selection :: string
  cov_Run :: string
  cov_Unreached :: "string list"

definition CoverageBoundOf :: "finding list \<Rightarrow> selection \<Rightarrow> string \<Rightarrow> coverage_bound option" where
  "CoverageBoundOf findings sel runID =
     (let key = SelectionKey sel in
      if key = [] then None
      else Some \<lparr>cov_Selection = key, cov_Run = runID,
        cov_Unreached = compact (sort (map f_Symbol (filter f_Unreached findings)))\<rparr>)"

text \<open>A leg under a declared selection always leaves a bound row, even an empty one, keyed by the
  selection's canonical key; its unreached symbols are sorted, distinct and exactly the unreached
  findings' symbols; a leg with no declared selection leaves none.\<close>

theorem coverage_bound_of_leg:
  "case CoverageBoundOf findings sel runID of
     None \<Rightarrow> \<not> Declared sel
   | Some b \<Rightarrow> Declared sel \<and> cov_Selection b = SelectionKey sel \<and> cov_Run b = runID \<and>
       sorted (cov_Unreached b) \<and> distinct (cov_Unreached b) \<and>
       set (cov_Unreached b) = {f_Symbol f | f. f \<in> set findings \<and> f_Unreached f}"
  by (auto simp: CoverageBoundOf_def Let_def SelectionKey_undeclared)

end
