(* ===== verification/Verdicts.thy ===== *)
theory Verdicts
  imports Selections
begin

text \<open>
  Cross-selection verdicts (\<open>findings.go\<close>): the advisory lines a survivor carries about the same
  mutant under other build selections, their parser, and the pass that writes them.
\<close>

subsection \<open>Verdict lines\<close>

record selection_verdict =
  v_Selection :: string
  v_Disposition :: string
  v_Killer :: string
  v_Reason :: string

datatype verdict_error =
    MalformedVerdict string
  | MalformedKilled string
  | MalformedSelection string
  | BlankReason

text \<open>\<open>ValidateAttestationReason\<close>: a reason that trims to nothing is refused.\<close>

definition ValidateAttestationReason :: "string \<Rightarrow> bool" where
  "ValidateAttestationReason reason \<longleftrightarrow> trim_space reason \<noteq> []"

definition formatSelectionVerdict :: "selection_verdict \<Rightarrow> string" where
  "formatSelectionVerdict v =
     (let sel = (if v_Selection v = [] then ''default'' else v_Selection v) in
      if v_Disposition v = ''killed'' then sel @ '': '' @ ''killed by '' @ v_Killer v
      else if v_Disposition v = ''attested'' then sel @ '': '' @ ''attested ('' @ v_Reason v @ '')''
      else sel @ '': '' @ ''survived'')"

definition newline :: char where
  "newline = CHR 0x0A"

definition formatSelectionVerdicts :: "selection_verdict list \<Rightarrow> string" where
  "formatSelectionVerdicts vs = join [newline] (map formatSelectionVerdict vs)"

definition parse_disposition :: "string \<Rightarrow> string \<Rightarrow> string \<Rightarrow> verdict_error + selection_verdict" where
  "parse_disposition line sel rest =
     (if rest = ''survived'' then
        Inr \<lparr>v_Selection = sel, v_Disposition = ''survived'', v_Killer = [], v_Reason = []\<rparr>
      else if has_prefix rest ''killed by '' then
        (let killer = trim_prefix rest ''killed by '' in
          if killer = [] \<or> trim_space killer \<noteq> killer then Inl (MalformedKilled line)
          else Inr \<lparr>v_Selection = sel, v_Disposition = ''killed'', v_Killer = killer, v_Reason = []\<rparr>)
      else if has_prefix rest ''attested ('' \<and> has_suffix rest '')'' then
        (let reason = butlast (drop (length ''attested ('') rest) in
          if \<not> ValidateAttestationReason reason then Inl BlankReason
          else Inr \<lparr>v_Selection = sel, v_Disposition = ''attested'', v_Killer = [], v_Reason = reason\<rparr>)
      else Inl (MalformedVerdict line))"

definition parse_verdict_line :: "string \<Rightarrow> verdict_error + selection_verdict" where
  "parse_verdict_line line =
     (case str_cut '': '' line of
        None \<Rightarrow> Inl (MalformedVerdict line)
      | Some (sel, rest) \<Rightarrow>
          if sel = [] \<or> rest = [] then Inl (MalformedVerdict line)
          else if sel = ''default'' then parse_disposition line [] rest
          else if \<not> validateSelectionKey sel then Inl (MalformedSelection sel)
          else parse_disposition line sel rest)"

definition parseSelectionVerdicts :: "string \<Rightarrow> verdict_error + selection_verdict list" where
  "parseSelectionVerdicts raw =
     (if raw = [] then Inr [] else traverse parse_verdict_line (split_on newline raw))"

definition OtherSelections :: "survivor \<Rightarrow> selection_verdict list" where
  "OtherSelections s =
     (if s_OtherSelection s = [] then []
      else case parseSelectionVerdicts (s_OtherSelection s) of Inl _ \<Rightarrow> [] | Inr vs \<Rightarrow> vs)"

text \<open>
  The verdicts the lines can spell: a selection key without the separators of the line, and the
  fields of the disposition alone, themselves free of line breaks.
\<close>

definition verdict_spellable :: "selection_verdict \<Rightarrow> bool" where
  "verdict_spellable v \<longleftrightarrow>
     (v_Selection v = [] \<or> v_Selection v \<noteq> ''default'' \<and> validateSelectionKey (v_Selection v) \<and>
        \<not> str_contains (v_Selection v) '': '' \<and> newline \<notin> set (v_Selection v)) \<and>
     (v_Disposition v = ''survived'' \<and> v_Killer v = [] \<and> v_Reason v = [] \<or>
      v_Disposition v = ''killed'' \<and> v_Reason v = [] \<and> v_Killer v \<noteq> [] \<and>
        trim_space (v_Killer v) = v_Killer v \<and> newline \<notin> set (v_Killer v) \<or>
      v_Disposition v = ''attested'' \<and> v_Killer v = [] \<and>
        ValidateAttestationReason (v_Reason v) \<and> newline \<notin> set (v_Reason v))"

text \<open>The line of a verdict, its selection and its disposition named apart.\<close>

definition verdict_rest :: "selection_verdict \<Rightarrow> string" where
  "verdict_rest v =
     (if v_Disposition v = ''killed'' then ''killed by '' @ v_Killer v
      else if v_Disposition v = ''attested'' then ''attested ('' @ v_Reason v @ '')''
      else ''survived'')"

definition verdict_sel :: "selection_verdict \<Rightarrow> string" where
  "verdict_sel v = (if v_Selection v = [] then ''default'' else v_Selection v)"

lemma format_parts: "formatSelectionVerdict v = verdict_sel v @ '': '' @ verdict_rest v"
  by (simp add: formatSelectionVerdict_def verdict_sel_def verdict_rest_def Let_def)

lemma str_cut_first:
  "\<not> str_contains s '': '' \<Longrightarrow> str_cut '': '' (s @ '': '' @ r) = Some (s, r)"
proof (induction s)
  case (Cons c s)
  have "\<not> has_prefix (c # s) '': ''" "\<not> str_contains s '': ''"
    using Cons.prems by (auto simp: str_contains_def split: if_splits)
  moreover from this have "\<not> has_prefix (c # s @ '': '' @ r) '': ''"
    by (cases s) (auto simp: has_prefix_def)
  ultimately show ?case using Cons.IH by simp
qed (simp add: has_prefix_def)

lemma parse_disposition_killed:
  assumes "k \<noteq> []" "trim_space k = k"
  shows "parse_disposition line sel (''killed by '' @ k) =
    Inr \<lparr>v_Selection = sel, v_Disposition = ''killed'', v_Killer = k, v_Reason = []\<rparr>"
proof -
  have "''killed by '' @ k \<noteq> ''survived''" by simp
  then show ?thesis
    using assms by (simp only: parse_disposition_def has_prefix_append trim_prefix_append Let_def
        if_True if_False simp_thms)
qed

lemma parse_disposition_attested:
  assumes "ValidateAttestationReason r"
  shows "parse_disposition line sel (''attested ('' @ r @ '')'') =
    Inr \<lparr>v_Selection = sel, v_Disposition = ''attested'', v_Killer = [], v_Reason = r\<rparr>"
proof -
  let ?s = "''attested ('' @ r @ '')''"
  have "has_prefix ?s ''attested (''" by (rule has_prefix_append)
  moreover have "has_suffix ?s '')''"
    using has_suffix_append [of "''attested ('' @ r" "'')''"] by (simp only: append_assoc)
  moreover have "butlast (drop (length ''attested ('') ?s) = r" by simp
  moreover have "?s \<noteq> ''survived''" "\<not> has_prefix ?s ''killed by ''" by (simp_all add: has_prefix_def)
  ultimately show ?thesis
    using assms by (simp only: parse_disposition_def Let_def if_True if_False simp_thms)
qed

lemma parse_disposition_rest:
  assumes "verdict_spellable v"
  shows "parse_disposition line (v_Selection v) (verdict_rest v) = Inr v"
proof -
  consider (s) "v_Disposition v = ''survived''" "v_Killer v = []" "v_Reason v = []"
    | (k) "v_Disposition v = ''killed''" "v_Reason v = []" "v_Killer v \<noteq> []" "trim_space (v_Killer v) = v_Killer v"
    | (a) "v_Disposition v = ''attested''" "v_Killer v = []" "ValidateAttestationReason (v_Reason v)"
    using assms unfolding verdict_spellable_def by blast
  then show ?thesis
  proof cases
    case s
    then show ?thesis by (cases v) (simp add: verdict_rest_def parse_disposition_def)
  next
    case k
    then have "verdict_rest v = ''killed by '' @ v_Killer v" by (simp add: verdict_rest_def)
    with k parse_disposition_killed [of "v_Killer v" line "v_Selection v"] show ?thesis
      by (cases v) (simp only:, simp)
  next
    case a
    then have "verdict_rest v = ''attested ('' @ v_Reason v @ '')''" by (simp add: verdict_rest_def)
    with a parse_disposition_attested [of "v_Reason v" line "v_Selection v"] show ?thesis
      by (cases v) (simp only:, simp)
  qed
qed

lemma parse_verdict_line_format:
  assumes "verdict_spellable v"
  shows "parse_verdict_line (formatSelectionVerdict v) = Inr v"
proof -
  have "\<not> str_contains (verdict_sel v) '': ''"
    using assms by (auto simp: verdict_spellable_def verdict_sel_def str_contains_def has_prefix_def)
  then have "str_cut '': '' (formatSelectionVerdict v) = Some (verdict_sel v, verdict_rest v)"
    unfolding format_parts by (rule str_cut_first)
  moreover have "verdict_sel v \<noteq> []" "verdict_rest v \<noteq> []"
    by (simp_all add: verdict_sel_def verdict_rest_def)
  moreover have "if verdict_sel v = ''default'' then v_Selection v = []
      else verdict_sel v = v_Selection v \<and> validateSelectionKey (v_Selection v)"
    using assms by (auto simp: verdict_spellable_def verdict_sel_def)
  ultimately show ?thesis
    using parse_disposition_rest [OF assms, of "formatSelectionVerdict v"]
    by (auto simp: parse_verdict_line_def split: if_splits)
qed

lemma format_no_newline: "verdict_spellable v \<Longrightarrow> newline \<notin> set (formatSelectionVerdict v)"
  by (auto simp: format_parts verdict_spellable_def verdict_sel_def verdict_rest_def newline_def)

text \<open>
  An accepted attestation reason may hold a line break, and then the line the pass writes does not
  parse: every later line of the reason is refused unless it happens to be a verdict of its own.
\<close>

lemma verdict_not_Nil: "formatSelectionVerdict v \<noteq> []"
  by (simp add: format_parts)

interpretation verdict_lines: line_codec formatSelectionVerdict parse_verdict_line verdict_spellable newline
  by unfold_locales (simp_all add: parse_verdict_line_format format_no_newline verdict_not_Nil)

text \<open>The advisory lines a survivor carries read back as the verdicts they were written from,
  in order, whatever the selections, killers and reasons are, as long as none breaks the line format.\<close>

theorem selection_verdicts_roundtrip:
  assumes "\<forall>v \<in> set vs. verdict_spellable v"
  shows "parseSelectionVerdicts (formatSelectionVerdicts vs) = Inr vs"
  using verdict_lines.lines_roundtrip [OF _ assms] verdict_lines.lines_not_Nil [OF _ assms]
  by (cases "vs = []") (simp_all add: parseSelectionVerdicts_def formatSelectionVerdicts_def)

definition verdict_examples :: "selection_verdict list" where
  "verdict_examples =
     [\<lparr>v_Selection = [], v_Disposition = ''killed'', v_Killer = ''pkg.TestA'', v_Reason = []\<rparr>,
      \<lparr>v_Selection = ''tags:a,b;toolchain:go1.26'', v_Disposition = ''attested'', v_Killer = [],
       v_Reason = ''dead: (unreachable) branch''\<rparr>]"

theorem selection_verdicts_roundtrip_witness:
  "parseSelectionVerdicts (formatSelectionVerdicts verdict_examples) = Inr verdict_examples"
proof (rule selection_verdicts_roundtrip)
  show "\<forall>v \<in> set verdict_examples. verdict_spellable v" by code_simp
qed

text \<open>
  The line format has no escape: an attestation reason may hold a line break
  (\<open>ValidateAttestationReason\<close> refuses blank reasons only), and the rest of the reason then stands as
  lines of their own. Unless each of them happens to spell a verdict, the parser refuses the text.
\<close>

lemma split_on_many: "c \<in> set xs \<Longrightarrow> 2 \<le> length (split_on c xs)"
proof (induction xs)
  case (Cons x xs)
  then show ?case by (cases "split_on c xs") (auto split: list.splits)
qed simp

lemma split_on_some: "1 \<le> length (split_on c xs)"
  by (induction xs) (auto split: list.splits)

lemma traverse_length: "traverse f xs = Inr ys \<Longrightarrow> length ys = length xs"
  by (induction xs arbitrary: ys) (auto split: sum.splits)

lemma more_lines:
  assumes "l \<in> set ls" "c \<in> set l"
  shows "length ls < length (concat (map (split_on c) ls))"
  using assms
proof (induction ls)
  case (Cons k ls)
  have rest: "length ls \<le> length (concat (map (split_on c) ls))" for ls
    by (induction ls) (use split_on_some [of c] in \<open>auto intro: add_mono order_trans\<close>)
  show ?case
  proof (cases "l = k")
    case True
    then show ?thesis using split_on_many [OF Cons.prems(2)] rest [of ls] by simp
  next
    case False
    then show ?thesis using Cons split_on_some [of c k] by simp
  qed
qed simp

lemma reason_line_refused:
  assumes "\<not> str_contains (v_Selection v) '': ''" "\<not> has_suffix r '')''"
  shows "\<exists>e. parse_verdict_line (verdict_sel v @ '': '' @ ''attested ('' @ r) = Inl e"
proof -
  let ?rest = "''attested ('' @ r"
  have "\<not> str_contains (verdict_sel v) '': ''"
    using assms(1) by (auto simp: verdict_sel_def str_contains_def has_prefix_def)
  then have cut: "str_cut '': '' (verdict_sel v @ '': '' @ ?rest) = Some (verdict_sel v, ?rest)"
    by (rule str_cut_first)
  have "\<not> has_suffix ?rest '')''"
  proof (cases r rule: rev_cases)
    case (snoc r' c)
    then show ?thesis using assms(2) by (simp add: has_suffix_def has_prefix_def)
  qed (simp add: has_suffix_def has_prefix_def)
  then have "parse_disposition line sel ?rest = Inl (MalformedVerdict line)" for line sel
    by (simp add: parse_disposition_def has_prefix_def)
  then show ?thesis
    by (simp only: parse_verdict_line_def cut option.case prod.case) simp
qed

lemma reason_break_adds_lines:
  assumes "v \<in> set vs" "v_Disposition v = ''attested''" "newline \<in> set (v_Reason v)"
    and "parseSelectionVerdicts (formatSelectionVerdicts vs) = Inr ws"
  shows "length vs < length ws"
proof -
  let ?ls = "map formatSelectionVerdict vs"
  have "newline \<in> set (formatSelectionVerdict v)"
    using assms(2,3) by (simp add: format_parts verdict_rest_def)
  then have "length vs < length (concat (map (split_on newline) ?ls))"
    using more_lines [of "formatSelectionVerdict v" ?ls newline] assms(1) by simp
  moreover have ne: "vs \<noteq> []" using assms(1) by auto
  moreover have "join [newline] ?ls \<noteq> []"
    using ne by (cases vs rule: remdups_adj.cases) (auto simp: format_parts)
  moreover have "split_on newline (join [newline] ?ls) = concat (map (split_on newline) ?ls)"
    using ne by (intro split_join_concat) simp
  ultimately show ?thesis
    using traverse_length [of parse_verdict_line _ ws] assms(4)
    by (simp add: parseSelectionVerdicts_def formatSelectionVerdicts_def)
qed

lemma reason_break_refused:
  assumes "v \<in> set vs" "v_Disposition v = ''attested''" "v_Reason v = r @ newline # r'"
    and "newline \<notin> set r" "\<not> has_suffix r '')''" "newline \<notin> set (v_Selection v)"
    and "\<not> str_contains (v_Selection v) '': ''"
  shows "\<exists>e. parseSelectionVerdicts (formatSelectionVerdicts vs) = Inl e"
proof -
  let ?head = "verdict_sel v @ '': '' @ ''attested ('' @ r"
  let ?ls = "map formatSelectionVerdict vs"
  have "formatSelectionVerdict v = ?head @ newline # r' @ '')''"
    using assms(2,3) by (simp add: format_parts verdict_rest_def)
  moreover have "newline \<notin> set ?head"
    using assms(4,6) by (auto simp: verdict_sel_def newline_def)
  ultimately have "?head \<in> set (split_on newline (formatSelectionVerdict v))"
    using split_on_append [of newline ?head "r' @ '')''"] by simp
  moreover have "vs \<noteq> []" using assms(1) by auto
  ultimately have line: "?head \<in> set (split_on newline (join [newline] ?ls))"
    using assms(1) split_join_concat [of ?ls newline] by auto
  have "join [newline] ?ls \<noteq> []"
    using \<open>vs \<noteq> []\<close> by (cases vs rule: remdups_adj.cases) (auto simp: format_parts)
  moreover obtain e where "parse_verdict_line ?head = Inl e"
    using reason_line_refused [OF assms(7,5)] by blast
  ultimately show ?thesis
    using traverse_bad [OF line] by (simp add: parseSelectionVerdicts_def formatSelectionVerdicts_def)
qed

text \<open>C31: A reason with a line break in it passes the reason check, yet no advisory text written with such a
  verdict reads back as the verdicts it was written from: whenever the parser accepts the text at all, it reads
  more verdicts than were written (the rest of the reason becomes verdicts of its own); and it refuses the
  text, so that the record that carries it does not validate, whenever the reason's first line does not end in
  a closing parenthesis and the selection holds no separator of the line.\<close>

theorem newline_reason_unreadable:
  assumes "v \<in> set vs" "v_Disposition v = ''attested''" "newline \<in> set (v_Reason v)"
  shows "parseSelectionVerdicts (formatSelectionVerdicts vs) \<noteq> Inr vs \<and>
    (\<forall>ws. parseSelectionVerdicts (formatSelectionVerdicts vs) = Inr ws \<longrightarrow> length vs < length ws) \<and>
    (\<not> has_suffix (takeWhile (\<lambda>c. c \<noteq> newline) (v_Reason v)) '')'' \<and> newline \<notin> set (v_Selection v) \<and>
       \<not> str_contains (v_Selection v) '': '' \<longrightarrow>
     (\<exists>e. parseSelectionVerdicts (formatSelectionVerdicts vs) = Inl e))"
proof (intro conjI allI impI)
  show "length vs < length ws" if "parseSelectionVerdicts (formatSelectionVerdicts vs) = Inr ws" for ws
    using reason_break_adds_lines [OF assms that] .
  then show "parseSelectionVerdicts (formatSelectionVerdicts vs) \<noteq> Inr vs" by blast
next
  let ?r = "takeWhile (\<lambda>c. c \<noteq> newline) (v_Reason v)"
  assume ok: "\<not> has_suffix ?r '')'' \<and> newline \<notin> set (v_Selection v) \<and> \<not> str_contains (v_Selection v) '': ''"
  obtain r r' where "v_Reason v = r @ newline # r'" "newline \<notin> set r"
    using split_list_first [OF assms(3)] by blast
  moreover from this have "?r = r" by (auto simp: takeWhile_append)
  ultimately show "\<exists>e. parseSelectionVerdicts (formatSelectionVerdicts vs) = Inl e"
    using reason_break_refused [OF assms(1,2)] ok by blast
qed

definition two_line_verdict :: selection_verdict where
  "two_line_verdict = \<lparr>v_Selection = [], v_Disposition = ''attested'', v_Killer = [],
     v_Reason = ''one'' @ newline # ''two''\<rparr>"

definition split_reason_verdict :: selection_verdict where
  "split_reason_verdict = \<lparr>v_Selection = [], v_Disposition = ''attested'', v_Killer = [],
     v_Reason = ''a)'' @ newline # ''default: attested (b''\<rparr>"

theorem newline_reason_unreadable_witness:
  "ValidateAttestationReason (v_Reason two_line_verdict) \<and>
   (\<exists>e. parseSelectionVerdicts (formatSelectionVerdicts [two_line_verdict]) = Inl e) \<and>
   parseSelectionVerdicts (formatSelectionVerdicts [split_reason_verdict]) =
     Inr [two_line_verdict\<lparr>v_Reason := ''a''\<rparr>, two_line_verdict\<lparr>v_Reason := ''b''\<rparr>] \<and>
   parseSelectionVerdicts (formatSelectionVerdicts [split_reason_verdict]) \<noteq> Inr [split_reason_verdict]"
proof (intro conjI)
  show "ValidateAttestationReason (v_Reason two_line_verdict)" by code_simp
  show "\<exists>e. parseSelectionVerdicts (formatSelectionVerdicts [two_line_verdict]) = Inl e"
    using newline_reason_unreadable [of two_line_verdict "[two_line_verdict]"]
    by (simp add: two_line_verdict_def newline_def has_suffix_def has_prefix_def str_contains_def)
  show "parseSelectionVerdicts (formatSelectionVerdicts [split_reason_verdict]) =
     Inr [two_line_verdict\<lparr>v_Reason := ''a''\<rparr>, two_line_verdict\<lparr>v_Reason := ''b''\<rparr>]" by code_simp
  show "parseSelectionVerdicts (formatSelectionVerdicts [split_reason_verdict]) \<noteq> Inr [split_reason_verdict]"
    using newline_reason_unreadable [of split_reason_verdict "[split_reason_verdict]"]
    by (simp add: split_reason_verdict_def)
qed

subsection \<open>The annotation pass\<close>

fun find_first :: "('a \<Rightarrow> bool) \<Rightarrow> 'a list \<Rightarrow> 'a option" where
  "find_first P [] = None"
| "find_first P (x # xs) = (if P x then Some x else find_first P xs)"

definition selectionVerdictFrom :: "finding \<Rightarrow> survivor_key \<Rightarrow> string \<Rightarrow> selection_verdict option" where
  "selectionVerdictFrom other key site =
     (case find_first (\<lambda>k. k_key k = key) (f_Kills other) of
        Some k \<Rightarrow> Some \<lparr>v_Selection = f_Selection other, v_Disposition = ''killed'',
                          v_Killer = k_Killer k, v_Reason = []\<rparr>
      | None \<Rightarrow>
          (case find_first (\<lambda>s. s_key s = key) (f_Survivors other) of
             None \<Rightarrow> None
           | Some s \<Rightarrow>
               if site \<noteq> [] \<and> s_Site s \<noteq> [] \<and> site \<noteq> s_Site s then None
               else (case find_first (\<lambda>a. a_key a = key) (f_Attested other) of
                   Some a \<Rightarrow> Some \<lparr>v_Selection = f_Selection other, v_Disposition = ''attested'',
                                     v_Killer = [], v_Reason = a_Reason a\<rparr>
                 | None \<Rightarrow> Some \<lparr>v_Selection = f_Selection other, v_Disposition = ''survived'',
                                  v_Killer = [], v_Reason = []\<rparr>)))"

text \<open>\<open>bySymbol[f.Symbol]\<close> as indices, in input order; skipped findings are in no group.\<close>

definition symbol_group :: "finding list \<Rightarrow> string \<Rightarrow> nat list" where
  "symbol_group fs smb = [j \<leftarrow> [0..<length fs]. f_Skipped (fs ! j) = [] \<and> f_Symbol (fs ! j) = smb]"

definition sibling_verdicts :: "finding list \<Rightarrow> nat \<Rightarrow> survivor \<Rightarrow> selection_verdict list" where
  "sibling_verdicts fs i s =
     (let f = fs ! i in
      List.map_filter (\<lambda>j.
        if j = i then None
        else let other = fs ! j in
          if f_Selection other = f_Selection f then None
          else if OracleExecutionPolicyIssue other \<noteq> [] then None
          else if f_BodyHash other \<noteq> f_BodyHash f \<or> f_OperatorSet other \<noteq> f_OperatorSet f then None
          else selectionVerdictFrom other (s_key s) (s_Site s))
        (symbol_group fs (f_Symbol f)))"

definition annotated_at :: "finding list \<Rightarrow> nat \<Rightarrow> finding" where
  "annotated_at fs i =
     (let f = fs ! i in
      if f_Skipped f \<noteq> [] \<or> length (symbol_group fs (f_Symbol f)) < 2 then f
      else if OracleExecutionPolicyIssue f \<noteq> [] then
        f\<lparr>f_Survivors := map (\<lambda>s. s\<lparr>s_OtherSelection := []\<rparr>) (f_Survivors f)\<rparr>
      else f\<lparr>f_Survivors := map (\<lambda>s. s\<lparr>s_OtherSelection :=
          formatSelectionVerdicts (sort_key v_Selection (sibling_verdicts fs i s))\<rparr>) (f_Survivors f)\<rparr>)"

definition AnnotateSelectionVerdicts :: "finding list \<Rightarrow> finding list" where
  "AnnotateSelectionVerdicts fs = map (annotated_at fs) [0..<length fs]"

text \<open>A finding without its advisory lines: what an annotation may not touch.\<close>

definition unadvised :: "finding \<Rightarrow> finding" where
  "unadvised f = f\<lparr>f_Survivors := map (\<lambda>s. s\<lparr>s_OtherSelection := []\<rparr>) (f_Survivors f)\<rparr>"

lemma find_first_Some: "find_first P xs = Some x \<Longrightarrow> x \<in> set xs \<and> P x"
  by (induction xs) (auto split: if_splits)

lemma find_first_None: "find_first P xs = None \<longleftrightarrow> (\<forall>x \<in> set xs. \<not> P x)"
  by (induction xs) auto

lemma find_first_map: "(\<And>x. P (h x) = P x) \<Longrightarrow> find_first P (map h xs) = map_option h (find_first P xs)"
  by (induction xs) auto

lemma unadvised_annotated: "unadvised (annotated_at fs i) = unadvised (fs ! i)"
  by (simp add: unadvised_def annotated_at_def Let_def comp_def)

lemma length_Annotate [simp]: "length (AnnotateSelectionVerdicts fs) = length fs"
  by (simp add: AnnotateSelectionVerdicts_def)

lemma nth_Annotate: "i < length fs \<Longrightarrow> AnnotateSelectionVerdicts fs ! i = annotated_at fs i"
  by (simp add: AnnotateSelectionVerdicts_def)

lemma unadvised_simps [simp]:
  "f_Symbol (unadvised f) = f_Symbol f"
  "f_Selection (unadvised f) = f_Selection f"
  "f_Skipped (unadvised f) = f_Skipped f"
  "f_Kills (unadvised f) = f_Kills f"
  "f_Attested (unadvised f) = f_Attested f"
  "f_BodyHash (unadvised f) = f_BodyHash f"
  "f_OperatorSet (unadvised f) = f_OperatorSet f"
  "OracleExecutionPolicyIssue (unadvised f) = OracleExecutionPolicyIssue f"
  by (simp_all add: unadvised_def OracleExecutionPolicyIssue_def)

lemma selectionVerdictFrom_unadvised [simp]:
  "selectionVerdictFrom (unadvised f) key site = selectionVerdictFrom f key site"
proof -
  have "find_first (\<lambda>s. s_key s = key) (f_Survivors (unadvised f)) =
      map_option (\<lambda>s. s\<lparr>s_OtherSelection := []\<rparr>) (find_first (\<lambda>s. s_key s = key) (f_Survivors f))"
    by (simp add: unadvised_def find_first_map s_key_def)
  then show ?thesis by (simp add: selectionVerdictFrom_def split: option.splits)
qed

text \<open>The pass reads its input only through what an annotation leaves alone.\<close>

lemma symbol_group_unadvised:
  assumes "length gs = length fs" "\<And>j. j < length fs \<Longrightarrow> unadvised (gs ! j) = unadvised (fs ! j)"
  shows "symbol_group gs smb = symbol_group fs smb"
proof -
  have "f_Skipped (gs ! j) = f_Skipped (fs ! j)" "f_Symbol (gs ! j) = f_Symbol (fs ! j)"
    if "j < length fs" for j
    using assms(2) [OF that] by (metis unadvised_simps(3), metis unadvised_simps(1))
  then show ?thesis
    unfolding symbol_group_def assms(1) by (intro filter_cong) simp_all
qed

lemma map_filter_cong: "(\<And>x. x \<in> set xs \<Longrightarrow> g x = h x) \<Longrightarrow> List.map_filter g xs = List.map_filter h xs"
  by (induction xs) (auto split: option.split)

lemma sibling_verdicts_unadvised:
  assumes "length gs = length fs" "\<And>j. j < length fs \<Longrightarrow> unadvised (gs ! j) = unadvised (fs ! j)"
    and "i < length fs" "s_key s = s_key s'" "s_Site s = s_Site s'"
  shows "sibling_verdicts gs i s = sibling_verdicts fs i s'"
proof -
  have eqs: "f_Symbol (gs ! j) = f_Symbol (fs ! j)" "f_Selection (gs ! j) = f_Selection (fs ! j)"
    "f_BodyHash (gs ! j) = f_BodyHash (fs ! j)" "f_OperatorSet (gs ! j) = f_OperatorSet (fs ! j)"
    "OracleExecutionPolicyIssue (gs ! j) = OracleExecutionPolicyIssue (fs ! j)"
    "selectionVerdictFrom (gs ! j) k x = selectionVerdictFrom (fs ! j) k x"
    if "j < length fs" for j k x
    using assms(2) [OF that]
    by (metis unadvised_simps(1), metis unadvised_simps(2), metis unadvised_simps(6),
        metis unadvised_simps(7), metis unadvised_simps(8), metis selectionVerdictFrom_unadvised)
  show ?thesis
    unfolding sibling_verdicts_def Let_def symbol_group_unadvised [OF assms(1,2), simplified]
      eqs(1) [OF assms(3)]
    by (rule map_filter_cong)
      (use assms(3-5) eqs in \<open>auto simp: symbol_group_def\<close>)
qed

text \<open>Annotating twice is annotating once: the advisory lines never feed on themselves.\<close>

theorem annotate_idempotent:
  "AnnotateSelectionVerdicts (AnnotateSelectionVerdicts fs) = AnnotateSelectionVerdicts fs"
proof (rule nth_equalityI)
  fix i assume "i < length (AnnotateSelectionVerdicts (AnnotateSelectionVerdicts fs))"
  then have i: "i < length fs" by simp
  let ?gs = "AnnotateSelectionVerdicts fs"
  have un: "unadvised (?gs ! j) = unadvised (fs ! j)" if "j < length fs" for j
    using that by (simp add: nth_Annotate unadvised_annotated)
  have grp: "symbol_group ?gs smb = symbol_group fs smb" for smb
    by (rule symbol_group_unadvised) (use un in auto)
  have sib: "sibling_verdicts ?gs i s = sibling_verdicts fs i s'"
    if "s_key s = s_key s'" "s_Site s = s_Site s'" for s s'
    by (rule sibling_verdicts_unadvised) (use un i that in auto)
  have gi: "?gs ! i = annotated_at fs i" using i by (simp add: nth_Annotate)
  have "annotated_at ?gs i = annotated_at fs i"
    unfolding annotated_at_def [of ?gs i] Let_def grp gi
    by (simp add: annotated_at_def Let_def OracleExecutionPolicyIssue_def comp_def
        sib [of "s\<lparr>s_OtherSelection := x\<rparr>" s for s x] s_key_def)
  then show "AnnotateSelectionVerdicts ?gs ! i = ?gs ! i"
    using i by (simp add: nth_Annotate)
qed simp

text \<open>The annotation pass changes advisory lines only: counts, kills, survivors' identities,
  dispositions and evidence of every finding are untouched.\<close>

theorem annotate_only_advises:
  "map unadvised (AnnotateSelectionVerdicts fs) = map unadvised fs"
  by (rule nth_equalityI) (simp_all add: nth_Annotate unadvised_annotated)

end
