(* ===== verification/Dispositions.thy ===== *)
theory Dispositions
  imports Verdicts
begin

text \<open>
  Survivor dispositions (\<open>findings.go\<close>): open survivors, attesting, re-attesting and withdrawing,
  the document-level operation both faces of the program call, and the views sorted for display.
\<close>

subsection \<open>Views\<close>

definition Open :: "finding \<Rightarrow> survivor list" where
  "Open f = sort_key s_key (filter (\<lambda>s. s_key s \<notin> a_key ` set (f_Attested f)) (f_Survivors f))"

definition AttestedDispositions :: "finding \<Rightarrow> attestation list" where
  "AttestedDispositions f = sort_key a_key (f_Attested f)"

definition WithdrawnDispositions :: "finding \<Rightarrow> withdrawn_attestation list" where
  "WithdrawnDispositions f = sort_key w_key (f_Withdrawn f)"

record record_filter =
  rf_Label :: string
  rf_Symbol :: string
  rf_Run :: string
  rf_Selection :: string
  rf_HasSelection :: bool

definition Admits :: "record_filter \<Rightarrow> finding \<Rightarrow> bool" where
  "Admits r f \<longleftrightarrow>
     (if rf_Label r \<noteq> [] \<and> rf_Label r \<notin> set (f_Labels f) then False
      else if rf_Symbol r \<noteq> [] \<and> f_Symbol f \<noteq> rf_Symbol r then False
      else if rf_Run r \<noteq> [] \<and> f_Run f \<noteq> rf_Run r then False
      else if (rf_HasSelection r \<or> rf_Selection r \<noteq> []) \<and> f_Selection f \<noteq> rf_Selection r then False
      else True)"

text \<open>\<open>budgetCovers\<close>: the recorded candidate prefix covers a request, 0 asking for every candidate.\<close>

definition budgetCovers :: "finding \<Rightarrow> int \<Rightarrow> bool" where
  "budgetCovers f req =
     (let needed = (if req > 0 then min req (f_CandidateCount f) else f_CandidateCount f) in
      f_Generated f \<ge> needed)"

subsection \<open>Attesting\<close>

datatype attest_error =
    NeedsReason
  | PolicyIssue string string
  | NoSurvivor string string string
  | AlreadyAttested string string
  | NotAttested string string
  | ConflictingOptions
  | NoFinding string string
  | AmbiguousSelection string

definition Attest :: "string \<Rightarrow> string \<Rightarrow> string \<Rightarrow> finding \<Rightarrow> attest_error + finding" where
  "Attest position operator reason f =
     (if reason = [] then Inl NeedsReason
      else if OracleExecutionPolicyIssue f \<noteq> [] then
        Inl (PolicyIssue (f_Symbol f) (OracleExecutionPolicyIssue f))
      else case find_first (\<lambda>s. s_key s = (position, operator)) (f_Survivors f) of
        None \<Rightarrow> Inl (NoSurvivor (f_Symbol f) position operator)
      | Some s \<Rightarrow>
          if \<exists>a \<in> set (f_Attested f). a_key a = (position, operator) then
            Inl (AlreadyAttested position operator)
          else Inr (f\<lparr>
            f_Withdrawn := filter (\<lambda>w. w_key w \<noteq> (position, operator)) (f_Withdrawn f),
            f_Attested := f_Attested f @ [\<lparr>a_Position = position, a_Operator = operator,
              a_Reason = reason, a_Site = s_Site s\<rparr>]\<rparr>))"

text \<open>Loops that edit the first match in place, and that delete it.\<close>

fun update_first :: "('a \<Rightarrow> bool) \<Rightarrow> ('a \<Rightarrow> 'a) \<Rightarrow> 'a list \<Rightarrow> 'a list" where
  "update_first P g [] = []"
| "update_first P g (x # xs) = (if P x then g x # xs else x # update_first P g xs)"

fun delete_first :: "('a \<Rightarrow> bool) \<Rightarrow> 'a list \<Rightarrow> 'a list" where
  "delete_first P [] = []"
| "delete_first P (x # xs) = (if P x then xs else x # delete_first P xs)"

definition Reattest :: "string \<Rightarrow> string \<Rightarrow> string \<Rightarrow> finding \<Rightarrow> attest_error + finding" where
  "Reattest position operator reason f =
     (if reason = [] then Inl NeedsReason
      else if OracleExecutionPolicyIssue f \<noteq> [] then
        Inl (PolicyIssue (f_Symbol f) (OracleExecutionPolicyIssue f))
      else case find_first (\<lambda>s. s_key s = (position, operator)) (f_Survivors f) of
        None \<Rightarrow> Inl (NoSurvivor (f_Symbol f) position operator)
      | Some s \<Rightarrow>
          if \<exists>a \<in> set (f_Attested f). a_key a = (position, operator) then
            Inr (f\<lparr>f_Attested := update_first (\<lambda>a. a_key a = (position, operator))
              (\<lambda>a. a\<lparr>a_Reason := reason, a_Site := s_Site s\<rparr>) (f_Attested f)\<rparr>)
          else Inl (NotAttested position operator))"

definition WithdrawAttestation :: "string \<Rightarrow> string \<Rightarrow> string \<Rightarrow> finding \<Rightarrow> attest_error + finding" where
  "WithdrawAttestation position operator reason f =
     (if reason = [] then Inl NeedsReason
      else let site = (case find_first (\<lambda>s. s_key s = (position, operator)) (f_Survivors f) of
                 None \<Rightarrow> [] | Some s \<Rightarrow> s_Site s) in
        case find_first (\<lambda>a. a_key a = (position, operator)) (f_Attested f) of
          None \<Rightarrow> Inl (NotAttested position operator)
        | Some a \<Rightarrow> Inr (f\<lparr>
            f_Attested := delete_first (\<lambda>a. a_key a = (position, operator)) (f_Attested f),
            f_Withdrawn := filter (\<lambda>w. w_key w \<noteq> (position, operator)) (f_Withdrawn f) @
              [\<lparr>w_Position = position, w_Operator = operator, w_PriorReason = a_Reason a,
                w_Reason = reason, w_Site = (if site = [] then a_Site a else site)\<rparr>]\<rparr>))"

subsection \<open>The invariant of a finding's dispositions\<close>

text \<open>
  What the encoding's validator demands of the disposition rows: complete rows, one per key,
  naming survivors, and none both attested and withdrawn.
\<close>

definition dispositions_ok :: "finding \<Rightarrow> bool" where
  "dispositions_ok f \<longleftrightarrow>
     distinct (map s_key (f_Survivors f)) \<and>
     (\<forall>s \<in> set (f_Survivors f). s_Position s \<noteq> [] \<and> s_Operator s \<noteq> []) \<and>
     distinct (map a_key (f_Attested f)) \<and> a_key ` set (f_Attested f) \<subseteq> s_key ` set (f_Survivors f) \<and>
     (\<forall>a \<in> set (f_Attested f). a_Reason a \<noteq> []) \<and>
     distinct (map w_key (f_Withdrawn f)) \<and> w_key ` set (f_Withdrawn f) \<subseteq> s_key ` set (f_Survivors f) \<and>
     (\<forall>w \<in> set (f_Withdrawn f). w_PriorReason w \<noteq> [] \<and> w_Reason w \<noteq> []) \<and>
     a_key ` set (f_Attested f) \<inter> w_key ` set (f_Withdrawn f) = {}"

lemma dispositions_okD:
  assumes "dispositions_ok f"
  shows "distinct (map s_key (f_Survivors f))"
    and "distinct (map a_key (f_Attested f))"
    and "a_key ` set (f_Attested f) \<subseteq> s_key ` set (f_Survivors f)"
    and "\<And>a. a \<in> set (f_Attested f) \<Longrightarrow> a_Reason a \<noteq> []"
    and "distinct (map w_key (f_Withdrawn f))"
    and "w_key ` set (f_Withdrawn f) \<subseteq> s_key ` set (f_Survivors f)"
    and "\<And>w. w \<in> set (f_Withdrawn f) \<Longrightarrow> w_PriorReason w \<noteq> [] \<and> w_Reason w \<noteq> []"
    and "a_key ` set (f_Attested f) \<inter> w_key ` set (f_Withdrawn f) = {}"
  using assms by (simp_all add: dispositions_ok_def)

lemma map_update_first: "(\<And>x. h (g x) = h x) \<Longrightarrow> map h (update_first P g xs) = map h xs"
  by (induction xs) auto

lemma set_update_first: "set (update_first P g xs) \<subseteq> set xs \<union> g ` {x \<in> set xs. P x}"
  by (induction xs) auto

lemma set_delete_first: "set (delete_first P xs) \<subseteq> set xs"
  by (induction xs) auto

lemma delete_first_keys:
  "distinct (map h xs) \<Longrightarrow> delete_first (\<lambda>x. h x = k) xs = filter (\<lambda>x. h x \<noteq> k) xs"
proof (induction xs)
  case (Cons x xs)
  then have "h x = k \<Longrightarrow> filter (\<lambda>y. h y \<noteq> k) xs = xs"
    by (auto simp: filter_id_conv image_iff)
  with Cons show ?case by simp
qed simp

lemma distinct_map_filter_fst: "distinct (map h xs) \<Longrightarrow> distinct (map h (filter P xs))"
  by (induction xs) auto

lemmas key_ops = delete_first_keys distinct_map_filter_fst map_update_first

fun_cases traverse_InrE: "traverse g (x # xs) = Inr ys"

lemma Attest_Inr:
  "Attest p op r f = Inr f' \<longleftrightarrow> r \<noteq> [] \<and> OracleExecutionPolicyIssue f = [] \<and>
     (p, op) \<notin> a_key ` set (f_Attested f) \<and>
     (\<exists>s. find_first (\<lambda>s. s_key s = (p, op)) (f_Survivors f) = Some s \<and>
       f' = f\<lparr>f_Withdrawn := filter (\<lambda>w. w_key w \<noteq> (p, op)) (f_Withdrawn f),
         f_Attested := f_Attested f @ [\<lparr>a_Position = p, a_Operator = op, a_Reason = r, a_Site = s_Site s\<rparr>]\<rparr>)"
  by (force simp: Attest_def split: option.splits if_splits)

lemma Reattest_Inr:
  "Reattest p op r f = Inr f' \<longleftrightarrow> r \<noteq> [] \<and> OracleExecutionPolicyIssue f = [] \<and>
     (p, op) \<in> a_key ` set (f_Attested f) \<and>
     (\<exists>s. find_first (\<lambda>s. s_key s = (p, op)) (f_Survivors f) = Some s \<and>
       f' = f\<lparr>f_Attested := update_first (\<lambda>a. a_key a = (p, op))
         (\<lambda>a. a\<lparr>a_Reason := r, a_Site := s_Site s\<rparr>) (f_Attested f)\<rparr>)"
  by (force simp: Reattest_def split: option.splits if_splits)

lemma Withdraw_Inr:
  "WithdrawAttestation p op r f = Inr f' \<longleftrightarrow> r \<noteq> [] \<and>
     (\<exists>a site. find_first (\<lambda>a. a_key a = (p, op)) (f_Attested f) = Some a \<and>
       site = (case find_first (\<lambda>s. s_key s = (p, op)) (f_Survivors f) of None \<Rightarrow> [] | Some s \<Rightarrow> s_Site s) \<and>
       f' = f\<lparr>f_Attested := delete_first (\<lambda>a. a_key a = (p, op)) (f_Attested f),
         f_Withdrawn := filter (\<lambda>w. w_key w \<noteq> (p, op)) (f_Withdrawn f) @
           [\<lparr>w_Position = p, w_Operator = op, w_PriorReason = a_Reason a, w_Reason = r,
             w_Site = (if site = [] then a_Site a else site)\<rparr>]\<rparr>)"
  by (auto simp: WithdrawAttestation_def Let_def split: option.splits)

lemma Attest_ok:
  assumes "dispositions_ok f" "Attest p op r f = Inr f'"
  shows "dispositions_ok f'"
proof -
  obtain s where s: "s \<in> set (f_Survivors f)" "s_key s = (p, op)"
    and f': "f' = f\<lparr>f_Withdrawn := filter (\<lambda>w. w_key w \<noteq> (p, op)) (f_Withdrawn f),
      f_Attested := f_Attested f @ [\<lparr>a_Position = p, a_Operator = op, a_Reason = r, a_Site = s_Site s\<rparr>]\<rparr>"
    and r: "r \<noteq> []" "(p, op) \<notin> a_key ` set (f_Attested f)"
    using assms(2) unfolding Attest_Inr by (blast dest: find_first_Some)
  have "(p, op) \<in> s_key ` set (f_Survivors f)" using s by force
  then show ?thesis
    using assms(1) r unfolding dispositions_ok_def f'
    by (auto simp: key_ops a_key_def)
qed

lemma Reattest_ok:
  assumes "dispositions_ok f" "Reattest p op r f = Inr f'"
  shows "dispositions_ok f'"
proof -
  obtain s :: survivor where f': "f' = f\<lparr>f_Attested := update_first (\<lambda>a. a_key a = (p, op))
      (\<lambda>a. a\<lparr>a_Reason := r, a_Site := s_Site s\<rparr>) (f_Attested f)\<rparr>" and r: "r \<noteq> []"
    using assms(2) unfolding Reattest_Inr by blast
  have keys: "map a_key (f_Attested f') = map a_key (f_Attested f)"
    by (simp add: f' map_update_first a_key_def)
  then have img: "a_key ` set (f_Attested f') = a_key ` set (f_Attested f)"
    by (metis list.set_map)
  have "\<forall>a \<in> set (f_Attested f'). a_Reason a \<noteq> []"
    using set_update_first [of "\<lambda>a. a_key a = (p, op)" _ "f_Attested f"] r dispositions_okD(4) [OF assms(1)]
    unfolding f' by fastforce
  then show ?thesis
    using assms(1) by (simp only: dispositions_ok_def keys img) (simp add: f')
qed

lemma Withdraw_ok:
  assumes "dispositions_ok f" "WithdrawAttestation p op r f = Inr f'"
  shows "dispositions_ok f'"
proof -
  obtain a site where a: "a \<in> set (f_Attested f)" "a_key a = (p, op)" and r: "r \<noteq> []"
    and f': "f' = f\<lparr>f_Attested := delete_first (\<lambda>a. a_key a = (p, op)) (f_Attested f),
      f_Withdrawn := filter (\<lambda>w. w_key w \<noteq> (p, op)) (f_Withdrawn f) @
        [\<lparr>w_Position = p, w_Operator = op, w_PriorReason = a_Reason a, w_Reason = r,
          w_Site = (if site = [] then a_Site a else site)\<rparr>]\<rparr>"
    using assms(2) unfolding Withdraw_Inr by (blast dest: find_first_Some)
  have "(p, op) \<in> s_key ` set (f_Survivors f)"
    using a dispositions_okD(3) [OF assms(1)] by force
  then show ?thesis
    using assms(1) r a unfolding dispositions_ok_def f' by (auto simp: key_ops w_key_def)
qed

subsection \<open>The document-level operation\<close>

record attest_options =
  ao_Selection :: string
  ao_HasSelection :: bool
  ao_Reattest :: bool
  ao_Withdraw :: bool

fun find_index :: "('a \<Rightarrow> bool) \<Rightarrow> 'a list \<Rightarrow> nat option" where
  "find_index P [] = None"
| "find_index P (x # xs) = (if P x then Some 0 else map_option Suc (find_index P xs))"

text \<open>
  The record an attestation names: the scoped selection's, or without a scope the default
  selection's, or the only record of the symbol.
\<close>

definition attest_target :: "finding list \<Rightarrow> string \<Rightarrow> attest_options \<Rightarrow> attest_error + nat" where
  "attest_target all symbol opts =
     (if ao_HasSelection opts \<or> ao_Selection opts \<noteq> [] then
        (case find_index (\<lambda>f. f_Symbol f = symbol \<and> f_Selection f = ao_Selection opts) all of
           None \<Rightarrow> Inl (NoFinding symbol (ao_Selection opts)) | Some i \<Rightarrow> Inr i)
      else case find_index (\<lambda>f. f_Symbol f = symbol \<and> f_Selection f = []) all of
        Some i \<Rightarrow> Inr i
      | None \<Rightarrow>
          (case [i \<leftarrow> [0..<length all]. f_Symbol (all ! i) = symbol \<and> f_Selection (all ! i) \<noteq> []] of
             [] \<Rightarrow> Inl (NoFinding symbol [])
           | [i] \<Rightarrow> Inr i
           | _ \<Rightarrow> Inl (AmbiguousSelection symbol)))"

definition apply_disposition_op ::
    "attest_options \<Rightarrow> string \<Rightarrow> string \<Rightarrow> string \<Rightarrow> finding \<Rightarrow> attest_error + finding" where
  "apply_disposition_op opts position operator reason =
     (if ao_Withdraw opts then WithdrawAttestation position operator reason
      else if ao_Reattest opts then Reattest position operator reason
      else Attest position operator reason)"

definition AttestFindingWithOptions ::
    "finding list \<Rightarrow> string \<Rightarrow> string \<Rightarrow> string \<Rightarrow> string \<Rightarrow> attest_options \<Rightarrow>
     attest_error + (finding list \<times> finding)" where
  "AttestFindingWithOptions all symbol position operator reason opts =
     (if ao_Reattest opts \<and> ao_Withdraw opts then Inl ConflictingOptions
      else if \<not> ValidateAttestationReason reason then Inl NeedsReason
      else case attest_target all symbol opts of
        Inl e \<Rightarrow> Inl e
      | Inr i \<Rightarrow>
          (case apply_disposition_op opts position operator reason (all ! i) of
             Inl e \<Rightarrow> Inl e
           | Inr f \<Rightarrow> (let all' = AnnotateSelectionVerdicts (all[i := f]) in Inr (all', all' ! i))))"

text \<open>
  The contract of a disposition operation: it keeps the disposition invariant, leaves the mutants
  of the record alone and refuses without a reason.
\<close>

locale disposition_op =
  fixes op :: "string \<Rightarrow> string \<Rightarrow> string \<Rightarrow> finding \<Rightarrow> attest_error + finding"
  assumes op_ok: "dispositions_ok f \<Longrightarrow> op p r why f = Inr f' \<Longrightarrow> dispositions_ok f'"
    and op_frame: "op p r why f = Inr f' \<Longrightarrow>
      f' = f\<lparr>f_Attested := f_Attested f', f_Withdrawn := f_Withdrawn f'\<rparr>"
    and op_elsewhere: "op p r why f = Inr f' \<Longrightarrow>
      filter (\<lambda>a. a_key a \<noteq> (p, r)) (f_Attested f') = filter (\<lambda>a. a_key a \<noteq> (p, r)) (f_Attested f)"
    and op_elsewhere_withdrawn: "op p r why f = Inr f' \<Longrightarrow>
      filter (\<lambda>w. w_key w \<noteq> (p, r)) (f_Withdrawn f') = filter (\<lambda>w. w_key w \<noteq> (p, r)) (f_Withdrawn f)"
    and op_reason: "op p r why f = Inr f' \<Longrightarrow> why \<noteq> []"
begin

lemma op_fields:
  assumes "op p r why f = Inr f'"
  shows "f_Survivors f' = f_Survivors f" "f_Kills f' = f_Kills f" "recordKey f' = recordKey f"
    "f_Symbol f' = f_Symbol f" "f_Selection f' = f_Selection f" "f_Skipped f' = f_Skipped f"
  by (subst op_frame [OF assms], simp add: recordKey_def)+

text \<open>Only the named mutant's disposition can change.\<close>

lemma op_attested_iff:
  assumes "op p r why f = Inr f'" "k \<noteq> (p, r)"
  shows "k \<in> a_key ` set (f_Attested f') \<longleftrightarrow> k \<in> a_key ` set (f_Attested f)"
proof -
  have "k \<in> a_key ` set as \<longleftrightarrow> k \<in> a_key ` set (filter (\<lambda>a. a_key a \<noteq> (p, r)) as)" for as
    using assms(2) by auto
  then show ?thesis using op_elsewhere [OF assms(1)] by metis
qed

lemma op_open_elsewhere:
  assumes "op p r why f = Inr f'" "s_key s \<noteq> (p, r)"
  shows "s \<in> set (Open f') \<longleftrightarrow> s \<in> set (Open f)"
  using op_attested_iff [OF assms] op_fields(1) [OF assms(1)] by (simp add: Open_def)

end

lemma filter_update_first:
  "(\<And>x. P x \<Longrightarrow> \<not> Q x \<and> \<not> Q (g x)) \<Longrightarrow> filter Q (update_first P g xs) = filter Q xs"
  by (induction xs) auto

lemma filter_delete_first: "(\<And>x. P x \<Longrightarrow> \<not> Q x) \<Longrightarrow> filter Q (delete_first P xs) = filter Q xs"
  by (induction xs) auto

interpretation attest: disposition_op Attest
proof
  fix f p r why f' assume "Attest p r why f = Inr f'"
  then show "f' = f\<lparr>f_Attested := f_Attested f', f_Withdrawn := f_Withdrawn f'\<rparr>" "why \<noteq> []"
    "filter (\<lambda>a. a_key a \<noteq> (p, r)) (f_Attested f') = filter (\<lambda>a. a_key a \<noteq> (p, r)) (f_Attested f)"
    "filter (\<lambda>w. w_key w \<noteq> (p, r)) (f_Withdrawn f') = filter (\<lambda>w. w_key w \<noteq> (p, r)) (f_Withdrawn f)"
    by (auto simp: Attest_Inr a_key_def)
qed (rule Attest_ok)

interpretation reattest: disposition_op Reattest
proof
  fix f p r why f' assume "Reattest p r why f = Inr f'"
  then show "f' = f\<lparr>f_Attested := f_Attested f', f_Withdrawn := f_Withdrawn f'\<rparr>" "why \<noteq> []"
    "filter (\<lambda>a. a_key a \<noteq> (p, r)) (f_Attested f') = filter (\<lambda>a. a_key a \<noteq> (p, r)) (f_Attested f)"
    "filter (\<lambda>w. w_key w \<noteq> (p, r)) (f_Withdrawn f') = filter (\<lambda>w. w_key w \<noteq> (p, r)) (f_Withdrawn f)"
    by (auto simp: Reattest_Inr a_key_def intro!: filter_update_first)
qed (rule Reattest_ok)

interpretation withdraw: disposition_op WithdrawAttestation
proof
  fix f p r why f' assume "WithdrawAttestation p r why f = Inr f'"
  then show "f' = f\<lparr>f_Attested := f_Attested f', f_Withdrawn := f_Withdrawn f'\<rparr>" "why \<noteq> []"
    "filter (\<lambda>a. a_key a \<noteq> (p, r)) (f_Attested f') = filter (\<lambda>a. a_key a \<noteq> (p, r)) (f_Attested f)"
    "filter (\<lambda>w. w_key w \<noteq> (p, r)) (f_Withdrawn f') = filter (\<lambda>w. w_key w \<noteq> (p, r)) (f_Withdrawn f)"
    by (auto simp: Withdraw_Inr w_key_def intro!: filter_delete_first)
qed (rule Withdraw_ok)

interpretation dispose: disposition_op "apply_disposition_op opts" for opts
  by unfold_locales
    (auto simp: apply_disposition_op_def split: if_splits
      dest: attest.op_ok reattest.op_ok withdraw.op_ok attest.op_reason reattest.op_reason
        withdraw.op_reason attest.op_elsewhere reattest.op_elsewhere withdraw.op_elsewhere
        attest.op_elsewhere_withdrawn reattest.op_elsewhere_withdrawn withdraw.op_elsewhere_withdrawn
        attest.op_frame reattest.op_frame withdraw.op_frame)

subsection \<open>What a disposition is\<close>

text \<open>
  The abstract life of one mutant's disposition: undisposed, standing with its reason, or
  retracted with the prior reason and the reason of the withdrawal.
\<close>

datatype disposition = Undisposed | Standing string | Retracted string string

inductive disposition_step :: "disposition \<Rightarrow> disposition \<Rightarrow> bool" where
  attest_fresh: "why \<noteq> [] \<Longrightarrow> disposition_step Undisposed (Standing why)"
| attest_again: "why \<noteq> [] \<Longrightarrow> disposition_step (Retracted r0 r1) (Standing why)"
| replace_reason: "why \<noteq> [] \<Longrightarrow> disposition_step (Standing r0) (Standing why)"
| retract: "why \<noteq> [] \<Longrightarrow> disposition_step (Standing r0) (Retracted r0 why)"

inductive_simps disposition_step_simps:
  "disposition_step Undisposed d" "disposition_step (Standing r) d" "disposition_step (Retracted r r') d"

inductive_cases to_Retracted: "disposition_step d (Retracted r r')"

definition disposition_of :: "finding \<Rightarrow> survivor_key \<Rightarrow> disposition" where
  "disposition_of f k =
     (case find_first (\<lambda>a. a_key a = k) (f_Attested f) of
        Some a \<Rightarrow> Standing (a_Reason a)
      | None \<Rightarrow> (case find_first (\<lambda>w. w_key w = k) (f_Withdrawn f) of
          Some w \<Rightarrow> Retracted (w_PriorReason w) (w_Reason w)
        | None \<Rightarrow> Undisposed))"

lemma find_first_append:
  "find_first P (xs @ ys) = (case find_first P xs of None \<Rightarrow> find_first P ys | Some x \<Rightarrow> Some x)"
  by (induction xs) auto

lemma find_first_filter: "(\<And>x. P x \<Longrightarrow> Q x) \<Longrightarrow> find_first P (filter Q xs) = find_first P xs"
  by (induction xs) auto

lemma find_first_filter_none: "(\<And>x. P x \<Longrightarrow> \<not> Q x) \<Longrightarrow> find_first P (filter Q xs) = None"
  by (induction xs) auto

lemma find_first_update:
  "(\<And>x. P x \<Longrightarrow> P (g x)) \<Longrightarrow> find_first P (update_first P g xs) = map_option g (find_first P xs)"
  by (induction xs) auto

lemma not_key_find: "k \<notin> h ` set xs \<longleftrightarrow> find_first (\<lambda>x. h x = k) xs = None"
  by (auto simp: find_first_None)

lemma find_first_elsewhere:
  assumes "filter (\<lambda>x. h x \<noteq> k') xs = filter (\<lambda>x. h x \<noteq> k') ys" "k \<noteq> k'"
  shows "find_first (\<lambda>x. h x = k) xs = find_first (\<lambda>x. h x = k) ys"
proof -
  have "find_first (\<lambda>x. h x = k) zs = find_first (\<lambda>x. h x = k) (filter (\<lambda>x. h x \<noteq> k') zs)" for zs
    by (rule find_first_filter [symmetric]) (use assms(2) in blast)
  then show ?thesis using assms(1) by metis
qed

lemma Attest_disposition:
  assumes "Attest p op why f = Inr f'"
  shows "disposition_of f' (p, op) = Standing why"
    and "disposition_of f (p, op) = Undisposed \<or> (\<exists>r r'. disposition_of f (p, op) = Retracted r r')"
    and "why \<noteq> []"
  using assms
  by (auto simp: Attest_Inr disposition_of_def find_first_append not_key_find a_key_def split: option.splits)

lemma Reattest_disposition:
  assumes "Reattest p op why f = Inr f'"
  shows "disposition_of f' (p, op) = Standing why" "\<exists>r. disposition_of f (p, op) = Standing r" "why \<noteq> []"
proof -
  obtain s :: survivor where f': "f' = f\<lparr>f_Attested := update_first (\<lambda>a. a_key a = (p, op))
      (\<lambda>a. a\<lparr>a_Reason := why, a_Site := s_Site s\<rparr>) (f_Attested f)\<rparr>"
    and k: "(p, op) \<in> a_key ` set (f_Attested f)" and r: "why \<noteq> []"
    using assms unfolding Reattest_Inr by blast
  obtain a where "find_first (\<lambda>a. a_key a = (p, op)) (f_Attested f) = Some a"
    using k not_key_find [of "(p, op)" a_key "f_Attested f"] by blast
  then show "disposition_of f' (p, op) = Standing why" "\<exists>r. disposition_of f (p, op) = Standing r"
    by (simp_all add: f' disposition_of_def find_first_update a_key_def)
qed (use assms in \<open>simp add: Reattest_Inr\<close>)

lemma Withdraw_disposition:
  assumes "dispositions_ok f" "WithdrawAttestation p op why f = Inr f'"
  shows "\<exists>r. disposition_of f (p, op) = Standing r \<and> disposition_of f' (p, op) = Retracted r why"
    and "why \<noteq> []"
proof -
  obtain a site where a: "find_first (\<lambda>a. a_key a = (p, op)) (f_Attested f) = Some a" and r: "why \<noteq> []"
    and f': "f' = f\<lparr>f_Attested := delete_first (\<lambda>a. a_key a = (p, op)) (f_Attested f),
      f_Withdrawn := filter (\<lambda>w. w_key w \<noteq> (p, op)) (f_Withdrawn f) @
        [\<lparr>w_Position = p, w_Operator = op, w_PriorReason = a_Reason a, w_Reason = why,
          w_Site = (if site = [] then a_Site a else site)\<rparr>]\<rparr>"
    using assms(2) unfolding Withdraw_Inr by blast
  have "find_first (\<lambda>a. a_key a = (p, op)) (f_Attested f') = None"
    using dispositions_okD(2) [OF assms(1)]
    by (simp add: f' delete_first_keys find_first_filter_none)
  then show "\<exists>r. disposition_of f (p, op) = Standing r \<and> disposition_of f' (p, op) = Retracted r why"
    using a by (simp add: f' disposition_of_def find_first_append find_first_filter_none w_key_def)
  show "why \<noteq> []" by (rule r)
qed

text \<open>C30: Each successful attestation, re-attestation or withdrawal is one step of the abstract
  life cycle at the mutant it names, and no step at any other mutant of the record.\<close>

theorem disposition_ops_refine:
  assumes "dispositions_ok f" "apply_disposition_op opts p op why f = Inr f'"
  shows "disposition_step (disposition_of f (p, op)) (disposition_of f' (p, op)) \<and>
    (\<forall>k. k \<noteq> (p, op) \<longrightarrow> disposition_of f' k = disposition_of f k)"
proof
  show "disposition_step (disposition_of f (p, op)) (disposition_of f' (p, op))"
    using assms Attest_disposition [of p op why f f'] Reattest_disposition [of p op why f f']
      Withdraw_disposition [of f p op why f']
    by (auto simp: apply_disposition_op_def disposition_step_simps split: if_splits)
  show "\<forall>k. k \<noteq> (p, op) \<longrightarrow> disposition_of f' k = disposition_of f k"
  proof (intro allI impI)
    fix k assume k: "k \<noteq> (p, op)"
    show "disposition_of f' k = disposition_of f k"
      unfolding disposition_of_def find_first_elsewhere [OF dispose.op_elsewhere [OF assms(2)] k]
        find_first_elsewhere [OF dispose.op_elsewhere_withdrawn [OF assms(2)] k] by (rule refl)
  qed
qed

definition example_finding :: finding where
  "example_finding = zero_finding\<lparr>f_Symbol := ''pkg.F'', f_OracleExecutionPolicy := FullOracleExecutionPolicy,
     f_Survivors := [\<lparr>s_Position = ''a.go:3:1'', s_Operator = ''neg'', s_Extent = [], s_Site = ''s1'',
       s_Execution = [], s_WithdrawnKiller = [], s_OtherSelection = []\<rparr>],
     f_Attested := [\<lparr>a_Position = ''a.go:3:1'', a_Operator = ''neg'', a_Reason = ''dead'', a_Site = ''s1''\<rparr>]\<rparr>"

definition withdraw_opts :: attest_options where
  "withdraw_opts = \<lparr>ao_Selection = [], ao_HasSelection = False, ao_Reattest = False, ao_Withdraw = True\<rparr>"

lemma example_finding_ok: "dispositions_ok example_finding"
  by (simp add: example_finding_def dispositions_ok_def mutant_keys zero_finding_def)

lemma example_withdraw:
  "\<exists>f'. apply_disposition_op withdraw_opts ''a.go:3:1'' ''neg'' ''wrong'' example_finding = Inr f'"
  by (simp add: apply_disposition_op_def withdraw_opts_def WithdrawAttestation_def example_finding_def
      zero_finding_def mutant_keys Let_def)

theorem disposition_ops_refine_witness:
  "\<exists>f'. apply_disposition_op withdraw_opts ''a.go:3:1'' ''neg'' ''wrong'' example_finding = Inr f' \<and>
     disposition_step (disposition_of example_finding (''a.go:3:1'', ''neg''))
       (disposition_of f' (''a.go:3:1'', ''neg''))"
proof -
  obtain f' where "apply_disposition_op withdraw_opts ''a.go:3:1'' ''neg'' ''wrong'' example_finding = Inr f'"
    using example_withdraw by blast
  with disposition_ops_refine [OF example_finding_ok this] show ?thesis by blast
qed

text \<open>The disposition invariant the encoding demands (complete rows, one per key, naming survivors,
  none both attested and withdrawn) survives every attestation, re-attestation and withdrawal.\<close>

theorem disposition_ops_preserve:
  assumes "dispositions_ok f" "apply_disposition_op opts p op why f = Inr f'"
  shows "dispositions_ok f'"
  using assms by (rule dispose.op_ok)

theorem disposition_ops_preserve_witness:
  "\<exists>f'. apply_disposition_op withdraw_opts ''a.go:3:1'' ''neg'' ''wrong'' example_finding = Inr f' \<and>
     dispositions_ok f'"
proof -
  obtain f' where "apply_disposition_op withdraw_opts ''a.go:3:1'' ''neg'' ''wrong'' example_finding = Inr f'"
    using example_withdraw by blast
  with disposition_ops_preserve [OF example_finding_ok this] show ?thesis by blast
qed

subsection \<open>Attesting in a document\<close>

lemma find_index_Some: "find_index P xs = Some i \<Longrightarrow> i < length xs \<and> P (xs ! i)"
  by (induction xs arbitrary: i) (auto split: if_splits)

lemma attest_target_Inr: "attest_target all symbol opts = Inr i \<Longrightarrow>
    i < length all \<and> f_Symbol (all ! i) = symbol \<and>
    (ao_Selection opts \<noteq> [] \<longrightarrow> f_Selection (all ! i) = ao_Selection opts)"
  by (auto simp: attest_target_def dest!: find_index_Some split: if_splits option.splits list.splits)
    (metis (mono_tags, lifting) atLeastLessThan_iff filter_eq_Cons_iff in_set_conv_decomp set_upt)+

lemma dispositions_ok_unadvised:
  assumes "unadvised f = unadvised g" shows "dispositions_ok f \<longleftrightarrow> dispositions_ok g"
proof -
  have same: "dispositions_ok (unadvised h) \<longleftrightarrow> dispositions_ok h" for h
  proof -
    have "map s_key (f_Survivors (unadvised h)) = map s_key (f_Survivors h)"
      by (simp add: unadvised_def s_key_def)
    moreover from this have "s_key ` set (f_Survivors (unadvised h)) = s_key ` set (f_Survivors h)"
      by (metis list.set_map)
    moreover have "(\<forall>s \<in> set (f_Survivors (unadvised h)). s_Position s \<noteq> [] \<and> s_Operator s \<noteq> []) \<longleftrightarrow>
        (\<forall>s \<in> set (f_Survivors h). s_Position s \<noteq> [] \<and> s_Operator s \<noteq> [])"
      by (simp add: unadvised_def)
    moreover have "f_Withdrawn (unadvised h) = f_Withdrawn h" by (simp add: unadvised_def)
    ultimately show ?thesis by (simp only: dispositions_ok_def unadvised_simps)
  qed
  show ?thesis using same [of f] same [of g] assms by simp
qed

text \<open>A document-level attestation rewrites the dispositions of the one record it names: every other
  record keeps everything but its advisory lines, no record appears, disappears or changes its key,
  and the disposition invariant of the whole document is kept.\<close>

theorem attest_finding_frame:
  assumes "AttestFindingWithOptions all symbol position operator reason opts = Inr (all', f')"
    and "\<forall>f \<in> set all. dispositions_ok f"
  shows "\<exists>i < length all. f_Symbol (all ! i) = symbol \<and> f' = all' ! i \<and>
    map recordKey all' = map recordKey all \<and> (\<forall>f \<in> set all'. dispositions_ok f) \<and>
    (\<forall>j < length all. j \<noteq> i \<longrightarrow> unadvised (all' ! j) = unadvised (all ! j))"
proof -
  obtain i f where i: "attest_target all symbol opts = Inr i"
    and f: "apply_disposition_op opts position operator reason (all ! i) = Inr f"
    and all': "all' = AnnotateSelectionVerdicts (all[i := f])" and f': "f' = all' ! i"
    using assms(1) by (auto simp: AttestFindingWithOptions_def Let_def split: if_splits sum.splits)
  have lt: "i < length all" "f_Symbol (all ! i) = symbol" using attest_target_Inr [OF i] by auto
  have un: "unadvised (all' ! j) = unadvised (all[i := f] ! j)" if "j < length all" for j
    using that by (simp add: all' nth_Annotate unadvised_annotated)
  have len: "length all' = length all" by (simp add: all')
  have "recordKey (all' ! j) = recordKey (all ! j)" if "j < length all" for j
    using un [OF that] dispose.op_fields(3) [OF f]
    by (cases "j = i") (metis lt(1) nth_list_update recordKey_def unadvised_simps(1,2))+
  then have "map recordKey all' = map recordKey all"
    by (simp add: list_eq_iff_nth_eq len)
  moreover have "dispositions_ok (all' ! j)" if "j < length all" for j
  proof -
    have "dispositions_ok (all[i := f] ! j)"
      using that lt assms(2) dispose.op_ok [OF _ f] by (cases "j = i") auto
    then show ?thesis using dispositions_ok_unadvised [OF un [OF that]] by simp
  qed
  moreover have "unadvised (all' ! j) = unadvised (all ! j)" if "j < length all" "j \<noteq> i" for j
    using un [OF that(1)] that(2) by simp
  ultimately show ?thesis using lt f' len by (metis in_set_conv_nth)
qed

theorem attest_finding_frame_witness:
  "\<exists>all' f'. AttestFindingWithOptions [example_finding] ''pkg.F'' ''a.go:3:1'' ''neg'' ''wrong'' withdraw_opts
      = Inr (all', f') \<and> map recordKey all' = [''pkg.F'']"
proof -
  have reason: "ValidateAttestationReason ''wrong''" by code_simp
  have "\<exists>r. AttestFindingWithOptions [example_finding] ''pkg.F'' ''a.go:3:1'' ''neg'' ''wrong'' withdraw_opts = Inr r"
    using reason
    by (simp add: AttestFindingWithOptions_def withdraw_opts_def attest_target_def Let_def
        apply_disposition_op_def WithdrawAttestation_def example_finding_def zero_finding_def mutant_keys)
  then obtain all' f' where *: "AttestFindingWithOptions [example_finding] ''pkg.F'' ''a.go:3:1'' ''neg''
      ''wrong'' withdraw_opts = Inr (all', f')" by (metis surj_pair)
  have "map recordKey all' = map recordKey [example_finding]"
    using attest_finding_frame [OF *] example_finding_ok by auto
  with * show ?thesis by (simp add: recordKey_def recordKeyOf_def example_finding_def zero_finding_def)
qed

end
