(* ===== verification/Encoding.thy ===== *)
theory Encoding
  imports Dispositions
begin

text \<open>
  The validator of a decoded findings record (\<open>validateFindingEncoding\<close> in \<open>findings.go\<close>), one
  definition per section of the function in its order, and the declarative well-formedness it
  decides. The JSON-level refusals before the semantic sections (null fields, unknown nested
  objects) are an argument: the raw decoder is not part of the model. The evidence rows the function
  decodes a second time from the raw fields are the decoded record's own rows.
\<close>

datatype encoding_error =
    RawRefusal string
  | BadSelectionKey
  | NoShapeForm
  | BadModuleBase string
  | DuplicateOracle string
  | RuntimeNotFindingWide
  | CountMismatch
  | KillsIncomplete
  | KillMissingField
  | DuplicateKill string string
  | KillNamesSurvivor string string
  | CountsDoNotReconcile
  | SurvivorIncomplete
  | DuplicateSurvivor string string
  | OtherSelectionUnreadable string string
  | OtherSelectionRepeatsOwn string string
  | OtherSelectionDuplicate string string
  | OtherSelectionUnordered string string
  | OperatorCountsInvalid string
  | OperatorsUnordered
  | OperatorSurvivorMismatch string
  | OperatorsExceed
  | OperatorsShort
  | CandidateIncomplete
  | DuplicateCandidate string string
  | CandidateNotSurvivor string string
  | CandidateBadDisposition string
  | CandidateContradictsSurvivor string string
  | CandidateKillsExceed
  | CandidateDiscardsExceed
  | AttestationIncomplete
  | AttestationNotSurvivor
  | DuplicateAttestation string string
  | WithdrawnIncomplete
  | WithdrawnNotSurvivor
  | WithdrawnAttested string string
  | DuplicateWithdrawn string string

subsection \<open>Evidence rows\<close>

definition clean_base :: "string \<Rightarrow> bool" where
  "clean_base base \<longleftrightarrow>
     \<not> has_prefix base ''/'' \<and> CHR 0x5C \<notin> set base \<and>
     (\<forall>seg \<in> set (split_on (CHR ''/'') base). seg \<noteq> [] \<and> seg \<noteq> ''.'' \<and> seg \<noteq> ''..'')"

definition subjectEvidenceComplete :: "subject_evidence \<Rightarrow> encoding_error + bool" where
  "subjectEvidenceComplete e =
     (let fp = e_Fingerprint e in
      if e_RuntimeUnverifiable e \<noteq> (e_RuntimeReason e \<noteq> []) then Inr False
      else if e_ModuleBase e \<noteq> [] \<and> \<not> clean_base (e_ModuleBase e) then Inl (BadModuleBase (e_ModuleBase e))
      else if fp_Observable fp = (fp_ProofReason fp \<noteq> []) then Inr False
      else Inr (\<forall>pin \<in> {e_Symbol e, fp_MaximalClosure fp, fp_TestVariantClosure fp, fp_Toolchain fp,
        fp_BuildConfig fp, fp_ObservationAssertion fp, fp_ProofStrategy fp, fp_SubjectPackage fp,
        fp_SubjectSymbol fp, fp_ProofEvidence fp, fp_RuntimeInputs fp, fp_RuntimeDigest fp}. pin \<noteq> []))"

text \<open>The target row; \<open>present\<close> names the fields the raw object carries.\<close>

definition check_target :: "(string \<Rightarrow> bool) \<Rightarrow> finding \<Rightarrow> encoding_error + bool" where
  "check_target present f =
     (case f_Shape f of
        Some sh \<Rightarrow>
          if ts_Structural sh = None \<and> ts_Manual sh = None then Inl NoShapeForm
          else Inr (f_TargetEvidence f = zero_evidence)
      | None \<Rightarrow>
          if present ''targetEvidence'' then
            (case subjectEvidenceComplete (f_TargetEvidence f) of
               Inl e \<Rightarrow> Inl e
             | Inr valid \<Rightarrow> Inr (valid \<and> e_Symbol (f_TargetEvidence f) = f_Symbol f))
          else Inr True)"

fun check_oracle_rows :: "string set \<Rightarrow> subject_evidence list \<Rightarrow> encoding_error + bool" where
  "check_oracle_rows seen [] = Inr True"
| "check_oracle_rows seen (e # es) =
     (case subjectEvidenceComplete e of
        Inl err \<Rightarrow> Inl err
      | Inr valid \<Rightarrow>
          if e_Symbol e \<in> seen then Inl (DuplicateOracle (e_Symbol e))
          else (case check_oracle_rows (insert (e_Symbol e) seen) es of
              Inl err \<Rightarrow> Inl err
            | Inr rest \<Rightarrow> Inr (valid \<and> rest)))"

definition check_oracle :: "(string \<Rightarrow> bool) \<Rightarrow> finding \<Rightarrow> encoding_error + bool" where
  "check_oracle present f =
     (if \<not> present ''oracleEvidence'' then Inr True
      else case check_oracle_rows {} (f_OracleEvidence f) of
        Inl e \<Rightarrow> Inl e
      | Inr valid \<Rightarrow> Inr (valid \<and> f_OracleEvidence f \<noteq> []))"

text \<open>The finding-wide runtime anchor, judged for complete rows only.\<close>

definition runtime_of :: "subject_evidence \<Rightarrow> string \<times> string \<times> bool \<times> string" where
  "runtime_of e = (fp_RuntimeInputs (e_Fingerprint e), fp_RuntimeDigest (e_Fingerprint e),
     e_RuntimeUnverifiable e, e_RuntimeReason e)"

definition check_runtime :: "finding \<Rightarrow> encoding_error option" where
  "check_runtime f =
     (let anchor = (case f_Shape f of
          Some _ \<Rightarrow> (case f_OracleEvidence f of e # _ \<Rightarrow> e | [] \<Rightarrow> f_TargetEvidence f)
        | None \<Rightarrow> f_TargetEvidence f) in
      if \<forall>e \<in> set (f_OracleEvidence f). runtime_of e = runtime_of anchor then None
      else Some RuntimeNotFindingWide)"

subsection \<open>Counts and kills\<close>

definition check_counts :: "finding \<Rightarrow> encoding_error option" where
  "check_counts f =
     (if f_CandidateCount f < 0 \<or> f_Generated f < 0 \<or> f_Mutants f < 0 \<or> f_Killed f < 0 \<or> f_Discarded f < 0 \<or>
         f_Killed f > f_Mutants f \<or> int (length (f_Survivors f)) \<noteq> f_Mutants f - f_Killed f
      then Some CountMismatch else None)"

fun check_kill_rows :: "survivor_key set \<Rightarrow> survivor_key set \<Rightarrow> kill list \<Rightarrow> encoding_error option" where
  "check_kill_rows svs seen [] = None"
| "check_kill_rows svs seen (k # ks) =
     (if k_Position k = [] \<or> k_Operator k = [] \<or> k_Killer k = [] then Some KillMissingField
      else if k_key k \<in> seen then Some (DuplicateKill (k_Position k) (k_Operator k))
      else if k_key k \<in> svs then Some (KillNamesSurvivor (k_Position k) (k_Operator k))
      else check_kill_rows svs (insert (k_key k) seen) ks)"

definition check_kills :: "finding \<Rightarrow> encoding_error option" where
  "check_kills f =
     (if f_Kills f = [] then None
      else if int (length (f_Kills f)) \<noteq> f_Killed f then Some KillsIncomplete
      else check_kill_rows (s_key ` set (f_Survivors f)) {} (f_Kills f))"

definition max_int :: int where
  "max_int = 2 ^ 63 - 1"

definition addNonnegative :: "int \<Rightarrow> int \<Rightarrow> int \<times> bool" where
  "addNonnegative a b = (if a < 0 \<or> b < 0 \<or> b > max_int - a then (0, False) else (a + b, True))"

definition check_reconcile :: "finding \<Rightarrow> encoding_error option" where
  "check_reconcile f =
     (let (generatedTotal, countsSafe) = addNonnegative (f_Mutants f) (f_Discarded f);
          expectedGenerated = (if f_Budget f > 0 then min (f_Budget f) (f_CandidateCount f) else f_CandidateCount f) in
      if \<not> countsSafe \<or> f_Budget f < 0 \<or> f_Generated f \<noteq> generatedTotal \<or> f_Generated f \<noteq> expectedGenerated
      then Some CountsDoNotReconcile else None)"

subsection \<open>Survivors\<close>

text \<open>The other-selection lines of one survivor; \<open>prev\<close> is the selection of the line before.\<close>

fun check_others :: "string \<Rightarrow> survivor \<Rightarrow> string set \<Rightarrow> string option \<Rightarrow> selection_verdict list \<Rightarrow> encoding_error option" where
  "check_others own s seen prev [] = None"
| "check_others own s seen prev (v # vs) =
     (if v_Selection v = own then Some (OtherSelectionRepeatsOwn (s_Position s) (s_Operator s))
      else if v_Selection v \<in> seen then Some (OtherSelectionDuplicate (s_Position s) (s_Operator s))
      else if (case prev of None \<Rightarrow> False | Some p \<Rightarrow> p \<ge> v_Selection v) then
        Some (OtherSelectionUnordered (s_Position s) (s_Operator s))
      else check_others own s (insert (v_Selection v) seen) (Some (v_Selection v)) vs)"

definition check_other_selection :: "string \<Rightarrow> survivor \<Rightarrow> encoding_error option" where
  "check_other_selection own s =
     (if s_OtherSelection s = [] then None
      else case parseSelectionVerdicts (s_OtherSelection s) of
        Inl _ \<Rightarrow> Some (OtherSelectionUnreadable (s_Position s) (s_Operator s))
      | Inr vs \<Rightarrow> check_others own s {} None vs)"

fun check_survivor_rows :: "string \<Rightarrow> survivor_key set \<Rightarrow> survivor list \<Rightarrow> encoding_error option" where
  "check_survivor_rows own seen [] = None"
| "check_survivor_rows own seen (s # ss) =
     (if s_Position s = [] \<or> s_Operator s = [] then Some SurvivorIncomplete
      else if s_key s \<in> seen then Some (DuplicateSurvivor (s_Position s) (s_Operator s))
      else case check_other_selection own s of
        Some e \<Rightarrow> Some e
      | None \<Rightarrow> check_survivor_rows own (insert (s_key s) seen) ss)"

subsection \<open>Operator summaries\<close>

definition survivors_of :: "survivor list \<Rightarrow> string \<Rightarrow> int" where
  "survivors_of svs operator = int (length (filter (\<lambda>s. s_Operator s = operator) svs))"

fun check_operator_rows :: "survivor list \<Rightarrow> string option \<Rightarrow> int \<Rightarrow> int \<Rightarrow> int \<Rightarrow> int \<Rightarrow>
    operator_summary list \<Rightarrow> encoding_error option" where
  "check_operator_rows svs prev rg rd rk rs [] =
     (if rg \<noteq> 0 \<or> rd \<noteq> 0 \<or> rk \<noteq> 0 \<or> rs \<noteq> 0 then Some OperatorsShort else None)"
| "check_operator_rows svs prev rg rd rk rs (x # xs) =
     (if o_Operator x = [] \<or> o_Generated x \<le> 0 \<or> o_Discarded x < 0 \<or> o_Killed x < 0 \<or> o_Survived x < 0 \<or>
         o_Discarded x > o_Generated x \<or> o_Killed x > o_Generated x - o_Discarded x \<or>
         o_Survived x \<noteq> o_Generated x - o_Discarded x - o_Killed x
      then Some (OperatorCountsInvalid (o_Operator x))
      else if (case prev of None \<Rightarrow> False | Some p \<Rightarrow> o_Operator x \<le> p) then Some OperatorsUnordered
      else if o_Survived x \<noteq> survivors_of svs (o_Operator x) then Some (OperatorSurvivorMismatch (o_Operator x))
      else if o_Generated x > rg \<or> o_Discarded x > rd \<or> o_Killed x > rk \<or> o_Survived x > rs then
        Some OperatorsExceed
      else check_operator_rows svs (Some (o_Operator x)) (rg - o_Generated x) (rd - o_Discarded x)
        (rk - o_Killed x) (rs - o_Survived x) xs)"

definition check_operators :: "(string \<Rightarrow> bool) \<Rightarrow> finding \<Rightarrow> encoding_error option" where
  "check_operators present f =
     (if \<not> present ''operators'' then None
      else check_operator_rows (f_Survivors f) None (f_Generated f) (f_Discarded f) (f_Killed f)
        (int (length (f_Survivors f))) (f_Operators f))"

subsection \<open>Candidate evidence\<close>

fun check_candidate_rows :: "survivor_key set \<Rightarrow> survivor_key set \<Rightarrow> candidate_evidence list \<Rightarrow> encoding_error option" where
  "check_candidate_rows svs seen [] = None"
| "check_candidate_rows svs seen (e # es) =
     (if ce_Position e = [] \<or> ce_Operator e = [] \<or> ce_Reason e = [] then Some CandidateIncomplete
      else if ce_key e \<in> seen then Some (DuplicateCandidate (ce_Position e) (ce_Operator e))
      else if ce_Disposition e = ''survived'' \<and> ce_key e \<notin> svs then
        Some (CandidateNotSurvivor (ce_Position e) (ce_Operator e))
      else if ce_Disposition e \<noteq> ''survived'' \<and> ce_Disposition e \<noteq> ''killed'' \<and> ce_Disposition e \<noteq> ''discarded'' then
        Some (CandidateBadDisposition (ce_Disposition e))
      else if ce_Disposition e \<noteq> ''survived'' \<and> ce_key e \<in> svs then
        Some (CandidateContradictsSurvivor (ce_Position e) (ce_Operator e))
      else check_candidate_rows svs (insert (ce_key e) seen) es)"

definition flagged :: "string \<Rightarrow> string \<Rightarrow> candidate_evidence list \<Rightarrow> int" where
  "flagged disposition operator es =
     int (length (filter (\<lambda>e. ce_Disposition e = disposition \<and> ce_Operator e = operator) es))"

definition summary_of :: "operator_summary list \<Rightarrow> string \<Rightarrow> operator_summary" where
  "summary_of ops operator = get_or \<lparr>o_Operator = [], o_Generated = 0, o_Discarded = 0, o_Killed = 0, o_Survived = 0\<rparr>
     (map_last (map (\<lambda>x. (o_Operator x, x)) ops) operator)"

definition check_flagged_totals :: "finding \<Rightarrow> encoding_error option" where
  "check_flagged_totals f =
     (let es = f_CandidateEvidence f in
      if \<exists>e \<in> set es. ce_Disposition e = ''killed'' \<and>
           flagged ''killed'' (ce_Operator e) es > o_Killed (summary_of (f_Operators f) (ce_Operator e))
      then Some CandidateKillsExceed
      else if \<exists>e \<in> set es. ce_Disposition e = ''discarded'' \<and>
           flagged ''discarded'' (ce_Operator e) es > o_Discarded (summary_of (f_Operators f) (ce_Operator e))
      then Some CandidateDiscardsExceed
      else None)"

subsection \<open>Dispositions\<close>

fun check_attested_rows :: "survivor_key set \<Rightarrow> survivor_key set \<Rightarrow> attestation list \<Rightarrow> encoding_error option" where
  "check_attested_rows svs seen [] = None"
| "check_attested_rows svs seen (a # as) =
     (if a_Position a = [] \<or> a_Operator a = [] \<or> a_Reason a = [] then Some AttestationIncomplete
      else if a_key a \<notin> svs then Some AttestationNotSurvivor
      else if a_key a \<in> seen then Some (DuplicateAttestation (a_Position a) (a_Operator a))
      else check_attested_rows svs (insert (a_key a) seen) as)"

fun check_withdrawn_rows :: "survivor_key set \<Rightarrow> survivor_key set \<Rightarrow> survivor_key set \<Rightarrow>
    withdrawn_attestation list \<Rightarrow> encoding_error option" where
  "check_withdrawn_rows svs attested seen [] = None"
| "check_withdrawn_rows svs attested seen (w # ws) =
     (if w_Position w = [] \<or> w_Operator w = [] \<or> w_PriorReason w = [] \<or> w_Reason w = [] then Some WithdrawnIncomplete
      else if w_key w \<notin> svs then Some WithdrawnNotSurvivor
      else if w_key w \<in> attested then Some (WithdrawnAttested (w_Position w) (w_Operator w))
      else if w_key w \<in> seen then Some (DuplicateWithdrawn (w_Position w) (w_Operator w))
      else check_withdrawn_rows svs attested (insert (w_key w) seen) ws)"

subsection \<open>The validator\<close>

text \<open>The sections in order; the first refusal wins.\<close>

fun first_error :: "'e option list \<Rightarrow> 'e option" where
  "first_error [] = None"
| "first_error (Some e # xs) = Some e"
| "first_error (None # xs) = first_error xs"

lemma first_error_None: "first_error xs = None \<longleftrightarrow> (\<forall>x \<in> set xs. x = None)"
  by (induction xs rule: first_error.induct) auto

definition check_rows :: "(string \<Rightarrow> bool) \<Rightarrow> finding \<Rightarrow> encoding_error option" where
  "check_rows present f =
     (let svs = s_key ` set (f_Survivors f) in
      first_error [check_counts f, check_kills f, check_reconcile f,
        check_survivor_rows (f_Selection f) {} (f_Survivors f),
        check_operators present f,
        check_candidate_rows svs {} (f_CandidateEvidence f),
        check_flagged_totals f,
        check_attested_rows svs {} (f_Attested f),
        check_withdrawn_rows svs (a_key ` set (f_Attested f)) {} (f_Withdrawn f)])"

definition validateFindingEncoding ::
    "string option \<Rightarrow> (string \<Rightarrow> bool) \<Rightarrow> finding \<Rightarrow> encoding_error + bool" where
  "validateFindingEncoding raw present f =
     (case raw of Some e \<Rightarrow> Inl (RawRefusal e) | None \<Rightarrow>
      if \<not> validateSelectionKey (f_Selection f) then Inl BadSelectionKey
      else case check_target present f of Inl e \<Rightarrow> Inl e | Inr complete_target \<Rightarrow>
        (case check_oracle present f of Inl e \<Rightarrow> Inl e | Inr complete_oracle \<Rightarrow>
          (let complete = (complete_target \<and> complete_oracle) in
           case (if complete then check_runtime f else None) of Some e \<Rightarrow> Inl e | None \<Rightarrow>
             (case check_rows present f of Some e \<Rightarrow> Inl e | None \<Rightarrow> Inr complete))))"

subsection \<open>What the validator decides\<close>

lemma check_kill_rows_iff: "check_kill_rows svs seen ks = None \<longleftrightarrow>
    (\<forall>k \<in> set ks. k_Position k \<noteq> [] \<and> k_Operator k \<noteq> [] \<and> k_Killer k \<noteq> []) \<and>
    distinct (map k_key ks) \<and> k_key ` set ks \<inter> (svs \<union> seen) = {}"
  by (induction svs seen ks rule: check_kill_rows.induct) auto

lemma check_attested_rows_iff: "check_attested_rows svs seen as = None \<longleftrightarrow>
    (\<forall>a \<in> set as. a_Position a \<noteq> [] \<and> a_Operator a \<noteq> [] \<and> a_Reason a \<noteq> []) \<and>
    distinct (map a_key as) \<and> a_key ` set as \<subseteq> svs \<and> a_key ` set as \<inter> seen = {}"
  by (induction svs seen as rule: check_attested_rows.induct) auto

lemma check_withdrawn_rows_iff: "check_withdrawn_rows svs attested seen ws = None \<longleftrightarrow>
    (\<forall>w \<in> set ws. w_Position w \<noteq> [] \<and> w_Operator w \<noteq> [] \<and> w_PriorReason w \<noteq> [] \<and> w_Reason w \<noteq> []) \<and>
    distinct (map w_key ws) \<and> w_key ` set ws \<subseteq> svs \<and> w_key ` set ws \<inter> (attested \<union> seen) = {}"
  by (induction svs attested seen ws rule: check_withdrawn_rows.induct) auto

lemma check_survivor_rows_iff: "check_survivor_rows own seen ss = None \<longleftrightarrow>
    (\<forall>s \<in> set ss. s_Position s \<noteq> [] \<and> s_Operator s \<noteq> [] \<and> check_other_selection own s = None) \<and>
    distinct (map s_key ss) \<and> s_key ` set ss \<inter> seen = {}"
  by (induction own seen ss rule: check_survivor_rows.induct) (auto split: option.splits)

lemma check_candidate_rows_iff: "check_candidate_rows svs seen es = None \<longleftrightarrow>
    (\<forall>e \<in> set es. ce_Position e \<noteq> [] \<and> ce_Operator e \<noteq> [] \<and> ce_Reason e \<noteq> [] \<and>
      ce_Disposition e \<in> {''survived'', ''killed'', ''discarded''} \<and>
      (ce_Disposition e = ''survived'' \<longleftrightarrow> ce_key e \<in> svs)) \<and>
    distinct (map ce_key es) \<and> ce_key ` set es \<inter> seen = {}"
  by (induction svs seen es rule: check_candidate_rows.induct) auto

lemma check_others_iff: "check_others own s seen prev vs = None \<longleftrightarrow>
    own \<notin> v_Selection ` set vs \<and> v_Selection ` set vs \<inter> seen = {} \<and>
    sorted_wrt (<) (map v_Selection vs) \<and>
    (case prev of None \<Rightarrow> True | Some p \<Rightarrow> (case vs of [] \<Rightarrow> True | v # _ \<Rightarrow> p < v_Selection v))"
proof (induction own s seen prev vs rule: check_others.induct)
  case (2 own s seen prev v vs)
  have "sorted_wrt (<) (map v_Selection (v # vs)) \<longleftrightarrow> sorted_wrt (<) (map v_Selection vs) \<and>
      (case vs of [] \<Rightarrow> True | u # _ \<Rightarrow> v_Selection v < v_Selection u)"
    by (cases vs) auto
  then show ?case
    using 2 by (auto split: option.splits list.splits)
qed (auto split: option.splits)

definition operator_row_ok :: "survivor list \<Rightarrow> operator_summary \<Rightarrow> bool" where
  "operator_row_ok svs x \<longleftrightarrow> o_Operator x \<noteq> [] \<and> o_Generated x > 0 \<and> o_Discarded x \<ge> 0 \<and> o_Killed x \<ge> 0 \<and>
     o_Survived x \<ge> 0 \<and> o_Generated x = o_Discarded x + o_Killed x + o_Survived x \<and>
     o_Survived x = survivors_of svs (o_Operator x)"

lemma operator_sums_nonneg:
  assumes "\<forall>x \<in> set xs. operator_row_ok svs x"
  shows "0 \<le> sum_list (map o_Generated xs)" "0 \<le> sum_list (map o_Discarded xs)"
    "0 \<le> sum_list (map o_Killed xs)" "0 \<le> sum_list (map o_Survived xs)"
proof -
  have "0 \<le> o_Generated x" "0 \<le> o_Discarded x" "0 \<le> o_Killed x" "0 \<le> o_Survived x" if "x \<in> set xs" for x
    using assms that unfolding operator_row_ok_def by force+
  then show "0 \<le> sum_list (map o_Generated xs)" "0 \<le> sum_list (map o_Discarded xs)"
    "0 \<le> sum_list (map o_Killed xs)" "0 \<le> sum_list (map o_Survived xs)"
    by (auto intro!: sum_list_nonneg)
qed

lemma check_operator_rows_iff: "check_operator_rows svs prev rg rd rk rs xs = None \<longleftrightarrow>
    (\<forall>x \<in> set xs. operator_row_ok svs x) \<and> sorted_wrt (<) (map o_Operator xs) \<and>
    (case prev of None \<Rightarrow> True | Some p \<Rightarrow> (case xs of [] \<Rightarrow> True | x # _ \<Rightarrow> p < o_Operator x)) \<and>
    sum_list (map o_Generated xs) = rg \<and> sum_list (map o_Discarded xs) = rd \<and>
    sum_list (map o_Killed xs) = rk \<and> sum_list (map o_Survived xs) = rs"
proof (induction svs prev rg rd rk rs xs rule: check_operator_rows.induct)
  case (2 svs prev rg rd rk rs x xs)
  let ?ok = "\<forall>y \<in> set xs. operator_row_ok svs y"
  have srt: "sorted_wrt (<) (map o_Operator (x # xs)) \<longleftrightarrow> sorted_wrt (<) (map o_Operator xs) \<and>
      (case xs of [] \<Rightarrow> True | y # _ \<Rightarrow> o_Operator x < o_Operator y)"
    by (cases xs) auto
  have nn: "?ok \<Longrightarrow> 0 \<le> sum_list (map o_Generated xs) \<and> 0 \<le> sum_list (map o_Discarded xs) \<and>
      0 \<le> sum_list (map o_Killed xs) \<and> 0 \<le> sum_list (map o_Survived xs)"
    using operator_sums_nonneg by blast
  have row: "operator_row_ok svs x \<longleftrightarrow> \<not> (o_Operator x = [] \<or> o_Generated x \<le> 0 \<or> o_Discarded x < 0 \<or> o_Killed x < 0 \<or> o_Survived x < 0 \<or>
         o_Discarded x > o_Generated x \<or> o_Killed x > o_Generated x - o_Discarded x \<or>
         o_Survived x \<noteq> o_Generated x - o_Discarded x - o_Killed x) \<and> o_Survived x = survivors_of svs (o_Operator x)"
    by (auto simp: operator_row_ok_def)
  show ?case
  proof (cases "operator_row_ok svs x \<and> (case prev of None \<Rightarrow> True | Some p \<Rightarrow> p < o_Operator x)")
    case False
    then show ?thesis using row by (auto split: option.splits simp: not_less)
  next
    case True
    have bad: "\<not> (o_Operator x = [] \<or> o_Generated x \<le> 0 \<or> o_Discarded x < 0 \<or> o_Killed x < 0 \<or> o_Survived x < 0 \<or>
         o_Discarded x > o_Generated x \<or> o_Killed x > o_Generated x - o_Discarded x \<or>
         o_Survived x \<noteq> o_Generated x - o_Discarded x - o_Killed x)"
      and sv: "o_Survived x = survivors_of svs (o_Operator x)"
      and pv: "\<not> (case prev of None \<Rightarrow> False | Some p \<Rightarrow> o_Operator x \<le> p)"
      using True row by (auto split: option.splits)
    have IH: "\<not> (o_Generated x > rg \<or> o_Discarded x > rd \<or> o_Killed x > rk \<or> o_Survived x > rs) \<Longrightarrow>
      check_operator_rows svs (Some (o_Operator x)) (rg - o_Generated x) (rd - o_Discarded x)
        (rk - o_Killed x) (rs - o_Survived x) xs = None \<longleftrightarrow>
      ?ok \<and> sorted_wrt (<) (map o_Operator (x # xs)) \<and>
      sum_list (map o_Generated xs) = rg - o_Generated x \<and> sum_list (map o_Discarded xs) = rd - o_Discarded x \<and>
      sum_list (map o_Killed xs) = rk - o_Killed x \<and> sum_list (map o_Survived xs) = rs - o_Survived x"
      using 2 [OF bad pv] sv srt by auto
    have eq: "check_operator_rows svs prev rg rd rk rs (x # xs) =
      (if o_Generated x > rg \<or> o_Discarded x > rd \<or> o_Killed x > rk \<or> o_Survived x > rs then Some OperatorsExceed
       else check_operator_rows svs (Some (o_Operator x)) (rg - o_Generated x) (rd - o_Discarded x)
        (rk - o_Killed x) (rs - o_Survived x) xs)"
      using bad pv sv by simp
    show ?thesis
    proof (cases "o_Generated x > rg \<or> o_Discarded x > rd \<or> o_Killed x > rk \<or> o_Survived x > rs")
      case exceed: True
      then have "check_operator_rows svs prev rg rd rk rs (x # xs) \<noteq> None" unfolding eq by simp
      moreover have "\<not> (?ok \<and> sum_list (map o_Generated (x # xs)) = rg \<and> sum_list (map o_Discarded (x # xs)) = rd \<and>
          sum_list (map o_Killed (x # xs)) = rk \<and> sum_list (map o_Survived (x # xs)) = rs)"
        using exceed nn by auto
      ultimately show ?thesis by auto
    next
      case False
      have "check_operator_rows svs prev rg rd rk rs (x # xs) = check_operator_rows svs (Some (o_Operator x))
          (rg - o_Generated x) (rd - o_Discarded x) (rk - o_Killed x) (rs - o_Survived x) xs"
        unfolding eq using False by simp
      then show ?thesis using IH [OF False] True by (auto split: option.splits)
    qed
  qed
qed (auto split: option.splits)

text \<open>The declarative form of a well-formed record.\<close>

definition counts_wf :: "finding \<Rightarrow> bool" where
  "counts_wf f \<longleftrightarrow>
     0 \<le> f_Killed f \<and> 0 \<le> f_Discarded f \<and> 0 \<le> f_Budget f \<and> 0 \<le> f_CandidateCount f \<and>
     f_Mutants f = f_Killed f + int (length (f_Survivors f)) \<and>
     f_Generated f = f_Mutants f + f_Discarded f \<and> f_Generated f \<le> max_int \<and>
     f_Generated f = (if f_Budget f > 0 then min (f_Budget f) (f_CandidateCount f) else f_CandidateCount f)"

definition kills_wf :: "finding \<Rightarrow> bool" where
  "kills_wf f \<longleftrightarrow> f_Kills f = [] \<or>
     int (length (f_Kills f)) = f_Killed f \<and> distinct (map k_key (f_Kills f)) \<and>
     k_key ` set (f_Kills f) \<inter> s_key ` set (f_Survivors f) = {} \<and>
     (\<forall>k \<in> set (f_Kills f). k_Position k \<noteq> [] \<and> k_Operator k \<noteq> [] \<and> k_Killer k \<noteq> [])"

definition operators_wf :: "finding \<Rightarrow> bool" where
  "operators_wf f \<longleftrightarrow> (\<forall>x \<in> set (f_Operators f). operator_row_ok (f_Survivors f) x) \<and>
     sorted_wrt (<) (map o_Operator (f_Operators f)) \<and>
     sum_list (map o_Generated (f_Operators f)) = f_Generated f \<and>
     sum_list (map o_Discarded (f_Operators f)) = f_Discarded f \<and>
     sum_list (map o_Killed (f_Operators f)) = f_Killed f \<and>
     sum_list (map o_Survived (f_Operators f)) = int (length (f_Survivors f))"

definition advice_wf :: "finding \<Rightarrow> bool" where
  "advice_wf f \<longleftrightarrow> (\<forall>s \<in> set (f_Survivors f). s_OtherSelection s = [] \<or>
     (\<exists>vs. parseSelectionVerdicts (s_OtherSelection s) = Inr vs \<and> f_Selection f \<notin> v_Selection ` set vs \<and>
       sorted_wrt (<) (map v_Selection vs)))"

definition candidates_wf :: "finding \<Rightarrow> bool" where
  "candidates_wf f \<longleftrightarrow> distinct (map ce_key (f_CandidateEvidence f)) \<and>
     (\<forall>e \<in> set (f_CandidateEvidence f). ce_Position e \<noteq> [] \<and> ce_Operator e \<noteq> [] \<and> ce_Reason e \<noteq> [] \<and>
       ce_Disposition e \<in> {''survived'', ''killed'', ''discarded''} \<and>
       (ce_Disposition e = ''survived'' \<longleftrightarrow> ce_key e \<in> s_key ` set (f_Survivors f))) \<and>
     check_flagged_totals f = None"

lemmas record_wf_defs = counts_wf_def kills_wf_def operators_wf_def advice_wf_def candidates_wf_def

lemma check_other_selection_iff: "check_other_selection own s = None \<longleftrightarrow> s_OtherSelection s = [] \<or>
    (\<exists>vs. parseSelectionVerdicts (s_OtherSelection s) = Inr vs \<and> own \<notin> v_Selection ` set vs \<and>
      sorted_wrt (<) (map v_Selection vs))"
  by (auto simp: check_other_selection_def check_others_iff split: sum.splits)

lemma check_counts_iff: "check_counts f = None \<and> check_reconcile f = None \<longleftrightarrow> counts_wf f"
  by (auto simp: check_counts_def check_reconcile_def counts_wf_def addNonnegative_def split: if_splits)

lemma check_kills_iff: "check_kills f = None \<longleftrightarrow> kills_wf f"
  by (auto simp: check_kills_def kills_wf_def check_kill_rows_iff)

lemma check_operators_iff: "check_operators present f = None \<longleftrightarrow> (present ''operators'' \<longrightarrow> operators_wf f)"
  by (auto simp: check_operators_def operators_wf_def check_operator_rows_iff)

lemma disposition_rows_iff:
  "check_survivor_rows (f_Selection f) {} (f_Survivors f) = None \<and>
   check_attested_rows (s_key ` set (f_Survivors f)) {} (f_Attested f) = None \<and>
   check_withdrawn_rows (s_key ` set (f_Survivors f)) (a_key ` set (f_Attested f)) {} (f_Withdrawn f) = None
   \<longleftrightarrow> advice_wf f \<and> dispositions_ok f"
proof -
  define C where "C \<longleftrightarrow> (\<forall>s \<in> set (f_Survivors f). s_Position s \<noteq> [] \<and> s_Operator s \<noteq> [])"
  define AP where "AP \<longleftrightarrow> (\<forall>a \<in> set (f_Attested f). a_Position a \<noteq> [] \<and> a_Operator a \<noteq> [])"
  define AR where "AR \<longleftrightarrow> (\<forall>a \<in> set (f_Attested f). a_Reason a \<noteq> [])"
  define AS where "AS \<longleftrightarrow> a_key ` set (f_Attested f) \<subseteq> s_key ` set (f_Survivors f)"
  define WP where "WP \<longleftrightarrow> (\<forall>w \<in> set (f_Withdrawn f). w_Position w \<noteq> [] \<and> w_Operator w \<noteq> [])"
  define WR where "WR \<longleftrightarrow> (\<forall>w \<in> set (f_Withdrawn f). w_PriorReason w \<noteq> [] \<and> w_Reason w \<noteq> [])"
  define WS where "WS \<longleftrightarrow> w_key ` set (f_Withdrawn f) \<subseteq> s_key ` set (f_Survivors f)"
  define AW where "AW \<longleftrightarrow> a_key ` set (f_Attested f) \<inter> w_key ` set (f_Withdrawn f) = {}"
  have ap: "AP" if "AS" "C"
    using that unfolding AP_def AS_def C_def by (fastforce simp: a_key_def s_key_def)
  have wp: "WP" if "WS" "C"
    using that unfolding WP_def WS_def C_def by (fastforce simp: w_key_def s_key_def)
  have s: "check_survivor_rows (f_Selection f) {} (f_Survivors f) = None \<longleftrightarrow>
      C \<and> advice_wf f \<and> distinct (map s_key (f_Survivors f))"
    unfolding check_survivor_rows_iff C_def advice_wf_def check_other_selection_iff by auto
  have a: "check_attested_rows (s_key ` set (f_Survivors f)) {} (f_Attested f) = None \<longleftrightarrow>
      AP \<and> AR \<and> distinct (map a_key (f_Attested f)) \<and> AS"
    unfolding check_attested_rows_iff AP_def AR_def AS_def by auto
  have w: "check_withdrawn_rows (s_key ` set (f_Survivors f)) (a_key ` set (f_Attested f)) {} (f_Withdrawn f) = None
      \<longleftrightarrow> WP \<and> WR \<and> distinct (map w_key (f_Withdrawn f)) \<and> WS \<and> AW"
    unfolding check_withdrawn_rows_iff WP_def WR_def WS_def AW_def by auto
  have d: "dispositions_ok f \<longleftrightarrow> distinct (map s_key (f_Survivors f)) \<and> C \<and>
      distinct (map a_key (f_Attested f)) \<and> AS \<and> AR \<and> distinct (map w_key (f_Withdrawn f)) \<and> WS \<and> WR \<and> AW"
    unfolding dispositions_ok_def C_def AS_def AR_def WS_def WR_def AW_def by (rule refl)
  show ?thesis unfolding s a w d using ap wp by blast
qed

text \<open>The row checks of the validator decide exactly the declarative well-formedness: the counts
  reconcile without overflow, kills are all or none and never name a survivor, operator summaries
  partition the totals, candidate evidence agrees with the survivors, the advisory lines parse in
  canonical order, and the dispositions satisfy their invariant.\<close>

theorem check_rows_decides:
  "check_rows present f = None \<longleftrightarrow>
     counts_wf f \<and> kills_wf f \<and> advice_wf f \<and> dispositions_ok f \<and> candidates_wf f \<and>
     (if present ''operators'' then operators_wf f else True)"
proof -
  let ?svs = "s_key ` set (f_Survivors f)"
  have "check_candidate_rows ?svs {} (f_CandidateEvidence f) = None \<and> check_flagged_totals f = None
      \<longleftrightarrow> candidates_wf f"
    by (auto simp: check_candidate_rows_iff candidates_wf_def)
  then show ?thesis
    using check_counts_iff [of f] check_kills_iff [of f] check_operators_iff [of present f]
      disposition_rows_iff [of f]
    unfolding check_rows_def Let_def first_error_None by auto
qed

text \<open>C32: A record the validator accepts accounts for every candidate it generated: killed, surviving and
  discarded mutants add up to the generated ones, which are the budgeted prefix of the candidates, the
  operator summaries add up to the same totals, and killed and surviving mutants are disjoint.\<close>

theorem accepted_record_accounts:
  assumes "validateFindingEncoding raw present f = Inr complete"
  shows "f_Generated f = f_Killed f + int (length (f_Survivors f)) + f_Discarded f \<and>
    0 \<le> f_Generated f \<and> f_Generated f \<le> f_CandidateCount f \<and>
    (f_Budget f > 0 \<longrightarrow> f_Generated f \<le> f_Budget f) \<and>
    k_key ` set (f_Kills f) \<inter> s_key ` set (f_Survivors f) = {} \<and> dispositions_ok f \<and>
    (present ''operators'' \<longrightarrow> sum_list (map o_Generated (f_Operators f)) = f_Generated f)"
proof -
  have "check_rows present f = None"
    using assms by (auto simp: validateFindingEncoding_def Let_def split: option.splits if_splits sum.splits)
  then have wf: "counts_wf f" "kills_wf f" "dispositions_ok f" "present ''operators'' \<longrightarrow> operators_wf f"
    by (simp_all add: check_rows_decides split: if_splits)
  have "f_Generated f = f_Killed f + int (length (f_Survivors f)) + f_Discarded f" "0 \<le> f_Generated f"
    "f_Generated f \<le> f_CandidateCount f" "f_Budget f > 0 \<longrightarrow> f_Generated f \<le> f_Budget f"
    using wf(1) by (auto simp: counts_wf_def min_def split: if_splits)
  then show ?thesis using wf(2-4) by (auto simp: kills_wf_def operators_wf_def)
qed

definition example_present :: "string \<Rightarrow> bool" where
  "example_present name \<longleftrightarrow> name = ''operators''"

definition accepted_example :: finding where
  "accepted_example = example_finding\<lparr>f_CandidateCount := 5, f_Budget := 3, f_Generated := 3, f_Mutants := 2,
     f_Killed := 1, f_Discarded := 1, f_Attested := [], f_Kills := [\<lparr>k_Position = ''a.go:9:1'', k_Operator = ''neg'', k_Killer = ''T''\<rparr>],
     f_Operators := [\<lparr>o_Operator = ''neg'', o_Generated = 3, o_Discarded = 1, o_Killed = 1, o_Survived = 1\<rparr>]\<rparr>"

lemma accepted_example_accepted: "validateFindingEncoding None example_present accepted_example = Inr True"
  by (simp add: validateFindingEncoding_def accepted_example_def example_finding_def zero_finding_def
      validateSelectionKey_def parseSelectionKey_def check_target_def check_oracle_def check_runtime_def
      example_present_def check_rows_def check_counts_def check_kills_def check_reconcile_def
      addNonnegative_def max_int_def mutant_keys check_operators_def check_other_selection_def
      survivors_of_def check_flagged_totals_def Let_def)

theorem accepted_record_accounts_witness:
  "f_Generated accepted_example = f_Killed accepted_example + int (length (f_Survivors accepted_example)) +
     f_Discarded accepted_example \<and> dispositions_ok accepted_example"
  using accepted_record_accounts [OF accepted_example_accepted] by blast

text \<open>The guarded sum never wraps: it reports a sum exactly when both operands are non-negative and
  their sum fits a signed 64-bit integer, and then it is the true sum.\<close>

theorem addNonnegative_bound:
  "addNonnegative a b = (if 0 \<le> a \<and> 0 \<le> b \<and> a + b < 2 ^ 63 then (a + b, True) else (0, False))"
  by (auto simp: addNonnegative_def max_int_def)

end
