(* ===== verification/KeyedRows.thy ===== *)
theory KeyedRows
  imports Prelude
begin

text \<open>
  The interface of every loop that fills a Go map of rows keyed by a function of the row: a step
  that writes at the row's own key, leaves the other keys alone and threads some further state
  (the sheds a merge reports, the notes a load collects). The laws give the facts about the whole
  loop once: which keys the map ends with, which rows stand untouched.
\<close>

locale keyed_step =
  fixes key :: "'r \<Rightarrow> 'k" and takes :: "'r \<Rightarrow> bool"
    and step :: "'r \<Rightarrow> ('k \<times> 'r) list \<times> 's \<Rightarrow> ('k \<times> 'r) list \<times> 's"
  assumes step_keys: "fst ` set (fst (step r st)) =
      (if takes r then insert (key r) (fst ` set (fst st)) else fst ` set (fst st))"
    and step_elsewhere: "k \<noteq> key r \<or> \<not> takes r \<Longrightarrow> map_of (fst (step r st)) k = map_of (fst st) k"
    and step_at: "takes r \<Longrightarrow> map_of (fst (step r st)) (key r) = Some r' \<Longrightarrow> key r' = key r"
    and step_distinct: "distinct (map fst (fst st)) \<Longrightarrow> distinct (map fst (fst (step r st)))"
begin

definition consistent :: "('k \<times> 'r) list \<Rightarrow> bool" where
  "consistent m \<longleftrightarrow> distinct (map fst m) \<and> (\<forall>k r. map_of m k = Some r \<longrightarrow> key r = k)"

lemma step_consistent:
  assumes "consistent (fst st)"
  shows "consistent (fst (step r st))"
proof -
  have "key r' = k" if "map_of (fst (step r st)) k = Some r'" for k r'
  proof (cases "takes r \<and> k = key r")
    case True
    then show ?thesis using step_at that by blast
  next
    case False
    then have "map_of (fst st) k = Some r'" using that step_elsewhere [of k r st] by auto
    then show ?thesis using assms by (auto simp: consistent_def)
  qed
  then show ?thesis using assms step_distinct by (auto simp: consistent_def)
qed

lemma fold_consistent: "consistent (fst st) \<Longrightarrow> consistent (fst (fold step rs st))"
  by (induction rs arbitrary: st) (simp_all add: step_consistent)

lemma fold_keys: "fst ` set (fst (fold step rs st)) = key ` {r \<in> set rs. takes r} \<union> fst ` set (fst st)"
  by (induction rs arbitrary: st) (auto simp: step_keys split: if_splits)

lemma fold_elsewhere:
  "k \<notin> key ` {r \<in> set rs. takes r} \<Longrightarrow> map_of (fst (fold step rs st)) k = map_of (fst st) k"
proof (induction rs arbitrary: st)
  case (Cons r rs)
  then have "k \<noteq> key r \<or> \<not> takes r" by auto
  then have "map_of (fst (step r st)) k = map_of (fst st) k" by (rule step_elsewhere)
  moreover have "k \<notin> key ` {r \<in> set rs. takes r}" using Cons.prems by auto
  ultimately show ?case using Cons.IH [of "step r st"] by simp
qed simp

lemma map_keyed_consistent': "consistent (map_keyed key rs)"
  by (auto simp: consistent_def dest!: map_of_SomeD dest: map_keyed_consistent)

lemma consistent_rows:
  assumes "consistent m"
  shows "key ` set (map snd m) = fst ` set m" and "distinct (map key (map snd m))"
proof -
  have eq: "key (snd p) = fst p" if "p \<in> set m" for p
    using assms that by (cases p) (auto simp: consistent_def map_of_is_SomeI)
  then show "key ` set (map snd m) = fst ` set m" by (force simp: image_image)
  have "map key (map snd m) = map fst m" using eq by simp
  then show "distinct (map key (map snd m))" using assms by (simp only: consistent_def)
qed

end

text \<open>The plain loop \<open>m[key(r)] = r\<close>.\<close>

definition put_row :: "('r \<Rightarrow> 'k) \<Rightarrow> 'r \<Rightarrow> ('k \<times> 'r) list \<times> 's \<Rightarrow> ('k \<times> 'r) list \<times> 's" where
  "put_row key r st = (AList.update (key r) r (fst st), snd st)"

interpretation put: keyed_step key "\<lambda>_. True" "put_row key" for key
  by unfold_locales (auto simp: put_row_def distinct_update)

end
