(* ===== verification/Merge.thy ===== *)
theory Merge
  imports Dispositions KeyedRows
begin

text \<open>
  Merging a run's findings into a document (\<open>findings.go\<close>, \<open>reconcile.go\<close>, \<open>prepare.go\<close>,
  \<open>driftabort.go\<close>): grafting dispositions onto replaced records, the sheds that report the ones
  lost, the whole-tree reconcile, and the views over merged findings.
\<close>

subsection \<open>Sheds\<close>

record attestation_shed =
  sh_Symbol :: string
  sh_Position :: string
  sh_Operator :: string
  sh_Reason :: string

definition sh_key :: "attestation_shed \<Rightarrow> survivor_key" where
  "sh_key d = (sh_Position d, sh_Operator d)"

definition shed_text :: "attestation_shed \<Rightarrow> string" where
  "shed_text d = sh_Symbol d @ '' '' @ sh_Position d @ '' '' @ sh_Operator d @ '' - '' @ sh_Reason d"

definition shed_of :: "attestation \<Rightarrow> string \<Rightarrow> attestation_shed" where
  "shed_of a reason = \<lparr>sh_Symbol = [], sh_Position = a_Position a, sh_Operator = a_Operator a,
     sh_Reason = reason\<rparr>"

definition gone_reason :: string where
  "gone_reason = ''the attested survivor is no longer reported - the disposition sheds with its mutant''"

definition moved_site_reason :: string where
  "moved_site_reason = ''site content changed under the position - the surviving mutant is not the attested one''"

definition moved_domain_reason :: string where
  "moved_domain_reason = ''the mutation domain moved or cannot be shown held - the equivalence is judged afresh''"

fun dedupe_sheds :: "string set \<Rightarrow> attestation_shed list \<Rightarrow> attestation_shed list" where
  "dedupe_sheds seen [] = []"
| "dedupe_sheds seen (d # ds) =
     (let key = mutantKey (sh_Symbol d) (sh_Position d) (sh_Operator d) in
      if key \<in> seen then dedupe_sheds seen ds
      else d # dedupe_sheds (insert key seen) ds)"

definition DedupeAttestationSheds :: "attestation_shed list \<Rightarrow> attestation_shed list" where
  "DedupeAttestationSheds sheds = dedupe_sheds {} sheds"

subsection \<open>Grafting dispositions\<close>

text \<open>The two maps every anchor check builds from a record's survivors.\<close>

definition siteOf :: "survivor list \<Rightarrow> survivor_key \<Rightarrow> string" where
  "siteOf svs key = get_or [] (map_last (map (\<lambda>s. (s_key s, s_Site s)) svs) key)"

definition surviving :: "survivor list \<Rightarrow> survivor_key \<Rightarrow> bool" where
  "surviving svs key \<longleftrightarrow> key \<in> s_key ` set svs"

type_synonym attestation_snapshot = "survivor_key \<Rightarrow> attestation option"

definition by_a_key :: "attestation list \<Rightarrow> survivor_key \<Rightarrow> attestation option" where
  "by_a_key as = map_last (map (\<lambda>a. (a_key a, a)) as)"

definition by_w_key :: "withdrawn_attestation list \<Rightarrow> survivor_key \<Rightarrow> withdrawn_attestation option" where
  "by_w_key ws = map_last (map (\<lambda>w. (w_key w, w)) ws)"

text \<open>
  One row the fresh record carries: dropped where the live document withdrew it meanwhile, adopting
  the live reason where the live document re-attested it meanwhile. Without a snapshot
  (\<open>None\<close>) every row stays.
\<close>

definition graft_fresh_row ::
    "attestation list \<Rightarrow> withdrawn_attestation list \<Rightarrow> survivor list \<Rightarrow> attestation_snapshot option \<Rightarrow>
     attestation \<Rightarrow> attestation option" where
  "graft_fresh_row prior priorWithdrawn svs snap a =
     (case snap of
        None \<Rightarrow> Some a
      | Some sn \<Rightarrow>
          (case sn (a_key a) of
             None \<Rightarrow> Some a
           | Some sa \<Rightarrow>
               if a_Reason sa \<noteq> a_Reason a then Some a
               else (case by_a_key prior (a_key a) of
                   None \<Rightarrow> (case by_w_key priorWithdrawn (a_key a) of None \<Rightarrow> Some a | Some _ \<Rightarrow> None)
                 | Some pa \<Rightarrow>
                     if a_Reason pa \<noteq> a_Reason a \<and> (a_Site pa = [] \<or> a_Site pa = siteOf svs (a_key a))
                     then Some (a\<lparr>a_Reason := a_Reason pa, a_Site := siteOf svs (a_key a)\<rparr>)
                     else Some a)))"

definition graft_fresh where
  "graft_fresh prior priorWithdrawn svs snap fresh =
     List.map_filter (graft_fresh_row prior priorWithdrawn svs snap) fresh"

fun graft_prior ::
    "survivor list \<Rightarrow> attestation_snapshot option \<Rightarrow> survivor_key set \<Rightarrow> attestation list \<Rightarrow>
     attestation list \<times> attestation_shed list" where
  "graft_prior svs snap attested [] = ([], [])"
| "graft_prior svs snap attested (a # as) =
     (let key = a_key a;
          shed = (\<lambda>why. let (out, sheds) = graft_prior svs snap attested as in (out, shed_of a why # sheds)) in
      if key \<in> attested then graft_prior svs snap attested as
      else if \<not> surviving svs key then shed gone_reason
      else if a_Site a \<noteq> [] \<and> a_Site a \<noteq> siteOf svs key then shed moved_site_reason
      else if (case snap of None \<Rightarrow> False | Some sn \<Rightarrow> sn key = Some a) then shed moved_domain_reason
      else (let (out, sheds) = graft_prior svs snap (insert key attested) as in
        (a\<lparr>a_Site := siteOf svs key\<rparr> # out, sheds)))"

fun graft_withdrawn ::
    "survivor list \<Rightarrow> survivor_key set \<Rightarrow> survivor_key set \<Rightarrow> withdrawn_attestation list \<Rightarrow>
     withdrawn_attestation list" where
  "graft_withdrawn svs attested seen [] = []"
| "graft_withdrawn svs attested seen (w # ws) =
     (let key = w_key w in
      if key \<in> attested \<or> key \<in> seen \<or> \<not> surviving svs key then graft_withdrawn svs attested seen ws
      else if w_Site w \<noteq> [] \<and> w_Site w \<noteq> siteOf svs key then graft_withdrawn svs attested seen ws
      else w\<lparr>w_Site := siteOf svs key\<rparr> # graft_withdrawn svs attested (insert key seen) ws)"

definition graftDispositionsAgainst ::
    "attestation list \<Rightarrow> attestation list \<Rightarrow> withdrawn_attestation list \<Rightarrow> withdrawn_attestation list \<Rightarrow>
     survivor list \<Rightarrow> attestation_snapshot option \<Rightarrow>
     attestation list \<times> withdrawn_attestation list \<times> attestation_shed list" where
  "graftDispositionsAgainst prior fresh priorWithdrawn freshWithdrawn svs snap =
     (let kept = graft_fresh prior priorWithdrawn svs snap fresh;
          (grafted, sheds) = graft_prior svs snap (a_key ` set kept) prior;
          out = kept @ grafted in
      (out, graft_withdrawn svs (a_key ` set out) {} (priorWithdrawn @ freshWithdrawn), sheds))"

definition graftAttestationsAgainst ::
    "attestation list \<Rightarrow> attestation list \<Rightarrow> survivor list \<Rightarrow> attestation_snapshot option \<Rightarrow>
     attestation list \<times> attestation_shed list" where
  "graftAttestationsAgainst prior fresh svs snap =
     (let (att, _, shed) = graftDispositionsAgainst prior fresh [] [] svs snap in (att, shed))"

definition graftAttestations ::
    "attestation list \<Rightarrow> attestation list \<Rightarrow> survivor list \<Rightarrow> attestation list \<times> attestation_shed list" where
  "graftAttestations prior fresh svs = graftAttestationsAgainst prior fresh svs None"

subsection \<open>Carrying dispositions in a run\<close>

fun carryAnchoredAttestations ::
    "attestation list \<Rightarrow> survivor list \<Rightarrow> attestation list \<times> attestation_shed list \<times> attestation list" where
  "carryAnchoredAttestations [] svs = ([], [], [])"
| "carryAnchoredAttestations (a # as) svs =
     (let (kept, sheds, gone) = carryAnchoredAttestations as svs; key = a_key a in
      if \<not> surviving svs key then (kept, sheds, a # gone)
      else if a_Site a \<noteq> [] \<and> a_Site a \<noteq> siteOf svs key then
        (kept, shed_of a moved_site_reason # sheds, gone)
      else (a\<lparr>a_Site := siteOf svs key\<rparr> # kept, sheds, gone))"

definition carryAnchoredWithdrawn ::
    "withdrawn_attestation list \<Rightarrow> attestation list \<Rightarrow> survivor list \<Rightarrow> withdrawn_attestation list" where
  "carryAnchoredWithdrawn prior attested svs = graft_withdrawn svs (a_key ` set attested) {} prior"

record attestation_contradiction =
  con_Symbol :: string
  con_Position :: string
  con_Operator :: string
  con_Killer :: string
  con_Reason :: string

definition contradictKilledDispositions ::
    "string \<Rightarrow> attestation list \<Rightarrow> survivor list \<Rightarrow> kill list \<Rightarrow> attestation_contradiction list" where
  "contradictKilledDispositions symbol prior svs kills =
     List.map_filter (\<lambda>a.
       if surviving svs (a_key a) then None
       else map_option (\<lambda>killer. \<lparr>con_Symbol = symbol, con_Position = a_Position a,
           con_Operator = a_Operator a, con_Killer = killer, con_Reason = a_Reason a\<rparr>)
         (map_last (map (\<lambda>k. (k_key k, k_Killer k)) kills) (a_key a))) prior"

subsection \<open>Merging findings\<close>

text \<open>
  The run-start snapshot holds the attested rows of each record key; a nil snapshot is \<open>None\<close>.
\<close>

type_synonym run_snapshot = "(string \<Rightarrow> attestation list option) option"

definition record_snapshot :: "run_snapshot \<Rightarrow> finding \<Rightarrow> attestation_snapshot option" where
  "record_snapshot snapshot f =
     map_option (\<lambda>m. by_a_key (case m (recordKey f) of
        Some as \<Rightarrow> as
      | None \<Rightarrow> if f_Selection f = [] then get_or [] (m (f_Symbol f)) else [])) snapshot"

definition merge_one ::
    "run_snapshot \<Rightarrow> finding \<Rightarrow> (string \<times> finding) list \<times> attestation_shed list \<Rightarrow>
     (string \<times> finding) list \<times> attestation_shed list" where
  "merge_one snapshot f st =
     (let (byKey, shed) = st in
      if f_Skipped f \<noteq> [] then (byKey, shed)
      else case map_of byKey (recordKey f) of
        None \<Rightarrow> (AList.update (recordKey f) f byKey, shed)
      | Some priorRec \<Rightarrow>
          (let (att, wd, dropped) = graftDispositionsAgainst (f_Attested priorRec) (f_Attested f)
                 (f_Withdrawn priorRec) (f_Withdrawn f) (f_Survivors f) (record_snapshot snapshot f) in
            (AList.update (recordKey f) (f\<lparr>f_Attested := att, f_Withdrawn := wd\<rparr>) byKey,
             shed @ map (\<lambda>d. d\<lparr>sh_Symbol := f_Symbol f\<rparr>) dropped)))"

definition merge_rows :: "finding list \<Rightarrow> finding list \<Rightarrow> run_snapshot \<Rightarrow>
    (string \<times> finding) list \<times> attestation_shed list" where
  "merge_rows prior fresh snapshot = fold (merge_one snapshot) fresh (map_keyed recordKey prior, [])"

definition MergeFindings :: "finding list \<Rightarrow> finding list \<Rightarrow> run_snapshot \<Rightarrow>
    finding list \<times> attestation_shed list" where
  "MergeFindings prior fresh snapshot =
     (let (byKey, shed) = merge_rows prior fresh snapshot in
      (AnnotateSelectionVerdicts (map snd byKey), shed))"

definition MergeWholeFindingsForSelection :: "finding list \<Rightarrow> finding list \<Rightarrow> target list \<Rightarrow>
    run_snapshot \<Rightarrow> string \<Rightarrow> finding list \<times> attestation_shed list" where
  "MergeWholeFindingsForSelection prior fresh discovered snapshot selKey =
     (let (merged, shed) = MergeFindings prior fresh snapshot in
      (AnnotateSelectionVerdicts (filter (\<lambda>f. f_Selection f \<noteq> selKey \<or>
          f_Symbol f \<in> t_Symbol ` set discovered \<or> f_Shape f \<noteq> None) merged), shed))"

definition MergeWholeFindings :: "finding list \<Rightarrow> finding list \<Rightarrow> target list \<Rightarrow> run_snapshot \<Rightarrow>
    finding list \<times> attestation_shed list" where
  "MergeWholeFindings prior fresh discovered snapshot =
     MergeWholeFindingsForSelection prior fresh discovered snapshot []"

subsection \<open>Grafting keeps the invariant and loses no disposition silently\<close>

lemma map_filter_set: "set (List.map_filter g xs) = {y. \<exists>x \<in> set xs. g x = Some y}"
  by (induction xs) (auto split: option.splits)

lemma graft_fresh_row_key: "graft_fresh_row prior pw svs snap a = Some a' \<Longrightarrow> a_key a' = a_key a"
  by (auto simp: graft_fresh_row_def a_key_def split: option.splits if_splits)

lemma graft_fresh_row_reason:
  "graft_fresh_row prior pw svs snap a = Some a' \<Longrightarrow>
    a_Reason a' = a_Reason a \<or> (\<exists>p \<in> set prior. a_Reason a' = a_Reason p)"
  by (auto simp: graft_fresh_row_def by_a_key_def split: option.splits if_splits dest!: map_last_Some_in)

lemma distinct_map_filter:
  "(\<And>x y. g x = Some y \<Longrightarrow> h' y = h x) \<Longrightarrow> distinct (map h xs) \<Longrightarrow> distinct (map h' (List.map_filter g xs))"
proof (induction xs)
  case (Cons x xs)
  then show ?case
    by (force split: option.splits simp: map_filter_set)
qed simp

lemma graft_prior_Cons_cases:
  assumes "graft_prior svs snap A (b # prior) = (out, sheds)"
  obtains (held) "a_key b \<in> A" "graft_prior svs snap A prior = (out, sheds)"
    | (shed) why s' where "a_key b \<notin> A" "graft_prior svs snap A prior = (out, s')" "sheds = shed_of b why # s'"
    | (grafted) o' where "a_key b \<notin> A" "surviving svs (a_key b)" "a_Site b = [] \<or> a_Site b = siteOf svs (a_key b)"
        "graft_prior svs snap (insert (a_key b) A) prior = (o', sheds)"
        "out = b\<lparr>a_Site := siteOf svs (a_key b)\<rparr> # o'"
  using assms
  by (simp only: graft_prior.simps Let_def split: if_splits prod.splits) auto

lemma site_key [simp]: "a_key (b\<lparr>a_Site := x\<rparr>) = a_key b" "sh_key (shed_of b y) = a_key b"
  by (simp_all add: a_key_def sh_key_def shed_of_def)

lemma graft_prior_conserves:
  assumes "graft_prior svs snap attested prior = (out, sheds)" "a \<in> set prior"
  shows "a_key a \<in> attested \<union> a_key ` set out \<or> (\<exists>d \<in> set sheds. sh_key d = a_key a)"
  using assms
proof (induction prior arbitrary: attested out sheds)
  case (Cons b prior)
  from Cons.prems(1) show ?case
  proof (cases rule: graft_prior_Cons_cases)
    case held
    then show ?thesis using Cons.IH [OF held(2)] Cons.prems(2) by auto
  next
    case (shed why s')
    then show ?thesis using Cons.IH [OF shed(2)] Cons.prems(2) by auto
  next
    case (grafted o')
    then show ?thesis using Cons.IH [OF grafted(4)] Cons.prems(2) by auto
  qed
qed simp

lemma graft_prior_sound:
  assumes "graft_prior svs snap attested prior = (out, sheds)"
  shows "distinct (map a_key out) \<and> a_key ` set out \<inter> attested = {} \<and>
    (\<forall>a \<in> set out. surviving svs (a_key a) \<and> a_Site a = siteOf svs (a_key a) \<and>
      (\<exists>p \<in> set prior. a_key p = a_key a \<and> a_Reason p = a_Reason a \<and>
        (a_Site p = [] \<or> a_Site p = a_Site a)))"
  using assms
proof (induction prior arbitrary: attested out sheds)
  case (Cons b prior)
  from Cons.prems show ?case
  proof (cases rule: graft_prior_Cons_cases)
    case held
    then show ?thesis using Cons.IH [OF held(2)] by auto
  next
    case (shed why s')
    then show ?thesis using Cons.IH [OF shed(2)] by auto
  next
    case (grafted o')
    then show ?thesis using Cons.IH [OF grafted(4)] by auto
  qed
qed simp

lemma graft_withdrawn_Cons_cases:
  obtains (skipped) "graft_withdrawn svs attested seen (w # ws) = graft_withdrawn svs attested seen ws"
    | (kept) "w_key w \<notin> attested" "w_key w \<notin> seen" "surviving svs (w_key w)"
        "graft_withdrawn svs attested seen (w # ws) =
          w\<lparr>w_Site := siteOf svs (w_key w)\<rparr> # graft_withdrawn svs attested (insert (w_key w) seen) ws"
proof (cases "w_key w \<in> attested \<or> w_key w \<in> seen \<or> \<not> surviving svs (w_key w) \<or>
    w_Site w \<noteq> [] \<and> w_Site w \<noteq> siteOf svs (w_key w)")
  case True
  then have "graft_withdrawn svs attested seen (w # ws) = graft_withdrawn svs attested seen ws"
    by (auto simp: Let_def)
  then show ?thesis by (rule skipped)
next
  case False
  then show ?thesis by (intro kept) (auto simp: Let_def)
qed

lemma w_site_simps [simp]: "w_key (w\<lparr>w_Site := x\<rparr>) = w_key w"
  by (simp add: w_key_def)

lemma graft_withdrawn_sound:
  "distinct (map w_key (graft_withdrawn svs attested seen ws)) \<and>
   w_key ` set (graft_withdrawn svs attested seen ws) \<inter> (attested \<union> seen) = {} \<and>
   (\<forall>w \<in> set (graft_withdrawn svs attested seen ws). surviving svs (w_key w) \<and> w_Site w = siteOf svs (w_key w) \<and>
     (\<exists>v \<in> set ws. w_PriorReason w = w_PriorReason v \<and> w_Reason w = w_Reason v))"
proof (induction ws arbitrary: seen)
  case (Cons w ws)
  show ?case
  proof (cases rule: graft_withdrawn_Cons_cases [of svs attested seen w ws])
    case skipped
    then show ?thesis using Cons.IH [of seen] by auto
  next
    case kept
    then show ?thesis using Cons.IH [of "insert (w_key w) seen"] unfolding kept(4) by auto
  qed
qed simp

text \<open>The graft as a whole.\<close>

lemma graft_ok:
  assumes "graftDispositionsAgainst prior fresh pw fw svs snap = (att, wd, sheds)"
    and fresh: "distinct (map a_key fresh)" "a_key ` set fresh \<subseteq> s_key ` set svs"
      "\<forall>a \<in> set fresh. a_Reason a \<noteq> []"
    and prior: "\<forall>a \<in> set prior. a_Reason a \<noteq> []"
    and wds: "\<forall>w \<in> set (pw @ fw). w_PriorReason w \<noteq> [] \<and> w_Reason w \<noteq> []"
  shows "distinct (map a_key att)" "a_key ` set att \<subseteq> s_key ` set svs" "\<forall>a \<in> set att. a_Reason a \<noteq> []"
    "distinct (map w_key wd)" "w_key ` set wd \<subseteq> s_key ` set svs" "a_key ` set att \<inter> w_key ` set wd = {}"
    "\<forall>w \<in> set wd. w_PriorReason w \<noteq> [] \<and> w_Reason w \<noteq> []"
proof -
  define kept where "kept = graft_fresh prior pw svs snap fresh"
  obtain grafted where gp: "graft_prior svs snap (a_key ` set kept) prior = (grafted, sheds)"
    and att: "att = kept @ grafted" and wd: "wd = graft_withdrawn svs (a_key ` set att) {} (pw @ fw)"
    using assms(1) by (auto simp: graftDispositionsAgainst_def Let_def kept_def split: prod.splits)
  note g = graft_prior_sound [OF gp]
  have kk: "\<exists>b \<in> set fresh. a_key a = a_key b \<and> (a_Reason a = a_Reason b \<or> (\<exists>p \<in> set prior. a_Reason a = a_Reason p))"
    if "a \<in> set kept" for a
    using that graft_fresh_row_key graft_fresh_row_reason unfolding kept_def graft_fresh_def map_filter_set by blast
  have dk: "distinct (map a_key kept)"
    unfolding kept_def graft_fresh_def
    by (rule distinct_map_filter [OF graft_fresh_row_key fresh(1)])
  show "distinct (map a_key att)" using dk g by (auto simp: att)
  show "a_key ` set att \<subseteq> s_key ` set svs"
    using kk fresh(2) g unfolding att surviving_def by fastforce
  show "\<forall>a \<in> set att. a_Reason a \<noteq> []"
    using kk fresh(3) prior g unfolding att by (metis Un_iff set_append)
  note w = graft_withdrawn_sound [of svs "a_key ` set att" "{}" "pw @ fw", folded wd]
  show "distinct (map w_key wd)" "w_key ` set wd \<subseteq> s_key ` set svs" "a_key ` set att \<inter> w_key ` set wd = {}"
    using w by (auto simp: surviving_def)
  show "\<forall>w \<in> set wd. w_PriorReason w \<noteq> [] \<and> w_Reason w \<noteq> []"
  proof
    fix x assume "x \<in> set wd"
    then obtain v where "v \<in> set (pw @ fw)" "w_PriorReason x = w_PriorReason v" "w_Reason x = w_Reason v"
      using w by blast
    then show "w_PriorReason x \<noteq> [] \<and> w_Reason x \<noteq> []" using wds by metis
  qed
qed

lemma graft_conserves:
  assumes "graftDispositionsAgainst prior fresh pw fw svs snap = (att, wd, sheds)" "a \<in> set prior"
  shows "a_key a \<in> a_key ` set att \<or> (\<exists>d \<in> set sheds. sh_key d = a_key a)"
proof -
  define kept where "kept = graft_fresh prior pw svs snap fresh"
  obtain grafted where gp: "graft_prior svs snap (a_key ` set kept) prior = (grafted, sheds)"
    and att: "att = kept @ grafted"
    using assms(1) by (auto simp: graftDispositionsAgainst_def Let_def kept_def split: prod.splits)
  show ?thesis using graft_prior_conserves [OF gp assms(2)] by (auto simp: att)
qed

subsection \<open>The merge loop\<close>

lemma set_update: "set (AList.update k v m) \<subseteq> insert (k, v) (set m)"
  by (induction m) auto

text \<open>The row a fresh finding leaves at its key.\<close>

lemma merge_one_cases:
  obtains (skipped) "f_Skipped f \<noteq> []" "merge_one snapshot f st = st"
    | (new) "f_Skipped f = []" "map_of (fst st) (recordKey f) = None"
        "merge_one snapshot f st = (AList.update (recordKey f) f (fst st), snd st)"
    | (replaced) r att wd dropped where "f_Skipped f = []" "map_of (fst st) (recordKey f) = Some r"
        "graftDispositionsAgainst (f_Attested r) (f_Attested f) (f_Withdrawn r) (f_Withdrawn f)
           (f_Survivors f) (record_snapshot snapshot f) = (att, wd, dropped)"
        "merge_one snapshot f st =
          (AList.update (recordKey f) (f\<lparr>f_Attested := att, f_Withdrawn := wd\<rparr>) (fst st),
           snd st @ map (\<lambda>d. d\<lparr>sh_Symbol := f_Symbol f\<rparr>) dropped)"
proof (cases "f_Skipped f = []")
  case False
  then show ?thesis by (intro skipped) (simp_all add: merge_one_def split: prod.splits)
next
  case True
  show ?thesis
  proof (cases "map_of (fst st) (recordKey f)")
    case None
    with True show ?thesis by (intro new) (cases st; simp add: merge_one_def)+
  next
    case (Some r)
    obtain att wd dropped where g: "graftDispositionsAgainst (f_Attested r) (f_Attested f) (f_Withdrawn r)
        (f_Withdrawn f) (f_Survivors f) (record_snapshot snapshot f) = (att, wd, dropped)"
      by (metis surj_pair)
    show ?thesis
      by (rule replaced [OF True Some g]) (use Some True g in \<open>cases st; simp add: merge_one_def\<close>)
  qed
qed

lemma recordKey_simps [simp]:
  "recordKey (f\<lparr>f_Attested := att, f_Withdrawn := wd\<rparr>) = recordKey f"
  by (simp add: recordKey_def)

interpretation merge: keyed_step recordKey "\<lambda>f. f_Skipped f = []" "merge_one snapshot" for snapshot
proof
  fix r :: finding and st :: "(string \<times> finding) list \<times> attestation_shed list" and k r'
  show "fst ` set (fst (merge_one snapshot r st)) =
      (if f_Skipped r = [] then insert (recordKey r) (fst ` set (fst st)) else fst ` set (fst st))"
    by (cases rule: merge_one_cases [of r snapshot st]) auto
  show "map_of (fst (merge_one snapshot r st)) k = map_of (fst st) k"
    if "k \<noteq> recordKey r \<or> f_Skipped r \<noteq> []"
    using that by (cases rule: merge_one_cases [of r snapshot st]) auto
  show "recordKey r' = recordKey r"
    if "f_Skipped r = []" "map_of (fst (merge_one snapshot r st)) (recordKey r) = Some r'"
    using that by (cases rule: merge_one_cases [of r snapshot st]) auto
  show "distinct (map fst (fst (merge_one snapshot r st)))" if "distinct (map fst (fst st))"
    using that by (cases rule: merge_one_cases [of r snapshot st]) (auto simp: distinct_update)
qed

lemma merge_rows_consistent: "merge.consistent (fst (merge_rows prior fresh snapshot))"
  unfolding merge_rows_def by (rule merge.fold_consistent) (simp add: merge.map_keyed_consistent')

text \<open>Rows of the merge, before and after the annotation.\<close>

lemma MergeFindings_rows:
  assumes "MergeFindings prior fresh snapshot = (merged, sheds)"
  shows "merged = AnnotateSelectionVerdicts (map snd (fst (merge_rows prior fresh snapshot)))"
    and "sheds = snd (merge_rows prior fresh snapshot)"
  using assms by (auto simp: MergeFindings_def split: prod.splits)

lemma Annotate_unadvised_nth:
  "i < length fs \<Longrightarrow> unadvised (AnnotateSelectionVerdicts fs ! i) = unadvised (fs ! i)"
  by (simp add: nth_Annotate unadvised_annotated)

lemma Annotate_mem:
  assumes "f \<in> set fs" shows "\<exists>g \<in> set (AnnotateSelectionVerdicts fs). unadvised g = unadvised f"
  using assms by (metis Annotate_unadvised_nth in_set_conv_nth length_Annotate)

lemma Annotate_mem_conv:
  assumes "g \<in> set (AnnotateSelectionVerdicts fs)" shows "\<exists>f \<in> set fs. unadvised g = unadvised f"
  using assms by (metis Annotate_unadvised_nth in_set_conv_nth length_Annotate)

lemma recordKey_unadvised [simp]: "recordKey (unadvised f) = recordKey f"
  by (simp add: recordKey_def)

lemma map_recordKey_Annotate [simp]: "map recordKey (AnnotateSelectionVerdicts fs) = map recordKey fs"
  by (rule nth_equalityI) (simp_all, metis Annotate_unadvised_nth recordKey_unadvised)

lemma merge_one_ok:
  assumes "\<forall>p \<in> set (fst st). dispositions_ok (snd p)" "dispositions_ok f"
  shows "\<forall>p \<in> set (fst (merge_one snapshot f st)). dispositions_ok (snd p)"
proof (cases rule: merge_one_cases [of f snapshot st])
  case skipped
  then show ?thesis using assms by simp
next
  case new
  then show ?thesis using assms set_update [of "recordKey f" f "fst st"] by auto
next
  case (replaced r att wd dropped)
  have r: "dispositions_ok r"
    using map_of_SomeD [OF replaced(2)] assms(1) by (metis snd_conv)
  have wds: "\<forall>w \<in> set (f_Withdrawn r @ f_Withdrawn f). w_PriorReason w \<noteq> [] \<and> w_Reason w \<noteq> []"
    using dispositions_okD(7) [OF r] dispositions_okD(7) [OF assms(2)] by auto
  have fa: "\<forall>a \<in> set (f_Attested f). a_Reason a \<noteq> []" and ra: "\<forall>a \<in> set (f_Attested r). a_Reason a \<noteq> []"
    using dispositions_okD(4) [OF r] dispositions_okD(4) [OF assms(2)] by blast+
  note g = graft_ok [OF replaced(3) dispositions_okD(2,3) [OF assms(2)] fa ra wds]
  let ?f = "f\<lparr>f_Attested := att, f_Withdrawn := wd\<rparr>"
  have "f_Survivors ?f = f_Survivors f" "f_Attested ?f = att" "f_Withdrawn ?f = wd" by simp_all
  then have ok: "dispositions_ok ?f"
    using g assms(2) unfolding dispositions_ok_def by presburger
  show ?thesis
  proof
    fix p assume "p \<in> set (fst (merge_one snapshot f st))"
    then have "p = (recordKey f, ?f) \<or> p \<in> set (fst st)"
      using set_update [of "recordKey f" ?f "fst st"] unfolding replaced(4) by auto
    then show "dispositions_ok (snd p)" using ok assms(1) by fastforce
  qed
qed

lemma fold_merge_ok:
  "\<forall>p \<in> set (fst st). dispositions_ok (snd p) \<Longrightarrow> \<forall>f \<in> set fs. dispositions_ok f \<Longrightarrow>
   \<forall>p \<in> set (fst (fold (merge_one snapshot) fs st)). dispositions_ok (snd p)"
proof (induction fs arbitrary: st)
  case (Cons f fs)
  have "\<forall>p \<in> set (fst (merge_one snapshot f st)). dispositions_ok (snd p)"
    by (rule merge_one_ok) (use Cons.prems in auto)
  then show ?case using Cons.IH Cons.prems(2) by simp
qed simp

lemma merge_rows_ok:
  assumes "\<forall>f \<in> set prior. dispositions_ok f" "\<forall>f \<in> set fresh. dispositions_ok f"
  shows "\<forall>p \<in> set (fst (merge_rows prior fresh snapshot)). dispositions_ok (snd p)"
  unfolding merge_rows_def
proof (rule fold_merge_ok)
  show "\<forall>p \<in> set (fst (map_keyed recordKey prior, [])). dispositions_ok (snd p)"
    using assms(1) map_keyed_consistent by fastforce
qed (rule assms(2))

subsection \<open>What a merge promises\<close>

text \<open>A merged document has exactly one record per key: the keys of the prior document and of the
  measured (not skipped) fresh findings.\<close>

theorem merge_keys:
  assumes "MergeFindings prior fresh snapshot = (merged, sheds)"
  shows "distinct (map recordKey merged) \<and>
    recordKey ` set merged = recordKey ` set prior \<union> recordKey ` {f \<in> set fresh. f_Skipped f = []}"
proof -
  let ?m = "fst (merge_rows prior fresh snapshot)"
  have eq: "map recordKey merged = map recordKey (map snd ?m)"
    by (simp only: MergeFindings_rows(1) [OF assms] map_recordKey_Annotate)
  then have "recordKey ` set merged = recordKey ` set (map snd ?m)" by (metis list.set_map)
  also have "\<dots> = fst ` set ?m" by (rule merge.consistent_rows(1) [OF merge_rows_consistent])
  also have "\<dots> = recordKey ` {f \<in> set fresh. f_Skipped f = []} \<union> recordKey ` set prior"
    by (simp add: merge_rows_def merge.fold_keys)
  finally show ?thesis
    using merge.consistent_rows(2) [OF merge_rows_consistent] eq by (simp add: Un_commute)
qed

text \<open>A tracked disposition through the loop: it stands, or a shed names it.\<close>

definition accounted :: "string \<Rightarrow> survivor_key \<Rightarrow> (string \<times> finding) list \<times> attestation_shed list \<Rightarrow> bool" where
  "accounted K k st \<longleftrightarrow> (\<exists>d \<in> set (snd st). sh_key d = k \<and> (\<exists>f. recordKey f = K \<and> sh_Symbol d = f_Symbol f)) \<or>
     (\<exists>g. map_of (fst st) K = Some g \<and> k \<in> a_key ` set (f_Attested g))"

lemma accounted_step:
  assumes "accounted K k st" shows "accounted K k (merge_one snapshot f st)"
proof (cases rule: merge_one_cases [of f snapshot st])
  case skipped
  then show ?thesis using assms by simp
next
  case new
  then show ?thesis using assms by (auto simp: accounted_def)
next
  case (replaced r att wd dropped)
  have shk: "\<exists>d' \<in> set (snd (merge_one snapshot f st)). sh_key d' = sh_key d \<and> sh_Symbol d' = f_Symbol f" if "d \<in> set dropped" for d
    by (rule bexI [of _ "d\<lparr>sh_Symbol := f_Symbol f\<rparr>"]) (use that in \<open>auto simp: sh_key_def replaced(4)\<close>)
  have "k \<in> a_key ` set att \<or> (\<exists>d \<in> set dropped. sh_key d = k)" if "k \<in> a_key ` set (f_Attested r)"
    using that graft_conserves [OF replaced(3)] by auto
  with shk have "k \<in> a_key ` set att \<or> (\<exists>d' \<in> set (snd (merge_one snapshot f st)). sh_key d' = k \<and> sh_Symbol d' = f_Symbol f)"
    if "k \<in> a_key ` set (f_Attested r)"
    using that by metis
  then have mine: "accounted (recordKey f) k (merge_one snapshot f st)" if "k \<in> a_key ` set (f_Attested r)"
    using that by (auto simp: accounted_def replaced(4))
  have grows: "set (snd st) \<subseteq> set (snd (merge_one snapshot f st))" by (auto simp: replaced(4))
  have other: "map_of (fst (merge_one snapshot f st)) K = map_of (fst st) K" if "K \<noteq> recordKey f"
    using that by (simp add: replaced(4))
  from assms consider (shed) d where "d \<in> set (snd st)" "sh_key d = k" "\<exists>f. recordKey f = K \<and> sh_Symbol d = f_Symbol f"
    | (held) g where "map_of (fst st) K = Some g" "k \<in> a_key ` set (f_Attested g)"
    by (auto simp: accounted_def)
  then show ?thesis
  proof cases
    case shed
    then show ?thesis using grows unfolding accounted_def by blast
  next
    case held
    show ?thesis
    proof (cases "K = recordKey f")
      case True
      then show ?thesis using mine held replaced(2) by simp
    next
      case False
      then show ?thesis using held other by (simp add: accounted_def)
    qed
  qed
qed

lemma accounted_fold: "accounted K k st \<Longrightarrow> accounted K k (fold (merge_one snapshot) fs st)"
  by (induction fs arbitrary: st) (simp_all add: accounted_step)

lemma merge_accounts:
  assumes "MergeFindings prior fresh snapshot = (merged, sheds)"
    and "distinct (map recordKey prior)" "p \<in> set prior" "a \<in> set (f_Attested p)"
  shows "(\<exists>d \<in> set sheds. sh_key d = a_key a \<and> (\<exists>f. recordKey f = recordKey p \<and> sh_Symbol d = f_Symbol f)) \<or>
    (\<exists>g \<in> set merged. recordKey g = recordKey p \<and> a_key a \<in> a_key ` set (f_Attested g))"
proof -
  let ?st = "merge_rows prior fresh snapshot"
  have "map_of (map_keyed recordKey prior) (recordKey p) = Some p"
    using assms(2,3) by (auto simp: map_of_map_keyed intro!: map_last_distinct simp: comp_def)
  then have "accounted (recordKey p) (a_key a) (map_keyed recordKey prior, [])"
    using assms(4) by (auto simp: accounted_def)
  then have "accounted (recordKey p) (a_key a) ?st"
    unfolding merge_rows_def by (rule accounted_fold)
  then consider "\<exists>d \<in> set (snd ?st). sh_key d = a_key a \<and> (\<exists>f. recordKey f = recordKey p \<and> sh_Symbol d = f_Symbol f)"
    | g where "map_of (fst ?st) (recordKey p) = Some g" "a_key a \<in> a_key ` set (f_Attested g)"
    unfolding accounted_def by blast
  then show ?thesis
  proof cases
    case 1
    then show ?thesis using MergeFindings_rows(2) [OF assms(1)] by simp
  next
    case (2 g)
    have key: "recordKey g = recordKey p"
      using merge_rows_consistent 2(1) by (auto simp: merge.consistent_def)
    have "g \<in> set (map snd (fst ?st))" using map_of_SomeD [OF 2(1)] by force
    then obtain h where "h \<in> set merged" "unadvised h = unadvised g"
      using Annotate_mem MergeFindings_rows(1) [OF assms(1)] by blast
    then show ?thesis using 2(2) key by (metis recordKey_unadvised unadvised_simps(5))
  qed
qed

text \<open>C4: A merge drops no disposition silently: every attestation of a prior record is still attested
  in the merged record of the same key, or a reported shed names its symbol, position and operator.\<close>

theorem merge_loses_no_disposition:
  assumes "MergeFindings prior fresh snapshot = (merged, sheds)"
    and "distinct (map recordKey prior)" "p \<in> set prior" "a \<in> set (f_Attested p)"
  shows "(\<exists>d \<in> set sheds. sh_key d = a_key a \<and> (\<exists>f. recordKey f = recordKey p \<and> sh_Symbol d = f_Symbol f)) \<or>
    (\<exists>g \<in> set merged. recordKey g = recordKey p \<and> a_key a \<in> a_key ` set (f_Attested g))"
  by (rule merge_accounts [OF assms])

text \<open>Merging keeps the disposition invariant of the encoding: if it holds of every prior and fresh
  record, it holds of every merged one.\<close>

theorem merge_preserves_dispositions:
  assumes "\<forall>f \<in> set prior. dispositions_ok f" "\<forall>f \<in> set fresh. dispositions_ok f"
    and "MergeFindings prior fresh snapshot = (merged, sheds)" "g \<in> set merged"
  shows "dispositions_ok g"
proof -
  obtain f where f: "f \<in> set (map snd (fst (merge_rows prior fresh snapshot)))" "unadvised g = unadvised f"
    using Annotate_mem_conv assms(4) MergeFindings_rows(1) [OF assms(3)] by blast
  then have "dispositions_ok f" using merge_rows_ok [OF assms(1,2), of snapshot] by auto
  then show ?thesis using dispositions_ok_unadvised [OF f(2)] by simp
qed

text \<open>A prior record the run did not measure stands in the merged document, advisory lines apart;
  a whole-tree run drops exactly the records of its own selection whose symbol it did not discover
  and which carry no declared shape.\<close>

theorem whole_merge_keeps:
  assumes "MergeWholeFindingsForSelection prior fresh discovered snapshot selKey = (merged, sheds)"
    and "distinct (map recordKey prior)" "p \<in> set prior"
    and "recordKey p \<notin> recordKey ` {f \<in> set fresh. f_Skipped f = []}"
  shows "if f_Selection p = selKey \<and> f_Symbol p \<notin> t_Symbol ` set discovered \<and> f_Shape p = None
    then recordKey p \<notin> recordKey ` set merged
    else \<exists>g \<in> set merged. unadvised g = unadvised p"
proof -
  let ?rows = "map snd (fst (merge_rows prior fresh snapshot))"
  define keep where "keep = (\<lambda>f :: finding. f_Selection f \<noteq> selKey \<or> f_Symbol f \<in> t_Symbol ` set discovered \<or> f_Shape f \<noteq> None)"
  have keepu: "keep f = keep g" if "unadvised f = unadvised g" for f g
  proof -
    have "f_Shape (unadvised h) = f_Shape h" for h by (simp add: unadvised_def)
    then show ?thesis using that unfolding keep_def by (metis unadvised_simps(1,2))
  qed
  obtain mid where mid: "mid = AnnotateSelectionVerdicts ?rows" and merged: "merged = AnnotateSelectionVerdicts (filter keep mid)"
    using assms(1) by (auto simp: MergeWholeFindingsForSelection_def MergeFindings_def keep_def split: prod.splits)
  have "map_of (map_keyed recordKey prior) (recordKey p) = Some p"
    using assms(2,3) by (auto simp: map_of_map_keyed intro!: map_last_distinct simp: comp_def)
  then have row: "map_of (fst (merge_rows prior fresh snapshot)) (recordKey p) = Some p"
    using merge.fold_elsewhere [OF assms(4)] by (simp add: merge_rows_def)
  then have pin: "p \<in> set ?rows" by (force dest: map_of_SomeD)
  have only: "f = p" if "f \<in> set ?rows" "recordKey f = recordKey p" for f
    using merge.consistent_rows(2) [OF merge_rows_consistent, of prior fresh snapshot] that pin
    by (metis distinct_map inj_onD)
  show ?thesis
  proof (cases "keep p")
    case True
    obtain g where "g \<in> set mid" "unadvised g = unadvised p" using Annotate_mem [OF pin] mid by blast
    moreover have "g \<in> set (filter keep mid)" using calculation keepu [of g p] True by simp
    ultimately obtain h where "h \<in> set merged" "unadvised h = unadvised p"
      using Annotate_mem [of g "filter keep mid"] merged by metis
    then show ?thesis using True unfolding keep_def by auto
  next
    case False
    have "recordKey h \<noteq> recordKey p" if h: "h \<in> set merged" for h
    proof
      assume hk: "recordKey h = recordKey p"
      obtain g where g: "g \<in> set mid" "keep g" "unadvised h = unadvised g"
        using Annotate_mem_conv [of h "filter keep mid"] h merged by auto
      obtain f where f: "f \<in> set ?rows" "unadvised g = unadvised f"
        using Annotate_mem_conv [of g ?rows] g(1) mid by blast
      have "f = p" using only [OF f(1)] f(2) g(3) hk by (metis recordKey_unadvised)
      then show False using keepu [OF f(2)] g(2) False by simp
    qed
    then have "recordKey p \<notin> recordKey ` set merged" by (metis imageE)
    then show ?thesis using False unfolding keep_def by simp
  qed
qed

subsection \<open>Concrete merges\<close>

definition remeasured :: finding where
  "remeasured = example_finding\<lparr>f_Attested := [], f_BodyHash := ''new''\<rparr>"

definition example_merge :: "finding list \<times> attestation_shed list" where
  "example_merge = MergeFindings [example_finding] [remeasured] (Some (\<lambda>_. Some (f_Attested example_finding)))"

lemma remeasured_ok: "dispositions_ok remeasured"
  using example_finding_ok by (simp add: remeasured_def dispositions_ok_def)

theorem merge_keys_witness: "recordKey ` set (fst example_merge) = {''pkg.F''}"
proof -
  have "MergeFindings [example_finding] [remeasured] (Some (\<lambda>_. Some (f_Attested example_finding))) =
      (fst example_merge, snd example_merge)" by (simp add: example_merge_def)
  from merge_keys [OF this] show ?thesis
    by (auto simp: recordKey_def recordKeyOf_def example_finding_def remeasured_def zero_finding_def)
qed

theorem merge_loses_no_disposition_witness:
  "(\<exists>d \<in> set (snd example_merge). sh_key d = (''a.go:3:1'', ''neg'')) \<or>
   (\<exists>g \<in> set (fst example_merge). (''a.go:3:1'', ''neg'') \<in> a_key ` set (f_Attested g))"
proof -
  let ?a = "\<lparr>a_Position = ''a.go:3:1'', a_Operator = ''neg'', a_Reason = ''dead'', a_Site = ''s1''\<rparr>"
  have m: "MergeFindings [example_finding] [remeasured] (Some (\<lambda>_. Some (f_Attested example_finding))) =
      (fst example_merge, snd example_merge)" by (simp add: example_merge_def)
  have "?a \<in> set (f_Attested example_finding)" by (simp add: example_finding_def zero_finding_def)
  from merge_loses_no_disposition [OF m _ _ this] show ?thesis by (auto simp: a_key_def)
qed

theorem merge_preserves_dispositions_witness:
  "list_all dispositions_ok (fst example_merge)"
  unfolding list_all_iff
proof
  fix g assume g: "g \<in> set (fst example_merge)"
  have m: "MergeFindings [example_finding] [remeasured] (Some (\<lambda>_. Some (f_Attested example_finding))) =
      (fst example_merge, snd example_merge)" by (simp add: example_merge_def)
  show "dispositions_ok g"
    by (rule merge_preserves_dispositions [OF _ _ m g]) (simp_all add: example_finding_ok remeasured_ok)
qed

theorem whole_merge_keeps_witness:
  "recordKey example_finding \<notin> recordKey `
    set (fst (MergeWholeFindingsForSelection [example_finding] [] [] None []))"
proof -
  obtain merged sheds where m: "MergeWholeFindingsForSelection [example_finding] [] [] None [] = (merged, sheds)"
    by (metis surj_pair)
  have "f_Selection example_finding = []" "f_Shape example_finding = None"
    by (simp_all add: example_finding_def zero_finding_def)
  then show ?thesis using whole_merge_keeps [OF m, of example_finding] m by simp
qed

subsection \<open>Reports over sheds and runs\<close>

lemma dedupe_sheds_sound:
  "let out = dedupe_sheds seen ds; key = (\<lambda>d. mutantKey (sh_Symbol d) (sh_Position d) (sh_Operator d)) in
     distinct (map key out) \<and> key ` set out = key ` set ds - seen \<and> set out \<subseteq> set ds"
  by (induction seen ds rule: dedupe_sheds.induct) (auto simp: Let_def)

text \<open>Deduplicated sheds report each shed mutant exactly once.\<close>

lemma dedupe_reports_once:
  "let key = (\<lambda>d. mutantKey (sh_Symbol d) (sh_Position d) (sh_Operator d)); out = DedupeAttestationSheds sheds in
     distinct (map key out) \<and> key ` set out = key ` set sheds \<and> set out \<subseteq> set sheds"
  using dedupe_sheds_sound [of "{}" sheds] by (simp add: DedupeAttestationSheds_def Let_def)

definition RenderedFindings :: "finding list \<Rightarrow> (string \<Rightarrow> finding option) \<Rightarrow> finding list" where
  "RenderedFindings findings postMerge =
     map (\<lambda>f. let mark = (\<lambda>m. m\<lparr>f_Cached := f_Cached f, f_Skipped := f_Skipped f, f_Unreached := f_Unreached f\<rparr>) in
       case postMerge (recordKey f) of
         Some m \<Rightarrow> mark m
       | None \<Rightarrow>
           if f_Selection f = [] then
             (case postMerge (f_Symbol f) of Some m \<Rightarrow> mark m | None \<Rightarrow> f)
           else f) findings"

definition droppedSymbols :: "finding list \<Rightarrow> finding list \<Rightarrow> nat" where
  "droppedSymbols current merged =
     length (remdups (filter (\<lambda>k. k \<notin> recordKey ` set merged) (map recordKey current)))"

definition completedFindings :: "finding list \<Rightarrow> string list \<Rightarrow> finding list" where
  "completedFindings findings drifted = filter (\<lambda>f. f_Symbol f \<notin> set drifted) findings"

record package_skip =
  ps_Package :: string
  ps_Skipped :: nat
  ps_Targets :: nat

definition Dark :: "package_skip \<Rightarrow> bool" where
  "Dark p \<longleftrightarrow> ps_Skipped p = ps_Targets p"

definition count_package :: "(string \<Rightarrow> string) \<Rightarrow> finding \<Rightarrow> (string \<times> package_skip) list \<Rightarrow> (string \<times> package_skip) list" where
  "count_package packageOf f byPkg =
     (let pkg = packageOf (f_Symbol f);
          entry = get_or \<lparr>ps_Package = pkg, ps_Skipped = 0, ps_Targets = 0\<rparr> (map_of byPkg pkg) in
      AList.update pkg (entry\<lparr>ps_Targets := ps_Targets entry + 1,
        ps_Skipped := ps_Skipped entry + (if f_Skipped f \<noteq> [] then 1 else 0)\<rparr>) byPkg)"

definition SkippedPackageRadius :: "finding list \<Rightarrow> (string \<Rightarrow> string) \<Rightarrow> package_skip list" where
  "SkippedPackageRadius findings packageOf =
     sort_key ps_Package (filter (\<lambda>e. ps_Skipped e > 0) (map snd (fold (count_package packageOf) findings [])))"

lemma count_package_fold:
  assumes "map_of m k = (if us = [] then None else
      Some \<lparr>ps_Package = k, ps_Skipped = length (filter (\<lambda>f. f_Skipped f \<noteq> []) us), ps_Targets = length us\<rparr>)"
  shows "map_of (fold (count_package packageOf) fs m) k =
    (let vs = us @ filter (\<lambda>f. packageOf (f_Symbol f) = k) fs in if vs = [] then None else
      Some \<lparr>ps_Package = k, ps_Skipped = length (filter (\<lambda>f. f_Skipped f \<noteq> []) vs), ps_Targets = length vs\<rparr>)"
  using assms
proof (induction fs arbitrary: m us)
  case (Cons f fs)
  show ?case
  proof (cases "packageOf (f_Symbol f) = k")
    case True
    have "map_of (count_package packageOf f m) k =
      (if us @ [f] = [] then None else Some \<lparr>ps_Package = k,
        ps_Skipped = length (filter (\<lambda>f. f_Skipped f \<noteq> []) (us @ [f])), ps_Targets = length (us @ [f])\<rparr>)"
      using Cons.prems True by (auto simp: count_package_def Let_def get_or_def split: option.splits)
    from Cons.IH [OF this] show ?thesis using True by simp
  next
    case False
    then have "map_of (count_package packageOf f m) k = map_of m k"
      by (simp add: count_package_def Let_def)
    with Cons.IH [of "count_package packageOf f m" us] Cons.prems False show ?thesis by simp
  qed
qed (simp add: Let_def)

lemma count_package_distinct:
  "distinct (map fst m) \<Longrightarrow> distinct (map fst (fold (count_package packageOf) fs m))"
  by (induction fs arbitrary: m) (simp_all add: count_package_def Let_def distinct_update)

text \<open>The skip radius lists, in package order and once each, exactly the packages with a skipped
  target, with the number of skipped targets and of all targets of the package; a package is dark
  exactly when every one of its targets skipped.\<close>

theorem skip_radius_counts:
  "let of_pkg = (\<lambda>k. filter (\<lambda>f. packageOf (f_Symbol f) = k) findings);
       skips = (\<lambda>k. filter (\<lambda>f. f_Skipped f \<noteq> []) (of_pkg k)) in
   set (SkippedPackageRadius findings packageOf) =
     {\<lparr>ps_Package = k, ps_Skipped = length (skips k), ps_Targets = length (of_pkg k)\<rparr> | k. skips k \<noteq> []} \<and>
   sorted (map ps_Package (SkippedPackageRadius findings packageOf))"
proof -
  define m where "m = fold (count_package packageOf) findings []"
  define of_pkg where "of_pkg = (\<lambda>k. filter (\<lambda>f. packageOf (f_Symbol f) = k) findings)"
  define skips where "skips = (\<lambda>k. filter (\<lambda>f. f_Skipped f \<noteq> []) (of_pkg k))"
  define row where "row = (\<lambda>k. \<lparr>ps_Package = k, ps_Skipped = length (skips k), ps_Targets = length (of_pkg k)\<rparr>)"
  have lookup: "map_of m k = (if of_pkg k = [] then None else Some (row k))" for k
    using count_package_fold [of "[]" k "[]" packageOf findings]
    by (simp add: m_def of_pkg_def skips_def row_def Let_def)
  have dist: "distinct (map fst m)" unfolding m_def by (rule count_package_distinct) simp
  have mem: "(k, e) \<in> set m \<longleftrightarrow> of_pkg k \<noteq> [] \<and> e = row k" for k e
    using lookup [of k] map_of_eq_Some_iff [OF dist, of k e] by (auto split: if_splits)
  have ne: "skips k \<noteq> [] \<Longrightarrow> of_pkg k \<noteq> []" for k by (auto simp: skips_def)
  have "set (SkippedPackageRadius findings packageOf) = {e \<in> snd ` set m. ps_Skipped e > 0}"
    by (auto simp: SkippedPackageRadius_def m_def)
  also have "\<dots> = {row k | k. skips k \<noteq> []}"
  proof (intro equalityI subsetI)
    fix e assume "e \<in> {e \<in> snd ` set m. ps_Skipped e > 0}"
    then obtain k where "(k, e) \<in> set m" "ps_Skipped e > 0" by auto
    then have "e = row k" "skips k \<noteq> []" using mem [of k e] by (auto simp: row_def)
    then show "e \<in> {row k | k. skips k \<noteq> []}" by blast
  next
    fix e assume "e \<in> {row k | k. skips k \<noteq> []}"
    then obtain k where k: "e = row k" "skips k \<noteq> []" by blast
    then have "(k, e) \<in> set m" using mem [of k e] ne by blast
    then have "e \<in> snd ` set m" by (metis imageI snd_conv)
    then show "e \<in> {e \<in> snd ` set m. ps_Skipped e > 0}" using k by (simp add: row_def)
  qed
  finally have "set (SkippedPackageRadius findings packageOf) = {row k | k. skips k \<noteq> []}" .
  moreover have "sorted (map ps_Package (SkippedPackageRadius findings packageOf))"
    by (simp add: SkippedPackageRadius_def)
  ultimately show ?thesis by (simp add: row_def skips_def of_pkg_def Let_def)
qed

subsection \<open>The carry in a run\<close>

text \<open>Carrying a record's attestations onto re-measured survivors sorts each one into exactly one of
  three classes: kept (its survivor still reported, at the same site), shed for a moved site, or
  gone with its mutant; a kept one takes the survivor's site and keeps its reason.\<close>

theorem carry_partitions:
  "let (kept, sheds, gone) = carryAnchoredAttestations prior svs;
       moved = (\<lambda>a. a_Site a \<noteq> [] \<and> a_Site a \<noteq> siteOf svs (a_key a)) in
   gone = filter (\<lambda>a. \<not> surviving svs (a_key a)) prior \<and>
   map sh_key sheds = map a_key (filter (\<lambda>a. surviving svs (a_key a) \<and> moved a) prior) \<and>
   kept = map (\<lambda>a. a\<lparr>a_Site := siteOf svs (a_key a)\<rparr>) (filter (\<lambda>a. surviving svs (a_key a) \<and> \<not> moved a) prior)"
  by (induction prior svs rule: carryAnchoredAttestations.induct) (auto simp: Let_def split: prod.splits)

text \<open>A contradiction is reported for an attestation exactly when its mutant no longer survives and the
  kill ledger names its killer, and it carries that killer and the attestation's reason.\<close>

theorem contradictions_are_kills:
  "c \<in> set (contradictKilledDispositions symbol prior svs kills) \<longleftrightarrow>
    (\<exists>a \<in> set prior. \<not> surviving svs (a_key a) \<and>
      map_last (map (\<lambda>k. (k_key k, k_Killer k)) kills) (a_key a) = Some (con_Killer c) \<and>
      c = \<lparr>con_Symbol = symbol, con_Position = a_Position a, con_Operator = a_Operator a,
           con_Killer = con_Killer c, con_Reason = a_Reason a\<rparr>)"
  unfolding contradictKilledDispositions_def map_filter_set
  by (auto split: if_splits)

end
