(* ===== verification/Exemptions.thy ===== *)
theory Exemptions
  imports Findings Codecs
begin

text \<open>
  Reviewed exemptions (\<open>exemptions.go\<close>, and the retarget of the record in \<open>lifecycle.go\<close>): the
  load of the committed record, the re-keying of clauses to module-relative spellings, the match of
  an entry, and the coverage judgment stamped onto a finding.

  Gofresh's clause functions and Go's quoted literals are not code of this repository: they are the
  fields of \<open>clause_ops\<close>, an argument of the definitions that use them.
\<close>

record clause_ops =
  RefusalClause :: "string \<Rightarrow> string"
  CanonicalMovedBracketClause :: "string \<Rightarrow> string"
  MovedBracketClause :: "string \<Rightarrow> string"
  Unquote :: "string \<Rightarrow> string option"
  Quote :: "string \<Rightarrow> string"

subsection \<open>Re-keying a clause\<close>

definition relative_step :: "string \<Rightarrow> string \<Rightarrow> string option" where
  "relative_step path root =
     (if root = [] then None
      else if path = root then Some ''.''
      else if length path > length root \<and> has_prefix path root \<and> path ! length root = CHR ''/'' then
        Some (drop (length root + 1) path)
      else None)"

fun relativePath :: "string \<Rightarrow> string list \<Rightarrow> string" where
  "relativePath path [] = path"
| "relativePath path (root # roots) =
     (case relative_step path root of Some rel \<Rightarrow> rel | None \<Rightarrow> relativePath path roots)"

text \<open>
  A quoted member is unquoted, relativized and quoted again; the recursion of the code is on the
  unquoted text, and a doubly quoted name unwraps once more, so the fuel counts the nested quotings
  (at most one per byte of the path).
\<close>

fun relativized_fuel :: "nat \<Rightarrow> clause_ops \<Rightarrow> string list \<Rightarrow> string \<Rightarrow> string" where
  "relativized_fuel 0 ops roots path = relativePath path roots"
| "relativized_fuel (Suc n) ops roots path =
     (if has_prefix path [CHR 0x22] then
        (case Unquote ops path of
           Some inner \<Rightarrow>
             (let rel = relativized_fuel n ops roots inner in
              if rel \<noteq> inner then Quote ops rel else path)
         | None \<Rightarrow> relativePath path roots)
      else relativePath path roots)"

definition relativized :: "clause_ops \<Rightarrow> string list \<Rightarrow> string \<Rightarrow> string" where
  "relativized ops roots path = relativized_fuel (length path) ops roots path"

fun str_cut_last :: "string \<Rightarrow> string \<Rightarrow> (string \<times> string) option" where
  "str_cut_last sep [] = (if sep = [] then Some ([], []) else None)"
| "str_cut_last sep (c # s) =
     (case str_cut_last sep s of
        Some (a, b) \<Rightarrow> Some (c # a, b)
      | None \<Rightarrow> if has_prefix (c # s) sep then Some ([], drop (length sep) (c # s)) else None)"

definition coverageEscapeOpen :: string where
  "coverageEscapeOpen = '' (symlink outside every bracket root: ''"

definition moved_prefix :: string where
  "moved_prefix = ''observation bracket moved: ''"

definition unverifiable_wrapper :: string where
  "unverifiable_wrapper = ''observation bracket unverifiable: ''"

definition rekeyClause :: "clause_ops \<Rightarrow> string list \<Rightarrow> string \<Rightarrow> string \<times> bool" where
  "rekeyClause ops roots clause =
     (if has_prefix clause moved_prefix then
        (let root0 = trim_prefix (CanonicalMovedBracketClause ops clause) moved_prefix;
             root = (if has_prefix root0 [CHR 0x22] then get_or [] (Unquote ops root0) else root0);
             out = MovedBracketClause ops (relativePath root roots) in
         (out, out \<noteq> clause))
      else
        (let (head, escaped) = (if has_suffix clause '')'' then
               (case str_cut_last coverageEscapeOpen clause of
                  Some (h, r) \<Rightarrow> (h, Some (butlast r)) | None \<Rightarrow> (clause, None))
             else (clause, None)) in
         case str_cut '': '' (trim_prefix head unverifiable_wrapper) of
           None \<Rightarrow> (clause, False)
         | Some (a, b) \<Rightarrow>
             if str_contains b '': '' then (clause, False)
             else (let out = take (length head - length b) head @ relativized ops roots b @
                     (case escaped of None \<Rightarrow> []
                      | Some e \<Rightarrow> coverageEscapeOpen @ relativized ops roots e @ '')'') in
               (out, out \<noteq> clause))))"

subsection \<open>Loading the record\<close>

record rekeyed_exemption =
  rk_Subject :: string
  rk_From :: string
  rk_To :: string

datatype exemption_error =
    UnsupportedVersion int
  | EntryCarriesAttribution nat string
  | EntryIncomplete nat
  | EntryPair nat nat string string string

definition reasonClause :: "clause_ops \<Rightarrow> string \<Rightarrow> string" where
  "reasonClause ops reason = RefusalClause ops reason"

definition carriesAttribution :: "clause_ops \<Rightarrow> string \<Rightarrow> bool" where
  "carriesAttribution ops reason \<longleftrightarrow> reasonClause ops reason \<noteq> reason"

definition rekeyedNote :: "clause_ops \<Rightarrow> (nat \<Rightarrow> string option) \<Rightarrow> nat \<Rightarrow> nat \<Rightarrow> string" where
  "rekeyedNote ops rekeyedAt prior i =
     (let parts = List.map_filter (\<lambda>n. map_option (\<lambda>from.
            ''entry '' @ nat_dec n @ '' re-keyed from '' @ Quote ops from) (rekeyedAt n)) [prior, i] in
      if parts = [] then [] else '' ('' @ join ''; '' parts @ '')'')"

text \<open>
  The loop over the decoded entries: \<open>i\<close> the index, \<open>rekeyedAt\<close> and \<open>seen\<close> its two maps.
\<close>

fun load_entries :: "clause_ops \<Rightarrow> string list \<Rightarrow> nat \<Rightarrow> (nat \<Rightarrow> string option) \<Rightarrow>
    (string \<times> string \<Rightarrow> nat option) \<Rightarrow> exemption list \<Rightarrow>
    exemption_error + (exemption list \<times> rekeyed_exemption list)" where
  "load_entries ops roots i rekeyedAt seen [] = Inr ([], [])"
| "load_entries ops roots i rekeyedAt seen (e # es) =
     (if carriesAttribution ops (x_Reason e) then
        Inl (EntryCarriesAttribution i (drop (length (reasonClause ops (x_Reason e))) (x_Reason e)))
      else if x_Subject e = [] \<or> x_Reason e = [] \<or> x_Rationale e = [] then Inl (EntryIncomplete i)
      else
        (let (out, moved) = rekeyClause ops roots (x_Reason e);
             reason = (if moved then out else x_Reason e);
             at = (if moved then rekeyedAt(i \<mapsto> x_Reason e) else rekeyedAt) in
         case seen (x_Subject e, reason) of
           Some prior \<Rightarrow> Inl (EntryPair prior i (x_Subject e) reason (rekeyedNote ops at prior i))
         | None \<Rightarrow>
             (case load_entries ops roots (Suc i) at (seen((x_Subject e, reason) \<mapsto> i)) es of
                Inl err \<Rightarrow> Inl err
              | Inr (entries, rekeyed) \<Rightarrow>
                  Inr (e\<lparr>x_Reason := reason\<rparr> # entries,
                    (if moved then [\<lparr>rk_Subject = x_Subject e, rk_From = x_Reason e, rk_To = out\<rparr>] else []) @ rekeyed))))"

definition loadExemptions :: "clause_ops \<Rightarrow> string list \<Rightarrow> int \<Rightarrow> exemption list \<Rightarrow>
    exemption_error + (exemption list \<times> rekeyed_exemption list)" where
  "loadExemptions ops roots version entries =
     (if version \<noteq> 1 then Inl (UnsupportedVersion version)
      else load_entries ops roots 0 Map.empty Map.empty entries)"

definition RekeyedExemptionsLine :: "clause_ops \<Rightarrow> rekeyed_exemption list \<Rightarrow> string" where
  "RekeyedExemptionsLine ops rekeyed =
     (let n = length rekeyed; roster = 20 in
      if n = 0 then []
      else (let shown = (if n > roster then take roster rekeyed else rekeyed);
                more = (if n > roster then '' (+'' @ nat_dec (n - roster) @ '' more)'' else []);
                moves = map (\<lambda>e. rk_Subject e @ '' '' @ Quote ops (rk_From e) @ '' -> '' @ Quote ops (rk_To e)) shown in
        ''re-keyed '' @ nat_dec n @ '' reviewed exemption clause(s) to the canonical spelling: '' @
          join '', '' moves @ more))"

subsection \<open>Coverage of a finding\<close>

definition exemptionFor :: "clause_ops \<Rightarrow> exemption list \<Rightarrow> string \<Rightarrow> string \<Rightarrow> exemption option" where
  "exemptionFor ops exemptions subject reason =
     (let clause = CanonicalMovedBracketClause ops (reasonClause ops reason) in
      find (\<lambda>e. x_Subject e = subject \<and> x_Reason e = clause) exemptions)"

text \<open>\<open>note\<close>: the matched entries in first-match order, once each.\<close>

definition note_entry :: "exemption \<Rightarrow> exemption list \<Rightarrow> exemption list" where
  "note_entry e matched = (if e \<in> set matched then matched else matched @ [e])"

fun cover_oracles :: "clause_ops \<Rightarrow> exemption list \<Rightarrow> finding \<Rightarrow> exemption list \<Rightarrow> subject_evidence list \<Rightarrow>
    exemption list option" where
  "cover_oracles ops xs f matched [] = Some matched"
| "cover_oracles ops xs f matched (ev # evs) =
     (if \<not> e_RuntimeUnverifiable ev then cover_oracles ops xs f matched evs
      else case (case exemptionFor ops xs (e_Symbol ev) (e_RuntimeReason ev) of
             Some e \<Rightarrow> Some e
           | None \<Rightarrow> if f_EvidenceFault f \<noteq> [] \<and> e_RuntimeReason ev = f_EvidenceFault f
               then exemptionFor ops xs (f_Symbol f) (f_EvidenceFault f) else None) of
        None \<Rightarrow> None
      | Some e \<Rightarrow> cover_oracles ops xs f (note_entry e matched) evs)"

definition cover_target :: "clause_ops \<Rightarrow> exemption list \<Rightarrow> finding \<Rightarrow> exemption list \<Rightarrow> exemption list option" where
  "cover_target ops xs f matched =
     (let ev = f_TargetEvidence f in
      if \<not> e_RuntimeUnverifiable ev then Some matched
      else case (case exemptionFor ops xs (e_Symbol ev) (e_RuntimeReason ev) of
             Some e \<Rightarrow> Some e
           | None \<Rightarrow> (case List.map_filter (\<lambda>oracle.
                 if \<not> e_RuntimeUnverifiable oracle \<or> e_RuntimeReason oracle \<noteq> e_RuntimeReason ev then None
                 else exemptionFor ops xs (e_Symbol oracle) (e_RuntimeReason ev)) (f_OracleEvidence f) of
                 [] \<Rightarrow> None | e # _ \<Rightarrow> Some e)) of
        None \<Rightarrow> None
      | Some e \<Rightarrow> Some (note_entry e matched))"

definition cover_fault :: "clause_ops \<Rightarrow> exemption list \<Rightarrow> finding \<Rightarrow> exemption list \<Rightarrow> exemption list option" where
  "cover_fault ops xs f matched =
     (if f_EvidenceFault f = [] then Some matched
      else (let own = exemptionFor ops xs (f_Symbol f) (f_EvidenceFault f);
                others = List.map_filter (\<lambda>oracle. exemptionFor ops xs (e_Symbol oracle) (f_EvidenceFault f))
                  (f_OracleEvidence f);
                matched1 = (case own of Some e \<Rightarrow> note_entry e matched | None \<Rightarrow> matched) in
        if own = None \<and> others = [] then None
        else Some (fold note_entry others matched1)))"

definition coveredExemptions :: "clause_ops \<Rightarrow> exemption list \<Rightarrow> finding \<Rightarrow> exemption list option" where
  "coveredExemptions ops xs f =
     (if xs = [] then None
      else case cover_oracles ops xs f [] (f_OracleEvidence f) of
        None \<Rightarrow> None
      | Some m1 \<Rightarrow> (case cover_target ops xs f m1 of
          None \<Rightarrow> None
        | Some m2 \<Rightarrow> (case cover_fault ops xs f m2 of
            None \<Rightarrow> None
          | Some m3 \<Rightarrow> if m3 = [] then None else Some m3)))"

definition stampExemptions :: "clause_ops \<Rightarrow> exemption list \<Rightarrow> finding \<Rightarrow> finding" where
  "stampExemptions ops xs f =
     f\<lparr>f_Exempted := (case coveredExemptions ops xs f of None \<Rightarrow> [] | Some m \<Rightarrow> m)\<rparr>"

definition unstableForBuckets :: "clause_ops \<Rightarrow> exemption list \<Rightarrow> finding \<Rightarrow> bool" where
  "unstableForBuckets ops xs f \<longleftrightarrow>
     (if \<not> e_RuntimeUnverifiable (f_TargetEvidence f) \<and> f_EvidenceFault f = [] then False
      else coveredExemptions ops xs f = None)"

subsection \<open>What a loaded record is\<close>

definition x_key :: "exemption \<Rightarrow> string \<times> string" where
  "x_key e = (x_Subject e, x_Reason e)"

lemma load_entries_sound:
  "load_entries ops roots i rekeyedAt seen es = Inr (entries, rekeyed) \<Longrightarrow>
    map x_Subject entries = map x_Subject es \<and> map x_Rationale entries = map x_Rationale es \<and>
    distinct (map x_key entries) \<and> x_key ` set entries \<inter> dom seen = {} \<and>
    (\<forall>e \<in> set entries. x_Subject e \<noteq> [] \<and> x_Rationale e \<noteq> []) \<and>
    list_all2 (\<lambda>e e'. x_Reason e' = fst (rekeyClause ops roots (x_Reason e)) \<or> x_Reason e' = x_Reason e) es entries \<and>
    (\<forall>e \<in> set es. \<not> carriesAttribution ops (x_Reason e))"
proof (induction ops roots i rekeyedAt seen es arbitrary: entries rekeyed rule: load_entries.induct)
  case (2 ops roots i rekeyedAt seen e es)
  obtain out moved where rk: "rekeyClause ops roots (x_Reason e) = (out, moved)" by (metis surj_pair)
  define reason where "reason = (if moved then out else x_Reason e)"
  have ok: "\<not> carriesAttribution ops (x_Reason e)" "\<not> (x_Subject e = [] \<or> x_Reason e = [] \<or> x_Rationale e = [])"
    using "2.prems" by (auto split: if_splits)
  define at where "at = (if moved then rekeyedAt(i \<mapsto> x_Reason e) else rekeyedAt)"
  have new: "seen (x_Subject e, reason) = None"
    using "2.prems" ok rk by (auto simp: reason_def Let_def split: if_splits option.splits)
  obtain en rk' where rest: "load_entries ops roots (Suc i) at (seen((x_Subject e, reason) \<mapsto> i)) es = Inr (en, rk')"
    and entries: "entries = e\<lparr>x_Reason := reason\<rparr> # en"
    using "2.prems" ok rk new
    by (auto simp: reason_def at_def Let_def split: if_splits option.splits sum.splits prod.splits)
  show ?case
    using "2.IH" [OF ok refl rk [symmetric] reason_def at_def new rest] ok rk new
    by (auto simp: entries x_key_def reason_def split: if_splits)
qed simp

text \<open>A loaded exemption record holds no two acceptances of one subject and clause after the
  re-key, no entry without subject or rationale, and no clause pasted with its attribution; the
  re-key touches reasons only, in place.\<close>

theorem load_exemptions_sound:
  assumes "loadExemptions ops roots version es = Inr (entries, rekeyed)"
  shows "version = 1 \<and> distinct (map x_key entries) \<and>
    map x_Subject entries = map x_Subject es \<and> map x_Rationale entries = map x_Rationale es \<and>
    (\<forall>e \<in> set entries. x_Subject e \<noteq> [] \<and> x_Rationale e \<noteq> []) \<and>
    (\<forall>e \<in> set es. \<not> carriesAttribution ops (x_Reason e))"
  using assms load_entries_sound [of ops roots 0 Map.empty Map.empty es entries rekeyed]
  by (auto simp: loadExemptions_def split: if_splits)

text \<open>A reading of the parameters for concrete runs: clauses carry no attribution and are canonical.\<close>

definition plain_ops :: clause_ops where
  "plain_ops = \<lparr>RefusalClause = (\<lambda>r. takeWhile (\<lambda>c. c \<noteq> CHR ''|'') r),
     CanonicalMovedBracketClause = (\<lambda>c. c), MovedBracketClause = (\<lambda>p. moved_prefix @ p),
     Unquote = (\<lambda>_. None), Quote = (\<lambda>s. [CHR 0x22] @ s @ [CHR 0x22])\<rparr>"

definition example_exemption :: exemption where
  "example_exemption = \<lparr>x_Subject = ''pkg.TestA'', x_Reason = moved_prefix @ ''/root/m/a'', x_Rationale = ''ok''\<rparr>"

lemma example_load:
  "loadExemptions plain_ops [''/root/m''] 1 [example_exemption] =
    Inr ([example_exemption\<lparr>x_Reason := moved_prefix @ ''a''\<rparr>],
      [\<lparr>rk_Subject = ''pkg.TestA'', rk_From = moved_prefix @ ''/root/m/a'', rk_To = moved_prefix @ ''a''\<rparr>])"
  by code_simp

theorem load_exemptions_sound_witness:
  "distinct (map x_key [example_exemption\<lparr>x_Reason := moved_prefix @ ''a''\<rparr>]) \<and>
   \<not> carriesAttribution plain_ops (x_Reason example_exemption)"
  using load_exemptions_sound [OF example_load] by simp

subsection \<open>What coverage means\<close>

text \<open>An entry accepts a subject's reason when it names the subject and the reason's canonical clause.\<close>

definition accepts :: "clause_ops \<Rightarrow> exemption \<Rightarrow> string \<Rightarrow> string \<Rightarrow> bool" where
  "accepts ops e subject reason \<longleftrightarrow> x_Subject e = subject \<and>
     x_Reason e = CanonicalMovedBracketClause ops (reasonClause ops reason)"

lemma exemptionFor_Some: "exemptionFor ops xs s r = Some e \<Longrightarrow> e \<in> set xs \<and> accepts ops e s r"
  by (auto simp: exemptionFor_def accepts_def Let_def find_Some_iff)

lemma exemptionFor_None: "exemptionFor ops xs s r = None \<longleftrightarrow> (\<forall>e \<in> set xs. \<not> accepts ops e s r)"
  by (auto simp: exemptionFor_def accepts_def Let_def find_None_iff)

definition row_accepted :: "clause_ops \<Rightarrow> exemption list \<Rightarrow> finding \<Rightarrow> subject_evidence \<Rightarrow> bool" where
  "row_accepted ops m f ev \<longleftrightarrow> (\<exists>e \<in> set m. accepts ops e (e_Symbol ev) (e_RuntimeReason ev) \<or>
     f_EvidenceFault f \<noteq> [] \<and> e_RuntimeReason ev = f_EvidenceFault f \<and> accepts ops e (f_Symbol f) (f_EvidenceFault f))"

lemma note_entry_set [simp]: "set (note_entry e m) = insert e (set m)"
  by (auto simp: note_entry_def)

lemma note_entry_distinct: "distinct m \<Longrightarrow> distinct (note_entry e m)"
  by (simp add: note_entry_def)

lemma fold_note_set: "set (fold note_entry es m) = set es \<union> set m"
  by (induction es arbitrary: m) auto

lemma fold_note_distinct: "distinct m \<Longrightarrow> distinct (fold note_entry es m)"
  by (induction es arbitrary: m) (simp_all add: note_entry_distinct)

lemma cover_oracles_sound:
  "cover_oracles ops xs f m evs = Some m' \<Longrightarrow> set m \<subseteq> set m' \<and> set m' \<subseteq> set m \<union> set xs \<and>
     (distinct m \<longrightarrow> distinct m') \<and> (\<forall>ev \<in> set evs. e_RuntimeUnverifiable ev \<longrightarrow> row_accepted ops m' f ev)"
proof (induction ops xs f m evs rule: cover_oracles.induct)
  case (2 ops xs f m ev evs)
  show ?case
  proof (cases "e_RuntimeUnverifiable ev")
    case False
    then show ?thesis using 2 by auto
  next
    case True
    then obtain e where e: "(case exemptionFor ops xs (e_Symbol ev) (e_RuntimeReason ev) of
             Some e \<Rightarrow> Some e
           | None \<Rightarrow> if f_EvidenceFault f \<noteq> [] \<and> e_RuntimeReason ev = f_EvidenceFault f
               then exemptionFor ops xs (f_Symbol f) (f_EvidenceFault f) else None) = Some e"
      and rest: "cover_oracles ops xs f (note_entry e m) evs = Some m'"
      using "2.prems" by (auto split: option.splits if_splits)
    have "e \<in> set xs" and acc: "accepts ops e (e_Symbol ev) (e_RuntimeReason ev) \<or>
       f_EvidenceFault f \<noteq> [] \<and> e_RuntimeReason ev = f_EvidenceFault f \<and> accepts ops e (f_Symbol f) (f_EvidenceFault f)"
      using e by (auto split: option.splits if_splits dest!: exemptionFor_Some)
    have IH: "set (note_entry e m) \<subseteq> set m' \<and> set m' \<subseteq> set (note_entry e m) \<union> set xs \<and>
     (distinct (note_entry e m) \<longrightarrow> distinct m') \<and> (\<forall>ev \<in> set evs. e_RuntimeUnverifiable ev \<longrightarrow> row_accepted ops m' f ev)"
      using "2.IH"(2) [OF _ e rest] True by simp
    then have "row_accepted ops m' f ev" using acc by (auto simp: row_accepted_def)
    then show ?thesis using IH \<open>e \<in> set xs\<close> note_entry_distinct [of m e] by auto
  qed
qed auto

lemma cover_target_sound:
  assumes "cover_target ops xs f m = Some m'"
  shows "set m \<subseteq> set m'" "set m' \<subseteq> set m \<union> set xs" "distinct m \<Longrightarrow> distinct m'"
    "e_RuntimeUnverifiable (f_TargetEvidence f) \<Longrightarrow>
      \<exists>e \<in> set m'. accepts ops e (e_Symbol (f_TargetEvidence f)) (e_RuntimeReason (f_TargetEvidence f)) \<or>
       (\<exists>o' \<in> set (f_OracleEvidence f). e_RuntimeUnverifiable o' \<and>
         e_RuntimeReason o' = e_RuntimeReason (f_TargetEvidence f) \<and> accepts ops e (e_Symbol o') (e_RuntimeReason o'))"
proof -
  let ?ev = "f_TargetEvidence f"
  let ?alts = "List.map_filter (\<lambda>oracle.
      if \<not> e_RuntimeUnverifiable oracle \<or> e_RuntimeReason oracle \<noteq> e_RuntimeReason ?ev then None
      else exemptionFor ops xs (e_Symbol oracle) (e_RuntimeReason ?ev)) (f_OracleEvidence f)"
  have mf: "y \<in> set (List.map_filter g zs) \<Longrightarrow> \<exists>z \<in> set zs. g z = Some y" for y g and zs :: "subject_evidence list"
    by (induction zs) (auto split: option.splits)
  have alts: "\<exists>o' \<in> set (f_OracleEvidence f). e_RuntimeUnverifiable o' \<and> e_RuntimeReason o' = e_RuntimeReason ?ev \<and>
      e \<in> set xs \<and> accepts ops e (e_Symbol o') (e_RuntimeReason o')" if "e \<in> set ?alts" for e
    using mf [OF that] exemptionFor_Some by (auto split: if_splits)
  consider "\<not> e_RuntimeUnverifiable ?ev" "m' = m"
    | e where "e_RuntimeUnverifiable ?ev" "m' = note_entry e m" "e \<in> set xs"
        "accepts ops e (e_Symbol ?ev) (e_RuntimeReason ?ev)"
    | e where "e_RuntimeUnverifiable ?ev" "m' = note_entry e m" "e \<in> set ?alts"
    using assms by (auto simp: cover_target_def Let_def split: if_splits option.splits list.splits dest!: exemptionFor_Some)
  note cs = this
  show "set m \<subseteq> set m'" using cs by cases auto
  show "set m' \<subseteq> set m \<union> set xs" using cs alts by cases auto
  show "distinct m' " if "distinct m" using cs that note_entry_distinct by cases auto
  show "\<exists>e \<in> set m'. accepts ops e (e_Symbol ?ev) (e_RuntimeReason ?ev) \<or>
       (\<exists>o' \<in> set (f_OracleEvidence f). e_RuntimeUnverifiable o' \<and>
         e_RuntimeReason o' = e_RuntimeReason ?ev \<and> accepts ops e (e_Symbol o') (e_RuntimeReason o'))"
    if "e_RuntimeUnverifiable ?ev"
    using cs that
  proof cases
    case (3 e)
    then show ?thesis using alts [OF 3(3)] by auto
  qed auto
qed

lemma cover_fault_sound:
  assumes "cover_fault ops xs f m = Some m'"
  shows "set m \<subseteq> set m'" "set m' \<subseteq> set m \<union> set xs" "distinct m \<Longrightarrow> distinct m'"
proof -
  let ?others = "List.map_filter (\<lambda>oracle. exemptionFor ops xs (e_Symbol oracle) (f_EvidenceFault f)) (f_OracleEvidence f)"
  have mf: "y \<in> set (List.map_filter g zs) \<Longrightarrow> \<exists>z \<in> set zs. g z = Some y" for y g and zs :: "subject_evidence list"
    by (induction zs) (auto split: option.splits)
  have others: "set ?others \<subseteq> set xs"
  proof
    fix e assume "e \<in> set ?others"
    from mf [OF this] show "e \<in> set xs" by (auto dest: exemptionFor_Some)
  qed
  consider "m' = m" | m1 where "m' = fold note_entry ?others m1" "m1 = m \<or> (\<exists>e \<in> set xs. m1 = note_entry e m)"
    using assms by (auto simp: cover_fault_def Let_def split: if_splits option.splits dest!: exemptionFor_Some)
  note cs = this
  show "set m \<subseteq> set m'" using cs by cases (auto simp: fold_note_set)
  show "set m' \<subseteq> set m \<union> set xs" using cs others by cases (auto simp: fold_note_set)
  show "distinct m'" if "distinct m" using cs that by cases (auto intro: fold_note_distinct note_entry_distinct)
qed

text \<open>A finding counts as covered only when the record itself accepts every unverifiable row: each
  stamped entry is an entry of the record, once; every unverifiable oracle row is accepted for its
  own subject (or for the finding under its evidence fault); the target row for its own subject or
  for an oracle row unverifiable for the same reason.\<close>

theorem covered_sound:
  assumes "coveredExemptions ops xs f = Some m"
  shows "m \<noteq> [] \<and> distinct m \<and> set m \<subseteq> set xs \<and>
    (\<forall>ev \<in> set (f_OracleEvidence f). e_RuntimeUnverifiable ev \<longrightarrow> row_accepted ops m f ev) \<and>
    (e_RuntimeUnverifiable (f_TargetEvidence f) \<longrightarrow>
      (\<exists>e \<in> set m. accepts ops e (e_Symbol (f_TargetEvidence f)) (e_RuntimeReason (f_TargetEvidence f)) \<or>
        (\<exists>o' \<in> set (f_OracleEvidence f). e_RuntimeUnverifiable o' \<and>
          e_RuntimeReason o' = e_RuntimeReason (f_TargetEvidence f) \<and>
          accepts ops e (e_Symbol o') (e_RuntimeReason o'))))"
proof -
  obtain m1 m2 where m1: "cover_oracles ops xs f [] (f_OracleEvidence f) = Some m1"
    and m2: "cover_target ops xs f m1 = Some m2" and m3: "cover_fault ops xs f m2 = Some m" and "m \<noteq> []"
    using assms by (auto simp: coveredExemptions_def split: if_splits option.splits)
  note s1 = cover_oracles_sound [OF m1] and s2 = cover_target_sound [OF m2] and s3 = cover_fault_sound [OF m3]
  have grow: "set m1 \<subseteq> set m" "set m2 \<subseteq> set m" using s2(1) s3(1) by auto
  have "row_accepted ops m f ev" if "row_accepted ops m1 f ev" for ev
    using that grow(1) unfolding row_accepted_def by blast
  then have rows: "\<forall>ev \<in> set (f_OracleEvidence f). e_RuntimeUnverifiable ev \<longrightarrow> row_accepted ops m f ev"
    using s1 by blast
  have "distinct m" using s1 s2(3) s3(3) by simp
  moreover have "set m \<subseteq> set xs" using s1 s2(2) s3(2) by auto
  moreover note rows \<open>m \<noteq> []\<close>
  ultimately show ?thesis using s2(4) grow(2) by blast
qed

definition unverifiable_row :: subject_evidence where
  "unverifiable_row = zero_evidence\<lparr>e_Symbol := ''pkg.TestA'', e_RuntimeUnverifiable := True,
     e_RuntimeReason := ''r|at a.go''\<rparr>"

definition covered_example :: "exemption list option" where
  "covered_example = coveredExemptions plain_ops
     [\<lparr>x_Subject = ''pkg.TestA'', x_Reason = ''r'', x_Rationale = ''known''\<rparr>]
     (zero_finding\<lparr>f_OracleEvidence := [unverifiable_row]\<rparr>)"

theorem covered_sound_witness:
  "\<exists>m. covered_example = Some m \<and> m \<noteq> [] \<and>
     row_accepted plain_ops m (zero_finding\<lparr>f_OracleEvidence := [unverifiable_row]\<rparr>) unverifiable_row"
proof -
  have c: "coveredExemptions plain_ops [\<lparr>x_Subject = ''pkg.TestA'', x_Reason = ''r'', x_Rationale = ''known''\<rparr>]
      (zero_finding\<lparr>f_OracleEvidence := [unverifiable_row]\<rparr>) =
    Some [\<lparr>x_Subject = ''pkg.TestA'', x_Reason = ''r'', x_Rationale = ''known''\<rparr>]"
    by (simp add: coveredExemptions_def exemptionFor_def plain_ops_def reasonClause_def zero_finding_def
        unverifiable_row_def zero_evidence_def note_entry_def cover_target_def cover_fault_def Let_def)
  have "e_RuntimeUnverifiable unverifiable_row" by (simp add: unverifiable_row_def)
  then show ?thesis using covered_sound [OF c] c by (simp add: covered_example_def zero_finding_def)
qed

end
