(* ===== verification/Candidates.thy ===== *)
theory Candidates
  imports GoStrings KeyedRows
begin

text \<open>
  Candidate mutants (\<open>internal/engine/mutants.go\<close>, \<open>internal/engine/candidate_edit.go\<close>): their
  canonical order, positions with occurrence suffixes, the budget-selected prefix, the source
  window behind a site anchor, and the application of a candidate's edits to its source.

  The type-checked file set (positions of tokens) and SHA-256 are arguments of the definitions
  that use them; enumeration of the specs from the syntax tree is not modelled.
\<close>

subsection \<open>Data\<close>

text \<open>\<open>MutantOutcome\<close>: the zero value is the outcome that proves nothing.\<close>

datatype outcome = MutantDiscarded | MutantKilled | MutantSurvived

record replacement =
  r_File :: string
  r_Source :: "string option"
  r_Synthetic :: bool

record mutant =
  m_Symbol :: string
  m_Operator :: string
  m_Position :: string
  m_Extent :: string
  m_Replacements :: "replacement list"
  m_SchemaReplacements :: "replacement list"
  m_SchemaMutantID :: string
  m_SchemaKey :: string

record candidate =
  c_Symbol :: string
  c_Operator :: string
  c_Position :: string
  c_Site :: string
  c_Extent :: string
  c_Replacements :: "replacement list"
  c_SchemaReplacements :: "replacement list"
  c_SchemaMutantID :: string
  c_SchemaKey :: string

definition c_key :: "candidate \<Rightarrow> string \<times> string" where
  "c_key c = (c_Position c, c_Operator c)"

definition Mutant :: "candidate \<Rightarrow> mutant option" where
  "Mutant c =
     (if c_Replacements c = [] then None
      else Some \<lparr>m_Symbol = c_Symbol c, m_Operator = c_Operator c, m_Position = c_Position c,
        m_Extent = c_Extent c, m_Replacements = c_Replacements c,
        m_SchemaReplacements = c_SchemaReplacements c, m_SchemaMutantID = c_SchemaMutantID c,
        m_SchemaKey = c_SchemaKey c\<rparr>)"

record generation =
  g_CandidateCount :: nat
  g_Candidates :: "candidate list"

definition Mutants :: "generation \<Rightarrow> mutant list" where
  "Mutants g = List.map_filter Mutant (g_Candidates g)"

record source_edit =
  se_start :: int
  se_end :: int
  se_replacement :: string

text \<open>A spec's syntax positions are file offsets here; \<open>NoPos\<close> is 0.\<close>

record candidate_spec =
  sp_operator :: string
  sp_start :: int
  sp_end :: int
  sp_position :: int
  sp_extentStart :: int
  sp_extentEnd :: int
  sp_family :: int
  sp_variant :: int
  sp_index :: int
  sp_edits :: "source_edit list"

subsection \<open>Order and selection\<close>

definition spec_less :: "candidate_spec \<Rightarrow> candidate_spec \<Rightarrow> bool" where
  "spec_less c d \<longleftrightarrow>
     (if sp_start c \<noteq> sp_start d then sp_start c < sp_start d
      else if sp_end c \<noteq> sp_end d then sp_end c < sp_end d
      else if sp_family c \<noteq> sp_family d then sp_family c < sp_family d
      else if sp_variant c \<noteq> sp_variant d then sp_variant c < sp_variant d
      else sp_index c < sp_index d)"

definition spec_rank :: "candidate_spec \<Rightarrow> int \<times> int \<times> int \<times> int \<times> int" where
  "spec_rank c = (sp_start c, sp_end c, sp_family c, sp_variant c, sp_index c)"

lemma spec_less_rank: "spec_less c d \<longleftrightarrow> spec_rank c < spec_rank d"
  by (auto simp: spec_less_def spec_rank_def)

definition orderCandidateSpecs :: "candidate_spec list \<Rightarrow> candidate_spec list" where
  "orderCandidateSpecs specs = sort_key spec_rank specs"

text \<open>
  Positions: \<open>place\<close> renders a token position as \<open>file:line:column\<close>; a repeated identity of position
  and operator takes its occurrence number as a suffix.
\<close>

fun number_positions :: "(string \<Rightarrow> nat) \<Rightarrow> (string \<times> string) list \<Rightarrow> string list" where
  "number_positions identities [] = []"
| "number_positions identities ((position, operator) # rest) =
     (let identity = position @ ''|'' @ operator;
          n = identities identity + 1 in
      (if n > 1 then position @ ''#'' @ nat_dec n else position) #
        number_positions (identities(identity := n)) rest)"

definition candidatePositions :: "(int \<Rightarrow> string) \<Rightarrow> candidate_spec list \<Rightarrow> string list" where
  "candidatePositions place specs =
     number_positions (\<lambda>_. 0) (map (\<lambda>spec.
       (place (if sp_position spec = 0 then sp_start spec else sp_position spec), sp_operator spec)) specs)"

definition candidateExtents :: "(int \<Rightarrow> string) \<Rightarrow> candidate_spec list \<Rightarrow> string list" where
  "candidateExtents linecol specs = map (\<lambda>spec.
     let start = (if sp_extentStart spec \<noteq> 0 then sp_extentStart spec else sp_start spec);
         stop = (if sp_extentEnd spec \<noteq> 0 then sp_extentEnd spec else sp_end spec) in
     if start = 0 \<or> stop = 0 then [] else linecol start @ ''-'' @ linecol stop) specs"

text \<open>The deterministic prefix a budget selects from the ordered specs; 0 selects all.\<close>

definition select_budget :: "int \<Rightarrow> 'a list \<Rightarrow> 'a list" where
  "select_budget budget xs = (if budget > 0 \<and> budget < int (length xs) then take (nat budget) xs else xs)"

definition CandidatesContext ::
    "(candidate_spec list \<Rightarrow> string list \<Rightarrow> string list \<Rightarrow> 'e + candidate list) \<Rightarrow>
     (int \<Rightarrow> string) \<Rightarrow> (candidate_spec list \<Rightarrow> string list) \<Rightarrow> candidate_spec list \<Rightarrow> int \<Rightarrow> 'e + generation" where
  "CandidatesContext materialize place sites_of enumerated budget =
     (let specs = orderCandidateSpecs enumerated;
          positions = candidatePositions place specs;
          sites = sites_of specs in
      case materialize (select_budget budget specs) (select_budget budget positions) (select_budget budget sites) of
        Inl e \<Rightarrow> Inl e
      | Inr candidates \<Rightarrow> Inr \<lparr>g_CandidateCount = length specs, g_Candidates = candidates\<rparr>)"

subsection \<open>Site windows\<close>

definition newline_char :: char where
  "newline_char = CHR 0x0A"

text \<open>\<open>bytes.LastIndexByte(source[:off], '\n') + 1\<close>: the start of the line holding offset \<open>off\<close>.\<close>

definition line_start :: "string \<Rightarrow> nat \<Rightarrow> nat" where
  "line_start source off =
     (case cut_last newline_char (take off source) of None \<Rightarrow> 0 | Some (a, _) \<Rightarrow> length a + 1)"

definition line_end :: "string \<Rightarrow> nat \<Rightarrow> nat" where
  "line_end source off =
     (if newline_char \<in> set (drop off source)
      then off + length (takeWhile (\<lambda>c. c \<noteq> newline_char) (drop off source)) + 1
      else length source)"

definition clamp :: "string \<Rightarrow> int \<Rightarrow> nat" where
  "clamp source v = (if v < 0 then 0 else if v > int (length source) then length source else nat v)"

definition site_window :: "string \<Rightarrow> int \<Rightarrow> int \<Rightarrow> nat \<times> nat" where
  "site_window source start stop =
     (let ws = line_start source (clamp source start);
          ws = (if ws > 0 then line_start source (ws - 1) else ws);
          we = line_end source (clamp source stop);
          we = (if we < length source then line_end source we else we) in (ws, we))"

definition siteHash :: "(string \<Rightarrow> string) \<Rightarrow> string \<Rightarrow> int \<Rightarrow> int \<Rightarrow> string" where
  "siteHash sha source start stop =
     (let (ws, we) = site_window source start stop in sha (take (we - ws) (drop ws source)))"

definition candidateSites :: "(string \<Rightarrow> string) \<Rightarrow> string \<Rightarrow> candidate_spec list \<Rightarrow> string list" where
  "candidateSites sha source specs = map (\<lambda>spec.
     let start = fold (\<lambda>e m. min (se_start e) m) (sp_edits spec) (int (length source));
         stop = fold (\<lambda>e m. max (se_end e) m) (sp_edits spec) 0;
         (s, t) = (if start > stop then (0, 0) else (start, stop)) in
     siteHash sha source s t) specs"

subsection \<open>Applying edits\<close>

datatype edit_error = NoEdits | EditOutside nat int int | EditOverlaps nat

fun check_edits :: "string \<Rightarrow> nat \<Rightarrow> int \<Rightarrow> source_edit list \<Rightarrow> edit_error option" where
  "check_edits source i previousEnd [] = None"
| "check_edits source i previousEnd (e # es) =
     (if se_start e < 0 \<or> se_end e < se_start e \<or> se_end e > int (length source) then
        Some (EditOutside i (se_start e) (se_end e))
      else if i > 0 \<and> se_start e < previousEnd then Some (EditOverlaps i)
      else check_edits source (Suc i) (se_end e) es)"

definition apply_edit :: "source_edit \<Rightarrow> string \<Rightarrow> string" where
  "apply_edit e mutated =
     take (nat (se_start e)) mutated @ se_replacement e @ drop (nat (se_end e)) mutated"

definition applySourceEdits :: "string \<Rightarrow> source_edit list \<Rightarrow> edit_error + string" where
  "applySourceEdits source edits =
     (if edits = [] then Inl NoEdits
      else let sorted = sort_key (\<lambda>e. (se_start e, se_end e)) edits in
        case check_edits source 0 0 sorted of
          Some err \<Rightarrow> Inl err
        | None \<Rightarrow> Inr (foldr apply_edit sorted source))"

subsection \<open>Identities are unique\<close>

lemma nat_dec_inject: "nat_dec m = nat_dec n \<longleftrightarrow> m = n"
  by (metis dec_val_nat_dec option.inject)

definition numbered :: "string \<Rightarrow> nat \<Rightarrow> string" where
  "numbered position n = (if n > 1 then position @ ''#'' @ nat_dec n else position)"

lemma numbered_inject:
  assumes "CHR ''#'' \<notin> set b" "CHR ''#'' \<notin> set b'" "numbered b n = numbered b' n'" "n > 0" "n' > 0"
  shows "b = b' \<and> n = n'"
proof -
  have tw: "takeWhile (\<lambda>c. c \<noteq> CHR ''#'') (numbered x k) = x" if "CHR ''#'' \<notin> set x" for x k
  proof -
    have "\<And>c. c \<in> set x \<Longrightarrow> c \<noteq> CHR ''#''" using that by blast
    then show ?thesis by (simp add: numbered_def takeWhile_append2)
  qed
  have "b = b'" using tw [OF assms(1)] tw [OF assms(2)] assms(3) by metis
  with assms(3-5) show ?thesis by (auto simp: numbered_def nat_dec_inject split: if_splits)
qed

lemma number_positions_Cons:
  "number_positions ids ((b, op) # rest) = numbered b (ids (b @ ''|'' @ op) + 1) #
     number_positions (ids(b @ ''|'' @ op := ids (b @ ''|'' @ op) + 1)) rest"
  by (simp add: Let_def numbered_def)

declare number_positions.simps(2) [simp del]

lemma number_positions_length [simp]: "length (number_positions ids rows) = length rows"
  by (induction rows arbitrary: ids) (auto simp: number_positions_Cons)

lemma number_positions_mem:
  "(q, op) \<in> set (zip (number_positions ids rows) (map snd rows)) \<Longrightarrow>
    \<exists>b n. (b, op) \<in> set rows \<and> q = numbered b n \<and> n > ids (b @ ''|'' @ op)"
proof (induction rows arbitrary: ids)
  case (Cons row rest)
  obtain b0 op0 where row: "row = (b0, op0)" by (metis surj_pair)
  let ?ids = "ids(b0 @ ''|'' @ op0 := ids (b0 @ ''|'' @ op0) + 1)"
  from Cons.prems consider "q = numbered b0 (ids (b0 @ ''|'' @ op0) + 1)" "op = op0"
    | "(q, op) \<in> set (zip (number_positions ?ids rest) (map snd rest))"
    by (auto simp: row number_positions_Cons)
  then show ?case
  proof cases
    case 1
    then show ?thesis unfolding row by (metis less_add_one list.set_intros(1))
  next
    case 2
    from Cons.IH [OF 2] obtain b n where bn: "(b, op) \<in> set rest" "q = numbered b n"
      and n: "n > ?ids (b @ ''|'' @ op)" by blast
    have "?ids (b @ ''|'' @ op) \<ge> ids (b @ ''|'' @ op)" by simp
    then have "n > ids (b @ ''|'' @ op)" using n by (rule le_less_trans)
    then show ?thesis using bn by (intro exI [of _ b] exI [of _ n]) simp
  qed
qed simp

lemma number_positions_distinct:
  "\<forall>(b, op) \<in> set rows. CHR ''#'' \<notin> set b \<Longrightarrow>
    distinct (zip (number_positions ids rows) (map snd rows))"
proof (induction rows arbitrary: ids)
  case (Cons row rest)
  obtain b op where row: "row = (b, op)" by (metis surj_pair)
  let ?ids = "ids(b @ ''|'' @ op := ids (b @ ''|'' @ op) + 1)"
  have "(numbered b (ids (b @ ''|'' @ op) + 1), op) \<notin> set (zip (number_positions ?ids rest) (map snd rest))"
  proof
    assume "(numbered b (ids (b @ ''|'' @ op) + 1), op) \<in> set (zip (number_positions ?ids rest) (map snd rest))"
    from number_positions_mem [OF this] obtain b' n where b': "(b', op) \<in> set rest"
      and eq: "numbered b (ids (b @ ''|'' @ op) + 1) = numbered b' n" and n: "n > ?ids (b' @ ''|'' @ op)"
      by blast
    have "CHR ''#'' \<notin> set b" "CHR ''#'' \<notin> set b'" using Cons.prems b' row by auto
    from numbered_inject [OF this eq] have "b = b'" "ids (b @ ''|'' @ op) + 1 = n" using n by auto
    then show False using n by simp
  qed
  moreover have "distinct (zip (number_positions ?ids rest) (map snd rest))"
    by (rule Cons.IH) (use Cons.prems in simp)
  ultimately show ?case by (simp add: row number_positions_Cons)
qed simp

text \<open>Candidate identities are unique: whatever specs the enumeration produces, no two of them get
  the same position and operator, as long as rendered positions carry no hash sign of their own.\<close>

theorem candidate_identities_unique:
  assumes "\<forall>pos. CHR ''#'' \<notin> set (place pos)"
  shows "distinct (zip (candidatePositions place specs) (map sp_operator specs))"
proof -
  let ?rows = "map (\<lambda>spec. (place (if sp_position spec = 0 then sp_start spec else sp_position spec), sp_operator spec)) specs"
  have "distinct (zip (number_positions (\<lambda>_. 0) ?rows) (map snd ?rows))"
    by (rule number_positions_distinct) (use assms in auto)
  then show ?thesis by (simp add: candidatePositions_def comp_def)
qed

definition example_spec :: candidate_spec where
  "example_spec = \<lparr>sp_operator = ''neg'', sp_start = 3, sp_end = 5, sp_position = 0, sp_extentStart = 0,
     sp_extentEnd = 0, sp_family = 1, sp_variant = 0, sp_index = 0, sp_edits = []\<rparr>"

theorem candidate_identities_unique_witness:
  "distinct (zip (candidatePositions (\<lambda>p. ''a.go:'' @ itoa p) [example_spec, example_spec])
     (map sp_operator [example_spec, example_spec]))"
proof (rule candidate_identities_unique)
  show "\<forall>pos. CHR ''#'' \<notin> set (''a.go:'' @ itoa pos)"
    by (auto simp: itoa_def nat_dec_free)
qed

subsection \<open>Edits are spliced from the original\<close>

text \<open>The reference: the edits in source order, each replacing its own range of the original text.\<close>

fun splice_edits :: "string \<Rightarrow> int \<Rightarrow> source_edit list \<Rightarrow> string" where
  "splice_edits source pos [] = drop (nat pos) source"
| "splice_edits source pos (e # es) =
     take (nat (se_start e) - nat pos) (drop (nat pos) source) @ se_replacement e @
       splice_edits source (se_end e) es"

fun edits_from :: "string \<Rightarrow> int \<Rightarrow> source_edit list \<Rightarrow> bool" where
  "edits_from source pos [] \<longleftrightarrow> True"
| "edits_from source pos (e # es) \<longleftrightarrow>
     pos \<le> se_start e \<and> se_start e \<le> se_end e \<and> se_end e \<le> int (length source) \<and> edits_from source (se_end e) es"

lemma check_edits_from:
  "check_edits source i p es = None \<Longrightarrow> (if i = 0 then p \<le> 0 else True) \<Longrightarrow> edits_from source p es"
proof (induction source i p es rule: check_edits.induct)
  case (2 source i p e es)
  then show ?case by (auto split: if_splits)
qed simp

lemma foldr_apply_splice:
  assumes "edits_from source p es" "0 \<le> p" "p \<le> int (length source)"
  shows "foldr apply_edit es source = take (nat p) source @ splice_edits source p es"
  using assms
proof (induction es arbitrary: p)
  case (Cons e es)
  have e: "p \<le> se_start e" "se_start e \<le> se_end e" "se_end e \<le> int (length source)" "edits_from source (se_end e) es"
    using Cons.prems by auto
  have "foldr apply_edit es source = take (nat (se_end e)) source @ splice_edits source (se_end e) es"
    using Cons.IH [OF e(4)] e Cons.prems(2) by linarith
  then have "foldr apply_edit (e # es) source =
      take (nat (se_start e)) source @ se_replacement e @ splice_edits source (se_end e) es"
    using e by (simp add: apply_edit_def nat_le_iff min_absorb2 min_def)
  moreover have "take (nat (se_start e)) source =
      take (nat p) source @ take (nat (se_start e) - nat p) (drop (nat p) source)"
    using take_add [of "nat p" "nat (se_start e) - nat p" source] e(1) by (simp add: nat_mono)
  ultimately show ?case by simp
qed simp

text \<open>Applying edits back to front equals splicing them front to back into the original source: a
  candidate's text keeps every byte outside its edits, in order, whatever order the edits came in;
  and edits outside the source, or overlapping ones, are refused, never applied.\<close>

theorem applySourceEdits_spec:
  "let sorted = sort_key (\<lambda>e. (se_start e, se_end e)) edits in
   case applySourceEdits source edits of
     Inr out \<Rightarrow> edits \<noteq> [] \<and> edits_from source 0 sorted \<and> out = splice_edits source 0 sorted
   | Inl err \<Rightarrow> \<not> (edits \<noteq> [] \<and> edits_from source 0 sorted)"
proof -
  let ?s = "sort_key (\<lambda>e. (se_start e, se_end e)) edits"
  have refused: "\<not> edits_from source p es" if "check_edits source i p es = Some err" "0 \<le> p" for i p es err
    using that by (induction source i p es rule: check_edits.induct) (auto split: if_splits)
  show ?thesis
  proof (cases "check_edits source 0 0 ?s")
    case None
    then have "edits_from source 0 ?s" by (rule check_edits_from) simp
    then show ?thesis
      using None foldr_apply_splice [of source 0 ?s] by (auto simp: applySourceEdits_def Let_def)
  next
    case (Some err)
    then show ?thesis using refused [OF Some] by (simp add: applySourceEdits_def Let_def)
  qed
qed

end
