(* ===== verification/Splice.thy ===== *)
theory Splice
  imports Encoding Merge Exemptions Candidates
begin

text \<open>
  Reconciling a served record with fresh measurements (\<open>reconcile.go\<close>, \<open>execute.go\<close>,
  \<open>freshness.go\<close>): re-identification of recorded candidates, the extension of a capped record by a
  wider budget, the splice of re-executed flagged candidates, and the pins both merge.

  \<open>time.ParseDuration\<close> and \<open>Duration.String\<close> are the arguments \<open>parse_duration\<close> and
  \<open>show_duration\<close> (they compute in floating point); cancellation of the context ends both loops
  early with the context's error and is left out.
\<close>

definition outcomeDisposition :: "outcome \<Rightarrow> string" where
  "outcomeDisposition outcome =
     (case outcome of MutantKilled \<Rightarrow> ''killed'' | MutantSurvived \<Rightarrow> ''survived'' | _ \<Rightarrow> ''discarded'')"

definition applyDisposition :: "string \<Rightarrow> int \<Rightarrow> operator_summary \<Rightarrow> operator_summary" where
  "applyDisposition disposition delta x =
     (if disposition = ''killed'' then x\<lparr>o_Killed := o_Killed x + delta\<rparr>
      else if disposition = ''survived'' then x\<lparr>o_Survived := o_Survived x + delta\<rparr>
      else if disposition = ''discarded'' then x\<lparr>o_Discarded := o_Discarded x + delta\<rparr>
      else x)"

definition sumOperatorTotals :: "operator_summary list \<Rightarrow> int \<times> int \<times> int" where
  "sumOperatorTotals ops = (sum_list (map o_Killed ops), sum_list (map o_Discarded ops), sum_list (map o_Survived ops))"

definition countNoun :: "nat \<Rightarrow> string \<Rightarrow> string" where
  "countNoun n singular = (if n = 1 then ''1 '' @ singular else nat_dec n @ '' '' @ singular @ ''s'')"

definition cappedJoin :: "string list \<Rightarrow> nat \<Rightarrow> string" where
  "cappedJoin items limit =
     (if items = [] then ''no differing input identified''
      else if length items \<le> limit then join ''; '' items
      else join ''; '' (take limit items) @ ''; and '' @ nat_dec (length items - limit) @ '' more'')"

subsection \<open>Re-identification\<close>

definition candidateIdentityIndex :: "candidate list \<Rightarrow> (survivor_key \<Rightarrow> nat option) option" where
  "candidateIdentityIndex candidates =
     (if distinct (map c_key candidates)
      then Some (map_last (zip (map c_key candidates) [0..<length candidates])) else None)"

definition reidentify :: "generation \<Rightarrow> finding \<Rightarrow> (survivor_key \<Rightarrow> nat option) option" where
  "reidentify g rec =
     (if int (g_CandidateCount g) \<noteq> f_CandidateCount rec \<or> int (length (g_Candidates g)) \<noteq> f_Generated rec then None
      else candidateIdentityIndex (g_Candidates g))"

definition flaggedCandidateIndexes :: "generation \<Rightarrow> finding \<Rightarrow> nat set option" where
  "flaggedCandidateIndexes g rec =
     (case reidentify g rec of
        None \<Rightarrow> None
      | Some byIdentity \<Rightarrow>
          if \<exists>s \<in> set (f_Survivors rec). byIdentity (s_key s) = None then None
          else if \<exists>e \<in> set (f_CandidateEvidence rec). (case byIdentity (ce_key e) of
              None \<Rightarrow> True | Some i \<Rightarrow> Mutant (g_Candidates g ! i) = None) then None
          else Some (set (List.map_filter (\<lambda>e. byIdentity (ce_key e)) (f_CandidateEvidence rec))))"

definition prefix_count :: "candidate list \<Rightarrow> string \<Rightarrow> int" where
  "prefix_count cs operator = int (length (filter (\<lambda>c. c_Operator c = operator) cs))"

definition extendedPrefixStands :: "generation \<Rightarrow> finding \<Rightarrow> bool" where
  "extendedPrefixStands g rec \<longleftrightarrow>
     (if int (g_CandidateCount g) \<noteq> f_CandidateCount rec \<or> int (length (g_Candidates g)) \<le> f_Generated rec then False
      else case candidateIdentityIndex (g_Candidates g) of
        None \<Rightarrow> False
      | Some byIdentity \<Rightarrow>
          (let prefix = take (nat (f_Generated rec)) (g_Candidates g) in
            length (remdups (map c_Operator prefix)) = length (f_Operators rec) \<and>
            (\<forall>x \<in> set (f_Operators rec). prefix_count prefix (o_Operator x) = o_Generated x) \<and>
            (\<forall>s \<in> set (f_Survivors rec). case byIdentity (s_key s) of
               None \<Rightarrow> False | Some i \<Rightarrow> int i < f_Generated rec)))"

subsection \<open>Measurement pins\<close>

definition effectiveCeiling :: "int \<Rightarrow> int" where
  "effectiveCeiling bytes = (if bytes \<le> 0 then max_int else bytes)"

definition memoryPinStale :: "finding \<Rightarrow> int \<Rightarrow> bool" where
  "memoryPinStale prior currentPin \<longleftrightarrow>
     (if f_OracleCeilingDecided prior then f_OracleMemoryBytes prior \<noteq> currentPin
      else effectiveCeiling currentPin < effectiveCeiling (f_OracleMemoryBytes prior))"

definition timeoutKillsReexecutable :: "finding \<Rightarrow> bool" where
  "timeoutKillsReexecutable f \<longleftrightarrow>
     (\<forall>k \<in> set (f_Kills f). k_Killer k = TimeoutKiller \<longrightarrow> k_key k \<in> ce_key ` set (f_CandidateEvidence f))"

definition timeoutPinMatches :: "finding \<Rightarrow> string \<Rightarrow> bool \<Rightarrow> bool" where
  "timeoutPinMatches prior timeout derived \<longleftrightarrow>
     (if f_OracleTimeout prior = timeout \<and> f_OracleTimeoutDerived prior = derived then True
      else f_OracleTimeoutDerived prior \<and> derived \<and> timeoutKillsReexecutable prior)"

definition timeoutPinMatchesRecord :: "finding \<Rightarrow> finding \<Rightarrow> bool" where
  "timeoutPinMatchesRecord prior current =
     timeoutPinMatches prior (f_OracleTimeout current) (f_OracleTimeoutDerived current)"

record window_scores =
  ws_outcomes :: "outcome list"
  ws_killers :: "string list"
  ws_flips :: "nat \<Rightarrow> string option"
  ws_memoryDecided :: "bool list"

definition anyMemoryDecided :: "window_scores \<Rightarrow> bool" where
  "anyMemoryDecided s \<longleftrightarrow> True \<in> set (ws_memoryDecided s)"

record durations =
  parse_duration :: "string \<Rightarrow> int option"
  show_duration :: "int \<Rightarrow> string"

definition mergeScoredFacts :: "durations \<Rightarrow> finding \<Rightarrow> window_scores \<Rightarrow> int \<Rightarrow> int \<Rightarrow> bool \<Rightarrow> finding" where
  "mergeScoredFacts d rec0 scores currentPin currentBudget budgetDerived =
     (let rec1 = rec0\<lparr>f_OracleCeilingDecided := f_OracleCeilingDecided rec0 \<or> anyMemoryDecided scores\<rparr>;
          rec2 = (if effectiveCeiling currentPin > effectiveCeiling (f_OracleMemoryBytes rec1)
                  then rec1\<lparr>f_OracleMemoryBytes := currentPin\<rparr> else rec1) in
      if budgetDerived \<or> f_OracleTimeoutDerived rec2 then
        (let rec3 = (case parse_duration d (f_OracleTimeout rec2) of
               Some prior \<Rightarrow> if currentBudget > prior then rec2\<lparr>f_OracleTimeout := show_duration d currentBudget\<rparr> else rec2
             | None \<Rightarrow> rec2) in
         rec3\<lparr>f_OracleTimeoutDerived := f_OracleTimeoutDerived rec3 \<or> budgetDerived\<rparr>)
      else rec2)"

subsection \<open>Survivor rows\<close>

definition carrySurvivor :: "candidate \<Rightarrow> survivor \<Rightarrow> survivor" where
  "carrySurvivor c prior = \<lparr>s_Position = c_Position c, s_Operator = c_Operator c, s_Extent = c_Extent c,
     s_Site = c_Site c, s_Execution = s_Execution prior, s_WithdrawnKiller = s_WithdrawnKiller prior,
     s_OtherSelection = s_OtherSelection prior\<rparr>"

definition newSurvivor :: "candidate \<Rightarrow> string \<Rightarrow> (nat \<Rightarrow> string option) \<Rightarrow> nat \<Rightarrow> survivor" where
  "newSurvivor c execution flips mi =
     (let row = \<lparr>s_Position = c_Position c, s_Operator = c_Operator c, s_Extent = c_Extent c,
        s_Site = c_Site c, s_Execution = execution, s_WithdrawnKiller = [], s_OtherSelection = []\<rparr> in
      case flips mi of
        Some withdrawn \<Rightarrow> row\<lparr>s_Execution := ''flipped-kill'', s_WithdrawnKiller := withdrawn\<rparr>
      | None \<Rightarrow> row)"

lemma survivor_row_keys [simp]:
  "s_key (carrySurvivor c p) = c_key c" "s_key (newSurvivor c x flips mi) = c_key c"
  "s_Operator (carrySurvivor c p) = c_Operator c" "s_Operator (newSurvivor c x flips mi) = c_Operator c"
  by (simp_all add: carrySurvivor_def newSurvivor_def s_key_def c_key_def Let_def split: option.split)

subsection \<open>Operator rows\<close>

definition zero_summary :: "string \<Rightarrow> operator_summary" where
  "zero_summary operator = \<lparr>o_Operator = operator, o_Generated = 0, o_Discarded = 0, o_Killed = 0, o_Survived = 0\<rparr>"

text \<open>\<open>byOperator\<close>: the index of an operator's row.\<close>

definition operator_index :: "operator_summary list \<Rightarrow> string \<Rightarrow> nat option" where
  "operator_index ops operator = map_last (zip (map o_Operator ops) [0..<length ops]) operator"

definition score_operator :: "string \<Rightarrow> string \<Rightarrow> operator_summary list \<Rightarrow> operator_summary list" where
  "score_operator operator disposition ops =
     (let (ops', i) = (case operator_index ops operator of
          Some i \<Rightarrow> (ops, i) | None \<Rightarrow> (ops @ [zero_summary operator], length ops));
          x = ops' ! i in
      ops'[i := applyDisposition disposition 1 (x\<lparr>o_Generated := o_Generated x + 1\<rparr>)])"

subsection \<open>Extending a capped record\<close>

type_synonym counts_state = "operator_summary list \<times> survivor list \<times> kill list"

definition extend_step :: "string \<Rightarrow> bool \<Rightarrow> window_scores \<Rightarrow> nat \<times> candidate \<Rightarrow> counts_state \<Rightarrow> counts_state" where
  "extend_step suffixExecution killsComplete scores mc st =
     (let (mi, c) = mc; (ops, svs, kills) = st;
          disposition = outcomeDisposition (ws_outcomes scores ! mi);
          ops = score_operator (c_Operator c) disposition ops in
      if disposition = ''survived'' then
        (ops, svs @ [newSurvivor c suffixExecution (ws_flips scores) mi], kills)
      else if disposition = ''killed'' \<and> killsComplete then
        (ops, svs, kills @ [\<lparr>k_Position = c_Position c, k_Operator = c_Operator c, k_Killer = ws_killers scores ! mi\<rparr>])
      else (ops, svs, kills))"

definition extend_loop :: "string \<Rightarrow> bool \<Rightarrow> window_scores \<Rightarrow> candidate list \<Rightarrow> nat \<Rightarrow> counts_state \<Rightarrow> counts_state" where
  "extend_loop suffixExecution killsComplete scores candidates from st =
     fold (extend_step suffixExecution killsComplete scores)
       (map (\<lambda>mi. (mi, candidates ! mi)) [from..<length candidates]) st"

definition adopt_site :: "survivor list \<Rightarrow> attestation \<Rightarrow> attestation" where
  "adopt_site svs a = (if a_Site a = [] then a\<lparr>a_Site := siteOf svs (a_key a)\<rparr> else a)"

definition extendFindingCounts ::
    "durations \<Rightarrow> clause_ops \<Rightarrow> finding \<Rightarrow> candidate list \<Rightarrow> nat \<Rightarrow> window_scores \<Rightarrow> candidate_evidence list \<Rightarrow>
     int \<Rightarrow> exemption list \<Rightarrow> int \<Rightarrow> int \<Rightarrow> bool \<Rightarrow> finding" where
  "extendFindingCounts d ops_ext rec0 candidates from scores freshEvidence budget exemptions memoryPin oracleBudget budgetDerived =
     (let rec1 = mergeScoredFacts d rec0 scores memoryPin oracleBudget budgetDerived;
          killsComplete = (int (length (f_Kills rec1)) = f_Killed rec1);
          suffixExecution = (if unstableForBuckets ops_ext exemptions rec1 then ''unstable-oracle'' else []);
          (operators, survivors, kills) = extend_loop suffixExecution killsComplete scores candidates from
            (f_Operators rec1, f_Survivors rec1, f_Kills rec1);
          operators = sort_key o_Operator operators;
          (killed, discarded, survived) = sumOperatorTotals operators;
          attested = map (adopt_site survivors) (f_Attested rec1) in
      rec1\<lparr>f_Operators := operators, f_Killed := killed, f_Discarded := discarded,
        f_Mutants := killed + survived, f_Kills := (if killsComplete then kills else []),
        f_Survivors := survivors, f_CandidateEvidence := freshEvidence, f_Budget := budget,
        f_Generated := int (length candidates), f_Attested := attested,
        f_Withdrawn := carryAnchoredWithdrawn (f_Withdrawn rec1) attested survivors\<rparr>)"

subsection \<open>Splicing re-executed candidates\<close>

datatype splice_error = NoOperatorSummary string string | CountsNotReconciled string

record splice_state =
  sp_ops :: "operator_summary list"
  sp_svs :: "survivor list"
  sp_kills :: "kill list"
  sp_evidence :: "candidate_evidence list"

record splice_context =
  sc_flagged :: "nat set"
  sc_scores :: window_scores
  sc_priorSurvivors :: "survivor_key \<Rightarrow> survivor option"
  sc_priorEvidence :: "survivor_key \<Rightarrow> candidate_evidence option"
  sc_freshByKey :: "survivor_key \<Rightarrow> candidate_evidence option"
  sc_recordedKills :: "survivor_key \<Rightarrow> string option"
  sc_killsComplete :: bool
  sc_unstable :: bool

definition splice_covered :: "splice_context \<Rightarrow> candidate \<Rightarrow> splice_state \<Rightarrow> splice_state" where
  "splice_covered ctx c st =
     st\<lparr>sp_svs := (case sc_priorSurvivors ctx (c_key c) of
          Some prior \<Rightarrow> sp_svs st @ [carrySurvivor c prior] | None \<Rightarrow> sp_svs st),
        sp_kills := (case sc_recordedKills ctx (c_key c) of
          Some killer \<Rightarrow> sp_kills st @ [\<lparr>k_Position = c_Position c, k_Operator = c_Operator c, k_Killer = killer\<rparr>]
        | None \<Rightarrow> sp_kills st)\<rparr>"

definition splice_flagged :: "splice_context \<Rightarrow> nat \<Rightarrow> candidate \<Rightarrow> nat \<Rightarrow> splice_state \<Rightarrow> splice_state" where
  "splice_flagged ctx mi c i st =
     (let x = sp_ops st ! i;
          priorDisposition = (case sc_priorEvidence ctx (c_key c) of None \<Rightarrow> [] | Some e \<Rightarrow> ce_Disposition e);
          disposition = outcomeDisposition (ws_outcomes (sc_scores ctx) ! mi);
          x' = applyDisposition disposition 1 (applyDisposition priorDisposition (- 1) x);
          execution = (if sc_unstable ctx then ''unstable-oracle''
            else case sc_priorSurvivors ctx (c_key c) of None \<Rightarrow> [] | Some s \<Rightarrow> s_Execution s) in
      st\<lparr>sp_ops := (sp_ops st)[i := x'],
        sp_svs := (if disposition = ''survived''
          then sp_svs st @ [newSurvivor c execution (ws_flips (sc_scores ctx)) mi] else sp_svs st),
        sp_kills := (if disposition = ''killed'' \<and> sc_killsComplete ctx
          then sp_kills st @ [\<lparr>k_Position = c_Position c, k_Operator = c_Operator c,
            k_Killer = ws_killers (sc_scores ctx) ! mi\<rparr>] else sp_kills st),
        sp_evidence := (case sc_freshByKey ctx (c_key c) of
          Some e \<Rightarrow> sp_evidence st @ [e] | None \<Rightarrow> sp_evidence st)\<rparr>)"

fun splice_loop :: "splice_context \<Rightarrow> nat \<Rightarrow> candidate list \<Rightarrow> splice_state \<Rightarrow> splice_error + splice_state" where
  "splice_loop ctx mi [] st = Inr st"
| "splice_loop ctx mi (c # cs) st =
     (if mi \<notin> sc_flagged ctx then splice_loop ctx (Suc mi) cs (splice_covered ctx c st)
      else case operator_index (sp_ops st) (c_Operator c) of
        None \<Rightarrow> Inl (NoOperatorSummary (c_Position c) (c_Operator c))
      | Some i \<Rightarrow> splice_loop ctx (Suc mi) cs (splice_flagged ctx mi c i st))"

definition spliceFindingCounts ::
    "durations \<Rightarrow> clause_ops \<Rightarrow> finding \<Rightarrow> candidate list \<Rightarrow> nat set \<Rightarrow> window_scores \<Rightarrow> candidate_evidence list \<Rightarrow>
     exemption list \<Rightarrow> int \<Rightarrow> int \<Rightarrow> bool \<Rightarrow> splice_error + finding" where
  "spliceFindingCounts d ops_ext rec0 candidates flaggedSet scores freshEvidence exemptions memoryPin oracleBudget budgetDerived =
     (let rec1 = mergeScoredFacts d rec0 scores memoryPin oracleBudget budgetDerived;
          killsComplete = (int (length (f_Kills rec1)) = f_Killed rec1);
          ctx = \<lparr>sc_flagged = flaggedSet, sc_scores = scores,
            sc_priorSurvivors = map_last (map (\<lambda>s. (s_key s, s)) (f_Survivors rec1)),
            sc_priorEvidence = map_last (map (\<lambda>e. (ce_key e, e)) (f_CandidateEvidence rec1)),
            sc_freshByKey = map_last (map (\<lambda>e. (ce_key e, e)) freshEvidence),
            sc_recordedKills = map_last (map (\<lambda>k. (k_key k, k_Killer k)) (f_Kills rec1)),
            sc_killsComplete = killsComplete, sc_unstable = unstableForBuckets ops_ext exemptions rec1\<rparr> in
      case splice_loop ctx 0 candidates \<lparr>sp_ops = f_Operators rec1, sp_svs = [], sp_kills = [], sp_evidence = []\<rparr> of
        Inl e \<Rightarrow> Inl e
      | Inr st \<Rightarrow>
          (case find (\<lambda>x. o_Killed x < 0 \<or> o_Discarded x < 0 \<or> o_Survived x < 0) (sp_ops st) of
             Some x \<Rightarrow> Inl (CountsNotReconciled (o_Operator x))
           | None \<Rightarrow>
               (let (killed, discarded, survived) = sumOperatorTotals (sp_ops st);
                    kept = map (adopt_site (sp_svs st))
                      (filter (\<lambda>a. a_key a \<in> s_key ` set (sp_svs st)) (f_Attested rec1)) in
                Inr (rec1\<lparr>f_Operators := sp_ops st, f_Killed := killed, f_Discarded := discarded,
                  f_Mutants := killed + survived, f_Kills := (if killsComplete then sp_kills st else []),
                  f_Survivors := sp_svs st, f_CandidateEvidence := sp_evidence st, f_Attested := kept,
                  f_Withdrawn := carryAnchoredWithdrawn (f_Withdrawn rec1) kept (sp_svs st)\<rparr>))))"

subsection \<open>Summaries of a whole measurement\<close>

definition summary_step :: "candidate \<times> outcome \<Rightarrow> operator_summary list \<Rightarrow> operator_summary list" where
  "summary_step co ops = score_operator (c_Operator (fst co)) (outcomeDisposition (snd co)) ops"

definition summarizeOperators :: "candidate list \<Rightarrow> outcome list \<Rightarrow> operator_summary list" where
  "summarizeOperators candidates outcomes =
     sort_key o_Operator (fold summary_step (map (\<lambda>i. (candidates ! i, outcomes ! i)) [0..<length candidates]) [])"

record runtime_state =
  rs_Manifest :: string
  rs_Digest :: string
  rs_Unverifiable :: bool
  rs_Reason :: string

definition splicedUnionDiverged :: "runtime_state \<Rightarrow> subject_evidence \<Rightarrow> bool" where
  "splicedUnionDiverged state prior \<longleftrightarrow> rs_Unverifiable state \<or>
     rs_Manifest state \<noteq> fp_RuntimeInputs (e_Fingerprint prior) \<or> rs_Digest state \<noteq> fp_RuntimeDigest (e_Fingerprint prior)"

definition withRuntimeState :: "subject_evidence \<Rightarrow> runtime_state \<Rightarrow> string \<Rightarrow> subject_evidence" where
  "withRuntimeState e state attribution =
     e\<lparr>e_Fingerprint := (e_Fingerprint e)\<lparr>fp_RuntimeInputs := rs_Manifest state, fp_RuntimeDigest := rs_Digest state\<rparr>,
       e_RuntimeUnverifiable := rs_Unverifiable state, e_RuntimeReason := rs_Reason state,
       e_RuntimeAttribution := attribution\<rparr>"

text \<open>\<open>manifestPathDelta\<close> over the two decoded path lists (\<open>None\<close>: undecodable).\<close>

definition manifestPathDelta :: "string list option \<Rightarrow> string list option \<Rightarrow> string list" where
  "manifestPathDelta prior fresh =
     (case (prior, fresh) of
        (Some ps, Some fs) \<Rightarrow> sort (filter (\<lambda>p. p \<notin> set fs) ps @ filter (\<lambda>p. p \<notin> set ps) fs)
      | _ \<Rightarrow> [])"

subsection \<open>Conservation of candidate counts\<close>

lemma zip_index_None: "map_last (zip ks [0..<length ks]) k = None \<longleftrightarrow> k \<notin> set ks"
proof -
  have "fst ` set (zip ks [0..<length ks]) = set (map fst (zip ks [0..<length ks]))"
    by (rule set_map [symmetric])
  also have "map fst (zip ks [0..<length ks]) = ks" by simp
  finally have "fst ` set (zip ks [0..<length ks]) = set ks" .
  then show ?thesis by (simp only: map_last_None)
qed

lemma zip_index_Some: "map_last (zip ks [0..<length ks]) k = Some i \<Longrightarrow> i < length ks \<and> ks ! i = k"
  by (auto dest!: map_last_Some_in simp: set_zip)

lemma operator_index_None: "operator_index ops op = None \<longleftrightarrow> op \<notin> o_Operator ` set ops"
  using zip_index_None [of "map o_Operator ops" op] by (simp add: operator_index_def)

lemma operator_index_Some: "operator_index ops op = Some i \<Longrightarrow> i < length ops \<and> o_Operator (ops ! i) = op"
  using zip_index_Some [of "map o_Operator ops" op i] by (auto simp: operator_index_def)

text \<open>Where an operator's row sits.\<close>

lemma operator_index_split:
  assumes "operator_index ops op = Some i" "distinct (map o_Operator ops)"
  obtains pre y post where "ops = pre @ y # post" "i = length pre" "o_Operator y = op"
    "op \<notin> o_Operator ` set (pre @ post)"
proof
  have i: "i < length ops" "o_Operator (ops ! i) = op" using operator_index_Some [OF assms(1)] by auto
  show "ops = take i ops @ ops ! i # drop (Suc i) ops" using i(1) by (simp add: id_take_nth_drop)
  then have "distinct (map o_Operator (take i ops @ ops ! i # drop (Suc i) ops))" using assms(2) by simp
  then show "op \<notin> o_Operator ` set (take i ops @ drop (Suc i) ops)" using i(2) by auto
  show "i = length (take i ops)" using i(1) by simp
qed (use operator_index_Some [OF assms(1)] in simp)

definition scored_row :: "string \<Rightarrow> operator_summary \<Rightarrow> operator_summary" where
  "scored_row disposition y = applyDisposition disposition 1 (y\<lparr>o_Generated := o_Generated y + 1\<rparr>)"

lemma score_operator_cases:
  assumes "distinct (map o_Operator ops)"
  obtains pre y post where "score_operator op disp ops = pre @ scored_row disp y # post"
    "o_Operator y = op" "op \<notin> o_Operator ` set (pre @ post)"
    "ops = pre @ y # post \<or> ops = pre @ post \<and> y = zero_summary op"
proof (cases "operator_index ops op")
  case None
  then have "score_operator op disp ops = ops @ scored_row disp (zero_summary op) # []"
    by (simp add: score_operator_def scored_row_def Let_def)
  from that [OF this] show ?thesis using None by (simp add: operator_index_None zero_summary_def)
next
  case (Some i)
  obtain pre y post where *: "ops = pre @ y # post" "i = length pre" "o_Operator y = op"
    "op \<notin> o_Operator ` set (pre @ post)"
    by (rule operator_index_split [OF Some assms])
  then have "score_operator op disp ops = pre @ scored_row disp y # post"
    using Some by (simp add: score_operator_def scored_row_def Let_def)
  then show ?thesis using * by (intro that [of pre y post]) auto
qed

lemma scored_row_simps [simp]:
  "o_Operator (scored_row disp y) = o_Operator y"
  "o_Generated (scored_row disp y) = o_Generated y + 1"
  "o_Survived (scored_row disp y) = o_Survived y + (if disp = ''survived'' then 1 else 0)"
  "o_Killed (scored_row disp y) = o_Killed y + (if disp = ''killed'' then 1 else 0)"
  "o_Discarded (scored_row disp y) = o_Discarded y + (if disp = ''discarded'' then 1 else 0)"
  by (simp_all add: scored_row_def applyDisposition_def)

lemma zero_summary_simps [simp]:
  "o_Operator (zero_summary op) = op" "o_Generated (zero_summary op) = 0" "o_Discarded (zero_summary op) = 0"
  "o_Killed (zero_summary op) = 0" "o_Survived (zero_summary op) = 0"
  by (simp_all add: zero_summary_def)

lemma survivors_of_simps [simp]:
  "survivors_of [] op = 0"
  "survivors_of (svs @ [s]) op = survivors_of svs op + (if s_Operator s = op then 1 else 0)"
  "0 \<le> survivors_of svs op"
  by (simp_all add: survivors_of_def)

lemma survivors_of_absent: "op \<notin> s_Operator ` set svs \<Longrightarrow> survivors_of svs op = 0"
  by (simp add: survivors_of_def filter_empty_conv image_iff) metis

lemma disposition_cases: "outcomeDisposition out \<in> {''killed'', ''survived'', ''discarded''}"
  by (simp add: outcomeDisposition_def split: outcome.split)

text \<open>The running tally of both loops.\<close>

definition tally :: "operator_summary list \<Rightarrow> survivor list \<Rightarrow> bool" where
  "tally ops svs \<longleftrightarrow> distinct (map o_Operator ops) \<and> (\<forall>x \<in> set ops. operator_row_ok svs x) \<and>
     s_Operator ` set svs \<subseteq> o_Operator ` set ops"

definition totals :: "operator_summary list \<Rightarrow> int \<times> int \<times> int \<times> int" where
  "totals ops = (sum_list (map o_Generated ops), sum_list (map o_Discarded ops),
     sum_list (map o_Killed ops), sum_list (map o_Survived ops))"

lemma insert_chain: "A' \<subseteq> insert x A \<Longrightarrow> A \<subseteq> B \<Longrightarrow> B \<subseteq> insert x C \<Longrightarrow> A' \<subseteq> insert x C"
  by blast

lemma tally_step:
  assumes "tally ops svs" "op \<noteq> []" "disp \<in> {''killed'', ''survived'', ''discarded''}"
    and "svs' = (if disp = ''survived'' then svs @ [s] else svs)" "disp = ''survived'' \<Longrightarrow> s_Operator s = op"
  shows "tally (score_operator op disp ops) svs'"
    and "totals (score_operator op disp ops) = (case totals ops of (g, dd, k, v) \<Rightarrow>
      (g + 1, dd + (if disp = ''discarded'' then 1 else 0), k + (if disp = ''killed'' then 1 else 0),
       v + (if disp = ''survived'' then 1 else 0)))"
proof -
  obtain pre y post where sc: "score_operator op disp ops = pre @ scored_row disp y # post"
    and y: "o_Operator y = op" "op \<notin> o_Operator ` set (pre @ post)"
    and ops: "ops = pre @ y # post \<or> ops = pre @ post \<and> y = zero_summary op"
    by (rule score_operator_cases [of ops op disp]) (use assms(1) in \<open>auto simp: tally_def\<close>)
  have t: "distinct (map o_Operator ops)" "\<forall>x \<in> set ops. operator_row_ok svs x"
    "s_Operator ` set svs \<subseteq> o_Operator ` set ops"
    using assms(1) by (simp_all add: tally_def)
  have others: "operator_row_ok svs' x" if "x \<in> set (pre @ post)" for x
  proof -
    have "operator_row_ok svs x" using that ops t(2) by auto
    moreover have "o_Operator x \<noteq> op" using that y(2) by auto
    ultimately show ?thesis using assms(4,5) by (auto simp: operator_row_ok_def)
  qed
  have yy: "o_Generated y \<ge> 0 \<and> o_Discarded y \<ge> 0 \<and> o_Killed y \<ge> 0 \<and> o_Survived y = survivors_of svs op \<and>
      o_Generated y = o_Discarded y + o_Killed y + o_Survived y"
    using ops
  proof
    assume "ops = pre @ y # post"
    then show ?thesis using t(2) y(1) by (auto simp: operator_row_ok_def)
  next
    assume *: "ops = pre @ post \<and> y = zero_summary op"
    then have "op \<notin> s_Operator ` set svs" using t(3) y(2) by auto
    then show ?thesis using * by (simp add: survivors_of_absent)
  qed
  have new: "operator_row_ok svs' (scored_row disp y)"
    using yy y(1) assms(2-5) by (auto simp: operator_row_ok_def)
  have "distinct (map o_Operator (pre @ scored_row disp y # post))"
    using ops t(1) y by (elim disjE conjE) (simp_all add: image_Un)
  moreover have "s_Operator ` set svs' \<subseteq> o_Operator ` set (pre @ scored_row disp y # post)"
  proof -
    have sv: "s_Operator ` set svs' \<subseteq> insert op (s_Operator ` set svs)"
    proof (cases "disp = ''survived''")
      case True
      then show ?thesis using assms(4) assms(5) [OF True] by simp
    next
      case False
      then show ?thesis using assms(4) by auto
    qed
    have rows: "o_Operator ` set ops \<subseteq> insert op (o_Operator ` set (pre @ post))" using ops y(1) by auto
    have "o_Operator ` set (pre @ scored_row disp y # post) = insert op (o_Operator ` set (pre @ post))"
      using y(1) by auto
    then show ?thesis using insert_chain [OF sv t(3) rows] by (simp only:)
  qed
  ultimately show "tally (score_operator op disp ops) svs'"
    using others new by (auto simp: tally_def sc)
  show "totals (score_operator op disp ops) = (case totals ops of (g, dd, k, v) \<Rightarrow>
      (g + 1, dd + (if disp = ''discarded'' then 1 else 0), k + (if disp = ''killed'' then 1 else 0),
       v + (if disp = ''survived'' then 1 else 0)))"
    using ops by (auto simp: totals_def sc)
qed

lemma sum_list_insort: "sum_list (map g (insort_key h x xs)) = g x + sum_list (map g xs)"
  for g :: "'a \<Rightarrow> int"
  by (induction xs) auto

lemma sum_list_sort_key: "sum_list (map g (sort_key h xs)) = sum_list (map g xs)" for g :: "'a \<Rightarrow> int"
  by (induction xs) (simp_all add: sum_list_insort)

lemma distinct_map_sort_key: "distinct (map f (sort_key f xs)) = distinct (map f xs)"
proof (induction xs)
  case (Cons x xs)
  have "distinct (map f (insort_key f y ys)) \<longleftrightarrow> f y \<notin> f ` set ys \<and> distinct (map f ys)" for y ys
    by (induction ys) (auto simp: set_insort_key)
  then show ?case using Cons by simp
qed simp

lemma totals_sort_key [simp]: "totals (sort_key h ops) = totals ops"
  by (simp add: totals_def sum_list_sort_key)

lemma tally_sort_key [simp]: "tally (sort_key o_Operator ops) svs = tally ops svs"
  by (simp add: tally_def distinct_map_sort_key)

lemma merged_facts [simp]:
  "f_Operators (mergeScoredFacts d r ws p b e) = f_Operators r"
  "f_Survivors (mergeScoredFacts d r ws p b e) = f_Survivors r"
  "f_Kills (mergeScoredFacts d r ws p b e) = f_Kills r"
  "f_Killed (mergeScoredFacts d r ws p b e) = f_Killed r"
  "f_Attested (mergeScoredFacts d r ws p b e) = f_Attested r"
  "f_Withdrawn (mergeScoredFacts d r ws p b e) = f_Withdrawn r"
  "f_CandidateEvidence (mergeScoredFacts d r ws p b e) = f_CandidateEvidence r"
  "f_CandidateCount (mergeScoredFacts d r ws p b e) = f_CandidateCount r"
  "f_Generated (mergeScoredFacts d r ws p b e) = f_Generated r"
  "f_Budget (mergeScoredFacts d r ws p b e) = f_Budget r"
  "f_Selection (mergeScoredFacts d r ws p b e) = f_Selection r"
  by (simp_all add: mergeScoredFacts_def Let_def split: option.split)

lemma extend_step_tally:
  assumes "tally ops svs" "totals ops = (g, dd, k, int (length svs))" "c_Operator c \<noteq> []"
    and "extend_step x kc scores (mi, c) (ops, svs, kills) = (ops', svs', kills')"
  shows "tally ops' svs' \<and> (\<exists>dd' k'. totals ops' = (g + 1, dd', k', int (length svs')))"
proof -
  define disp where "disp = outcomeDisposition (ws_outcomes scores ! mi)"
  define s where "s = newSurvivor c x (ws_flips scores) mi"
  have eqs: "ops' = score_operator (c_Operator c) disp ops" "svs' = (if disp = ''survived'' then svs @ [s] else svs)"
    using assms(4) by (auto simp: extend_step_def Let_def disp_def s_def split: if_splits)
  have disp: "disp \<in> {''killed'', ''survived'', ''discarded''}" unfolding disp_def by (rule disposition_cases)
  have "s_Operator s = c_Operator c" by (simp add: s_def)
  from tally_step [OF assms(1,3) disp eqs(2)] this show ?thesis
    using assms(2) by (simp add: eqs)
qed

lemma extend_fold_tally:
  assumes "tally ops svs" "totals ops = (g, dd, k, int (length svs))" "\<forall>(mi, c) \<in> set mcs. c_Operator c \<noteq> []"
    and "fold (extend_step x kc scores) mcs (ops, svs, kills) = (ops', svs', kills')"
  shows "tally ops' svs' \<and> (\<exists>dd' k'. totals ops' = (g + int (length mcs), dd', k', int (length svs')))"
  using assms
proof (induction mcs arbitrary: ops svs kills g dd k)
  case (Cons mc mcs)
  obtain mi c where mc: "mc = (mi, c)" by (metis surj_pair)
  obtain ops1 svs1 kills1 where step: "extend_step x kc scores (mi, c) (ops, svs, kills) = (ops1, svs1, kills1)"
    by (metis surj_pair)
  have "c_Operator c \<noteq> []" using Cons.prems(3) mc by simp
  from extend_step_tally [OF Cons.prems(1,2) this step] obtain dd1 k1
    where *: "tally ops1 svs1" "totals ops1 = (g + 1, dd1, k1, int (length svs1))" by blast
  have "fold (extend_step x kc scores) mcs (ops1, svs1, kills1) = (ops', svs', kills')"
    using Cons.prems(4) step mc by simp
  from Cons.IH [OF * _ this] Cons.prems(3) show ?case by (simp add: algebra_simps)
qed simp

lemma tally_of_operators_wf:
  assumes "operators_wf f" "\<forall>s \<in> set (f_Survivors f). s_Operator s \<in> o_Operator ` set (f_Operators f)"
  shows "tally (f_Operators f) (f_Survivors f)"
    "totals (f_Operators f) = (f_Generated f, f_Discarded f, f_Killed f, int (length (f_Survivors f)))"
  using assms by (auto simp: operators_wf_def tally_def totals_def strict_sorted_iff)

lemma row_sums:
  "\<forall>x \<in> set ops. operator_row_ok svs x \<Longrightarrow>
    sum_list (map o_Generated ops) = sum_list (map o_Discarded ops) + sum_list (map o_Killed ops) + sum_list (map o_Survived ops)"
proof -
  assume "\<forall>x \<in> set ops. operator_row_ok svs x"
  then have "\<forall>x \<in> set ops. o_Generated x = o_Discarded x + o_Killed x + o_Survived x"
    by (simp add: operator_row_ok_def)
  then show ?thesis by (induction ops) simp_all
qed

text \<open>Survivors name operators that have rows: their counts could not match otherwise.\<close>

lemma count_rows:
  assumes "distinct ns"
  shows "sum_list (map (survivors_of svs) ns) = int (length (filter (\<lambda>s. s_Operator s \<in> set ns) svs))"
  using assms
proof (induction ns)
  case (Cons n ns)
  have "int (length (filter (\<lambda>s. s_Operator s \<in> set (n # ns)) svs)) =
      survivors_of svs n + int (length (filter (\<lambda>s. s_Operator s \<in> set ns) svs))"
    using Cons.prems by (induction svs) (auto simp: survivors_of_def)
  then show ?case using Cons by simp
qed simp

lemma survivors_have_rows:
  assumes "operators_wf f"
  shows "\<forall>s \<in> set (f_Survivors f). s_Operator s \<in> o_Operator ` set (f_Operators f)"
proof (rule ccontr)
  let ?ns = "map o_Operator (f_Operators f)"
  assume "\<not> ?thesis"
  then obtain s where "s \<in> set (f_Survivors f)" "s_Operator s \<notin> set ?ns" by auto
  then have "length (filter (\<lambda>s. s_Operator s \<in> set ?ns) (f_Survivors f)) < length (f_Survivors f)"
    by (intro length_filter_less) auto
  moreover have "map o_Survived (f_Operators f) = map (survivors_of (f_Survivors f)) ?ns"
    using assms by (auto simp: operators_wf_def operator_row_ok_def)
  then have "int (length (f_Survivors f)) = sum_list (map (survivors_of (f_Survivors f)) ?ns)"
    using assms unfolding operators_wf_def by metis
  moreover have "distinct ?ns" using assms by (simp add: operators_wf_def strict_sorted_iff)
  ultimately show False using count_rows [of ?ns "f_Survivors f"] by linarith
qed

lemma extend_counts:
  assumes "operators_wf rec" "f_Generated rec = int from" "from \<le> length candidates"
    and "\<forall>c \<in> set (drop from candidates). c_Operator c \<noteq> []"
    and "f' = extendFindingCounts d ops rec candidates from scores fresh budget xs pin ob derived"
  shows "operators_wf f' \<and> f_Generated f' = int (length candidates) \<and>
    f_Mutants f' = f_Killed f' + int (length (f_Survivors f')) \<and>
    f_Generated f' = f_Mutants f' + f_Discarded f'"
proof -
  let ?rec = "mergeScoredFacts d rec scores pin ob derived"
  define kc where "kc \<longleftrightarrow> int (length (f_Kills ?rec)) = f_Killed ?rec"
  define x where "x = (if unstableForBuckets ops xs ?rec then ''unstable-oracle'' else [])"
  obtain os svs ks where loop: "extend_loop x kc scores candidates from
      (f_Operators rec, f_Survivors rec, f_Kills rec) = (os, svs, ks)" by (metis surj_pair)
  let ?mcs = "map (\<lambda>mi. (mi, candidates ! mi)) [from..<length candidates]"
  have "\<forall>(mi, c) \<in> set ?mcs. c_Operator c \<noteq> []"
  proof clarsimp
    fix mi assume "from \<le> mi" "mi < length candidates" "c_Operator (candidates ! mi) = []"
    then have "candidates ! mi = drop from candidates ! (mi - from)" "mi - from < length (drop from candidates)"
      using assms(3) by auto
    then have "candidates ! mi \<in> set (drop from candidates)" by (metis nth_mem)
    then show False using assms(4) \<open>c_Operator (candidates ! mi) = []\<close> by blast
  qed
  from extend_fold_tally [OF tally_of_operators_wf [OF assms(1) survivors_have_rows [OF assms(1)]] this
      loop [unfolded extend_loop_def]]
  obtain dd k where t: "tally os svs" and tot: "totals os = (int (length candidates), dd, k, int (length svs))"
    using assms(2,3) by auto
  have sorted: "tally (sort_key o_Operator os) svs" using t by simp
  have f': "f_Operators f' = sort_key o_Operator os" "f_Survivors f' = svs" "f_Killed f' = k" "f_Discarded f' = dd"
    "f_Mutants f' = k + int (length svs)" "f_Generated f' = int (length candidates)"
    using tot loop unfolding assms(5) extendFindingCounts_def
    by (auto simp: Let_def kc_def x_def sumOperatorTotals_def totals_def sum_list_sort_key)
  have "\<forall>x \<in> set os. operator_row_ok svs x" using t by (simp add: tally_def)
  from row_sums [OF this] have "int (length candidates) = dd + k + int (length svs)"
    using tot by (simp add: totals_def)
  then show ?thesis
    using sorted tot unfolding operators_wf_def f'
    by (auto simp: tally_def totals_def sum_list_sort_key strict_sorted_iff)
qed

text \<open>Extending a capped record conserves its accounting: if the record's operator rows partition its
  totals and the suffix candidates carry operators, then in the extended record every operator row
  still balances, names its survivors, and the rows sum to the finding's totals; generated is the
  whole wider selection, mutants are the killed plus the survivors.\<close>

theorem extend_conserves:
  assumes "operators_wf rec" "f_Generated rec = int from" "from \<le> length candidates"
    and "\<forall>c \<in> set (drop from candidates). c_Operator c \<noteq> []"
    and "f' = extendFindingCounts d ops rec candidates from scores fresh budget xs pin ob derived"
  shows "operators_wf f' \<and> f_Generated f' = int (length candidates) \<and>
    f_Mutants f' = f_Killed f' + int (length (f_Survivors f')) \<and>
    f_Generated f' = f_Mutants f' + f_Discarded f'"
  by (rule extend_counts [OF assms])

definition extend_example :: finding where
  "extend_example = zero_finding\<lparr>f_CandidateCount := 4, f_Budget := 1, f_Generated := 1, f_Mutants := 1, f_Killed := 1,
     f_Operators := [\<lparr>o_Operator = ''neg'', o_Generated = 1, o_Discarded = 0, o_Killed = 1, o_Survived = 0\<rparr>]\<rparr>"

definition cand :: "string \<Rightarrow> string \<Rightarrow> candidate" where
  "cand pos operator = \<lparr>c_Symbol = ''pkg.F'', c_Operator = operator, c_Position = pos, c_Site = ''s'', c_Extent = [],
     c_Replacements = [], c_SchemaReplacements = [], c_SchemaMutantID = [], c_SchemaKey = []\<rparr>"

definition some_scores :: window_scores where
  "some_scores = \<lparr>ws_outcomes = [MutantDiscarded, MutantSurvived, MutantKilled], ws_killers = [[], [], ''T''],
     ws_flips = (\<lambda>_. None), ws_memoryDecided = []\<rparr>"

definition some_durations :: durations where
  "some_durations = \<lparr>parse_duration = (\<lambda>_. None), show_duration = itoa\<rparr>"

theorem extend_conserves_witness:
  "f_Mutants (extendFindingCounts some_durations plain_ops extend_example
      [cand ''1'' ''neg'', cand ''2'' ''neg'', cand ''3'' ''add''] 1 some_scores [] 3 [] 0 0 False) =
   f_Killed (extendFindingCounts some_durations plain_ops extend_example
      [cand ''1'' ''neg'', cand ''2'' ''neg'', cand ''3'' ''add''] 1 some_scores [] 3 [] 0 0 False) +
   int (length (f_Survivors (extendFindingCounts some_durations plain_ops extend_example
      [cand ''1'' ''neg'', cand ''2'' ''neg'', cand ''3'' ''add''] 1 some_scores [] 3 [] 0 0 False)))"
proof -
  have "operators_wf extend_example"
    by (simp add: operators_wf_def extend_example_def zero_finding_def operator_row_ok_def)
  moreover have "f_Generated extend_example = int 1" by (simp add: extend_example_def)
  moreover have "\<forall>c \<in> set (drop 1 [cand ''1'' ''neg'', cand ''2'' ''neg'', cand ''3'' ''add'']). c_Operator c \<noteq> []"
    by (simp add: cand_def)
  ultimately show ?thesis using extend_conserves [OF _ _ _ _ refl] by simp
qed

subsection \<open>Conservation in a splice\<close>

definition remaining :: "survivor_key set \<Rightarrow> candidate list \<Rightarrow> string \<Rightarrow> int" where
  "remaining P cs op = int (length (filter (\<lambda>c. c_Operator c = op \<and> c_key c \<in> P) cs))"

lemma remaining_simps [simp]:
  "remaining P [] op = 0"
  "remaining P (c # cs) op = remaining P cs op + (if c_Operator c = op \<and> c_key c \<in> P then 1 else 0)"
  by (simp_all add: remaining_def)

lemma length_filter_card:
  assumes "distinct (map h xs)"
  shows "length (filter P xs) = card (h ` {x \<in> set xs. P x})"
proof -
  have "distinct (map h (filter P xs))" using assms by (simp add: distinct_map_filter_fst)
  then have "length (map h (filter P xs)) = card (set (map h (filter P xs)))" by (metis distinct_card)
  then show ?thesis by simp
qed

lemma remaining_start:
  assumes "distinct (map c_key cs)" "distinct (map s_key svs)" "s_key ` set svs \<subseteq> c_key ` set cs"
  shows "remaining (s_key ` set svs) cs op = survivors_of svs op"
proof -
  have "c_key ` {c \<in> set cs. c_Operator c = op \<and> c_key c \<in> s_key ` set svs} = s_key ` {s \<in> set svs. s_Operator s = op}"
    using assms(3) by (force simp: c_key_def s_key_def)
  then show ?thesis
    by (simp add: remaining_def survivors_of_def length_filter_card [OF assms(1)] length_filter_card [OF assms(2)])
qed

definition pending :: "survivor_key set \<Rightarrow> candidate list \<Rightarrow> survivor list \<Rightarrow> operator_summary list \<Rightarrow> bool" where
  "pending P cs svs ops \<longleftrightarrow> distinct (map o_Operator ops) \<and>
     (\<forall>x \<in> set ops. o_Generated x = o_Discarded x + o_Killed x + o_Survived x \<and>
        o_Survived x = survivors_of svs (o_Operator x) + remaining P cs (o_Operator x)) \<and>
     s_Operator ` set svs \<subseteq> o_Operator ` set ops"

definition frame :: "operator_summary list \<Rightarrow> (string \<times> int) list" where
  "frame ops = map (\<lambda>x. (o_Operator x, o_Generated x)) ops"

definition context_ok :: "splice_context \<Rightarrow> survivor_key set \<Rightarrow> candidate list \<Rightarrow> nat \<Rightarrow> bool" where
  "context_ok ctx P cs mi \<longleftrightarrow>
     (\<forall>k. sc_priorSurvivors ctx k = None \<longleftrightarrow> k \<notin> P) \<and>
     (\<forall>i < length cs. mi + i \<in> sc_flagged ctx \<longrightarrow>
        (\<exists>e. sc_priorEvidence ctx (c_key (cs ! i)) = Some e \<and>
          ce_Disposition e \<in> {''killed'', ''survived'', ''discarded''} \<and>
          (ce_Disposition e = ''survived'' \<longleftrightarrow> c_key (cs ! i) \<in> P)))"

lemma context_ok_prior: "context_ok ctx P cs mi \<Longrightarrow> sc_priorSurvivors ctx k = None \<longleftrightarrow> k \<notin> P"
  unfolding context_ok_def by blast

lemma context_ok_Cons: "context_ok ctx P (c # cs) mi \<Longrightarrow> context_ok ctx P cs (Suc mi)"
  unfolding context_ok_def by (metis Suc_less_eq add_Suc_right add_Suc_shift length_Cons nth_Cons_Suc)

lemma pending_covered:
  assumes "pending P (c # cs) (sp_svs st) (sp_ops st)" "context_ok ctx P (c # cs) mi"
    and "P \<subseteq> {k. snd k \<in> o_Operator ` set (sp_ops st)}"
  shows "pending P cs (sp_svs (splice_covered ctx c st)) (sp_ops (splice_covered ctx c st))"
    "frame (sp_ops (splice_covered ctx c st)) = frame (sp_ops st)"
proof -
  have ops: "sp_ops (splice_covered ctx c st) = sp_ops st" by (simp add: splice_covered_def)
  then show "frame (sp_ops (splice_covered ctx c st)) = frame (sp_ops st)" by simp
  show "pending P cs (sp_svs (splice_covered ctx c st)) (sp_ops (splice_covered ctx c st))"
  proof (cases "c_key c \<in> P")
    case False
    then have "sc_priorSurvivors ctx (c_key c) = None" using context_ok_prior [OF assms(2)] by blast
    then show ?thesis using assms(1) False by (auto simp: pending_def splice_covered_def)
  next
    case True
    then obtain s where "sc_priorSurvivors ctx (c_key c) = Some s"
      using context_ok_prior [OF assms(2), of "c_key c"] by blast
    then have svs: "sp_svs (splice_covered ctx c st) = sp_svs st @ [carrySurvivor c s]"
      by (simp add: splice_covered_def)
    have "c_Operator c \<in> o_Operator ` set (sp_ops st)" using True assms(3) by (force simp: c_key_def)
    then show ?thesis using assms(1) True unfolding pending_def svs ops by auto
  qed
qed

lemma applyDisposition_simps [simp]:
  "o_Operator (applyDisposition disp n y) = o_Operator y"
  "o_Generated (applyDisposition disp n y) = o_Generated y"
  "o_Survived (applyDisposition disp n y) = o_Survived y + (if disp = ''survived'' then n else 0)"
  "o_Killed (applyDisposition disp n y) = o_Killed y + (if disp = ''killed'' then n else 0)"
  "o_Discarded (applyDisposition disp n y) = o_Discarded y + (if disp = ''discarded'' then n else 0)"
  by (simp_all add: applyDisposition_def)

lemma indicator_sum:
  "d \<in> {''killed'', ''survived'', ''discarded''} \<Longrightarrow>
    (if d = ''killed'' then n else 0) + (if d = ''survived'' then n else 0) + (if d = ''discarded'' then n else 0) = (n :: int)"
  by auto

lemma pending_flagged:
  assumes "pending P (c # cs) (sp_svs st) (sp_ops st)" "context_ok ctx P (c # cs) mi"
    and "mi \<in> sc_flagged ctx" "operator_index (sp_ops st) (c_Operator c) = Some i"
  shows "pending P cs (sp_svs (splice_flagged ctx mi c i st)) (sp_ops (splice_flagged ctx mi c i st))"
    "frame (sp_ops (splice_flagged ctx mi c i st)) = frame (sp_ops st)"
proof -
  have dist: "distinct (map o_Operator (sp_ops st))" using assms(1) by (simp add: pending_def)
  obtain pre y post where ops: "sp_ops st = pre @ y # post" "i = length pre" and y: "o_Operator y = c_Operator c"
    and other: "c_Operator c \<notin> o_Operator ` set (pre @ post)"
    by (rule operator_index_split [OF assms(4) dist])
  obtain e where e: "sc_priorEvidence ctx (c_key c) = Some e" "ce_Disposition e \<in> {''killed'', ''survived'', ''discarded''}"
    "ce_Disposition e = ''survived'' \<longleftrightarrow> c_key c \<in> P"
    using assms(2,3) unfolding context_ok_def by (metis add_0_right length_greater_0_conv list.distinct(1) nth_Cons_0)
  define disp where "disp = outcomeDisposition (ws_outcomes (sc_scores ctx) ! mi)"
  have disp: "disp \<in> {''killed'', ''survived'', ''discarded''}" unfolding disp_def by (rule disposition_cases)
  define y' where "y' = applyDisposition disp 1 (applyDisposition (ce_Disposition e) (- 1) y)"
  have ops': "sp_ops (splice_flagged ctx mi c i st) = pre @ y' # post"
    by (simp add: splice_flagged_def Let_def ops e(1) y'_def disp_def)
  define ex where "ex = (if sc_unstable ctx then ''unstable-oracle''
      else case sc_priorSurvivors ctx (c_key c) of None \<Rightarrow> [] | Some s \<Rightarrow> s_Execution s)"
  define s where "s = newSurvivor c ex (ws_flips (sc_scores ctx)) mi"
  have s: "s_Operator s = c_Operator c" by (simp add: s_def)
  have svs': "sp_svs (splice_flagged ctx mi c i st) = (if disp = ''survived'' then sp_svs st @ [s] else sp_svs st)"
    by (simp add: splice_flagged_def Let_def disp_def s_def ex_def)
  show "frame (sp_ops (splice_flagged ctx mi c i st)) = frame (sp_ops st)"
    unfolding ops' ops(1) by (simp add: frame_def y'_def)
  note pp = assms(1) [unfolded pending_def ops(1)]
  have p: "\<forall>x \<in> set (pre @ y # post). o_Generated x = o_Discarded x + o_Killed x + o_Survived x \<and>
        o_Survived x = survivors_of (sp_svs st) (o_Operator x) + remaining P (c # cs) (o_Operator x)"
    "s_Operator ` set (sp_svs st) \<subseteq> o_Operator ` set (pre @ y # post)"
    by (rule conjunct1 [OF conjunct2 [OF pp]], rule conjunct2 [OF conjunct2 [OF pp]])
  have rows: "o_Generated x = o_Discarded x + o_Killed x + o_Survived x \<and>
      o_Survived x = survivors_of (if disp = ''survived'' then sp_svs st @ [s] else sp_svs st) (o_Operator x) +
        remaining P cs (o_Operator x)" if x: "x \<in> set (pre @ y' # post)" for x
  proof (cases "x = y'")
    case True
    have yv: "o_Generated y = o_Discarded y + o_Killed y + o_Survived y"
      "o_Survived y = survivors_of (sp_svs st) (c_Operator c) + remaining P (c # cs) (c_Operator c)"
      using p(1) y by simp_all
    have "o_Generated y' = o_Discarded y' + o_Killed y' + o_Survived y'"
      using yv(1) indicator_sum [OF disp, of 1] indicator_sum [OF e(2), of "- 1"] by (simp add: y'_def)
    moreover have "o_Survived y' = survivors_of (if disp = ''survived'' then sp_svs st @ [s] else sp_svs st) (c_Operator c) +
        remaining P cs (c_Operator c)"
      by (cases "disp = ''survived''"; cases "c_key c \<in> P") (simp_all add: y'_def yv(2) s e(3))
    moreover have "o_Operator y' = c_Operator c" by (simp add: y'_def y)
    ultimately show ?thesis unfolding True by simp
  next
    case False
    then have mem: "x \<in> set (pre @ post)" using x by auto
    then have "o_Operator x \<noteq> c_Operator c" using other by (metis imageI)
    moreover have "x \<in> set (pre @ y # post)" using mem by auto
    ultimately show ?thesis using p(1) s by auto
  qed
  have "map o_Operator (pre @ y' # post) = map o_Operator (sp_ops st)" by (simp add: ops y'_def)
  then have "distinct (map o_Operator (pre @ y' # post))" using dist by (simp only:)
  moreover have names: "o_Operator ` set (pre @ y' # post) = o_Operator ` set (pre @ y # post)" by (simp add: y'_def)
  moreover have "s_Operator ` set (if disp = ''survived'' then sp_svs st @ [s] else sp_svs st) \<subseteq>
      o_Operator ` set (pre @ y' # post)"
    unfolding names using p(2) s y by auto
  ultimately show "pending P cs (sp_svs (splice_flagged ctx mi c i st)) (sp_ops (splice_flagged ctx mi c i st))"
    using rows unfolding pending_def ops' svs' by blast
qed

lemma splice_loop_pending:
  assumes "splice_loop ctx mi cs st = Inr st'" "pending P cs (sp_svs st) (sp_ops st)" "context_ok ctx P cs mi"
    and "P \<subseteq> {k. snd k \<in> o_Operator ` set (sp_ops st)}"
  shows "pending P [] (sp_svs st') (sp_ops st') \<and> frame (sp_ops st') = frame (sp_ops st)"
  using assms
proof (induction ctx mi cs st rule: splice_loop.induct)
  case (2 ctx mi c cs st)
  have names: "o_Operator ` set a = o_Operator ` set b" if "frame a = frame b" for a b
  proof -
    have "map fst (frame u) = map o_Operator u" for u by (simp add: frame_def)
    then show ?thesis using that by (metis list.set_map)
  qed
  show ?case
  proof (cases "mi \<in> sc_flagged ctx")
    case False
    note cov = pending_covered [OF "2.prems"(2,3,4)]
    have "splice_loop ctx (Suc mi) cs (splice_covered ctx c st) = Inr st'" using "2.prems"(1) False by simp
    from "2.IH"(1) [OF False this cov(1) context_ok_Cons [OF "2.prems"(3)]] "2.prems"(4) cov(2) names [OF cov(2)]
    show ?thesis by simp
  next
    case True
    then obtain i where i: "operator_index (sp_ops st) (c_Operator c) = Some i"
      and rest: "splice_loop ctx (Suc mi) cs (splice_flagged ctx mi c i st) = Inr st'"
      using "2.prems"(1) by (auto split: option.splits)
    note fl = pending_flagged [OF "2.prems"(2,3) True i]
    from "2.IH"(2) [OF _ i rest fl(1) context_ok_Cons [OF "2.prems"(3)]] "2.prems"(4) True fl(2) names [OF fl(2)]
    show ?thesis by simp
  qed
qed auto

lemma flaggedCandidateIndexes_Some:
  assumes "flaggedCandidateIndexes g rec = Some flaggedSet"
  shows "distinct (map c_key (g_Candidates g))"
    and "s_key ` set (f_Survivors rec) \<subseteq> c_key ` set (g_Candidates g)"
    and "i \<in> flaggedSet \<Longrightarrow> i < length (g_Candidates g) \<and>
      (\<exists>e \<in> set (f_CandidateEvidence rec). ce_key e = c_key (g_Candidates g ! i))"
    and "f_Generated rec = int (length (g_Candidates g))"
proof -
  let ?ix = "map_last (zip (map c_key (g_Candidates g)) [0..<length (map c_key (g_Candidates g))])"
  have re: "reidentify g rec = Some ?ix" and d: "distinct (map c_key (g_Candidates g))"
    and gen: "f_Generated rec = int (length (g_Candidates g))"
    using assms by (auto simp: flaggedCandidateIndexes_def reidentify_def candidateIdentityIndex_def
        split: option.splits if_splits)
  show "distinct (map c_key (g_Candidates g))" "f_Generated rec = int (length (g_Candidates g))"
    using d gen by auto
  have known: "\<forall>s \<in> set (f_Survivors rec). ?ix (s_key s) \<noteq> None"
    using assms unfolding flaggedCandidateIndexes_def re by (auto split: if_splits)
  show "s_key ` set (f_Survivors rec) \<subseteq> c_key ` set (g_Candidates g)"
  proof
    fix k assume "k \<in> s_key ` set (f_Survivors rec)"
    then have "?ix k \<noteq> None" using known by blast
    then have "k \<in> set (map c_key (g_Candidates g))" by (simp only: zip_index_None not_not simp_thms)
    then show "k \<in> c_key ` set (g_Candidates g)" by simp
  qed
  show "i < length (g_Candidates g) \<and> (\<exists>e \<in> set (f_CandidateEvidence rec). ce_key e = c_key (g_Candidates g ! i))"
    if mem: "i \<in> flaggedSet"
  proof -
    have "flaggedSet = set (List.map_filter (\<lambda>e. ?ix (ce_key e)) (f_CandidateEvidence rec))"
      using assms unfolding flaggedCandidateIndexes_def re by (auto split: if_splits)
    then obtain e where "e \<in> set (f_CandidateEvidence rec)" "?ix (ce_key e) = Some i"
      using mem by (auto simp: map_filter_set)
    then show ?thesis using zip_index_Some [of "map c_key (g_Candidates g)" "ce_key e" i] by auto
  qed
qed

lemma splice_counts:
  assumes "operators_wf rec" "candidates_wf rec" "distinct (map s_key (f_Survivors rec))"
    and "flaggedCandidateIndexes g rec = Some flaggedSet"
    and "spliceFindingCounts d ops rec (g_Candidates g) flaggedSet scores fresh xs pin ob derived = Inr f'"
  shows "operators_wf f' \<and> f_Generated f' = f_Generated rec \<and>
    f_Mutants f' = f_Killed f' + int (length (f_Survivors f')) \<and>
    f_Generated f' = f_Mutants f' + f_Discarded f'"
proof -
  let ?cs = "g_Candidates g" and ?P = "s_key ` set (f_Survivors rec)"
  note fl = flaggedCandidateIndexes_Some [OF assms(4)]
  obtain ctx st where loop: "splice_loop ctx 0 ?cs \<lparr>sp_ops = f_Operators rec, sp_svs = [], sp_kills = [], sp_evidence = []\<rparr> = Inr st"
    and ctx: "sc_flagged ctx = flaggedSet" "sc_priorSurvivors ctx = map_last (map (\<lambda>s. (s_key s, s)) (f_Survivors rec))"
      "sc_priorEvidence ctx = map_last (map (\<lambda>e. (ce_key e, e)) (f_CandidateEvidence rec))"
    and nonneg: "find (\<lambda>x. o_Killed x < 0 \<or> o_Discarded x < 0 \<or> o_Survived x < 0) (sp_ops st) = None"
    and f': "f_Operators f' = sp_ops st" "f_Survivors f' = sp_svs st" "f_Killed f' = sum_list (map o_Killed (sp_ops st))"
      "f_Discarded f' = sum_list (map o_Discarded (sp_ops st))" "f_Generated f' = f_Generated rec"
      "f_Mutants f' = sum_list (map o_Killed (sp_ops st)) + sum_list (map o_Survived (sp_ops st))"
    using assms(5) unfolding spliceFindingCounts_def
    by (auto simp: Let_def sumOperatorTotals_def split: sum.splits option.splits)
  have rows: "\<forall>x \<in> set (f_Operators rec). operator_row_ok (f_Survivors rec) x"
    and srt: "sorted_wrt (<) (map o_Operator (f_Operators rec))" using assms(1) by (simp_all add: operators_wf_def)
  have start: "pending ?P ?cs [] (f_Operators rec)"
    using rows srt remaining_start [OF fl(1) assms(3) fl(2)]
    by (auto simp: pending_def operator_row_ok_def strict_sorted_iff)
  have cand_rows: "\<forall>e \<in> set (f_CandidateEvidence rec). ce_Disposition e \<in> {''killed'', ''survived'', ''discarded''} \<and>
      (ce_Disposition e = ''survived'' \<longleftrightarrow> ce_key e \<in> ?P)"
  proof
    fix e assume "e \<in> set (f_CandidateEvidence rec)"
    then have "ce_Disposition e \<in> {''survived'', ''killed'', ''discarded''}"
      and iff: "ce_Disposition e = ''survived'' \<longleftrightarrow> ce_key e \<in> ?P"
      using assms(2) unfolding candidates_wf_def by blast+
    then have "ce_Disposition e \<in> {''killed'', ''survived'', ''discarded''}" by (simp only: insert_commute)
    then show "ce_Disposition e \<in> {''killed'', ''survived'', ''discarded''} \<and>
      (ce_Disposition e = ''survived'' \<longleftrightarrow> ce_key e \<in> ?P)" using iff by (rule conjI)
  qed
  have "map_last (map (\<lambda>s. (s_key s, s)) (f_Survivors rec)) k = None \<longleftrightarrow> k \<notin> ?P" for k
    by (simp add: map_last_None image_image)
  moreover have "\<exists>e. map_last (map (\<lambda>e. (ce_key e, e)) (f_CandidateEvidence rec)) (c_key (?cs ! i)) = Some e \<and>
      ce_Disposition e \<in> {''killed'', ''survived'', ''discarded''} \<and> (ce_Disposition e = ''survived'' \<longleftrightarrow> c_key (?cs ! i) \<in> ?P)"
    if "i \<in> flaggedSet" for i
  proof -
    have keyed: "c_key (?cs ! i) \<in> fst ` set (map (\<lambda>e. (ce_key e, e)) (f_CandidateEvidence rec))"
      using fl(3) [OF that] by force
    from map_last_isSome [OF keyed]
    obtain e where e: "map_last (map (\<lambda>e. (ce_key e, e)) (f_CandidateEvidence rec)) (c_key (?cs ! i)) = Some e" ..
    from map_last_Some_in [OF e] have "e \<in> set (f_CandidateEvidence rec)" "ce_key e = c_key (?cs ! i)" by auto
    moreover from this have "ce_Disposition e \<in> {''killed'', ''survived'', ''discarded''}"
      "ce_Disposition e = ''survived'' \<longleftrightarrow> ce_key e \<in> ?P"
      using cand_rows by blast+
    ultimately show ?thesis using e by simp
  qed
  ultimately have ok: "context_ok ctx ?P ?cs 0" unfolding context_ok_def ctx by simp
  have names: "?P \<subseteq> {k. snd k \<in> o_Operator ` set (f_Operators rec)}"
    using survivors_have_rows [OF assms(1)] by (auto simp: s_key_def)
  have pend: "pending ?P [] (sp_svs st) (sp_ops st)" and fr: "frame (sp_ops st) = frame (f_Operators rec)"
    using splice_loop_pending [OF loop _ ok] start names by simp_all
  have "map fst (frame u) = map o_Operator u" "map snd (frame u) = map o_Generated u" for u by (simp_all add: frame_def)
  then have ns: "map o_Operator (sp_ops st) = map o_Operator (f_Operators rec)"
    and gs: "map o_Generated (sp_ops st) = map o_Generated (f_Operators rec)" using fr by metis+
  have mem: "\<exists>y \<in> set (f_Operators rec). o_Operator y = o_Operator x \<and> o_Generated y = o_Generated x" if "x \<in> set (sp_ops st)" for x
  proof -
    have "(o_Operator x, o_Generated x) \<in> set (frame (sp_ops st))" using that by (force simp: frame_def)
    then show ?thesis unfolding fr by (auto simp: frame_def)
  qed
  have ok': "operator_row_ok (sp_svs st) x" if xin: "x \<in> set (sp_ops st)" for x
  proof -
    obtain y where y: "y \<in> set (f_Operators rec)" "o_Operator y = o_Operator x" "o_Generated y = o_Generated x"
      using mem [OF xin] by blast
    then have "o_Operator x \<noteq> []" "o_Generated x > 0" using rows by (auto simp: operator_row_ok_def)
    moreover have "o_Killed x \<ge> 0" "o_Discarded x \<ge> 0" "o_Survived x \<ge> 0"
      using nonneg xin by (auto simp: find_None_iff not_less)
    moreover have "o_Generated x = o_Discarded x + o_Killed x + o_Survived x"
      "o_Survived x = survivors_of (sp_svs st) (o_Operator x)"
      using pend xin by (simp_all add: pending_def)
    ultimately show ?thesis by (simp add: operator_row_ok_def)
  qed
  have "map o_Survived (sp_ops st) = map (survivors_of (sp_svs st)) (map o_Operator (sp_ops st))"
    using ok' by (simp add: operator_row_ok_def)
  then have "sum_list (map o_Survived (sp_ops st)) =
      int (length (filter (\<lambda>s. s_Operator s \<in> set (map o_Operator (sp_ops st))) (sp_svs st)))"
    using count_rows [of "map o_Operator (sp_ops st)" "sp_svs st"] pend by (simp only: pending_def)
  also have "filter (\<lambda>s. s_Operator s \<in> set (map o_Operator (sp_ops st))) (sp_svs st) = sp_svs st"
    using pend by (auto simp: pending_def filter_id_conv)
  finally have surv: "sum_list (map o_Survived (sp_ops st)) = int (length (sp_svs st))" .
  have gsum: "sum_list (map o_Generated (sp_ops st)) = f_Generated rec" using assms(1) gs by (simp add: operators_wf_def)
  have "operators_wf f'" unfolding operators_wf_def f' ns using ok' srt surv gsum by simp
  moreover have "sum_list (map o_Generated (sp_ops st)) = sum_list (map o_Discarded (sp_ops st)) +
      sum_list (map o_Killed (sp_ops st)) + sum_list (map o_Survived (sp_ops st))"
    using row_sums ok' by blast
  ultimately show ?thesis using surv gsum by (simp add: f')
qed

text \<open>C27: Splicing re-executed candidates into a served record conserves its accounting: when every
  recorded identity re-identifies, the spliced record generates the same candidates, every operator
  row balances and names its survivors, the rows sum to the finding's totals, and mutants are the
  killed plus the survivors.\<close>

theorem splice_conserves:
  assumes "operators_wf rec" "candidates_wf rec" "distinct (map s_key (f_Survivors rec))"
    and "flaggedCandidateIndexes g rec = Some flaggedSet"
    and "spliceFindingCounts d ops rec (g_Candidates g) flaggedSet scores fresh xs pin ob derived = Inr f'"
  shows "operators_wf f' \<and> f_Generated f' = f_Generated rec \<and>
    f_Mutants f' = f_Killed f' + int (length (f_Survivors f')) \<and>
    f_Generated f' = f_Mutants f' + f_Discarded f'"
  by (rule splice_counts [OF assms])

definition splice_example :: finding where
  "splice_example = zero_finding\<lparr>f_CandidateCount := 2, f_Generated := 2, f_Mutants := 2, f_Killed := 1,
     f_Survivors := [\<lparr>s_Position = ''1'', s_Operator = ''neg'', s_Extent = [], s_Site = [], s_Execution = [],
       s_WithdrawnKiller = [], s_OtherSelection = []\<rparr>],
     f_CandidateEvidence := [\<lparr>ce_Position = ''2'', ce_Operator = ''neg'', ce_Reason = ''r'', ce_Disposition = ''killed''\<rparr>],
     f_Operators := [\<lparr>o_Operator = ''neg'', o_Generated = 2, o_Discarded = 0, o_Killed = 1, o_Survived = 1\<rparr>]\<rparr>"

definition runnable :: "candidate \<Rightarrow> candidate" where
  "runnable c = c\<lparr>c_Replacements := [\<lparr>r_File = ''a.go'', r_Source = Some ''x'', r_Synthetic = False\<rparr>]\<rparr>"

definition splice_generation :: generation where
  "splice_generation = \<lparr>g_CandidateCount = 2, g_Candidates = [cand ''1'' ''neg'', runnable (cand ''2'' ''neg'')]\<rparr>"

lemmas splice_example_defs = splice_example_def splice_generation_def zero_finding_def cand_def runnable_def

theorem splice_conserves_witness:
  "\<exists>f'. spliceFindingCounts some_durations plain_ops splice_example (g_Candidates splice_generation) {1} some_scores
      [] [] 0 0 False = Inr f' \<and> f_Generated f' = f_Mutants f' + f_Discarded f' \<and> length (f_Survivors f') = 2"
proof -
  have wf: "operators_wf splice_example" "candidates_wf splice_example" "distinct (map s_key (f_Survivors splice_example))"
    by (simp_all add: operators_wf_def candidates_wf_def splice_example_def zero_finding_def operator_row_ok_def
        survivors_of_def mutant_keys check_flagged_totals_def flagged_def summary_of_def map_last_def)
  have fl: "flaggedCandidateIndexes splice_generation splice_example = Some {1}"
    by (simp add: flaggedCandidateIndexes_def reidentify_def candidateIdentityIndex_def splice_example_defs
        c_key_def mutant_keys map_last_def Mutant_def)
  have "\<exists>f'. spliceFindingCounts some_durations plain_ops splice_example (g_Candidates splice_generation) {1} some_scores
      [] [] 0 0 False = Inr f' \<and> length (f_Survivors f') = 2"
    by (simp add: spliceFindingCounts_def Let_def some_scores_def some_durations_def mergeScoredFacts_def
        effectiveCeiling_def max_int_def anyMemoryDecided_def splice_example_defs c_key_def mutant_keys map_last_def
        splice_covered_def splice_flagged_def operator_index_def outcomeDisposition_def applyDisposition_def
        sumOperatorTotals_def)
  then obtain f' where sp: "spliceFindingCounts some_durations plain_ops splice_example (g_Candidates splice_generation) {1}
      some_scores [] [] 0 0 False = Inr f'" "length (f_Survivors f') = 2" by blast
  show ?thesis using splice_conserves [OF wf fl sp(1)] sp by blast
qed

subsection \<open>Whole measurements and pins\<close>

lemma frame_step:
  assumes "distinct (map o_Operator ops)" "\<forall>x \<in> set ops. o_Generated x = o_Discarded x + o_Killed x + o_Survived x"
    "disp \<in> {''killed'', ''survived'', ''discarded''}"
  shows "distinct (map o_Operator (score_operator op disp ops))"
    "\<forall>x \<in> set (score_operator op disp ops). o_Generated x = o_Discarded x + o_Killed x + o_Survived x"
    "o_Operator ` set (score_operator op disp ops) = insert op (o_Operator ` set ops)"
    "sum_list (map o_Generated (score_operator op disp ops)) = sum_list (map o_Generated ops) + 1"
proof -
  obtain pre y post where sc: "score_operator op disp ops = pre @ scored_row disp y # post"
    and y: "o_Operator y = op" "op \<notin> o_Operator ` set (pre @ post)"
    and ops: "ops = pre @ y # post \<or> ops = pre @ post \<and> y = zero_summary op"
    by (rule score_operator_cases [OF assms(1)])
  show "distinct (map o_Operator (score_operator op disp ops))"
    using ops assms(1) y unfolding sc by (elim disjE conjE) (simp_all add: image_Un)
  show "o_Operator ` set (score_operator op disp ops) = insert op (o_Operator ` set ops)"
    using ops y unfolding sc by auto
  show "sum_list (map o_Generated (score_operator op disp ops)) = sum_list (map o_Generated ops) + 1"
    using ops unfolding sc by auto
  have "o_Generated y = o_Discarded y + o_Killed y + o_Survived y" using ops assms(2) by auto
  then have "o_Generated (scored_row disp y) = o_Discarded (scored_row disp y) + o_Killed (scored_row disp y) + o_Survived (scored_row disp y)"
    using assms(3) by auto
  then show "\<forall>x \<in> set (score_operator op disp ops). o_Generated x = o_Discarded x + o_Killed x + o_Survived x"
    using ops assms(2) unfolding sc by auto
qed

lemma summary_fold:
  assumes "distinct (map o_Operator ops)" "\<forall>x \<in> set ops. o_Generated x = o_Discarded x + o_Killed x + o_Survived x"
  shows "distinct (map o_Operator (fold summary_step cos ops)) \<and>
    (\<forall>x \<in> set (fold summary_step cos ops). o_Generated x = o_Discarded x + o_Killed x + o_Survived x) \<and>
    o_Operator ` set (fold summary_step cos ops) = (c_Operator \<circ> fst) ` set cos \<union> o_Operator ` set ops \<and>
    sum_list (map o_Generated (fold summary_step cos ops)) = sum_list (map o_Generated ops) + int (length cos)"
  using assms
proof (induction cos arbitrary: ops)
  case (Cons co cos)
  let ?disp = "outcomeDisposition (snd co)"
  have "?disp \<in> {''killed'', ''survived'', ''discarded''}" by (rule disposition_cases)
  note st = frame_step [OF Cons.prems this, of "c_Operator (fst co)", folded summary_step_def]
  from Cons.IH [OF st(1,2)] st(3,4) show ?case by auto
qed simp

text \<open>The operator summaries of a whole measurement partition it: one row per operator in order, each
  counting its candidates as killed, survived or discarded, and the rows together count every
  candidate exactly once.\<close>

theorem summaries_partition:
  "let rows = summarizeOperators candidates outcomes in
    sorted_wrt (<) (map o_Operator rows) \<and> o_Operator ` set rows = c_Operator ` set candidates \<and>
    (\<forall>x \<in> set rows. o_Generated x = o_Discarded x + o_Killed x + o_Survived x) \<and>
    sum_list (map o_Generated rows) = int (length candidates)"
proof -
  let ?cos = "map (\<lambda>i. (candidates ! i, outcomes ! i)) [0..<length candidates]"
  have "(c_Operator \<circ> fst) ` set ?cos = c_Operator ` set (map (\<lambda>i. candidates ! i) [0..<length candidates])"
    by (simp add: image_image)
  then have ops: "(c_Operator \<circ> fst) ` set ?cos = c_Operator ` set candidates" by (simp add: map_nth)
  show ?thesis
    using summary_fold [of "[]" ?cos] ops
    by (simp add: summarizeOperators_def Let_def strict_sorted_iff distinct_map_sort_key sum_list_sort_key)
qed

text \<open>Merging a window's facts keeps the memory pin an upper bound of every verdict's ceiling: the
  recorded effective ceiling becomes the larger of the record's and the window's, a ceiling-decided
  verdict marks the record for good, and a later run under the merged pin is not stale unless the
  record's verdicts were decided by a ceiling other than its pin.\<close>

theorem merged_memory_pin:
  "let f = mergeScoredFacts d rec scores pin budget derived in
    effectiveCeiling (f_OracleMemoryBytes f) = max (effectiveCeiling (f_OracleMemoryBytes rec)) (effectiveCeiling pin) \<and>
    f_OracleCeilingDecided f = (f_OracleCeilingDecided rec \<or> True \<in> set (ws_memoryDecided scores)) \<and>
    \<not> memoryPinStale f (f_OracleMemoryBytes f)"
proof -
  let ?f = "mergeScoredFacts d rec scores pin budget derived"
  have "f_OracleMemoryBytes ?f = (if effectiveCeiling pin > effectiveCeiling (f_OracleMemoryBytes rec) then pin
      else f_OracleMemoryBytes rec)"
    "f_OracleCeilingDecided ?f = (f_OracleCeilingDecided rec \<or> True \<in> set (ws_memoryDecided scores))"
    by (simp_all add: mergeScoredFacts_def Let_def anyMemoryDecided_def split: option.split)
  then show ?thesis by (simp add: Let_def memoryPinStale_def max_def)
qed

end
