(* ===== verification/Schedule.thy ===== *)
theory Schedule
  imports Candidates Findings
    "HOL-Library.Multiset"
begin

text \<open>
  Execution windows and serial kill confirmation (\<open>schedule.go\<close>, \<open>estimate.go\<close>,
  \<open>internal/windowcost/windowcost.go\<close>): which targets share a window, which window runs next, and
  which provisional kills of a window are confirmed again.

  A window's items arrive on a channel that closes; the model takes the list of items still to
  come. The confirmation run of a kill is the argument \<open>confirm\<close>, the verifiability of its serial
  evidence the argument \<open>unverifiable\<close>.
\<close>

subsection \<open>Constants and bounds\<close>

definition CandidatesPerWorker :: int where "CandidatesPerWorker = 8"
definition CandidatesFloor :: int where "CandidatesFloor = 64"
definition CandidatesMin :: int where "CandidatesMin = 8"
definition ExecutionBudget :: int where "ExecutionBudget = 512"
definition ConfirmStreak :: nat where "ConfirmStreak = 3"
definition ConfirmStride :: nat where "ConfirmStride = 4"

lemmas window_consts = CandidatesPerWorker_def CandidatesFloor_def CandidatesMin_def ExecutionBudget_def
  ConfirmStreak_def ConfirmStride_def

definition Bounds :: "int \<Rightarrow> int \<Rightarrow> int \<times> int" where
  "Bounds jobs override =
     (if override > 0 then (override, override)
      else (max (jobs * CandidatesPerWorker) CandidatesFloor, max jobs CandidatesMin))"

definition Executions :: "int \<Rightarrow> int \<Rightarrow> int" where
  "Executions candidates oracleTests = candidates * oracleTests"

subsection \<open>Work items\<close>

record observation =
  ob_Unverifiable :: bool
  ob_Rest :: string

record oracle_group =
  gr_pkgs :: "string list"
  gr_passed :: "string list"
  gr_runRegex :: string
  gr_flags :: "string list"
  gr_moduleDir :: string
  gr_packageDir :: string

record work =
  wo_oracle :: "string list"
  wo_shaped :: bool
  wo_candidates :: "candidate list"
  wo_groups :: "oracle_group list"
  wo_oracleSet :: "string set"
  wo_baselines :: "observation list"
  wo_serve :: "finding option"
  wo_flagged :: "nat set"
  wo_extend :: "finding option"
  wo_extendFrom :: nat

text \<open>\<open>g.pkgs[0]\<close> of a group: the constructors build single-package groups.\<close>

definition coverageKey :: "oracle_group \<Rightarrow> string \<Rightarrow> string" where
  "coverageKey g coverPkg =
     hd (gr_pkgs g) @ [nul] @ gr_runRegex g @ [nul] @ coverPkg @ [nul] @ join [nul] (gr_flags g)"

definition executesCandidate :: "work \<Rightarrow> nat \<Rightarrow> bool" where
  "executesCandidate w mi \<longleftrightarrow>
     (if wo_serve w \<noteq> None \<and> mi \<notin> wo_flagged w then False
      else if wo_extend w \<noteq> None \<and> mi < wo_extendFrom w then False
      else Mutant (wo_candidates w ! mi) \<noteq> None)"

definition executingIndexes :: "work \<Rightarrow> nat list" where
  "executingIndexes w = filter (executesCandidate w) [0..<length (wo_candidates w)]"

definition stepBudget :: "(oracle_group \<Rightarrow> int) option \<Rightarrow> int \<Rightarrow> oracle_group \<Rightarrow> int" where
  "stepBudget groupBudget oracleTimeout g = (case groupBudget of Some b \<Rightarrow> b g | None \<Rightarrow> oracleTimeout)"

definition maxGroupBudget :: "(oracle_group \<Rightarrow> int) option \<Rightarrow> int \<Rightarrow> work \<Rightarrow> int" where
  "maxGroupBudget groupBudget oracleTimeout w =
     fold (\<lambda>g budget. if stepBudget groupBudget oracleTimeout g > budget
       then stepBudget groupBudget oracleTimeout g else budget) (wo_groups w) 0"

definition windowEvidenceVolatile :: "work \<Rightarrow> observation list \<Rightarrow> bool" where
  "windowEvidenceVolatile w observations \<longleftrightarrow>
     (\<exists>b \<in> set (wo_baselines w). ob_Unverifiable b) \<or> (\<exists>ob \<in> set observations. ob_Unverifiable ob)"

subsection \<open>Gathering a window\<close>

definition size_of :: "work \<Rightarrow> int" where
  "size_of w = int (length (wo_candidates w))"

definition executions_of :: "work \<Rightarrow> int" where
  "executions_of w = Executions (size_of w) (int (length (wo_oracle w)))"

fun gather_more :: "int \<Rightarrow> int \<Rightarrow> int \<Rightarrow> int \<Rightarrow> work list \<Rightarrow> work list \<times> work list" where
  "gather_more ceiling minimum tot executions [] = ([], [])"
| "gather_more ceiling minimum tot executions (w # items) =
     (if tot < ceiling \<and> \<not> (executions \<ge> ExecutionBudget \<and> tot \<ge> minimum) then
        (let (window, rest) = gather_more ceiling minimum (tot + size_of w) (executions + executions_of w) items in
          (w # window, rest))
      else ([], w # items))"

definition gatherWindow :: "int \<Rightarrow> int \<Rightarrow> work list \<Rightarrow> (work list \<times> work list) option" where
  "gatherWindow ceiling minimum items =
     (case items of
        [] \<Rightarrow> None
      | w # rest \<Rightarrow> (let (window, rest') = gather_more ceiling minimum (size_of w) (executions_of w) rest in
          Some (w # window, rest')))"

text \<open>The windows of a run: gather until the channel is drained.\<close>

fun windows_fuel :: "nat \<Rightarrow> int \<Rightarrow> int \<Rightarrow> work list \<Rightarrow> work list list" where
  "windows_fuel 0 ceiling minimum items = []"
| "windows_fuel (Suc n) ceiling minimum items =
     (case gatherWindow ceiling minimum items of
        None \<Rightarrow> []
      | Some (window, rest) \<Rightarrow> window # windows_fuel n ceiling minimum rest)"

definition run_windows :: "int \<Rightarrow> int \<Rightarrow> work list \<Rightarrow> work list list" where
  "run_windows ceiling minimum items = windows_fuel (length items) ceiling minimum items"

subsection \<open>Pricing and order\<close>

record window_estimate =
  est_projected :: int
  est_full :: nat
  est_unknown :: nat

definition workFullPrice :: "work \<Rightarrow> (oracle_group \<Rightarrow> int option) option \<Rightarrow> int option" where
  "workFullPrice w baselineDur =
     (case baselineDur of None \<Rightarrow> None
      | Some dur \<Rightarrow> fold (\<lambda>g full. case full of None \<Rightarrow> None
            | Some f \<Rightarrow> (case dur g of None \<Rightarrow> None | Some d \<Rightarrow> Some (f + d))) (wo_groups w) (Some 0))"

definition price_candidate :: "(oracle_group \<Rightarrow> int option) option \<Rightarrow> work \<Rightarrow> window_estimate \<Rightarrow> window_estimate" where
  "price_candidate baselineDur w est =
     (case workFullPrice w baselineDur of
        None \<Rightarrow> est\<lparr>est_unknown := est_unknown est + 1\<rparr>
      | Some cost \<Rightarrow> est\<lparr>est_full := est_full est + 1, est_projected := est_projected est + cost\<rparr>)"

definition estimateWindow :: "work list \<Rightarrow> (oracle_group \<Rightarrow> int option) option \<Rightarrow> window_estimate" where
  "estimateWindow window baselineDur =
     fold (\<lambda>w est. fold (\<lambda>_ e. price_candidate baselineDur w e) (executingIndexes w) est) window
       \<lparr>est_projected = 0, est_full = 0, est_unknown = 0\<rparr>"

definition windowPrice :: "work list \<Rightarrow> (oracle_group \<Rightarrow> int option) option \<Rightarrow> int \<times> bool" where
  "windowPrice window baselineDur =
     (let est = estimateWindow window baselineDur in (est_projected est, est_unknown est = 0))"

record ready_window =
  rw_window :: "work list"
  rw_cost :: int
  rw_priced :: bool

definition pick_better :: "ready_window list \<Rightarrow> nat \<Rightarrow> nat \<Rightarrow> nat" where
  "pick_better pool i pick =
     (let a = pool ! i; b = pool ! pick in
      if rw_priced a \<noteq> rw_priced b then (if rw_priced a then i else pick)
      else if rw_priced a \<and> rw_cost a < rw_cost b then i
      else pick)"

definition nextReadyWindow :: "ready_window list \<Rightarrow> nat" where
  "nextReadyWindow pool = fold (pick_better pool) [1..<length pool] 0"

definition advanceDone :: "int \<Rightarrow> int \<Rightarrow> int \<Rightarrow> int" where
  "advanceDone base tot cur = (if base + tot > cur then base + tot else cur)"


subsection \<open>Windows partition the run\<close>

lemma gather_more_append: "gather_more c m t e items = (window, rest) \<Longrightarrow> window @ rest = items"
  by (induction c m t e items arbitrary: window rest rule: gather_more.induct)
    (auto split: if_splits prod.splits)

text \<open>The bound a window keeps: before its last work it was still open to another one.\<close>

definition still_open :: "int \<Rightarrow> int \<Rightarrow> int \<Rightarrow> int \<Rightarrow> bool" where
  "still_open ceiling minimum tot executions \<longleftrightarrow>
     tot < ceiling \<and> \<not> (executions \<ge> ExecutionBudget \<and> tot \<ge> minimum)"

lemma gather_more_bound:
  "gather_more c m t e items = (window, rest) \<Longrightarrow>
     (window \<noteq> [] \<longrightarrow> still_open c m (t + sum_list (map size_of (butlast window)))
        (e + sum_list (map executions_of (butlast window)))) \<and>
     (rest \<noteq> [] \<longrightarrow> \<not> still_open c m (t + sum_list (map size_of window))
        (e + sum_list (map executions_of window)))"
proof (induction c m t e items arbitrary: window rest rule: gather_more.induct)
  case (1 c m t e)
  then show ?case by simp
next
  case (2 c m t e w items)
  show ?case
  proof (cases "still_open c m t e")
    case True
    obtain window' where g: "gather_more c m (t + size_of w) (e + executions_of w) items = (window', rest)"
      and window: "window = w # window'"
      using True "2.prems" by (auto simp: still_open_def split: prod.splits)
    show ?thesis
      using "2.IH" [OF _ g] True unfolding window
      by (cases "window' = []") (auto simp: still_open_def algebra_simps)
  next
    case False
    then show ?thesis
      using "2.prems" by (auto simp: still_open_def)
  qed
qed

definition window_bounded :: "int \<Rightarrow> int \<Rightarrow> work list \<Rightarrow> bool" where
  "window_bounded ceiling minimum window \<longleftrightarrow> window \<noteq> [] \<and> (length window > 1 \<longrightarrow>
     still_open ceiling minimum (sum_list (map size_of (butlast window)))
       (sum_list (map executions_of (butlast window))))"

lemma gatherWindow_facts:
  assumes "gatherWindow ceiling minimum items = Some (window, rest)"
  shows "window @ rest = items" "window_bounded ceiling minimum window" "length rest < length items"
proof -
  obtain w rest0 window' where items: "items = w # rest0" and window: "window = w # window'"
    and g: "gather_more ceiling minimum (size_of w) (executions_of w) rest0 = (window', rest)"
    using assms by (auto simp: gatherWindow_def split: list.splits prod.splits)
  show "window @ rest = items" "length rest < length items"
    using gather_more_append [OF g] by (auto simp: items window)
  show "window_bounded ceiling minimum window"
    using gather_more_bound [OF g] by (auto simp: window_bounded_def window)
qed

lemma gatherWindow_none: "gatherWindow ceiling minimum items = None \<longleftrightarrow> items = []"
  by (auto simp: gatherWindow_def split: list.splits prod.splits)

lemma windows_fuel_facts:
  "length items \<le> n \<Longrightarrow> concat (windows_fuel n ceiling minimum items) = items \<and>
     (\<forall>window \<in> set (windows_fuel n ceiling minimum items). window_bounded ceiling minimum window)"
proof (induction n arbitrary: items)
  case 0
  then show ?case by simp
next
  case (Suc n)
  show ?case
  proof (cases "gatherWindow ceiling minimum items")
    case None
    then show ?thesis by (auto simp: gatherWindow_def split: list.splits prod.splits)
  next
    case (Some p)
    obtain window rest where p: "p = (window, rest)" by (cases p)
    note facts = gatherWindow_facts [OF Some [unfolded p]]
    have "length rest \<le> n"
      using facts(3) Suc.prems by simp
    then show ?thesis
      using Suc.IH facts Some p by simp
  qed
qed

text \<open>gathering loses, repeats and reorders no work: the windows of a run, one after the other, are
  the works that arrived, in order; no window is empty; and a window took its last work only while it
  was open, under the candidate ceiling and either under the execution budget or under the minimum.\<close>
theorem windows_partition_the_run:
  "concat (run_windows ceiling minimum items) = items \<and>
     list_all (window_bounded ceiling minimum) (run_windows ceiling minimum items)"
  using windows_fuel_facts [of items "length items"] by (simp add: run_windows_def list_all_iff)

subsection \<open>The next window\<close>

text \<open>Strictly better: a priced window over an unpriced one, a cheaper priced one over a dearer one.\<close>

definition better :: "ready_window \<Rightarrow> ready_window \<Rightarrow> bool" where
  "better a b \<longleftrightarrow> rw_priced a \<and> (rw_priced b \<longrightarrow> rw_cost a < rw_cost b)"

lemma pick_better_alt: "pick_better pool i pick = (if better (pool ! i) (pool ! pick) then i else pick)"
  by (auto simp: pick_better_def better_def Let_def)

lemma better_trans:
  "better a b \<Longrightarrow> \<not> better c b \<Longrightarrow> better a c"
  "better a b \<Longrightarrow> \<not> better b a"
  "better a b \<Longrightarrow> better b c \<Longrightarrow> better a c"
  by (auto simp: better_def)

definition first_best :: "ready_window list \<Rightarrow> nat \<Rightarrow> nat \<Rightarrow> bool" where
  "first_best pool n pick \<longleftrightarrow> pick < n \<and> (\<forall>i < n. \<not> better (pool ! i) (pool ! pick)) \<and>
     (\<forall>i < pick. better (pool ! pick) (pool ! i))"

lemma pick_better_step: "first_best pool n pick \<Longrightarrow> first_best pool (Suc n) (pick_better pool n pick)"
proof (cases "better (pool ! n) (pool ! pick)")
  case True
  assume fb: "first_best pool n pick"
  have "\<not> better (pool ! i) (pool ! n)" if "i < n" for i
    using that fb True better_trans(3) unfolding first_best_def by blast
  moreover have "better (pool ! n) (pool ! i)" if "i < n" for i
    using that fb True better_trans(1) unfolding first_best_def by blast
  ultimately show ?thesis
    using True better_trans(2) by (auto simp: first_best_def pick_better_alt less_Suc_eq)
next
  case False
  assume "first_best pool n pick"
  then show ?thesis
    using False by (auto simp: first_best_def pick_better_alt less_Suc_eq)
qed

lemma fold_pick_better: "n \<ge> 1 \<Longrightarrow> first_best pool n (fold (pick_better pool) [1..<n] 0)"
proof (induction n rule: nat_induct_at_least)
  case base
  then show ?case by (simp add: first_best_def better_def)
next
  case (Suc n)
  then show ?case
    using pick_better_step by simp
qed

text \<open>the window picked from a non-empty pool is the first one that no other beats: no window is
  strictly better (a priced one over an unpriced one, or strictly cheaper), and every earlier window
  is strictly worse, so ties and unpriced windows run in arrival order.\<close>
theorem next_window_is_first_best:
  assumes "pool \<noteq> []"
  shows "nextReadyWindow pool < length pool
    \<and> (\<forall>i < length pool. \<not> better (pool ! i) (pool ! nextReadyWindow pool))
    \<and> (\<forall>i < nextReadyWindow pool. better (pool ! nextReadyWindow pool) (pool ! i))"
  using fold_pick_better [of "length pool" pool] assms
  by (simp add: nextReadyWindow_def first_best_def Suc_le_eq)

lemma next_window_is_first_best_witness:
  "nextReadyWindow [\<lparr>rw_window = [], rw_cost = 0, rw_priced = False\<rparr>, \<lparr>rw_window = [], rw_cost = 7, rw_priced = True\<rparr>,
     \<lparr>rw_window = [], rw_cost = 5, rw_priced = True\<rparr>, \<lparr>rw_window = [], rw_cost = 5, rw_priced = True\<rparr>] = 2
   \<and> nextReadyWindow [\<lparr>rw_window = [], rw_cost = 0, rw_priced = False\<rparr>] < 1"
  using next_window_is_first_best [of "[\<lparr>rw_window = [], rw_cost = 0, rw_priced = False\<rparr>]"]
  by (simp add: nextReadyWindow_def pick_better_def upt_rec)

subsection \<open>Prices\<close>

lemma price_candidates:
  "fold (\<lambda>_ e. price_candidate dur w e) is est =
     (case workFullPrice w dur of
        None \<Rightarrow> est\<lparr>est_unknown := est_unknown est + length is\<rparr>
      | Some cost \<Rightarrow> est\<lparr>est_full := est_full est + length is,
          est_projected := est_projected est + int (length is) * cost\<rparr>)"
  by (induction "is" arbitrary: est) (auto simp: price_candidate_def algebra_simps split: option.splits)

definition executing_count :: "work \<Rightarrow> nat" where
  "executing_count w = length (executingIndexes w)"

lemma estimate_fold:
  "fold (\<lambda>w est. fold (\<lambda>_ e. price_candidate dur w e) (executingIndexes w) est) window est0 =
     \<lparr>est_projected = est_projected est0 + (\<Sum>w\<leftarrow>window. case workFullPrice w dur of None \<Rightarrow> 0
         | Some cost \<Rightarrow> int (executing_count w) * cost),
      est_full = est_full est0 + (\<Sum>w\<leftarrow>window. if workFullPrice w dur = None then 0 else executing_count w),
      est_unknown = est_unknown est0 + (\<Sum>w\<leftarrow>window. if workFullPrice w dur = None then executing_count w else 0)\<rparr>"
  by (induction window arbitrary: est0)
    (auto simp: price_candidates executing_count_def split: option.splits)

text \<open>the estimate of a window sorts every executing candidate into exactly one of the priced and
  the unknown ones; its projected cost is the sum over the priced works of candidates times full
  price; and a window is priced exactly when every work that executes anything is.\<close>
theorem window_estimate_accounts:
  "est_full (estimateWindow window dur) + est_unknown (estimateWindow window dur) = sum_list (map executing_count window)
   \<and> est_projected (estimateWindow window dur) = (\<Sum>w\<leftarrow>window. case workFullPrice w dur of None \<Rightarrow> 0
         | Some cost \<Rightarrow> int (executing_count w) * cost)
   \<and> (snd (windowPrice window dur) \<longleftrightarrow>
        list_all (\<lambda>w. \<not> (executing_count w > 0 \<and> workFullPrice w dur = None)) window)"
proof -
  have "sum_list (map (\<lambda>w. if workFullPrice w dur = None then 0 else executing_count w) window)
      + sum_list (map (\<lambda>w. if workFullPrice w dur = None then executing_count w else 0) window)
      = sum_list (map executing_count window)"
    by (induction window) auto
  then show ?thesis
    by (auto simp: estimateWindow_def windowPrice_def Let_def estimate_fold list_all_iff)
qed

end
