(* ===== verification/Confirm.thy ===== *)
theory Confirm
  imports Schedule
begin

text \<open>
  Serial confirmation of a window's kills (\<open>schedule.go\<close>): the stride gate of each target, the
  walk over the window's kills with its FIFO queue, and the two kinds of evidence that bring
  stride-skipped kills again.
\<close>

subsection \<open>The gate\<close>

record confirmation_gate =
  gt_volatile :: bool
  gt_streak :: nat
  gt_sinceSample :: nat
  gt_flipped :: bool

definition armed :: "confirmation_gate \<Rightarrow> bool" where
  "armed g \<longleftrightarrow> gt_volatile g \<or> gt_flipped g \<or> gt_streak g < ConfirmStreak"

definition confirmNow :: "confirmation_gate \<Rightarrow> bool \<times> confirmation_gate" where
  "confirmNow g =
     (if armed g then (True, g)
      else let n = gt_sinceSample g + 1 in
        if n \<ge> ConfirmStride then (True, g\<lparr>gt_sinceSample := 0\<rparr>)
        else (False, g\<lparr>gt_sinceSample := n\<rparr>))"

datatype confirm_outcome = Reproduced | Flipped | Inconclusive

definition observe :: "confirm_outcome \<Rightarrow> confirmation_gate \<Rightarrow> bool \<times> confirmation_gate" where
  "observe result g =
     (case result of
        Reproduced \<Rightarrow> (False, g\<lparr>gt_streak := gt_streak g + 1\<rparr>)
      | Inconclusive \<Rightarrow> (False, g)
      | Flipped \<Rightarrow> (\<not> gt_flipped g, g\<lparr>gt_flipped := True\<rparr>))"

definition classifyConfirmation :: "outcome \<Rightarrow> string \<Rightarrow> confirm_outcome" where
  "classifyConfirmation result killer =
     (if result = MutantKilled \<and> killer = TimeoutKiller then Inconclusive
      else if result = MutantKilled then Reproduced
      else if result = MutantDiscarded then Inconclusive
      else Flipped)"

subsection \<open>The walk\<close>

record window_kill =
  wk_target :: nat
  wk_mi :: nat

text \<open>
  The walk's variables, and the trace of confirmations it makes: the kill, the mode label the gate
  stated, and the outcome.
\<close>

record walk =
  wl_gates :: "nat \<Rightarrow> confirmation_gate option"
  wl_flipped :: bool
  wl_skipped :: "window_kill list"
  wl_trace :: "(window_kill \<times> string \<times> confirm_outcome) list"

definition gateFor :: "(nat \<Rightarrow> bool) \<Rightarrow> nat \<Rightarrow> walk \<Rightarrow> confirmation_gate" where
  "gateFor volatile target st =
     (case wl_gates st target of
        Some g \<Rightarrow> g
      | None \<Rightarrow> \<lparr>gt_volatile = volatile target, gt_streak = 0, gt_sinceSample = 0, gt_flipped = wl_flipped st\<rparr>)"

definition set_gate :: "nat \<Rightarrow> confirmation_gate \<Rightarrow> walk \<Rightarrow> walk" where
  "set_gate target g st = st\<lparr>wl_gates := (wl_gates st)(target \<mapsto> g)\<rparr>"

definition mode_label :: "confirmation_gate \<Rightarrow> string" where
  "mode_label g = (if armed g then ''serial-full'' else ''stride-sampled'')"

definition takeSkips :: "nat \<Rightarrow> bool \<Rightarrow> walk \<Rightarrow> window_kill list \<times> walk" where
  "takeSkips target all st =
     (filter (\<lambda>k. all \<or> wk_target k = target) (wl_skipped st),
      st\<lparr>wl_skipped := filter (\<lambda>k. \<not> (all \<or> wk_target k = target)) (wl_skipped st)\<rparr>)"

text \<open>What one confirmation does to the walk: the two kinds of evidence and the skips they bring back.\<close>

definition confirmed :: "(nat \<Rightarrow> bool) \<Rightarrow> (window_kill \<Rightarrow> bool) \<Rightarrow> window_kill \<Rightarrow> confirm_outcome \<Rightarrow> walk \<Rightarrow>
    window_kill list \<times> walk" where
  "confirmed volatile unverifiable k result st0 =
     (let g = gateFor volatile (wk_target k) st0;
          st1 = st0\<lparr>wl_trace := wl_trace st0 @ [(k, mode_label g, result)]\<rparr>;
          withdrawn = (\<not> gt_volatile g \<and> unverifiable k);
          g1 = (if withdrawn then g\<lparr>gt_volatile := True\<rparr> else g);
          (own, st2) = (if withdrawn then takeSkips (wk_target k) False st1 else ([], st1));
          (retroactive, g2) = observe result g1;
          st3 = set_gate (wk_target k) g2 st2;
          (all, st4) = (if retroactive \<and> \<not> wl_flipped st3
            then takeSkips 0 True (st3\<lparr>wl_flipped := True\<rparr>) else ([], st3)) in
      (own @ all, st4))"

lemma length_filter_split: "length (filter P xs) + length (filter (\<lambda>x. \<not> P x) xs) = length xs"
  by (induction xs) auto

lemma confirmed_length:
  assumes "confirmed volatile unverifiable k result st = (again, st')"
  shows "length again + length (wl_skipped st') = length (wl_skipped st)"
  using assms length_filter_split [of "\<lambda>x. wk_target x = wk_target k" "wl_skipped st"]
  by (auto simp: confirmed_def Let_def takeSkips_def set_gate_def split: prod.splits if_splits)

function drain :: "(nat \<Rightarrow> bool) \<Rightarrow> (window_kill \<Rightarrow> string \<Rightarrow> 'e + confirm_outcome) \<Rightarrow> (window_kill \<Rightarrow> bool) \<Rightarrow>
    window_kill list \<Rightarrow> walk \<Rightarrow> 'e + walk" where
  "drain volatile confirm unverifiable [] st = Inr st"
| "drain volatile confirm unverifiable (k # queue) st =
     (case confirm k (mode_label (gateFor volatile (wk_target k) st)) of
        Inl e \<Rightarrow> Inl e
      | Inr result \<Rightarrow>
          (case confirmed volatile unverifiable k result st of
             (again, st') \<Rightarrow> drain volatile confirm unverifiable (queue @ again) st'))"
  by pat_completeness auto
termination
proof (relation "measure (\<lambda>(v, c, u, queue, st). length queue + length (wl_skipped st))")
  fix volatile unverifiable k queue st result again st'
  fix confirm :: "window_kill \<Rightarrow> string \<Rightarrow> 'e + confirm_outcome"
  assume "(again, st') = confirmed volatile unverifiable k result st"
  then have "length again + length (wl_skipped st') = length (wl_skipped st)"
    using confirmed_length by metis
  then show "((volatile, confirm, unverifiable, queue @ again, st'), volatile, confirm, unverifiable, k # queue, st)
      \<in> measure (\<lambda>(v, c, u, queue, st). length queue + length (wl_skipped st))"
    by simp
qed simp

fun walk_kills :: "(nat \<Rightarrow> bool) \<Rightarrow> (window_kill \<Rightarrow> string \<Rightarrow> 'e + confirm_outcome) \<Rightarrow> (window_kill \<Rightarrow> bool) \<Rightarrow>
    window_kill list \<Rightarrow> walk \<Rightarrow> 'e + walk" where
  "walk_kills volatile confirm unverifiable [] st = Inr st"
| "walk_kills volatile confirm unverifiable (k # kills) st =
     (let (now, g) = confirmNow (gateFor volatile (wk_target k) st);
          st1 = set_gate (wk_target k) g st in
      if \<not> now then walk_kills volatile confirm unverifiable kills (st1\<lparr>wl_skipped := wl_skipped st1 @ [k]\<rparr>)
      else case drain volatile confirm unverifiable [k] st1 of
        Inl e \<Rightarrow> Inl e
      | Inr st2 \<Rightarrow> walk_kills volatile confirm unverifiable kills st2)"

definition start_walk :: walk where
  "start_walk = \<lparr>wl_gates = (\<lambda>_. None), wl_flipped = False, wl_skipped = [], wl_trace = []\<rparr>"

definition confirmWindowKills :: "(nat \<Rightarrow> bool) \<Rightarrow> (window_kill \<Rightarrow> string \<Rightarrow> 'e + confirm_outcome) \<Rightarrow>
    (window_kill \<Rightarrow> bool) \<Rightarrow> window_kill list \<Rightarrow> 'e + walk" where
  "confirmWindowKills volatile confirm unverifiable kills =
     walk_kills volatile confirm unverifiable kills start_walk"


subsection \<open>One confirmation\<close>

lemma confirmed_trace:
  "confirmed v u k r st = (again, st') \<Longrightarrow>
     wl_trace st' = wl_trace st @ [(k, mode_label (gateFor v (wk_target k) st), r)]"
  by (auto simp: confirmed_def Let_def takeSkips_def set_gate_def split: prod.splits if_splits)

definition after_gate :: "(window_kill \<Rightarrow> bool) \<Rightarrow> window_kill \<Rightarrow> confirm_outcome \<Rightarrow> confirmation_gate \<Rightarrow> confirmation_gate" where
  "after_gate u k r g = snd (observe r (if \<not> gt_volatile g \<and> u k then g\<lparr>gt_volatile := True\<rparr> else g))"

lemma after_gate_simps [simp]:
  "gt_volatile (after_gate u k r g) = (gt_volatile g \<or> u k)"
  "gt_flipped (after_gate u k r g) = (gt_flipped g \<or> r = Flipped)"
  "gt_streak (after_gate u k r g) = gt_streak g + (if r = Reproduced then 1 else 0)"
  by (auto simp: after_gate_def observe_def split: confirm_outcome.split)

lemma confirmed_gates:
  "confirmed v u k r st = (again, st') \<Longrightarrow>
     wl_gates st' = (wl_gates st)(wk_target k \<mapsto> after_gate u k r (gateFor v (wk_target k) st))"
  by (auto simp: confirmed_def Let_def takeSkips_def set_gate_def after_gate_def split: prod.splits if_splits)

lemma confirmed_flipped:
  "confirmed v u k r st = (again, st') \<Longrightarrow>
     wl_flipped st' = (wl_flipped st \<or> r = Flipped \<and> \<not> gt_flipped (gateFor v (wk_target k) st))"
  by (cases r)
    (auto simp: confirmed_def Let_def takeSkips_def set_gate_def observe_def split: prod.splits if_splits)

lemma confirmed_mset:
  assumes "confirmed v u k r st = (again, st')"
  shows "mset again + mset (wl_skipped st') = mset (wl_skipped st)"
  using assms
  by (auto simp: confirmed_def Let_def takeSkips_def set_gate_def mset_filter multiset_partition [symmetric]
      split: prod.splits if_splits)

lemma confirmed_again_own:
  "confirmed v u k r st = (again, st') \<Longrightarrow> x \<in> set again \<Longrightarrow> \<not> wl_flipped st' \<Longrightarrow> wk_target x = wk_target k"
  by (auto simp: confirmed_def Let_def takeSkips_def set_gate_def split: prod.splits if_splits)

lemma confirmed_flip_takes_all:
  "confirmed v u k r st = (again, st') \<Longrightarrow> wl_flipped st' \<Longrightarrow> \<not> wl_flipped st \<Longrightarrow> wl_skipped st' = []"
  by (auto simp: confirmed_def Let_def takeSkips_def set_gate_def split: prod.splits if_splits)

lemma confirmed_withdrawn:
  "confirmed v u k r st = (again, st') \<Longrightarrow> x \<in> set (wl_skipped st') \<Longrightarrow> wk_target x = wk_target k \<Longrightarrow>
     u k \<Longrightarrow> gt_volatile (gateFor v (wk_target k) st)"
  by (auto simp: confirmed_def Let_def takeSkips_def set_gate_def split: prod.splits if_splits)

lemma confirmed_skipped_subset:
  assumes "confirmed v u k r st = (again, st')"
  shows "set again \<subseteq> set (wl_skipped st)" "set (wl_skipped st') \<subseteq> set (wl_skipped st)"
  using confirmed_mset [OF assms, THEN arg_cong, of set_mset] by auto

lemmas confirmed_facts = confirmed_trace confirmed_gates confirmed_flipped

lemma set_gate_simps [simp]:
  "wl_gates (set_gate t g st) = (wl_gates st)(t \<mapsto> g)"
  "wl_flipped (set_gate t g st) = wl_flipped st"
  "wl_skipped (set_gate t g st) = wl_skipped st"
  "wl_trace (set_gate t g st) = wl_trace st"
  by (simp_all add: set_gate_def)

lemma drain_Cons_cases:
  assumes "drain v c u (k # queue) st = Inr st'"
  obtains r again st1 where "c k (mode_label (gateFor v (wk_target k) st)) = Inr r"
    and "confirmed v u k r st = (again, st1)" and "drain v c u (queue @ again) st1 = Inr st'"
  using assms by (auto split: sum.splits prod.splits)

lemma walk_kills_Cons_cases:
  assumes "walk_kills v c u (k # kills) st = Inr st'"
  obtains (confirms) g st2 where "confirmNow (gateFor v (wk_target k) st) = (True, g)"
      and "drain v c u [k] (set_gate (wk_target k) g st) = Inr st2" and "walk_kills v c u kills st2 = Inr st'"
  | (skips) g where "confirmNow (gateFor v (wk_target k) st) = (False, g)"
      and "walk_kills v c u kills (set_gate (wk_target k) g st\<lparr>wl_skipped := wl_skipped st @ [k]\<rparr>) = Inr st'"
proof (cases "confirmNow (gateFor v (wk_target k) st)")
  case (Pair now g)
  show ?thesis
  proof (cases now)
    case True
    show ?thesis
      using assms Pair True confirms [of g] by (auto simp: Let_def simp del: drain.simps split: sum.splits)
  next
    case False
    then show ?thesis
      using assms Pair skips [of g] by (simp add: Let_def)
  qed
qed

subsection \<open>Every kill is confirmed once or skipped once\<close>

lemma drain_mset:
  "drain v c u queue st = Inr st' \<Longrightarrow>
     mset (map fst (wl_trace st')) + mset (wl_skipped st')
       = mset (map fst (wl_trace st)) + mset (wl_skipped st) + mset queue"
proof (induction v c u queue st rule: drain.induct)
  case (1 v c u st)
  then show ?case by simp
next
  case (2 v c u k queue st)
  show ?case
  proof (rule drain_Cons_cases [OF "2.prems"])
    fix r again st1
    assume r: "c k (mode_label (gateFor v (wk_target k) st)) = Inr r"
      and step: "confirmed v u k r st = (again, st1)" and rest: "drain v c u (queue @ again) st1 = Inr st'"
    have "mset (map fst (wl_trace st')) + mset (wl_skipped st')
        = mset (map fst (wl_trace st1)) + mset (wl_skipped st1) + mset (queue @ again)"
      by (rule "2.IH" [OF r step [symmetric] rest])
    moreover have "mset (map fst (wl_trace st1)) = mset (map fst (wl_trace st)) + {#k#}"
      using confirmed_trace [OF step] by simp
    moreover have "mset again + mset (wl_skipped st1) = mset (wl_skipped st)"
      by (rule confirmed_mset [OF step])
    ultimately show ?thesis by (simp add: ac_simps)
  qed
qed

lemma walk_kills_mset:
  "walk_kills v c u kills st = Inr st' \<Longrightarrow>
     mset (map fst (wl_trace st')) + mset (wl_skipped st')
       = mset (map fst (wl_trace st)) + mset (wl_skipped st) + mset kills"
proof (induction kills arbitrary: st)
  case Nil
  then show ?case by simp
next
  case (Cons k kills)
  from Cons.prems show ?case
  proof (cases rule: walk_kills_Cons_cases)
    case (confirms g st2)
    show ?thesis
      using Cons.IH [OF confirms(3)] drain_mset [OF confirms(2)] by (simp add: ac_simps)
  next
    case (skips g)
    show ?thesis
      using Cons.IH [OF skips(2)] by (simp add: ac_simps)
  qed
qed

subsection \<open>The walk's invariant\<close>

definition reproductions :: "nat \<Rightarrow> walk \<Rightarrow> nat" where
  "reproductions t st = length (filter (\<lambda>(k, _, r). wk_target k = t \<and> r = Reproduced) (wl_trace st))"

definition gate_ok :: "(nat \<Rightarrow> bool) \<Rightarrow> (window_kill \<Rightarrow> bool) \<Rightarrow> walk \<Rightarrow> nat \<Rightarrow> confirmation_gate \<Rightarrow> bool" where
  "gate_ok v u st t g \<longleftrightarrow>
     (gt_flipped g \<longrightarrow> wl_flipped st) \<and> gt_streak g \<le> reproductions t st \<and>
     (\<not> gt_volatile g \<longrightarrow> \<not> v t \<and> (\<forall>(k, _, _) \<in> set (wl_trace st). wk_target k = t \<longrightarrow> \<not> u k))"

definition skip_ok :: "walk \<Rightarrow> window_kill \<Rightarrow> bool" where
  "skip_ok st x \<longleftrightarrow>
     (\<exists>g. wl_gates st (wk_target x) = Some g \<and> \<not> gt_volatile g \<and> ConfirmStreak \<le> gt_streak g)"

definition walk_ok :: "(nat \<Rightarrow> bool) \<Rightarrow> (window_kill \<Rightarrow> bool) \<Rightarrow> walk \<Rightarrow> bool" where
  "walk_ok v u st \<longleftrightarrow>
     (\<forall>t. gate_ok v u st t (gateFor v t st)) \<and> (\<forall>x \<in> set (wl_skipped st). skip_ok st x) \<and>
     (wl_flipped st \<longrightarrow> wl_skipped st = []) \<and>
     ((\<exists>(_, _, r) \<in> set (wl_trace st). r = Flipped) \<longrightarrow> wl_flipped st)"

text \<open>What target order adds: no gate is ahead of the walk, and after a flip the current gate is armed.\<close>

definition at_target :: "nat \<Rightarrow> walk \<Rightarrow> bool" where
  "at_target cur st \<longleftrightarrow>
     dom (wl_gates st) \<subseteq> {..cur} \<and> (\<forall>x \<in> set (wl_skipped st). wk_target x \<le> cur) \<and>
     (wl_flipped st \<longrightarrow> (\<forall>g. wl_gates st cur = Some g \<longrightarrow> gt_flipped g))"

definition queue_ok :: "nat \<Rightarrow> walk \<Rightarrow> window_kill list \<Rightarrow> bool" where
  "queue_ok cur st queue \<longleftrightarrow>
     (\<forall>k \<in> set queue. wk_target k \<le> cur \<and> (\<not> wl_flipped st \<longrightarrow> wk_target k = cur))"

lemma gateFor_after:
  "confirmed v u k r st = (again, st') \<Longrightarrow> gateFor v t st' =
     (if t = wk_target k then after_gate u k r (gateFor v t st)
      else if wl_gates st t = None then (gateFor v t st)\<lparr>gt_flipped := wl_flipped st'\<rparr> else gateFor v t st)"
  by (simp add: gateFor_def confirmed_gates split: option.split)


lemma reproductions_after:
  "confirmed v u k r st = (again, st') \<Longrightarrow>
     reproductions t st' = reproductions t st + (if wk_target k = t \<and> r = Reproduced then 1 else 0)"
  by (simp add: reproductions_def confirmed_trace)

lemma confirmed_gate_ok:
  assumes step: "confirmed v u k r st = (again, st')" and ok: "walk_ok v u st"
  shows "gate_ok v u st' t (gateFor v t st')"
proof -
  have g: "gate_ok v u st t (gateFor v t st)" and k: "gate_ok v u st (wk_target k) (gateFor v (wk_target k) st)"
    using ok by (simp_all add: walk_ok_def)
  have flip: "wl_flipped st' = (wl_flipped st \<or> r = Flipped)"
    using confirmed_flipped [OF step] k by (auto simp: gate_ok_def)
  show ?thesis
  proof (cases "t = wk_target k")
    case True
    then show ?thesis
      using g flip by (auto simp: gate_ok_def gateFor_after [OF step] reproductions_after [OF step] confirmed_trace [OF step])
  next
    case False
    then show ?thesis
      using g flip by (auto simp: gate_ok_def gateFor_after [OF step] reproductions_after [OF step] confirmed_trace [OF step])
  qed
qed

lemma confirmed_skip_ok:
  assumes step: "confirmed v u k r st = (again, st')" and ok: "walk_ok v u st" and x: "x \<in> set (wl_skipped st')"
  shows "skip_ok st' x"
proof -
  have "skip_ok st x"
    using ok x confirmed_skipped_subset(2) [OF step] by (auto simp: walk_ok_def)
  then obtain g where g: "wl_gates st (wk_target x) = Some g" "\<not> gt_volatile g" "ConfirmStreak \<le> gt_streak g"
    by (auto simp: skip_ok_def)
  show ?thesis
  proof (cases "wk_target x = wk_target k")
    case True
    then have "gateFor v (wk_target k) st = g" "\<not> u k"
      using g confirmed_withdrawn [OF step x] by (auto simp: gateFor_def)
    then show ?thesis
      using g True by (simp add: skip_ok_def confirmed_gates [OF step])
  next
    case False
    then show ?thesis
      using g by (simp add: skip_ok_def confirmed_gates [OF step])
  qed
qed

lemma confirmed_walk_ok:
  assumes step: "confirmed v u k r st = (again, st')" and ok: "walk_ok v u st"
  shows "walk_ok v u st'"
  unfolding walk_ok_def
proof (intro conjI)
  show "\<forall>t. gate_ok v u st' t (gateFor v t st')"
    using confirmed_gate_ok [OF step ok] by simp
  show "\<forall>x\<in>set (wl_skipped st'). skip_ok st' x"
    using confirmed_skip_ok [OF step ok] by simp
  show "wl_flipped st' \<longrightarrow> wl_skipped st' = []"
    using confirmed_flip_takes_all [OF step] confirmed_skipped_subset(2) [OF step] ok
    by (cases "wl_flipped st") (auto simp: walk_ok_def)
  have "gate_ok v u st (wk_target k) (gateFor v (wk_target k) st)"
    using ok by (simp add: walk_ok_def)
  then show "(\<exists>(_, _, r)\<in>set (wl_trace st'). r = Flipped) \<longrightarrow> wl_flipped st'"
    using ok by (auto simp: walk_ok_def gate_ok_def confirmed_trace [OF step] confirmed_flipped [OF step])
qed

lemma gateFor_flipped: "at_target cur st \<Longrightarrow> wl_flipped st \<Longrightarrow> gt_flipped (gateFor v cur st)"
  by (auto simp: at_target_def gateFor_def split: option.split)

lemma confirmed_at_target:
  assumes step: "confirmed v u k r st = (again, st')" and at: "at_target cur st" and q: "queue_ok cur st (k # queue)"
  shows "at_target cur st'" "queue_ok cur st' (queue @ again)"
proof -
  have k: "wk_target k \<le> cur" "\<not> wl_flipped st \<Longrightarrow> wk_target k = cur"
    using q by (auto simp: queue_ok_def)
  have flip: "wl_flipped st \<Longrightarrow> wl_flipped st'"
    by (simp add: confirmed_flipped [OF step])
  have "gt_flipped g" if "wl_flipped st'" "wl_gates st' cur = Some g" for g
  proof (cases "wk_target k = cur")
    case True
    then have "g = after_gate u k r (gateFor v cur st)"
      using that by (simp add: confirmed_gates [OF step])
    then show ?thesis
      using that(1) gateFor_flipped [OF at, of v] by (auto simp: confirmed_flipped [OF step])
  next
    case False
    then show ?thesis
      using that at k by (auto simp: confirmed_gates [OF step] at_target_def)
  qed
  moreover have "dom (wl_gates st') \<subseteq> {..cur}" "\<forall>x \<in> set (wl_skipped st'). wk_target x \<le> cur"
    using at k(1) confirmed_skipped_subset(2) [OF step]
    by (auto simp: at_target_def confirmed_gates [OF step])
  ultimately show "at_target cur st'"
    by (simp add: at_target_def)
  have "wk_target x \<le> cur" if "x \<in> set again" for x
    using at that confirmed_skipped_subset(1) [OF step] by (auto simp: at_target_def)
  then show "queue_ok cur st' (queue @ again)"
    using q k flip confirmed_again_own [OF step] by (auto simp: queue_ok_def)
qed

lemma drain_invariant:
  "drain v c u queue st = Inr st' \<Longrightarrow> walk_ok v u st \<Longrightarrow> at_target cur st \<Longrightarrow> queue_ok cur st queue \<Longrightarrow>
     walk_ok v u st' \<and> at_target cur st'"
proof (induction v c u queue st rule: drain.induct)
  case (1 v c u st)
  then show ?case by simp
next
  case (2 v c u k queue st)
  show ?case
  proof (rule drain_Cons_cases [OF "2.prems"(1)])
    fix r again st1
    assume r: "c k (mode_label (gateFor v (wk_target k) st)) = Inr r"
      and step: "confirmed v u k r st = (again, st1)" and rest: "drain v c u (queue @ again) st1 = Inr st'"
    show ?thesis
      by (rule "2.IH" [OF r step [symmetric] rest confirmed_walk_ok [OF step "2.prems"(2)]
          confirmed_at_target [OF step "2.prems"(3,4)]])
  qed
qed


lemma confirmNow_gate:
  assumes "confirmNow g = (now, g')"
  shows "gt_volatile g' = gt_volatile g" "gt_streak g' = gt_streak g" "gt_flipped g' = gt_flipped g"
    and "\<not> now \<Longrightarrow> \<not> armed g"
  using assms by (auto simp: confirmNow_def Let_def split: if_splits)

lemma set_gate_walk_ok:
  assumes ok: "walk_ok v u st" and now: "confirmNow (gateFor v t st) = (now, g)"
  shows "walk_ok v u (set_gate t g st)"
proof -
  have "gateFor v t' (set_gate t g st) = (if t' = t then g else gateFor v t' st)" for t'
    by (simp add: gateFor_def split: option.split)
  moreover have "gate_ok v u (set_gate t g st) t' h = gate_ok v u st t' h" for t' h
    by (simp add: gate_ok_def reproductions_def)
  moreover have "gate_ok v u st t g"
    using ok confirmNow_gate [OF now] by (simp add: walk_ok_def gate_ok_def)
  moreover have "skip_ok (set_gate t g st) x" if "skip_ok st x" for x
    using that confirmNow_gate [OF now] by (auto simp: skip_ok_def gateFor_def)
  ultimately show ?thesis
    using ok by (simp add: walk_ok_def)
qed

lemma set_gate_at_target:
  assumes at: "at_target t st" and now: "confirmNow (gateFor v t st) = (now, g)"
  shows "at_target t (set_gate t g st)"
  using at gateFor_flipped [OF at, of v] confirmNow_gate [OF now] by (auto simp: at_target_def)

lemma at_target_advance: "at_target cur st \<Longrightarrow> cur \<le> t \<Longrightarrow> at_target t st"
  by (cases "cur = t") (auto simp: at_target_def)

lemma skip_walk_ok:
  assumes ok: "walk_ok v u st" and at: "at_target (wk_target k) st"
    and now: "confirmNow (gateFor v (wk_target k) st) = (False, g)"
  shows "walk_ok v u (set_gate (wk_target k) g st\<lparr>wl_skipped := wl_skipped st @ [k]\<rparr>)"
proof -
  let ?st = "set_gate (wk_target k) g st"
  have ok': "walk_ok v u ?st"
    by (rule set_gate_walk_ok [OF ok now])
  have g: "\<not> gt_volatile g" "\<not> gt_flipped g" "ConfirmStreak \<le> gt_streak g"
    using confirmNow_gate [OF now] by (auto simp: armed_def)
  have "\<not> wl_flipped st"
    using gateFor_flipped [OF at, of v] confirmNow_gate [OF now] by (auto simp: armed_def)
  moreover have "gateFor v t (?st\<lparr>wl_skipped := xs\<rparr>) = gateFor v t ?st" for t xs
    by (simp add: gateFor_def split: option.split)
  moreover have "gate_ok v u (?st\<lparr>wl_skipped := xs\<rparr>) t h = gate_ok v u ?st t h" for t h xs
    by (simp add: gate_ok_def reproductions_def)
  moreover have "skip_ok (?st\<lparr>wl_skipped := xs\<rparr>) x = skip_ok ?st x" for x xs
    by (simp add: skip_ok_def)
  moreover have "skip_ok ?st k"
    using g by (simp add: skip_ok_def)
  ultimately show ?thesis
    using ok' by (simp add: walk_ok_def)
qed

lemma walk_kills_invariant:
  "walk_kills v c u kills st = Inr st' \<Longrightarrow> walk_ok v u st \<Longrightarrow> at_target cur st \<Longrightarrow>
     sorted (cur # map wk_target kills) \<Longrightarrow> walk_ok v u st'"
proof (induction kills arbitrary: st cur)
  case Nil
  then show ?case by simp
next
  case (Cons k kills)
  have at: "at_target (wk_target k) st" and sorted: "sorted (wk_target k # map wk_target kills)"
    using Cons.prems(3,4) by (auto intro: at_target_advance)
  from Cons.prems(1) show ?case
  proof (cases rule: walk_kills_Cons_cases)
    case (confirms g st2)
    have "queue_ok (wk_target k) (set_gate (wk_target k) g st) [k]"
      by (simp add: queue_ok_def)
    then have "walk_ok v u st2 \<and> at_target (wk_target k) st2"
      using drain_invariant [OF confirms(2)] set_gate_walk_ok [OF Cons.prems(2) confirms(1)]
        set_gate_at_target [OF at confirms(1)] by blast
    then show ?thesis
      using Cons.IH [OF confirms(3)] sorted by blast
  next
    case (skips g)
    have "at_target (wk_target k) (set_gate (wk_target k) g st\<lparr>wl_skipped := wl_skipped st @ [k]\<rparr>)"
      using set_gate_at_target [OF at skips(1)] by (auto simp: at_target_def)
    then show ?thesis
      using Cons.IH [OF skips(2) skip_walk_ok [OF Cons.prems(2) at skips(1)]] sorted by blast
  qed
qed

lemma start_walk_ok: "walk_ok v u start_walk" "at_target 0 start_walk"
  by (simp_all add: walk_ok_def gate_ok_def gateFor_def start_walk_def at_target_def)

lemma walk_conserves:
  assumes "confirmWindowKills volatile confirm unverifiable kills = Inr st"
  shows "mset (map fst (wl_trace st)) + mset (wl_skipped st) = mset kills"
  using walk_kills_mset [OF assms [unfolded confirmWindowKills_def]] by (simp add: start_walk_def)

lemma flip_confirms:
  assumes "confirmWindowKills volatile confirm unverifiable kills = Inr st"
    and "sorted (map wk_target kills)" and "(k, label, Flipped) \<in> set (wl_trace st)"
  shows "wl_skipped st = [] \<and> mset (map fst (wl_trace st)) = mset kills"
proof -
  have walk: "walk_kills volatile confirm unverifiable kills start_walk = Inr st"
    using assms(1) by (simp add: confirmWindowKills_def)
  have "walk_ok volatile unverifiable st"
    using walk_kills_invariant [OF walk start_walk_ok] assms(2) by simp
  then have "wl_skipped st = []"
    using assms(3) by (force simp: walk_ok_def)
  then show ?thesis
    using walk_kills_mset [OF walk] by (simp add: start_walk_def)
qed

lemma skips_earned:
  assumes "confirmWindowKills volatile confirm unverifiable kills = Inr st"
    and "sorted (map wk_target kills)" and "x \<in> set (wl_skipped st)"
  shows "\<not> volatile (wk_target x) \<and> ConfirmStreak \<le> reproductions (wk_target x) st
    \<and> (\<forall>(k, _, r) \<in> set (wl_trace st). wk_target k = wk_target x \<longrightarrow> \<not> unverifiable k \<and> r \<noteq> Flipped)"
proof -
  have ok: "walk_ok volatile unverifiable st"
    using walk_kills_invariant [OF assms(1) [unfolded confirmWindowKills_def] start_walk_ok] assms(2) by simp
  then have "skip_ok st x"
    using assms(3) by (simp add: walk_ok_def)
  then obtain g where g: "wl_gates st (wk_target x) = Some g" "\<not> gt_volatile g" "ConfirmStreak \<le> gt_streak g"
    by (auto simp: skip_ok_def)
  then have "gate_ok volatile unverifiable st (wk_target x) g"
    using ok by (auto simp: walk_ok_def gateFor_def dest: spec [of _ "wk_target x"])
  moreover have "\<not> wl_flipped st"
    using ok assms(3) by (auto simp: walk_ok_def)
  ultimately show ?thesis
    using ok g by (fastforce simp: walk_ok_def gate_ok_def)
qed

subsection \<open>Properties\<close>

text \<open>when the confirmation of a window returns without an error, every kill of the window was
  either confirmed serially exactly once or is left stride-skipped exactly once: no kill is lost
  between the queue and the skip list and none is confirmed twice, whatever order the evidence
  arrives in.\<close>
theorem confirmation_conserves:
  assumes "confirmWindowKills volatile confirm unverifiable kills = Inr st"
  shows "mset (map fst (wl_trace st)) + mset (wl_skipped st) = mset kills"
  by (rule walk_conserves [OF assms])

definition kill_at :: "nat \<Rightarrow> nat \<Rightarrow> window_kill" where
  "kill_at t i = \<lparr>wk_target = t, wk_mi = i\<rparr>"

definition sample_kills :: "window_kill list" where
  "sample_kills = map (kill_at 0) [0, 1, 2, 3, 4, 5] @ map (kill_at 1) [0]"

definition sample_confirm :: "window_kill \<Rightarrow> string \<Rightarrow> string + confirm_outcome" where
  "sample_confirm k label = Inr (if wk_target k = 1 then Flipped else Reproduced)"

lemma confirmation_conserves_witness:
  "(case confirmWindowKills (\<lambda>_. False) sample_confirm (\<lambda>_. False) (take 6 sample_kills) of
      Inr st \<Rightarrow> mset (map fst (wl_trace st)) + mset (wl_skipped st) = mset (take 6 sample_kills)
        \<and> wl_skipped st = [kill_at 0 3, kill_at 0 4, kill_at 0 5]
    | Inl _ \<Rightarrow> False)"
proof -
  obtain st where st: "confirmWindowKills (\<lambda>_. False) sample_confirm (\<lambda>_. False) (take 6 sample_kills) = Inr st"
    "wl_skipped st = [kill_at 0 3, kill_at 0 4, kill_at 0 5]"
    by (simp add: confirmWindowKills_def sample_kills_def sample_confirm_def kill_at_def start_walk_def
        gateFor_def set_gate_def confirmNow_def armed_def confirmed_def takeSkips_def observe_def
        window_consts mode_label_def)
  then show ?thesis
    using confirmation_conserves [OF st(1)] by simp
qed


text \<open>when the kills of a window come in target order and any serial confirmation demonstrates a
  collision, no kill of the whole window stays stride-skipped: every one of them was confirmed
  serially, once.\<close>
theorem flip_confirms_the_window:
  assumes "confirmWindowKills volatile confirm unverifiable kills = Inr st"
    and "sorted (map wk_target kills)" and "(k, label, Flipped) \<in> set (wl_trace st)"
  shows "wl_skipped st = [] \<and> mset (map fst (wl_trace st)) = mset kills"
  by (rule flip_confirms [OF assms])

lemmas confirm_eval = confirmWindowKills_def sample_kills_def sample_confirm_def kill_at_def start_walk_def
  gateFor_def set_gate_def confirmNow_def armed_def confirmed_def takeSkips_def observe_def window_consts
  mode_label_def

lemma flip_confirms_the_window_witness:
  "(case confirmWindowKills (\<lambda>_. False) sample_confirm (\<lambda>_. False) sample_kills of
      Inr st \<Rightarrow> wl_skipped st = [] \<and> mset (map fst (wl_trace st)) = mset sample_kills
        \<and> map fst (wl_trace st) = map (kill_at 0) [0, 1, 2] @ [kill_at 1 0] @ map (kill_at 0) [3, 4, 5]
    | Inl _ \<Rightarrow> False)"
proof -
  obtain st where st: "confirmWindowKills (\<lambda>_. False) sample_confirm (\<lambda>_. False) sample_kills = Inr st"
    "(kill_at 1 0, ''serial-full'', Flipped) \<in> set (wl_trace st)"
    "map fst (wl_trace st) = map (kill_at 0) [0, 1, 2] @ [kill_at 1 0] @ map (kill_at 0) [3, 4, 5]"
    by (simp add: confirm_eval)
  then show ?thesis
    using flip_confirms_the_window [OF st(1) _ st(2)] by (simp add: sample_kills_def kill_at_def)
qed

text \<open>a kill that stays stride-skipped has earned it: its target's evidence is not volatile, no
  serial confirmation of its target came back unverifiable or demonstrated a collision, and at least
  ConfirmStreak kills of the same target were reproduced serially.\<close>
theorem skipped_kills_are_earned:
  assumes "confirmWindowKills volatile confirm unverifiable kills = Inr st"
    and "sorted (map wk_target kills)" and "x \<in> set (wl_skipped st)"
  shows "\<not> volatile (wk_target x) \<and> ConfirmStreak \<le> reproductions (wk_target x) st
    \<and> (\<forall>(k, _, r) \<in> set (wl_trace st). wk_target k = wk_target x \<longrightarrow> \<not> unverifiable k \<and> r \<noteq> Flipped)"
  by (rule skips_earned [OF assms])

lemma skipped_kills_are_earned_witness:
  "\<exists>st. confirmWindowKills (\<lambda>_. False) sample_confirm (\<lambda>_. False) (take 6 sample_kills) = Inr st
     \<and> kill_at 0 5 \<in> set (wl_skipped st) \<and> ConfirmStreak \<le> reproductions 0 st"
proof -
  obtain st where st: "confirmWindowKills (\<lambda>_. False) sample_confirm (\<lambda>_. False) (take 6 sample_kills) = Inr st"
    "kill_at 0 5 \<in> set (wl_skipped st)"
    by (simp add: confirm_eval)
  have "ConfirmStreak \<le> reproductions (wk_target (kill_at 0 5)) st"
    using skipped_kills_are_earned [OF st(1) _ st(2)] by (simp add: sample_kills_def kill_at_def)
  then show ?thesis
    using st by (simp add: kill_at_def)
qed

end
