(* ===== verification/TestStream.thy ===== *)
theory TestStream
  imports GoStrings Findings
begin

text \<open>
  The scans of a \<open>go test -json\<close> event stream (\<open>internal/engine/run.go\<close>): the first failing test,
  the failing package, a rejected build, a panicked process, a completed failure, the memory
  signatures, the bounded output excerpts and the one walk over a baseline's stream.

  A stream is the list of the events its JSON decoder yields, and whether decoding then ended at
  the end of the input or at a malformed value. The elapsed time of an event is the duration the
  code makes of it, \<open>None\<close> where the field is not positive.
\<close>

subsection \<open>Events\<close>

record event =
  ev_Action :: string
  ev_Package :: string
  ev_Test :: string
  ev_Output :: string
  ev_FailedBuild :: string
  ev_Elapsed :: "int option"

record event_stream =
  es_events :: "event list"
  es_malformed :: bool

text \<open>The top-level test of a test field: the text before the first slash.\<close>

definition top_level :: "string \<Rightarrow> string" where
  "top_level name = (case str_cut ''/'' name of Some (a, _) \<Rightarrow> a | None \<Rightarrow> name)"

subsection \<open>Verdict scans\<close>

fun first_failing :: "event list \<Rightarrow> string" where
  "first_failing [] = []"
| "first_failing (e # es) =
     (if ev_Action e = ''fail'' \<and> ev_Test e \<noteq> [] then ev_Package e @ ''.'' @ top_level (ev_Test e)
      else first_failing es)"

definition firstFailingTest :: "event_stream \<Rightarrow> string option" where
  "firstFailingTest s = (if es_malformed s then None else Some (first_failing (es_events s)))"

fun failed_package :: "event list \<Rightarrow> string" where
  "failed_package [] = []"
| "failed_package (e # es) =
     (if ev_Action e = ''fail'' \<and> ev_Test e = [] \<and> ev_Package e \<noteq> [] then ev_Package e
      else failed_package es)"

definition failedPackage :: "event_stream \<Rightarrow> string" where
  "failedPackage s = failed_package (es_events s)"

definition buildRejected :: "event_stream \<Rightarrow> bool" where
  "buildRejected s \<longleftrightarrow> (\<exists>e \<in> set (es_events s). ev_Action e = ''build-fail'' \<or> ev_FailedBuild e \<noteq> [])"

definition testProcessPanicked :: "event_stream \<Rightarrow> bool" where
  "testProcessPanicked s \<longleftrightarrow>
     (\<exists>e \<in> set (es_events s). let output = trim_space (ev_Output e) in
        has_prefix output ''panic:'' \<or> has_prefix output ''fatal error:'')"

text \<open>The test names still running, and whether the failure marker of the test was printed.\<close>

definition completed_step :: "string \<Rightarrow> event \<Rightarrow> string set \<times> bool \<Rightarrow> string set \<times> bool" where
  "completed_step failingTest e st =
     (let (active, marker) = st;
          active = (if ev_Action e = ''run'' \<and> ev_Test e \<noteq> [] then insert (ev_Test e) active
            else if ev_Action e \<in> {''pass'', ''fail'', ''skip''} \<and> ev_Test e \<noteq> [] then active - {ev_Test e}
            else active) in
      if ev_Action e \<noteq> ''output'' \<or> ev_Test e = [] then (active, marker)
      else let name = top_level (ev_Test e); expected = trim_prefix failingTest (ev_Package e @ ''.'') in
        if name = expected \<and> has_prefix (trim_space (ev_Output e)) (''--- FAIL: '' @ name) then (active, True)
        else (active, marker))"

definition testFailureCompleted :: "event_stream \<Rightarrow> string \<Rightarrow> bool" where
  "testFailureCompleted s failingTest \<longleftrightarrow>
     (let (active, marker) = fold (completed_step failingTest) (es_events s) ({}, False) in
      \<not> es_malformed s \<and> marker \<and> active = {})"

definition memory_signatures :: "string list" where
  "memory_signatures = [''runtime: out of memory'', ''out of memory allocating'', ''cannot allocate memory'']"

definition memoryDecidedKill :: "string \<Rightarrow> bool" where
  "memoryDecidedKill stream \<longleftrightarrow> (\<exists>signature \<in> set memory_signatures. str_contains stream signature)"

subsection \<open>Excerpts\<close>

text \<open>A cut at a rune boundary: bytes 128 to 191 continue a rune (\<open>utf8.RuneStart\<close> is their negation).\<close>

definition rune_start :: "char \<Rightarrow> bool" where
  "rune_start c \<longleftrightarrow> \<not> (128 \<le> (of_char c :: nat) \<and> (of_char c :: nat) < 192)"

fun rune_cut :: "string \<Rightarrow> nat \<Rightarrow> nat" where
  "rune_cut s 0 = 0"
| "rune_cut s (Suc n) = (if rune_start (s ! Suc n) then Suc n else rune_cut s n)"

definition ellipsis :: string where
  "ellipsis = [CHR 0xE2, CHR 0x80, CHR 0xA6]"

definition tail_of :: "string \<Rightarrow> nat \<Rightarrow> string" where
  "tail_of s n = (if length s \<le> n then s else ellipsis @ drop (length s - n) s)"

definition diagnostic_limit :: nat where "diagnostic_limit = 4096"

definition capDiagnostic :: "string \<Rightarrow> string" where
  "capDiagnostic out =
     (let out = trim_space out in
      if length out > diagnostic_limit
      then take (rune_cut out diagnostic_limit) out @ [CHR 0x0A] @ ''[diagnostic truncated]''
      else out)"

definition killerOutputLines :: nat where "killerOutputLines = 20"
definition killerOutputLineCap :: nat where "killerOutputLineCap = 240"

definition cap_line :: "string \<Rightarrow> string" where
  "cap_line line =
     (if length line > killerOutputLineCap then take (rune_cut line killerOutputLineCap) line @ ''...'' else line)"

definition trim_newlines :: "string \<Rightarrow> string" where
  "trim_newlines s = rev (dropWhile (\<lambda>c. c = CHR 0x0A) (rev s))"

text \<open>
  The ring of the last lines: slot \<open>next\<close> is the oldest one once the ring is full. \<open>keep\<close> is the
  caller's predicate; the crash excerpt's predicate has a state, which the walk threads.
\<close>

record ring_state =
  ring :: "string list"
  ring_next :: nat
  ring_dropped :: nat

definition ring_push :: "string \<Rightarrow> ring_state \<Rightarrow> ring_state" where
  "ring_push line st =
     (if length (ring st) < killerOutputLines then st\<lparr>ring := ring st @ [line]\<rparr>
      else st\<lparr>ring := (ring st)[ring_next st := line],
              ring_next := (ring_next st + 1) mod killerOutputLines,
              ring_dropped := ring_dropped st + 1\<rparr>)"

definition ring_lines :: "ring_state \<Rightarrow> string list" where
  "ring_lines st = drop (ring_next st) (ring st) @ take (ring_next st) (ring st)"

definition tail_step :: "(string \<Rightarrow> string \<Rightarrow> string \<Rightarrow> 'k \<Rightarrow> bool \<times> 'k) \<Rightarrow> event \<Rightarrow> ring_state \<times> 'k \<Rightarrow> ring_state \<times> 'k" where
  "tail_step keep e st =
     (if ev_Action e \<noteq> ''output'' then st
      else let name = top_level (ev_Test e); line = trim_newlines (ev_Output e) in
        if trim_space line = [] then st
        else let (kept, k) = keep (ev_Package e) name line (snd st) in
          if \<not> kept then (fst st, k) else (ring_push (cap_line line) (fst st), k))"

definition render_tail :: "ring_state \<Rightarrow> string" where
  "render_tail st =
     (let lines = ring_lines st in
      join [CHR 0x0A]
        (if ring_dropped st > 0
         then (''('' @ itoa (int (ring_dropped st)) @ '' earlier output lines dropped)'') # lines else lines))"

definition outputTailLine :: "event_stream \<Rightarrow> (string \<Rightarrow> string \<Rightarrow> string \<Rightarrow> 'k \<Rightarrow> bool \<times> 'k) \<Rightarrow> 'k \<Rightarrow> string" where
  "outputTailLine s keep k0 =
     render_tail (fst (fold (tail_step keep) (es_events s) (\<lparr>ring = [], ring_next = 0, ring_dropped = 0\<rparr>, k0)))"

definition outputTail :: "event_stream \<Rightarrow> (string \<Rightarrow> string \<Rightarrow> bool) \<Rightarrow> string" where
  "outputTail s keep = outputTailLine s (\<lambda>pkg test _ u. (keep pkg test, u)) ()"

definition isPackageFailTrailer :: "string \<Rightarrow> bool" where
  "isPackageFailTrailer line \<longleftrightarrow>
     (let trimmed = trim_space line in
      trimmed = [] \<or> trimmed = ''FAIL'' \<or> has_prefix trimmed (''FAIL'' @ [CHR 0x09]) \<or> has_prefix trimmed ''exit status '')"

definition completed_tests :: "event_stream \<Rightarrow> string set" where
  "completed_tests s =
     (\<lambda>e. ev_Package e @ ''.'' @ top_level (ev_Test e)) `
       set (filter (\<lambda>e. ev_Action e \<in> {''pass'', ''fail'', ''skip''} \<and> top_level (ev_Test e) \<noteq> []) (es_events s))"

definition has_package_output :: "event_stream \<Rightarrow> bool" where
  "has_package_output s \<longleftrightarrow>
     (\<exists>e \<in> set (es_events s). ev_Action e = ''output'' \<and> top_level (ev_Test e) = [] \<and> \<not> isPackageFailTrailer (ev_Output e))"

definition crash_keep :: "event_stream \<Rightarrow> string \<Rightarrow> string \<Rightarrow> string \<Rightarrow> string set \<Rightarrow> bool \<times> string set" where
  "crash_keep s pkg test line inPanic =
     (if test = [] then (True, inPanic)
      else let key = pkg @ ''.'' @ test in
        if key \<in> completed_tests s then (False, inPanic)
        else let trimmed = trim_space line;
            inPanic = (if has_prefix trimmed ''panic:'' \<or> has_prefix trimmed ''fatal error:''
              then insert key inPanic else inPanic) in
          (key \<in> inPanic \<or> \<not> has_package_output s, inPanic))"

definition packageCrashTail :: "event_stream \<Rightarrow> string" where
  "packageCrashTail s = outputTailLine s (crash_keep s) {}"


text \<open>\<open>after_timeout\<close> is the text \<open>"oracle timed out after <timeout> - the oracle timeout governs this bound"\<close>
  of the bound's rendering.\<close>

definition killEvidence :: "event_stream \<Rightarrow> string \<Rightarrow> string \<Rightarrow> string \<Rightarrow> string" where
  "killEvidence s raw killer timeout =
     (if killer = TimeoutKiller then
        ''oracle timed out after '' @ timeout @ '' - the oracle timeout governs this bound''
      else if has_prefix killer PackageKillerPrefix then
        (let excerpt = packageCrashTail s in if excerpt \<noteq> [] then excerpt else tail_of raw 400)
      else outputTail s (\<lambda>pkg test. pkg @ ''.'' @ test = killer))"

subsection \<open>The walk over a baseline stream\<close>

record test_stream =
  ts_ran :: nat
  ts_passed :: "string list"
  ts_failed :: "string list"
  ts_truncated :: "string list"
  ts_outputs :: "string \<Rightarrow> string option"
  ts_durations :: "string \<Rightarrow> int option"
  ts_pkg :: string

record stream_walk =
  sw_order :: "string list"
  sw_ended :: "string set"
  sw_ranTests :: "string set"
  sw_stream :: test_stream

definition start_stream :: stream_walk where
  "start_stream = \<lparr>sw_order = [], sw_ended = {}, sw_ranTests = {},
     sw_stream = \<lparr>ts_ran = 0, ts_passed = [], ts_failed = [], ts_truncated = [], ts_outputs = Map.empty,
       ts_durations = Map.empty, ts_pkg = []\<rparr>\<rparr>"

definition note_started :: "string \<Rightarrow> stream_walk \<Rightarrow> stream_walk" where
  "note_started test st = (if test \<in> set (sw_order st) then st else st\<lparr>sw_order := sw_order st @ [test]\<rparr>)"

definition note_output :: "event \<Rightarrow> test_stream \<Rightarrow> test_stream" where
  "note_output e ts =
     (if ev_Test e = [] then ts\<lparr>ts_pkg := ts_pkg ts @ ev_Output e\<rparr>
      else let top = top_level (ev_Test e) in
        ts\<lparr>ts_outputs := (ts_outputs ts)(top \<mapsto> get_or [] (ts_outputs ts top) @ ev_Output e)\<rparr>)"

definition note_pass :: "event \<Rightarrow> test_stream \<Rightarrow> test_stream" where
  "note_pass e ts =
     (if ev_Action e = ''pass'' \<and> ev_Package e \<noteq> [] then
        let s = ev_Package e @ ''.'' @ ev_Test e; ts = ts\<lparr>ts_passed := ts_passed ts @ [s]\<rparr> in
          (case ev_Elapsed e of None \<Rightarrow> ts | Some d \<Rightarrow> ts\<lparr>ts_durations := (ts_durations ts)(s \<mapsto> d)\<rparr>)
      else ts)"

definition note_fail :: "event \<Rightarrow> test_stream \<Rightarrow> test_stream" where
  "note_fail e ts =
     (if ev_Action e = ''fail'' \<and> ev_Test e \<notin> set (ts_failed ts) then ts\<lparr>ts_failed := ts_failed ts @ [ev_Test e]\<rparr>
      else ts)"

definition stream_step :: "event \<Rightarrow> stream_walk \<Rightarrow> stream_walk" where
  "stream_step e st =
     (if ev_Action e = ''output'' then st\<lparr>sw_stream := note_output e (sw_stream st)\<rparr>
      else if ev_Test e = [] \<or> str_contains (ev_Test e) ''/'' then st
      else if ev_Action e = ''run'' then note_started (ev_Test e) st
      else if ev_Action e \<in> {''pass'', ''fail'', ''skip''} then
        let st = note_started (ev_Test e) st;
            st = st\<lparr>sw_ended := insert (ev_Test e) (sw_ended st),
                    sw_stream := note_fail e (note_pass e (sw_stream st))\<rparr> in
          if ev_Action e \<noteq> ''skip'' \<and> ev_Test e \<notin> sw_ranTests st
          then st\<lparr>sw_ranTests := insert (ev_Test e) (sw_ranTests st),
                  sw_stream := (sw_stream st)\<lparr>ts_ran := ts_ran (sw_stream st) + 1\<rparr>\<rparr>
          else st
      else st)"

definition finish_stream :: "stream_walk \<Rightarrow> test_stream" where
  "finish_stream st =
     (let ts = sw_stream st; open_tests = filter (\<lambda>name. name \<notin> sw_ended st) (sw_order st) in
      ts\<lparr>ts_truncated := ts_truncated ts @ open_tests, ts_ran := ts_ran ts + length open_tests,
         ts_passed := compact (sort (ts_passed ts))\<rparr>)"

definition parseTestStream :: "event_stream \<Rightarrow> test_stream option" where
  "parseTestStream s =
     (if es_malformed s then None else Some (finish_stream (fold stream_step (es_events s) start_stream)))"

definition diagnostic_entry :: "test_stream \<Rightarrow> string \<Rightarrow> string" where
  "diagnostic_entry ts name =
     name @ '':'' @ [CHR 0x0A] @ (case ts_outputs ts name of
        Some out \<Rightarrow> if trim_space out \<noteq> [] then out else [] | None \<Rightarrow> [])"

definition renders_output :: "test_stream \<Rightarrow> string \<Rightarrow> bool" where
  "renders_output ts name \<longleftrightarrow> (case ts_outputs ts name of Some out \<Rightarrow> trim_space out \<noteq> [] | None \<Rightarrow> False)"

definition failedTestsDiagnostic :: "test_stream \<Rightarrow> string" where
  "failedTestsDiagnostic ts =
     (let names = ts_failed ts @ ts_truncated ts; body = concat (map (diagnostic_entry ts) names) in
      capDiagnostic (if list_ex (renders_output ts) names then body else body @ ts_pkg ts))"

subsection \<open>The ring keeps the last lines\<close>

text \<open>The reference: every line that was pushed, in order.\<close>

definition ring_holds :: "ring_state \<Rightarrow> string list \<Rightarrow> bool" where
  "ring_holds st lines \<longleftrightarrow>
     length (ring st) = min killerOutputLines (length lines) \<and>
     ring_dropped st = length lines - killerOutputLines \<and>
     ring_next st < killerOutputLines \<and> (length (ring st) < killerOutputLines \<longrightarrow> ring_next st = 0) \<and>
     ring_lines st = drop (length lines - killerOutputLines) lines"

lemma rotate_replace:
  assumes "n < length xs"
  shows "drop ((n + 1) mod length xs) (xs[n := y]) @ take ((n + 1) mod length xs) (xs[n := y])
    = tl (drop n xs @ take n xs) @ [y]"
proof -
  obtain us v vs where xs: "xs = us @ v # vs" and n: "n = length us"
    using assms id_take_nth_drop [of n xs] by (metis length_take min.strict_order_iff order.strict_implies_order min_absorb2)
  have upd: "xs[n := y] = us @ y # vs"
    by (simp add: xs n list_update_append)
  show ?thesis
  proof (cases vs)
    case Nil
    then show ?thesis by (simp add: upd, simp add: xs n)
  next
    case (Cons w ws)
    then have "(n + 1) mod length xs = n + 1" by (simp add: xs n)
    then show ?thesis by (simp add: upd, simp add: xs n)
  qed
qed

lemma ring_not_full:
  assumes "ring_holds st lines" "length (ring st) < killerOutputLines"
  shows "length lines < killerOutputLines" "ring_next st = 0" "ring st = lines" "ring_dropped st = 0"
proof -
  show l: "length lines < killerOutputLines"
    using assms unfolding ring_holds_def by linarith
  show n: "ring_next st = 0"
    using assms unfolding ring_holds_def by blast
  have "length lines - killerOutputLines = 0" using l by simp
  moreover have "ring_lines st = ring st" using n by (simp add: ring_lines_def)
  ultimately show "ring st = lines" "ring_dropped st = 0"
    using assms(1) unfolding ring_holds_def by simp_all
qed

lemma ring_push_holds:
  assumes "ring_holds st lines"
  shows "ring_holds (ring_push x st) (lines @ [x])"
proof (cases "length (ring st) < killerOutputLines")
  case True
  note old = ring_not_full [OF assms True]
  have "ring_push x st = st\<lparr>ring := lines @ [x]\<rparr>"
    using True old(3) by (simp add: ring_push_def)
  then show ?thesis
    using old by (simp add: ring_holds_def ring_lines_def)
next
  case False
  have full: "length (ring st) = killerOutputLines" "killerOutputLines \<le> length lines" "ring_next st < killerOutputLines"
    using assms False unfolding ring_holds_def by linarith+
  have old: "drop (ring_next st) (ring st) @ take (ring_next st) (ring st) = drop (length lines - killerOutputLines) lines"
    using assms by (simp add: ring_holds_def ring_lines_def)
  have push: "ring_push x st = st\<lparr>ring := (ring st)[ring_next st := x],
      ring_next := (ring_next st + 1) mod killerOutputLines, ring_dropped := ring_dropped st + 1\<rparr>"
    using False by (simp add: ring_push_def)
  have "ring_lines (ring_push x st) = tl (drop (length lines - killerOutputLines) lines) @ [x]"
    using rotate_replace [of "ring_next st" "ring st" x] full old by (simp add: ring_lines_def push)
  also have "\<dots> = drop (Suc (length lines - killerOutputLines)) lines @ [x]"
    by (simp add: tl_drop drop_Suc)
  also have "\<dots> = drop (Suc (length lines - killerOutputLines)) (lines @ [x])"
    using full(2) by (simp add: killerOutputLines_def)
  also have "Suc (length lines - killerOutputLines) = length (lines @ [x]) - killerOutputLines"
    using full(2) by simp
  finally have lines: "ring_lines (ring_push x st) = drop (length (lines @ [x]) - killerOutputLines) (lines @ [x])" .
  have "ring_dropped (ring_push x st) = length (lines @ [x]) - killerOutputLines"
    using assms full(2) by (simp add: push ring_holds_def Suc_diff_le)
  moreover have "ring_next (ring_push x st) < killerOutputLines" "length (ring (ring_push x st)) = killerOutputLines"
    using full by (simp_all add: push)
  ultimately show ?thesis
    using lines full(2) unfolding ring_holds_def by simp
qed


definition tail_line :: "(string \<Rightarrow> string \<Rightarrow> bool) \<Rightarrow> event \<Rightarrow> bool" where
  "tail_line keep e \<longleftrightarrow> ev_Action e = ''output'' \<and> trim_space (trim_newlines (ev_Output e)) \<noteq> [] \<and>
     keep (ev_Package e) (top_level (ev_Test e))"

definition tail_lines :: "event list \<Rightarrow> (string \<Rightarrow> string \<Rightarrow> bool) \<Rightarrow> string list" where
  "tail_lines es keep = map (\<lambda>e. cap_line (trim_newlines (ev_Output e))) (filter (tail_line keep) es)"

lemma tail_fold:
  "ring_holds st lines \<Longrightarrow>
     ring_holds (fst (fold (tail_step (\<lambda>pkg test _ u. (keep pkg test, u))) es (st, ()))) (lines @ tail_lines es keep)"
proof (induction es arbitrary: st lines)
  case Nil
  then show ?case by (simp add: tail_lines_def)
next
  case (Cons e es)
  have step: "tail_step (\<lambda>pkg test _ u. (keep pkg test, u)) e (st, ()) =
      ((if tail_line keep e then ring_push (cap_line (trim_newlines (ev_Output e))) st else st), ())"
    by (simp add: tail_step_def tail_line_def Let_def)
  show ?case
  proof (cases "tail_line keep e")
    case True
    then show ?thesis
      using Cons.IH [OF ring_push_holds [OF Cons.prems]] by (simp add: step tail_lines_def)
  next
    case False
    then show ?thesis
      using Cons.IH [OF Cons.prems] by (simp add: step tail_lines_def)
  qed
qed

text \<open>the bounded excerpt of a stream, kept in a ring buffer, is the last killerOutputLines
  admitted lines in stream order, and what was dropped before them is counted in a first line: a
  truncation is never silent.\<close>
theorem output_tail_is_last_lines:
  "outputTail s keep =
     (let lines = tail_lines (es_events s) keep; n = length lines - killerOutputLines in
      join [CHR 0x0A] (if n > 0 then (''('' @ itoa (int n) @ '' earlier output lines dropped)'') # drop n lines else lines))"
proof -
  let ?st = "\<lparr>ring = [], ring_next = 0, ring_dropped = 0\<rparr>"
  let ?final = "fst (fold (tail_step (\<lambda>pkg test _ u. (keep pkg test, u))) (es_events s) (?st, ()))"
  have "ring_holds ?st []"
    by (simp add: ring_holds_def ring_lines_def killerOutputLines_def)
  from tail_fold [OF this] have final: "ring_holds ?final (tail_lines (es_events s) keep)" by simp
  then have "ring_lines ?final = drop (length (tail_lines (es_events s) keep) - killerOutputLines) (tail_lines (es_events s) keep)"
    and "ring_dropped ?final = length (tail_lines (es_events s) keep) - killerOutputLines"
    by (simp_all add: ring_holds_def)
  then show ?thesis
    by (simp add: outputTail_def outputTailLine_def render_tail_def Let_def)
qed

subsection \<open>A test's output decides nothing\<close>

definition without_output :: "event_stream \<Rightarrow> event_stream" where
  "without_output s = s\<lparr>es_events := filter (\<lambda>e. ev_Action e \<noteq> ''output'') (es_events s)\<rparr>"

lemma first_failing_output: "first_failing (filter (\<lambda>e. ev_Action e \<noteq> ''output'') es) = first_failing es"
  by (induction es) auto

lemma failed_package_output: "failed_package (filter (\<lambda>e. ev_Action e \<noteq> ''output'') es) = failed_package es"
  by (induction es) auto

text \<open>the verdict scans cannot be forged by what a test prints: the first failing test, the failing
  package and the build verdict of a stream do not depend on its output events (which carry no
  FailedBuild field).\<close>
theorem verdict_scans_unforgeable:
  assumes "\<And>e. e \<in> set (es_events s) \<Longrightarrow> ev_Action e = ''output'' \<Longrightarrow> ev_FailedBuild e = []"
  shows "firstFailingTest (without_output s) = firstFailingTest s \<and> failedPackage (without_output s) = failedPackage s \<and>
    buildRejected (without_output s) = buildRejected s"
proof -
  have "buildRejected (without_output s) = buildRejected s"
    using assms unfolding buildRejected_def without_output_def by fastforce
  then show ?thesis
    by (simp add: firstFailingTest_def failedPackage_def without_output_def first_failing_output failed_package_output)
qed

definition test_event :: "string \<Rightarrow> string \<Rightarrow> string \<Rightarrow> event" where
  "test_event action test output = \<lparr>ev_Action = action, ev_Package = ''p'', ev_Test = test, ev_Output = output,
     ev_FailedBuild = [], ev_Elapsed = None\<rparr>"

definition sample_stream :: event_stream where
  "sample_stream = \<lparr>es_events = [test_event ''run'' ''TestA'' [], test_event ''output'' ''TestA'' ''[build failed]'',
     test_event ''fail'' ''TestA/x'' [], test_event ''fail'' ''TestA'' [], test_event ''run'' ''TestB'' []],
     es_malformed = False\<rparr>"

lemma verdict_scans_unforgeable_witness:
  "firstFailingTest (without_output sample_stream) = Some ''p.TestA'' \<and> \<not> buildRejected (without_output sample_stream)"
proof -
  have "firstFailingTest (without_output sample_stream) = firstFailingTest sample_stream \<and>
    failedPackage (without_output sample_stream) = failedPackage sample_stream \<and>
    buildRejected (without_output sample_stream) = buildRejected sample_stream"
    by (rule verdict_scans_unforgeable) (auto simp: sample_stream_def test_event_def)
  then show ?thesis
    by (simp add: sample_stream_def test_event_def firstFailingTest_def top_level_def has_prefix_def buildRejected_def)
qed

subsection \<open>The baseline walk accounts for every test\<close>

definition ends_test :: "string list \<Rightarrow> event \<Rightarrow> bool" where
  "ends_test actions e \<longleftrightarrow> ev_Action e \<in> set actions \<and> ev_Test e \<noteq> [] \<and> \<not> str_contains (ev_Test e) ''/''"

definition ended_by :: "string list \<Rightarrow> event list \<Rightarrow> string set" where
  "ended_by actions es = ev_Test ` set (filter (ends_test actions) es)"

definition walk_accounts :: "event list \<Rightarrow> stream_walk \<Rightarrow> bool" where
  "walk_accounts es st \<longleftrightarrow>
     distinct (sw_order st) \<and> set (sw_order st) = ended_by [''run'', ''pass'', ''fail'', ''skip''] es \<and>
     sw_ended st = ended_by [''pass'', ''fail'', ''skip''] es \<and>
     sw_ranTests st = ended_by [''pass'', ''fail''] es \<and> ts_ran (sw_stream st) = card (sw_ranTests st) \<and>
     distinct (ts_failed (sw_stream st)) \<and> set (ts_failed (sw_stream st)) = ended_by [''fail''] es \<and>
     set (ts_passed (sw_stream st)) =
       (\<lambda>e. ev_Package e @ ''.'' @ ev_Test e) ` set (filter (\<lambda>e. ends_test [''pass''] e \<and> ev_Package e \<noteq> []) es) \<and>
     ts_truncated (sw_stream st) = []"

lemma ended_by_snoc: "ended_by acts (es @ [e]) = ended_by acts es \<union> (if ends_test acts e then {ev_Test e} else {})"
  by (auto simp: ended_by_def)

lemma finite_ended_by [simp]: "finite (ended_by acts es)"
  by (simp add: ended_by_def)

lemma note_output_simps [simp]:
  "ts_ran (note_output e ts) = ts_ran ts" "ts_passed (note_output e ts) = ts_passed ts"
  "ts_failed (note_output e ts) = ts_failed ts" "ts_truncated (note_output e ts) = ts_truncated ts"
  by (simp_all add: note_output_def Let_def)

lemma note_pass_simps [simp]:
  "ts_ran (note_pass e ts) = ts_ran ts" "ts_failed (note_pass e ts) = ts_failed ts"
  "ts_truncated (note_pass e ts) = ts_truncated ts"
  "ts_passed (note_pass e ts) = ts_passed ts @
     (if ev_Action e = ''pass'' \<and> ev_Package e \<noteq> [] then [ev_Package e @ ''.'' @ ev_Test e] else [])"
  by (simp_all add: note_pass_def Let_def split: option.split)

lemma note_fail_simps [simp]:
  "ts_ran (note_fail e ts) = ts_ran ts" "ts_passed (note_fail e ts) = ts_passed ts"
  "ts_truncated (note_fail e ts) = ts_truncated ts"
  "ts_failed (note_fail e ts) = ts_failed ts @
     (if ev_Action e = ''fail'' \<and> ev_Test e \<notin> set (ts_failed ts) then [ev_Test e] else [])"
  by (simp_all add: note_fail_def)

lemma note_started_simps [simp]:
  "sw_ended (note_started t st) = sw_ended st" "sw_ranTests (note_started t st) = sw_ranTests st"
  "sw_stream (note_started t st) = sw_stream st"
  "set (sw_order (note_started t st)) = insert t (set (sw_order st))"
  "distinct (sw_order (note_started t st)) = distinct (sw_order st)"
  by (auto simp: note_started_def)


lemma ends_test_terminal:
  assumes "ev_Action e \<in> {''pass'', ''fail'', ''skip''}" "ev_Test e \<noteq> []" "\<not> str_contains (ev_Test e) ''/''"
  shows "ends_test [''pass'', ''fail'', ''skip''] e" "ends_test [''run'', ''pass'', ''fail'', ''skip''] e"
    "ends_test [''pass'', ''fail''] e = (ev_Action e \<noteq> ''skip'')" "ends_test [''fail''] e = (ev_Action e = ''fail'')"
    "ends_test [''pass''] e = (ev_Action e = ''pass'')"
  using assms by (auto simp: ends_test_def)

lemma ends_test_other:
  assumes "ev_Test e = [] \<or> str_contains (ev_Test e) ''/'' \<or> ev_Action e \<notin> set (''run'' # actions)"
    "set actions \<subseteq> {''pass'', ''fail'', ''skip''}"
  shows "\<not> ends_test actions e"
  using assms by (auto simp: ends_test_def)

lemma stream_step_terminal:
  assumes acc: "walk_accounts es st" and act: "ev_Action e \<in> {''pass'', ''fail'', ''skip''}"
    and top: "ev_Test e \<noteq> []" "\<not> str_contains (ev_Test e) ''/''"
  shows "walk_accounts (es @ [e]) (stream_step e st)"
proof -
  note ends = ends_test_terminal [OF act top]
  have "ev_Action e \<noteq> ''output''" "ev_Action e \<noteq> ''run''" using act by auto
  then show ?thesis
    using acc act top unfolding walk_accounts_def
    by (auto simp: stream_step_def Let_def ended_by_snoc ends)
qed

lemma stream_step_accounts:
  assumes acc: "walk_accounts es st"
  shows "walk_accounts (es @ [e]) (stream_step e st)"
proof (cases "ev_Test e = [] \<or> str_contains (ev_Test e) ''/'' \<or> ev_Action e \<notin> {''run'', ''pass'', ''fail'', ''skip''}")
  case True
  then have none: "\<not> ends_test actions e" if "set actions \<subseteq> {''run'', ''pass'', ''fail'', ''skip''}" for actions
    using that by (auto simp: ends_test_def)
  have "sw_order (stream_step e st) = sw_order st" "sw_ended (stream_step e st) = sw_ended st"
    "sw_ranTests (stream_step e st) = sw_ranTests st" "ts_ran (sw_stream (stream_step e st)) = ts_ran (sw_stream st)"
    "ts_failed (sw_stream (stream_step e st)) = ts_failed (sw_stream st)"
    "ts_passed (sw_stream (stream_step e st)) = ts_passed (sw_stream st)"
    "ts_truncated (sw_stream (stream_step e st)) = ts_truncated (sw_stream st)"
    using True by (auto simp: stream_step_def)
  then show ?thesis
    using acc none unfolding walk_accounts_def by (simp add: ended_by_snoc)
next
  case False
  then have top: "ev_Test e \<noteq> []" "\<not> str_contains (ev_Test e) ''/''" by auto
  show ?thesis
  proof (cases "ev_Action e = ''run''")
    case True
    then have "ends_test [''run'', ''pass'', ''fail'', ''skip''] e" "\<not> ends_test [''pass'', ''fail'', ''skip''] e"
      "\<not> ends_test [''pass'', ''fail''] e" "\<not> ends_test [''fail''] e" "\<not> ends_test [''pass''] e"
      using top by (auto simp: ends_test_def)
    then show ?thesis
      using acc True top unfolding walk_accounts_def by (auto simp: stream_step_def ended_by_snoc)
  next
    case run: False
    then have "ev_Action e \<in> {''pass'', ''fail'', ''skip''}" using False by auto
    then show ?thesis
      using stream_step_terminal [OF acc _ top] by blast
  qed
qed

lemma walk_accounts_fold: "walk_accounts es st \<Longrightarrow> walk_accounts (es @ es') (fold stream_step es' st)"
proof (induction es' arbitrary: es st)
  case (Cons e es')
  then show ?case
    using Cons.IH [OF stream_step_accounts [OF Cons.prems, of e]] by simp
qed simp

lemma start_stream_accounts: "walk_accounts [] start_stream"
  by (simp add: walk_accounts_def start_stream_def ended_by_def)

text \<open>the walk over a baseline's stream accounts for every top-level test once: the failed list has
  exactly the tests with a fail event, the truncated list exactly the tests that were started and never
  reached a terminal event, the passed list exactly the symbols with a pass event, sorted and without
  repetition, and ran counts the tests that passed, failed or never closed - a skipped test and a
  subtest do not count.\<close>
theorem baseline_stream_accounts:
  assumes "parseTestStream s = Some ts"
  shows "distinct (ts_failed ts) \<and> set (ts_failed ts) = ended_by [''fail''] (es_events s)
    \<and> distinct (ts_truncated ts) \<and> set (ts_truncated ts) = ended_by [''run''] (es_events s) - ended_by [''pass'', ''fail'', ''skip''] (es_events s)
    \<and> sorted (ts_passed ts) \<and> distinct (ts_passed ts)
    \<and> set (ts_passed ts) = (\<lambda>e. ev_Package e @ ''.'' @ ev_Test e) ` set (filter (\<lambda>e. ends_test [''pass''] e \<and> ev_Package e \<noteq> []) (es_events s))
    \<and> ts_ran ts = card (ended_by [''pass'', ''fail''] (es_events s)) + length (ts_truncated ts)"
proof -
  let ?st = "fold stream_step (es_events s) start_stream"
  have acc: "walk_accounts (es_events s) ?st"
    using walk_accounts_fold [OF start_stream_accounts, of "es_events s"] by simp
  have ts: "ts = finish_stream ?st"
    using assms by (auto simp: parseTestStream_def split: if_splits)
  have "ended_by [''run'', ''pass'', ''fail'', ''skip''] es - ended_by [''pass'', ''fail'', ''skip''] es
      = ended_by [''run''] es - ended_by [''pass'', ''fail'', ''skip''] es" for es
    by (auto simp: ended_by_def ends_test_def)
  then show ?thesis
    using acc unfolding ts walk_accounts_def finish_stream_def by (auto simp: Let_def)
qed

lemma baseline_stream_accounts_witness:
  "\<exists>ts. parseTestStream sample_stream = Some ts \<and> ts_failed ts = [''TestA''] \<and> ts_truncated ts = [''TestB''] \<and>
     ts_ran ts = card (ended_by [''pass'', ''fail''] (es_events sample_stream)) + length (ts_truncated ts)"
proof -
  obtain ts where ts: "parseTestStream sample_stream = Some ts" "ts_failed ts = [''TestA'']" "ts_truncated ts = [''TestB'']"
    by (simp add: sample_stream_def test_event_def parseTestStream_def start_stream_def stream_step_def note_started_def
        note_output_def note_fail_def note_pass_def str_contains_def has_prefix_def top_level_def finish_stream_def Let_def)
  then show ?thesis
    using baseline_stream_accounts [OF ts(1)] by blast
qed

end
