(* ===== verification/MutantRun.thy ===== *)
theory MutantRun
  imports TestStream Schedule
begin

text \<open>
  One mutant against one oracle group (\<open>internal/engine/run.go\<close>, \<open>internal/engine/schema_exec.go\<close>):
  how the ends of the mutant's process and of the differential baseline probe become an outcome, a
  killer, an observation and a diagnostic.

  The processes are the operating system's: a \<open>process_world\<close> holds how each one ended, what it
  printed, what the contexts say then, and the results of the observation capture and merge of
  \<open>gofresh\<close>. The files, environments and commands set up for a process are not modelled, nor is a
  cancellation that is seen during that set-up.
\<close>

subsection \<open>Processes\<close>

text \<open>The error of a finished process (\<open>errors.Is(err, context.DeadlineExceeded)\<close> or another) and the
  cause a context carries: none, the oracle bound's own, or a caller's.\<close>

datatype run_error = DeadlineExceeded string | RunFailed string

datatype ctx_cause = Live | OracleBudget | CallerDone

record process_end =
  pe_error :: "run_error option"
  pe_started :: bool
  pe_killed :: bool
  pe_cause :: ctx_cause
  pe_stream :: event_stream
  pe_stdout :: string
  pe_stderr :: string

fun error_text :: "run_error \<Rightarrow> string" where
  "error_text (DeadlineExceeded t) = t"
| "error_text (RunFailed t) = t"

definition oracleBudgetFired :: "process_end \<Rightarrow> bool" where
  "oracleBudgetFired p \<longleftrightarrow>
     (if pe_cause p \<noteq> OracleBudget then False
      else if \<not> pe_started p then (case pe_error p of Some (DeadlineExceeded _) \<Rightarrow> True | _ \<Rightarrow> False)
      else pe_killed p)"

definition oracleRunCancelled :: "process_end \<Rightarrow> bool" where
  "oracleRunCancelled p \<longleftrightarrow> pe_error p \<noteq> None \<and> pe_cause p \<noteq> Live"

subsection \<open>Results\<close>

datatype run_failure =
    MultiPackageObserved nat
  | NoReplacements
  | IncompleteReplacement nat
  | DuplicateReplacement string
  | ObservationFailed string
  | MergeFailed string
  | ContextDone string
  | MalformedOutput

record run_result =
  rr_outcome :: outcome
  rr_killer :: string
  rr_memoryDecided :: bool
  rr_observation :: observation
  rr_incomplete :: string
  rr_diagnostic :: string

definition zero_observation :: observation where
  "zero_observation = \<lparr>ob_Unverifiable = False, ob_Rest = []\<rparr>"

text \<open>
  \<open>pw_observe\<close> and \<open>pw_observeBase\<close> are \<open>processObservationContext\<close> on the two test logs for a
  completion reason; \<open>pw_parent\<close> is \<open>ctx.Err()\<close> when the mutant's process is judged and \<open>pw_baseParent\<close>
  when the probe is; \<open>pw_buildDiagnostic\<close> is the compiler's text of a rejected build.
\<close>

record process_world =
  pw_mutant :: process_end
  pw_baseline :: process_end
  pw_parent :: "string option"
  pw_baseParent :: "string option"
  pw_observe :: "string \<Rightarrow> string + observation \<times> string"
  pw_observeBase :: "string \<Rightarrow> string + observation \<times> string"
  pw_merge :: "observation \<Rightarrow> observation \<Rightarrow> string + observation"
  pw_buildDiagnostic :: string
  pw_timeout :: string

definition markMemoryDecided :: "string \<Rightarrow> string \<Rightarrow> bool" where
  "markMemoryDecided stdout stderr \<longleftrightarrow> memoryDecidedKill stdout \<or> memoryDecidedKill stderr"

definition observed :: "(string + observation \<times> string) \<Rightarrow>
    (observation \<Rightarrow> string \<Rightarrow> run_failure + run_result) \<Rightarrow> run_failure + run_result" where
  "observed ob k = (case ob of Inl e \<Rightarrow> Inl (ObservationFailed e) | Inr (state, incomplete) \<Rightarrow> k state incomplete)"

definition merged :: "(string + observation) \<Rightarrow> (observation \<Rightarrow> run_failure + run_result) \<Rightarrow> run_failure + run_result" where
  "merged mr k = (case mr of Inl e \<Rightarrow> Inl (MergeFailed e) | Inr state \<Rightarrow> k state)"

definition result_of :: "outcome \<Rightarrow> string \<Rightarrow> bool \<Rightarrow> observation \<Rightarrow> string \<Rightarrow> string \<Rightarrow> run_failure + run_result" where
  "result_of out killer decided state incomplete diagnostic =
     Inr \<lparr>rr_outcome = out, rr_killer = killer, rr_memoryDecided = decided, rr_observation = state,
       rr_incomplete = incomplete, rr_diagnostic = diagnostic\<rparr>"

definition completion_reason :: "event_stream \<Rightarrow> string \<Rightarrow> string" where
  "completion_reason s killer =
     (if testProcessPanicked s then ''mutant test process panicked before observation finalization''
      else if \<not> testFailureCompleted s killer then ''mutant test process exited before observation finalization''
      else [])"

subsection \<open>The differential baseline probe\<close>

text \<open>\<open>pkg\<close> is the package the killer names, \<open>stderr\<close> the stream that joins standard output in the
  diagnostics and the memory scan.\<close>

definition classify_unattributed :: "process_world \<Rightarrow> string \<Rightarrow> string \<Rightarrow> run_failure + run_result" where
  "classify_unattributed w pkg stderr =
     (let p = pw_mutant w; b = pw_baseline w; stdout = pe_stdout p; decided = markMemoryDecided stdout stderr;
          run_text = (case pe_error p of Some e \<Rightarrow> error_text e | None \<Rightarrow> ''<nil>'') in
      observed (pw_observe w ''mutant test process exited before observation finalization'') (\<lambda>mutantState mutantIncomplete.
        if pe_cause b \<noteq> Live then
          observed (pw_observeBase w ''baseline test process did not complete'') (\<lambda>baselineState _.
            merged (pw_merge w mutantState baselineState) (\<lambda>state.
              case pw_baseParent w of
                Some e \<Rightarrow> Inl (ContextDone e)
              | None \<Rightarrow> result_of MutantDiscarded [] decided state
                  (''unclassifiable mutant-run failure: the baseline probe exceeded the oracle timeout ('' @ pw_timeout w @
                   ''), so the failure is not provably mutant-caused: '' @ run_text @ '': '' @ tail_of (stderr @ stdout) 400) []))
        else if pe_error b = None then
          observed (pw_observeBase w []) (\<lambda>baselineState _.
            merged (pw_merge w mutantState baselineState) (\<lambda>state.
              result_of MutantKilled
                (PackageKillerPrefix @ (if pkg \<noteq> [] then pkg @ '')'' else ''unattributed crash)''))
                decided state mutantIncomplete []))
        else
          observed (pw_observeBase w ''baseline test process failed before observation finalization'') (\<lambda>baselineState _.
            merged (pw_merge w mutantState baselineState) (\<lambda>state.
              result_of MutantDiscarded [] decided state
                (''unclassifiable mutant-run failure: the baseline probe failed alongside the mutant (environmental noise, not a kill): '' @
                 run_text @ '': '' @ tail_of (stderr @ stdout) 400) []))))"

subsection \<open>The mutant's process\<close>

text \<open>\<open>builds\<close> tells the overlay run, whose process builds the test binary and may be rejected, from the
  run of a compiled schema binary.\<close>

definition classify_mutant :: "process_world \<Rightarrow> bool \<Rightarrow> string \<Rightarrow> run_failure + run_result" where
  "classify_mutant w builds defaultPkg =
     (let p = pw_mutant w; s = pe_stream p; stderr = (if builds then pe_stderr p else []);
          decided = markMemoryDecided (pe_stdout p) stderr in
      if oracleBudgetFired p then
        observed (pw_observe w ''mutant test process timed out'') (\<lambda>state incomplete.
          result_of MutantKilled TimeoutKiller False state incomplete [])
      else if oracleRunCancelled p then
        observed (pw_observe w ''mutant test process was cancelled'') (\<lambda>state incomplete.
          case pw_parent w of
            Some e \<Rightarrow> Inl (ContextDone e)
          | None \<Rightarrow> result_of MutantDiscarded [] False state incomplete [])
      else case firstFailingTest s of
        None \<Rightarrow> observed (pw_observe w ''go test output was malformed before observation finalization'')
          (\<lambda>_ _. Inl MalformedOutput)
      | Some killer \<Rightarrow>
          if pe_error p = None then
            observed (pw_observe w []) (\<lambda>state incomplete. result_of MutantSurvived [] False state incomplete [])
          else if builds \<and> buildRejected s then
            result_of MutantDiscarded [] decided zero_observation [] (pw_buildDiagnostic w)
          else if killer \<noteq> [] then
            observed (pw_observe w (completion_reason s killer)) (\<lambda>state incomplete.
              result_of MutantKilled killer decided state incomplete [])
          else
            (let pkg = failedPackage s in
              classify_unattributed w (if pkg = [] then defaultPkg else pkg) stderr))"

definition runSchemaBinary :: "process_world \<Rightarrow> string \<Rightarrow> run_failure + run_result" where
  "runSchemaBinary w testPkg = classify_mutant w False testPkg"

definition canUseSchemaBinary :: "mutant \<Rightarrow> string list \<Rightarrow> string \<Rightarrow> bool \<Rightarrow> bool" where
  "canUseSchemaBinary m testPkgs baselineDir hasSchemas \<longleftrightarrow>
     (if \<not> hasSchemas then False
      else if m_SchemaMutantID m = [] \<or> m_SchemaKey m = [] \<or> length (m_SchemaReplacements m) = 0 then False
      else if length testPkgs \<noteq> 1 \<or> hd testPkgs = [] then False
      else if baselineDir \<noteq> [] then False
      else True)"

text \<open>The overlay's replacements: every one names a file and holds its source (\<open>nil\<close> is \<open>None\<close>), and no file is replaced twice.\<close>

fun check_replacements :: "nat \<Rightarrow> string set \<Rightarrow> replacement list \<Rightarrow> run_failure option" where
  "check_replacements i seen [] = None"
| "check_replacements i seen (r # rs) =
     (if r_File r = [] \<or> r_Source r = None then Some (IncompleteReplacement (i + 1))
      else if r_File r \<in> seen then Some (DuplicateReplacement (r_File r))
      else check_replacements (i + 1) (insert (r_File r) seen) rs)"

text \<open>\<open>schema\<close> is the world of the schema binary's run when the cache has or compiles one, \<open>overlay\<close> the
  world of the run through the build overlay.\<close>

definition runMutantBase :: "mutant \<Rightarrow> string list \<Rightarrow> string \<Rightarrow> string \<Rightarrow> string \<Rightarrow> process_world option \<Rightarrow>
    process_world \<Rightarrow> run_failure + run_result" where
  "runMutantBase m testPkgs baselineDir moduleDir packageDir schema overlay =
     (let capture = (moduleDir \<noteq> [] \<and> packageDir \<noteq> []) in
      if capture \<and> length testPkgs > 1 then Inl (MultiPackageObserved (length testPkgs))
      else case (if canUseSchemaBinary m testPkgs baselineDir (schema \<noteq> None) then schema else None) of
        Some w \<Rightarrow> runSchemaBinary w (hd testPkgs)
      | None \<Rightarrow>
          if length (m_Replacements m) = 0 then Inl NoReplacements
          else case check_replacements 0 {} (m_Replacements m) of
            Some e \<Rightarrow> Inl e
          | None \<Rightarrow> classify_mutant overlay True [])"


subsection \<open>What a verdict rests on\<close>

lemma observed_InrE:
  assumes "observed ob k = Inr r"
  obtains state incomplete where "k state incomplete = Inr r"
  using assms by (auto simp: observed_def split: sum.splits)

lemma merged_InrE:
  assumes "merged mr k = Inr r"
  obtains state where "k state = Inr r"
  using assms by (auto simp: merged_def split: sum.splits)

lemma result_of_Inr: "result_of out killer decided state incomplete diagnostic = Inr r \<longleftrightarrow>
    r = \<lparr>rr_outcome = out, rr_killer = killer, rr_memoryDecided = decided, rr_observation = state,
       rr_incomplete = incomplete, rr_diagnostic = diagnostic\<rparr>"
  by (auto simp: result_of_def)

text \<open>The grounds of a verdict: the oracle bound, a named failing test, or the differential probe.\<close>

definition timeout_ground :: "process_world \<Rightarrow> string \<Rightarrow> bool" where
  "timeout_ground w killer \<longleftrightarrow> killer = TimeoutKiller \<and> oracleBudgetFired (pw_mutant w)"

definition test_ground :: "process_world \<Rightarrow> string \<Rightarrow> bool" where
  "test_ground w killer \<longleftrightarrow> killer \<noteq> [] \<and> firstFailingTest (pe_stream (pw_mutant w)) = Some killer \<and>
     pe_error (pw_mutant w) \<noteq> None"

definition package_ground :: "process_world \<Rightarrow> string \<Rightarrow> bool" where
  "package_ground w killer \<longleftrightarrow> has_prefix killer PackageKillerPrefix \<and>
     firstFailingTest (pe_stream (pw_mutant w)) = Some [] \<and> pe_error (pw_mutant w) \<noteq> None \<and>
     pe_error (pw_baseline w) = None \<and> pe_cause (pw_baseline w) = Live"

definition grounded :: "process_world \<Rightarrow> run_result \<Rightarrow> bool" where
  "grounded w r \<longleftrightarrow> (case rr_outcome r of
       MutantKilled \<Rightarrow> rr_diagnostic r = [] \<and>
         (timeout_ground w (rr_killer r) \<or> test_ground w (rr_killer r) \<or> package_ground w (rr_killer r))
     | MutantSurvived \<Rightarrow> pe_error (pw_mutant w) = None \<and> rr_killer r = [] \<and> rr_diagnostic r = []
     | MutantDiscarded \<Rightarrow> rr_killer r = [])"

lemma classify_unattributed_grounded:
  assumes "classify_unattributed w pkg stderr = Inr r" "firstFailingTest (pe_stream (pw_mutant w)) = Some []"
    "pe_error (pw_mutant w) \<noteq> None"
  shows "grounded w r"
  using assms(1) unfolding classify_unattributed_def Let_def
  by (auto elim!: observed_InrE merged_InrE split: if_splits option.splits
      simp: result_of_Inr grounded_def package_ground_def assms(2,3))

lemma classify_mutant_grounded:
  assumes "classify_mutant w builds defaultPkg = Inr r"
  shows "grounded w r"
proof (cases "oracleBudgetFired (pw_mutant w) \<or> oracleRunCancelled (pw_mutant w)")
  case True
  then show ?thesis
    using assms unfolding classify_mutant_def Let_def
    by (auto elim!: observed_InrE split: if_splits option.splits
        simp: result_of_Inr grounded_def timeout_ground_def)
next
  case False
  obtain killer where killer: "firstFailingTest (pe_stream (pw_mutant w)) = Some killer"
    using assms False unfolding classify_mutant_def Let_def
    by (auto simp: observed_def split: option.splits sum.splits)
  show ?thesis
  proof (cases "pe_error (pw_mutant w) = None \<or> builds \<and> buildRejected (pe_stream (pw_mutant w)) \<or> killer \<noteq> []")
    case True
    then show ?thesis
      using assms False killer unfolding classify_mutant_def Let_def
      by (auto elim!: observed_InrE split: if_splits simp: result_of_Inr grounded_def test_ground_def)
  next
    case rest: False
    then have "classify_unattributed w (if failedPackage (pe_stream (pw_mutant w)) = [] then defaultPkg
        else failedPackage (pe_stream (pw_mutant w))) (if builds then pe_stderr (pw_mutant w) else []) = Inr r"
      using assms False killer by (auto simp: classify_mutant_def Let_def)
    then show ?thesis
      using classify_unattributed_grounded killer rest by auto
  qed
qed

definition judged_world :: "mutant \<Rightarrow> string list \<Rightarrow> string \<Rightarrow> process_world option \<Rightarrow> process_world \<Rightarrow> process_world" where
  "judged_world m testPkgs baselineDir schema overlay =
     (case (if canUseSchemaBinary m testPkgs baselineDir (schema \<noteq> None) then schema else None) of
        Some w \<Rightarrow> w | None \<Rightarrow> overlay)"

lemma runMutantBase_grounded:
  assumes "runMutantBase m testPkgs baselineDir moduleDir packageDir schema overlay = Inr r"
  shows "grounded (judged_world m testPkgs baselineDir schema overlay) r"
  using assms classify_mutant_grounded unfolding runMutantBase_def runSchemaBinary_def judged_world_def Let_def
  by (auto split: if_splits option.splits)

text \<open>C1: every verdict of a mutant's run rests on its ground. A kill carries no diagnostic and is
  attributed to the oracle bound that killed the process, to the first test the stream reports as
  failed, or - only when no test failed and the same invocation without the mutant passed within its
  bound - to a package failure; a survivor's process ended without an error; and a discard names no
  killer. The world is that of the schema binary where one was used, of the overlay otherwise.\<close>
theorem mutant_verdict_grounded:
  assumes "runMutantBase m testPkgs baselineDir moduleDir packageDir schema overlay = Inr r"
  shows "grounded (judged_world m testPkgs baselineDir schema overlay) r"
  by (rule runMutantBase_grounded [OF assms])

definition failing_end :: process_end where
  "failing_end = \<lparr>pe_error = Some (RunFailed ''exit status 1''), pe_started = True, pe_killed = False, pe_cause = Live,
     pe_stream = sample_stream, pe_stdout = [], pe_stderr = []\<rparr>"

definition sample_world :: "process_end \<Rightarrow> process_end \<Rightarrow> process_world" where
  "sample_world p b = \<lparr>pw_mutant = p, pw_baseline = b, pw_parent = None, pw_baseParent = None,
     pw_observe = (\<lambda>reason. Inr (zero_observation, reason)), pw_observeBase = (\<lambda>reason. Inr (zero_observation, reason)),
     pw_merge = (\<lambda>a b. Inr a), pw_buildDiagnostic = [], pw_timeout = ''10s''\<rparr>"

definition sample_mutant :: mutant where
  "sample_mutant = \<lparr>m_Symbol = ''p.F'', m_Operator = ''op'', m_Position = ''f.go:1:1'', m_Extent = [],
     m_Replacements = [\<lparr>r_File = ''/p/f.go'', r_Source = Some ''x'', r_Synthetic = False\<rparr>], m_SchemaReplacements = [],
     m_SchemaMutantID = [], m_SchemaKey = []\<rparr>"

lemma mutant_verdict_grounded_witness:
  "\<exists>r. runMutantBase sample_mutant [''p''] [] [] [] None (sample_world failing_end failing_end) = Inr r \<and>
     rr_outcome r = MutantKilled \<and> rr_killer r = ''p.TestA'' \<and> grounded (sample_world failing_end failing_end) r"
proof -
  obtain r where r: "runMutantBase sample_mutant [''p''] [] [] [] None (sample_world failing_end failing_end) = Inr r"
    "rr_outcome r = MutantKilled" "rr_killer r = ''p.TestA''"
    by (simp add: runMutantBase_def canUseSchemaBinary_def sample_mutant_def classify_mutant_def sample_world_def failing_end_def
        oracleBudgetFired_def oracleRunCancelled_def firstFailingTest_def sample_stream_def test_event_def top_level_def
        has_prefix_def buildRejected_def observed_def result_of_def)
  then show ?thesis
    using mutant_verdict_grounded [OF r(1)] by (auto simp: judged_world_def canUseSchemaBinary_def)
qed

text \<open>C34: a process that exited on its own with a failure is not always scored from its own output: when
  the oracle bound expires after the exit and before the run is judged, the run is discarded, with no
  error and no diagnostic, whatever test its stream names as failed.\<close>
theorem late_budget_discards_failure:
  assumes "pe_started (pw_mutant w)" "\<not> pe_killed (pw_mutant w)" "pe_error (pw_mutant w) \<noteq> None"
    and "pe_cause (pw_mutant w) = OracleBudget" "pw_parent w = None"
    and "pw_observe w ''mutant test process was cancelled'' = Inr (state, incomplete)"
  shows "classify_mutant w builds defaultPkg =
     Inr \<lparr>rr_outcome = MutantDiscarded, rr_killer = [], rr_memoryDecided = False, rr_observation = state,
       rr_incomplete = incomplete, rr_diagnostic = []\<rparr>"
  using assms by (auto simp: classify_mutant_def oracleBudgetFired_def oracleRunCancelled_def observed_def result_of_def)

lemma late_budget_discards_failure_witness:
  "classify_mutant (sample_world (failing_end\<lparr>pe_cause := OracleBudget\<rparr>) failing_end) True [] =
     Inr \<lparr>rr_outcome = MutantDiscarded, rr_killer = [], rr_memoryDecided = False, rr_observation = zero_observation,
       rr_incomplete = ''mutant test process was cancelled'', rr_diagnostic = []\<rparr>
   \<and> firstFailingTest (pe_stream failing_end) = Some ''p.TestA''"
proof
  show "classify_mutant (sample_world (failing_end\<lparr>pe_cause := OracleBudget\<rparr>) failing_end) True [] =
     Inr \<lparr>rr_outcome = MutantDiscarded, rr_killer = [], rr_memoryDecided = False, rr_observation = zero_observation,
       rr_incomplete = ''mutant test process was cancelled'', rr_diagnostic = []\<rparr>"
    by (rule late_budget_discards_failure) (simp_all add: sample_world_def failing_end_def)
  show "firstFailingTest (pe_stream failing_end) = Some ''p.TestA''"
    by (simp add: failing_end_def firstFailingTest_def sample_stream_def test_event_def top_level_def has_prefix_def)
qed

end
