(* ===== verification/Execution.thy ===== *)
theory Execution
  imports MutantRun
begin

text \<open>
  Execution of one candidate against its oracle groups and the serial confirmation of a kill
  (\<open>execute.go\<close>): the loop over the groups, the attribution gate, the killer-scoped confirmation with
  its memoised baselines, and the fallback to the complete oracle.

  \<open>world\<close> gives, for a group as it is executed and a bound, how the processes of that run end
  (\<^typ>\<open>process_world\<close>); \<open>merge\<close> is the merge of the observations of a candidate.
\<close>

subsection \<open>Test symbols and patterns\<close>

text \<open>The last dot cuts a symbol, unless it lies inside the import path.\<close>

definition splitTestSymbol :: "string \<Rightarrow> string \<times> string" where
  "splitTestSymbol symbol =
     (case cut_last CHR ''.'' symbol of
        None \<Rightarrow> ([], [])
      | Some (pkg, fn) \<Rightarrow> if CHR ''/'' \<in> set fn then ([], []) else (pkg, fn))"

definition regexp_meta :: string where
  "regexp_meta = [CHR 0x5C] @ ''.+*?()|[]{}^$''"

definition QuoteMeta :: "string \<Rightarrow> string" where
  "QuoteMeta s = concat (map (\<lambda>c. if c \<in> set regexp_meta then [CHR 0x5C, c] else [c]) s)"

definition singleTestGroup :: "oracle_group \<Rightarrow> string \<Rightarrow> bool" where
  "singleTestGroup g fn \<longleftrightarrow>
     (if length (gr_passed g) \<noteq> 1 \<or> fn = [] then False
      else let quoted = QuoteMeta fn in
        gr_runRegex g = ''^('' @ quoted @ '')$'' \<or> gr_runRegex g = ''^'' @ quoted @ ''$'')"

definition oracleScope :: "work \<Rightarrow> string list" where
  "oracleScope w = map gr_runRegex (wo_groups w)"

subsection \<open>Attribution\<close>

datatype exec_error =
    RunError run_failure
  | OutsideOracle string
  | NotInBaseline string
  | MergeError string
  | ShapedError string

definition baselineAllowsKill :: "string \<Rightarrow> string list \<Rightarrow> exec_error option" where
  "baselineAllowsKill killer passed =
     (if killer = TimeoutKiller \<or> has_prefix killer PackageKillerPrefix \<or> killer \<in> set passed then None
      else Some (NotInBaseline killer))"

definition attributedKill :: "string \<Rightarrow> string set \<Rightarrow> string list \<Rightarrow> exec_error option" where
  "attributedKill killer oracleSet baselinePassed =
     (if killer = TimeoutKiller \<or> has_prefix killer PackageKillerPrefix then None
      else if killer \<in> oracleSet then baselineAllowsKill killer baselinePassed
      else Some (OutsideOracle killer))"

subsection \<open>The complete oracle\<close>

type_synonym runner = "oracle_group \<Rightarrow> int \<Rightarrow> process_world option \<times> process_world"

definition runMutantObserved :: "runner \<Rightarrow> mutant \<Rightarrow> oracle_group \<Rightarrow> int \<Rightarrow> run_failure + run_result" where
  "runMutantObserved world m g budget =
     (let (schema, overlay) = world g budget in
      runMutantBase m (gr_pkgs g) [] (gr_moduleDir g) (gr_packageDir g) schema overlay)"

record execution =
  ex_outcome :: outcome
  ex_killer :: string
  ex_memoryDecided :: bool
  ex_incomplete :: string
  ex_states :: "observation list"

definition start_execution :: execution where
  "start_execution = \<lparr>ex_outcome = MutantSurvived, ex_killer = [], ex_memoryDecided = False, ex_incomplete = [],
     ex_states = []\<rparr>"

definition group_step :: "string set \<Rightarrow> oracle_group \<Rightarrow> run_result \<Rightarrow> execution \<Rightarrow> exec_error + execution" where
  "group_step oracleSet g r st =
     (case (if rr_diagnostic r = [] \<and> rr_outcome r = MutantKilled \<and> rr_killer r \<noteq> TimeoutKiller
            then attributedKill (rr_killer r) oracleSet (gr_passed g) else None) of
        Some e \<Rightarrow> Inl e
      | None \<Rightarrow> Inr (st\<lparr>ex_outcome := rr_outcome r, ex_killer := rr_killer r,
            ex_memoryDecided := (ex_memoryDecided st \<or> rr_memoryDecided r),
            ex_incomplete := (if ex_incomplete st = [] then rr_incomplete r else ex_incomplete st),
            ex_states := (if rr_diagnostic r = [] then ex_states st @ [rr_observation r] else ex_states st)\<rparr>))"

fun execute_groups :: "runner \<Rightarrow> (oracle_group \<Rightarrow> int) \<Rightarrow> string set \<Rightarrow> mutant \<Rightarrow> oracle_group list \<Rightarrow>
    execution \<Rightarrow> exec_error + execution" where
  "execute_groups world budget oracleSet m [] st = Inr st"
| "execute_groups world budget oracleSet m (g # gs) st =
     (if ex_outcome st \<noteq> MutantSurvived then Inr st
      else case runMutantObserved world m g (budget g) of
        Inl e \<Rightarrow> Inl (RunError e)
      | Inr r \<Rightarrow> (case group_step oracleSet g r st of
            Inl e \<Rightarrow> Inl e
          | Inr st' \<Rightarrow> execute_groups world budget oracleSet m gs st'))"

record scored =
  sc_outcome :: outcome
  sc_killer :: string
  sc_memoryDecided :: bool
  sc_observation :: observation
  sc_incomplete :: string

definition executeMutant :: "runner \<Rightarrow> (oracle_group \<Rightarrow> int) \<Rightarrow> (observation list \<Rightarrow> string + observation) \<Rightarrow>
    work \<Rightarrow> mutant \<Rightarrow> exec_error + scored" where
  "executeMutant world budget merge w m =
     (case execute_groups world budget (wo_oracleSet w) m (wo_groups w) start_execution of
        Inl e \<Rightarrow> Inl e
      | Inr st \<Rightarrow> (case merge (ex_states st) of
            Inl e \<Rightarrow> Inl (MergeError e)
          | Inr state \<Rightarrow> Inr \<lparr>sc_outcome = ex_outcome st, sc_killer = ex_killer st,
              sc_memoryDecided = ex_memoryDecided st, sc_observation = state, sc_incomplete = ex_incomplete st\<rparr>))"

text \<open>A shaped candidate runs in a scratch tree; that run is the argument \<open>shaped\<close>.\<close>

definition executeWorkMutant :: "runner \<Rightarrow> (oracle_group \<Rightarrow> int) \<Rightarrow> (observation list \<Rightarrow> string + observation) \<Rightarrow>
    (work \<Rightarrow> mutant \<Rightarrow> string + outcome \<times> string \<times> bool) \<Rightarrow> work \<Rightarrow> mutant \<Rightarrow> exec_error + scored" where
  "executeWorkMutant world budget merge shaped w m =
     (if wo_shaped w then
        (case shaped w m of
           Inl e \<Rightarrow> Inl (ShapedError e)
         | Inr (out, killer, decided) \<Rightarrow> Inr \<lparr>sc_outcome = out, sc_killer = killer, sc_memoryDecided = decided,
             sc_observation = zero_observation, sc_incomplete = []\<rparr>)
      else executeMutant world budget merge w m)"

subsection \<open>Killer-scoped confirmation\<close>

text \<open>The identity of a scoped baseline probe: the whole shape of the probe.\<close>

type_synonym baseline_key = "string \<times> string \<times> string \<times> string \<times> string"

definition scopedBaselineKey :: "oracle_group \<Rightarrow> baseline_key" where
  "scopedBaselineKey g = (hd (gr_pkgs g), gr_runRegex g, join [nul] (gr_flags g), gr_moduleDir g, gr_packageDir g)"

text \<open>\<open>ground\<close> is the unmutated run of the scoped group: whether it passed and the tests that passed in
  it, \<open>None\<close> when the probe failed.\<close>

definition scopedBaselinePasses :: "(oracle_group \<Rightarrow> (bool \<times> string list) option) \<Rightarrow> oracle_group \<Rightarrow>
    (baseline_key \<Rightarrow> string list option) \<Rightarrow> string list \<times> (baseline_key \<Rightarrow> string list option)" where
  "scopedBaselinePasses ground g memo =
     (let key = scopedBaselineKey g in
      case memo key of
        Some passed \<Rightarrow> (passed, memo)
      | None \<Rightarrow>
          if length (gr_passed g) > 0 then (gr_passed g, memo(key \<mapsto> gr_passed g))
          else let passed = (case ground g of Some (True, tests) \<Rightarrow> tests | _ \<Rightarrow> []) in
            (passed, memo(key \<mapsto> passed)))"

definition scoped_test :: "string \<Rightarrow> string" where
  "scoped_test fn =
     (case str_cut ''/'' fn of
        Some (a, _) \<Rightarrow> if a \<noteq> [] then a else fn
      | None \<Rightarrow> fn)"

definition scopedGroup :: "(oracle_group \<Rightarrow> int) \<Rightarrow> work \<Rightarrow> string \<Rightarrow> (oracle_group \<times> int) option" where
  "scopedGroup budget w killer =
     (if wo_shaped w \<or> killer = TimeoutKiller \<or> has_prefix killer PackageKillerPrefix then None
      else let (pkg, fn) = splitTestSymbol killer in
        if pkg = [] \<or> fn = [] then None
        else let fn = scoped_test fn in
          (case find (\<lambda>g. gr_pkgs g = [pkg]) (wo_groups w) of
             None \<Rightarrow> None
           | Some g \<Rightarrow> Some (g\<lparr>gr_passed := (if singleTestGroup g fn then gr_passed g else []),
                 gr_runRegex := ''^'' @ QuoteMeta fn @ ''$''\<rparr>, budget g)))"

text \<open>The scoped run's verdict: \<open>None\<close> where it confirms nothing and the complete oracle decides.\<close>

definition scoped_verdict :: "(observation list \<Rightarrow> string + observation) \<Rightarrow> string set \<Rightarrow> string list \<Rightarrow>
    run_failure + run_result \<Rightarrow> (exec_error + scored) option" where
  "scoped_verdict merge oracleSet passes run =
     (case run of
        Inl e \<Rightarrow> Some (Inl (RunError e))
      | Inr r \<Rightarrow>
          if rr_diagnostic r = [] \<and> rr_outcome r = MutantKilled \<and> rr_killer r \<noteq> TimeoutKiller \<and>
             \<not> has_prefix (rr_killer r) PackageKillerPrefix then
            (if rr_killer r \<notin> oracleSet then
               Some (case attributedKill (rr_killer r) oracleSet passes of Some e \<Rightarrow> Inl e | None \<Rightarrow> Inl (OutsideOracle (rr_killer r)))
             else if rr_killer r \<in> set passes then
               Some (case merge [rr_observation r] of
                   Inl e \<Rightarrow> Inl (MergeError e)
                 | Inr state \<Rightarrow> Inr \<lparr>sc_outcome = rr_outcome r, sc_killer = rr_killer r,
                     sc_memoryDecided = rr_memoryDecided r, sc_observation = state, sc_incomplete = rr_incomplete r\<rparr>)
             else None)
          else None)"

definition confirmMutant :: "runner \<Rightarrow> (oracle_group \<Rightarrow> int) \<Rightarrow> (observation list \<Rightarrow> string + observation) \<Rightarrow>
    (work \<Rightarrow> mutant \<Rightarrow> string + outcome \<times> string \<times> bool) \<Rightarrow> (oracle_group \<Rightarrow> (bool \<times> string list) option) \<Rightarrow>
    work \<Rightarrow> mutant \<Rightarrow> string \<Rightarrow> (baseline_key \<Rightarrow> string list option) \<Rightarrow>
    (exec_error + scored) \<times> (baseline_key \<Rightarrow> string list option)" where
  "confirmMutant world budget merge shaped ground w m killer memo =
     (case scopedGroup budget w killer of
        None \<Rightarrow> (executeWorkMutant world budget merge shaped w m, memo)
      | Some (g, confirmBudget) \<Rightarrow>
          (let (passes, memo') = scopedBaselinePasses ground g memo in
           (case (if killer \<in> set passes
                  then scoped_verdict merge (wo_oracleSet w) passes (runMutantObserved world m g confirmBudget) else None) of
              Some verdict \<Rightarrow> (verdict, memo')
            | None \<Rightarrow> (executeWorkMutant world budget merge shaped w m, memo'))))"


subsection \<open>Verdicts of the complete oracle\<close>

definition attributed :: "string set \<Rightarrow> oracle_group list \<Rightarrow> string \<Rightarrow> bool" where
  "attributed oracleSet gs killer \<longleftrightarrow> killer = TimeoutKiller \<or> has_prefix killer PackageKillerPrefix \<or>
     (killer \<in> oracleSet \<and> (\<exists>g \<in> set gs. killer \<in> set (gr_passed g)))"

lemma attributedKill_None:
  "attributedKill killer oracleSet passed = None \<longleftrightarrow> killer = TimeoutKiller \<or> has_prefix killer PackageKillerPrefix \<or>
     (killer \<in> oracleSet \<and> killer \<in> set passed)"
  by (auto simp: attributedKill_def baselineAllowsKill_def)

lemma runMutantObserved_killed:
  assumes "runMutantObserved world m g b = Inr r" "rr_outcome r = MutantKilled"
  shows "rr_diagnostic r = []"
  using assms runMutantBase_grounded by (fastforce simp: runMutantObserved_def grounded_def split: prod.splits)

lemma group_step_Inr:
  assumes "group_step oracleSet g r st = Inr st'"
  shows "ex_outcome st' = rr_outcome r" "ex_killer st' = rr_killer r"
    "rr_diagnostic r = [] \<Longrightarrow> rr_outcome r = MutantKilled \<Longrightarrow> attributed oracleSet [g] (rr_killer r)"
  using assms by (auto simp: group_step_def attributed_def attributedKill_None split: option.splits if_splits)

lemma execute_groups_Cons_cases:
  assumes "execute_groups world budget oracleSet m (g # gs) st = Inr st'"
  obtains (stopped) "ex_outcome st \<noteq> MutantSurvived" "st' = st"
  | (runs) r st1 where "ex_outcome st = MutantSurvived" "runMutantObserved world m g (budget g) = Inr r"
      "group_step oracleSet g r st = Inr st1" "execute_groups world budget oracleSet m gs st1 = Inr st'"
  using assms by (auto split: if_splits sum.splits)

definition group_survives :: "runner \<Rightarrow> (oracle_group \<Rightarrow> int) \<Rightarrow> mutant \<Rightarrow> oracle_group \<Rightarrow> bool" where
  "group_survives world budget m g \<longleftrightarrow>
     (\<exists>r. runMutantObserved world m g (budget g) = Inr r \<and> rr_outcome r = MutantSurvived)"

lemma attributed_mono: "attributed oracleSet gs k \<Longrightarrow> set gs \<subseteq> set gs' \<Longrightarrow> attributed oracleSet gs' k"
  by (auto simp: attributed_def)

lemma execute_groups_stopped:
  "ex_outcome st \<noteq> MutantSurvived \<Longrightarrow> execute_groups world budget oracleSet m gs st = Inr st"
  by (cases gs) auto

lemma execute_groups_verdict:
  "execute_groups world budget oracleSet m gs st = Inr st' \<Longrightarrow> ex_outcome st = MutantSurvived \<Longrightarrow>
     (ex_outcome st' = MutantKilled \<longrightarrow> attributed oracleSet gs (ex_killer st')) \<and>
     (ex_outcome st' = MutantSurvived \<longrightarrow> (\<forall>g \<in> set gs. group_survives world budget m g))"
proof (induction gs arbitrary: st)
  case Nil
  then show ?case by simp
next
  case (Cons g gs)
  from Cons.prems(1) show ?case
  proof (cases rule: execute_groups_Cons_cases)
    case stopped
    then show ?thesis using Cons.prems(2) by simp
  next
    case (runs r st1)
    note step = group_step_Inr [OF runs(3)]
    show ?thesis
    proof (cases "rr_outcome r = MutantSurvived")
      case True
      have "(ex_outcome st' = MutantKilled \<longrightarrow> attributed oracleSet gs (ex_killer st')) \<and>
          (ex_outcome st' = MutantSurvived \<longrightarrow> (\<forall>g \<in> set gs. group_survives world budget m g))"
        using Cons.IH [OF runs(4)] step(1) True by simp
      moreover have "group_survives world budget m g"
        using runs(2) True by (auto simp: group_survives_def)
      ultimately show ?thesis
        using attributed_mono [of oracleSet gs _ "g # gs"] by auto
    next
      case False
      then have "st' = st1"
        using execute_groups_stopped [of st1] runs(4) step(1) by simp
      moreover have "attributed oracleSet (g # gs) (rr_killer r)" if "rr_outcome r = MutantKilled"
        using step(3) runMutantObserved_killed [OF runs(2) that] that attributed_mono [of oracleSet "[g]" _ "g # gs"] by auto
      ultimately show ?thesis
        using False step(1,2) by simp
    qed
  qed
qed

lemma executeMutant_cases:
  assumes "executeMutant world budget merge w m = Inr sc"
  obtains st where "execute_groups world budget (wo_oracleSet w) m (wo_groups w) start_execution = Inr st"
    "sc_outcome sc = ex_outcome st" "sc_killer sc = ex_killer st"
  using assms by (auto simp: executeMutant_def split: sum.splits)

definition verdict_stands :: "runner \<Rightarrow> (oracle_group \<Rightarrow> int) \<Rightarrow> work \<Rightarrow> mutant \<Rightarrow> scored \<Rightarrow> bool" where
  "verdict_stands world budget w m sc \<longleftrightarrow>
     (sc_outcome sc = MutantKilled \<longrightarrow> attributed (wo_oracleSet w) (wo_groups w) (sc_killer sc)) \<and>
     (sc_outcome sc = MutantSurvived \<longrightarrow> (\<forall>g \<in> set (wo_groups w). group_survives world budget m g))"

lemma executeMutant_stands:
  assumes "executeMutant world budget merge w m = Inr sc"
  shows "verdict_stands world budget w m sc"
  using assms
proof (cases rule: executeMutant_cases)
  case (1 st)
  have "ex_outcome start_execution = MutantSurvived" by (simp add: start_execution_def)
  then show ?thesis
    using execute_groups_verdict [OF 1(1)] 1(2,3) by (simp add: verdict_stands_def)
qed

text \<open>C2: the keystone of a measurement, for the complete oracle run of a candidate: a kill is the oracle
  bound, a probed package failure, or a test of the target's oracle that passed in the group's
  baseline; and a survivor was run against every oracle group and survived each of them - no group is
  skipped before a verdict.\<close>
theorem complete_oracle_verdict:
  assumes "executeMutant world budget merge w m = Inr sc"
  shows "(sc_outcome sc = MutantKilled \<longrightarrow> attributed (wo_oracleSet w) (wo_groups w) (sc_killer sc))
    \<and> (sc_outcome sc = MutantSurvived \<longrightarrow> (\<forall>g \<in> set (wo_groups w). group_survives world budget m g))"
  using executeMutant_stands [OF assms] by (simp add: verdict_stands_def)

definition sample_group :: oracle_group where
  "sample_group = \<lparr>gr_pkgs = [''p''], gr_passed = [''p.TestA''], gr_runRegex = ''^(TestA|TestB)$'', gr_flags = [],
     gr_moduleDir = [], gr_packageDir = []\<rparr>"

definition sample_work :: work where
  "sample_work = \<lparr>wo_oracle = [''p.TestA'', ''p.TestB''], wo_shaped = False, wo_candidates = [], wo_groups = [sample_group],
     wo_oracleSet = {''p.TestA'', ''p.TestB''}, wo_baselines = [], wo_serve = None, wo_flagged = {}, wo_extend = None,
     wo_extendFrom = 0\<rparr>"

definition sample_runner :: runner where
  "sample_runner g budget = (None, sample_world failing_end failing_end)"

definition first_state :: "observation list \<Rightarrow> string + observation" where
  "first_state states = Inr zero_observation"

lemmas execution_eval = executeMutant_def sample_work_def sample_group_def sample_runner_def first_state_def
  start_execution_def runMutantObserved_def runMutantBase_def canUseSchemaBinary_def sample_mutant_def classify_mutant_def
  sample_world_def failing_end_def oracleBudgetFired_def oracleRunCancelled_def firstFailingTest_def sample_stream_def
  test_event_def top_level_def has_prefix_def buildRejected_def observed_def result_of_def group_step_def
  attributedKill_def baselineAllowsKill_def TimeoutKiller_def PackageKillerPrefix_def

lemma complete_oracle_verdict_witness:
  "\<exists>sc. executeMutant sample_runner (\<lambda>_. 10) first_state sample_work sample_mutant = Inr sc \<and>
     sc_outcome sc = MutantKilled \<and> sc_killer sc = ''p.TestA'' \<and>
     attributed (wo_oracleSet sample_work) (wo_groups sample_work) (sc_killer sc)"
proof -
  obtain sc where sc: "executeMutant sample_runner (\<lambda>_. 10) first_state sample_work sample_mutant = Inr sc"
    "sc_outcome sc = MutantKilled" "sc_killer sc = ''p.TestA''"
    by (simp add: execution_eval)
  then show ?thesis
    using complete_oracle_verdict [OF sc(1)] by blast
qed

subsection \<open>Verdicts of a confirmation\<close>

text \<open>A test passed the scoped group's own unmutated run: the probe of this confirmation, the memo of an
  earlier one, or the group's baseline where the killer is its only test.\<close>

definition passed_alone :: "(oracle_group \<Rightarrow> (bool \<times> string list) option) \<Rightarrow> (baseline_key \<Rightarrow> string list option) \<Rightarrow>
    oracle_group \<Rightarrow> string \<Rightarrow> bool" where
  "passed_alone ground memo g test \<longleftrightarrow>
     (case memo (scopedBaselineKey g) of
        Some passed \<Rightarrow> test \<in> set passed
      | None \<Rightarrow> if gr_passed g \<noteq> [] then test \<in> set (gr_passed g) else (\<exists>tests. ground g = Some (True, tests) \<and> test \<in> set tests))"

text \<open>A group narrowed to one of its tests; it keeps its baseline only if that test was all of it.\<close>

definition only_test :: "string \<Rightarrow> oracle_group \<Rightarrow> oracle_group" where
  "only_test test whole = whole\<lparr>gr_passed := (if singleTestGroup whole test then gr_passed whole else []), gr_runRegex := ''^'' @ QuoteMeta test @ ''$''\<rparr>"

definition scoped_confirmation :: "runner \<Rightarrow> (oracle_group \<Rightarrow> int) \<Rightarrow> (oracle_group \<Rightarrow> (bool \<times> string list) option) \<Rightarrow> work \<Rightarrow> mutant \<Rightarrow>
    string \<Rightarrow> (baseline_key \<Rightarrow> string list option) \<Rightarrow> scored \<Rightarrow> bool" where
  "scoped_confirmation world budget ground w m killer memo sc \<longleftrightarrow>
     (\<exists>whole \<in> set (wo_groups w). \<exists>g r.
        gr_pkgs whole = [fst (splitTestSymbol killer)] \<and> g = only_test (scoped_test (snd (splitTestSymbol killer))) whole \<and>
        passed_alone ground memo g killer \<and>
        runMutantObserved world m g (budget whole) = Inr r \<and> rr_diagnostic r = [] \<and> rr_outcome r = MutantKilled \<and>
        passed_alone ground memo g (rr_killer r) \<and> rr_killer r \<in> wo_oracleSet w \<and>
        sc_outcome sc = MutantKilled \<and> sc_killer sc = rr_killer r \<and> sc_memoryDecided sc = rr_memoryDecided r \<and> sc_incomplete sc = rr_incomplete r)"

lemma passed_alone_iff: "test \<in> set (fst (scopedBaselinePasses ground g memo)) \<longleftrightarrow> passed_alone ground memo g test"
proof (cases "ground g")
  case (Some p)
  then show ?thesis
    by (cases p, cases "fst p") (simp_all add: scopedBaselinePasses_def passed_alone_def Let_def split: option.split)
qed (simp add: scopedBaselinePasses_def passed_alone_def Let_def split: option.split)

lemma scopedGroup_parts:
  assumes "scopedGroup budget w killer = Some (g, b)"
  obtains whole where "whole \<in> set (wo_groups w)" "gr_pkgs whole = [fst (splitTestSymbol killer)]" "b = budget whole"
    "g = only_test (scoped_test (snd (splitTestSymbol killer))) whole"
proof -
  obtain whole where found: "find (\<lambda>g. gr_pkgs g = [fst (splitTestSymbol killer)]) (wo_groups w) = Some whole" "b = budget whole"
    "g = only_test (scoped_test (snd (splitTestSymbol killer))) whole"
    using assms by (auto simp: scopedGroup_def only_test_def Let_def split: if_splits prod.splits option.splits)
  show thesis by (rule that [of whole]) (use found in \<open>auto simp: find_Some_iff in_set_conv_nth\<close>)
qed

lemma scoped_verdict_Inr:
  assumes "scoped_verdict merge oracleSet passes run = Some (Inr sc)"
  shows "\<exists>r. run = Inr r \<and> rr_diagnostic r = [] \<and> rr_outcome r = MutantKilled \<and> rr_killer r \<in> oracleSet \<and> rr_killer r \<in> set passes \<and>
    sc_outcome sc = MutantKilled \<and> sc_killer sc = rr_killer r \<and> sc_memoryDecided sc = rr_memoryDecided r \<and> sc_incomplete sc = rr_incomplete r"
  using assms by (auto simp: scoped_verdict_def split: sum.splits if_splits option.splits)

text \<open>C33: A confirmation's verdict is never weaker evidence than the complete oracle: it is either the
  verdict of the complete oracle's own run of the mutant, so a survivor rests on every group, or a kill that a
  run of the mutant against the killing test alone produced: one of the work's groups narrowed to that test, under the
  group's budget, with no diagnostic, killed by an oracle test; and both that test and the first killer passed that same
  narrowed run of the unmutated tree, by the probe of this confirmation, the memo of an earlier one, or the group's
  baseline where the test is all of the group.\<close>
theorem confirmation_verdict:
  assumes "fst (confirmMutant world budget merge shaped ground w m killer memo) = Inr sc"
  shows "executeWorkMutant world budget merge shaped w m = Inr sc
    \<or> scoped_confirmation world budget ground w m killer memo sc"
proof (cases "scopedGroup budget w killer")
  case None
  then show ?thesis using assms by (simp add: confirmMutant_def)
next
  case (Some p)
  obtain g b where p: "p = (g, b)" by (cases p)
  obtain passes memo' where ps: "scopedBaselinePasses ground g memo = (passes, memo')"
    by (cases "scopedBaselinePasses ground g memo")
  show ?thesis
  proof (cases "if killer \<in> set passes
      then scoped_verdict merge (wo_oracleSet w) passes (runMutantObserved world m g b) else None")
    case None
    then show ?thesis using assms by (simp add: confirmMutant_def Some p ps)
  next
    case verdict: (Some v)
    then have confirmed: "killer \<in> set passes" "scoped_verdict merge (wo_oracleSet w) passes (runMutantObserved world m g b) = Some (Inr sc)"
      using assms by (auto simp: confirmMutant_def Some p ps split: if_splits)
    have alone: "test \<in> set passes \<longleftrightarrow> passed_alone ground memo g test" for test
      using passed_alone_iff [of test ground g memo] ps by simp
    obtain r where r: "runMutantObserved world m g b = Inr r" "rr_diagnostic r = []" "rr_outcome r = MutantKilled" "rr_killer r \<in> wo_oracleSet w"
      "rr_killer r \<in> set passes" "sc_outcome sc = MutantKilled" "sc_killer sc = rr_killer r" "sc_memoryDecided sc = rr_memoryDecided r"
      "sc_incomplete sc = rr_incomplete r"
      using scoped_verdict_Inr [OF confirmed(2)] by blast
    obtain whole where "whole \<in> set (wo_groups w)" "gr_pkgs whole = [fst (splitTestSymbol killer)]" "b = budget whole"
      "g = only_test (scoped_test (snd (splitTestSymbol killer))) whole"
      using scopedGroup_parts [OF Some [unfolded p]] by metis
    then show ?thesis using r confirmed(1) unfolding alone scoped_confirmation_def by blast
  qed
qed

lemma confirmation_verdict_witness:
  "\<exists>sc. fst (confirmMutant sample_runner (\<lambda>_. 10) first_state (\<lambda>_ _. Inl []) (\<lambda>_. Some (True, [''p.TestA'']))
       sample_work sample_mutant ''p.TestA'' Map.empty) = Inr sc \<and> sc_killer sc = ''p.TestA'' \<and>
     (executeWorkMutant sample_runner (\<lambda>_. 10) first_state (\<lambda>_ _. Inl []) sample_work sample_mutant = Inr sc
       \<or> scoped_confirmation sample_runner (\<lambda>_. 10) (\<lambda>_. Some (True, [''p.TestA''])) sample_work sample_mutant ''p.TestA'' Map.empty sc)"
proof -
  let ?g = "sample_group\<lparr>gr_passed := [], gr_runRegex := ''^TestA$''\<rparr>"
  let ?ground = "\<lambda>_::oracle_group. Some (True, [''p.TestA''])"
  have g: "scopedGroup (\<lambda>_. 10) sample_work ''p.TestA'' = Some (?g, 10)"
    by (simp add: scopedGroup_def sample_work_def sample_group_def splitTestSymbol_def scoped_test_def singleTestGroup_def
        QuoteMeta_def regexp_meta_def has_prefix_def TimeoutKiller_def PackageKillerPrefix_def)
  obtain memo where ps: "scopedBaselinePasses ?ground ?g Map.empty = ([''p.TestA''], memo)"
    by (simp add: scopedBaselinePasses_def Let_def)
  obtain sc where sc: "scoped_verdict first_state (wo_oracleSet sample_work) [''p.TestA''] (runMutantObserved sample_runner sample_mutant ?g 10)
      = Some (Inr sc)" "sc_killer sc = ''p.TestA''"
    by (simp add: scoped_verdict_def execution_eval)
  have "fst (confirmMutant sample_runner (\<lambda>_. 10) first_state (\<lambda>_ _. Inl []) ?ground
       sample_work sample_mutant ''p.TestA'' Map.empty) = Inr sc"
    by (simp add: confirmMutant_def g ps sc(1))
  then show ?thesis
    using confirmation_verdict sc(2) by blast
qed

end
