(* ===== verification/Coverage.thy ===== *)
theory Coverage
  imports GoStrings
begin

text \<open>
  Coverage profiles of the baseline (\<open>internal/engine/coverage.go\<close>): executed spans per file and
  the queries over them, the union of profiles, the wire form of the bank, and the directive seam
  that re-keys \<open>//line\<close> files and marks the files whose coverage is unsound.

  The profile parser of \<open>go-x-tools/cover\<close> is outside the repository: \<open>parseCoverageProfile\<close> takes
  the profiles it returns. The syntax walk of a file is the list of the adjusted file names of its
  nodes with a valid position, in visiting order.
\<close>

subsection \<open>Spans and queries\<close>

record cover_span =
  sp_startLine :: int
  sp_startCol :: int
  sp_endLine :: int
  sp_endCol :: int

record coverage =
  cov_covered :: "string \<Rightarrow> cover_span list option"
  cov_unsound :: "string set"

definition empty_coverage :: coverage where
  "empty_coverage = \<lparr>cov_covered = Map.empty, cov_unsound = {}\<rparr>"

definition spans_of :: "coverage \<Rightarrow> string \<Rightarrow> cover_span list" where
  "spans_of c file = get_or [] (cov_covered c file)"

definition before :: "int \<Rightarrow> int \<Rightarrow> int \<Rightarrow> int \<Rightarrow> bool" where
  "before l1 c1 l2 c2 \<longleftrightarrow> l1 < l2 \<or> (l1 = l2 \<and> c1 < c2)"

definition Intersects :: "coverage \<Rightarrow> string \<Rightarrow> int \<Rightarrow> int \<Rightarrow> int \<Rightarrow> int \<Rightarrow> bool" where
  "Intersects c file startLine startCol endLine endCol \<longleftrightarrow>
     (\<exists>s \<in> set (spans_of c file). before startLine startCol (sp_endLine s) (sp_endCol s) \<and>
        before (sp_startLine s) (sp_startCol s) endLine endCol)"

definition Covered :: "coverage \<Rightarrow> string \<Rightarrow> int \<Rightarrow> int \<Rightarrow> bool" where
  "Covered c file line col \<longleftrightarrow>
     (\<exists>s \<in> set (spans_of c file).
        (line > sp_startLine s \<or> (line = sp_startLine s \<and> col \<ge> sp_startCol s)) \<and>
        (line < sp_endLine s \<or> (line = sp_endLine s \<and> col < sp_endCol s)))"

definition Unsound :: "coverage \<Rightarrow> string \<Rightarrow> bool" where
  "Unsound c file \<longleftrightarrow> file \<in> cov_unsound c"

definition CoversFile :: "coverage \<Rightarrow> string \<Rightarrow> bool" where
  "CoversFile c file \<longleftrightarrow> length (spans_of c file) > 0"

text \<open>The union of two profiles: the spans of \<open>other\<close> come after the receiver's own.\<close>

definition Merge :: "coverage \<Rightarrow> coverage \<Rightarrow> coverage" where
  "Merge c other =
     \<lparr>cov_covered = (\<lambda>file. case cov_covered other file of
          None \<Rightarrow> cov_covered c file
        | Some spans \<Rightarrow> Some (spans_of c file @ spans)),
      cov_unsound = cov_unsound c \<union> cov_unsound other\<rparr>"

subsection \<open>The profile parser's result\<close>

record profile_block =
  pb_span :: cover_span
  pb_Count :: int

record directive_view =
  dv_Renames :: "string \<Rightarrow> string option"
  dv_Unsound :: "string set"

definition add_block :: "string \<Rightarrow> profile_block \<Rightarrow> (string \<Rightarrow> cover_span list option) \<Rightarrow>
    (string \<Rightarrow> cover_span list option)" where
  "add_block name b covered =
     (if pb_Count b = 0 then covered
      else covered(name \<mapsto> get_or [] (covered name) @ [pb_span b]))"

definition add_profile :: "directive_view \<Rightarrow> string \<times> profile_block list \<Rightarrow> (string \<Rightarrow> cover_span list option) \<Rightarrow>
    (string \<Rightarrow> cover_span list option)" where
  "add_profile view p covered =
     fold (add_block (case dv_Renames view (fst p) of Some onDisk \<Rightarrow> onDisk | None \<Rightarrow> fst p)) (snd p) covered"

definition parseCoverageProfile :: "(string \<times> profile_block list) list \<Rightarrow> directive_view \<Rightarrow> coverage" where
  "parseCoverageProfile profiles view =
     \<lparr>cov_covered = fold (add_profile view) profiles Map.empty, cov_unsound = dv_Unsound view\<rparr>"

subsection \<open>The wire form\<close>

record persisted_coverage =
  pc_Covered :: "string \<Rightarrow> (int \<times> int \<times> int \<times> int) list option"
  pc_Unsound :: "string list"

definition span_row :: "cover_span \<Rightarrow> int \<times> int \<times> int \<times> int" where
  "span_row s = (sp_startLine s, sp_startCol s, sp_endLine s, sp_endCol s)"

definition row_span :: "int \<times> int \<times> int \<times> int \<Rightarrow> cover_span" where
  "row_span r = (case r of (a, b, c, d) \<Rightarrow> \<lparr>sp_startLine = a, sp_startCol = b, sp_endLine = c, sp_endCol = d\<rparr>)"

definition Persist :: "coverage \<Rightarrow> persisted_coverage" where
  "Persist c =
     \<lparr>pc_Covered = (\<lambda>file. map_option (map span_row) (cov_covered c file)),
      pc_Unsound = sorted_list_of_set (cov_unsound c)\<rparr>"

definition Restore :: "persisted_coverage \<Rightarrow> coverage" where
  "Restore p =
     \<lparr>cov_covered = (\<lambda>file. map_option (map row_span) (pc_Covered p file)),
      cov_unsound = set (pc_Unsound p)\<rparr>"

subsection \<open>The directive seam\<close>

record package_files =
  pf_base :: string
  pf_PkgPath :: string
  pf_GoFiles :: "string list"
  pf_Syntax :: "(string \<times> string list) list"

record directive_state =
  ds_seen :: "string set"
  ds_unsound :: "string set"
  ds_claims :: "(string \<times> string) list"

definition compiled_files :: "package_files list \<Rightarrow> string \<Rightarrow> string list" where
  "compiled_files pkgs bp = concat (map (\<lambda>pkg. if pf_base pkg = bp then map path_clean (pf_GoFiles pkg) else []) pkgs)"

definition sibling_bases :: "package_files list \<Rightarrow> string \<Rightarrow> string list" where
  "sibling_bases pkgs bp =
     concat (map (\<lambda>pkg. if pf_base pkg = bp \<and> pf_PkgPath pkg = bp
         then filter (\<lambda>base. \<not> has_suffix base ''_test.go'') (map (\<lambda>gf. path_base (path_clean gf)) (pf_GoFiles pkg))
         else []) pkgs)"

definition in_package :: "string \<Rightarrow> string \<Rightarrow> string" where
  "in_package bp base = bp @ ''/'' @ base"

text \<open>One node of the walk.\<close>

definition node_step :: "package_files list \<Rightarrow> string \<Rightarrow> string \<Rightarrow> string \<Rightarrow> directive_state \<Rightarrow> directive_state" where
  "node_step pkgs bp onDisk adjusted st =
     (if adjusted = [] \<or> adjusted \<in> ds_seen st then st
      else let st = st\<lparr>ds_seen := insert adjusted (ds_seen st)\<rparr>; base = path_base adjusted in
        if base = onDisk then st
        else if base \<in> set (sibling_bases pkgs bp) then
          st\<lparr>ds_unsound := insert (in_package bp base) (insert (in_package bp onDisk) (ds_unsound st))\<rparr>
        else st\<lparr>ds_claims := ds_claims st @ [(in_package bp base, in_package bp onDisk)]\<rparr>)"

definition file_step :: "package_files list \<Rightarrow> string \<Rightarrow> string \<times> string list \<Rightarrow> directive_state \<Rightarrow> directive_state" where
  "file_step pkgs bp f st =
     (let onDiskAbs = path_clean (fst f); onDisk = path_base onDiskAbs in
      if onDiskAbs \<notin> set (compiled_files pkgs bp) then st
      else if has_suffix onDisk ''_test.go'' then st
      else fold (node_step pkgs bp onDisk) (snd f) (st\<lparr>ds_seen := {}\<rparr>))"

definition package_step :: "package_files list \<Rightarrow> package_files \<Rightarrow> directive_state \<Rightarrow> directive_state" where
  "package_step pkgs pkg st = fold (file_step pkgs (pf_base pkg)) (pf_Syntax pkg) st"

definition claimants :: "(string \<times> string) list \<Rightarrow> string \<Rightarrow> string list" where
  "claimants claims key = remdups (map snd (filter (\<lambda>c. fst c = key) claims))"

definition DirectiveCoverage :: "package_files list \<Rightarrow> directive_view" where
  "DirectiveCoverage pkgs =
     (let st = fold (package_step pkgs) pkgs \<lparr>ds_seen = {}, ds_unsound = {}, ds_claims = []\<rparr>;
          claims = ds_claims st in
      \<lparr>dv_Renames = (\<lambda>key. case claimants claims key of [value] \<Rightarrow> Some value | _ \<Rightarrow> None),
       dv_Unsound = ds_unsound st \<union>
         set (concat (map (\<lambda>key. case claimants claims key of [_] \<Rightarrow> [] | values \<Rightarrow> values) (map fst claims)))\<rparr>)"


subsection \<open>Queries\<close>

text \<open>Positions in a half-open range, in the order of lines and columns.\<close>

definition in_range :: "int \<Rightarrow> int \<Rightarrow> int \<Rightarrow> int \<Rightarrow> int \<Rightarrow> int \<Rightarrow> bool" where
  "in_range sl sc el ec l k \<longleftrightarrow> \<not> before l k sl sc \<and> before l k el ec"

lemma before_order:
  "\<not> before l k l k" "before a b c d \<Longrightarrow> before c d e f \<Longrightarrow> before a b e f"
  "before a b c d \<Longrightarrow> \<not> before e f c d \<Longrightarrow> before a b e f"
  "\<not> before c d a b \<Longrightarrow> before c d e f \<Longrightarrow> before a b e f"
  by (auto simp: before_def)

lemma Covered_alt: "Covered c file l k \<longleftrightarrow>
    (\<exists>s \<in> set (spans_of c file). in_range (sp_startLine s) (sp_startCol s) (sp_endLine s) (sp_endCol s) l k)"
proof -
  have "(l > a \<or> (l = a \<and> k \<ge> b)) \<and> (l < c \<or> (l = c \<and> k < d)) \<longleftrightarrow> in_range a b c d l k" for a b c d
    by (auto simp: in_range_def before_def)
  then show ?thesis by (simp add: Covered_def)
qed

lemma in_range_after: "before sl sc l k \<Longrightarrow> before l k el ec \<Longrightarrow> in_range sl sc el ec l k"
  by (auto simp: in_range_def before_def)

lemma in_range_start: "before sl sc el ec \<Longrightarrow> in_range sl sc el ec sl sc"
  by (simp add: in_range_def before_def)

lemma Covered_at: "s \<in> set (spans_of c file) \<Longrightarrow>
    in_range (sp_startLine s) (sp_startCol s) (sp_endLine s) (sp_endCol s) l k \<Longrightarrow> Covered c file l k"
  unfolding Covered_alt by blast

definition proper_spans :: "coverage \<Rightarrow> string \<Rightarrow> bool" where
  "proper_spans c file \<longleftrightarrow>
     (\<forall>s \<in> set (spans_of c file). before (sp_startLine s) (sp_startCol s) (sp_endLine s) (sp_endCol s))"

text \<open>the range query is the existential closure of the point query: a non-empty half-open range
  intersects the executed blocks of a file exactly when some position of the range is covered, as
  long as the profile has no empty block.\<close>
theorem intersects_iff_covered_point:
  assumes "before sl sc el ec" and "proper_spans c file"
  shows "Intersects c file sl sc el ec \<longleftrightarrow> (\<exists>l k. in_range sl sc el ec l k \<and> Covered c file l k)"
proof
  assume "Intersects c file sl sc el ec"
  then obtain s where s: "s \<in> set (spans_of c file)" "before sl sc (sp_endLine s) (sp_endCol s)"
    "before (sp_startLine s) (sp_startCol s) el ec"
    by (auto simp: Intersects_def)
  have proper: "before (sp_startLine s) (sp_startCol s) (sp_endLine s) (sp_endCol s)"
    using assms(2) s(1) by (auto simp: proper_spans_def)
  show "\<exists>l k. in_range sl sc el ec l k \<and> Covered c file l k"
  proof (cases "before sl sc (sp_startLine s) (sp_startCol s)")
    case True
    show ?thesis
      using in_range_after [OF True s(3)] Covered_at [OF s(1) in_range_start [OF proper]] by blast
  next
    case False
    then have "in_range (sp_startLine s) (sp_startCol s) (sp_endLine s) (sp_endCol s) sl sc"
      using s(2) by (simp add: in_range_def)
    then show ?thesis
      using in_range_start [OF assms(1)] Covered_at [OF s(1)] by blast
  qed
next
  assume "\<exists>l k. in_range sl sc el ec l k \<and> Covered c file l k"
  then show "Intersects c file sl sc el ec"
    using before_order(4) unfolding Covered_alt Intersects_def in_range_def by blast
qed

definition sample_coverage :: coverage where
  "sample_coverage = \<lparr>cov_covered = [''p/lib.go'' \<mapsto>
     [\<lparr>sp_startLine = 24, sp_startCol = 2, sp_endLine = 24, sp_endCol = 12\<rparr>]], cov_unsound = {''p/gen.go''}\<rparr>"

lemma intersects_iff_covered_point_witness:
  "Intersects sample_coverage ''p/lib.go'' 24 11 24 12 \<and> \<not> Intersects sample_coverage ''p/lib.go'' 24 12 26 3 \<and>
   (\<exists>l k. in_range 24 11 24 12 l k \<and> Covered sample_coverage ''p/lib.go'' l k)"
proof -
  have "Intersects sample_coverage ''p/lib.go'' 24 11 24 12"
    and "\<not> Intersects sample_coverage ''p/lib.go'' 24 12 26 3"
    by (simp_all add: Intersects_def sample_coverage_def spans_of_def before_def)
  moreover have "before 24 11 24 12" and "proper_spans sample_coverage ''p/lib.go''"
    by (simp_all add: before_def proper_spans_def sample_coverage_def spans_of_def)
  ultimately show ?thesis
    using intersects_iff_covered_point [of 24 11 24 12 sample_coverage "''p/lib.go''"] by simp
qed

text \<open>a union of profiles answers every query as the two profiles together: a range intersects it,
  a position is covered by it and a file is unsound in it exactly when this holds in one of them.\<close>
theorem merge_answers_both:
  "(Intersects (Merge a b) file sl sc el ec \<longleftrightarrow> Intersects a file sl sc el ec \<or> Intersects b file sl sc el ec) \<and>
   (Covered (Merge a b) file l k \<longleftrightarrow> Covered a file l k \<or> Covered b file l k) \<and>
   (CoversFile (Merge a b) file \<longleftrightarrow> CoversFile a file \<or> CoversFile b file) \<and>
   (Unsound (Merge a b) file \<longleftrightarrow> Unsound a file \<or> Unsound b file)"
proof -
  have "spans_of (Merge a b) file = spans_of a file @ spans_of b file"
    by (auto simp: Merge_def spans_of_def split: option.split)
  then show ?thesis
    unfolding Intersects_def Covered_def CoversFile_def Unsound_def by (auto simp: Merge_def)
qed

subsection \<open>Persisting\<close>

lemma row_span_row [simp]: "row_span (span_row s) = s"
  by (simp add: row_span_def span_row_def)

text \<open>the bank's wire form of a coverage restores to the same coverage: every span in its order
  and every unsound mark.\<close>
theorem persist_restore_roundtrip:
  assumes "finite (cov_unsound c)"
  shows "Restore (Persist c) = c"
proof -
  have "(\<lambda>file. map_option (map row_span) (map_option (map span_row) (cov_covered c file))) = cov_covered c"
    by (simp add: option.map_comp comp_def option.map_ident)
  then show ?thesis
    using assms by (simp add: Restore_def Persist_def)
qed

lemma persist_restore_roundtrip_witness:
  "Restore (Persist sample_coverage) = sample_coverage \<and> pc_Unsound (Persist sample_coverage) = [''p/gen.go'']"
  using persist_restore_roundtrip [of sample_coverage] by (simp add: sample_coverage_def Persist_def)

subsection \<open>Parsing a profile\<close>

definition profile_name :: "directive_view \<Rightarrow> string \<Rightarrow> string" where
  "profile_name view name = (case dv_Renames view name of Some onDisk \<Rightarrow> onDisk | None \<Rightarrow> name)"

lemma fold_add_block:
  "get_or [] (fold (add_block name) bs covered file) =
     get_or [] (covered file) @ (if name = file then map pb_span (filter (\<lambda>b. pb_Count b \<noteq> 0) bs) else [])"
  by (induction bs arbitrary: covered) (auto simp: add_block_def)

lemma fold_add_profile:
  "get_or [] (fold (add_profile view) ps covered file) = get_or [] (covered file) @
     concat (map (\<lambda>p. if profile_name view (fst p) = file
       then map pb_span (filter (\<lambda>b. pb_Count b \<noteq> 0) (snd p)) else []) ps)"
  by (induction ps arbitrary: covered) (auto simp: add_profile_def fold_add_block profile_name_def)

text \<open>the spans a parsed profile has for a file are exactly the blocks that executed, of the
  profiles whose name the directive seam maps to the file.\<close>
theorem parsed_profile_spans:
  "s \<in> set (spans_of (parseCoverageProfile profiles view) file) \<longleftrightarrow>
     (\<exists>p \<in> set profiles. profile_name view (fst p) = file \<and> (\<exists>b \<in> set (snd p). pb_Count b \<noteq> 0 \<and> s = pb_span b))"
  by (force simp: parseCoverageProfile_def spans_of_def fold_add_profile)

subsection \<open>The directive seam is fail-closed\<close>

definition grows :: "directive_state \<Rightarrow> directive_state \<Rightarrow> bool" where
  "grows st st' \<longleftrightarrow> ds_unsound st \<subseteq> ds_unsound st' \<and> set (ds_claims st) \<subseteq> set (ds_claims st')"

lemma grows_refl: "grows st st"
  by (simp add: grows_def)

lemma grows_trans: "grows a b \<Longrightarrow> grows b c \<Longrightarrow> grows a c"
  by (auto simp: grows_def)

lemma grows_fold: "(\<And>x s. grows s (f x s)) \<Longrightarrow> grows st (fold f xs st)"
  by (induction xs arbitrary: st) (auto intro: grows_refl grows_trans)

lemma node_grows: "grows st (node_step pkgs bp onDisk a st)"
  by (auto simp: grows_def node_step_def Let_def)

lemma file_grows: "grows st (file_step pkgs bp f st)"
proof -
  have "grows (st\<lparr>ds_seen := {}\<rparr>) (fold (node_step pkgs bp d) as (st\<lparr>ds_seen := {}\<rparr>))" for d as
    by (rule grows_fold) (rule node_grows)
  then show ?thesis
    by (auto simp: file_step_def Let_def grows_def)
qed

lemma package_grows: "grows st (package_step pkgs pkg st)"
  unfolding package_step_def by (rule grows_fold) (rule file_grows)

definition recorded :: "string \<Rightarrow> string \<Rightarrow> string \<Rightarrow> directive_state \<Rightarrow> bool" where
  "recorded bp onDisk a st \<longleftrightarrow> in_package bp onDisk \<in> ds_unsound st \<or>
     (in_package bp (path_base a), in_package bp onDisk) \<in> set (ds_claims st)"

lemma recorded_grows: "recorded bp d a st \<Longrightarrow> grows st st' \<Longrightarrow> recorded bp d a st'"
  by (auto simp: recorded_def grows_def)

lemma node_records:
  "(\<forall>a \<in> ds_seen st. path_base a \<noteq> d \<longrightarrow> recorded bp d a st) \<Longrightarrow> st' = node_step pkgs bp d x st \<Longrightarrow>
     (\<forall>a \<in> ds_seen st'. path_base a \<noteq> d \<longrightarrow> recorded bp d a st') \<and> ds_seen st \<subseteq> ds_seen st' \<and>
     (x \<noteq> [] \<longrightarrow> x \<in> ds_seen st')"
  by (auto simp: node_step_def Let_def recorded_def)

lemma nodes_record:
  "(\<forall>a \<in> ds_seen st. path_base a \<noteq> d \<longrightarrow> recorded bp d a st) \<Longrightarrow> st' = fold (node_step pkgs bp d) xs st \<Longrightarrow>
     (\<forall>a \<in> ds_seen st'. path_base a \<noteq> d \<longrightarrow> recorded bp d a st') \<and> ds_seen st \<subseteq> ds_seen st' \<and>
     set xs - {[]} \<subseteq> ds_seen st'"
proof (induction xs arbitrary: st)
  case Nil
  then show ?case by simp
next
  case (Cons x xs)
  note step = node_records [OF Cons.prems(1) refl, of pkgs x]
  show ?case
    using Cons.IH [of "node_step pkgs bp d x st"] step Cons.prems(2) by auto
qed

definition directive_file :: "package_files list \<Rightarrow> package_files \<Rightarrow> string \<Rightarrow> string \<Rightarrow> string \<Rightarrow> bool" where
  "directive_file pkgs pkg path onDisk a \<longleftrightarrow>
     (\<exists>adjusted. (path, adjusted) \<in> set (pf_Syntax pkg) \<and> a \<in> set adjusted) \<and> a \<noteq> [] \<and>
     onDisk = path_base (path_clean path) \<and> path_base a \<noteq> onDisk \<and>
     path_clean path \<in> set (compiled_files pkgs (pf_base pkg)) \<and> \<not> has_suffix onDisk ''_test.go''"

lemma file_records:
  assumes "a \<in> set adjusted" "a \<noteq> []" "path_base a \<noteq> path_base (path_clean path)"
    "path_clean path \<in> set (compiled_files pkgs bp)" "\<not> has_suffix (path_base (path_clean path)) ''_test.go''"
  shows "recorded bp (path_base (path_clean path)) a (file_step pkgs bp (path, adjusted) st)"
  using nodes_record [of "st\<lparr>ds_seen := {}\<rparr>" "path_base (path_clean path)" bp _ pkgs adjusted, OF _ refl] assms
  by (auto simp: file_step_def Let_def)

lemma fold_records:
  assumes "x \<in> set xs" "\<And>s. recorded bp d a (f x s)" "\<And>y s. grows s (f y s)"
  shows "recorded bp d a (fold f xs st)"
  using assms(1)
proof (induction xs arbitrary: st)
  case Nil
  then show ?case by simp
next
  case (Cons y ys)
  show ?case
  proof (cases "x \<in> set ys")
    case True
    then show ?thesis using Cons.IH by simp
  next
    case False
    then have "recorded bp d a (f y st)" using Cons.prems assms(2) by auto
    then show ?thesis using recorded_grows grows_fold [of f, OF assms(3)] by simp
  qed
qed

lemma package_records:
  assumes "directive_file pkgs pkg path d a"
  shows "recorded (pf_base pkg) d a (package_step pkgs pkg st)"
proof -
  obtain adjusted where f: "(path, adjusted) \<in> set (pf_Syntax pkg)" "a \<in> set adjusted"
    using assms by (auto simp: directive_file_def)
  show ?thesis
    unfolding package_step_def
    by (rule fold_records [OF f(1)]) (use file_records [OF f(2)] assms file_grows in \<open>auto simp: directive_file_def\<close>)
qed


definition claim_of :: "package_files list \<Rightarrow> string \<times> string \<Rightarrow> bool" where
  "claim_of pkgs c \<longleftrightarrow> (\<exists>pkg path d a. pkg \<in> set pkgs \<and> directive_file pkgs pkg path d a \<and>
     path_base a \<notin> set (sibling_bases pkgs (pf_base pkg)) \<and>
     c = (in_package (pf_base pkg) (path_base a), in_package (pf_base pkg) d))"

definition claims_ok :: "package_files list \<Rightarrow> directive_state \<Rightarrow> bool" where
  "claims_ok pkgs st \<longleftrightarrow> (\<forall>c \<in> set (ds_claims st). claim_of pkgs c)"

lemma claims_ok_fold:
  "(\<And>x s. x \<in> set xs \<Longrightarrow> claims_ok pkgs s \<Longrightarrow> claims_ok pkgs (f x s)) \<Longrightarrow> claims_ok pkgs st \<Longrightarrow>
     claims_ok pkgs (fold f xs st)"
  by (induction xs arbitrary: st) auto

lemma file_claims_ok:
  assumes "pkg \<in> set pkgs" "f \<in> set (pf_Syntax pkg)" "claims_ok pkgs st"
  shows "claims_ok pkgs (file_step pkgs (pf_base pkg) f st)"
proof -
  obtain path adjusted where f: "f = (path, adjusted)" by (cases f)
  let ?d = "path_base (path_clean path)"
  have node: "claims_ok pkgs (node_step pkgs (pf_base pkg) ?d a s)"
    if a: "a \<in> set adjusted" and s: "claims_ok pkgs s" and
      c: "path_clean path \<in> set (compiled_files pkgs (pf_base pkg))" "\<not> has_suffix ?d ''_test.go''" for a s
  proof (cases "a = [] \<or> path_base a = ?d \<or> path_base a \<in> set (sibling_bases pkgs (pf_base pkg))")
    case True
    then show ?thesis using s by (auto simp: node_step_def Let_def claims_ok_def)
  next
    case False
    then have "directive_file pkgs pkg path ?d a"
      using assms(2) f a c by (auto simp: directive_file_def)
    then have "claim_of pkgs (in_package (pf_base pkg) (path_base a), in_package (pf_base pkg) ?d)"
      unfolding claim_of_def using assms(1) False by blast
    then show ?thesis using s by (auto simp: node_step_def Let_def claims_ok_def)
  qed
  have "claims_ok pkgs (fold (node_step pkgs (pf_base pkg) ?d) adjusted (st\<lparr>ds_seen := {}\<rparr>))"
    if "path_clean path \<in> set (compiled_files pkgs (pf_base pkg))" "\<not> has_suffix ?d ''_test.go''"
    by (rule claims_ok_fold) (use node that assms(3) in \<open>auto simp: claims_ok_def\<close>)
  then show ?thesis
    using assms(3) by (auto simp: file_step_def Let_def f)
qed

definition directive_walk :: "package_files list \<Rightarrow> directive_state" where
  "directive_walk pkgs = fold (package_step pkgs) pkgs \<lparr>ds_seen = {}, ds_unsound = {}, ds_claims = []\<rparr>"

lemma directive_walk_ok: "claims_ok pkgs (directive_walk pkgs)"
  unfolding directive_walk_def
proof (rule claims_ok_fold)
  fix pkg s
  assume "pkg \<in> set pkgs" "claims_ok pkgs s"
  then show "claims_ok pkgs (package_step pkgs pkg s)"
    unfolding package_step_def by (intro claims_ok_fold) (auto intro: file_claims_ok)
qed (simp add: claims_ok_def)

lemma set_claimants: "set (claimants claims key) = {v. (key, v) \<in> set claims}"
  by (force simp: claimants_def)

lemma claimants_single: "claimants claims key = [v] \<Longrightarrow> (key, v) \<in> set claims"
  using set_claimants [of claims key] by auto

lemma claimants_contended:
  assumes "(key, v) \<in> set claims" "claimants claims key \<noteq> [v]"
  shows "v \<in> set (case claimants claims key of [_] \<Rightarrow> [] | values \<Rightarrow> values)"
proof -
  have "v \<in> set (claimants claims key)"
    using assms(1) by (simp add: set_claimants)
  then show ?thesis
    using assms(2) by (cases "claimants claims key"; cases "tl (claimants claims key)") auto
qed

text \<open>the directive seam is fail-closed. A directive spelling of a compiled, non-test source is
  either re-keyed to that very source or the source is marked unsound, so no query on it is a
  coverage verdict; and every re-keying is earned: its name is a spelling in exactly the source it is
  re-keyed to, a compiled non-test source of the package, and is no sibling that cover instruments
  there.\<close>
theorem directive_seam_fail_closed:
  assumes "pkg \<in> set pkgs" and "directive_file pkgs pkg path onDisk a"
  shows "(dv_Renames (DirectiveCoverage pkgs) (in_package (pf_base pkg) (path_base a)) = Some (in_package (pf_base pkg) onDisk)
      \<or> in_package (pf_base pkg) onDisk \<in> dv_Unsound (DirectiveCoverage pkgs))
    \<and> (dv_Renames (DirectiveCoverage pkgs) key = Some v \<longrightarrow> claim_of pkgs (key, v))"
proof
  let ?st = "directive_walk pkgs"
  have rec: "recorded (pf_base pkg) onDisk a ?st"
    unfolding directive_walk_def
    by (rule fold_records [OF assms(1)]) (use package_records [OF assms(2)] package_grows in auto)
  have view: "DirectiveCoverage pkgs =
     \<lparr>dv_Renames = (\<lambda>key. case claimants (ds_claims ?st) key of [value] \<Rightarrow> Some value | _ \<Rightarrow> None),
       dv_Unsound = ds_unsound ?st \<union> set (concat (map (\<lambda>key. case claimants (ds_claims ?st) key of [_] \<Rightarrow> [] | values \<Rightarrow> values)
         (map fst (ds_claims ?st))))\<rparr>"
    by (simp add: DirectiveCoverage_def directive_walk_def Let_def)
  let ?key = "in_package (pf_base pkg) (path_base a)" and ?v = "in_package (pf_base pkg) onDisk"
  show "dv_Renames (DirectiveCoverage pkgs) ?key = Some ?v \<or> ?v \<in> dv_Unsound (DirectiveCoverage pkgs)"
  proof (cases "?v \<in> ds_unsound ?st \<or> claimants (ds_claims ?st) ?key = [?v]")
    case True
    then show ?thesis by (auto simp: view)
  next
    case False
    then have "(?key, ?v) \<in> set (ds_claims ?st)"
      using rec by (simp add: recorded_def)
    moreover from this have "?v \<in> set (case claimants (ds_claims ?st) ?key of [_] \<Rightarrow> [] | values \<Rightarrow> values)"
      using False by (intro claimants_contended) auto
    ultimately show ?thesis by (force simp: view)
  qed
  show "dv_Renames (DirectiveCoverage pkgs) key = Some v \<longrightarrow> claim_of pkgs (key, v)"
    using directive_walk_ok [of pkgs] claimants_single [of "ds_claims ?st" key v]
    by (auto simp: view claims_ok_def split: list.splits)
qed

definition sample_package :: package_files where
  "sample_package = \<lparr>pf_base = ''p'', pf_PkgPath = ''p'', pf_GoFiles = [''/p/a.go'', ''/p/b.go''],
     pf_Syntax = [(''/p/a.go'', [''/p/a.go'', ''g.y'']), (''/p/b.go'', [''/p/b.go'', ''a.go''])]\<rparr>"

lemma directive_seam_fail_closed_witness:
  "dv_Renames (DirectiveCoverage [sample_package]) ''p/g.y'' = Some ''p/a.go'' \<and>
   in_package (pf_base sample_package) ''a.go'' = ''p/a.go'' \<and>
   (dv_Renames (DirectiveCoverage [sample_package]) (in_package ''p'' (path_base ''g.y'')) = Some (in_package ''p'' ''a.go'')
     \<or> in_package ''p'' ''a.go'' \<in> dv_Unsound (DirectiveCoverage [sample_package]))"
proof -
  have "directive_file [sample_package] sample_package ''/p/a.go'' ''a.go'' ''g.y''"
    by (auto simp: directive_file_def sample_package_def path_clean_def path_base_def compiled_files_def has_suffix_def
        has_prefix_def)
  then have "dv_Renames (DirectiveCoverage [sample_package]) (in_package (pf_base sample_package) (path_base ''g.y''))
      = Some (in_package (pf_base sample_package) ''a.go'')
     \<or> in_package (pf_base sample_package) ''a.go'' \<in> dv_Unsound (DirectiveCoverage [sample_package])"
    using directive_seam_fail_closed [of sample_package "[sample_package]"] by simp
  moreover have "dv_Renames (DirectiveCoverage [sample_package]) ''p/g.y'' = Some ''p/a.go''"
    by (simp add: DirectiveCoverage_def Let_def package_step_def file_step_def node_step_def sample_package_def
        path_clean_def path_base_def compiled_files_def sibling_bases_def has_suffix_def has_prefix_def
        in_package_def claimants_def)
  ultimately show ?thesis
    by (simp add: sample_package_def in_package_def)
qed

end
