(* ===== verification/Buckets.thy ===== *)
theory Buckets
  imports Execution Coverage Exemptions
begin

text \<open>
  Why a survivor lived (\<open>bucketSurvivorExecution\<close> and its helpers in \<open>execute.go\<close>): positions and
  extents, the coverage question of one survivor, the overlay bypass, and the bucket each re-measured
  row gets.

  The manifest reader \<open>runtimeinput.Paths\<close> is an argument (\<open>None\<close> where it fails), as are the coverage a
  baseline folded in and the on-demand probe of a group (\<open>None\<close> where a group cannot be probed).
\<close>

subsection \<open>Positions and extents\<close>

definition is_digit :: "char \<Rightarrow> bool" where
  "is_digit c \<longleftrightarrow> digit_val c \<noteq> None"

definition int64 :: "int \<Rightarrow> bool" where
  "int64 i \<longleftrightarrow> - (2 ^ 63) \<le> i \<and> i < 2 ^ 63"

text \<open>
  The verb \<open>%d\<close> of \<open>fmt.Sscanf\<close>: an optional sign and decimal digits of a 64-bit value. The leading
  spaces the verb also admits fail the comparison with the canonical rendering below.
\<close>

definition scan_int :: "string \<Rightarrow> (int \<times> string) option" where
  "scan_int s =
     (let (neg, r) = (case s of
          c # t \<Rightarrow> if c = CHR ''-'' then (True, t) else if c = CHR ''+'' then (False, t) else (False, s)
        | [] \<Rightarrow> (False, []));
          ds = takeWhile is_digit r in
      if ds = [] then None
      else case dec_val 0 ds of
        None \<Rightarrow> None
      | Some n \<Rightarrow> (let v = (if neg then - int n else int n) in
          if int64 v then Some (v, dropWhile is_digit r) else None))"

definition scan_char :: "char \<Rightarrow> string \<Rightarrow> string option" where
  "scan_char c s = (case s of x # t \<Rightarrow> if x = c then Some t else None | [] \<Rightarrow> None)"

definition render_extent :: "int \<Rightarrow> int \<Rightarrow> int \<Rightarrow> int \<Rightarrow> string" where
  "render_extent a b c d = itoa a @ '':'' @ itoa b @ ''-'' @ itoa c @ '':'' @ itoa d"

definition scan_extent :: "string \<Rightarrow> (int \<times> int \<times> int \<times> int) option" where
  "scan_extent s =
     Option.bind (scan_int s) (\<lambda>(a, s). Option.bind (scan_char CHR '':'' s) (\<lambda>s.
     Option.bind (scan_int s) (\<lambda>(b, s). Option.bind (scan_char CHR ''-'' s) (\<lambda>s.
     Option.bind (scan_int s) (\<lambda>(c, s). Option.bind (scan_char CHR '':'' s) (\<lambda>s.
     Option.bind (scan_int s) (\<lambda>(d, s). Some (a, b, c, d))))))))"

definition parseSurvivorExtent :: "string \<Rightarrow> (int \<times> int \<times> int \<times> int) option" where
  "parseSurvivorExtent extent =
     (if extent = [] then None
      else case scan_extent extent of
        None \<Rightarrow> None
      | Some (a, b, c, d) \<Rightarrow> if render_extent a b c d \<noteq> extent then None else Some (a, b, c, d))"

definition cut_hash :: "string \<Rightarrow> string" where
  "cut_hash s = (case str_cut ''#'' s of Some (a, _) \<Rightarrow> a | None \<Rightarrow> s)"

definition splitSurvivorPosition :: "string \<Rightarrow> (string \<times> int \<times> int) option" where
  "splitSurvivorPosition position =
     (case split_on CHR '':'' position of
        [file, l, c] \<Rightarrow> (case (atoi l, atoi (cut_hash c)) of (Some line, Some col) \<Rightarrow> Some (file, line, col) | _ \<Rightarrow> None)
      | _ \<Rightarrow> None)"

subsection \<open>The coverage question\<close>

definition survivorCovered :: "coverage \<Rightarrow> string \<Rightarrow> survivor \<Rightarrow> bool option" where
  "survivorCovered coverage coverPkg s =
     (case splitSurvivorPosition (s_Position s) of
        None \<Rightarrow> None
      | Some (file, line, col) \<Rightarrow>
          let qualified = coverPkg @ ''/'' @ file in
          if Unsound coverage qualified then None
          else case parseSurvivorExtent (s_Extent s) of
            Some (sl, sc, el, ec) \<Rightarrow> Some (Intersects coverage qualified sl sc el ec)
          | None \<Rightarrow> Some (Covered coverage qualified line col))"

definition mutated_files :: "work \<Rightarrow> string list" where
  "mutated_files w = concat (map (\<lambda>c. map r_File (c_Replacements c)) (wo_candidates w))"

definition overlayBypassedRead :: "(subject_evidence \<Rightarrow> string list option) \<Rightarrow> finding \<Rightarrow> work \<Rightarrow> bool" where
  "overlayBypassedRead paths f w \<longleftrightarrow>
     (if fp_RuntimeInputs (e_Fingerprint (f_TargetEvidence f)) = [] then False
      else if mutated_files w = [] then False
      else case paths (f_TargetEvidence f) of
        None \<Rightarrow> False
      | Some ps \<Rightarrow> \<exists>p \<in> set ps. p \<in> set (mutated_files w))"

record coverage_sources =
  cs_folded :: "oracle_group \<Rightarrow> string \<Rightarrow> coverage option"
  cs_probe :: "oracle_group \<Rightarrow> string \<Rightarrow> coverage option"

type_synonym coverage_cache = "string \<Rightarrow> coverage option"

text \<open>One group's coverage: the cache, then the folded baseline, then the probe.\<close>

definition group_coverage :: "coverage_sources \<Rightarrow> string \<Rightarrow> oracle_group \<Rightarrow> coverage_cache \<Rightarrow> (coverage \<times> coverage_cache) option" where
  "group_coverage src coverPkg g cache =
     (let key = coverageKey g coverPkg in
      case cache key of
        Some got \<Rightarrow> Some (got, cache)
      | None \<Rightarrow> (case cs_folded src g coverPkg of
            Some got \<Rightarrow> Some (got, cache(key \<mapsto> got))
          | None \<Rightarrow> (case cs_probe src g coverPkg of
                Some got \<Rightarrow> Some (got, cache(key \<mapsto> got))
              | None \<Rightarrow> None)))"

fun merge_groups :: "coverage_sources \<Rightarrow> string \<Rightarrow> oracle_group list \<Rightarrow> coverage \<Rightarrow> coverage_cache \<Rightarrow>
    coverage option \<times> coverage_cache" where
  "merge_groups src coverPkg [] coverage cache = (Some coverage, cache)"
| "merge_groups src coverPkg (g # gs) coverage cache =
     (case group_coverage src coverPkg g cache of
        None \<Rightarrow> (None, cache)
      | Some (got, cache') \<Rightarrow> merge_groups src coverPkg gs (Merge coverage got) cache')"

definition oracleCoverage :: "coverage_sources \<Rightarrow> string \<Rightarrow> work \<Rightarrow> coverage_cache \<Rightarrow> coverage option \<times> coverage_cache" where
  "oracleCoverage src coverPkg w cache = merge_groups src coverPkg (wo_groups w) empty_coverage cache"

subsection \<open>Buckets\<close>

definition unstable_row :: "survivor \<Rightarrow> survivor" where
  "unstable_row s = (if s_Execution s = ''flipped-kill'' then s else s\<lparr>s_Execution := ''unstable-oracle''\<rparr>)"

definition bypassed_row :: "survivor \<Rightarrow> survivor" where
  "bypassed_row s = s\<lparr>s_Execution := ''overlay-bypassed''\<rparr>"

definition covered_row :: "coverage \<Rightarrow> string \<Rightarrow> survivor \<Rightarrow> survivor" where
  "covered_row coverage coverPkg s =
     (if s_Execution s = ''flipped-kill'' then s
      else if s_Execution s = ''covering-passed'' then s
      else case survivorCovered coverage coverPkg s of
        None \<Rightarrow> s
      | Some covered \<Rightarrow> s\<lparr>s_Execution := (if covered then ''executed-and-passed'' else ''coverage-unobserved'')\<rparr>)"

definition rebucket :: "nat \<Rightarrow> (survivor \<Rightarrow> survivor) \<Rightarrow> finding \<Rightarrow> finding" where
  "rebucket from row f = f\<lparr>f_Survivors := take from (f_Survivors f) @ map row (drop from (f_Survivors f))\<rparr>"

definition bucketSurvivorExecution :: "clause_ops \<Rightarrow> exemption list \<Rightarrow> (subject_evidence \<Rightarrow> string list option) \<Rightarrow>
    coverage_sources \<Rightarrow> string \<Rightarrow> work \<Rightarrow> nat \<Rightarrow> finding \<Rightarrow> coverage_cache \<Rightarrow> finding \<times> coverage_cache" where
  "bucketSurvivorExecution ops exemptions paths src coverPkg w from f cache =
     (if from \<ge> length (f_Survivors f) then (f, cache)
      else if unstableForBuckets ops exemptions f then (rebucket from unstable_row f, cache)
      else if overlayBypassedRead paths f w then (rebucket from bypassed_row f, cache)
      else case oracleCoverage src coverPkg w cache of
        (None, cache') \<Rightarrow> (f, cache')
      | (Some coverage, cache') \<Rightarrow> (rebucket from (covered_row coverage coverPkg) f, cache'))"


subsection \<open>Extents read back\<close>

lemma is_digit_digit: "d < 10 \<Longrightarrow> is_digit (digit d)"
  by (simp add: is_digit_def)

lemma nat_dec_is_digit: "c \<in> set (nat_dec n) \<Longrightarrow> is_digit c"
  using nat_dec_digits is_digit_digit by blast

definition ends_number :: "string \<Rightarrow> bool" where
  "ends_number rest \<longleftrightarrow> (case rest of [] \<Rightarrow> True | c # _ \<Rightarrow> \<not> is_digit c)"

lemma span_nat_dec:
  assumes "ends_number rest"
  shows "takeWhile is_digit (nat_dec n @ rest) = nat_dec n" "dropWhile is_digit (nat_dec n @ rest) = rest"
  using assms nat_dec_is_digit by (auto simp: ends_number_def takeWhile_append dropWhile_append split: list.splits)

lemma scan_int_itoa:
  assumes "int64 i" "ends_number rest"
  shows "scan_int (itoa i @ rest) = Some (i, rest)"
proof (cases "i < 0")
  case True
  then show ?thesis
    using assms by (simp add: scan_int_def itoa_def span_nat_dec dec_val_nat_dec)
next
  case False
  obtain c r where cr: "nat_dec (nat i) = c # r"
    using nat_dec_not_Nil by (metis list.exhaust)
  have "is_digit c" using nat_dec_is_digit [of c "nat i"] cr by simp
  then have "c \<noteq> CHR ''-''" "c \<noteq> CHR ''+''"
    by (auto simp: is_digit_def digit_val_def Let_def)
  then show ?thesis
    using False assms span_nat_dec [OF assms(2), of "nat i"] dec_val_nat_dec [of "nat i"]
    by (simp add: scan_int_def itoa_def cr)
qed

lemma ends_number_sep [simp]: "ends_number (CHR '':'' # r)" "ends_number (CHR ''-'' # r)" "ends_number []"
  by (simp_all add: ends_number_def is_digit_def digit_val_def)

lemma scan_int_int64: "scan_int s = Some (v, r) \<Longrightarrow> int64 v"
  by (auto simp: scan_int_def Let_def split: if_splits option.splits prod.splits)

lemma scan_extent_int64:
  "scan_extent s = Some (a, b, c, d) \<Longrightarrow> int64 a \<and> int64 b \<and> int64 c \<and> int64 d"
  by (auto simp: scan_extent_def bind_eq_Some_conv dest!: scan_int_int64)

text \<open>an extent of a survivor row is read exactly when it is the canonical rendering of four 64-bit
  numbers, and then as these numbers; every other text - with spaces, signs, leading zeros or trailing
  bytes - falls back to the anchor point.\<close>
theorem extent_roundtrip:
  "parseSurvivorExtent e = Some (a, b, c, d) \<longleftrightarrow>
     e = render_extent a b c d \<and> int64 a \<and> int64 b \<and> int64 c \<and> int64 d"
proof
  assume "parseSurvivorExtent e = Some (a, b, c, d)"
  then show "e = render_extent a b c d \<and> int64 a \<and> int64 b \<and> int64 c \<and> int64 d"
    using scan_extent_int64 by (auto simp: parseSurvivorExtent_def split: if_splits option.splits)
next
  assume e: "e = render_extent a b c d \<and> int64 a \<and> int64 b \<and> int64 c \<and> int64 d"
  have "scan_int (itoa d) = Some (d, [])"
    using scan_int_itoa [of d "[]"] e by simp
  then have "scan_extent e = Some (a, b, c, d)"
    using e by (simp add: scan_extent_def render_extent_def scan_int_itoa scan_char_def)
  moreover have "e \<noteq> []" using e by (simp add: render_extent_def)
  ultimately show "parseSurvivorExtent e = Some (a, b, c, d)"
    using e by (simp add: parseSurvivorExtent_def)
qed

subsection \<open>What bucketing may touch\<close>

lemma rebucket_rows: "f_Survivors (rebucket from row f) = take from (f_Survivors f) @ map row (drop from (f_Survivors f))"
  by (simp add: rebucket_def)

lemma rebucket_frame:
  assumes "\<And>s. s_Execution_update (\<lambda>_. []) (row s) = s_Execution_update (\<lambda>_. []) s"
  shows "map (s_Execution_update (\<lambda>_. [])) (f_Survivors (rebucket from row f)) = map (s_Execution_update (\<lambda>_. [])) (f_Survivors f)"
proof -
  have "map (s_Execution_update (\<lambda>_. [])) (map row xs) = map (s_Execution_update (\<lambda>_. [])) xs" for xs
    using assms by (induction xs) simp_all
  then have "map (s_Execution_update (\<lambda>_. [])) (f_Survivors (rebucket from row f))
      = map (s_Execution_update (\<lambda>_. [])) (take from (f_Survivors f) @ drop from (f_Survivors f))"
    unfolding rebucket_rows map_append by (rule arg_cong)
  then show ?thesis unfolding append_take_drop_id .
qed

lemma row_frames:
  "s_Execution_update (\<lambda>_. []) (unstable_row s) = s_Execution_update (\<lambda>_. []) s"
  "s_Execution_update (\<lambda>_. []) (bypassed_row s) = s_Execution_update (\<lambda>_. []) s"
  "s_Execution_update (\<lambda>_. []) (covered_row cov pkg s) = s_Execution_update (\<lambda>_. []) s"
  by (simp_all add: unstable_row_def bypassed_row_def covered_row_def split: option.split)

lemma rebucket_others: "(rebucket from row f)\<lparr>f_Survivors := []\<rparr> = f\<lparr>f_Survivors := []\<rparr>"
  by (simp add: rebucket_def)

lemma rebucket_prefix: "take from (f_Survivors (rebucket from row f)) = take from (f_Survivors f)"
  by (cases "from \<le> length (f_Survivors f)") (simp_all add: rebucket_rows)

lemma bucket_cases:
  obtains (same) cache' where "bucketSurvivorExecution ops xs paths src pkg w from f cache = (f, cache')"
  | (unstable) "bucketSurvivorExecution ops xs paths src pkg w from f cache = (rebucket from unstable_row f, cache)"
  | (bypassed) "bucketSurvivorExecution ops xs paths src pkg w from f cache = (rebucket from bypassed_row f, cache)"
      "overlayBypassedRead paths f w" "\<not> unstableForBuckets ops xs f"
  | (covered) cov cache' where "oracleCoverage src pkg w cache = (Some cov, cache')" "\<not> overlayBypassedRead paths f w"
      "bucketSurvivorExecution ops xs paths src pkg w from f cache = (rebucket from (covered_row cov pkg) f, cache')"
proof -
  obtain c cache' where o: "oracleCoverage src pkg w cache = (c, cache')" by (cases "oracleCoverage src pkg w cache")
  consider "from \<ge> length (f_Survivors f)" | "from < length (f_Survivors f)" "unstableForBuckets ops xs f"
    | "from < length (f_Survivors f)" "\<not> unstableForBuckets ops xs f" "overlayBypassedRead paths f w"
    | "from < length (f_Survivors f)" "\<not> unstableForBuckets ops xs f" "\<not> overlayBypassedRead paths f w"
    by linarith
  then show thesis
  proof cases
    case 1
    then have "bucketSurvivorExecution ops xs paths src pkg w from f cache = (f, cache)"
      by (simp add: bucketSurvivorExecution_def)
    then show ?thesis by (rule same)
  next
    case 2
    then have "bucketSurvivorExecution ops xs paths src pkg w from f cache = (rebucket from unstable_row f, cache)"
      by (simp add: bucketSurvivorExecution_def)
    then show ?thesis by (rule unstable)
  next
    case 3
    then have "bucketSurvivorExecution ops xs paths src pkg w from f cache = (rebucket from bypassed_row f, cache)"
      by (simp add: bucketSurvivorExecution_def)
    then show ?thesis using 3 by (intro bypassed)
  next
    case 4
    show ?thesis
    proof (cases c)
      case None
      then have "bucketSurvivorExecution ops xs paths src pkg w from f cache = (f, cache')"
        using 4 o by (simp add: bucketSurvivorExecution_def)
      then show ?thesis by (rule same)
    next
      case (Some cov)
      then have "bucketSurvivorExecution ops xs paths src pkg w from f cache = (rebucket from (covered_row cov pkg) f, cache')"
        using 4 o by (simp add: bucketSurvivorExecution_def)
      then show ?thesis using 4 o Some by (intro covered) simp_all
    qed
  qed
qed

text \<open>bucketing is advisory. It changes no other field of the finding than the survivor rows, leaves
  the rows below from as they are, and changes nothing of a row but its bucket: identities, sites,
  extents, withdrawn killers and other selections stay, in their order.\<close>
theorem bucketing_frame:
  "(fst (bucketSurvivorExecution ops xs paths src pkg w from f cache))\<lparr>f_Survivors := []\<rparr> = f\<lparr>f_Survivors := []\<rparr> \<and>
   take from (f_Survivors (fst (bucketSurvivorExecution ops xs paths src pkg w from f cache))) = take from (f_Survivors f) \<and>
   map (s_Execution_update (\<lambda>_. [])) (f_Survivors (fst (bucketSurvivorExecution ops xs paths src pkg w from f cache)))
     = map (s_Execution_update (\<lambda>_. [])) (f_Survivors f)"
  by (cases rule: bucket_cases [of ops xs paths src pkg w "from" f cache])
    (simp_all add: rebucket_others rebucket_prefix rebucket_frame row_frames)

text \<open>C35: the bucket of a flipped kill does not survive an overlay bypass. Where the finding's evidence is
  stable and the observed reads name a mutated file, a re-measured survivor whose kill was withdrawn
  is re-labelled overlay-bypassed and keeps the withdrawn killer of the bucket it lost.\<close>
theorem bypass_relabels_flipped_kill:
  assumes "from \<le> i" "i < length (f_Survivors f)" "\<not> unstableForBuckets ops xs f" "overlayBypassedRead paths f w"
    and "s_Execution (f_Survivors f ! i) = ''flipped-kill''"
  shows "s_Execution (f_Survivors (fst (bucketSurvivorExecution ops xs paths src pkg w from f cache)) ! i) = ''overlay-bypassed''
    \<and> s_WithdrawnKiller (f_Survivors (fst (bucketSurvivorExecution ops xs paths src pkg w from f cache)) ! i)
        = s_WithdrawnKiller (f_Survivors f ! i)"
  using assms by (simp add: bucketSurvivorExecution_def rebucket_def nth_append bypassed_row_def)

text \<open>apart from the overlay bypass, a flipped kill keeps its bucket: neither the unverifiability stamp
  nor the coverage probe overwrites direct execution evidence.\<close>
theorem flipped_kill_outranks_advice:
  assumes "\<not> overlayBypassedRead paths f w" and "i < length (f_Survivors f)"
    and "s_Execution (f_Survivors f ! i) = ''flipped-kill''"
  shows "f_Survivors (fst (bucketSurvivorExecution ops xs paths src pkg w from f cache)) ! i = f_Survivors f ! i"
proof -
  have "f_Survivors (rebucket from row f) ! i = f_Survivors f ! i" if "row (f_Survivors f ! i) = f_Survivors f ! i" for row
    using that assms(2) by (cases "i < from") (auto simp: rebucket_def nth_append)
  then show ?thesis
    using assms(1,3) by (cases rule: bucket_cases [of ops xs paths src pkg w "from" f cache])
      (simp_all add: unstable_row_def covered_row_def)
qed


subsection \<open>Witnesses\<close>

definition sample_ops :: clause_ops where
  "sample_ops = \<lparr>RefusalClause = id, CanonicalMovedBracketClause = id, MovedBracketClause = id, Unquote = Some, Quote = id\<rparr>"

definition flipped_row :: survivor where
  "flipped_row = \<lparr>s_Position = ''f.go:1:1'', s_Operator = ''op'', s_Extent = [], s_Site = [], s_Execution = ''flipped-kill'',
     s_WithdrawnKiller = ''p.TestA'', s_OtherSelection = []\<rparr>"

definition sample_finding :: finding where
  "sample_finding = zero_finding\<lparr>f_Survivors := [flipped_row],
     f_TargetEvidence := zero_evidence\<lparr>e_Fingerprint := zero_fingerprint\<lparr>fp_RuntimeInputs := ''manifest''\<rparr>\<rparr>\<rparr>"

definition bypass_work :: work where
  "bypass_work = sample_work\<lparr>wo_candidates := [\<lparr>c_Symbol = ''p.F'', c_Operator = ''op'', c_Position = ''f.go:1:1'', c_Site = [],
     c_Extent = [], c_Replacements = m_Replacements sample_mutant, c_SchemaReplacements = [], c_SchemaMutantID = [],
     c_SchemaKey = []\<rparr>]\<rparr>"

definition no_sources :: coverage_sources where
  "no_sources = \<lparr>cs_folded = (\<lambda>_ _. None), cs_probe = (\<lambda>_ _. None)\<rparr>"

lemma bypass_relabels_flipped_kill_witness:
  "s_Execution (f_Survivors (fst (bucketSurvivorExecution sample_ops [] (\<lambda>_. Some [''/p/f.go'']) no_sources ''p'' bypass_work 0
       sample_finding Map.empty)) ! 0) = ''overlay-bypassed''
   \<and> s_WithdrawnKiller (f_Survivors (fst (bucketSurvivorExecution sample_ops [] (\<lambda>_. Some [''/p/f.go'']) no_sources ''p'' bypass_work 0
       sample_finding Map.empty)) ! 0) = ''p.TestA''"
proof -
  have "\<not> unstableForBuckets sample_ops [] sample_finding"
    and "overlayBypassedRead (\<lambda>_. Some [''/p/f.go'']) sample_finding bypass_work"
    by (simp_all add: unstableForBuckets_def sample_finding_def zero_finding_def zero_evidence_def zero_fingerprint_def
        overlayBypassedRead_def mutated_files_def bypass_work_def sample_mutant_def)
  then show ?thesis
    using bypass_relabels_flipped_kill [of 0 0 sample_finding sample_ops "[]" "\<lambda>_. Some [''/p/f.go'']" bypass_work
        no_sources "''p''" Map.empty]
    by (simp add: sample_finding_def flipped_row_def)
qed

lemma flipped_kill_outranks_advice_witness:
  "f_Survivors (fst (bucketSurvivorExecution sample_ops [] (\<lambda>_. None) no_sources ''p'' bypass_work 0 sample_finding Map.empty)) ! 0
     = flipped_row"
  using flipped_kill_outranks_advice [of "\<lambda>_. None" sample_finding bypass_work 0 sample_ops "[]" no_sources "''p''" 0 Map.empty]
  by (simp add: overlayBypassedRead_def sample_finding_def flipped_row_def)

end
