(* ===== verification/Overlay.thy ===== *)
theory Overlay
  imports GoStrings Findings "HOL-Library.AList" "HOL-Library.Multiset"
begin

text \<open>
  The machine-local overlay of the findings store (\<open>store.go\<close>, \<open>revise.go\<close>): one directory of
  entries, the read that serves one record per symbol, and the one overlay writer, which re-homes
  records parked at another symbol's path, removes, and installs.

  The directory is an association list from file names to what a read makes of the file. The name of
  a record's own entry (a hash of its key) is the argument \<open>home\<close>. Failures of the file system, the
  parse cache and concurrent sessions are not modelled.
\<close>

subsection \<open>Entries\<close>

text \<open>What one file is: a record, a document of an older or a newer version, an unreadable document, or
  a file over the size ceiling. An older document keeps its bytes.\<close>

datatype entry =
    Record finding
  | Behind int string
  | Ahead int
  | Malformed
  | Oversize

type_synonym overlay_dir = "(string \<times> entry) list"

text \<open>The version a sidelined entry's name declares: \<open><stem>.legacy-v<version>[-<n>].json\<close>.\<close>

definition sidelinedVersion :: "string \<Rightarrow> int option" where
  "sidelinedVersion name =
     (if \<not> has_suffix name ''.json'' then None
      else case str_cut ''.legacy-v'' (trim_suffix name ''.json'') of
        None \<Rightarrow> None
      | Some (_, tail) \<Rightarrow>
          (let version = (case str_cut ''-'' tail of Some (a, _) \<Rightarrow> a | None \<Rightarrow> tail) in
            case atoi version of
              None \<Rightarrow> None
            | Some v \<Rightarrow> if v < 0 \<or> itoa v \<noteq> version then None else Some v))"

subsection \<open>Reading\<close>

record overlay_read =
  ov_out :: "finding list"
  ov_served :: "string \<Rightarrow> string list"
  ov_chosen :: "string \<Rightarrow> nat option"
  ov_legacy :: "(string \<times> int) list"
  ov_removed :: "string list"

definition empty_read :: overlay_read where
  "empty_read = \<lparr>ov_out = [], ov_served = (\<lambda>_. []), ov_chosen = Map.empty, ov_legacy = [], ov_removed = []\<rparr>"

definition serve :: "(string \<Rightarrow> string) \<Rightarrow> finding \<Rightarrow> string \<Rightarrow> overlay_read \<Rightarrow> overlay_read" where
  "serve home f name st =
     (let key = recordKey f; st = st\<lparr>ov_served := (ov_served st)(key := ov_served st key @ [name])\<rparr> in
      case ov_chosen st key of
        Some i \<Rightarrow> (if name = home key then st\<lparr>ov_out := (ov_out st)[i := f]\<rparr> else st)
      | None \<Rightarrow> st\<lparr>ov_chosen := (ov_chosen st)(key \<mapsto> length (ov_out st)), ov_out := ov_out st @ [f]\<rparr>)"

definition read_entry :: "(string \<Rightarrow> string) \<Rightarrow> string \<times> entry \<Rightarrow> overlay_read \<Rightarrow> string + overlay_read" where
  "read_entry home e st =
     (let name = fst e in
      if \<not> has_suffix name ''.json'' then Inr st
      else if snd e = Oversize then Inr (st\<lparr>ov_removed := ov_removed st @ [name]\<rparr>)
      else case sidelinedVersion name of
        Some version \<Rightarrow> Inr (st\<lparr>ov_legacy := ov_legacy st @ [(name, version)]\<rparr>)
      | None \<Rightarrow> (case snd e of
          Record f \<Rightarrow> Inr (serve home f name st)
        | Ahead v \<Rightarrow> Inl name
        | Behind v _ \<Rightarrow> Inr (st\<lparr>ov_legacy := ov_legacy st @ [(name, v)]\<rparr>)
        | _ \<Rightarrow> Inr (st\<lparr>ov_removed := ov_removed st @ [name]\<rparr>)))"

fun read_entries :: "(string \<Rightarrow> string) \<Rightarrow> (string \<times> entry) list \<Rightarrow> overlay_read \<Rightarrow> string + overlay_read" where
  "read_entries home [] st = Inr st"
| "read_entries home (e # es) st = (case read_entry home e st of Inl err \<Rightarrow> Inl err | Inr st' \<Rightarrow> read_entries home es st')"

text \<open>The directory listing is in name order; the records come out by symbol and selection.\<close>

definition loadOverlay :: "(string \<Rightarrow> string) \<Rightarrow> overlay_dir \<Rightarrow> string + (finding list \<times> overlay_read \<times> overlay_dir)" where
  "loadOverlay home dir =
     (case read_entries home (sort_key fst dir) empty_read of
        Inl err \<Rightarrow> Inl err
      | Inr st \<Rightarrow> Inr (sort_key (\<lambda>f. (f_Symbol f, f_Selection f)) (ov_out st), st,
          filter (\<lambda>e. fst e \<notin> set (ov_removed st)) dir))"

definition servedRecord :: "overlay_read \<Rightarrow> string \<Rightarrow> finding option" where
  "servedRecord st key = map_option (\<lambda>i. ov_out st ! i) (ov_chosen st key)"

subsection \<open>Writing\<close>

datatype overlay_edit = Removal string | Install finding

text \<open>What a parse of a record's written bytes yields: the fields that are never persisted are zero.\<close>

definition wire :: "finding \<Rightarrow> finding" where
  "wire f = f\<lparr>f_Cached := False, f_Skipped := [], f_Unreached := False\<rparr>"

lemma wire_simps [simp]: "recordKey (wire f) = recordKey f" "f_Symbol (wire f) = f_Symbol f"
  "f_Selection (wire f) = f_Selection f" "wire (wire f) = wire f" "f_Skipped (wire f) = []"
  by (simp_all add: wire_def recordKey_def)

definition put_entry :: "string \<Rightarrow> finding \<Rightarrow> overlay_dir \<Rightarrow> overlay_dir" where
  "put_entry name f dir = AList.update name (Record (wire f)) dir"

definition sideline_target :: "string \<Rightarrow> int \<Rightarrow> nat \<Rightarrow> string" where
  "sideline_target path v n =
     trim_suffix path ''.json'' @ ''.legacy-v'' @ itoa v @ (if n > 1 then ''-'' @ itoa (int n) else []) @ ''.json''"

text \<open>The first free ordinal: the numbers up to the size of the directory plus one are enough.\<close>

definition free_target :: "overlay_dir \<Rightarrow> string \<Rightarrow> int \<Rightarrow> string option" where
  "free_target dir path v =
     find (\<lambda>t. t \<notin> fst ` set dir) (map (sideline_target path v) [1..<length dir + 2])"

definition sidelineLegacy :: "string list \<Rightarrow> string \<Rightarrow> overlay_dir \<Rightarrow> overlay_dir" where
  "sidelineLegacy legacy path dir =
     (if path \<notin> set legacy then dir
      else case map_of dir path of
        Some (Behind v bytes) \<Rightarrow>
          (case free_target dir path v of
             None \<Rightarrow> dir
           | Some target \<Rightarrow> AList.update target (Behind v bytes) (AList.delete path dir))
      | _ \<Rightarrow> dir)"

definition installAt :: "(string \<Rightarrow> string) \<Rightarrow> string list \<Rightarrow> finding \<Rightarrow> overlay_dir \<Rightarrow> overlay_dir" where
  "installAt home legacy f dir = put_entry (home (recordKey f)) f (sidelineLegacy legacy (home (recordKey f)) dir)"

definition removeServed :: "string list \<Rightarrow> string set \<Rightarrow> overlay_dir \<Rightarrow> overlay_dir" where
  "removeServed names keep dir = filter (\<lambda>e. \<not> (fst e \<in> set names \<and> fst e \<notin> keep)) dir"

text \<open>
  One path of a re-homing round: the record parked there moves to its own path, which is a destination
  of the next round. The record served for a symbol has the symbol as its key.
\<close>

record rehome_state =
  rh_dir :: overlay_dir
  rh_rehomed :: "string list"
  rh_next :: "string list"

definition rehome_path :: "(string \<Rightarrow> string) \<Rightarrow> string list \<Rightarrow> (string \<times> string) list \<Rightarrow> (string \<Rightarrow> finding option) \<Rightarrow>
    string set \<Rightarrow> string \<Rightarrow> rehome_state \<Rightarrow> rehome_state" where
  "rehome_path home legacy parked records leaving path st =
     (case map_of parked path of
        None \<Rightarrow> st
      | Some symbol \<Rightarrow>
          if symbol \<in> leaving \<or> home symbol \<in> set (rh_rehomed st) \<or> home symbol = path then st
          else case records symbol of
            None \<Rightarrow> st
          | Some f \<Rightarrow> \<lparr>rh_dir = installAt home legacy f (rh_dir st), rh_rehomed = rh_rehomed st @ [home symbol],
              rh_next = rh_next st @ [home symbol]\<rparr>)"

definition rehome_round :: "(string \<Rightarrow> string) \<Rightarrow> string list \<Rightarrow> (string \<times> string) list \<Rightarrow> (string \<Rightarrow> finding option) \<Rightarrow>
    string set \<Rightarrow> string list \<Rightarrow> overlay_dir \<Rightarrow> string list \<Rightarrow> rehome_state" where
  "rehome_round home legacy parked records leaving pending dir rehomed =
     fold (rehome_path home legacy parked records leaving) pending \<lparr>rh_dir = dir, rh_rehomed = rehomed, rh_next = []\<rparr>"

lemma rehome_path_grows:
  assumes "st' = rehome_path home legacy parked records leaving path st"
  obtains "rh_rehomed st' = rh_rehomed st" "rh_next st' = rh_next st" "rh_dir st' = rh_dir st"
  | symbol f where "map_of parked path = Some symbol" "symbol \<notin> leaving" "home symbol \<notin> set (rh_rehomed st)"
      "home symbol \<noteq> path" "records symbol = Some f" "rh_rehomed st' = rh_rehomed st @ [home symbol]"
      "rh_next st' = rh_next st @ [home symbol]" "rh_dir st' = installAt home legacy f (rh_dir st)"
  using assms by (auto simp: rehome_path_def split: option.splits if_splits)

definition parked_homes :: "(string \<Rightarrow> string) \<Rightarrow> (string \<times> string) list \<Rightarrow> string set" where
  "parked_homes home parked = home ` set (map snd parked)"

lemma rehome_round_grows:
  assumes "st' = fold (rehome_path home legacy parked records leaving) pending st"
  shows "set (rh_rehomed st) \<subseteq> set (rh_rehomed st') \<and>
    (rh_next st' \<noteq> rh_next st \<longrightarrow> (\<exists>p \<in> parked_homes home parked. p \<in> set (rh_rehomed st') \<and> p \<notin> set (rh_rehomed st)))"
  using assms
proof (induction pending arbitrary: st)
  case Nil
  then show ?case by simp
next
  case (Cons path pending)
  let ?st1 = "rehome_path home legacy parked records leaving path st"
  have rest: "set (rh_rehomed ?st1) \<subseteq> set (rh_rehomed st') \<and>
      (rh_next st' \<noteq> rh_next ?st1 \<longrightarrow> (\<exists>p \<in> parked_homes home parked. p \<in> set (rh_rehomed st') \<and> p \<notin> set (rh_rehomed ?st1)))"
    using Cons.IH Cons.prems by simp
  show ?case
  proof (rule rehome_path_grows [of ?st1 home legacy parked records leaving path st, OF refl])
    assume "rh_rehomed ?st1 = rh_rehomed st" "rh_next ?st1 = rh_next st"
    then show ?thesis using rest by simp
  next
    fix symbol f
    assume new: "map_of parked path = Some symbol" "home symbol \<notin> set (rh_rehomed st)"
      "rh_rehomed ?st1 = rh_rehomed st @ [home symbol]"
    have "home symbol \<in> parked_homes home parked"
      using new(1) by (force simp: parked_homes_def dest: map_of_SomeD)
    then show ?thesis using rest new by auto
  qed
qed

function rehomeParked :: "(string \<Rightarrow> string) \<Rightarrow> string list \<Rightarrow> (string \<times> string) list \<Rightarrow> (string \<Rightarrow> finding option) \<Rightarrow>
    string set \<Rightarrow> string list \<Rightarrow> overlay_dir \<Rightarrow> string list \<Rightarrow> overlay_dir \<times> string list" where
  "rehomeParked home legacy parked records leaving pending dir rehomed =
     (if pending = [] then (dir, rehomed)
      else let st = rehome_round home legacy parked records leaving pending dir rehomed in
        rehomeParked home legacy parked records leaving (rh_next st) (rh_dir st) (rh_rehomed st))"
  by pat_completeness auto
termination
proof (relation "inv_image (less_than <*lex*> less_than)
    (\<lambda>(home, legacy, parked, records, leaving, pending, dir, rehomed).
      (card (parked_homes home parked - set rehomed), length pending))")
  fix home legacy parked records leaving pending dir rehomed st
  assume pending: "pending \<noteq> []" and st: "st = rehome_round home legacy parked records leaving pending dir rehomed"
  let ?start = "\<lparr>rh_dir = dir, rh_rehomed = rehomed, rh_next = []\<rparr>"
  have grows: "set rehomed \<subseteq> set (rh_rehomed st)"
    "rh_next st \<noteq> [] \<Longrightarrow> \<exists>p \<in> parked_homes home parked. p \<in> set (rh_rehomed st) \<and> p \<notin> set rehomed"
    using rehome_round_grows [of st home legacy parked records leaving pending ?start] st
    by (auto simp: rehome_round_def)
  have fin: "finite (parked_homes home parked)" by (simp add: parked_homes_def)
  have mono: "parked_homes home parked - set (rh_rehomed st) \<subseteq> parked_homes home parked - set rehomed"
    using grows(1) by auto
  show "((home, legacy, parked, records, leaving, rh_next st, rh_dir st, rh_rehomed st),
      home, legacy, parked, records, leaving, pending, dir, rehomed)
    \<in> inv_image (less_than <*lex*> less_than)
        (\<lambda>(home, legacy, parked, records, leaving, pending, dir, rehomed).
          (card (parked_homes home parked - set rehomed), length pending))"
  proof (cases "rh_next st = []")
    case True
    then show ?thesis
      using card_mono [OF _ mono] fin pending by (auto simp: le_less)
  next
    case False
    then have "parked_homes home parked - set (rh_rehomed st) \<subset> parked_homes home parked - set rehomed"
      using grows(2) mono by auto
    then have "card (parked_homes home parked - set (rh_rehomed st)) < card (parked_homes home parked - set rehomed)"
      using fin by (intro psubset_card_mono) auto
    then show ?thesis by simp
  qed
qed auto

declare rehomeParked.simps [simp del]

text \<open>The parked names of a read: every name it found a symbol under.\<close>

definition parked_names :: "overlay_read \<Rightarrow> finding list \<Rightarrow> (string \<times> string) list" where
  "parked_names st rows = concat (map (\<lambda>f. map (\<lambda>name. (name, recordKey f)) (ov_served st (recordKey f))) rows)"

fun land_removals :: "(string \<Rightarrow> string list) \<Rightarrow> string set \<Rightarrow> string list \<Rightarrow> overlay_dir \<Rightarrow> overlay_dir" where
  "land_removals served keep [] dir = dir"
| "land_removals served keep (k # ks) dir = land_removals served keep ks (removeServed (served k) keep dir)"

fun land_installs :: "(string \<Rightarrow> string) \<Rightarrow> string list \<Rightarrow> (string \<Rightarrow> string list) \<Rightarrow> string set \<Rightarrow> finding list \<Rightarrow>
    overlay_dir \<Rightarrow> overlay_dir" where
  "land_installs home legacy served keep [] dir = dir"
| "land_installs home legacy served keep (f # fs) dir =
     land_installs home legacy served keep fs (removeServed (served (recordKey f)) keep (installAt home legacy f dir))"

definition removals :: "overlay_edit list \<Rightarrow> string list" where
  "removals edits = concat (map (\<lambda>e. case e of Removal k \<Rightarrow> [k] | Install _ \<Rightarrow> []) edits)"

definition installs :: "overlay_edit list \<Rightarrow> finding list" where
  "installs edits = concat (map (\<lambda>e. case e of Removal _ \<Rightarrow> [] | Install f \<Rightarrow> [f]) edits)"

definition applyOverlayEdits :: "(string \<Rightarrow> string) \<Rightarrow> overlay_read \<Rightarrow> overlay_edit list \<Rightarrow> overlay_dir \<Rightarrow> overlay_dir" where
  "applyOverlayEdits home st edits dir =
     (let legacy = map fst (ov_legacy st); leaving = set (removals edits);
          destinations = map (\<lambda>f. home (recordKey f)) (installs edits);
          (dir1, rehomed) = rehomeParked home legacy (parked_names st (ov_out st)) (servedRecord st) leaving destinations dir [];
          keep = set destinations \<union> set rehomed;
          dir2 = land_removals (ov_served st) keep (removals edits) dir1 in
      land_installs home legacy (ov_served st) keep (installs edits) dir2)"


subsection \<open>What a read serves\<close>

definition plain :: "string \<Rightarrow> bool" where
  "plain name \<longleftrightarrow> has_suffix name ''.json'' \<and> sidelinedVersion name = None"

definition rec_at :: "overlay_dir \<Rightarrow> string \<Rightarrow> finding option" where
  "rec_at dir name = (case map_of dir name of Some (Record f) \<Rightarrow> Some f | _ \<Rightarrow> None)"

text \<open>The entries that hold a symbol's record, in listing order, and the store's choice among them.\<close>

fun holder :: "string \<Rightarrow> string \<times> entry \<Rightarrow> (string \<times> finding) list" where
  "holder k (name, Record f) = (if plain name \<and> recordKey f = k then [(name, f)] else [])"
| "holder k (name, _) = []"

definition holders :: "(string \<times> entry) list \<Rightarrow> string \<Rightarrow> (string \<times> finding) list" where
  "holders es k = concat (map (holder k) es)"

definition pick :: "(string \<Rightarrow> string) \<Rightarrow> string \<Rightarrow> (string \<times> finding) list \<Rightarrow> finding option" where
  "pick home k hs = (case map_of hs (home k) of
       Some f \<Rightarrow> Some f
     | None \<Rightarrow> (case hs of [] \<Rightarrow> None | h # _ \<Rightarrow> Some (snd h)))"

definition view :: "(string \<Rightarrow> string) \<Rightarrow> overlay_dir \<Rightarrow> string \<Rightarrow> finding option" where
  "view home dir k = pick home k (holders (sort_key fst dir) k)"

definition read_ok :: "(string \<Rightarrow> string) \<Rightarrow> (string \<times> entry) list \<Rightarrow> overlay_read \<Rightarrow> bool" where
  "read_ok home es st \<longleftrightarrow>
     (\<forall>k. ov_served st k = map fst (holders es k)) \<and> (\<forall>k. ov_chosen st k = None \<longleftrightarrow> holders es k = []) \<and>
     (\<forall>k i. ov_chosen st k = Some i \<longrightarrow> i < length (ov_out st) \<and> Some (ov_out st ! i) = pick home k (holders es k)) \<and>
     (\<forall>i < length (ov_out st). ov_chosen st (recordKey (ov_out st ! i)) = Some i)"

lemma holders_snoc: "holders (es @ [e]) k = holders es k @ holder k e"
  by (simp add: holders_def)

lemma holders_key: "(n, f) \<in> set (holders es k) \<Longrightarrow> recordKey f = k \<and> plain n \<and> (n, Record f) \<in> set es"
proof -
  assume "(n, f) \<in> set (holders es k)"
  then obtain e where e: "e \<in> set es" "(n, f) \<in> set (holder k e)" by (auto simp: holders_def)
  then show ?thesis by (cases "(k, e)" rule: holder.cases) (auto split: if_splits)
qed

lemma pick_in: "pick home k hs = Some f \<Longrightarrow> \<exists>n. (n, f) \<in> set hs"
  by (force simp: pick_def split: option.splits list.splits dest: map_of_SomeD)

lemma pick_snoc:
  "pick home k (hs @ [(n, f)]) =
     (if n = home k \<and> n \<notin> fst ` set hs \<or> hs = [] then Some f else pick home k hs)"
proof (cases "map_of hs (home k)")
  case None
  then have "map_of (hs @ [(n, f)]) (home k) = (if n = home k then Some f else None)" "home k \<notin> fst ` set hs"
    using None map_of_eq_None_iff [of hs "home k"] by (simp_all add: map_add_def)
  then show ?thesis using None unfolding pick_def by (cases hs) simp_all
next
  case (Some g)
  then have "home k \<in> fst ` set hs" by (force dest: map_of_SomeD)
  then show ?thesis using Some by (auto simp: pick_def map_add_def)
qed

declare holder.simps [simp del]

lemma serve_ok:
  assumes ok: "read_ok home es st" and new: "name \<notin> fst ` set es" and plain: "plain name"
  shows "read_ok home (es @ [(name, Record f)]) (serve home f name st)"
proof -
  let ?k = "recordKey f" and ?st = "serve home f name st"
  have hold: "holder k (name, Record f) = (if k = ?k then [(name, f)] else [])" for k
    using plain by (auto simp: holder.simps)
  have fresh: "name \<notin> fst ` set (holders es k)" for k
    using new holders_key by force
  have served: "ov_served ?st k = map fst (holders (es @ [(name, Record f)]) k)" for k
    using ok by (auto simp: read_ok_def serve_def Let_def holders_snoc hold split: option.split)
  have okE: "\<And>k. ov_chosen st k = None \<longleftrightarrow> holders es k = []"
    "\<And>k i. ov_chosen st k = Some i \<Longrightarrow> i < length (ov_out st)"
    "\<And>k i. ov_chosen st k = Some i \<Longrightarrow> pick home k (holders es k) = Some (ov_out st ! i)"
    "\<And>i. i < length (ov_out st) \<Longrightarrow> ov_chosen st (recordKey (ov_out st ! i)) = Some i"
    using ok by (simp_all add: read_ok_def)
  show ?thesis
  proof (cases "ov_chosen st ?k")
    case None
    then have st: "ov_out ?st = ov_out st @ [f]" "ov_chosen ?st = (ov_chosen st)(?k \<mapsto> length (ov_out st))"
      by (simp_all add: serve_def Let_def)
    have none: "holders es ?k = []" using okE(1) None by simp
    have one: "pick home k [(name, f)] = Some f" for k by (simp add: pick_def)
    have other: "recordKey (ov_out st ! i) \<noteq> ?k" if "i < length (ov_out st)" for i
      using None okE(4) [OF that] by auto
    have "ov_chosen ?st (recordKey (ov_out ?st ! i)) = Some i" if "i < length (ov_out ?st)" for i
      using that other [of i] okE(4) [of i] by (cases "i = length (ov_out st)") (simp_all add: st nth_append)
    moreover have "i < length (ov_out ?st) \<and> Some (ov_out ?st ! i) = pick home k (holders (es @ [(name, Record f)]) k)"
      if "ov_chosen ?st k = Some i" for k i
    proof (cases "k = ?k")
      case True
      then show ?thesis using that none by (auto simp: st holders_snoc hold one)
    next
      case False
      then have "ov_chosen st k = Some i" using that by (simp add: st)
      then show ?thesis using False okE(2,3) [of k i] by (simp add: st holders_snoc hold nth_append)
    qed
    moreover have "ov_chosen ?st k = None \<longleftrightarrow> holders (es @ [(name, Record f)]) k = []" for k
      using okE(1) [of k] none by (simp add: st holders_snoc hold)
    ultimately show ?thesis
      using served unfolding read_ok_def by blast
  next
    case (Some i)
    then have st: "ov_out ?st = (if name = home ?k then (ov_out st)[i := f] else ov_out st)" "ov_chosen ?st = ov_chosen st"
      by (simp_all add: serve_def Let_def)
    have keyed: "recordKey (ov_out st ! j) = k" if "ov_chosen st k = Some j" for k j
      using pick_in [OF okE(3) [OF that]] holders_key by blast
    have some: "holders es ?k \<noteq> []" using okE(1) [of ?k] Some by simp
    have "ov_chosen ?st (recordKey (ov_out ?st ! j)) = Some j" if "j < length (ov_out ?st)" for j
      using that okE(4) [of j] Some by (cases "j = i") (auto simp: st nth_list_update split: if_splits)
    moreover have "j < length (ov_out ?st) \<and> Some (ov_out ?st ! j) = pick home k (holders (es @ [(name, Record f)]) k)"
      if "ov_chosen ?st k = Some j" for k j
    proof (cases "k = ?k")
      case True
      then have "j = i" using that Some by (simp add: st)
      then show ?thesis
        using True Some some okE(2,3) [of k j] fresh [of ?k] that by (simp add: st holders_snoc hold pick_snoc)
    next
      case False
      then have "j \<noteq> i" using that keyed [of k j] keyed [OF Some] by (auto simp: st)
      then show ?thesis using False okE(2,3) [of k j] that by (simp add: st holders_snoc hold)
    qed
    moreover have "ov_chosen ?st k = None \<longleftrightarrow> holders (es @ [(name, Record f)]) k = []" for k
      using okE(1) [of k] some by (simp add: st holders_snoc hold)
    ultimately show ?thesis
      using served unfolding read_ok_def by blast
  qed
qed

lemma removed_entry_ok:
  assumes "read_ok home es st" "\<And>k. holder k e = []"
    "ov_out st' = ov_out st" "ov_served st' = ov_served st" "ov_chosen st' = ov_chosen st"
  shows "read_ok home (es @ [e]) st'"
  using assms by (simp add: read_ok_def holders_snoc)

lemma read_entry_ok:
  assumes ok: "read_ok home es st" and new: "fst e \<notin> fst ` set es" and read: "read_entry home e st = Inr st'"
  shows "read_ok home (es @ [e]) st'"
proof -
  obtain name c where e: "e = (name, c)" by (cases e)
  consider (unplain) "\<not> plain name" | (plain_record) f where "plain name" "c = Record f"
    | (other) "plain name" "\<And>f. c \<noteq> Record f"
    by (cases c) auto
  then show ?thesis
  proof cases
    case unplain
    have none: "\<And>k. holder k e = []" using unplain by (cases c) (simp_all add: e holder.simps)
    show ?thesis
      by (rule removed_entry_ok [OF ok none])
        (use read unplain in \<open>auto simp: e read_entry_def plain_def Let_def split: if_splits option.splits\<close>)
  next
    case plain_record
    then have "st' = serve home f name st" using read by (simp add: e read_entry_def plain_def)
    then show ?thesis using serve_ok [OF ok _ plain_record(1)] new plain_record(2) by (simp add: e)
  next
    case other
    have none: "\<And>k. holder k e = []" using other by (cases c) (auto simp: e holder.simps)
    show ?thesis
      by (rule removed_entry_ok [OF ok none])
        (use read other in \<open>auto simp: e read_entry_def plain_def Let_def split: if_splits entry.splits\<close>)
  qed
qed

lemma read_entries_ok:
  "read_ok home es0 st \<Longrightarrow> distinct (map fst (es0 @ es)) \<Longrightarrow> read_entries home es st = Inr st' \<Longrightarrow>
    read_ok home (es0 @ es) st'"
proof (induction es arbitrary: es0 st)
  case Nil
  then show ?case by simp
next
  case (Cons e es)
  obtain st1 where st1: "read_entry home e st = Inr st1" "read_entries home es st1 = Inr st'"
    using Cons.prems(3) by (auto split: sum.splits)
  have "read_ok home (es0 @ [e]) st1"
    using read_entry_ok [OF Cons.prems(1) _ st1(1)] Cons.prems(2) by auto
  then show ?case using Cons.IH [of "es0 @ [e]" st1] Cons.prems(2) st1(2) by simp
qed

lemma empty_read_ok: "read_ok home [] empty_read"
  by (simp add: read_ok_def empty_read_def holders_def)

lemma load_read_ok:
  assumes "distinct (map fst dir)" "loadOverlay home dir = Inr (fs, st, dir')"
  shows "read_ok home (sort_key fst dir) st"
  using assms read_entries_ok [OF empty_read_ok, of "sort_key fst dir" home st]
  by (auto simp: loadOverlay_def distinct_map split: sum.splits)

subsection \<open>The view as a function of the directory\<close>

text \<open>What a name holds of a key.\<close>

definition held :: "string \<Rightarrow> overlay_dir \<Rightarrow> string \<Rightarrow> finding option" where
  "held k dir n = (if plain n then case rec_at dir n of Some f \<Rightarrow> if recordKey f = k then Some f else None | None \<Rightarrow> None
     else None)"

lemma held_SomeD: "held k dir n = Some f \<Longrightarrow> plain n \<and> rec_at dir n = Some f \<and> recordKey f = k"
  by (auto simp: held_def split: if_splits option.splits)

lemma held_cong: "rec_at dir n = rec_at dir' n \<Longrightarrow> held k dir n = held k dir' n"
  by (simp add: held_def)

lemma holders_held:
  assumes "distinct (map fst es)"
  shows "(n, f) \<in> set (holders es k) \<longleftrightarrow> held k es n = Some f"
proof
  assume "(n, f) \<in> set (holders es k)"
  then have "recordKey f = k" "plain n" "(n, Record f) \<in> set es" using holders_key by blast+
  then show "held k es n = Some f" using assms by (simp add: held_def rec_at_def)
next
  assume "held k es n = Some f"
  then have f: "plain n" "rec_at es n = Some f" "recordKey f = k" using held_SomeD by blast+
  then have "(n, Record f) \<in> set es"
    by (auto simp: rec_at_def split: option.splits entry.splits dest: map_of_SomeD)
  then show "(n, f) \<in> set (holders es k)"
    using f by (force simp: holders_def holder.simps)
qed

lemma holders_names: "map fst (holders es k) = map fst (filter (\<lambda>e. holder k e \<noteq> []) es)"
proof (induction es)
  case (Cons e es)
  have "map fst (holder k e) = (if holder k e = [] then [] else [fst e])"
    by (cases "(k, e)" rule: holder.cases) (simp_all add: holder.simps)
  then show ?case using Cons by (simp add: holders_def)
qed (simp add: holders_def)

lemma holders_sorted:
  assumes "distinct (map fst dir)"
  shows "sorted (map fst (holders (sort_key fst dir) k))" "distinct (map fst (holders (sort_key fst dir) k))"
proof -
  have "distinct (map fst (sort_key fst dir))" using assms by (simp add: distinct_map)
  then show "distinct (map fst (holders (sort_key fst dir) k))"
    by (simp add: holders_names distinct_map_filter)
  show "sorted (map fst (holders (sort_key fst dir) k))"
    by (simp add: holders_names sorted_filter)
qed

lemma rec_at_sort: "distinct (map fst dir) \<Longrightarrow> rec_at (sort_key fst dir) = rec_at dir"
proof -
  assume d: "distinct (map fst dir)"
  have "map_of (sort_key fst dir) = map_of dir"
    using d map_of_inject_set [of "sort_key fst dir" dir] by (simp add: distinct_map)
  then show ?thesis by (simp add: rec_at_def [abs_def])
qed

lemma held_sort: "distinct (map fst dir) \<Longrightarrow> held k (sort_key fst dir) = held k dir"
  by (rule ext) (simp add: held_def rec_at_sort)

lemma sorted_holders_held:
  "distinct (map fst dir) \<Longrightarrow> (n, f) \<in> set (holders (sort_key fst dir) k) \<longleftrightarrow> held k dir n = Some f"
  using holders_held [of "sort_key fst dir" n f k] by (simp add: held_sort distinct_map)

lemma view_cong:
  assumes "distinct (map fst dir)" "distinct (map fst dir')" "\<And>n. held k dir n = held k dir' n"
  shows "view home dir k = view home dir' k"
proof -
  let ?h = "holders (sort_key fst dir) k" and ?h' = "holders (sort_key fst dir') k"
  have sets: "set ?h = set ?h'"
    using sorted_holders_held [OF assms(1)] sorted_holders_held [OF assms(2)] assms(3) by auto
  have "?h = ?h'"
  proof (rule map_sorted_distinct_set_unique [of fst])
    have "distinct (map fst ?h)" using holders_sorted(2) [OF assms(1)] .
    then show "inj_on fst (set ?h \<union> set ?h')" using sets by (simp add: distinct_map)
  qed (use holders_sorted [OF assms(1)] holders_sorted [OF assms(2)] sets in auto)
  then show ?thesis by (simp add: view_def)
qed

lemma view_home:
  assumes "distinct (map fst dir)" "held k dir (home k) = Some f"
  shows "view home dir k = Some f"
proof -
  have "(home k, f) \<in> set (holders (sort_key fst dir) k)"
    using sorted_holders_held [OF assms(1)] assms(2) by blast
  then have "map_of (holders (sort_key fst dir) k) (home k) = Some f"
    using holders_sorted(2) [OF assms(1)] by simp
  then show ?thesis by (simp add: view_def pick_def)
qed

lemma view_none:
  assumes "distinct (map fst dir)" "\<And>n. held k dir n = None"
  shows "view home dir k = None"
proof -
  have "h \<notin> set (holders (sort_key fst dir) k)" for h
    using sorted_holders_held [OF assms(1), of "fst h" "snd h" k] assms(2) by simp
  then have "holders (sort_key fst dir) k = []" using last_in_set by blast
  then show ?thesis by (simp add: view_def pick_def)
qed

subsection \<open>What each write does to a name\<close>

definition names_ok :: "overlay_dir \<Rightarrow> bool" where
  "names_ok dir \<longleftrightarrow> distinct (map fst dir)"

lemma names_ok_install [simp]: "names_ok dir \<Longrightarrow> names_ok (installAt home legacy f dir)"
  by (auto simp: names_ok_def installAt_def put_entry_def sidelineLegacy_def distinct_update distinct_delete
    split: option.split entry.split)

lemma names_ok_remove [simp]: "names_ok dir \<Longrightarrow> names_ok (removeServed names keep dir)"
  by (simp add: names_ok_def removeServed_def distinct_map_filter)

lemma free_target_free: "free_target dir path v = Some t \<Longrightarrow> map_of dir t = None"
  by (auto simp: free_target_def find_Some_iff map_of_eq_None_iff)

lemma rec_at_sideline: "names_ok dir \<Longrightarrow> rec_at (sidelineLegacy legacy path dir) n = rec_at dir n"
  by (auto simp: rec_at_def sidelineLegacy_def update_conv' delete_conv' map_of_delete
    dest: free_target_free split: option.split entry.split)

lemma rec_at_install:
  "names_ok dir \<Longrightarrow> rec_at (installAt home legacy f dir) n = (if n = home (recordKey f) then Some (wire f) else rec_at dir n)"
  using rec_at_sideline [of dir legacy "home (recordKey f)" n]
  by (auto simp: installAt_def put_entry_def rec_at_def update_conv' names_ok_def)

lemma rec_at_remove: "rec_at (removeServed names keep dir) n = (if n \<in> set names \<and> n \<notin> keep then None else rec_at dir n)"
proof -
  have "map_of (removeServed names keep dir) n = (if n \<in> set names \<and> n \<notin> keep then None else map_of dir n)"
    by (induction dir) (auto simp: removeServed_def)
  then show ?thesis by (simp add: rec_at_def)
qed

lemma land_removals_at:
  "names_ok dir \<Longrightarrow> names_ok (land_removals served keep ks dir) \<and>
    rec_at (land_removals served keep ks dir) n =
      (if n \<notin> keep \<and> (\<exists>k \<in> set ks. n \<in> set (served k)) then None else rec_at dir n)"
  by (induction ks arbitrary: dir) (auto simp: rec_at_remove)

text \<open>The installs, for names among the kept paths and for the others.\<close>

lemma land_installs_names [simp]: "names_ok dir \<Longrightarrow> names_ok (land_installs home legacy served keep fs dir)"
  by (induction fs arbitrary: dir) simp_all

lemma land_installs_other:
  assumes "names_ok dir" "n \<notin> home ` recordKey ` set fs"
  shows "rec_at (land_installs home legacy served keep fs dir) n =
      (if n \<notin> keep \<and> (\<exists>f \<in> set fs. n \<in> set (served (recordKey f))) then None else rec_at dir n)"
  using assms by (induction fs arbitrary: dir) (auto simp: rec_at_remove rec_at_install)

lemma land_installs_home:
  assumes "names_ok dir" "inj home" "home ` recordKey ` set fs \<subseteq> keep" "distinct (map recordKey fs)" "f \<in> set fs"
  shows "rec_at (land_installs home legacy served keep fs dir) (home (recordKey f)) = Some (wire f)"
  using assms
proof (induction fs arbitrary: dir)
  case (Cons g fs)
  let ?dir = "removeServed (served (recordKey g)) keep (installAt home legacy g dir)"
  have ok: "names_ok ?dir" using Cons.prems(1) by simp
  show ?case
  proof (cases "f = g")
    case True
    have "home (recordKey g) \<notin> home ` recordKey ` set fs"
      using Cons.prems(2,4) by (auto simp: inj_eq)
    moreover have "home (recordKey g) \<in> keep" using Cons.prems(3) by simp
    ultimately have "rec_at (land_installs home legacy served keep fs ?dir) (home (recordKey g)) = rec_at ?dir (home (recordKey g))"
      using land_installs_other [OF ok] by simp
    then show ?thesis
      using True Cons.prems(1) \<open>home (recordKey g) \<in> keep\<close> by (simp add: rec_at_remove rec_at_install)
  next
    case False
    then show ?thesis using Cons.IH [OF ok] Cons.prems by simp
  qed
qed simp

subsection \<open>Re-homing to a fixpoint\<close>

text \<open>What the directory holds after some paths were re-homed, and when a path needs no more work.\<close>

definition rehomed_ok :: "(string \<Rightarrow> string) \<Rightarrow> string set \<Rightarrow> (string \<Rightarrow> finding option) \<Rightarrow> overlay_dir \<Rightarrow>
    overlay_dir \<Rightarrow> string list \<Rightarrow> bool" where
  "rehomed_ok home leaving records dir0 dir rehomed \<longleftrightarrow>
     names_ok dir \<and> (\<forall>n. n \<notin> set rehomed \<longrightarrow> rec_at dir n = rec_at dir0 n) \<and>
     (\<forall>n \<in> set rehomed. \<exists>s f. s \<notin> leaving \<and> n = home s \<and> records s = Some f \<and> rec_at dir n = Some (wire f))"

definition settled :: "(string \<Rightarrow> string) \<Rightarrow> (string \<times> string) list \<Rightarrow> (string \<Rightarrow> finding option) \<Rightarrow> string set \<Rightarrow>
    string list \<Rightarrow> string \<Rightarrow> bool" where
  "settled home parked records leaving rehomed path \<longleftrightarrow>
     (\<forall>s. map_of parked path = Some s \<longrightarrow>
        s \<in> leaving \<or> home s = path \<or> records s = None \<or> home s \<in> set rehomed)"

lemma settled_mono: "settled home parked records leaving r path \<Longrightarrow> set r \<subseteq> set r' \<Longrightarrow> settled home parked records leaving r' path"
  by (auto simp: settled_def)

lemma rehome_path_ok:
  assumes keys: "\<And>s f. records s = Some f \<Longrightarrow> recordKey f = s"
    and ok: "rehomed_ok home leaving records dir0 (rh_dir st) (rh_rehomed st)"
  shows "rehomed_ok home leaving records dir0 (rh_dir (rehome_path home legacy parked records leaving path st))
      (rh_rehomed (rehome_path home legacy parked records leaving path st))"
proof -
  let ?st = "rehome_path home legacy parked records leaving path st"
  show ?thesis
  proof (rule rehome_path_grows [of ?st home legacy parked records leaving path st, OF refl])
    assume "rh_rehomed ?st = rh_rehomed st" "rh_dir ?st = rh_dir st"
    then show ?thesis using ok by simp
  next
    fix s f
    assume s: "s \<notin> leaving" "home s \<notin> set (rh_rehomed st)" "records s = Some f"
      "rh_rehomed ?st = rh_rehomed st @ [home s]" "rh_dir ?st = installAt home legacy f (rh_dir st)"
    have names: "names_ok (rh_dir st)" using ok by (simp add: rehomed_ok_def)
    have at: "rec_at (rh_dir ?st) n = (if n = home s then Some (wire f) else rec_at (rh_dir st) n)" for n
      using s(5) keys [OF s(3)] rec_at_install [OF names] by simp
    have new: "\<exists>s f. s \<notin> leaving \<and> n = home s \<and> records s = Some f \<and> rec_at (rh_dir ?st) n = Some (wire f)"
      if "n \<in> set (rh_rehomed ?st)" for n
    proof (cases "n = home s")
      case True
      then show ?thesis using s(1,3) at by auto
    next
      case False
      then have "n \<in> set (rh_rehomed st)" using that s(4) by simp
      then show ?thesis using ok at False by (auto simp: rehomed_ok_def)
    qed
    show ?thesis
      using ok names new s(4,5) at by (simp add: rehomed_ok_def)
  qed
qed

lemma rehome_path_settles:
  "settled home parked records leaving (rh_rehomed (rehome_path home legacy parked records leaving path st)) path \<and>
    set (rh_rehomed st) \<subseteq> set (rh_rehomed (rehome_path home legacy parked records leaving path st)) \<and>
    set (rh_next st) \<subseteq> set (rh_next (rehome_path home legacy parked records leaving path st)) \<and>
    set (rh_rehomed (rehome_path home legacy parked records leaving path st))
      \<subseteq> set (rh_rehomed st) \<union> set (rh_next (rehome_path home legacy parked records leaving path st))"
  by (auto simp: rehome_path_def settled_def split: option.split)

lemma rehome_round_ok:
  assumes keys: "\<And>s f. records s = Some f \<Longrightarrow> recordKey f = s"
    and ok: "rehomed_ok home leaving records dir0 (rh_dir st) (rh_rehomed st)"
    and st': "st' = fold (rehome_path home legacy parked records leaving) pending st"
  shows "rehomed_ok home leaving records dir0 (rh_dir st') (rh_rehomed st') \<and> set (rh_rehomed st) \<subseteq> set (rh_rehomed st') \<and>
    set (rh_next st) \<subseteq> set (rh_next st') \<and> set (rh_rehomed st') \<subseteq> set (rh_rehomed st) \<union> set (rh_next st') \<and>
    list_all (settled home parked records leaving (rh_rehomed st')) pending"
  using ok st'
proof (induction pending arbitrary: st)
  case Nil
  then show ?case by simp
next
  case (Cons path pending)
  let ?st = "rehome_path home legacy parked records leaving path st"
  have "rehomed_ok home leaving records dir0 (rh_dir ?st) (rh_rehomed ?st)"
    by (rule rehome_path_ok [OF keys Cons.prems(1)])
  note rest = Cons.IH [OF this]
  have "st' = fold (rehome_path home legacy parked records leaving) pending ?st" using Cons.prems(2) by simp
  note rest = rest [OF this]
  have step: "settled home parked records leaving (rh_rehomed ?st) path" "set (rh_rehomed st) \<subseteq> set (rh_rehomed ?st)"
    "set (rh_next st) \<subseteq> set (rh_next ?st)" "set (rh_rehomed ?st) \<subseteq> set (rh_rehomed st) \<union> set (rh_next ?st)"
    using rehome_path_settles by blast+
  have "settled home parked records leaving (rh_rehomed st') path"
    using settled_mono [OF step(1)] rest by blast
  then show ?case using rest step by auto
qed

lemma rehomeParked_ok:
  assumes keys: "\<And>s f. records s = Some f \<Longrightarrow> recordKey f = s"
    and ok: "rehomed_ok home leaving records dir0 dir rehomed"
    and result: "rehomeParked home legacy parked records leaving pending dir rehomed = (dir', rehomed')"
  shows "rehomed_ok home leaving records dir0 dir' rehomed' \<and> set rehomed \<subseteq> set rehomed' \<and>
    list_all (settled home parked records leaving rehomed') pending \<and>
    (\<forall>path \<in> set rehomed' - set rehomed. settled home parked records leaving rehomed' path)"
  using assms
proof (induction home legacy parked records leaving pending dir rehomed rule: rehomeParked.induct)
  case (1 home legacy parked records leaving pending dir rehomed)
  show ?case
  proof (cases "pending = []")
    case True
    then show ?thesis using 1 by (simp add: rehomeParked.simps)
  next
    case False
    define st where "st = rehome_round home legacy parked records leaving pending dir rehomed"
    have round: "rehomed_ok home leaving records dir0 (rh_dir st) (rh_rehomed st)" "set rehomed \<subseteq> set (rh_rehomed st)"
      "set (rh_rehomed st) \<subseteq> set rehomed \<union> set (rh_next st)"
      "list_all (settled home parked records leaving (rh_rehomed st)) pending"
      using rehome_round_ok [where ?records = records, OF "1.prems"(1), where ?st = "\<lparr>rh_dir = dir, rh_rehomed = rehomed, rh_next = []\<rparr>"
          and ?st' = st and ?pending = pending and ?legacy = legacy and ?parked = parked and ?dir0.0 = dir0
            and ?home = home and ?leaving = leaving] "1.prems"(2) by (simp_all add: st_def rehome_round_def)
    have next_call: "rehomeParked home legacy parked records leaving (rh_next st) (rh_dir st) (rh_rehomed st) = (dir', rehomed')"
      using "1.prems"(3) False by (simp add: rehomeParked.simps [of home legacy parked records leaving pending] st_def Let_def)
    note rest = "1.IH" [OF False st_def "1.prems"(1) round(1) next_call]
    have "list_all (settled home parked records leaving rehomed') pending"
      using round(4) rest settled_mono by (fastforce simp: list_all_iff)
    then show ?thesis using rest round(2,3) by (fastforce simp: list_all_iff)
  qed
qed

subsection \<open>The writer against the view\<close>

text \<open>A session: its read of the directory, under a name hash that is injective.\<close>

definition overlay_session :: "(string \<Rightarrow> string) \<Rightarrow> overlay_dir \<Rightarrow> overlay_read \<Rightarrow> bool" where
  "overlay_session home dir st \<longleftrightarrow>
     inj home \<and> (\<forall>k. plain (home k)) \<and> distinct (map fst dir) \<and> read_ok home (sort_key fst dir) st"

lemma sessionD:
  assumes "overlay_session home dir st"
  shows "home k = home k' \<longleftrightarrow> k = k'" "plain (home k)" "distinct (map fst dir)" "read_ok home (sort_key fst dir) st"
  using assms by (auto simp: overlay_session_def inj_eq)

lemma served_view:
  assumes "overlay_session home dir st"
  shows "servedRecord st k = view home dir k"
  using sessionD(4) [OF assms]
  by (cases "ov_chosen st k") (auto simp: servedRecord_def view_def pick_def read_ok_def)

lemma served_key:
  assumes "overlay_session home dir st" "servedRecord st k = Some f"
  shows "recordKey f = k"
proof -
  have "pick home k (holders (sort_key fst dir) k) = Some f"
    using served_view [OF assms(1)] assms(2) by (simp add: view_def)
  then show ?thesis using pick_in holders_key by blast
qed

lemma served_iff:
  assumes "overlay_session home dir st"
  shows "n \<in> set (ov_served st k) \<longleftrightarrow> (\<exists>f. held k dir n = Some f)"
proof -
  have "ov_served st k = map fst (holders (sort_key fst dir) k)"
    using sessionD(4) [OF assms] by (simp add: read_ok_def)
  then have "n \<in> set (ov_served st k) \<longleftrightarrow> (\<exists>f. (n, f) \<in> set (holders (sort_key fst dir) k))" by force
  then show ?thesis using sorted_holders_held [OF sessionD(3) [OF assms]] by simp
qed

lemma held_served:
  assumes "overlay_session home dir st" "held k dir n = Some f"
  obtains i where "ov_chosen st k = Some i" "i < length (ov_out st)" "recordKey (ov_out st ! i) = k"
    "servedRecord st k = Some (ov_out st ! i)"
proof -
  have "(n, f) \<in> set (holders (sort_key fst dir) k)"
    using sorted_holders_held [OF sessionD(3) [OF assms(1)]] assms(2) by blast
  then obtain i where i: "ov_chosen st k = Some i"
    using sessionD(4) [OF assms(1)] by (cases "ov_chosen st k") (auto simp: read_ok_def)
  then have "i < length (ov_out st)" "servedRecord st k = Some (ov_out st ! i)"
    using sessionD(4) [OF assms(1)] by (simp_all add: read_ok_def servedRecord_def)
  then show ?thesis using that i served_key [OF assms(1)] by blast
qed

lemma parked_iff:
  assumes ses: "overlay_session home dir st" and held: "held k dir n = Some f"
  shows "map_of (parked_names st (ov_out st)) n = Some k"
proof -
  obtain i where row: "i < length (ov_out st)" "recordKey (ov_out st ! i) = k"
    using held_served [OF assms] by blast
  have "n \<in> set (ov_served st k)" using served_iff [OF ses] held by blast
  then have "(n, k) \<in> set (parked_names st (ov_out st))"
    using row nth_mem [OF row(1)] by (force simp: parked_names_def)
  moreover have "k' = k" if "(n, k') \<in> set (parked_names st (ov_out st))" for k'
  proof -
    have "n \<in> set (ov_served st k')" using that by (auto simp: parked_names_def)
    then obtain g where "held k' dir n = Some g" using served_iff [OF ses] by blast
    then show ?thesis using held_SomeD [of k' dir n g] held_SomeD [OF held] by simp
  qed
  ultimately show ?thesis
    by (metis map_of_SomeD weak_map_of_SomeI)
qed

text \<open>What a write leaves, name by name, and which paths it settled.\<close>

definition written :: "(string \<Rightarrow> string) \<Rightarrow> overlay_dir \<Rightarrow> overlay_read \<Rightarrow> string list \<Rightarrow> finding list \<Rightarrow>
    string list \<Rightarrow> overlay_dir \<Rightarrow> bool" where
  "written home dir st ks fs rehomed out \<longleftrightarrow>
     (let dests = home ` recordKey ` set fs; keep = dests \<union> set rehomed in
      distinct (map fst out) \<and>
      (\<forall>f \<in> set fs. rec_at out (home (recordKey f)) = Some (wire f)) \<and>
      (\<forall>n \<in> set rehomed - dests. \<exists>s f. s \<notin> set ks \<and> n = home s \<and> servedRecord st s = Some f \<and> rec_at out n = Some (wire f)) \<and>
      (\<forall>n. n \<notin> keep \<longrightarrow>
         rec_at out n = (if \<exists>k \<in> set ks \<union> recordKey ` set fs. n \<in> set (ov_served st k) then None else rec_at dir n)) \<and>
      (\<forall>n \<in> keep. settled home (parked_names st (ov_out st)) (servedRecord st) (set ks) rehomed n))"

lemma applyOverlayEdits_written:
  assumes ses: "overlay_session home dir st" and keys: "distinct (map recordKey (installs edits))"
  obtains rehomed where "written home dir st (removals edits) (installs edits) rehomed (applyOverlayEdits home st edits dir)"
proof -
  define legacy fs ks where "legacy = map fst (ov_legacy st)" and "fs = installs edits" and "ks = removals edits"
  define parked where "parked = parked_names st (ov_out st)"
  let ?dests = "map (\<lambda>f. home (recordKey f)) fs"
  obtain dir1 rehomed where rh: "rehomeParked home legacy parked (servedRecord st) (set ks) ?dests dir [] = (dir1, rehomed)"
    by fastforce
  define keep where "keep = home ` recordKey ` set fs \<union> set rehomed"
  define dir2 where "dir2 = land_removals (ov_served st) keep ks dir1"
  define out where "out = land_installs home legacy (ov_served st) keep fs dir2"
  have "set ?dests = home ` recordKey ` set fs" by (simp add: image_image)
  then have result: "applyOverlayEdits home st edits dir = out"
    using rh by (simp add: applyOverlayEdits_def Let_def out_def dir2_def keep_def fs_def ks_def legacy_def parked_def)
  have "rehomed_ok home (set ks) (servedRecord st) dir dir []"
    using sessionD(3) [OF ses] by (simp add: rehomed_ok_def names_ok_def)
  note rehome = rehomeParked_ok [OF served_key [OF ses] this rh]
  have names1: "names_ok dir1" using rehome by (simp add: rehomed_ok_def)
  have names2: "names_ok dir2" and at2: "rec_at dir2 n =
      (if n \<notin> keep \<and> (\<exists>k \<in> set ks. n \<in> set (ov_served st k)) then None else rec_at dir1 n)" for n
    using land_removals_at [OF names1, of "ov_served st" keep ks n] by (simp_all add: dir2_def)
  have inj: "inj home" using ses by (simp add: overlay_session_def)
  have distinct: "distinct (map recordKey fs)" using keys by (simp add: fs_def)
  have rest: "rec_at out n = (if n \<notin> keep \<and> (\<exists>f \<in> set fs. n \<in> set (ov_served st (recordKey f))) then None
      else rec_at dir2 n)" if "n \<notin> home ` recordKey ` set fs" for n
    using land_installs_other [OF names2 that] by (simp add: out_def)
  have "rec_at out (home (recordKey f)) = Some (wire f)" if "f \<in> set fs" for f
    using land_installs_home [OF names2 inj _ distinct that] by (simp add: out_def keep_def)
  moreover have "\<exists>s f. s \<notin> set ks \<and> n = home s \<and> servedRecord st s = Some f \<and> rec_at out n = Some (wire f)"
    if "n \<in> set rehomed" "n \<notin> home ` recordKey ` set fs" for n
    using rest [OF that(2)] at2 [of n] that(1) rehome by (simp add: keep_def rehomed_ok_def)
  moreover have "rec_at out n = (if \<exists>k \<in> set ks \<union> recordKey ` set fs. n \<in> set (ov_served st k) then None else rec_at dir n)"
    if "n \<notin> keep" for n
    using rest [of n] at2 [of n] that rehome by (auto simp: keep_def rehomed_ok_def)
  moreover have "settled home parked (servedRecord st) (set ks) rehomed n" if "n \<in> keep" for n
    using that rehome by (auto simp: keep_def list_all_iff)
  moreover have "distinct (map fst out)"
    using land_installs_names [OF names2] by (simp add: out_def names_ok_def)
  ultimately have "written home dir st ks fs rehomed out"
    unfolding written_def Let_def keep_def parked_def by blast
  then show thesis using that [of rehomed] result by (simp add: fs_def ks_def)
qed

lemma writtenD:
  assumes "written home dir st ks fs rehomed out"
  shows "distinct (map fst out)"
    and "f \<in> set fs \<Longrightarrow> rec_at out (home (recordKey f)) = Some (wire f)"
    and "n \<in> set rehomed \<Longrightarrow> n \<notin> home ` recordKey ` set fs \<Longrightarrow>
      \<exists>s f. s \<notin> set ks \<and> n = home s \<and> servedRecord st s = Some f \<and> rec_at out n = Some (wire f)"
    and "n \<notin> home ` recordKey ` set fs \<union> set rehomed \<Longrightarrow>
      rec_at out n = (if \<exists>k \<in> set ks \<union> recordKey ` set fs. n \<in> set (ov_served st k) then None else rec_at dir n)"
    and "n \<in> home ` recordKey ` set fs \<union> set rehomed \<Longrightarrow>
      settled home (parked_names st (ov_out st)) (servedRecord st) (set ks) rehomed n"
  using assms by (auto simp: written_def Let_def)

lemma written_destination:
  assumes "written home dir st ks fs rehomed out" "n \<in> home ` recordKey ` set fs" "k \<notin> recordKey ` set fs"
  shows "held k out n = None"
proof -
  obtain f where "f \<in> set fs" "n = home (recordKey f)" using assms(2) by auto
  then show ?thesis using writtenD(2) [OF assms(1), of f] assms(3) by (auto simp: held_def)
qed

lemma written_removed:
  assumes ses: "overlay_session home dir st" and w: "written home dir st ks fs rehomed out"
    and k: "k \<notin> recordKey ` set fs" "k \<in> set ks"
  shows "held k out n = None"
proof -
  consider "n \<in> home ` recordKey ` set fs" | "n \<in> set rehomed" "n \<notin> home ` recordKey ` set fs"
    | "n \<notin> home ` recordKey ` set fs \<union> set rehomed" by blast
  then show ?thesis
  proof cases
    case 1
    show ?thesis by (rule written_destination [OF w 1 k(1)])
  next
    case 2
    then obtain s f where "s \<notin> set ks" "servedRecord st s = Some f" "rec_at out n = Some (wire f)"
      using writtenD(3) [OF w] by blast
    then show ?thesis using k(2) served_key [OF ses] by (auto simp: held_def)
  next
    case 3
    have at: "rec_at out n = (if \<exists>k \<in> set ks \<union> recordKey ` set fs. n \<in> set (ov_served st k) then None else rec_at dir n)"
      by (rule writtenD(4) [OF w 3])
    show ?thesis
    proof (cases "rec_at out n")
      case (Some f)
      then have "n \<notin> set (ov_served st k)" "rec_at out n = rec_at dir n" using at k(2) by (auto split: if_splits)
      then show ?thesis using served_iff [OF ses, of n k] held_cong [of out n dir k] by (cases "held k out n") auto
    qed (simp add: held_def)
  qed
qed

lemma written_rehomed:
  assumes ses: "overlay_session home dir st" and w: "written home dir st ks fs rehomed out"
    and k: "k \<notin> recordKey ` set fs" "home k \<in> home ` recordKey ` set fs \<union> set rehomed"
  obtains f where "servedRecord st k = Some f" "held k out (home k) = Some (wire f)"
proof -
  have "home k \<notin> home ` recordKey ` set fs" using k(1) sessionD(1) [OF ses] by auto
  then obtain s f where "home k = home s" "servedRecord st s = Some f" "rec_at out (home k) = Some (wire f)"
    using writtenD(3) [OF w, of "home k"] k(2) by blast
  then have "servedRecord st k = Some f" "rec_at out (home k) = Some (wire f)" using sessionD(1) [OF ses] by simp_all
  then show thesis using that [of f] served_key [OF ses] sessionD(2) [OF ses] by (simp add: held_def)
qed

lemma written_unmoved:
  assumes ses: "overlay_session home dir st" and w: "written home dir st ks fs rehomed out"
    and k: "k \<notin> recordKey ` set fs" "k \<notin> set ks" "home k \<notin> home ` recordKey ` set fs \<union> set rehomed"
    and n: "n \<in> home ` recordKey ` set fs \<union> set rehomed"
  shows "held k dir n = None" "held k out n = None"
proof -
  show "held k dir n = None"
  proof (rule ccontr)
    assume "held k dir n \<noteq> None"
    then obtain f where f: "held k dir n = Some f" by auto
    have "servedRecord st k \<noteq> None" using held_served [OF ses f] by auto
    moreover have "home k \<noteq> n" using k(3) n by blast
    ultimately show False
      using writtenD(5) [OF w n] parked_iff [OF ses f] k(2,3) by (simp add: settled_def)
  qed
  show "held k out n = None"
  proof (cases "n \<in> home ` recordKey ` set fs")
    case True
    show ?thesis by (rule written_destination [OF w True k(1)])
  next
    case False
    then obtain s f where s: "n = home s" "servedRecord st s = Some f" "rec_at out n = Some (wire f)"
      using writtenD(3) [OF w] n by blast
    then have "s \<noteq> k" using k(3) n by blast
    then show ?thesis using s served_key [OF ses s(2)] by (simp add: held_def)
  qed
qed

lemma written_kept:
  assumes ses: "overlay_session home dir st" and w: "written home dir st ks fs rehomed out"
    and k: "k \<notin> recordKey ` set fs" "k \<notin> set ks" "home k \<notin> home ` recordKey ` set fs \<union> set rehomed"
  shows "held k out n = held k dir n"
proof (cases "n \<in> home ` recordKey ` set fs \<union> set rehomed")
  case True
  then show ?thesis using written_unmoved [OF ses w k] by simp
next
  case False
  show ?thesis
  proof (cases "\<exists>j \<in> set ks \<union> recordKey ` set fs. n \<in> set (ov_served st j)")
    case True
    then obtain j where jn: "j \<in> set ks \<union> recordKey ` set fs" "n \<in> set (ov_served st j)" by blast
    then obtain f where j: "held j dir n = Some f" using served_iff [OF ses, of n j] by auto
    have "j \<noteq> k" using jn(1) k(1,2) by auto
    then have "held k dir n = None" using held_SomeD [OF j] by (simp add: held_def)
    then show ?thesis using writtenD(4) [OF w False] True by (simp add: held_def)
  next
    case no: False
    then show ?thesis using writtenD(4) [OF w False] by (intro held_cong) auto
  qed
qed

text \<open>The write refines the update of the view: an install replaces, a removal removes, and no other
  record changes, wherever the entries were parked.\<close>

lemma writer_refines:
  assumes ses: "overlay_session home dir st" and keys: "distinct (map recordKey (installs edits))"
  shows "map_option wire (view home (applyOverlayEdits home st edits dir) k) =
      (case find (\<lambda>f. recordKey f = k) (installs edits) of
         Some f \<Rightarrow> Some (wire f)
       | None \<Rightarrow> if k \<in> set (removals edits) then None else map_option wire (view home dir k))"
proof -
  let ?out = "applyOverlayEdits home st edits dir" and ?fs = "installs edits" and ?ks = "removals edits"
  obtain rehomed where w: "written home dir st ?ks ?fs rehomed ?out"
    using applyOverlayEdits_written [OF assms] by blast
  show ?thesis
  proof (cases "find (\<lambda>f. recordKey f = k) ?fs")
    case (Some f)
    then have "f \<in> set ?fs" "recordKey f = k" by (auto simp: find_Some_iff)
    then have "held k ?out (home k) = Some (wire f)"
      using writtenD(2) [OF w] sessionD(2) [OF ses] by (auto simp: held_def)
    then show ?thesis using Some view_home [OF writtenD(1) [OF w]] by simp
  next
    case None
    then have k: "k \<notin> recordKey ` set ?fs" by (auto simp: find_None_iff)
    consider (removed) "k \<in> set ?ks" | (moved) "k \<notin> set ?ks" "home k \<in> home ` recordKey ` set ?fs \<union> set rehomed"
      | (kept) "k \<notin> set ?ks" "home k \<notin> home ` recordKey ` set ?fs \<union> set rehomed" by blast
    then show ?thesis
    proof cases
      case removed
      then show ?thesis using None view_none [OF writtenD(1) [OF w] written_removed [OF ses w k]] by simp
    next
      case moved
      obtain f where "servedRecord st k = Some f" "held k ?out (home k) = Some (wire f)"
        using written_rehomed [OF ses w k moved(2)] by blast
      then show ?thesis
        using None moved(1) view_home [OF writtenD(1) [OF w]] served_view [OF ses] by simp
    next
      case kept
      then show ?thesis
        using None view_cong [OF writtenD(1) [OF w] sessionD(3) [OF ses] written_kept [OF ses w k kept]] by simp
    qed
  qed
qed

subsection \<open>A load serves the view\<close>

lemma read_entry_removed:
  assumes "read_entry home e st = Inr st'"
  shows "set (ov_removed st') \<subseteq> set (ov_removed st) \<union> {n. n = fst e \<and> (\<forall>k. holder k e = [])}"
proof (cases "(undefined :: string, e)" rule: holder.cases)
  case (1 k name f)
  then show ?thesis
    using assms by (auto simp: read_entry_def serve_def Let_def split: if_splits option.splits)
qed (use assms in \<open>auto simp: read_entry_def Let_def holder.simps split: if_splits option.splits\<close>)

lemma read_entries_removed:
  "read_entries home es st = Inr st' \<Longrightarrow> n \<in> set (ov_removed st') \<Longrightarrow>
    n \<in> set (ov_removed st) \<or> (\<exists>e \<in> set es. n = fst e \<and> (\<forall>k. holder k e = []))"
proof (induction es arbitrary: st)
  case Nil
  then show ?case by simp
next
  case (Cons e es)
  then obtain st1 where "read_entry home e st = Inr st1" "read_entries home es st1 = Inr st'"
    by (auto split: sum.splits)
  then show ?case using Cons.IH [of st1] Cons.prems(2) read_entry_removed [of home e st st1] by auto
qed

lemma holders_filter:
  assumes "\<And>e. e \<in> set es \<Longrightarrow> \<not> P e \<Longrightarrow> holder k e = []"
  shows "holders (filter P es) k = holders es k"
  using assms by (induction es) (auto simp: holders_def)

lemma load_session:
  assumes load: "loadOverlay home dir = Inr (rows, st, dir')"
    and names: "distinct (map fst dir)" and inj: "inj home" and plain: "\<And>k. plain (home k)"
  shows "overlay_session home dir' st" "view home dir' k = view home dir k"
proof -
  have run: "read_entries home (sort_key fst dir) empty_read = Inr st" "dir' = filter (\<lambda>e. fst e \<notin> set (ov_removed st)) dir"
    using load by (auto simp: loadOverlay_def split: sum.splits)
  have "holder k e = []" if "e \<in> set dir" "fst e \<in> set (ov_removed st)" for e k
    using read_entries_removed [OF run(1) that(2)] that(1) names eq_key_imp_eq_value
    by (fastforce simp: empty_read_def distinct_map inj_on_def)
  then have "holders (filter (\<lambda>e. fst e \<notin> set (ov_removed st)) (sort_key fst dir)) k = holders (sort_key fst dir) k" for k
    by (intro holders_filter) auto
  then have same: "holders (sort_key fst dir') k = holders (sort_key fst dir) k" for k
    by (simp add: run(2) filter_sort)
  have "read_ok home (sort_key fst dir') st"
    using load_read_ok [OF names load] by (simp add: read_ok_def same)
  then show "overlay_session home dir' st"
    using names inj plain by (simp add: overlay_session_def run(2) distinct_map_filter)
  show "view home dir' k = view home dir k" by (simp add: view_def same)
qed

lemma served_out: "read_ok home es st \<Longrightarrow> f \<in> set (ov_out st) \<longleftrightarrow> pick home (recordKey f) (holders es (recordKey f)) = Some f"
proof -
  assume ok: "read_ok home es st"
  show ?thesis
  proof
    assume "f \<in> set (ov_out st)"
    then obtain i where "i < length (ov_out st)" "f = ov_out st ! i" by (auto simp: in_set_conv_nth)
    then show "pick home (recordKey f) (holders es (recordKey f)) = Some f" using ok by (auto simp: read_ok_def)
  next
    assume p: "pick home (recordKey f) (holders es (recordKey f)) = Some f"
    then have "holders es (recordKey f) \<noteq> []" by (auto simp: pick_def)
    then obtain i where "ov_chosen st (recordKey f) = Some i"
      using ok by (cases "ov_chosen st (recordKey f)") (auto simp: read_ok_def)
    then have "i < length (ov_out st)" "Some (ov_out st ! i) = pick home (recordKey f) (holders es (recordKey f))"
      using ok by (simp_all add: read_ok_def)
    then show "f \<in> set (ov_out st)" using p by auto
  qed
qed

lemma served_distinct: "read_ok home es st \<Longrightarrow> distinct (map recordKey (ov_out st))"
proof -
  assume ok: "read_ok home es st"
  have "recordKey (ov_out st ! i) \<noteq> recordKey (ov_out st ! j)"
    if "i < length (ov_out st)" "j < length (ov_out st)" "i \<noteq> j" for i j
  proof
    assume "recordKey (ov_out st ! i) = recordKey (ov_out st ! j)"
    moreover have "ov_chosen st (recordKey (ov_out st ! i)) = Some i" "ov_chosen st (recordKey (ov_out st ! j)) = Some j"
      using ok that by (simp_all add: read_ok_def)
    ultimately show False using that(3) by simp
  qed
  then show ?thesis by (simp add: distinct_conv_nth)
qed

lemma load_rows:
  assumes "loadOverlay home dir = Inr (rows, st, dir')" "distinct (map fst dir)"
  shows "set rows = {f. view home dir (recordKey f) = Some f} \<and> distinct (map recordKey rows) \<and>
    sorted (map (\<lambda>f. (f_Symbol f, f_Selection f)) rows)"
proof -
  have ok: "read_ok home (sort_key fst dir) st" by (rule load_read_ok [OF assms(2,1)])
  have rows: "rows = sort_key (\<lambda>f. (f_Symbol f, f_Selection f)) (ov_out st)"
    using assms(1) by (auto simp: loadOverlay_def split: sum.splits)
  have "set rows = {f. view home dir (recordKey f) = Some f}"
    using served_out [OF ok] by (auto simp: rows view_def)
  moreover have "distinct (map recordKey rows)"
    using served_distinct [OF ok] by (simp add: rows distinct_map)
  ultimately show ?thesis by (simp add: rows)
qed

text \<open>The one reading failure is an entry of a newer version.\<close>

definition ahead :: "string \<times> entry \<Rightarrow> bool" where
  "ahead e \<longleftrightarrow> plain (fst e) \<and> (case snd e of Ahead _ \<Rightarrow> True | _ \<Rightarrow> False)"

lemma read_entry_fails: "(\<exists>n. read_entry home e st = Inl n) \<longleftrightarrow> ahead e"
  by (cases "snd e") (auto simp: read_entry_def ahead_def plain_def Let_def split: option.split)

lemma read_entries_fails: "(\<exists>n. read_entries home es st = Inl n) \<longleftrightarrow> list_ex ahead es"
proof (induction es arbitrary: st)
  case (Cons e es)
  show ?case
  proof (cases "read_entry home e st")
    case (Inl n)
    then show ?thesis using read_entry_fails [of home e st] by auto
  next
    case (Inr st1)
    then show ?thesis using read_entry_fails [of home e st] Cons.IH [of st1] by auto
  qed
qed simp

lemma rehome_path_bounded:
  assumes "distinct (rh_rehomed st)" "set (rh_rehomed st) \<subseteq> parked_homes home parked"
  shows "distinct (rh_rehomed (rehome_path home legacy parked records leaving path st)) \<and>
    set (rh_rehomed (rehome_path home legacy parked records leaving path st)) \<subseteq> parked_homes home parked"
  using assms by (force simp: rehome_path_def parked_homes_def dest: map_of_SomeD split: option.split)

lemma rehome_round_bounded:
  assumes "distinct (rh_rehomed st)" "set (rh_rehomed st) \<subseteq> parked_homes home parked"
  shows "distinct (rh_rehomed (fold (rehome_path home legacy parked records leaving) pending st)) \<and>
    set (rh_rehomed (fold (rehome_path home legacy parked records leaving) pending st)) \<subseteq> parked_homes home parked"
  using assms
proof (induction pending arbitrary: st)
  case (Cons path pending)
  then show ?case using rehome_path_bounded [OF Cons.prems] by simp
qed simp

lemma rehomeParked_bounded:
  assumes "distinct rehomed" "set rehomed \<subseteq> parked_homes home parked"
  shows "distinct (snd (rehomeParked home legacy parked records leaving pending dir rehomed)) \<and>
    set (snd (rehomeParked home legacy parked records leaving pending dir rehomed)) \<subseteq> parked_homes home parked"
  using assms
proof (induction home legacy parked records leaving pending dir rehomed rule: rehomeParked.induct)
  case (1 home legacy parked records leaving pending dir rehomed)
  then show ?case
    using rehome_round_bounded [of "\<lparr>rh_dir = dir, rh_rehomed = rehomed, rh_next = []\<rparr>" home parked legacy records leaving pending]
    by (simp add: rehomeParked.simps [of home legacy parked records leaving pending] rehome_round_def Let_def)
qed

lemma written_one_entry:
  assumes ses: "overlay_session home dir st" and w: "written home dir st ks fs rehomed out"
    and f: "f \<in> set fs" and held: "held (recordKey f) out n = Some g"
  shows "n = home (recordKey f)"
proof (rule ccontr)
  assume other: "n \<noteq> home (recordKey f)"
  have g: "rec_at out n = Some g" "recordKey g = recordKey f" using held_SomeD [OF held] by simp_all
  consider "n \<in> home ` recordKey ` set fs" | "n \<in> set rehomed" "n \<notin> home ` recordKey ` set fs"
    | "n \<notin> home ` recordKey ` set fs \<union> set rehomed" by blast
  then show False
  proof cases
    case 1
    then obtain f' where "f' \<in> set fs" "n = home (recordKey f')" by auto
    then show ?thesis using writtenD(2) [OF w, of f'] g other wire_simps(1) [of f'] by simp
  next
    case 2
    then obtain s f' where "n = home s" "servedRecord st s = Some f'" "rec_at out n = Some (wire f')"
      using writtenD(3) [OF w] by blast
    then show ?thesis using served_key [OF ses, of s f'] g other wire_simps(1) [of f'] by simp
  next
    case 3
    have at: "rec_at out n = (if \<exists>k \<in> set ks \<union> recordKey ` set fs. n \<in> set (ov_served st k) then None else rec_at dir n)"
      by (rule writtenD(4) [OF w 3])
    then have "rec_at dir n = Some g" "n \<notin> set (ov_served st (recordKey f))"
      using g(1) f by (auto split: if_splits)
    then show ?thesis
      using served_iff [OF ses, of n "recordKey f"] held_cong [of out n dir] g(1) held by simp
  qed
qed

subsection \<open>Theorems\<close>

text \<open>C12: the overlay writer, run on a successful load's session, refines the update of the store's view:
  afterwards a symbol is served the record installed for it; without one, nothing when it was removed; and
  otherwise exactly what it was served before, wherever hand-parked entries and legacy documents sat and in
  whatever order the edits and the destinations come. Records compare as a parse yields them.\<close>

theorem overlay_edits_refine:
  assumes "loadOverlay home dir = Inr (rows, st, dir')" "distinct (map fst dir)"
    and "inj home" "\<And>k. plain (home k)" "distinct (map recordKey (installs edits))"
  shows "map_option wire (view home (applyOverlayEdits home st edits dir') k) =
      (case find (\<lambda>f. recordKey f = k) (installs edits) of
         Some f \<Rightarrow> Some (wire f)
       | None \<Rightarrow> if k \<in> set (removals edits) then None else map_option wire (view home dir k))"
  using writer_refines [OF load_session(1) [OF assms(1-4)] assms(5)] load_session(2) [OF assms(1-4)]
  by (simp split: option.split)

text \<open>after an overlay write the entries of an installed record's symbol are exactly one, at the
  record's own path.\<close>

theorem installed_symbol_has_one_entry:
  assumes "loadOverlay home dir = Inr (rows, st, dir')" "distinct (map fst dir)"
    and "inj home" "\<And>k. plain (home k)" "distinct (map recordKey (installs edits))" "f \<in> set (installs edits)"
  shows "held (recordKey f) (applyOverlayEdits home st edits dir') n =
      (if n = home (recordKey f) then Some (wire f) else None)"
proof -
  note ses = load_session(1) [OF assms(1-4)]
  obtain rehomed where w: "written home dir' st (removals edits) (installs edits) rehomed (applyOverlayEdits home st edits dir')"
    using applyOverlayEdits_written [OF ses assms(5)] by blast
  show ?thesis
  proof (cases "n = home (recordKey f)")
    case True
    then show ?thesis using writtenD(2) [OF w assms(6)] assms(4) by (simp add: held_def)
  next
    case False
    then have "held (recordKey f) (applyOverlayEdits home st edits dir') n = None"
      using written_one_entry [OF ses w assms(6), of n] by (cases "held (recordKey f) (applyOverlayEdits home st edits dir') n") auto
    then show ?thesis using False by simp
  qed
qed

text \<open>a successful load returns exactly the records of the view, one for each symbol, in order of symbol
  and selection.\<close>

theorem overlay_load_serves_view:
  assumes "loadOverlay home dir = Inr (rows, st, dir')" "distinct (map fst dir)"
  shows "set rows = {f. view home dir (recordKey f) = Some f} \<and> distinct (map recordKey rows) \<and>
    sorted (map (\<lambda>f. (f_Symbol f, f_Selection f)) rows)"
  using load_rows [OF assms] .

text \<open>a load refuses the overlay exactly when some plainly named entry is a document of a newer version;
  every other content, an unreadable or oversize file included, is read, preserved or evicted.\<close>

theorem overlay_load_fails:
  "(\<exists>n. loadOverlay home dir = Inl n) \<longleftrightarrow> list_ex ahead dir"
proof -
  have "(\<exists>n. loadOverlay home dir = Inl n) \<longleftrightarrow> (\<exists>n. read_entries home (sort_key fst dir) empty_read = Inl n)"
    by (auto simp: loadOverlay_def split: sum.split)
  also have "\<dots> \<longleftrightarrow> list_ex ahead dir"
    by (simp add: read_entries_fails list_ex_iff)
  finally show ?thesis .
qed

text \<open>re-homing reaches its fixpoint, chains and cycles of parked records included, having installed at
  most one record for each symbol the read found.\<close>

theorem rehome_terminates_bounded:
  "length (snd (rehomeParked home legacy parked records leaving pending dir [])) \<le> card (home ` snd ` set parked)"
proof -
  let ?r = "snd (rehomeParked home legacy parked records leaving pending dir [])"
  have "distinct ?r" "set ?r \<subseteq> home ` snd ` set parked"
    using rehomeParked_bounded [of "[]" home parked legacy records leaving pending dir] by (simp_all add: parked_homes_def)
  then show ?thesis
    using card_mono [of "home ` snd ` set parked" "set ?r"] by (simp add: distinct_card)
qed

subsection \<open>A parked record\<close>

text \<open>An entry name for the examples: the key with its dots escaped.\<close>

fun escaped :: "string \<Rightarrow> string" where
  "escaped [] = []"
| "escaped (c # s) = (if c = CHR ''.'' then ''~0'' else if c = CHR ''~'' then ''~1'' else [c]) @ escaped s"

lemma escaped_inj: "escaped s = escaped t \<Longrightarrow> s = t"
proof (induction s arbitrary: t)
  case Nil
  then show ?case by (cases t) (auto split: if_splits)
next
  case (Cons c s)
  then show ?case by (cases t) (auto split: if_splits)
qed

lemma escaped_dotless: "CHR ''.'' \<notin> set (escaped s)"
  by (induction s) auto

lemma str_cut_dotless: "CHR ''.'' \<notin> set s \<Longrightarrow> str_cut (CHR ''.'' # sep) s = None"
  by (induction s) (auto simp: has_prefix_def)

definition example_home :: "string \<Rightarrow> string" where
  "example_home k = escaped k @ ''.json''"

lemma example_home_inj: "inj example_home"
  by (rule injI) (simp add: example_home_def escaped_inj)

lemma example_home_plain: "plain (example_home k)"
  using escaped_dotless [of k]
  by (simp add: plain_def example_home_def sidelinedVersion_def trim_suffix_def str_cut_dotless has_suffix_iff)

definition parked_row :: finding where
  "parked_row = zero_finding\<lparr>f_Symbol := ''p.A''\<rparr>"

definition fresh_row :: finding where
  "fresh_row = zero_finding\<lparr>f_Symbol := ''p.B''\<rparr>"

definition example_dir :: overlay_dir where
  "example_dir = [(example_home ''p.B'', Record parked_row), (''old.json'', Behind 3 ''{}'')]"

definition example_load :: "finding list \<times> overlay_read \<times> overlay_dir" where
  "example_load = (case loadOverlay example_home example_dir of Inr r \<Rightarrow> r | Inl _ \<Rightarrow> ([], empty_read, []))"

lemma example_loads: "loadOverlay example_home example_dir = Inr example_load"
  using overlay_load_fails [of example_home example_dir]
  by (cases "loadOverlay example_home example_dir") (auto simp: example_load_def ahead_def example_dir_def)

definition example_write :: overlay_dir where
  "example_write = applyOverlayEdits example_home (fst (snd example_load)) [Install fresh_row] (snd (snd example_load))"

lemma example_keys [simp]: "wire fresh_row = fresh_row" "wire parked_row = parked_row" "recordKey fresh_row = ''p.B''" "recordKey parked_row = ''p.A''"
  "example_home ''p.B'' = ''p~0B.json''"
  by (simp_all add: wire_def fresh_row_def parked_row_def recordKey_def recordKeyOf_def zero_finding_def example_home_def)

lemma example_view: "view example_home example_dir ''p.A'' = Some parked_row"
  by code_simp

lemma example_loaded:
  "loadOverlay example_home example_dir = Inr (fst example_load, fst (snd example_load), snd (snd example_load))"
  using example_loads by simp

lemma example_distinct: "distinct (map fst example_dir)" "distinct (map recordKey (installs [Install fresh_row]))"
  by (simp_all add: example_dir_def installs_def)

theorem overlay_edits_refine_witness:
  "map_option wire (view example_home example_write ''p.A'') = Some parked_row
    \<and> map_option wire (view example_home example_write ''p.B'') = Some fresh_row"
  using overlay_edits_refine [OF example_loaded example_distinct(1) example_home_inj example_home_plain example_distinct(2), of "''p.A''"]
    overlay_edits_refine [OF example_loaded example_distinct(1) example_home_inj example_home_plain example_distinct(2), of "''p.B''"]
  by (simp add: example_write_def example_view installs_def removals_def)

theorem installed_symbol_has_one_entry_witness:
  "held ''p.B'' example_write (example_home ''p.B'') = Some fresh_row \<and> held ''p.B'' example_write ''old.json'' = None"
  using installed_symbol_has_one_entry [OF example_loaded example_distinct(1) example_home_inj example_home_plain example_distinct(2),
      of fresh_row "example_home ''p.B''"]
    installed_symbol_has_one_entry [OF example_loaded example_distinct(1) example_home_inj example_home_plain example_distinct(2),
      of fresh_row "''old.json''"]
  by (simp add: example_write_def installs_def)

theorem overlay_load_serves_view_witness:
  "set (fst example_load) = {f. view example_home example_dir (recordKey f) = Some f} \<and> parked_row \<in> set (fst example_load)"
  using overlay_load_serves_view [OF example_loaded example_distinct(1)] example_view
  by simp

end
