(* ===== verification/Portable.thy ===== *)
theory Portable
  imports Exemptions Selections Overlay
begin

text \<open>
  The portable line of the findings store (\<open>store.go\<close>): the walk that says whether a record may be
  committed and why not, the layer of a record and a write's placements, and the small renderings
  beside them (rolled-up machine-local inputs, the line on legacy entries, the state home rule).

  Parameters stand for \<open>gofresh\<close>'s \<open>runtimeinput\<close> package: \<open>refusal\<close> is \<open>RefusalAttribution\<close> and
  \<open>manifest\<close> is \<open>Paths\<close>, the paths of a manifest at a base or no answer for an unreadable one.
\<close>

subsection \<open>Reasons\<close>

definition AttributedReason :: "(string \<Rightarrow> string) \<Rightarrow> string \<Rightarrow> string \<Rightarrow> string" where
  "AttributedReason refusal reason attribution =
     (if attribution = [] \<or> refusal reason = attribution then reason
      else reason @ ''; attributed to '' @ attribution)"

definition evidenceAttribution :: "(string \<Rightarrow> string) \<Rightarrow> string \<Rightarrow> string \<Rightarrow> string" where
  "evidenceAttribution refusal observed reason = (if observed \<noteq> [] then observed else refusal reason)"

text \<open>What the walk reads beside the record.\<close>

record line_env =
  le_ops :: clause_ops
  le_refusal :: "string \<Rightarrow> string"
  le_manifest :: "string \<Rightarrow> string \<Rightarrow> string list option"
  le_moduleDir :: string
  le_exemptions :: "exemption list"

subsection \<open>The walk\<close>

text \<open>A step of the walk goes on with the reasons so far (\<open>Inr\<close>) or returns them (\<open>Inl\<close>).\<close>

type_synonym walk = "string list + string list"

definition add_reason :: "bool \<Rightarrow> string \<Rightarrow> string list \<Rightarrow> walk" where
  "add_reason stopAtFirst r reasons =
     (let reasons = (if r \<in> set reasons then reasons else reasons @ [r]) in
      if stopAtFirst then Inl reasons else Inr reasons)"

definition add_when :: "bool \<Rightarrow> bool \<Rightarrow> string \<Rightarrow> string list \<Rightarrow> walk" where
  "add_when stopAtFirst b r reasons = (if b then add_reason stopAtFirst r reasons else Inr reasons)"

definition and_then :: "walk \<Rightarrow> (string list \<Rightarrow> walk) \<Rightarrow> walk" where
  "and_then w k = (case w of Inl reasons \<Rightarrow> Inl reasons | Inr reasons \<Rightarrow> k reasons)"

definition unverifiable_clause :: "(string \<Rightarrow> string) \<Rightarrow> subject_evidence \<Rightarrow> string" where
  "unverifiable_clause refusal ev =
     ''runtime-unverifiable evidence for '' @ e_Symbol ev @
     (if e_RuntimeReason ev \<noteq> [] then '': '' @ AttributedReason refusal (e_RuntimeReason ev) (e_RuntimeAttribution ev) else [])"

definition subject_base :: "string \<Rightarrow> subject_evidence \<Rightarrow> string" where
  "subject_base moduleDir ev = (if e_ModuleBase ev \<noteq> [] then path_join moduleDir (e_ModuleBase ev) else moduleDir)"

definition inside :: "string \<Rightarrow> string \<Rightarrow> bool" where
  "inside base p \<longleftrightarrow> p = base \<or> has_prefix p (base @ ''/'')"

definition local_prefix :: string where
  "local_prefix = ''machine-local runtime input ''"

definition local_input :: "string \<Rightarrow> string" where
  "local_input p = local_prefix @ p"

fun walk_paths :: "bool \<Rightarrow> string \<Rightarrow> string list \<Rightarrow> string list \<Rightarrow> walk" where
  "walk_paths stop base [] reasons = Inr reasons"
| "walk_paths stop base (p # ps) reasons =
     and_then (add_when stop (\<not> inside base p) (local_input p) reasons) (walk_paths stop base ps)"

definition walk_manifest :: "bool \<Rightarrow> line_env \<Rightarrow> subject_evidence \<Rightarrow> string list \<Rightarrow> walk" where
  "walk_manifest stop env ev reasons =
     (let inputs = fp_RuntimeInputs (e_Fingerprint ev); base = subject_base (le_moduleDir env) ev in
      if inputs = [] then Inr reasons
      else case le_manifest env inputs base of
        None \<Rightarrow> add_reason stop (''unreadable runtime manifest for '' @ e_Symbol ev) reasons
      | Some paths \<Rightarrow> walk_paths stop base paths reasons)"

definition walk_subject :: "bool \<Rightarrow> line_env \<Rightarrow> bool \<Rightarrow> subject_evidence \<Rightarrow> string list \<Rightarrow> walk" where
  "walk_subject stop env exempted ev reasons =
     and_then (add_when stop (e_RuntimeUnverifiable ev \<and> \<not> exempted) (unverifiable_clause (le_refusal env) ev) reasons)
       (walk_manifest stop env ev)"

fun walk_subjects :: "bool \<Rightarrow> line_env \<Rightarrow> bool \<Rightarrow> subject_evidence list \<Rightarrow> string list \<Rightarrow> walk" where
  "walk_subjects stop env exempted [] reasons = Inr reasons"
| "walk_subjects stop env exempted (ev # evs) reasons =
     and_then (walk_subject stop env exempted ev reasons) (walk_subjects stop env exempted evs)"

definition portableLineWalk :: "line_env \<Rightarrow> finding \<Rightarrow> bool \<Rightarrow> string list" where
  "portableLineWalk env f stop =
     (let exempted = (coveredExemptions (le_ops env) (le_exemptions env) f \<noteq> None);
          walk = and_then (add_when stop (f_Dirty f) ''dirty worktree provenance'' []) (\<lambda>reasons.
            and_then (add_when stop (f_Commit f = []) ''no commit provenance'' reasons) (\<lambda>reasons.
            and_then (add_when stop (f_EvidenceFault f \<noteq> [] \<and> \<not> exempted) (f_EvidenceFault f) reasons)
              (walk_subjects stop env exempted (f_TargetEvidence f # f_OracleEvidence f)))) in
      case walk of Inl reasons \<Rightarrow> reasons | Inr reasons \<Rightarrow> reasons)"

definition CommittableReasons :: "line_env \<Rightarrow> finding \<Rightarrow> string list" where
  "CommittableReasons env f = portableLineWalk env f False"

definition Committable :: "line_env \<Rightarrow> finding \<Rightarrow> bool \<times> string" where
  "Committable env f =
     (let reasons = portableLineWalk env f True in if reasons \<noteq> [] then (False, hd reasons) else (True, []))"

subsection \<open>Layers and placements\<close>

datatype layer = LayerRepo | LayerLocal

definition LayerHome :: "layer \<Rightarrow> string" where
  "LayerHome l = (if l = LayerLocal then ''machine-local overlay'' else ''findings document'')"

definition LayerReasons :: "line_env \<Rightarrow> finding \<Rightarrow> layer \<times> string list" where
  "LayerReasons env f =
     (let rs = CommittableReasons env f in if length rs > 0 then (LayerLocal, rs) else (LayerRepo, []))"

definition Layer :: "line_env \<Rightarrow> finding \<Rightarrow> layer \<times> string" where
  "Layer env f = (let (l, reasons) = LayerReasons env f in if l = LayerLocal then (l, reasons ! 0) else (l, []))"

text \<open>A placement of the zero layer is none: the map holds the placements a write made.\<close>

record placement =
  pl_Layer :: layer
  pl_Reasons :: "string list"

definition pl_Reason :: "placement \<Rightarrow> string" where
  "pl_Reason p = (if pl_Reasons p = [] then [] else pl_Reasons p ! 0)"

type_synonym routing = "string \<Rightarrow> placement option"

definition routing_of :: "line_env \<Rightarrow> routing \<Rightarrow> finding \<Rightarrow> layer \<times> string" where
  "routing_of env r f =
     (case r (recordKey f) of
        Some p \<Rightarrow> (pl_Layer p, pl_Reason p)
      | None \<Rightarrow>
          (case (if f_Selection f = [] then r (f_Symbol f) else None) of
             Some p \<Rightarrow> (pl_Layer p, pl_Reason p)
           | None \<Rightarrow> Layer env f))"

subsection \<open>Renderings\<close>

definition rolled_root :: "string \<Rightarrow> string option" where
  "rolled_root r =
     (if has_prefix r local_prefix \<and> has_prefix (trim_prefix r local_prefix) ''/'' then
        (let rest = tl (trim_prefix r local_prefix) in
          Some (CHR ''/'' # takeWhile (\<lambda>c. c \<noteq> CHR ''/'') rest))
      else None)"

record roll_group =
  rg_root :: string
  rg_count :: nat
  rg_first :: nat
  rg_one :: string

definition roll_step :: "string \<Rightarrow> string list \<times> roll_group list \<Rightarrow> string list \<times> roll_group list" where
  "roll_step r st =
     (case rolled_root r of
        None \<Rightarrow> (fst st @ [r], snd st)
      | Some root \<Rightarrow>
          if \<exists>g \<in> set (snd st). rg_root g = root
          then (fst st, map (\<lambda>g. if rg_root g = root then g\<lparr>rg_count := rg_count g + 1\<rparr> else g) (snd st))
          else (fst st @ [[]], snd st @ [\<lparr>rg_root = root, rg_count = 1, rg_first = length (fst st), rg_one = r\<rparr>]))"

definition roll_text :: "roll_group \<Rightarrow> string" where
  "roll_text g =
     (if rg_count g = 1 then rg_one g
      else ''machine-local runtime inputs under '' @ rg_root g @ '' ('' @ itoa (int (rg_count g)) @ '' paths)'')"

definition RollUpMachineLocalInputs :: "string list \<Rightarrow> string list" where
  "RollUpMachineLocalInputs reasons =
     (let (out, order) = fold roll_step reasons ([], []) in fold (\<lambda>g out. out[rg_first g := roll_text g]) order out)"

definition OldestReadableDocumentVersion :: int where "OldestReadableDocumentVersion = 4"
definition DocumentVersion :: int where "DocumentVersion = 17"

definition LegacyOverlayLine :: "string \<Rightarrow> (string \<times> int) list \<Rightarrow> string" where
  "LegacyOverlayLine overlayDir entries =
     (if entries = [] then []
      else let versions = sort (fold (\<lambda>v vs. if v \<in> set vs then vs else vs @ [v]) (map snd entries) []);
               noun = (if length entries = 1 then ''entry'' else ''entries'') in
        ''machine-local overlay: '' @ itoa (int (length entries)) @ '' legacy '' @ noun @
        '' preserved unread (document version '' @ join '', '' (map itoa versions) @ ''; this binary reads '' @
        itoa OldestReadableDocumentVersion @ ''-'' @ itoa DocumentVersion @ '') under '' @ overlayDir @
        '' '' @ [CHR 0xE2, CHR 0x80, CHR 0x94] @ '' an older gomutant wrote them; their attested dispositions are not served'')"

datatype state_home_error = RelativeStateHome | NoPlatformCache | NoHome

definition stateHome :: "string \<Rightarrow> string \<Rightarrow> string \<Rightarrow> string option \<Rightarrow> state_home_error + string" where
  "stateHome goos xdg home platformCache =
     (if xdg \<noteq> [] then (if \<not> has_prefix xdg ''/'' then Inl RelativeStateHome else Inr xdg)
      else if goos = ''windows'' then (case platformCache of None \<Rightarrow> Inl NoPlatformCache | Some dir \<Rightarrow> Inr dir)
      else if home = [] then Inl NoHome
      else Inr (path_clean (join ''/'' [home, ''.local'', ''state''])))"

subsection \<open>The walk as a list of clauses\<close>

text \<open>Every clause a record fails, in walk order and with repetitions.\<close>

definition manifest_clauses :: "line_env \<Rightarrow> subject_evidence \<Rightarrow> string list" where
  "manifest_clauses env ev =
     (let base = subject_base (le_moduleDir env) ev in
      if fp_RuntimeInputs (e_Fingerprint ev) = [] then []
      else case le_manifest env (fp_RuntimeInputs (e_Fingerprint ev)) base of
        None \<Rightarrow> [''unreadable runtime manifest for '' @ e_Symbol ev]
      | Some paths \<Rightarrow> map local_input (filter (\<lambda>p. \<not> inside base p) paths))"

definition subject_clauses :: "line_env \<Rightarrow> bool \<Rightarrow> subject_evidence \<Rightarrow> string list" where
  "subject_clauses env exempted ev =
     (if e_RuntimeUnverifiable ev \<and> \<not> exempted then [unverifiable_clause (le_refusal env) ev] else []) @
     manifest_clauses env ev"

definition line_clauses :: "line_env \<Rightarrow> finding \<Rightarrow> string list" where
  "line_clauses env f =
     (let exempted = (coveredExemptions (le_ops env) (le_exemptions env) f \<noteq> None) in
      (if f_Dirty f then [''dirty worktree provenance''] else []) @
      (if f_Commit f = [] then [''no commit provenance''] else []) @
      (if f_EvidenceFault f \<noteq> [] \<and> \<not> exempted then [f_EvidenceFault f] else []) @
      concat (map (subject_clauses env exempted) (f_TargetEvidence f # f_OracleEvidence f)))"

definition note_reason :: "string \<Rightarrow> string list \<Rightarrow> string list" where
  "note_reason r reasons = (if r \<in> set reasons then reasons else reasons @ [r])"

definition emits :: "bool \<Rightarrow> (string list \<Rightarrow> walk) \<Rightarrow> string list \<Rightarrow> bool" where
  "emits stop k cs \<longleftrightarrow> (\<forall>reasons. k reasons =
     (case cs of c # _ \<Rightarrow> if stop then Inl (note_reason c reasons) else Inr (fold note_reason cs reasons)
      | [] \<Rightarrow> Inr reasons))"

lemma emits_nothing: "emits stop Inr []"
  by (simp add: emits_def)

lemma emits_add_when: "emits stop (add_when stop b r) (if b then [r] else [])"
  by (simp add: emits_def add_when_def add_reason_def note_reason_def)

lemma emits_then:
  assumes "emits stop k cs" "emits stop k' ds"
  shows "emits stop (\<lambda>reasons. and_then (k reasons) k') (cs @ ds)"
proof (cases cs)
  case Nil
  then show ?thesis using assms by (simp add: emits_def and_then_def)
next
  case (Cons c cs')
  then show ?thesis using assms by (cases ds) (auto simp: emits_def and_then_def)
qed

lemma emits_paths: "emits stop (walk_paths stop base paths)
    (map local_input (filter (\<lambda>p. \<not> inside base p) paths))"
proof (induction paths)
  case Nil
  then show ?case by (simp add: emits_def)
next
  case (Cons p ps)
  have "walk_paths stop base (p # ps) =
      (\<lambda>reasons. and_then (add_when stop (\<not> inside base p) (local_input p) reasons) (walk_paths stop base ps))"
    by (rule ext) simp
  then show ?case
    using emits_then [OF emits_add_when [of stop "\<not> inside base p" "local_input p"] Cons]
    by (cases "inside base p") simp_all
qed

lemma emits_manifest: "emits stop (walk_manifest stop env ev) (manifest_clauses env ev)"
proof (cases "fp_RuntimeInputs (e_Fingerprint ev) = []")
  case True
  then show ?thesis by (simp add: emits_def walk_manifest_def manifest_clauses_def Let_def)
next
  case inputs: False
  let ?base = "subject_base (le_moduleDir env) ev"
  show ?thesis
  proof (cases "le_manifest env (fp_RuntimeInputs (e_Fingerprint ev)) ?base")
    case None
    then show ?thesis
      using inputs by (simp add: emits_def walk_manifest_def manifest_clauses_def add_reason_def note_reason_def Let_def)
  next
    case (Some paths)
    then have "walk_manifest stop env ev = walk_paths stop ?base paths"
      using inputs by (intro ext) (simp add: walk_manifest_def Let_def)
    then show ?thesis
      using emits_paths [of stop ?base paths] Some inputs by (simp add: manifest_clauses_def Let_def)
  qed
qed

lemma emits_subject: "emits stop (walk_subject stop env exempted ev) (subject_clauses env exempted ev)"
  using emits_then [OF emits_add_when emits_manifest]
  by (simp add: walk_subject_def [abs_def] subject_clauses_def)

lemma emits_subjects: "emits stop (walk_subjects stop env exempted evs) (concat (map (subject_clauses env exempted) evs))"
proof (induction evs)
  case Nil
  then show ?case by (simp add: emits_def)
next
  case (Cons ev evs)
  have "walk_subjects stop env exempted (ev # evs) =
      (\<lambda>reasons. and_then (walk_subject stop env exempted ev reasons) (walk_subjects stop env exempted evs))"
    by (rule ext) simp
  then show ?case using emits_then [OF emits_subject Cons] by simp
qed

lemma walk_clauses:
  "portableLineWalk env f stop =
     (if stop then take 1 (line_clauses env f) else fold note_reason (line_clauses env f) [])"
proof -
  let ?exempted = "coveredExemptions (le_ops env) (le_exemptions env) f \<noteq> None"
  have "emits stop (\<lambda>reasons. and_then (add_when stop (f_Dirty f) ''dirty worktree provenance'' reasons) (\<lambda>reasons.
      and_then (add_when stop (f_Commit f = []) ''no commit provenance'' reasons) (\<lambda>reasons.
      and_then (add_when stop (f_EvidenceFault f \<noteq> [] \<and> \<not> ?exempted) (f_EvidenceFault f) reasons)
        (walk_subjects stop env ?exempted (f_TargetEvidence f # f_OracleEvidence f))))) (line_clauses env f)"
    unfolding line_clauses_def Let_def
    by (intro emits_then emits_add_when emits_subjects)
  then show ?thesis
    by (cases "line_clauses env f") (simp_all add: emits_def portableLineWalk_def Let_def note_reason_def)
qed

lemma fold_note_reason:
  "set (fold note_reason cs rs) = set rs \<union> set cs \<and> (distinct rs \<longrightarrow> distinct (fold note_reason cs rs)) \<and>
    (\<exists>t. fold note_reason cs rs = rs @ t)"
proof (induction cs arbitrary: rs)
  case (Cons c cs)
  obtain t where "fold note_reason cs (note_reason c rs) = note_reason c rs @ t" using Cons.IH by blast
  moreover have "\<exists>u. note_reason c rs = rs @ u" by (simp add: note_reason_def)
  ultimately have "\<exists>t. fold note_reason (c # cs) rs = rs @ t" by auto
  then show ?case using Cons.IH [of "note_reason c rs"] by (auto simp: note_reason_def)
qed simp

lemma committable_reasons_set: "set (CommittableReasons env f) = set (line_clauses env f)"
  using fold_note_reason [of "line_clauses env f" "[]"] by (simp add: CommittableReasons_def walk_clauses)

subsection \<open>Rolling up, by direct description\<close>

definition keep_first :: "string list \<Rightarrow> string \<Rightarrow> string list" where
  "keep_first acc r =
     (if rolled_root r \<noteq> None \<and> rolled_root r \<in> rolled_root ` set acc then acc else acc @ [r])"

definition root_count :: "string list \<Rightarrow> string \<Rightarrow> nat" where
  "root_count rs root = length (filter (\<lambda>r. rolled_root r = Some root) rs)"

definition rolled_text :: "string list \<Rightarrow> string \<Rightarrow> string" where
  "rolled_text rs r =
     (case rolled_root r of
        None \<Rightarrow> r
      | Some root \<Rightarrow> roll_text \<lparr>rg_root = root, rg_count = root_count rs root, rg_first = 0, rg_one = r\<rparr>)"

definition groups_of :: "string list \<Rightarrow> string list \<Rightarrow> roll_group list" where
  "groups_of rs firsts =
     map (\<lambda>(i, r). \<lparr>rg_root = the (rolled_root r), rg_count = root_count rs (the (rolled_root r)), rg_first = i, rg_one = r\<rparr>)
       (filter (\<lambda>(i, r). rolled_root r \<noteq> None) (enumerate 0 firsts))"

definition blanks :: "string list \<Rightarrow> string list" where
  "blanks = map (\<lambda>r. if rolled_root r = None then r else [])"

lemma groups_snoc:
  "groups_of rs (firsts @ [r]) = groups_of rs firsts @
     (case rolled_root r of None \<Rightarrow> []
      | Some root \<Rightarrow> [\<lparr>rg_root = root, rg_count = root_count rs root, rg_first = length firsts, rg_one = r\<rparr>])"
  by (simp add: groups_of_def enumerate_append_eq split: option.split)

lemma groups_roots: "rg_root ` set (groups_of rs firsts) = {root. Some root \<in> rolled_root ` set firsts}"
proof (induction firsts rule: rev_induct)
  case Nil
  then show ?case by (simp add: groups_of_def)
next
  case (snoc r firsts)
  then show ?case by (cases "rolled_root r") (auto simp: groups_snoc)
qed

lemma groups_count:
  "groups_of (rs @ [r]) firsts =
     map (\<lambda>g. if rolled_root r = Some (rg_root g) then g\<lparr>rg_count := rg_count g + 1\<rparr> else g) (groups_of rs firsts)"
  by (auto simp: groups_of_def root_count_def)

lemma firsts_roots: "rolled_root ` set (foldl keep_first [] rs) \<union> {None} = rolled_root ` set rs \<union> {None}"
proof (induction rs rule: rev_induct)
  case (snoc r rs)
  then show ?case by (cases "rolled_root r") (auto simp: keep_first_def)
qed simp

lemma fold_roll_step: "fold roll_step rs ([], []) = (blanks (foldl keep_first [] rs), groups_of rs (foldl keep_first [] rs))"
proof (induction rs rule: rev_induct)
  case Nil
  then show ?case by (simp add: blanks_def groups_of_def)
next
  case (snoc r rs)
  define fs where "fs = foldl keep_first [] rs"
  have step: "fold roll_step (rs @ [r]) ([], []) = roll_step r (blanks fs, groups_of rs fs)"
    "foldl keep_first [] (rs @ [r]) = keep_first fs r"
    using snoc by (simp_all add: fs_def)
  have "roll_step r (blanks fs, groups_of rs fs) = (blanks (keep_first fs r), groups_of (rs @ [r]) (keep_first fs r))"
  proof (cases "rolled_root r")
    case None
    then show ?thesis
      by (simp add: roll_step_def keep_first_def blanks_def groups_snoc groups_count)
  next
    case (Some root)
    have seen: "(\<exists>g \<in> set (groups_of rs fs). rg_root g = root) \<longleftrightarrow> Some root \<in> rolled_root ` set fs"
    proof -
      have "(\<exists>g \<in> set (groups_of rs fs). rg_root g = root) \<longleftrightarrow> root \<in> rg_root ` set (groups_of rs fs)" by auto
      then show ?thesis by (simp add: groups_roots)
    qed
    show ?thesis
    proof (cases "Some root \<in> rolled_root ` set fs")
      case True
      have "(\<lambda>g. if rg_root g = root then g\<lparr>rg_count := rg_count g + 1\<rparr> else g) =
          (\<lambda>g. if root = rg_root g then g\<lparr>rg_count := rg_count g + 1\<rparr> else g)" by auto
      then show ?thesis
        using seen Some True by (simp add: roll_step_def keep_first_def groups_count)
    next
      case False
      have "Some root \<notin> rolled_root ` set rs" using False firsts_roots [of rs] by (auto simp: fs_def)
      then have one: "root_count (rs @ [r]) root = 1"
        using Some by (force simp: root_count_def filter_empty_conv image_iff)
      have same: "groups_of (rs @ [r]) fs = groups_of rs fs"
        unfolding groups_count using seen False Some by (auto intro!: map_idI)
      show ?thesis
        using seen False Some one by (simp add: roll_step_def keep_first_def blanks_def groups_snoc same)
    qed
  qed
  then show ?case using step by simp
qed

lemma fold_updates:
  assumes "distinct (map ix gs)"
  shows "length (fold (\<lambda>g out. out[ix g := h g]) gs out) = length out \<and>
    (j < length out \<longrightarrow> fold (\<lambda>g out. out[ix g := h g]) gs out ! j =
      (case find (\<lambda>g. ix g = j) gs of Some g \<Rightarrow> h g | None \<Rightarrow> out ! j))"
  using assms
proof (induction gs arbitrary: out)
  case (Cons g gs)
  have "find (\<lambda>g. ix g = j) gs = None" if "ix g = j"
    using Cons.prems that by (metis (mono_tags, lifting) distinct.simps(2) find_None_iff image_eqI list.set_map list.simps(9))
  then show ?case using Cons.IH [of "out[ix g := h g]"] Cons.prems by (cases "ix g = j") (simp_all add: nth_list_update split: option.split)
qed simp

subsection \<open>Theorems\<close>

text \<open>the walk that stops at the first clause and the full walk agree: a record is committable exactly when
  it has no committable reason, and the one reason given otherwise is the first of the list; the list has
  no repetitions and holds exactly the failing clauses.\<close>

theorem committable_first_reason:
  "Committable env f =
     (if CommittableReasons env f = [] then (True, []) else (False, hd (CommittableReasons env f))) \<and>
   distinct (CommittableReasons env f) \<and> set (CommittableReasons env f) = set (line_clauses env f)"
proof (cases "line_clauses env f")
  case Nil
  then show ?thesis by (simp add: Committable_def CommittableReasons_def walk_clauses)
next
  case (Cons c cs)
  obtain t where "fold note_reason (line_clauses env f) [] = c # t"
    using fold_note_reason [of cs "[c]"] Cons by (auto simp: note_reason_def)
  then show ?thesis
    using fold_note_reason [of "line_clauses env f" "[]"] Cons
    by (simp add: Committable_def CommittableReasons_def walk_clauses)
qed

text \<open>rolling up keeps every clause that is no machine-local input in its place, and shows for each root, at
  the place of its first input, that input itself when it is the only one and the number of inputs under
  the root otherwise.\<close>

theorem roll_up_spec: "RollUpMachineLocalInputs rs = map (rolled_text rs) (foldl keep_first [] rs)"
proof -
  let ?fs = "foldl keep_first [] rs"
  let ?gs = "groups_of rs ?fs"
  let ?out = "fold (\<lambda>g out. out[rg_first g := roll_text g]) ?gs (blanks ?fs)"
  have ix: "map rg_first ?gs = map fst (filter (\<lambda>(i, r). rolled_root r \<noteq> None) (enumerate 0 ?fs))"
    by (auto simp: groups_of_def)
  have distinct: "distinct (map rg_first ?gs)"
    unfolding ix by (simp add: distinct_map_filter)
  have "?out ! j = rolled_text rs (?fs ! j)" if j: "j < length ?fs" for j
  proof (cases "rolled_root (?fs ! j)")
    case None
    then have "find (\<lambda>g. rg_first g = j) ?gs = None"
      using j by (auto simp: find_None_iff groups_of_def in_set_enumerate_eq)
    then show ?thesis
      using fold_updates [OF distinct, of roll_text "blanks ?fs" j] None j by (simp add: blanks_def rolled_text_def)
  next
    case (Some root)
    let ?g = "\<lparr>rg_root = root, rg_count = root_count rs root, rg_first = j, rg_one = ?fs ! j\<rparr>"
    have "?g \<in> set ?gs"
      using Some j by (force simp: groups_of_def in_set_enumerate_eq)
    then obtain g where g: "find (\<lambda>g. rg_first g = j) ?gs = Some g"
      by (cases "find (\<lambda>g. rg_first g = j) ?gs") (auto simp: find_None_iff)
    then have "g \<in> set ?gs" "rg_first g = j" by (auto simp: find_Some_iff)
    then have "g = ?g" using Some by (auto simp: groups_of_def in_set_enumerate_eq)
    then show ?thesis
      using fold_updates [OF distinct, of roll_text "blanks ?fs" j] g j Some
      by (simp add: blanks_def rolled_text_def roll_text_def)
  qed
  moreover have "length ?out = length ?fs"
    using fold_updates [OF distinct, of roll_text "blanks ?fs" 0] by (simp add: blanks_def)
  ultimately show ?thesis
    by (simp add: RollUpMachineLocalInputs_def fold_roll_step list_eq_iff_nth_eq)
qed

text \<open>A record the portable line admits: committed provenance, no refusal that no exemption covers, and every
  manifest readable with its paths inside the subject's module.\<close>

definition manifest_portable :: "line_env \<Rightarrow> subject_evidence \<Rightarrow> bool" where
  "manifest_portable env ev \<longleftrightarrow>
     (fp_RuntimeInputs (e_Fingerprint ev) \<noteq> [] \<longrightarrow>
        (case le_manifest env (fp_RuntimeInputs (e_Fingerprint ev)) (subject_base (le_moduleDir env) ev) of
           None \<Rightarrow> False
         | Some paths \<Rightarrow> list_all (inside (subject_base (le_moduleDir env) ev)) paths))"

definition portable :: "line_env \<Rightarrow> finding \<Rightarrow> bool" where
  "portable env f \<longleftrightarrow>
     \<not> f_Dirty f \<and> f_Commit f \<noteq> [] \<and>
     (coveredExemptions (le_ops env) (le_exemptions env) f = None \<longrightarrow>
        f_EvidenceFault f = [] \<and> list_all (\<lambda>ev. \<not> e_RuntimeUnverifiable ev) (f_TargetEvidence f # f_OracleEvidence f)) \<and>
     list_all (manifest_portable env) (f_TargetEvidence f # f_OracleEvidence f)"

lemma manifest_clauses_Nil: "manifest_clauses env ev = [] \<longleftrightarrow> manifest_portable env ev"
  by (auto simp: manifest_clauses_def manifest_portable_def Let_def filter_empty_conv list_all_iff split: option.split)

text \<open>a record is committable exactly when it is portable: an exemption lifts the unverifiable clauses and no
  other.\<close>

theorem committable_iff_portable: "fst (Committable env f) \<longleftrightarrow> portable env f"
proof -
  have "fst (Committable env f) \<longleftrightarrow> line_clauses env f = []"
    by (cases "line_clauses env f") (simp_all add: Committable_def walk_clauses)
  also have "\<dots> \<longleftrightarrow> portable env f"
    unfolding line_clauses_def portable_def Let_def
    by (auto simp: subject_clauses_def manifest_clauses_Nil list_all_iff split: if_splits)
  finally show ?thesis .
qed

end
