(* ===== verification/Store.thy ===== *)
theory Store
  imports Portable
begin

text \<open>
  The two-layer findings store (\<open>store.go\<close>, \<open>revise.go\<close>): the committed document and the machine-local
  overlay, the merged view, the committability memo, the exemption record's refresh and rewrite under the
  document lock, the measuring write \<open>Update\<close>, and the record verbs' write \<open>Revise\<close>.

  The state is the store's fields (\<open>store\<close>) and what the writes change outside it (\<open>disk\<close>). The document
  is its parsed rows and its bounds. The callbacks of the writes are arguments. Encoding and
  decoding of the two JSON documents are parameters (\<open>sv_accepts\<close>: the encoder's self-check admits the
  record; \<open>sv_decode\<close>, \<open>sv_encode\<close>: the exemption record). The lock, cancellation and failures of the file
  system are not modelled.
\<close>

subsection \<open>State\<close>

record judged =
  jd_finding :: finding
  jd_committable :: bool
  jd_reasons :: "string list"

record store =
  sr_exemptions :: "exemption list"
  sr_rekeyed :: "rekeyed_exemption list"
  sr_rekeyPersisted :: bool
  sr_exemptionsRaw :: string
  sr_rekeyReported :: "rekeyed_exemption list"
  sr_exemptionsTorn :: bool
  sr_pendingBounds :: "(string \<times> coverage_bound) list"
  sr_judged :: "string \<Rightarrow> judged option"
  sr_overlaid :: "string set"

record disk =
  dk_rows :: "finding list"
  dk_bounds :: "coverage_bound list"
  dk_exemptions :: "string option"
  dk_overlay :: overlay_dir

record store_env =
  sv_line :: line_env
  sv_roots :: "string list"
  sv_decode :: "string \<Rightarrow> (int \<times> exemption list) option"
  sv_encode :: "exemption list \<Rightarrow> string"
  sv_accepts :: "finding \<Rightarrow> bool"
  sv_home :: "string \<Rightarrow> string"

definition record_order :: "finding \<Rightarrow> string \<times> string" where
  "record_order f = (f_Symbol f, f_Selection f)"

definition mergeLayers :: "finding list \<Rightarrow> finding list \<Rightarrow> finding list" where
  "mergeLayers repo overlay = sort_key record_order (map snd (map_keyed recordKey (repo @ overlay)))"

definition noteOverlaid :: "finding list \<Rightarrow> store \<Rightarrow> store" where
  "noteOverlaid overlay st = st\<lparr>sr_overlaid := recordKey ` set overlay\<rparr>"

definition Overlaid :: "store \<Rightarrow> string \<Rightarrow> bool" where
  "Overlaid st symbol \<longleftrightarrow> symbol \<in> sr_overlaid st"

subsection \<open>Coverage bounds\<close>

definition RecordCoverageBound :: "coverage_bound \<Rightarrow> store \<Rightarrow> store" where
  "RecordCoverageBound b st = st\<lparr>sr_pendingBounds := AList.update (cov_Selection b) b (sr_pendingBounds st)\<rparr>"

definition RecordRunBound :: "finding list \<Rightarrow> selection \<Rightarrow> string \<Rightarrow> bool \<Rightarrow> store \<Rightarrow> store" where
  "RecordRunBound findings sel runID wholeTree st =
     (if \<not> wholeTree then st
      else case CoverageBoundOf findings sel runID of None \<Rightarrow> st | Some b \<Rightarrow> RecordCoverageBound b st)"

definition lay_bound :: "string \<times> coverage_bound \<Rightarrow> (string \<times> coverage_bound) list \<Rightarrow> (string \<times> coverage_bound) list" where
  "lay_bound p bySel =
     (if cov_Unreached (snd p) = [] then AList.delete (fst p) bySel else AList.update (fst p) (snd p) bySel)"

definition mergedBounds :: "store \<Rightarrow> coverage_bound list \<Rightarrow> coverage_bound list" where
  "mergedBounds st bounds =
     sort_key cov_Selection (map snd (fold lay_bound (sr_pendingBounds st) (map_keyed cov_Selection bounds)))"

subsection \<open>The exemption record\<close>

definition loadExemptionsFile :: "store_env \<Rightarrow> string option \<Rightarrow> (exemption list \<times> rekeyed_exemption list \<times> string) option" where
  "loadExemptionsFile env file =
     (case file of
        None \<Rightarrow> Some ([], [], [])
      | Some data \<Rightarrow>
          (case sv_decode env data of
             None \<Rightarrow> None
           | Some (version, entries) \<Rightarrow>
               (case loadExemptions (le_ops (sv_line env)) (sv_roots env) version entries of
                  Inl _ \<Rightarrow> None
                | Inr (entries, rekeyed) \<Rightarrow> Some (entries, rekeyed, data))))"

definition refreshExemptions :: "store_env \<Rightarrow> string option \<Rightarrow> store \<Rightarrow> store" where
  "refreshExemptions env file st =
     (if get_or [] file = sr_exemptionsRaw st then st\<lparr>sr_exemptionsTorn := False\<rparr>
      else case loadExemptionsFile env file of
        None \<Rightarrow> st\<lparr>sr_exemptionsTorn := True\<rparr>
      | Some (entries, rekeyed, raw) \<Rightarrow>
          st\<lparr>sr_exemptions := entries, sr_rekeyed := rekeyed, sr_exemptionsRaw := raw,
            sr_rekeyPersisted := (rekeyed = []), sr_exemptionsTorn := False, sr_judged := Map.empty\<rparr>)"

record rewritten_exemption =
  rw_Subject_From :: string
  rw_Subject_To :: string

record exemption_write =
  ew_Listed :: "rewritten_exemption list"
  ew_Written :: bool
  ew_Rekeyed :: bool

definition no_write :: exemption_write where
  "no_write = \<lparr>ew_Listed = [], ew_Written = False, ew_Rekeyed = False\<rparr>"

definition failedAfter :: "exemption_write \<Rightarrow> string \<Rightarrow> string" where
  "failedAfter w err =
     (if \<not> ew_Written w then err
      else ''the exemption record was rewritten ('' @
        join ''; '' ((if length (ew_Listed w) > 0 then [itoa (int (length (ew_Listed w))) @ '' subject(s) moved''] else []) @
          (if ew_Rekeyed w then [''the re-key persisted''] else [])) @
        '') ahead of the write that failed: '' @ err)"

definition rewriteExemptions :: "store_env \<Rightarrow> exemption list \<Rightarrow> store \<Rightarrow> store" where
  "rewriteExemptions env entries st =
     st\<lparr>sr_exemptions := entries, sr_exemptionsRaw := sv_encode env entries,
       sr_rekeyReported := (if \<not> sr_rekeyPersisted st then sr_rekeyReported st @ sr_rekeyed st else sr_rekeyReported st),
       sr_rekeyPersisted := True\<rparr>"

datatype store_error =
    RecordTorn
  | RewriteRefused string
  | OverlayAhead string
  | CallbackFailed string
  | RecordInvalid string
  | RecordCollision string layer
  | OverlayPartial

type_synonym exemption_rewrite = "exemption list \<Rightarrow> string + (exemption list \<times> rewritten_exemption list)"

text \<open>The write of the record: the outcome, the store, and the file.\<close>

definition prepareExemptions :: "store_env \<Rightarrow> exemption_rewrite option \<Rightarrow> store \<Rightarrow> string option \<Rightarrow>
    store_error + (exemption_write \<times> store \<times> string option)" where
  "prepareExemptions env rewrite st file =
     (let pending = (length (sr_rekeyed st) > 0 \<and> \<not> sr_rekeyPersisted st); torn = sr_exemptionsTorn st;
          entries = sr_exemptions st in
      case (case rewrite of
              None \<Rightarrow> Inr (entries, [])
            | Some rw \<Rightarrow> if torn then Inl RecordTorn
                else (case rw entries of Inl err \<Rightarrow> Inl (RewriteRefused err) | Inr r \<Rightarrow> Inr r)) of
        Inl err \<Rightarrow> Inl err
      | Inr (entries, listed) \<Rightarrow>
          if torn \<or> (length listed = 0 \<and> \<not> pending) then Inr (no_write\<lparr>ew_Listed := listed\<rparr>, st, file)
          else Inr (\<lparr>ew_Listed = listed, ew_Written = True, ew_Rekeyed = pending\<rparr>,
            rewriteExemptions env entries st, Some (sv_encode env entries)))"

subsection \<open>The committability memo\<close>

definition persistedForm :: "finding \<Rightarrow> finding" where
  "persistedForm f = f\<lparr>f_Cached := False, f_Skipped := []\<rparr>"

definition parsedForm :: "store_env \<Rightarrow> finding \<Rightarrow> store_error + finding" where
  "parsedForm env f = (if f_Skipped f \<noteq> [] \<or> \<not> sv_accepts env f then Inl (RecordInvalid (f_Symbol f)) else Inr (wire f))"

definition in_force :: "store_env \<Rightarrow> store \<Rightarrow> line_env" where
  "in_force env st = (sv_line env)\<lparr>le_exemptions := sr_exemptions st\<rparr>"

definition route :: "store_env \<Rightarrow> finding \<Rightarrow> finding \<Rightarrow> store \<Rightarrow> (bool \<times> string list) \<times> store" where
  "route env f form st =
     (let key = recordKey f; fresh =
        (let reasons = CommittableReasons (in_force env st) f in
         ((length reasons = 0, reasons),
          st\<lparr>sr_judged := (sr_judged st)(key \<mapsto> \<lparr>jd_finding = form, jd_committable = (length reasons = 0), jd_reasons = reasons\<rparr>)\<rparr>)) in
      case sr_judged st key of
        None \<Rightarrow> fresh
      | Some memo \<Rightarrow> if jd_finding memo = form then ((jd_committable memo, jd_reasons memo), st) else fresh)"

subsection \<open>The measuring write\<close>

record routed =
  rt_store :: store
  rt_committable :: "string \<Rightarrow> bool"
  rt_forms :: "string \<Rightarrow> finding option"
  rt_routing :: routing

definition route_next :: "store_env \<Rightarrow> finding \<Rightarrow> routed \<Rightarrow> routed" where
  "route_next env f rt =
     (let key = recordKey f in
      if f_Skipped f \<noteq> [] then rt
      else (let form = persistedForm f; (verdict, st) = route env f form (rt_store rt); (ok, reasons) = verdict in
        \<lparr>rt_store = st, rt_committable = (rt_committable rt)(key := ok), rt_forms = (rt_forms rt)(key \<mapsto> form),
         rt_routing = (rt_routing rt)(key \<mapsto> \<lparr>pl_Layer = (if \<not> ok then LayerLocal else LayerRepo), pl_Reasons = reasons\<rparr>)\<rparr>))"

type_synonym by_repo = "(string \<times> finding) list"

definition keep_incumbent :: "store_env \<Rightarrow> finding \<Rightarrow> store \<times> by_repo \<Rightarrow> store \<times> by_repo" where
  "keep_incumbent env f acc =
     (let form = persistedForm f; (verdict, st) = route env f form (fst acc) in
      (st, if fst verdict then AList.update (recordKey f) form (snd acc) else snd acc))"

fun install_successors :: "store_env \<Rightarrow> (string \<Rightarrow> finding option) \<Rightarrow> routed \<Rightarrow> finding list \<Rightarrow> by_repo \<Rightarrow> store_error + by_repo" where
  "install_successors env merged rt [] byRepo = Inr byRepo"
| "install_successors env merged rt (f # fs) byRepo =
     (let key = recordKey f in
      if \<not> rt_committable rt key then install_successors env merged rt fs byRepo
      else case merged key of
        Some prior \<Rightarrow>
          if Some (persistedForm prior) = rt_forms rt key
          then install_successors env merged rt fs (AList.update key (persistedForm prior) byRepo)
          else (case parsedForm env f of Inl err \<Rightarrow> Inl err
            | Inr row \<Rightarrow> install_successors env merged rt fs (AList.update key row byRepo))
      | None \<Rightarrow> (case parsedForm env f of Inl err \<Rightarrow> Inl err
            | Inr row \<Rightarrow> install_successors env merged rt fs (AList.update key row byRepo)))"

definition update_edit :: "routed \<Rightarrow> (string \<Rightarrow> finding option) \<Rightarrow> finding \<Rightarrow> overlay_edit list" where
  "update_edit rt holds f =
     (let key = recordKey f in
      if f_Skipped f \<noteq> [] then []
      else if rt_committable rt key then (if holds key \<noteq> None then [Removal key] else [])
      else if holds key \<noteq> None \<and> holds key = rt_forms rt key then []
      else [Install f])"

definition pruned_keys :: "finding list \<Rightarrow> finding list \<Rightarrow> string list" where
  "pruned_keys next layers = filter (\<lambda>k. k \<notin> recordKey ` set next) (map recordKey layers)"

text \<open>An install whose record the encoder refuses fails the write after the document landed.\<close>

definition write_overlay :: "store_env \<Rightarrow> overlay_read \<Rightarrow> overlay_edit list \<Rightarrow> overlay_dir \<Rightarrow> store_error + overlay_dir" where
  "write_overlay env rd edits dir =
     (if list_ex (\<lambda>f. \<not> sv_accepts env f \<or> f_Skipped f \<noteq> []) (installs edits) then Inl OverlayPartial
      else Inr (applyOverlayEdits (sv_home env) rd edits dir))"

definition update_rows :: "store_env \<Rightarrow> store \<Rightarrow> finding list \<Rightarrow> finding list \<Rightarrow> finding list \<Rightarrow>
    store_error + (routed \<times> store \<times> finding list)" where
  "update_rows env st repoPrior current next =
     (let merged = map_last (map (\<lambda>f. (recordKey f, f)) current);
          rt = fold (route_next env) next \<lparr>rt_store = st, rt_committable = (\<lambda>_. False), rt_forms = Map.empty, rt_routing = Map.empty\<rparr>;
          (st, byRepo) = fold (keep_incumbent env) repoPrior (rt_store rt, []) in
      case install_successors env merged rt next byRepo of
        Inl err \<Rightarrow> Inl err
      | Inr byRepo \<Rightarrow>
          Inr (rt, st, sort_key record_order (map snd (filter (\<lambda>p. fst p \<in> recordKey ` set next) byRepo))))"

definition Update :: "store_env \<Rightarrow> (finding list \<Rightarrow> string + finding list) \<Rightarrow> store \<Rightarrow> disk \<Rightarrow>
    store_error + (store \<times> disk \<times> routing)" where
  "Update env update st dk =
     (let st = refreshExemptions env (dk_exemptions dk) st in
      case loadOverlay (sv_home env) (dk_overlay dk) of
        Inl name \<Rightarrow> Inl (OverlayAhead name)
      | Inr (overlay, rd, dir) \<Rightarrow>
          (let current = mergeLayers (dk_rows dk) overlay in
           case update current of
             Inl err \<Rightarrow> Inl (CallbackFailed err)
           | Inr next \<Rightarrow>
               (case update_rows env st (dk_rows dk) current next of
                  Inl err \<Rightarrow> Inl err
                | Inr (rt, st, rows) \<Rightarrow>
                    (let bounds = mergedBounds st (dk_bounds dk) in
                     case prepareExemptions env None st (dk_exemptions dk) of
                       Inl err \<Rightarrow> Inl err
                     | Inr (w, st, file) \<Rightarrow>
                         (let holds = map_last (map (\<lambda>f. (recordKey f, f)) overlay);
                              edits = concat (map (update_edit rt holds) next) @ map Removal (pruned_keys next (dk_rows dk @ overlay)) in
                          case write_overlay env rd edits dir of
                            Inl err \<Rightarrow> Inl err
                          | Inr dir \<Rightarrow>
                              Inr (st\<lparr>sr_pendingBounds := []\<rparr>,
                                \<lparr>dk_rows = rows, dk_bounds = bounds, dk_exemptions = file, dk_overlay = dir\<rparr>, rt_routing rt))))))"

subsection \<open>The memo is transparent\<close>

lemma persistedForm_simps [simp]: "recordKey (persistedForm f) = recordKey f" "wire (persistedForm f) = wire f"
  "record_order (persistedForm f) = record_order f" "record_order (wire f) = record_order f"
  by (simp_all add: persistedForm_def wire_def recordKey_def record_order_def)

lemma cover_oracles_form: "f_Symbol f = f_Symbol g \<Longrightarrow> f_EvidenceFault f = f_EvidenceFault g \<Longrightarrow>
    cover_oracles ops xs f m evs = cover_oracles ops xs g m evs"
  by (induction ops xs f m evs rule: cover_oracles.induct) (auto split: option.split)

lemma reasons_form:
  assumes "f_Symbol f = f_Symbol g" "f_EvidenceFault f = f_EvidenceFault g" "f_Dirty f = f_Dirty g" "f_Commit f = f_Commit g"
    "f_TargetEvidence f = f_TargetEvidence g" "f_OracleEvidence f = f_OracleEvidence g"
  shows "CommittableReasons le f = CommittableReasons le g"
proof -
  have "coveredExemptions (le_ops le) (le_exemptions le) f = coveredExemptions (le_ops le) (le_exemptions le) g"
  proof -
    have target: "cover_target ops xs f = cover_target ops xs g" for ops xs
      by (rule ext) (unfold cover_target_def assms, rule refl)
    have fault: "cover_fault ops xs f = cover_fault ops xs g" for ops xs
      by (rule ext) (unfold cover_fault_def assms, rule refl)
    show ?thesis
      by (unfold coveredExemptions_def target fault cover_oracles_form [OF assms(1,2)] assms(6), rule refl)
  qed
  then show ?thesis using assms by (simp add: CommittableReasons_def portableLineWalk_def)
qed

lemma reasons_persisted [simp]: "CommittableReasons le (persistedForm f) = CommittableReasons le f"
  "CommittableReasons le (wire f) = CommittableReasons le f"
  by (rule reasons_form; simp add: persistedForm_def wire_def)+

definition memo_ok :: "store_env \<Rightarrow> store \<Rightarrow> bool" where
  "memo_ok env st \<longleftrightarrow> (\<forall>k j. sr_judged st k = Some j \<longrightarrow>
     jd_reasons j = CommittableReasons (in_force env st) (jd_finding j) \<and> (jd_committable j \<longleftrightarrow> jd_reasons j = []))"

text \<open>Two stores that differ in their memo only.\<close>

definition same_but_memo :: "store \<Rightarrow> store \<Rightarrow> bool" where
  "same_but_memo st st' \<longleftrightarrow> st' = st\<lparr>sr_judged := sr_judged st'\<rparr>"

lemma same_refl [simp]: "same_but_memo st st"
  by (simp add: same_but_memo_def)

lemma same_trans: "same_but_memo a b \<Longrightarrow> same_but_memo b c \<Longrightarrow> same_but_memo a c"
  by (cases a; cases b; cases c) (simp add: same_but_memo_def)

lemma same_in_force: "same_but_memo st st' \<Longrightarrow> in_force env st' = in_force env st"
  by (cases st; cases st') (simp add: same_but_memo_def in_force_def)

lemma route_ok:
  assumes "memo_ok env st"
  obtains st' where "route env f (persistedForm f) st =
      ((CommittableReasons (in_force env st) f = [], CommittableReasons (in_force env st) f), st')"
    "memo_ok env st'" "same_but_memo st st'"
proof -
  let ?reasons = "CommittableReasons (in_force env st) f"
  let ?st = "st\<lparr>sr_judged := (sr_judged st)(recordKey f \<mapsto>
      \<lparr>jd_finding = persistedForm f, jd_committable = (length ?reasons = 0), jd_reasons = ?reasons\<rparr>)\<rparr>"
  have "in_force env ?st = in_force env st" by (simp add: in_force_def)
  then have fresh: "memo_ok env ?st" using assms by (simp add: memo_ok_def)
  have same: "same_but_memo st ?st" by (simp add: same_but_memo_def)
  show thesis
  proof (cases "sr_judged st (recordKey f)")
    case None
    then show thesis using that [of ?st] fresh same by (simp add: route_def Let_def)
  next
    case (Some memo)
    show thesis
    proof (cases "jd_finding memo = persistedForm f")
      case True
      have "jd_reasons memo = CommittableReasons (in_force env st) (jd_finding memo)"
        "jd_committable memo = (jd_reasons memo = [])"
        using assms Some by (simp_all add: memo_ok_def)
      then show thesis using that [of st] assms True Some by (simp add: route_def Let_def)
    next
      case False
      then show thesis using that [of ?st] fresh same Some by (simp add: route_def Let_def)
    qed
  qed
qed

lemma refresh_memo: "memo_ok env st \<Longrightarrow> memo_ok env (refreshExemptions env file st)"
  by (auto simp: refreshExemptions_def memo_ok_def in_force_def split: option.split)

subsection \<open>What the write's passes compute\<close>

lemma update_fresh: "k \<notin> fst ` set m \<Longrightarrow> AList.update k v m = m @ [(k, v)]"
  by (induction m) auto

definition routed_ok :: "line_env \<Rightarrow> finding list \<Rightarrow> routed \<Rightarrow> bool" where
  "routed_ok le fs rt \<longleftrightarrow>
     (\<forall>f \<in> set fs. f_Skipped f = [] \<longrightarrow>
        (rt_committable rt (recordKey f) \<longleftrightarrow> CommittableReasons le f = []) \<and>
        rt_forms rt (recordKey f) = Some (persistedForm f) \<and>
        rt_routing rt (recordKey f) =
          Some \<lparr>pl_Layer = (if CommittableReasons le f = [] then LayerRepo else LayerLocal), pl_Reasons = CommittableReasons le f\<rparr>) \<and>
     (\<forall>k. (\<forall>f \<in> set fs. recordKey f = k \<longrightarrow> f_Skipped f \<noteq> []) \<longrightarrow>
        \<not> rt_committable rt k \<and> rt_routing rt k = None \<and> rt_forms rt k = None)"

lemma route_next_ok:
  assumes "distinct (map recordKey fs)" "memo_ok env st"
  defines "rt \<equiv> fold (route_next env) fs
      \<lparr>rt_store = st, rt_committable = (\<lambda>_. False), rt_forms = Map.empty, rt_routing = Map.empty\<rparr>"
  shows "routed_ok (in_force env st) fs rt \<and> memo_ok env (rt_store rt) \<and> same_but_memo st (rt_store rt)"
  using assms(1) unfolding rt_def
proof (induction fs rule: rev_induct)
  case Nil
  then show ?case using assms(2) by (simp add: routed_ok_def)
next
  case (snoc f fs)
  define rt where "rt = fold (route_next env) fs
      \<lparr>rt_store = st, rt_committable = (\<lambda>_. False), rt_forms = Map.empty, rt_routing = Map.empty\<rparr>"
  have IH: "routed_ok (in_force env st) fs rt" "memo_ok env (rt_store rt)" "same_but_memo st (rt_store rt)"
    and new: "recordKey f \<notin> recordKey ` set fs"
    using snoc by (auto simp: rt_def)
  have step: "fold (route_next env) (fs @ [f])
      \<lparr>rt_store = st, rt_committable = (\<lambda>_. False), rt_forms = Map.empty, rt_routing = Map.empty\<rparr> = route_next env f rt"
    by (simp add: rt_def)
  show ?case
  proof (cases "f_Skipped f = []")
    case False
    then show ?thesis
      unfolding step using IH new by (auto simp: route_next_def routed_ok_def Let_def)
  next
    case True
    obtain st' where st': "route env f (persistedForm f) (rt_store rt) =
        ((CommittableReasons (in_force env st) f = [], CommittableReasons (in_force env st) f), st')"
      "memo_ok env st'" "same_but_memo (rt_store rt) st'"
      using route_ok [OF IH(2)] same_in_force [OF IH(3)] by metis
    have "routed_ok (in_force env st) (fs @ [f]) (route_next env f rt)"
      using IH(1) new True st'(1) unfolding routed_ok_def
      by (auto simp: route_next_def Let_def image_iff)
    then show ?thesis
      unfolding step using st' True same_trans [OF IH(3) st'(3)] by (simp add: route_next_def Let_def)
  qed
qed

lemma keep_incumbent_ok:
  assumes "distinct (map recordKey fs)" "memo_ok env st"
  shows "\<exists>st' byRepo. fold (keep_incumbent env) fs (st, []) = (st', byRepo) \<and> memo_ok env st' \<and> same_but_memo st st' \<and>
    distinct (map fst byRepo) \<and> (\<forall>k g. (k, g) \<in> set byRepo \<longleftrightarrow>
      (\<exists>f \<in> set fs. recordKey f = k \<and> g = persistedForm f \<and> CommittableReasons (in_force env st) f = []))"
  using assms(1)
proof (induction fs rule: rev_induct)
  case Nil
  then show ?case using assms(2) by simp
next
  case (snoc f fs)
  then obtain st1 byRepo where IH: "fold (keep_incumbent env) fs (st, []) = (st1, byRepo)" "memo_ok env st1"
      "same_but_memo st st1" "distinct (map fst byRepo)" "\<And>k g. (k, g) \<in> set byRepo \<longleftrightarrow>
      (\<exists>f \<in> set fs. recordKey f = k \<and> g = persistedForm f \<and> CommittableReasons (in_force env st) f = [])"
    by auto
  have new: "recordKey f \<notin> fst ` set byRepo" using snoc.prems IH(5) by (force simp: image_iff)
  obtain st2 where st2: "route env f (persistedForm f) st1 =
      ((CommittableReasons (in_force env st) f = [], CommittableReasons (in_force env st) f), st2)"
    "memo_ok env st2" "same_but_memo st1 st2"
    using route_ok [OF IH(2)] same_in_force [OF IH(3)] by metis
  let ?out = "if CommittableReasons (in_force env st) f = [] then AList.update (recordKey f) (persistedForm f) byRepo else byRepo"
  have run: "fold (keep_incumbent env) (fs @ [f]) (st, []) = (st2, ?out)"
    using IH(1) st2(1) by (simp add: keep_incumbent_def Let_def)
  have "AList.update (recordKey f) (persistedForm f) byRepo = byRepo @ [(recordKey f, persistedForm f)]"
    using new by (rule update_fresh)
  then have "\<forall>k g. (k, g) \<in> set ?out \<longleftrightarrow> (\<exists>f' \<in> set (fs @ [f]). recordKey f' = k \<and> g = persistedForm f' \<and>
      CommittableReasons (in_force env st) f' = [])"
    using IH(5) by auto
  moreover have "distinct (map fst ?out)" using IH(4) by (simp add: distinct_update)
  ultimately show ?case using run st2(2) same_trans [OF IH(3) st2(3)] by blast
qed

lemma routed_committable:
  assumes "routed_ok le fs rt" "distinct (map recordKey fs)" "f \<in> set fs" "rt_committable rt (recordKey f)"
  shows "f_Skipped f = []" "CommittableReasons le f = []" "rt_forms rt (recordKey f) = Some (persistedForm f)"
proof -
  show unskipped: "f_Skipped f = []"
  proof (rule ccontr)
    assume "f_Skipped f \<noteq> []"
    then have "\<forall>f' \<in> set fs. recordKey f' = recordKey f \<longrightarrow> f_Skipped f' \<noteq> []"
      using assms(2,3) by (auto simp: distinct_map inj_on_def)
    then show False using assms(1,4) by (simp add: routed_ok_def)
  qed
  then show "CommittableReasons le f = []" "rt_forms rt (recordKey f) = Some (persistedForm f)"
    using assms(1,3,4) by (simp_all add: routed_ok_def)
qed

definition rows_ok :: "by_repo \<Rightarrow> bool" where
  "rows_ok byRepo \<longleftrightarrow> distinct (map fst byRepo) \<and> (\<forall>(k, g) \<in> set byRepo. recordKey g = k)"

lemma update_in: "p \<in> set (AList.update k g m) \<Longrightarrow> p = (k, g) \<or> p \<in> set m"
  by (induction m) (auto split: if_splits)

lemma rows_ok_update: "rows_ok byRepo \<Longrightarrow> recordKey g = k \<Longrightarrow> rows_ok (AList.update k g byRepo)"
  by (auto simp: rows_ok_def distinct_update dest!: update_in)

definition successor :: "finding \<Rightarrow> finding \<Rightarrow> bool" where
  "successor f g \<longleftrightarrow> g = persistedForm f \<or> g = wire f"

lemma install_step:
  assumes "install_successors env merged rt (f # fs) byRepo = Inr out" "rt_committable rt (recordKey f)"
    "rt_forms rt (recordKey f) = Some (persistedForm f)"
  obtains g where "successor f g" "install_successors env merged rt fs (AList.update (recordKey f) g byRepo) = Inr out"
proof -
  consider prior where "merged (recordKey f) = Some prior" "persistedForm prior = persistedForm f"
    | row where "parsedForm env f = Inr row" "install_successors env merged rt fs (AList.update (recordKey f) row byRepo) = Inr out"
    using assms by (auto simp: Let_def split: option.splits if_splits sum.splits)
  then show thesis
  proof cases
    case 1
    then show thesis using assms that [of "persistedForm f"] by (simp add: successor_def)
  next
    case 2
    then have "row = wire f" by (auto simp: parsedForm_def split: if_splits)
    then show thesis using 2 that [of row] by (simp add: successor_def)
  qed
qed

lemma install_ok:
  assumes rt: "routed_ok le next rt" and keys: "distinct (map recordKey next)"
    and fs: "set fs \<subseteq> set next" "distinct (map recordKey fs)" and rows: "rows_ok byRepo"
    and run: "install_successors env merged rt fs byRepo = Inr out"
  shows "rows_ok out \<and>
    (\<forall>f \<in> set fs. rt_committable rt (recordKey f) \<longrightarrow> (\<exists>g. map_of out (recordKey f) = Some g \<and> successor f g)) \<and>
    (\<forall>k. k \<notin> recordKey ` set fs \<or> \<not> rt_committable rt k \<longrightarrow> map_of out k = map_of byRepo k)"
  using fs rows run
proof (induction fs arbitrary: byRepo)
  case Nil
  then show ?case by simp
next
  case (Cons f fs)
  show ?case
  proof (cases "rt_committable rt (recordKey f)")
    case False
    then have "install_successors env merged rt fs byRepo = Inr out" using Cons.prems(4) by simp
    then show ?thesis using Cons.IH [of byRepo] Cons.prems False by auto
  next
    case True
    have "rt_forms rt (recordKey f) = Some (persistedForm f)"
      using routed_committable [OF rt keys _ True] Cons.prems(1) by simp
    then obtain g where g: "successor f g" "install_successors env merged rt fs (AList.update (recordKey f) g byRepo) = Inr out"
      using install_step [OF Cons.prems(4) True] by blast
    have "recordKey g = recordKey f" using g(1) by (auto simp: successor_def)
    then have "rows_ok (AList.update (recordKey f) g byRepo)" using Cons.prems(3) rows_ok_update by blast
    then have IH: "rows_ok out"
      "\<And>f'. f' \<in> set fs \<Longrightarrow> rt_committable rt (recordKey f') \<Longrightarrow> \<exists>g. map_of out (recordKey f') = Some g \<and> successor f' g"
      "\<And>k. k \<notin> recordKey ` set fs \<or> \<not> rt_committable rt k \<Longrightarrow> map_of out k = map_of (AList.update (recordKey f) g byRepo) k"
      using Cons.IH [OF _ _ _ g(2)] Cons.prems(1,2) by simp_all
    have "map_of out (recordKey f) = Some g" using IH(3) [of "recordKey f"] Cons.prems(2) by simp
    moreover have "map_of out k = map_of byRepo k" if "k \<notin> recordKey ` set (f # fs) \<or> \<not> rt_committable rt k" for k
      using IH(3) [of k] that True by auto
    ultimately show ?thesis using IH(1,2) g(1) by auto
  qed
qed

text \<open>The row of a document under a key.\<close>

definition row_at :: "finding list \<Rightarrow> string \<Rightarrow> finding option" where
  "row_at rows k = find (\<lambda>f. recordKey f = k) rows"

lemma row_at_Some: "distinct (map recordKey rows) \<Longrightarrow> row_at rows k = Some f \<longleftrightarrow> f \<in> set rows \<and> recordKey f = k"
  by (induction rows) (auto simp: row_at_def find_Some_iff)

lemma row_at_None: "row_at rows k = None \<longleftrightarrow> k \<notin> recordKey ` set rows"
  by (auto simp: row_at_def find_None_iff)

lemma sorted_rows:
  fixes K :: "string set"
  assumes "rows_ok byRepo"
  defines "rows \<equiv> sort_key record_order (map snd (filter (\<lambda>p. fst p \<in> K) byRepo))"
  shows "distinct (map recordKey rows)" "row_at rows k = (if k \<in> K then map_of byRepo k else None)"
proof -
  let ?kept = "filter (\<lambda>p. fst p \<in> K) byRepo"
  have keyed: "map recordKey (map snd ?kept) = map fst ?kept"
    using assms(1) by (auto simp: rows_ok_def)
  have "distinct (map fst ?kept)" using assms(1) by (simp add: rows_ok_def distinct_map_filter)
  then have "distinct (map recordKey (map snd ?kept))" unfolding keyed .
  moreover have "distinct (map recordKey (sort_key record_order ys)) = distinct (map recordKey ys)" for ys
    by (simp add: distinct_map)
  ultimately show distinct: "distinct (map recordKey rows)" unfolding rows_def by blast
  have some: "row_at rows k = Some g \<longleftrightarrow> k \<in> K \<and> map_of byRepo k = Some g" for g
  proof -
    have "row_at rows k = Some g \<longleftrightarrow> g \<in> snd ` set ?kept \<and> recordKey g = k"
      using row_at_Some [OF distinct] by (simp add: rows_def)
    also have "\<dots> \<longleftrightarrow> k \<in> K \<and> (k, g) \<in> set byRepo"
    proof -
      have "recordKey (snd p) = fst p" if "p \<in> set byRepo" for p
        using assms(1) that by (auto simp: rows_ok_def)
      then show ?thesis by (fastforce simp: image_iff)
    qed
    finally show ?thesis using assms(1) by (simp add: rows_ok_def)
  qed
  show "row_at rows k = (if k \<in> K then map_of byRepo k else None)"
  proof (cases "row_at rows k")
    case None
    then show ?thesis using some [of "the (map_of byRepo k)"] by (cases "map_of byRepo k") auto
  next
    case (Some g)
    then show ?thesis using some [of g] by simp
  qed
qed

subsection \<open>The write\<close>

text \<open>Everything a successful update went through.\<close>

lemma update_run:
  assumes "Update env update st dk = Inr (st', dk', routing)"
  obtains overlay rd dir nx rt st1 w where
    "loadOverlay (sv_home env) (dk_overlay dk) = Inr (overlay, rd, dir)"
    "update (mergeLayers (dk_rows dk) overlay) = Inr nx"
    "update_rows env (refreshExemptions env (dk_exemptions dk) st) (dk_rows dk) (mergeLayers (dk_rows dk) overlay) nx
       = Inr (rt, st1, dk_rows dk')"
    "dk_bounds dk' = mergedBounds st1 (dk_bounds dk)"
    "\<exists>st2. prepareExemptions env None st1 (dk_exemptions dk) = Inr (w, st2, dk_exemptions dk') \<and>
       st' = st2\<lparr>sr_pendingBounds := []\<rparr>"
    "write_overlay env rd (concat (map (update_edit rt (map_last (map (\<lambda>f. (recordKey f, f)) overlay))) nx) @
       map Removal (pruned_keys nx (dk_rows dk @ overlay))) dir = Inr (dk_overlay dk')"
    "routing = rt_routing rt"
  using assms unfolding Update_def Let_def
  by (auto split: sum.splits prod.splits)

lemma prepare_none:
  assumes "prepareExemptions env None st file = Inr (w, st', file')"
  shows "sr_exemptions st' = sr_exemptions st" "sr_judged st' = sr_judged st"
  using assms by (auto simp: prepareExemptions_def Let_def rewriteExemptions_def split: if_splits)

lemma update_rows_ok:
  assumes run: "update_rows env st repo current next = Inr (rt, st', rows)"
    and keys: "distinct (map recordKey repo)" "distinct (map recordKey next)" and memo: "memo_ok env st"
  defines "le \<equiv> in_force env st"
  shows "routed_ok le next rt" "memo_ok env st'" "same_but_memo st st'" "distinct (map recordKey rows)"
    "\<And>f. f \<in> set next \<Longrightarrow> rt_committable rt (recordKey f) \<Longrightarrow> \<exists>g. row_at rows (recordKey f) = Some g \<and> successor f g"
    "\<And>k. \<not> rt_committable rt k \<Longrightarrow> row_at rows k =
      (if k \<in> recordKey ` set next then
         case row_at repo k of Some f \<Rightarrow> if CommittableReasons le f = [] then Some (persistedForm f) else None | None \<Rightarrow> None
       else None)"
    "sorted (map record_order rows)"
proof -
  let ?rt0 = "\<lparr>rt_store = st, rt_committable = (\<lambda>_. False), rt_forms = Map.empty, rt_routing = Map.empty\<rparr>"
  define merged where "merged = map_last (map (\<lambda>f. (recordKey f, f)) current)"
  obtain byRepo out where parts: "rt = fold (route_next env) next ?rt0"
      "fold (keep_incumbent env) repo (rt_store rt, []) = (st', byRepo)"
      "install_successors env merged rt next byRepo = Inr out"
      "rows = sort_key record_order (map snd (filter (\<lambda>p. fst p \<in> recordKey ` set next) out))"
    using run by (auto simp: update_rows_def Let_def merged_def split: sum.splits prod.splits)
  have rt: "routed_ok le next rt" "memo_ok env (rt_store rt)" "same_but_memo st (rt_store rt)"
    using route_next_ok [OF keys(2) memo] by (simp_all add: le_def parts(1))
  obtain st2 byRepo2 where inc: "fold (keep_incumbent env) repo (rt_store rt, []) = (st2, byRepo2)" "memo_ok env st2"
      "same_but_memo (rt_store rt) st2" "distinct (map fst byRepo2)" "\<And>k g. (k, g) \<in> set byRepo2 \<longleftrightarrow>
      (\<exists>f \<in> set repo. recordKey f = k \<and> g = persistedForm f \<and> CommittableReasons (in_force env (rt_store rt)) f = [])"
    using keep_incumbent_ok [OF keys(1) rt(2)] by blast
  have eqs: "st2 = st'" "byRepo2 = byRepo" using inc(1) parts(2) by simp_all
  have le: "in_force env (rt_store rt) = le" using same_in_force [OF rt(3)] by (simp add: le_def)
  have rows: "rows_ok byRepo" using inc(4,5) by (auto simp: rows_ok_def eqs)
  have byRepo_at: "map_of byRepo k =
      (case row_at repo k of Some f \<Rightarrow> if CommittableReasons le f = [] then Some (persistedForm f) else None | None \<Rightarrow> None)" for k
  proof (cases "row_at repo k")
    case None
    then have "\<nexists>g. (k, g) \<in> set byRepo" using inc(5) [of k] by (auto simp: row_at_None eqs)
    then show ?thesis using None map_of_SomeD [of byRepo k] by (cases "map_of byRepo k") auto
  next
    case (Some f)
    then have f: "f \<in> set repo" "recordKey f = k" using row_at_Some [OF keys(1)] by simp_all
    have only: "f' = f" if "f' \<in> set repo" "recordKey f' = k" for f'
      using that Some row_at_Some [OF keys(1), of k f'] by simp
    show ?thesis
    proof (cases "CommittableReasons le f = []")
      case True
      then have "(k, persistedForm f) \<in> set byRepo" using inc(5) f le eqs by blast
      then show ?thesis using True Some inc(4) eqs by simp
    next
      case False
      then have "\<nexists>g. (k, g) \<in> set byRepo" using inc(5) [of k] only le eqs by auto
      then show ?thesis using False Some map_of_SomeD [of byRepo k] by (cases "map_of byRepo k") auto
    qed
  qed
  note res = install_ok [OF rt(1) keys(2) subset_refl keys(2) rows parts(3)]
  have out: "rows_ok out" using res by blast
  show "routed_ok le next rt" "memo_ok env st'" "same_but_memo st st'"
    using rt(1) inc(2) same_trans [OF rt(3) inc(3)] eqs by simp_all
  show "distinct (map recordKey rows)" unfolding parts(4) by (rule sorted_rows(1) [OF out])
  have at: "row_at rows k = (if k \<in> recordKey ` set next then map_of out k else None)" for k
    unfolding parts(4) by (rule sorted_rows(2) [OF out])
  show "\<exists>g. row_at rows (recordKey f) = Some g \<and> successor f g" if "f \<in> set next" "rt_committable rt (recordKey f)" for f
    using res that at [of "recordKey f"] by auto
  show "row_at rows k = (if k \<in> recordKey ` set next then
         case row_at repo k of Some f \<Rightarrow> if CommittableReasons le f = [] then Some (persistedForm f) else None | None \<Rightarrow> None
       else None)" if "\<not> rt_committable rt k" for k
    using res that at [of k] byRepo_at [of k] by simp
  show "sorted (map record_order rows)" by (simp add: parts(4))
qed

text \<open>A store and its disk between two writes: the memo is truthful, the document is a symbol map, and the
  overlay's file names are those of a directory under an injective name hash.\<close>

definition store_ready :: "store_env \<Rightarrow> store \<Rightarrow> disk \<Rightarrow> bool" where
  "store_ready env st dk \<longleftrightarrow>
     memo_ok env st \<and> distinct (map recordKey (dk_rows dk)) \<and> distinct (map fst (dk_overlay dk)) \<and>
     inj (sv_home env) \<and> (\<forall>k. plain (sv_home env k))"

definition overlay_at :: "store_env \<Rightarrow> disk \<Rightarrow> string \<Rightarrow> finding option" where
  "overlay_at env dk k = view (sv_home env) (dk_overlay dk) k"

lemma loaded_at:
  assumes load: "loadOverlay home d = Inr (overlay, rd, dir)" and names: "distinct (map fst d)"
    and hash: "inj home" "\<And>k. plain (home k)"
  shows "map_last (map (\<lambda>f. (recordKey f, f)) overlay) k = view home d k"
proof -
  have rows: "set overlay = {f. view home d (recordKey f) = Some f}" "distinct (map recordKey overlay)"
    using load_rows [OF load names] by blast+
  have key: "recordKey f = k" if "view home d k = Some f" for f
    using served_key [OF load_session(1) [OF load names hash]] served_view [OF load_session(1) [OF load names hash]]
      load_session(2) [OF load names hash] that by simp
  have "map_last (map (\<lambda>f. (recordKey f, f)) overlay) k = Some f \<longleftrightarrow> view home d k = Some f" for f
  proof
    assume "map_last (map (\<lambda>f. (recordKey f, f)) overlay) k = Some f"
    then have "(k, f) \<in> set (map (\<lambda>f. (recordKey f, f)) overlay)" by (rule map_last_Some_in)
    then show "view home d k = Some f" using rows(1) by auto
  next
    assume v: "view home d k = Some f"
    then have "f \<in> set overlay" "recordKey f = k" using rows(1) key [OF v] by auto
    then have "(k, f) \<in> set (map (\<lambda>f. (recordKey f, f)) overlay)" by auto
    then show "map_last (map (\<lambda>f. (recordKey f, f)) overlay) k = Some f"
      using rows(2) by (intro map_last_distinct) (simp_all add: comp_def)
  qed
  then show ?thesis by (cases "view home d k") auto
qed

definition to_install :: "routed \<Rightarrow> (string \<Rightarrow> finding option) \<Rightarrow> finding \<Rightarrow> bool" where
  "to_install rt h f \<longleftrightarrow> f_Skipped f = [] \<and> \<not> rt_committable rt (recordKey f) \<and>
     \<not> (h (recordKey f) \<noteq> None \<and> h (recordKey f) = rt_forms rt (recordKey f))"

lemma update_installs:
  "installs (concat (map (update_edit rt h) fs) @ map Removal ks) =
     filter (to_install rt h) fs"
proof -
  have "installs (map Removal ks) = []" by (simp add: installs_def comp_def)
  moreover have "installs (a @ b) = installs a @ installs b" for a b by (simp add: installs_def)
  moreover have "installs (concat (map (update_edit rt h) fs)) = filter (to_install rt h) fs"
    by (induction fs) (auto simp: installs_def update_edit_def to_install_def Let_def)
  ultimately show ?thesis by simp
qed

lemma update_removals:
  "set (removals (concat (map (update_edit rt h) fs) @ map Removal ks)) =
     {recordKey f | f. f \<in> set fs \<and> f_Skipped f = [] \<and> rt_committable rt (recordKey f) \<and> h (recordKey f) \<noteq> None} \<union> set ks"
proof -
  have "removals (map Removal ks) = ks" by (induction ks) (simp_all add: removals_def)
  moreover have "removals (a @ b) = removals a @ removals b" for a b by (simp add: removals_def)
  moreover have "set (removals (concat (map (update_edit rt h) fs))) =
      {recordKey f | f. f \<in> set fs \<and> f_Skipped f = [] \<and> rt_committable rt (recordKey f) \<and> h (recordKey f) \<noteq> None}"
    by (induction fs) (auto simp: removals_def update_edit_def Let_def)
  ultimately show ?thesis by simp
qed

lemma update_overlay:
  assumes ready: "store_ready env st dk" and run: "Update env update st dk = Inr (st', dk', routing)"
    and load: "loadOverlay (sv_home env) (dk_overlay dk) = Inr (overlay, rd, dir)"
    and next_rows: "update (mergeLayers (dk_rows dk) overlay) = Inr nx" and keys: "distinct (map recordKey nx)"
  obtains rt st1 where
    "update_rows env (refreshExemptions env (dk_exemptions dk) st) (dk_rows dk) (mergeLayers (dk_rows dk) overlay) nx
       = Inr (rt, st1, dk_rows dk')"
    "in_force env st' = in_force env (refreshExemptions env (dk_exemptions dk) st)" "memo_ok env st'" "routing = rt_routing rt"
    "distinct (map fst (dk_overlay dk'))"
    "\<And>k. map_option wire (overlay_at env dk' k) =
      (case find (\<lambda>f. recordKey f = k) (filter (to_install rt (overlay_at env dk)) nx) of
         Some f \<Rightarrow> Some (wire f)
       | None \<Rightarrow>
           if (\<exists>f \<in> set nx. k = recordKey f \<and> f_Skipped f = [] \<and> rt_committable rt k) \<or> k \<notin> recordKey ` set nx then None
           else map_option wire (overlay_at env dk k))"
proof -
  let ?st = "refreshExemptions env (dk_exemptions dk) st"
  have hash: "inj (sv_home env)" "\<And>k. plain (sv_home env k)" and names: "distinct (map fst (dk_overlay dk))"
    and memo: "memo_ok env ?st" and rows: "distinct (map recordKey (dk_rows dk))"
    using ready refresh_memo by (auto simp: store_ready_def)
  obtain rt st1 w st2 where u: "update_rows env ?st (dk_rows dk) (mergeLayers (dk_rows dk) overlay) nx = Inr (rt, st1, dk_rows dk')"
      "prepareExemptions env None st1 (dk_exemptions dk) = Inr (w, st2, dk_exemptions dk')" "st' = st2\<lparr>sr_pendingBounds := []\<rparr>"
      "write_overlay env rd (concat (map (update_edit rt (map_last (map (\<lambda>f. (recordKey f, f)) overlay))) nx) @
         map Removal (pruned_keys nx (dk_rows dk @ overlay))) dir = Inr (dk_overlay dk')"
      "routing = rt_routing rt"
  proof (rule update_run [OF run])
    fix overlay' rd' dir' nx' rt st1 w
    assume l: "loadOverlay (sv_home env) (dk_overlay dk) = Inr (overlay', rd', dir')"
      and n: "update (mergeLayers (dk_rows dk) overlay') = Inr nx'"
      and r: "update_rows env ?st (dk_rows dk) (mergeLayers (dk_rows dk) overlay') nx' = Inr (rt, st1, dk_rows dk')"
      and p: "\<exists>st2. prepareExemptions env None st1 (dk_exemptions dk) = Inr (w, st2, dk_exemptions dk') \<and>
        st' = st2\<lparr>sr_pendingBounds := []\<rparr>"
      and o: "write_overlay env rd' (concat (map (update_edit rt (map_last (map (\<lambda>f. (recordKey f, f)) overlay'))) nx') @
        map Removal (pruned_keys nx' (dk_rows dk @ overlay'))) dir' = Inr (dk_overlay dk')"
      and q: "routing = rt_routing rt"
    have eqs: "overlay' = overlay" "rd' = rd" "dir' = dir" using l load by simp_all
    have "nx' = nx" using n next_rows eqs by simp
    then show thesis using that r p o q eqs by blast
  qed
  note rows_ok = update_rows_ok [OF u(1) rows keys memo]
  have held: "map_last (map (\<lambda>f. (recordKey f, f)) overlay) = overlay_at env dk"
    using loaded_at [OF load names hash] by (auto simp: overlay_at_def)
  have force: "in_force env st' = in_force env ?st"
    using prepare_none(1) [OF u(2)] same_in_force [OF rows_ok(3)] by (simp add: u(3) in_force_def)
  have memo': "memo_ok env st'"
    using rows_ok(2) prepare_none [OF u(2)] by (simp add: u(3) memo_ok_def in_force_def)
  let ?edits = "concat (map (update_edit rt (overlay_at env dk)) nx) @ map Removal (pruned_keys nx (dk_rows dk @ overlay))"
  let ?new = "filter (to_install rt (overlay_at env dk)) nx"
  have out: "dk_overlay dk' = applyOverlayEdits (sv_home env) rd ?edits dir"
    using u(4) by (simp add: write_overlay_def held split: if_splits)
  have new: "installs ?edits = ?new" by (rule update_installs)
  have distinct_new: "distinct (map recordKey (installs ?edits))"
    unfolding new using keys by (rule distinct_map_filter)
  note ses = load_session [OF load names hash]
  obtain rehomed where w: "written (sv_home env) dir rd (removals ?edits) (installs ?edits) rehomed (dk_overlay dk')"
    using applyOverlayEdits_written [OF ses(1) distinct_new] out by metis
  have view_out: "map_option wire (overlay_at env dk' k) = (case find (\<lambda>f. recordKey f = k) ?new of
         Some f \<Rightarrow> Some (wire f)
       | None \<Rightarrow> if k \<in> set (removals ?edits) then None else map_option wire (overlay_at env dk k))" for k
    using writer_refines [OF ses(1) distinct_new, of k] ses(2) out unfolding new by (simp add: overlay_at_def cong: option.case_cong)
  have gone: "overlay_at env dk k = None" if "k \<notin> recordKey ` set overlay" for k
  proof -
    have "map_last (map (\<lambda>f. (recordKey f, f)) overlay) k = None" using that by (simp add: map_last_None image_image)
    then show ?thesis by (simp add: held)
  qed
  have removed: "(if k \<in> set (removals ?edits) then None else map_option wire (overlay_at env dk k)) =
      (if (\<exists>f \<in> set nx. k = recordKey f \<and> f_Skipped f = [] \<and> rt_committable rt k) \<or> k \<notin> recordKey ` set nx then None
       else map_option wire (overlay_at env dk k))" for k
  proof -
    have "k \<in> set (removals ?edits) \<longleftrightarrow>
        (\<exists>f \<in> set nx. k = recordKey f \<and> f_Skipped f = [] \<and> rt_committable rt k \<and> overlay_at env dk k \<noteq> None) \<or>
        k \<notin> recordKey ` set nx \<and> k \<in> recordKey ` set (dk_rows dk @ overlay)"
      unfolding update_removals by (auto simp: pruned_keys_def)
    then show ?thesis using gone [of k] by (cases "overlay_at env dk k") auto
  qed
  show thesis
    by (rule that [OF u(1) force memo' u(5) writtenD(1) [OF w]]) (simp only: view_out removed)
qed

subsection \<open>Theorems\<close>

text \<open>The portable row a document already holds for a key, judged under the exemptions in force.\<close>

definition incumbent :: "line_env \<Rightarrow> disk \<Rightarrow> string \<Rightarrow> finding option" where
  "incumbent le dk k =
     (case row_at (dk_rows dk) k of Some g \<Rightarrow> if CommittableReasons le g = [] then Some (persistedForm g) else None | None \<Rightarrow> None)"

lemma incumbent_portable: "incumbent le dk k = Some g \<Longrightarrow> CommittableReasons le g = []"
  by (auto simp: incumbent_def split: option.splits if_splits)

lemma successor_wire: "successor f g \<Longrightarrow> wire g = wire f \<and> CommittableReasons le g = CommittableReasons le f"
  by (auto simp: successor_def)

lemma update_rest:
  assumes ready: "store_ready env st dk" and run: "Update env update st dk = Inr (st', dk', routing)"
    and load: "loadOverlay (sv_home env) (dk_overlay dk) = Inr (overlay, rd, dir)"
    and next_rows: "update (mergeLayers (dk_rows dk) overlay) = Inr nx" and keys: "distinct (map recordKey nx)"
    and k: "list_all (\<lambda>f. recordKey f = k \<longrightarrow> f_Skipped f \<noteq> []) nx"
  shows "routing k = None \<and>
    (if k \<in> recordKey ` set nx
     then map_option wire (overlay_at env dk' k) = map_option wire (overlay_at env dk k) \<and>
       row_at (dk_rows dk') k = incumbent (in_force env st') dk k
     else overlay_at env dk' k = None \<and> row_at (dk_rows dk') k = None)"
proof -
  let ?st = "refreshExemptions env (dk_exemptions dk) st"
  obtain rt st1 where u: "update_rows env ?st (dk_rows dk) (mergeLayers (dk_rows dk) overlay) nx = Inr (rt, st1, dk_rows dk')"
      "in_force env st' = in_force env ?st" "memo_ok env st'" "routing = rt_routing rt" and
    over: "\<And>k. map_option wire (overlay_at env dk' k) =
      (case find (\<lambda>f. recordKey f = k) (filter (to_install rt (overlay_at env dk)) nx) of
         Some f \<Rightarrow> Some (wire f)
       | None \<Rightarrow>
           if (\<exists>f \<in> set nx. k = recordKey f \<and> f_Skipped f = [] \<and> rt_committable rt k) \<or> k \<notin> recordKey ` set nx then None
           else map_option wire (overlay_at env dk k))"
    using update_overlay [OF ready run load next_rows keys] by blast
  have memo: "memo_ok env ?st" "distinct (map recordKey (dk_rows dk))"
    using ready refresh_memo by (auto simp: store_ready_def)
  note rows = update_rows_ok [OF u(1) memo(2) keys memo(1), folded u(2)]
  have skipped: "\<forall>f \<in> set nx. recordKey f = k \<longrightarrow> f_Skipped f \<noteq> []" using k by (simp add: list_all_iff)
  then have rt: "\<not> rt_committable rt k" "rt_routing rt k = None"
    using rows(1) by (auto simp: routed_ok_def)
  have "find (\<lambda>f. recordKey f = k) (filter (to_install rt (overlay_at env dk)) nx) = None"
    using skipped by (auto simp: find_None_iff to_install_def)
  then have "map_option wire (overlay_at env dk' k) =
      (if k \<in> recordKey ` set nx then map_option wire (overlay_at env dk k) else None)"
    using over [of k] rt(1) by simp
  then show ?thesis
    using rows(6) [OF rt(1)] rt(2) u(4) by (auto simp: incumbent_def)
qed

lemma update_placed:
  assumes ready: "store_ready env st dk" and run: "Update env update st dk = Inr (st', dk', routing)"
    and load: "loadOverlay (sv_home env) (dk_overlay dk) = Inr (overlay, rd, dir)"
    and next_rows: "update (mergeLayers (dk_rows dk) overlay) = Inr nx" and keys: "distinct (map recordKey nx)"
    and f: "f \<in> set nx" "f_Skipped f = []" and reasons_def: "reasons = CommittableReasons (in_force env st') f"
  shows "routing (recordKey f) = Some \<lparr>pl_Layer = (if reasons = [] then LayerRepo else LayerLocal), pl_Reasons = reasons\<rparr> \<and>
    (if reasons = []
     then map_option wire (row_at (dk_rows dk') (recordKey f)) = Some (wire f) \<and> overlay_at env dk' (recordKey f) = None
     else map_option wire (overlay_at env dk' (recordKey f)) = Some (wire f) \<and>
       row_at (dk_rows dk') (recordKey f) = incumbent (in_force env st') dk (recordKey f))"
proof -
  let ?st = "refreshExemptions env (dk_exemptions dk) st" and ?k = "recordKey f"
  obtain rt st1 where u: "update_rows env ?st (dk_rows dk) (mergeLayers (dk_rows dk) overlay) nx = Inr (rt, st1, dk_rows dk')"
      "in_force env st' = in_force env ?st" "memo_ok env st'" "routing = rt_routing rt" and
    over: "\<And>k. map_option wire (overlay_at env dk' k) =
      (case find (\<lambda>f. recordKey f = k) (filter (to_install rt (overlay_at env dk)) nx) of
         Some f \<Rightarrow> Some (wire f)
       | None \<Rightarrow>
           if (\<exists>f \<in> set nx. k = recordKey f \<and> f_Skipped f = [] \<and> rt_committable rt k) \<or> k \<notin> recordKey ` set nx then None
           else map_option wire (overlay_at env dk k))"
    using update_overlay [OF ready run load next_rows keys] by blast
  have memo: "memo_ok env ?st" "distinct (map recordKey (dk_rows dk))"
    using ready refresh_memo by (auto simp: store_ready_def)
  note rows = update_rows_ok [OF u(1) memo(2) keys memo(1), folded u(2)]
  have rt: "rt_committable rt ?k \<longleftrightarrow> reasons = []" "rt_forms rt ?k = Some (persistedForm f)"
    "rt_routing rt ?k = Some \<lparr>pl_Layer = (if reasons = [] then LayerRepo else LayerLocal), pl_Reasons = reasons\<rparr>"
    using rows(1) f by (auto simp: routed_ok_def reasons_def)
  have unique: "f' = f" if "f' \<in> set nx" "recordKey f' = ?k" for f'
    using that f(1) keys by (auto simp: distinct_map inj_on_def)
  show ?thesis
  proof (cases "reasons = []")
    case True
    obtain g where g: "row_at (dk_rows dk') ?k = Some g" "successor f g" using rows(5) [OF f(1)] rt(1) True by blast
    have "find (\<lambda>f. recordKey f = ?k) (filter (to_install rt (overlay_at env dk)) nx) = None"
      using rt(1) True by (auto simp: find_None_iff to_install_def)
    then have "map_option wire (overlay_at env dk' ?k) = None"
      using over [of ?k] rt(1) True f by auto
    then show ?thesis using rt(3) u(4) g successor_wire [OF g(2)] True by simp
  next
    case False
    have row: "row_at (dk_rows dk') ?k = incumbent (in_force env st') dk ?k"
      using rows(6) [of ?k] rt(1) False f(1) by (simp add: incumbent_def)
    have "map_option wire (overlay_at env dk' ?k) = Some (wire f)"
    proof (cases "overlay_at env dk ?k = Some (persistedForm f)")
      case True
      then have "find (\<lambda>f. recordKey f = ?k) (filter (to_install rt (overlay_at env dk)) nx) = None"
        using rt(2) by (auto simp: find_None_iff to_install_def)
      then show ?thesis using over [of ?k] rt(1) False f(1) True by auto
    next
      case moved: False
      have "f \<in> set (filter (to_install rt (overlay_at env dk)) nx)"
        using rt(1,2) False f moved by (auto simp: to_install_def)
      then have "find (\<lambda>f. recordKey f = ?k) (filter (to_install rt (overlay_at env dk)) nx) = Some f"
        using unique row_at_Some [OF distinct_map_filter [OF keys]] by (simp add: row_at_def)
      then show ?thesis using over [of ?k] by simp
    qed
    then show ?thesis using rt(3) u(4) row False by simp
  qed
qed

lemma update_ready:
  assumes ready: "store_ready env st dk" and run: "Update env update st dk = Inr (st', dk', routing)"
    and load: "loadOverlay (sv_home env) (dk_overlay dk) = Inr (overlay, rd, dir)"
    and next_rows: "update (mergeLayers (dk_rows dk) overlay) = Inr nx" and keys: "distinct (map recordKey nx)"
  shows "list_all (\<lambda>g. CommittableReasons (in_force env st') g = []) (dk_rows dk') \<and>
    recordKey ` set (dk_rows dk') \<subseteq> recordKey ` set nx \<and> sorted (map record_order (dk_rows dk')) \<and> store_ready env st' dk'"
proof -
  let ?st = "refreshExemptions env (dk_exemptions dk) st"
  obtain rt st1 where u: "update_rows env ?st (dk_rows dk) (mergeLayers (dk_rows dk) overlay) nx = Inr (rt, st1, dk_rows dk')"
      "in_force env st' = in_force env ?st" "memo_ok env st'" "distinct (map fst (dk_overlay dk'))"
    using update_overlay [OF ready run load next_rows keys] by blast
  have memo: "memo_ok env ?st" "distinct (map recordKey (dk_rows dk))"
    using ready refresh_memo by (auto simp: store_ready_def)
  note rows = update_rows_ok [OF u(1) memo(2) keys memo(1), folded u(2)]
  have each: "CommittableReasons (in_force env st') g = [] \<and> recordKey g \<in> recordKey ` set nx" if g: "g \<in> set (dk_rows dk')" for g
  proof -
    have at: "row_at (dk_rows dk') (recordKey g) = Some g" using row_at_Some [OF rows(4)] g by blast
    show ?thesis
    proof (cases "rt_committable rt (recordKey g)")
      case True
      then obtain f where f: "f \<in> set nx" "recordKey f = recordKey g"
        using rows(1) by (auto simp: routed_ok_def)
      then obtain g' where "row_at (dk_rows dk') (recordKey f) = Some g'" "successor f g'" using rows(5) [of f] True by auto
      then have "successor f g" using at f(2) by simp
      moreover have "CommittableReasons (in_force env st') f = []"
        using routed_committable(2) [OF rows(1) keys f(1)] True f(2) by simp
      ultimately have "CommittableReasons (in_force env st') g = []" using successor_wire by simp
      then show ?thesis using f by (metis image_eqI)
    next
      case False
      then show ?thesis using rows(6) [OF False] at by (auto split: if_splits option.splits)
    qed
  qed
  have "store_ready env st' dk'" using ready u(3,4) rows(4) by (simp add: store_ready_def)
  then show ?thesis using each rows(7) by (auto simp: list_all_iff)
qed

subsection \<open>The document a reader sees\<close>

text \<open>The record a read serves for a key: the overlay's over the committed document's.\<close>

definition document :: "store_env \<Rightarrow> disk \<Rightarrow> string \<Rightarrow> finding option" where
  "document env dk k = (case overlay_at env dk k of Some f \<Rightarrow> Some f | None \<Rightarrow> row_at (dk_rows dk) k)"

text \<open>Records as a parse yields them: none is skipped.\<close>

definition parsed_disk :: "disk \<Rightarrow> bool" where
  "parsed_disk dk \<longleftrightarrow> (\<forall>f \<in> set (dk_rows dk). f_Skipped f = []) \<and> (\<forall>n f. rec_at (dk_overlay dk) n = Some f \<longrightarrow> f_Skipped f = [])"

lemma map_last_append: "map_last (a @ b) k = (case map_last b k of Some v \<Rightarrow> Some v | None \<Rightarrow> map_last a k)"
  by (simp add: map_last_def map_add_def cong: option.case_cong)

lemma map_last_rows: "distinct (map recordKey rows) \<Longrightarrow> map_last (map (\<lambda>f. (recordKey f, f)) rows) k = row_at rows k"
proof (cases "row_at rows k")
  case None
  then have "map_last (map (\<lambda>f. (recordKey f, f)) rows) k = None"
    using row_at_None [of rows k] by (simp add: map_last_None image_image)
  then show ?thesis using None by simp
next
  case (Some f)
  assume d: "distinct (map recordKey rows)"
  then have "(k, f) \<in> set (map (\<lambda>f. (recordKey f, f)) rows)" using Some row_at_Some [OF d, of k f] by auto
  then show ?thesis using d Some by (simp add: map_last_distinct comp_def)
qed

lemma merged_view:
  assumes "store_ready env st dk" "loadOverlay (sv_home env) (dk_overlay dk) = Inr (overlay, rd, dir)"
  shows "distinct (map recordKey (mergeLayers (dk_rows dk) overlay))"
    "row_at (mergeLayers (dk_rows dk) overlay) k = document env dk k"
proof -
  let ?m = "map_keyed recordKey (dk_rows dk @ overlay)"
  have ok: "rows_ok ?m" using map_keyed_consistent by (fastforce simp: rows_ok_def)
  have eq: "mergeLayers (dk_rows dk) overlay = sort_key record_order (map snd (filter (\<lambda>p. fst p \<in> UNIV) ?m))"
    by (simp add: mergeLayers_def)
  show "distinct (map recordKey (mergeLayers (dk_rows dk) overlay))" unfolding eq by (rule sorted_rows(1) [OF ok])
  have held: "map_last (map (\<lambda>f. (recordKey f, f)) overlay) k = overlay_at env dk k"
    using loaded_at [OF assms(2)] assms(1) by (auto simp: store_ready_def overlay_at_def)
  have rows: "distinct (map recordKey (dk_rows dk))" using assms(1) by (simp add: store_ready_def)
  have "row_at (mergeLayers (dk_rows dk) overlay) k = map_of ?m k"
    unfolding eq by (simp only: sorted_rows(2) [OF ok]) simp
  then show "row_at (mergeLayers (dk_rows dk) overlay) k = document env dk k"
    by (simp add: map_of_map_keyed map_last_append held map_last_rows [OF rows] document_def cong: option.case_cong)
qed

lemma overlay_unskipped: "parsed_disk dk \<Longrightarrow> overlay_at env dk k = Some f \<Longrightarrow> distinct (map fst (dk_overlay dk)) \<Longrightarrow> f_Skipped f = []"
proof -
  assume p: "parsed_disk dk" and o: "overlay_at env dk k = Some f" and d: "distinct (map fst (dk_overlay dk))"
  obtain n where "(n, f) \<in> set (holders (sort_key fst (dk_overlay dk)) k)"
    using o pick_in by (metis overlay_at_def view_def)
  then have "(n, Record f) \<in> set (dk_overlay dk)" using holders_key by fastforce
  then have "rec_at (dk_overlay dk) n = Some f" using d by (simp add: rec_at_def)
  then show ?thesis using p by (auto simp: parsed_disk_def)
qed

lemma merged_unskipped:
  assumes "store_ready env st dk" "loadOverlay (sv_home env) (dk_overlay dk) = Inr (overlay, rd, dir)" "parsed_disk dk"
    "f \<in> set (mergeLayers (dk_rows dk) overlay)"
  shows "f_Skipped f = []"
proof -
  have "row_at (mergeLayers (dk_rows dk) overlay) (recordKey f) = Some f"
    using row_at_Some [OF merged_view(1) [OF assms(1,2)], of "recordKey f" f] assms(4) by simp
  then have "document env dk (recordKey f) = Some f" using merged_view(2) [OF assms(1,2), of "recordKey f"] by simp
  moreover have "g \<in> set (dk_rows dk)" if "row_at (dk_rows dk) k = Some g" for g k
    using that row_at_Some assms(1) by (auto simp: store_ready_def)
  ultimately show ?thesis
    using overlay_unskipped [OF assms(3)] assms(1,3)
    by (auto simp: document_def parsed_disk_def store_ready_def split: option.splits)
qed

lemma update_document:
  assumes ready: "store_ready env st dk" and run: "Update env update st dk = Inr (st', dk', routing)"
    and load: "loadOverlay (sv_home env) (dk_overlay dk) = Inr (overlay, rd, dir)"
    and next_rows: "update (mergeLayers (dk_rows dk) overlay) = Inr nx" and keys: "distinct (map recordKey nx)"
    and measured: "\<And>f. f \<in> set nx \<Longrightarrow> f_Skipped f = []"
  shows "map_option wire (document env dk' k) = map_option wire (row_at nx k)"
proof (cases "row_at nx k")
  case None
  then have k: "k \<notin> recordKey ` set nx" by (simp add: row_at_None)
  then have "list_all (\<lambda>f. recordKey f = k \<longrightarrow> f_Skipped f \<noteq> []) nx" by (auto simp: list_all_iff)
  then show ?thesis using update_rest [OF ready run load next_rows keys] k None by (simp add: document_def)
next
  case (Some f)
  then have f: "f \<in> set nx" "recordKey f = k" using row_at_Some [OF keys] by simp_all
  show ?thesis
    using update_placed [OF ready run load next_rows keys f(1) measured [OF f(1)] refl] Some f(2)
    by (cases "overlay_at env dk' k") (auto simp: document_def split: if_splits)
qed

lemma written_parsed:
  assumes w: "written home dir st ks fs rehomed out" and dir: "\<And>n f. rec_at dir n = Some f \<Longrightarrow> f_Skipped f = []"
    and f: "rec_at out n = Some f"
  shows "f_Skipped f = []"
proof -
  consider g where "g \<in> set fs" "n = home (recordKey g)" | "n \<in> set rehomed" "n \<notin> home ` recordKey ` set fs"
    | "n \<notin> home ` recordKey ` set fs \<union> set rehomed" by blast
  then show ?thesis
  proof cases
    case 1
    then show ?thesis using writtenD(2) [OF w, of g] f by auto
  next
    case 2
    then show ?thesis using writtenD(3) [OF w] f by fastforce
  next
    case 3
    then show ?thesis using writtenD(4) [OF w] f dir by (auto split: if_splits)
  qed
qed

lemma update_parsed:
  assumes ready: "store_ready env st dk" and run: "Update env update st dk = Inr (st', dk', routing)"
    and load: "loadOverlay (sv_home env) (dk_overlay dk) = Inr (overlay, rd, dir)"
    and next_rows: "update (mergeLayers (dk_rows dk) overlay) = Inr nx" and keys: "distinct (map recordKey nx)"
    and parsed: "parsed_disk dk"
  shows "parsed_disk dk'"
proof -
  let ?st = "refreshExemptions env (dk_exemptions dk) st"
  have hash: "inj (sv_home env)" "\<And>k. plain (sv_home env k)" and names: "distinct (map fst (dk_overlay dk))"
    and memo: "memo_ok env ?st" and rows: "distinct (map recordKey (dk_rows dk))"
    using ready refresh_memo by (auto simp: store_ready_def)
  obtain rt st1 edits where u: "update_rows env ?st (dk_rows dk) (mergeLayers (dk_rows dk) overlay) nx = Inr (rt, st1, dk_rows dk')"
      "dk_overlay dk' = applyOverlayEdits (sv_home env) rd edits dir"
      "edits = concat (map (update_edit rt (map_last (map (\<lambda>f. (recordKey f, f)) overlay))) nx) @
         map Removal (pruned_keys nx (dk_rows dk @ overlay))"
    using run load next_rows unfolding Update_def Let_def write_overlay_def
    by (auto split: sum.splits prod.splits if_splits)
  note rows_ok = update_rows_ok [OF u(1) rows keys memo]
  have "f_Skipped g = []" if g: "g \<in> set (dk_rows dk')" for g
  proof -
    have at: "row_at (dk_rows dk') (recordKey g) = Some g" using row_at_Some [OF rows_ok(4)] g by blast
    show ?thesis
    proof (cases "rt_committable rt (recordKey g)")
      case True
      then obtain f where "f \<in> set nx" "recordKey f = recordKey g" using rows_ok(1) by (auto simp: routed_ok_def)
      then have "successor f g" using rows_ok(5) [of f] True at by auto
      then show ?thesis by (auto simp: successor_def persistedForm_def wire_def)
    next
      case False
      then show ?thesis using rows_ok(6) [OF False] at by (auto simp: persistedForm_def split: if_splits option.splits)
    qed
  qed
  moreover have "f_Skipped f = []" if f: "rec_at (dk_overlay dk') n = Some f" for n f
  proof -
    have "installs edits = filter (to_install rt (map_last (map (\<lambda>f. (recordKey f, f)) overlay))) nx"
      unfolding u(3) by (rule update_installs)
    then have "distinct (map recordKey (installs edits))" using distinct_map_filter [OF keys] by simp
    then obtain rehomed where w: "written (sv_home env) dir rd (removals edits) (installs edits) rehomed (dk_overlay dk')"
      using applyOverlayEdits_written [OF load_session(1) [OF load names hash]] u(2) by metis
    have dir: "dir = filter (\<lambda>e. fst e \<notin> set (ov_removed rd)) (dk_overlay dk)"
      using load by (auto simp: loadOverlay_def split: sum.splits)
    have "f_Skipped g = []" if "rec_at dir m = Some g" for m g
    proof -
      have "map_of dir m = Some (Record g)" using that by (auto simp: rec_at_def split: option.splits entry.splits)
      then have "(m, Record g) \<in> set (dk_overlay dk)" unfolding dir by (auto dest: map_of_SomeD)
      then have "rec_at (dk_overlay dk) m = Some g" using names by (simp add: rec_at_def)
      then show ?thesis using parsed by (auto simp: parsed_disk_def)
    qed
    then show ?thesis by (rule written_parsed [OF w _ f])
  qed
  ultimately show ?thesis by (auto simp: parsed_disk_def)
qed

text \<open>the committability memo is transparent: a judgment through it is the judgment of the portable line
  under the exemptions in force, and the memo stays truthful.\<close>

theorem route_memo_transparent:
  assumes "memo_ok env st"
  shows "fst (route env f (persistedForm f) st) =
      (CommittableReasons (in_force env st) f = [], CommittableReasons (in_force env st) f) \<and>
    memo_ok env (snd (route env f (persistedForm f) st))"
  using route_ok [OF assms, of f] by fastforce

text \<open>C13: an update routes every measured record it returns by the portable line under the exemptions in force, and
  the record then sits in that layer: a portable record is the document's row and has no overlay entry; a
  local record is the overlay's entry, and the document keeps the portable row it already had.\<close>

theorem update_places_records:
  assumes ready: "store_ready env st dk" and run: "Update env update st dk = Inr (st', dk', routing)"
    and load: "loadOverlay (sv_home env) (dk_overlay dk) = Inr (overlay, rd, dir)"
    and next_rows: "update (mergeLayers (dk_rows dk) overlay) = Inr nx" and keys: "distinct (map recordKey nx)"
    and f: "f \<in> set nx" "f_Skipped f = []"
  defines "reasons \<equiv> CommittableReasons (in_force env st') f"
  shows "routing (recordKey f) = Some \<lparr>pl_Layer = (if reasons = [] then LayerRepo else LayerLocal), pl_Reasons = reasons\<rparr> \<and>
    (if reasons = []
     then map_option wire (row_at (dk_rows dk') (recordKey f)) = Some (wire f) \<and> overlay_at env dk' (recordKey f) = None
     else map_option wire (overlay_at env dk' (recordKey f)) = Some (wire f) \<and>
       row_at (dk_rows dk') (recordKey f) = incumbent (in_force env st') dk (recordKey f))"
  by (rule update_placed [OF ready run load next_rows keys f reasons_def [THEN meta_eq_to_obj_eq]])

text \<open>an update prunes what the callback left out and persists nothing for a skipped record: a key the callback
  does not return leaves both layers; a key it returns skipped is routed nowhere, keeps its overlay entry, and
  keeps its document row when that row is portable.\<close>

theorem update_leaves_the_rest:
  assumes ready: "store_ready env st dk" and run: "Update env update st dk = Inr (st', dk', routing)"
    and load: "loadOverlay (sv_home env) (dk_overlay dk) = Inr (overlay, rd, dir)"
    and next_rows: "update (mergeLayers (dk_rows dk) overlay) = Inr nx" and keys: "distinct (map recordKey nx)"
    and k: "list_all (\<lambda>f. recordKey f = k \<longrightarrow> f_Skipped f \<noteq> []) nx"
  shows "routing k = None \<and>
    (if k \<in> recordKey ` set nx
     then map_option wire (overlay_at env dk' k) = map_option wire (overlay_at env dk k) \<and>
       row_at (dk_rows dk') k = incumbent (in_force env st') dk k
     else overlay_at env dk' k = None \<and> row_at (dk_rows dk') k = None)"
  by (rule update_rest [OF assms])

text \<open>C14: after an update every row of the document is portable under the exemptions in force, the rows are in order
  with one row for each key, all of them returned by the callback, and the store is ready for the next write.\<close>

theorem update_keeps_document_portable:
  assumes ready: "store_ready env st dk" and run: "Update env update st dk = Inr (st', dk', routing)"
    and load: "loadOverlay (sv_home env) (dk_overlay dk) = Inr (overlay, rd, dir)"
    and next_rows: "update (mergeLayers (dk_rows dk) overlay) = Inr nx" and keys: "distinct (map recordKey nx)"
  shows "list_all (\<lambda>g. CommittableReasons (in_force env st') g = []) (dk_rows dk') \<and>
    recordKey ` set (dk_rows dk') \<subseteq> recordKey ` set nx \<and> sorted (map record_order (dk_rows dk')) \<and> store_ready env st' dk'"
  by (rule update_ready [OF assms])

text \<open>C36: a skipped record is said to evict nothing, yet an update drops the document row of its key when that row no
  longer passes the portable line and the overlay holds no record for it: the row leaves the document and
  lands in no layer.\<close>

theorem skipped_evicts_unportable:
  assumes ready: "store_ready env st dk" and run: "Update env update st dk = Inr (st', dk', routing)"
    and load: "loadOverlay (sv_home env) (dk_overlay dk) = Inr (overlay, rd, dir)"
    and next_rows: "update (mergeLayers (dk_rows dk) overlay) = Inr nx" and keys: "distinct (map recordKey nx)"
    and f: "f \<in> set nx" "f_Skipped f \<noteq> []"
    and row: "row_at (dk_rows dk) (recordKey f) = Some g" "CommittableReasons (in_force env st') g \<noteq> []"
    and none: "overlay_at env dk (recordKey f) = None"
  shows "row_at (dk_rows dk') (recordKey f) = None \<and> overlay_at env dk' (recordKey f) = None"
proof -
  have "list_all (\<lambda>f'. recordKey f' = recordKey f \<longrightarrow> f_Skipped f' \<noteq> []) nx"
    using keys f by (auto simp: list_all_iff distinct_map inj_on_def)
  then show ?thesis
    using update_rest [OF ready run load next_rows keys, of "recordKey f"] row none f(1) by (simp add: incumbent_def)
qed

subsection \<open>An update\<close>

definition example_env :: store_env where
  "example_env = \<lparr>sv_line = \<lparr>le_ops = plain_ops, le_refusal = (\<lambda>_. []), le_manifest = (\<lambda>_ _. Some []), le_moduleDir = ''/w'',
     le_exemptions = []\<rparr>, sv_roots = [''/w''], sv_decode = (\<lambda>_. None), sv_encode = (\<lambda>_. []), sv_accepts = (\<lambda>_. True),
     sv_home = example_home\<rparr>"

definition example_store :: store where
  "example_store = \<lparr>sr_exemptions = [], sr_rekeyed = [], sr_rekeyPersisted = True, sr_exemptionsRaw = [], sr_rekeyReported = [],
     sr_exemptionsTorn = False, sr_pendingBounds = [], sr_judged = Map.empty, sr_overlaid = {}\<rparr>"

definition stale_row :: finding where
  "stale_row = zero_finding\<lparr>f_Symbol := ''p.C'', f_Dirty := True, f_Commit := ''c''\<rparr>"

definition example_disk :: disk where
  "example_disk = \<lparr>dk_rows = [stale_row], dk_bounds = [], dk_exemptions = None, dk_overlay = example_dir\<rparr>"

definition example_next :: "finding list" where
  "example_next = [fresh_row\<lparr>f_Commit := ''c''\<rparr>, parked_row, stale_row\<lparr>f_Skipped := ''no oracle''\<rparr>]"

definition example_update :: "store_error + (store \<times> disk \<times> routing)" where
  "example_update = Update example_env (\<lambda>_. Inr example_next) example_store example_disk"

lemma example_updates: "\<not> isl example_update"
  by code_simp

definition example_st :: store where "example_st = fst (projr example_update)"
definition example_dk :: disk where "example_dk = fst (snd (projr example_update))"
definition example_routing :: routing where "example_routing = snd (snd (projr example_update))"

lemma example_run: "Update example_env (\<lambda>_. Inr example_next) example_store example_disk = Inr (example_st, example_dk, example_routing)"
proof -
  have "Inr (projr example_update) = example_update" by (rule sum.collapse(2) [OF example_updates])
  then have "example_update = Inr (example_st, example_dk, example_routing)"
    unfolding example_st_def example_dk_def example_routing_def prod.collapse by (rule HOL.sym)
  then show ?thesis unfolding example_update_def .
qed

lemma example_ready: "store_ready example_env example_store example_disk"
  using example_distinct(1) example_home_inj example_home_plain
  by (simp add: store_ready_def memo_ok_def example_store_def example_disk_def example_env_def)

lemma example_disk_loads: "loadOverlay (sv_home example_env) (dk_overlay example_disk) =
    Inr (fst example_load, fst (snd example_load), snd (snd example_load))"
  using example_loaded by (simp add: example_env_def example_disk_def)

lemma example_next_keys: "map recordKey example_next = [''p.B'', ''p.A'', ''p.C'']"
  "list_all (\<lambda>f. recordKey f = ''p.Z'' \<longrightarrow> f_Skipped f \<noteq> []) example_next"
  "row_at (dk_rows example_disk) ''p.C'' = Some stale_row" "overlay_at example_env example_disk ''p.C'' = None"
  by code_simp+

lemma example_next_set: "recordKey ` set example_next = {''p.B'', ''p.A'', ''p.C''}"
  using arg_cong [OF example_next_keys(1), of set] by simp

lemma example_local: "CommittableReasons le parked_row \<noteq> []" "CommittableReasons le stale_row \<noteq> []"
proof -
  have "set (CommittableReasons le f) = set (line_clauses le f)" for f
    using committable_reasons_set .
  then have "CommittableReasons le f = [] \<longleftrightarrow> line_clauses le f = []" for f by (metis set_empty)
  then show "CommittableReasons le parked_row \<noteq> []" "CommittableReasons le stale_row \<noteq> []"
    by (simp_all add: line_clauses_def parked_row_def stale_row_def zero_finding_def Let_def)
qed

lemma stale_key [simp]: "recordKey stale_row = ''p.C''" "recordKey (stale_row\<lparr>f_Skipped := s\<rparr>) = ''p.C''"
  by (simp_all add: stale_row_def recordKey_def recordKeyOf_def zero_finding_def)

theorem route_memo_transparent_witness:
  "fst (route example_env parked_row (persistedForm parked_row) example_store) =
     (False, CommittableReasons (in_force example_env example_store) parked_row)"
  using route_memo_transparent [of example_env example_store parked_row] example_local
  by (simp add: memo_ok_def example_store_def)

theorem update_places_records_witness:
  "map_option wire (overlay_at example_env example_dk ''p.A'') = Some parked_row"
  using update_places_records [OF example_ready example_run example_disk_loads, of example_next parked_row] example_local
  by (simp add: example_next_keys) (simp add: example_next_def parked_row_def zero_finding_def)

theorem update_leaves_the_rest_witness:
  "overlay_at example_env example_dk ''p.Z'' = None \<and> row_at (dk_rows example_dk) ''p.Z'' = None"
  using update_leaves_the_rest [OF example_ready example_run example_disk_loads, of example_next "''p.Z''"]
  by (simp add: example_next_keys example_next_set)

theorem update_keeps_document_portable_witness: "store_ready example_env example_st example_dk"
  using update_keeps_document_portable [OF example_ready example_run example_disk_loads, of example_next]
  by (simp add: example_next_keys)

theorem skipped_evicts_unportable_witness:
  "row_at (dk_rows example_disk) ''p.C'' = Some stale_row \<and> row_at (dk_rows example_dk) ''p.C'' = None
   \<and> overlay_at example_env example_dk ''p.C'' = None"
  using skipped_evicts_unportable [OF example_ready example_run example_disk_loads, of example_next "stale_row\<lparr>f_Skipped := ''no oracle''\<rparr>" stale_row]
    example_local example_next_keys
  by (simp add: example_next_def stale_key)

end
