(* ===== verification/Revise.thy ===== *)
theory Revise
  imports Store
begin

text \<open>
  The record verbs' write (\<open>revise.go\<close>): every stored record edited in its own layer, the change decided
  before anything is written, and the same decision under \<open>check\<close> with nothing written.
\<close>

subsection \<open>The plan\<close>

text \<open>\<open>RecordKey.String\<close>, the spelling a collision names.\<close>

definition record_name :: "finding \<Rightarrow> string" where
  "record_name f = (if f_Selection f = [] then f_Symbol f else f_Symbol f @ '' ['' @ f_Selection f @ '']'')"

text \<open>An edit gives the record as it should persist and whether it persists.\<close>

type_synonym record_edit = "layer \<Rightarrow> finding \<Rightarrow> string + (finding \<times> bool)"

record repo_plan =
  rp_next :: "finding list"
  rp_seen :: "string set"
  rp_changed :: bool

definition plan_repo_row :: "store_env \<Rightarrow> record_edit \<Rightarrow> finding \<Rightarrow> repo_plan \<Rightarrow> store_error + repo_plan" where
  "plan_repo_row env edit f p =
     (case edit LayerRepo f of
        Inl err \<Rightarrow> Inl (CallbackFailed err)
      | Inr (n, keep) \<Rightarrow>
          if \<not> keep then Inr (p\<lparr>rp_changed := True\<rparr>)
          else if recordKey n \<in> rp_seen p then Inl (RecordCollision (record_name n) LayerRepo)
          else (let p = p\<lparr>rp_seen := insert (recordKey n) (rp_seen p)\<rparr> in
            if recordKey n = recordKey f \<and> persistedForm n = persistedForm f
            then Inr (p\<lparr>rp_next := rp_next p @ [f]\<rparr>)
            else (case parsedForm env n of
                Inl err \<Rightarrow> Inl err
              | Inr row \<Rightarrow> Inr (p\<lparr>rp_next := rp_next p @ [row], rp_changed := True\<rparr>))))"

fun plan_repo :: "store_env \<Rightarrow> record_edit \<Rightarrow> finding list \<Rightarrow> repo_plan \<Rightarrow> store_error + repo_plan" where
  "plan_repo env edit [] p = Inr p"
| "plan_repo env edit (f # fs) p = (case plan_repo_row env edit f p of Inl err \<Rightarrow> Inl err | Inr p \<Rightarrow> plan_repo env edit fs p)"

record local_plan =
  lp_edits :: "overlay_edit list"
  lp_overlay :: "string set"

definition plan_local_row :: "record_edit \<Rightarrow> finding \<Rightarrow> local_plan \<Rightarrow> store_error + local_plan" where
  "plan_local_row edit f p =
     (case edit LayerLocal f of
        Inl err \<Rightarrow> Inl (CallbackFailed err)
      | Inr (n, keep) \<Rightarrow>
          if \<not> keep then Inr (p\<lparr>lp_edits := lp_edits p @ [Removal (recordKey f)]\<rparr>)
          else if recordKey n \<in> lp_overlay p then Inl (RecordCollision (record_name n) LayerLocal)
          else (let p = p\<lparr>lp_overlay := insert (recordKey n) (lp_overlay p)\<rparr> in
            if recordKey n = recordKey f \<and> persistedForm n = persistedForm f then Inr p
            else Inr (p\<lparr>lp_edits := lp_edits p @ (if recordKey n \<noteq> recordKey f then [Removal (recordKey f)] else []) @ [Install n]\<rparr>)))"

fun plan_local :: "record_edit \<Rightarrow> finding list \<Rightarrow> local_plan \<Rightarrow> store_error + local_plan" where
  "plan_local edit [] p = Inr p"
| "plan_local edit (f # fs) p = (case plan_local_row edit f p of Inl err \<Rightarrow> Inl err | Inr p \<Rightarrow> plan_local edit fs p)"

text \<open>The document rows, whether they changed, the overlay edits, and the symbols the overlay will hold.\<close>

definition revise_plan :: "store_env \<Rightarrow> record_edit \<Rightarrow> finding list \<Rightarrow> finding list \<Rightarrow>
    store_error + (finding list \<times> bool \<times> overlay_edit list \<times> string set)" where
  "revise_plan env edit repoPrior overlay =
     (case plan_repo env edit repoPrior \<lparr>rp_next = [], rp_seen = {}, rp_changed = False\<rparr> of
        Inl err \<Rightarrow> Inl err
      | Inr rp \<Rightarrow>
          (case plan_local edit overlay \<lparr>lp_edits = [], lp_overlay = {}\<rparr> of
             Inl err \<Rightarrow> Inl err
           | Inr lp \<Rightarrow> Inr (sort_key record_order (rp_next rp), rp_changed rp, lp_edits lp, lp_overlay lp)))"

subsection \<open>The write\<close>

record revision =
  rv_Overlay :: "string set"
  rv_Exemptions :: "rewritten_exemption list"

definition revise_check :: "store_env \<Rightarrow> record_edit \<Rightarrow> store \<Rightarrow> disk \<Rightarrow> store_error + (store \<times> disk \<times> revision)" where
  "revise_check env edit st dk =
     (case loadOverlay (sv_home env) (dk_overlay dk) of
        Inl name \<Rightarrow> Inl (OverlayAhead name)
      | Inr (overlay, rd, dir) \<Rightarrow>
          (case revise_plan env edit (dk_rows dk) overlay of
             Inl err \<Rightarrow> Inl err
           | Inr (rows, changed, edits, holding) \<Rightarrow>
               Inr (noteOverlaid overlay st, dk\<lparr>dk_overlay := dir\<rparr>, \<lparr>rv_Overlay = holding, rv_Exemptions = []\<rparr>)))"

definition revise_write :: "store_env \<Rightarrow> record_edit \<Rightarrow> exemption_rewrite option \<Rightarrow> store \<Rightarrow> disk \<Rightarrow>
    store_error + (store \<times> disk \<times> revision)" where
  "revise_write env edit rewrite st dk =
     (let st = refreshExemptions env (dk_exemptions dk) st in
      case loadOverlay (sv_home env) (dk_overlay dk) of
        Inl name \<Rightarrow> Inl (OverlayAhead name)
      | Inr (overlay, rd, dir) \<Rightarrow>
          (case revise_plan env edit (dk_rows dk) overlay of
             Inl err \<Rightarrow> Inl err
           | Inr (rows, changed, edits, holding) \<Rightarrow>
               (let bounds = mergedBounds st (dk_bounds dk) in
                case prepareExemptions env rewrite st (dk_exemptions dk) of
                  Inl err \<Rightarrow> Inl err
                | Inr (w, st, file) \<Rightarrow>
                    (case write_overlay env rd edits dir of
                       Inl err \<Rightarrow> Inl err
                     | Inr dir \<Rightarrow>
                         Inr (if changed then st\<lparr>sr_pendingBounds := []\<rparr> else st,
                           \<lparr>dk_rows = (if changed then rows else dk_rows dk), dk_bounds = (if changed then bounds else dk_bounds dk),
                             dk_exemptions = file, dk_overlay = dir\<rparr>,
                           \<lparr>rv_Overlay = holding, rv_Exemptions = ew_Listed w\<rparr>)))))"

definition ReviseExemptions :: "store_env \<Rightarrow> bool \<Rightarrow> record_edit \<Rightarrow> exemption_rewrite option \<Rightarrow> store \<Rightarrow> disk \<Rightarrow>
    store_error + (store \<times> disk \<times> revision)" where
  "ReviseExemptions env check edit rewrite st dk =
     (if check then revise_check env edit st dk else revise_write env edit rewrite st dk)"

definition Revise :: "store_env \<Rightarrow> bool \<Rightarrow> record_edit \<Rightarrow> store \<Rightarrow> disk \<Rightarrow> store_error + (store \<times> disk \<times> revision)" where
  "Revise env check edit st dk = ReviseExemptions env check edit None st dk"

subsection \<open>What a plan decides\<close>

text \<open>The overlay after the edits, for each edited record.\<close>

definition edited :: "record_edit \<Rightarrow> layer \<Rightarrow> finding list \<Rightarrow> finding list" where
  "edited edit l fs = concat (map (\<lambda>f. case edit l f of Inr (n, True) \<Rightarrow> [n] | _ \<Rightarrow> []) fs)"

definition moved_rows :: "record_edit \<Rightarrow> finding list \<Rightarrow> finding list" where
  "moved_rows edit fs = concat (map (\<lambda>f. case edit LayerLocal f of
     Inr (n, True) \<Rightarrow> if recordKey n = recordKey f \<and> persistedForm n = persistedForm f then [] else [n] | _ \<Rightarrow> []) fs)"

definition leaves_key :: "record_edit \<Rightarrow> finding \<Rightarrow> bool" where
  "leaves_key edit f \<longleftrightarrow> (case edit LayerLocal f of Inr (n, True) \<Rightarrow> recordKey n \<noteq> recordKey f | _ \<Rightarrow> True)"

definition gone_keys :: "record_edit \<Rightarrow> finding list \<Rightarrow> string set" where
  "gone_keys edit fs = recordKey ` set (filter (leaves_key edit) fs)"

lemma installs_append [simp]: "installs (a @ b) = installs a @ installs b" "installs [Install f] = [f]" "installs [Removal k] = []"
    "installs [] = []"
  by (simp_all add: installs_def)

lemma removals_append [simp]: "removals (a @ b) = removals a @ removals b" "removals [Install f] = []" "removals [Removal k] = [k]"
    "removals [] = []"
  by (simp_all add: removals_def)

definition local_planned :: "record_edit \<Rightarrow> finding list \<Rightarrow> finding list \<Rightarrow> local_plan \<Rightarrow> local_plan \<Rightarrow> bool" where
  "local_planned edit ns fs p p' \<longleftrightarrow>
     installs (lp_edits p') = installs (lp_edits p) @ moved_rows edit fs \<and>
     set (removals (lp_edits p')) = set (removals (lp_edits p)) \<union> gone_keys edit fs \<and>
     lp_overlay p' = recordKey ` set (ns @ edited edit LayerLocal fs) \<and>
     distinct (map recordKey (ns @ edited edit LayerLocal fs))"

lemma plan_local_row_step:
  assumes "plan_local_row edit f p = Inr p'"
  obtains (dropped) n where "edit LayerLocal f = Inr (n, False)" "p' = p\<lparr>lp_edits := lp_edits p @ [Removal (recordKey f)]\<rparr>"
  | (kept) n where "edit LayerLocal f = Inr (n, True)" "recordKey n \<notin> lp_overlay p" "recordKey n = recordKey f"
      "persistedForm n = persistedForm f" "p' = p\<lparr>lp_overlay := insert (recordKey n) (lp_overlay p)\<rparr>"
  | (moved) n where "edit LayerLocal f = Inr (n, True)" "recordKey n \<notin> lp_overlay p"
      "\<not> (recordKey n = recordKey f \<and> persistedForm n = persistedForm f)"
      "p' = p\<lparr>lp_overlay := insert (recordKey n) (lp_overlay p),
        lp_edits := lp_edits p @ (if recordKey n \<noteq> recordKey f then [Removal (recordKey f)] else []) @ [Install n]\<rparr>"
proof (cases "edit LayerLocal f")
  case (Inl err)
  then show thesis using assms by (simp add: plan_local_row_def)
next
  case (Inr r)
  obtain n keep where r: "r = (n, keep)" by (cases r)
  show thesis
  proof (cases keep)
    case False
    then show thesis using assms Inr r dropped by (simp add: plan_local_row_def)
  next
    case True
    then have new: "recordKey n \<notin> lp_overlay p" using assms Inr r by (auto simp: plan_local_row_def)
    show thesis
    proof (cases "recordKey n = recordKey f \<and> persistedForm n = persistedForm f")
      case True
      then show thesis using assms Inr r \<open>keep\<close> new kept by (simp add: plan_local_row_def Let_def)
    next
      case False
      have e: "edit LayerLocal f = Inr (n, True)" using Inr r \<open>keep\<close> by simp
      have "p' = p\<lparr>lp_overlay := insert (recordKey n) (lp_overlay p),
        lp_edits := lp_edits p @ (if recordKey n \<noteq> recordKey f then [Removal (recordKey f)] else []) @ [Install n]\<rparr>"
        using assms e new False by (cases "recordKey n = recordKey f") (simp_all add: plan_local_row_def Let_def)
      then show thesis by (rule moved [OF e new False])
    qed
  qed
qed

lemma plan_local_spec:
  assumes "plan_local edit fs p = Inr p'" "distinct (map recordKey ns)" "lp_overlay p = recordKey ` set ns"
  shows "local_planned edit ns fs p p'"
  using assms
proof (induction fs arbitrary: p ns)
  case Nil
  then show ?case by (simp add: local_planned_def moved_rows_def gone_keys_def edited_def)
next
  case (Cons f fs)
  obtain p1 where p1: "plan_local_row edit f p = Inr p1" "plan_local edit fs p1 = Inr p'"
    using Cons.prems(1) by (auto split: sum.splits)
  show ?case
    using p1(1)
  proof (cases rule: plan_local_row_step)
    case (dropped n)
    have "local_planned edit ns fs p1 p'"
      by (rule Cons.IH [OF p1(2) Cons.prems(2)]) (use Cons.prems(3) dropped in simp)
    then show ?thesis
      using dropped by (simp add: local_planned_def moved_rows_def gone_keys_def leaves_key_def edited_def)
  next
    case (kept n)
    have "local_planned edit (ns @ [n]) fs p1 p'"
      by (rule Cons.IH [OF p1(2)]) (use Cons.prems(2,3) kept in auto)
    then show ?thesis
      using kept by (simp add: local_planned_def moved_rows_def gone_keys_def leaves_key_def edited_def)
  next
    case (moved n)
    have "local_planned edit (ns @ [n]) fs p1 p'"
      by (rule Cons.IH [OF p1(2)]) (use Cons.prems(2,3) moved in auto)
    then show ?thesis
      using moved by (auto simp: local_planned_def moved_rows_def gone_keys_def leaves_key_def edited_def)
  qed
qed

definition repo_planned :: "record_edit \<Rightarrow> finding list \<Rightarrow> finding list \<Rightarrow> repo_plan \<Rightarrow> repo_plan \<Rightarrow> bool" where
  "repo_planned edit ns fs p p' \<longleftrightarrow>
     map wire (rp_next p') = map wire (rp_next p) @ map wire (edited edit LayerRepo fs) \<and>
     distinct (map recordKey (ns @ edited edit LayerRepo fs)) \<and>
     (\<not> rp_changed p' \<longrightarrow> \<not> rp_changed p \<and> rp_next p' = rp_next p @ fs)"

lemma persistedForm_wire: "persistedForm f = persistedForm g \<Longrightarrow> wire f = wire g"
  by (metis persistedForm_simps(2))

lemma plan_repo_row_step:
  assumes "plan_repo_row env edit f p = Inr p'"
  obtains (dropped) n where "edit LayerRepo f = Inr (n, False)" "p' = p\<lparr>rp_changed := True\<rparr>"
  | (kept) n where "edit LayerRepo f = Inr (n, True)" "recordKey n \<notin> rp_seen p" "wire n = wire f"
      "p' = p\<lparr>rp_seen := insert (recordKey n) (rp_seen p), rp_next := rp_next p @ [f]\<rparr>"
  | (rewritten) n where "edit LayerRepo f = Inr (n, True)" "recordKey n \<notin> rp_seen p"
      "p' = p\<lparr>rp_seen := insert (recordKey n) (rp_seen p), rp_next := rp_next p @ [wire n], rp_changed := True\<rparr>"
proof (cases "edit LayerRepo f")
  case (Inl err)
  then show thesis using assms by (simp add: plan_repo_row_def)
next
  case (Inr r)
  obtain n keep where r: "r = (n, keep)" by (cases r)
  show thesis
  proof (cases keep)
    case False
    then show thesis using assms Inr r dropped by (simp add: plan_repo_row_def)
  next
    case True
    then have new: "recordKey n \<notin> rp_seen p" using assms Inr r by (auto simp: plan_repo_row_def)
    show thesis
    proof (cases "recordKey n = recordKey f \<and> persistedForm n = persistedForm f")
      case True
      then show thesis
        using assms Inr r \<open>keep\<close> new kept persistedForm_wire [of n f] by (simp add: plan_repo_row_def Let_def)
    next
      case False
      then have "parsedForm env n = Inr (wire n)" "p' = p\<lparr>rp_seen := insert (recordKey n) (rp_seen p),
          rp_next := rp_next p @ [wire n], rp_changed := True\<rparr>"
        using assms Inr r \<open>keep\<close> new
        by (auto simp: plan_repo_row_def Let_def parsedForm_def split: if_splits)
      then show thesis using Inr r \<open>keep\<close> new rewritten by simp
    qed
  qed
qed

lemma plan_repo_spec:
  assumes "plan_repo env edit fs p = Inr p'" "distinct (map recordKey ns)" "rp_seen p = recordKey ` set ns"
  shows "repo_planned edit ns fs p p'"
  using assms
proof (induction fs arbitrary: p ns)
  case Nil
  then show ?case by (simp add: repo_planned_def edited_def)
next
  case (Cons f fs)
  obtain p1 where p1: "plan_repo_row env edit f p = Inr p1" "plan_repo env edit fs p1 = Inr p'"
    using Cons.prems(1) by (auto split: sum.splits)
  show ?case
    using p1(1)
  proof (cases rule: plan_repo_row_step)
    case (dropped n)
    have "repo_planned edit ns fs p1 p'"
      by (rule Cons.IH [OF p1(2) Cons.prems(2)]) (use Cons.prems(3) dropped in simp)
    then show ?thesis using dropped by (simp add: repo_planned_def edited_def)
  next
    case (kept n)
    have "repo_planned edit (ns @ [n]) fs p1 p'"
      by (rule Cons.IH [OF p1(2)]) (use Cons.prems(2,3) kept in auto)
    then show ?thesis using kept by (simp add: repo_planned_def edited_def)
  next
    case (rewritten n)
    have "repo_planned edit (ns @ [n]) fs p1 p'"
      by (rule Cons.IH [OF p1(2)]) (use Cons.prems(2,3) rewritten in auto)
    then show ?thesis using rewritten by (simp add: repo_planned_def edited_def)
  qed
qed

lemma moved_sublist: "set (moved_rows edit fs) \<subseteq> set (edited edit LayerLocal fs)"
  by (auto simp: moved_rows_def edited_def split: sum.splits prod.splits bool.splits if_splits)

lemma moved_distinct: "distinct (map recordKey (edited edit LayerLocal fs)) \<Longrightarrow> distinct (map recordKey (moved_rows edit fs))"
proof (induction fs)
  case Nil
  then show ?case by (simp add: moved_rows_def)
next
  case (Cons f fs)
  have tail: "edited edit LayerLocal (f # fs) = (case edit LayerLocal f of Inr (n, True) \<Rightarrow> [n] | _ \<Rightarrow> []) @ edited edit LayerLocal fs"
    by (simp add: edited_def)
  have head: "moved_rows edit (f # fs) = (case edit LayerLocal f of
     Inr (n, True) \<Rightarrow> if recordKey n = recordKey f \<and> persistedForm n = persistedForm f then [] else [n] | _ \<Rightarrow> []) @ moved_rows edit fs"
    by (simp add: moved_rows_def)
  have IH: "distinct (map recordKey (moved_rows edit fs))" using Cons tail by simp
  show ?case
  proof (cases "edit LayerLocal f")
    case (Inl err)
    then show ?thesis using IH head by simp
  next
    case (Inr r)
    obtain n keep where r: "r = (n, keep)" by (cases r)
    have "keep \<Longrightarrow> recordKey n \<notin> recordKey ` set (moved_rows edit fs)"
      using Cons.prems tail Inr r moved_sublist [of edit fs] by auto
    then show ?thesis using IH head Inr r by (cases keep) auto
  qed
qed

lemma edited_in: "n \<in> set (edited edit l fs) \<longleftrightarrow> (\<exists>f \<in> set fs. edit l f = Inr (n, True))"
  by (force simp: edited_def split: sum.splits prod.splits bool.splits)

lemma moved_in: "n \<in> set (moved_rows edit fs) \<longleftrightarrow>
    (\<exists>f \<in> set fs. edit LayerLocal f = Inr (n, True) \<and> \<not> (recordKey n = recordKey f \<and> persistedForm n = persistedForm f))"
  by (force simp: moved_rows_def split: sum.splits prod.splits bool.splits if_splits)

text \<open>The overlay after the edits is the edited overlay.\<close>

lemma edits_land:
  assumes rows: "distinct (map recordKey overlay)" "\<And>k f. at k = Some f \<longleftrightarrow> f \<in> set overlay \<and> recordKey f = k"
    and E: "distinct (map recordKey (edited edit LayerLocal overlay))"
  shows "(case find (\<lambda>f. recordKey f = k) (moved_rows edit overlay) of
       Some f \<Rightarrow> Some (wire f)
     | None \<Rightarrow> if k \<in> gone_keys edit overlay then None else map_option wire (at k)) =
    map_option wire (row_at (edited edit LayerLocal overlay) k)"
proof (cases "find (\<lambda>f. recordKey f = k) (moved_rows edit overlay)")
  case (Some n)
  then have "n \<in> set (moved_rows edit overlay)" "recordKey n = k" by (auto simp: find_Some_iff)
  then have "n \<in> set (edited edit LayerLocal overlay)" "recordKey n = k" using moved_sublist by blast+
  then have "row_at (edited edit LayerLocal overlay) k = Some n" using row_at_Some [OF E, of k n] by simp
  then show ?thesis using Some by simp
next
  case None
  then have unmoved: "persistedForm n = persistedForm f \<and> recordKey f = k"
    if "f \<in> set overlay" "edit LayerLocal f = Inr (n, True)" "recordKey n = k" for f n
    using that moved_in [of n edit overlay] by (auto simp: find_None_iff)
  show ?thesis
  proof (cases "row_at (edited edit LayerLocal overlay) k")
    case (Some n)
    then have n: "n \<in> set (edited edit LayerLocal overlay)" "recordKey n = k" using row_at_Some [OF E] by simp_all
    then obtain f where f: "f \<in> set overlay" "edit LayerLocal f = Inr (n, True)" using edited_in by blast
    then have same: "persistedForm n = persistedForm f" "recordKey f = k" using unmoved n(2) by blast+
    have "f' = f" if "f' \<in> set overlay" "recordKey f' = k" for f'
      using that f(1) same(2) rows(1) by (auto simp: distinct_map inj_on_def)
    then have "k \<notin> gone_keys edit overlay" using f(2) n(2) same(2) by (auto simp: gone_keys_def leaves_key_def)
    moreover have "at k = Some f" using rows(2) f(1) same(2) by blast
    ultimately show ?thesis using None Some persistedForm_wire [OF same(1)] by simp
  next
    case none: None
    have "k \<in> gone_keys edit overlay" if "at k = Some f" for f
    proof -
      have f: "f \<in> set overlay" "recordKey f = k" using that rows(2) by blast+
      have "leaves_key edit f"
      proof (rule ccontr)
        assume "\<not> leaves_key edit f"
        then obtain n where "edit LayerLocal f = Inr (n, True)" "recordKey n = recordKey f"
          by (auto simp: leaves_key_def split: sum.splits prod.splits bool.splits)
        then show False using none f edited_in [of n edit LayerLocal overlay] by (auto simp: row_at_None)
      qed
      then show ?thesis using f by (force simp: gone_keys_def)
    qed
    then show ?thesis using None none by (cases "at k") auto
  qed
qed

lemma revise_run:
  assumes "revise_write env edit rewrite st dk = Inr (st', dk', rvn)"
  obtains overlay rd dir rp lp where
    "loadOverlay (sv_home env) (dk_overlay dk) = Inr (overlay, rd, dir)"
    "plan_repo env edit (dk_rows dk) \<lparr>rp_next = [], rp_seen = {}, rp_changed = False\<rparr> = Inr rp"
    "plan_local edit overlay \<lparr>lp_edits = [], lp_overlay = {}\<rparr> = Inr lp"
    "dk_rows dk' = (if rp_changed rp then sort_key record_order (rp_next rp) else dk_rows dk)"
    "write_overlay env rd (lp_edits lp) dir = Inr (dk_overlay dk')" "rv_Overlay rvn = lp_overlay lp"
  using assms unfolding revise_write_def revise_plan_def Let_def
  by (auto split: sum.splits prod.splits if_splits)

lemma served_rows:
  assumes "loadOverlay home d = Inr (overlay, rd, dir)" "distinct (map fst d)" "inj home" "\<And>k. plain (home k)"
  shows "view home d k = Some f \<longleftrightarrow> f \<in> set overlay \<and> recordKey f = k"
  using load_rows [OF assms(1,2)] served_key [OF load_session(1) [OF assms]] served_view [OF load_session(1) [OF assms]]
    load_session(2) [OF assms] by auto

lemma revise_layers:
  assumes ready: "store_ready env st dk" and load: "loadOverlay (sv_home env) (dk_overlay dk) = Inr (overlay, rd, dir)"
    and run: "ReviseExemptions env False edit rewrite st dk = Inr (st', dk', rvn)"
  shows "mset (map wire (dk_rows dk')) = mset (map wire (edited edit LayerRepo (dk_rows dk))) \<and>
    distinct (map recordKey (dk_rows dk')) \<and>
    map_option wire (overlay_at env dk' k) = map_option wire (row_at (edited edit LayerLocal overlay) k) \<and>
    rv_Overlay rvn = {k. overlay_at env dk' k \<noteq> None}"
proof -
  have hash: "inj (sv_home env)" "\<And>k. plain (sv_home env k)" and names: "distinct (map fst (dk_overlay dk))"
    using ready by (auto simp: store_ready_def)
  have "revise_write env edit rewrite st dk = Inr (st', dk', rvn)" using run by (simp add: ReviseExemptions_def)
  then obtain overlay' rd' dir' rp lp where u: "loadOverlay (sv_home env) (dk_overlay dk) = Inr (overlay', rd', dir')"
      "plan_repo env edit (dk_rows dk) \<lparr>rp_next = [], rp_seen = {}, rp_changed = False\<rparr> = Inr rp"
      "plan_local edit overlay' \<lparr>lp_edits = [], lp_overlay = {}\<rparr> = Inr lp"
      "dk_rows dk' = (if rp_changed rp then sort_key record_order (rp_next rp) else dk_rows dk)"
      "write_overlay env rd' (lp_edits lp) dir' = Inr (dk_overlay dk')" "rv_Overlay rvn = lp_overlay lp"
    by (rule revise_run)
  have eqs: "overlay' = overlay" "rd' = rd" "dir' = dir" using u(1) load by simp_all
  have "repo_planned edit [] (dk_rows dk) \<lparr>rp_next = [], rp_seen = {}, rp_changed = False\<rparr> rp"
    by (rule plan_repo_spec [OF u(2)]) simp_all
  then have rp: "map wire (rp_next rp) = map wire (edited edit LayerRepo (dk_rows dk))"
      "distinct (map recordKey (edited edit LayerRepo (dk_rows dk)))" "\<not> rp_changed rp \<longrightarrow> rp_next rp = dk_rows dk"
    by (simp_all add: repo_planned_def)
  have rows: "mset (dk_rows dk') = mset (rp_next rp)" using u(4) rp(3) by auto
  then have mset_rows: "mset (map wire (dk_rows dk')) = mset (map wire (edited edit LayerRepo (dk_rows dk)))"
    using rp(1) by (metis mset_map)
  have keys_wire: "map recordKey fs = map recordKey (map wire fs)" for fs by simp
  have "mset (map recordKey (dk_rows dk')) = mset (map recordKey (edited edit LayerRepo (dk_rows dk)))"
    using mset_rows keys_wire by (metis mset_map)
  then have distinct_rows: "distinct (map recordKey (dk_rows dk'))" using rp(2) by (metis mset_eq_imp_distinct_iff)
  have "local_planned edit [] overlay \<lparr>lp_edits = [], lp_overlay = {}\<rparr> lp"
    by (rule plan_local_spec [OF u(3) [unfolded eqs]]) simp_all
  then have lp: "installs (lp_edits lp) = moved_rows edit overlay" "set (removals (lp_edits lp)) = gone_keys edit overlay"
      "lp_overlay lp = recordKey ` set (edited edit LayerLocal overlay)" "distinct (map recordKey (edited edit LayerLocal overlay))"
    by (simp_all add: local_planned_def)
  have out: "dk_overlay dk' = applyOverlayEdits (sv_home env) rd (lp_edits lp) dir"
    using u(5) eqs by (simp add: write_overlay_def split: if_splits)
  note ses = load_session [OF load names hash]
  have served: "overlay_at env dk k = Some f \<longleftrightarrow> f \<in> set overlay \<and> recordKey f = k" for k f
    using served_rows [OF load names hash] by (simp add: overlay_at_def)
  have over: "map_option wire (overlay_at env dk' k) = map_option wire (row_at (edited edit LayerLocal overlay) k)" for k
  proof -
    have "map_option wire (overlay_at env dk' k) = (case find (\<lambda>f. recordKey f = k) (moved_rows edit overlay) of
        Some f \<Rightarrow> Some (wire f)
      | None \<Rightarrow> if k \<in> gone_keys edit overlay then None else map_option wire (overlay_at env dk k))"
      using writer_refines [OF ses(1), of "lp_edits lp" k] moved_distinct [OF lp(4)] ses(2) out lp(1,2)
      by (simp add: overlay_at_def cong: option.case_cong)
    also have "\<dots> = map_option wire (row_at (edited edit LayerLocal overlay) k)"
      by (rule edits_land [OF _ served lp(4)]) (use load_rows [OF load names] in blast)
    finally show ?thesis .
  qed
  have "k \<in> rv_Overlay rvn \<longleftrightarrow> overlay_at env dk' k \<noteq> None" for k
    using over [of k] row_at_None [of "edited edit LayerLocal overlay" k] u(6) lp(3)
    by (metis map_option_is_None)
  then show ?thesis using mset_rows distinct_rows over by auto
qed

subsection \<open>Theorems\<close>

text \<open>C15: a revision edits every stored record in its own layer: the document's rows are afterwards the edited rows,
  one for each key, the overlay serves exactly the edited overlay records, and the symbols it reports the
  overlay to hold are the ones the overlay serves.\<close>

theorem revise_edits_layers:
  assumes ready: "store_ready env st dk" and load: "loadOverlay (sv_home env) (dk_overlay dk) = Inr (overlay, rd, dir)"
    and run: "ReviseExemptions env False edit rewrite st dk = Inr (st', dk', rvn)"
  shows "mset (map wire (dk_rows dk')) = mset (map wire (edited edit LayerRepo (dk_rows dk))) \<and>
    distinct (map recordKey (dk_rows dk')) \<and>
    map_option wire (overlay_at env dk' k) = map_option wire (row_at (edited edit LayerLocal overlay) k) \<and>
    rv_Overlay rvn = {k. overlay_at env dk' k \<noteq> None}"
  by (rule revise_layers [OF assms])

text \<open>a checked revision writes no record and previews the write: a refusal is the write's refusal, and
  otherwise the write leaves the same revision behind, unless the overlay refuses a record after the
  document landed.\<close>

theorem revise_check_previews:
  "case Revise env True edit st dk of
     Inl err \<Rightarrow> Revise env False edit st dk = Inl err
   | Inr (st1, dk1, rvn) \<Rightarrow>
       dk_rows dk1 = dk_rows dk \<and> dk_bounds dk1 = dk_bounds dk \<and> dk_exemptions dk1 = dk_exemptions dk \<and>
       (case Revise env False edit st dk of Inl err \<Rightarrow> err = OverlayPartial | Inr (st', dk', rvn') \<Rightarrow> rvn' = rvn)"
proof -
  have prepared: "\<exists>w st1 file1. prepareExemptions env None st rec = Inr (w, st1, file1) \<and> ew_Listed w = []" for st rec
    by (auto simp: prepareExemptions_def Let_def no_write_def)
  let ?st = "refreshExemptions env (dk_exemptions dk) st"
  obtain w st1 file1 where p: "prepareExemptions env None ?st (dk_exemptions dk) = Inr (w, st1, file1)" "ew_Listed w = []"
    using prepared by blast
  show ?thesis
    using p by (auto simp: Revise_def ReviseExemptions_def revise_check_def revise_write_def Let_def write_overlay_def
        split: sum.split prod.split)
qed

subsection \<open>A revision\<close>

text \<open>A record of the overlay renamed, a row of the document pruned.\<close>

definition example_edit :: record_edit where
  "example_edit l f =
     (if l = LayerLocal then Inr (f\<lparr>f_Symbol := ''p.D''\<rparr>, True) else Inr (f, f_Symbol f \<noteq> ''p.C''))"

definition example_revise :: "store_error + (store \<times> disk \<times> revision)" where
  "example_revise = ReviseExemptions example_env False example_edit None example_store example_disk"

definition revised_disk :: disk where "revised_disk = fst (snd (projr example_revise))"

lemma example_revised: "\<not> isl example_revise" "edited example_edit LayerLocal (fst example_load) = [parked_row\<lparr>f_Symbol := ''p.D''\<rparr>]"
  by code_simp+

lemma example_revise_run: "ReviseExemptions example_env False example_edit None example_store example_disk =
    Inr (fst (projr example_revise), revised_disk, snd (snd (projr example_revise)))"
proof -
  have "Inr (projr example_revise) = example_revise" by (rule sum.collapse(2) [OF example_revised(1)])
  then show ?thesis unfolding example_revise_def [symmetric] revised_disk_def prod.collapse by (rule HOL.sym)
qed

theorem revise_edits_layers_witness:
  "map_option wire (overlay_at example_env revised_disk ''p.D'') = Some (wire (parked_row\<lparr>f_Symbol := ''p.D''\<rparr>))"
  using revise_edits_layers [OF example_ready example_disk_loads example_revise_run, of "''p.D''"]
  unfolding example_revised(2) by (simp add: row_at_def recordKey_def recordKeyOf_def parked_row_def zero_finding_def)

end
