(* ===== verification/Lifecycle.thy ===== *)
theory Lifecycle
  imports Revise Dispositions
begin

text \<open>
  The record verbs (\<open>lifecycle.go\<close>, \<open>prepare.go\<close>): pruning the records whose symbol no declaration resolves,
  and retargeting every symbol a record bears across a rename, with the reviewed exemption entries.

  The declared symbols are the loaded tree's sorted list. The ephemeral attestations of the two verbs
  and the load's health check are not modelled.
\<close>

subsection \<open>Rename pairs\<close>

datatype retarget_error =
    DotEdge string string
  | PackageMove string string
  | CrossesPackage string string string
  | Unresolved string
  | ExemptionEntry string retarget_error
  | TwoAcceptances string string string string
  | EmptyPrefix
  | SamePrefix
  | UnlikeShape
  | OtherPackage
  | Restructured
  | UnlikeTerminated

text \<open>Whether a prefix match ends at a segment boundary, and whether it ends at a dot it cannot decide.\<close>

definition boundaryAfter :: "string \<Rightarrow> string \<Rightarrow> bool \<times> bool" where
  "boundaryAfter s prefix =
     (if length s = length prefix then (True, False)
      else if prefix \<noteq> [] \<and> (last prefix = CHR ''.'' \<or> last prefix = CHR ''/'') then (True, False)
      else if s ! length prefix = CHR ''/'' then (True, False)
      else if s ! length prefix = CHR ''.'' then (False, True)
      else (False, False))"

definition retargetSymbol :: "string \<Rightarrow> string \<Rightarrow> string \<Rightarrow> retarget_error + (string \<times> bool)" where
  "retargetSymbol symbol frm to =
     (if \<not> has_prefix symbol frm then Inr (symbol, False)
      else (let (boundary, ambiguous) = boundaryAfter symbol frm in
        if ambiguous then Inl (DotEdge symbol frm)
        else if \<not> boundary then Inr (symbol, False)
        else Inr (to @ drop (length frm) symbol, True)))"

definition retargetPrefixParts :: "string \<Rightarrow> string \<times> string" where
  "retargetPrefixParts prefix =
     (if has_suffix prefix ''.'' then (butlast prefix, [])
      else (let (head, tail) = (case cut_last CHR ''/'' prefix of Some (a, b) \<Rightarrow> (a @ ''/'', b) | None \<Rightarrow> ([], prefix)) in
        case str_cut ''.'' tail of
          None \<Rightarrow> (trim_suffix prefix ''/'', [])
        | Some (x, y) \<Rightarrow> (head @ x, y)))"

definition retargetPackagePath :: "string \<Rightarrow> string \<Rightarrow> string \<Rightarrow> string \<times> bool" where
  "retargetPackagePath path fromPkg toPkg =
     (if path = fromPkg then (toPkg, True)
      else if has_prefix path (fromPkg @ ''/'') then (toPkg @ drop (length fromPkg) path, True)
      else (path, False))"

definition terminator :: "string \<Rightarrow> char option" where
  "terminator p = (if last p = CHR ''.'' \<or> last p = CHR ''/'' then Some (last p) else None)"

definition str_count :: "char \<Rightarrow> string \<Rightarrow> nat" where
  "str_count c s = length (filter (\<lambda>x. x = c) s)"

definition ValidateRetargetPair :: "string \<Rightarrow> string \<Rightarrow> retarget_error + unit" where
  "ValidateRetargetPair frm to =
     (if frm = [] \<or> to = [] then Inl EmptyPrefix
      else if frm = to then Inl SamePrefix
      else (let (fromPkg, fromLocal) = retargetPrefixParts frm; (toPkg, toLocal) = retargetPrefixParts to in
        if (fromLocal = []) \<noteq> (toLocal = []) then Inl UnlikeShape
        else if fromLocal \<noteq> [] \<and> fromPkg \<noteq> toPkg then Inl OtherPackage
        else if fromLocal \<noteq> [] \<and> str_count CHR ''.'' fromLocal \<noteq> str_count CHR ''.'' toLocal then Inl Restructured
        else if terminator frm \<noteq> terminator to then Inl UnlikeTerminated
        else Inr ()))"

subsection \<open>One record\<close>

record touched_rewrite =
  tr_Record :: string
  tr_From :: string
  tr_To :: string

text \<open>The local half of an observation subject, under a prefix of its own.\<close>

definition retarget_local :: "string \<Rightarrow> string \<Rightarrow> string \<Rightarrow> string" where
  "retarget_local symbol localFrom localTo =
     (if localFrom \<noteq> [] \<and> has_prefix symbol localFrom \<and>
         (fst (boundaryAfter symbol localFrom) \<or> snd (boundaryAfter symbol localFrom))
      then localTo @ drop (length localFrom) symbol else symbol)"

definition retarget_subject :: "string \<Rightarrow> string \<Rightarrow> subject_evidence \<Rightarrow> retarget_error + fingerprint" where
  "retarget_subject frm to e =
     (let (fromPkg, fromLocal) = retargetPrefixParts frm; (toPkg, toLocal) = retargetPrefixParts to;
          fp = e_Fingerprint e; storedPkg = fp_SubjectPackage fp in
      if storedPkg = [] \<or> storedPkg = fromPkg \<or> has_prefix storedPkg (fromPkg @ ''/'') then
        Inr (fp\<lparr>fp_SubjectPackage := fst (retargetPackagePath storedPkg fromPkg toPkg),
          fp_SubjectSymbol := retarget_local (fp_SubjectSymbol fp) fromLocal toLocal\<rparr>)
      else if has_prefix frm (storedPkg @ ''.'') then
        (if \<not> has_prefix to (storedPkg @ ''.'') then Inl (PackageMove (e_Symbol e) storedPkg)
         else Inr (fp\<lparr>fp_SubjectSymbol :=
           retarget_local (fp_SubjectSymbol fp) (drop (length storedPkg + 1) frm) (drop (length storedPkg + 1) to)\<rparr>))
      else Inl (CrossesPackage (e_Symbol e) storedPkg frm))"

text \<open>A step over the record gives the rewritten part, whether a prefix applied, and the moves to echo.\<close>

definition retarget_evidence :: "string \<Rightarrow> string \<Rightarrow> string \<Rightarrow> subject_evidence \<Rightarrow>
    retarget_error + (subject_evidence \<times> bool \<times> touched_rewrite list)" where
  "retarget_evidence rec frm to e =
     (case retargetSymbol (e_Symbol e) frm to of
        Inl err \<Rightarrow> Inl err
      | Inr (after, ok) \<Rightarrow>
          if after = e_Symbol e then Inr (e, ok, [])
          else (case retarget_subject frm to e of
              Inl err \<Rightarrow> Inl err
            | Inr fp \<Rightarrow> Inr (e\<lparr>e_Fingerprint := fp, e_Symbol := after\<rparr>, ok,
                [\<lparr>tr_Record = rec, tr_From = e_Symbol e, tr_To = after\<rparr>])))"

definition retarget_kill :: "string \<Rightarrow> string \<Rightarrow> string \<Rightarrow> kill \<Rightarrow> retarget_error + (kill \<times> bool \<times> touched_rewrite list)" where
  "retarget_kill rec frm to k =
     (let (fromPkg, fromLocal) = retargetPrefixParts frm; (toPkg, toLocal) = retargetPrefixParts to in
      if has_prefix (k_Killer k) PackageKillerPrefix then
        (let inner = drop (length PackageKillerPrefix) (k_Killer k) in
          if fromLocal = [] \<and> toLocal = [] \<and> has_suffix inner '')'' then
            (case retargetPackagePath (trim_suffix inner '')'') fromPkg toPkg of
               (after, True) \<Rightarrow>
                 (let killer = PackageKillerPrefix @ after @ '')'' in
                  Inr (k\<lparr>k_Killer := killer\<rparr>, True, [\<lparr>tr_Record = rec, tr_From = k_Killer k, tr_To = killer\<rparr>]))
             | (_, False) \<Rightarrow> Inr (k, False, []))
          else Inr (k, False, []))
      else (case retargetSymbol (k_Killer k) frm to of
          Inl err \<Rightarrow> Inl err
        | Inr (after, ok) \<Rightarrow> Inr (k\<lparr>k_Killer := after\<rparr>, ok,
            if after \<noteq> k_Killer k then [\<lparr>tr_Record = rec, tr_From = k_Killer k, tr_To = after\<rparr>] else [])))"

fun retarget_list :: "('a \<Rightarrow> retarget_error + ('a \<times> bool \<times> touched_rewrite list)) \<Rightarrow> 'a list \<Rightarrow>
    retarget_error + ('a list \<times> bool \<times> touched_rewrite list)" where
  "retarget_list g [] = Inr ([], False, [])"
| "retarget_list g (x # xs) =
     (case g x of
        Inl err \<Rightarrow> Inl err
      | Inr (y, ok, moves) \<Rightarrow>
          (case retarget_list g xs of
             Inl err \<Rightarrow> Inl err
           | Inr (ys, oks, rest) \<Rightarrow> Inr (y # ys, ok \<or> oks, moves @ rest)))"

record retargeted =
  rd_finding :: finding
  rd_symbolChanged :: bool
  rd_touched :: bool
  rd_moves :: "touched_rewrite list"

definition retargetFinding :: "string \<Rightarrow> string \<Rightarrow> finding \<Rightarrow> retarget_error + retargeted" where
  "retargetFinding frm to f =
     (case retargetSymbol (f_Symbol f) frm to of
        Inl err \<Rightarrow> Inl err
      | Inr (symbol, ok1) \<Rightarrow>
          (case retarget_evidence (f_Symbol f) frm to (f_TargetEvidence f) of
             Inl err \<Rightarrow> Inl err
           | Inr (target, ok2, moves2) \<Rightarrow>
               (case retarget_list (retarget_evidence (f_Symbol f) frm to) (f_OracleEvidence f) of
                  Inl err \<Rightarrow> Inl err
                | Inr (oracle, ok3, moves3) \<Rightarrow>
                    (case retarget_list (retarget_kill (f_Symbol f) frm to) (f_Kills f) of
                       Inl err \<Rightarrow> Inl err
                     | Inr (kills, ok4, moves4) \<Rightarrow>
                         Inr \<lparr>rd_finding = f\<lparr>f_Symbol := symbol, f_TargetEvidence := target, f_OracleEvidence := oracle,
                             f_Kills := kills\<rparr>,
                           rd_symbolChanged = (symbol \<noteq> f_Symbol f), rd_touched = (ok1 \<or> ok2 \<or> ok3 \<or> ok4),
                           rd_moves = moves2 @ moves3 @ moves4\<rparr>))))"

subsection \<open>Exemption subjects\<close>

fun movedExemptionSubjects :: "exemption list \<Rightarrow> string \<Rightarrow> string \<Rightarrow> retarget_error + (string \<times> string) list" where
  "movedExemptionSubjects [] frm to = Inr []"
| "movedExemptionSubjects (e # es) frm to =
     (case retargetSymbol (x_Subject e) frm to of
        Inl err \<Rightarrow> Inl (ExemptionEntry (x_Subject e) err)
      | Inr (after, ok) \<Rightarrow>
          (case movedExemptionSubjects es frm to of
             Inl err \<Rightarrow> Inl err
           | Inr moved \<Rightarrow> Inr (if ok then (x_Subject e, after) # moved else moved)))"

fun rewrite_entries :: "(string \<Rightarrow> string option) \<Rightarrow> (string \<times> string \<Rightarrow> string option) \<Rightarrow> exemption list \<Rightarrow>
    retarget_error + (exemption list \<times> rewritten_exemption list)" where
  "rewrite_entries moved seen [] = Inr ([], [])"
| "rewrite_entries moved seen (e # es) =
     (let reviewed = x_Subject e;
          (e', listed) = (case moved (x_Subject e) of
              Some after \<Rightarrow> (e\<lparr>x_Subject := after\<rparr>, [\<lparr>rw_Subject_From = x_Subject e, rw_Subject_To = after\<rparr>])
            | None \<Rightarrow> (e, []));
          key = (x_Subject e', x_Reason e') in
      case seen key of
        Some prior \<Rightarrow> Inl (TwoAcceptances (x_Subject e') (x_Reason e') prior reviewed)
      | None \<Rightarrow>
          (case rewrite_entries moved (seen(key \<mapsto> reviewed)) es of
             Inl err \<Rightarrow> Inl err
           | Inr (rewritten, rest) \<Rightarrow> Inr (e' # rewritten, listed @ rest)))"

definition rewrittenExemptionEntries :: "exemption list \<Rightarrow> string \<Rightarrow> string \<Rightarrow>
    retarget_error + (exemption list \<times> rewritten_exemption list)" where
  "rewrittenExemptionEntries entries frm to =
     (case movedExemptionSubjects entries frm to of
        Inl err \<Rightarrow> Inl err
      | Inr moved \<Rightarrow> rewrite_entries (map_last moved) Map.empty entries)"

subsection \<open>The verbs\<close>

record layer_counts =
  lc_Repo :: nat
  lc_Local :: nat

definition lc_add :: "layer \<Rightarrow> layer_counts \<Rightarrow> layer_counts" where
  "lc_add l c = (if l = LayerLocal then c\<lparr>lc_Local := lc_Local c + 1\<rparr> else c\<lparr>lc_Repo := lc_Repo c + 1\<rparr>)"

definition lc_Total :: "layer_counts \<Rightarrow> nat" where
  "lc_Total c = lc_Repo c + lc_Local c"

text \<open>\<open>sort.SearchStrings\<close> on the sorted list of declared symbols.\<close>

definition resolves :: "string list \<Rightarrow> string \<Rightarrow> bool" where
  "resolves declared symbol \<longleftrightarrow>
     (let i = length (takeWhile (\<lambda>d. d < symbol) declared) in i < length declared \<and> declared ! i = symbol)"

text \<open>The stored records in the order a revision edits them.\<close>

definition stored_records :: "finding list \<Rightarrow> finding list \<Rightarrow> (layer \<times> finding) list" where
  "stored_records rows overlay = map (Pair LayerRepo) rows @ map (Pair LayerLocal) overlay"

record pruned_record =
  pr_Symbol :: string
  pr_Selection :: string
  pr_Layer :: layer
  pr_Attested :: "attestation list"

record prune_result =
  pn_Removed :: "pruned_record list"
  pn_Kept :: layer_counts
  pn_Check :: bool
  pn_Rekeyed :: "rekeyed_exemption list"

definition prune_keeps :: "string list \<Rightarrow> string \<Rightarrow> finding \<Rightarrow> bool" where
  "prune_keeps declared selKey f \<longleftrightarrow> f_Shape f \<noteq> None \<or> f_Selection f \<noteq> selKey \<or> resolves declared (f_Symbol f)"

definition prune_edit :: "string list \<Rightarrow> string \<Rightarrow> record_edit" where
  "prune_edit declared selKey l f = Inr (f, prune_keeps declared selKey f)"

definition prune_note :: "string list \<Rightarrow> string \<Rightarrow> layer \<times> finding \<Rightarrow> prune_result \<Rightarrow> prune_result" where
  "prune_note declared selKey r result =
     (let (l, f) = r in
      if prune_keeps declared selKey f then result\<lparr>pn_Kept := lc_add l (pn_Kept result)\<rparr>
      else result\<lparr>pn_Removed := pn_Removed result @
        [\<lparr>pr_Symbol = f_Symbol f, pr_Selection = f_Selection f, pr_Layer = l, pr_Attested = AttestedDispositions f\<rparr>]\<rparr>)"

definition overlay_rows :: "store_env \<Rightarrow> disk \<Rightarrow> finding list" where
  "overlay_rows env dk = (case loadOverlay (sv_home env) (dk_overlay dk) of Inr (overlay, _, _) \<Rightarrow> overlay | Inl _ \<Rightarrow> [])"

definition PruneDetached :: "store_env \<Rightarrow> string list \<Rightarrow> selection \<Rightarrow> bool \<Rightarrow> store \<Rightarrow> disk \<Rightarrow>
    store_error + (store \<times> disk \<times> prune_result)" where
  "PruneDetached env declared sel check st dk =
     (let selKey = SelectionKey sel;
          result = fold (prune_note declared selKey) (stored_records (dk_rows dk) (overlay_rows env dk))
            \<lparr>pn_Removed = [], pn_Kept = \<lparr>lc_Repo = 0, lc_Local = 0\<rparr>, pn_Check = check, pn_Rekeyed = []\<rparr> in
      case Revise env check (prune_edit declared selKey) st dk of
        Inl err \<Rightarrow> Inl err
      | Inr (st, dk, _) \<Rightarrow> Inr (st, dk, result\<lparr>pn_Rekeyed := sr_rekeyReported st\<rparr>))"

record retargeted_record =
  rr_From :: string
  rr_To :: string
  rr_Selection :: string
  rr_Layer :: layer
  rr_Shadowed :: bool

record retarget_result =
  rs_Rewritten :: "retargeted_record list"
  rs_RewrittenCounts :: layer_counts
  rs_Touched :: layer_counts
  rs_TouchedRewrites :: "(layer \<times> touched_rewrite) list"
  rs_Exemptions :: "rewritten_exemption list"
  rs_Check :: bool
  rs_Rekeyed :: "rekeyed_exemption list"

text \<open>An error's text is \<open>message\<close>.\<close>

definition retarget_edit :: "(retarget_error \<Rightarrow> string) \<Rightarrow> string list \<Rightarrow> string \<Rightarrow> string \<Rightarrow> string \<Rightarrow> record_edit" where
  "retarget_edit message declared selKey frm to l f =
     (case retargetFinding frm to f of
        Inl err \<Rightarrow> Inl (message err)
      | Inr rd \<Rightarrow>
          if rd_symbolChanged rd \<and> f_Selection f = selKey \<and> \<not> resolves declared (f_Symbol (rd_finding rd))
          then Inl (message (Unresolved (f_Symbol (rd_finding rd))))
          else Inr (rd_finding rd, True))"

definition retarget_note :: "string \<Rightarrow> string \<Rightarrow> layer \<times> finding \<Rightarrow> retarget_result \<Rightarrow> retarget_result" where
  "retarget_note frm to r result =
     (let (l, f) = r in
      case retargetFinding frm to f of
        Inl _ \<Rightarrow> result
      | Inr rd \<Rightarrow>
          if rd_symbolChanged rd then
            result\<lparr>rs_Rewritten := rs_Rewritten result @ [\<lparr>rr_From = f_Symbol f, rr_To = f_Symbol (rd_finding rd),
                rr_Selection = f_Selection f, rr_Layer = l, rr_Shadowed = False\<rparr>],
              rs_RewrittenCounts := lc_add l (rs_RewrittenCounts result)\<rparr>
          else if rd_touched rd then
            result\<lparr>rs_Touched := lc_add l (rs_Touched result),
              rs_TouchedRewrites := rs_TouchedRewrites result @ map (Pair l) (rd_moves rd)\<rparr>
          else result)"

definition shadow :: "string set \<Rightarrow> retargeted_record \<Rightarrow> retargeted_record" where
  "shadow holding r = r\<lparr>rr_Shadowed := (rr_Layer r = LayerRepo \<and> recordKeyOf (rr_To r) (rr_Selection r) \<in> holding)\<rparr>"

datatype retarget_failure = PairRefused retarget_error | RecordsRefused retarget_error | RevisionFailed store_error

definition Retarget :: "store_env \<Rightarrow> (retarget_error \<Rightarrow> string) \<Rightarrow> string list \<Rightarrow> selection \<Rightarrow> string \<Rightarrow> string \<Rightarrow> bool \<Rightarrow>
    store \<Rightarrow> disk \<Rightarrow> retarget_failure + (store \<times> disk \<times> retarget_result)" where
  "Retarget env message declared sel frm to check st dk =
     (case ValidateRetargetPair frm to of
        Inl err \<Rightarrow> Inl (PairRefused err)
      | Inr _ \<Rightarrow>
          (case rewrittenExemptionEntries (sr_exemptions st) frm to of
             Inl err \<Rightarrow> Inl (RecordsRefused err)
           | Inr (_, previewed) \<Rightarrow>
               (let selKey = SelectionKey sel;
                    rewrite = (\<lambda>entries. case rewrittenExemptionEntries entries frm to of Inl err \<Rightarrow> Inl (message err) | Inr r \<Rightarrow> Inr r);
                    noted = fold (retarget_note frm to) (stored_records (dk_rows dk) (overlay_rows env dk))
                      \<lparr>rs_Rewritten = [], rs_RewrittenCounts = \<lparr>lc_Repo = 0, lc_Local = 0\<rparr>,
                       rs_Touched = \<lparr>lc_Repo = 0, lc_Local = 0\<rparr>, rs_TouchedRewrites = [], rs_Exemptions = previewed,
                       rs_Check = check, rs_Rekeyed = []\<rparr> in
                case ReviseExemptions env check (retarget_edit message declared selKey frm to) (Some rewrite) st dk of
                  Inl err \<Rightarrow> Inl (RevisionFailed err)
                | Inr (st, dk, rvn) \<Rightarrow>
                    Inr (st, dk, noted\<lparr>rs_Rewritten := map (shadow (rv_Overlay rvn)) (rs_Rewritten noted),
                      rs_Exemptions := (if check then previewed else rv_Exemptions rvn), rs_Rekeyed := sr_rekeyReported st\<rparr>))))"

subsection \<open>Renaming one symbol\<close>

lemma boundaryAfter_append:
  "boundaryAfter (p @ r) p =
     (if r = [] then (True, False)
      else if p \<noteq> [] \<and> (last p = CHR ''.'' \<or> last p = CHR ''/'') then (True, False)
      else if hd r = CHR ''/'' then (True, False)
      else if hd r = CHR ''.'' then (False, True)
      else (False, False))"
  by (auto simp: boundaryAfter_def nth_append hd_conv_nth)

definition renames :: "string \<Rightarrow> string \<Rightarrow> string \<Rightarrow> string \<Rightarrow> bool" where
  "renames frm to symbol after \<longleftrightarrow> (\<exists>rest. symbol = frm @ rest \<and> after = to @ rest \<and>
     (rest = [] \<or> (frm \<noteq> [] \<and> last frm \<in> {CHR ''.'', CHR ''/''}) \<or> hd rest = CHR ''/''))"

lemma retargetSymbol_applies: "retargetSymbol symbol frm to = Inr (after, True) \<longleftrightarrow> renames frm to symbol after"
proof
  assume r: "retargetSymbol symbol frm to = Inr (after, True)"
  then obtain rest where rest: "symbol = frm @ rest"
    by (auto simp: retargetSymbol_def has_prefix_iff split: if_splits)
  then show "renames frm to symbol after"
    using r by (auto simp: retargetSymbol_def renames_def boundaryAfter_append Let_def split: if_splits)
next
  assume "renames frm to symbol after"
  then obtain rest where rest: "symbol = frm @ rest" "after = to @ rest"
      "rest = [] \<or> (frm \<noteq> [] \<and> last frm \<in> {CHR ''.'', CHR ''/''}) \<or> hd rest = CHR ''/''"
    by (auto simp: renames_def)
  then have "boundaryAfter symbol frm = (True, False)" unfolding rest(1) boundaryAfter_append by auto
  then show "retargetSymbol symbol frm to = Inr (after, True)"
    using rest(1,2) by (simp add: retargetSymbol_def has_prefix_iff)
qed

lemma retargetSymbol_stays: "retargetSymbol symbol frm to = Inr (after, False) \<Longrightarrow> after = symbol"
  by (auto simp: retargetSymbol_def Let_def split: if_splits prod.splits)

lemma validated_terminators: "ValidateRetargetPair frm to = Inr () \<Longrightarrow> frm \<noteq> [] \<and> to \<noteq> [] \<and> terminator frm = terminator to"
  by (auto simp: ValidateRetargetPair_def Let_def split: if_splits prod.splits)

lemma renames_back:
  assumes "ValidateRetargetPair frm to = Inr ()" "renames frm to symbol after"
  shows "renames to frm after symbol"
proof -
  have t: "frm \<noteq> []" "to \<noteq> []" "terminator frm = terminator to" using validated_terminators [OF assms(1)] by simp_all
  have "last frm \<in> {CHR ''.'', CHR ''/''} \<Longrightarrow> last to \<in> {CHR ''.'', CHR ''/''}"
    using t(3) by (auto simp: terminator_def split: if_splits)
  then show ?thesis using assms(2) t by (auto simp: renames_def)
qed

subsection \<open>One record's frame\<close>

lemma retargetSymbol_untouched: "retargetSymbol s frm to = Inr (t, ok) \<Longrightarrow> \<not> ok \<Longrightarrow> t = s"
  by (cases ok) (auto dest: retargetSymbol_stays)

lemma retarget_evidence_untouched:
  "retarget_evidence rec frm to e = Inr (e', ok, moves) \<Longrightarrow> \<not> ok \<Longrightarrow> e' = e \<and> moves = []"
  by (auto simp: retarget_evidence_def dest!: retargetSymbol_stays split: sum.splits if_splits)

lemma retarget_kill_untouched:
  "retarget_kill rec frm to k = Inr (k', ok, moves) \<Longrightarrow> \<not> ok \<Longrightarrow> k' = k \<and> moves = []"
  by (auto simp: retarget_kill_def Let_def dest!: retargetSymbol_stays split: sum.splits if_splits prod.splits bool.splits)

lemma retarget_list_untouched:
  assumes "\<And>x y moves. g x = Inr (y, False, moves) \<Longrightarrow> y = x \<and> moves = []"
  shows "retarget_list g xs = Inr (ys, False, moves) \<Longrightarrow> ys = xs \<and> moves = []"
  using assms by (induction xs arbitrary: ys moves) (force split: sum.splits prod.splits)+

text \<open>What a successful rewrite did to each symbol.\<close>

definition symbol_moved :: "string \<Rightarrow> string \<Rightarrow> string \<Rightarrow> string \<Rightarrow> bool" where
  "symbol_moved frm to s t \<longleftrightarrow> retargetSymbol s frm to \<in> {Inr (t, True), Inr (t, False)}"

lemma symbol_movedI: "retargetSymbol s frm to = Inr (t, ok) \<Longrightarrow> symbol_moved frm to s t"
  by (cases ok) (simp_all add: symbol_moved_def)

lemma retarget_evidence_symbol:
  assumes "retarget_evidence rec frm to e = Inr (e', ok, moves)"
  shows "symbol_moved frm to (e_Symbol e) (e_Symbol e')"
proof -
  obtain after ok' where s: "retargetSymbol (e_Symbol e) frm to = Inr (after, ok')"
    using assms by (auto simp: retarget_evidence_def split: sum.splits)
  then have "e_Symbol e' = after"
    using assms by (auto simp: retarget_evidence_def split: sum.splits if_splits)
  then show ?thesis using symbol_movedI [OF s] by simp
qed

lemma retarget_list_all2:
  assumes "\<And>x y ok moves. g x = Inr (y, ok, moves) \<Longrightarrow> R x y"
  shows "retarget_list g xs = Inr (ys, oks, moves) \<Longrightarrow> list_all2 R xs ys"
  using assms by (induction xs arbitrary: ys oks moves) (fastforce split: sum.splits prod.splits)+

lemma retargetFinding_parts:
  assumes "retargetFinding frm to f = Inr rd"
  obtains symbol ok1 target ok2 moves2 orc ok3 moves3 kills ok4 moves4 where
    "retargetSymbol (f_Symbol f) frm to = Inr (symbol, ok1)"
    "retarget_evidence (f_Symbol f) frm to (f_TargetEvidence f) = Inr (target, ok2, moves2)"
    "retarget_list (retarget_evidence (f_Symbol f) frm to) (f_OracleEvidence f) = Inr (orc, ok3, moves3)"
    "retarget_list (retarget_kill (f_Symbol f) frm to) (f_Kills f) = Inr (kills, ok4, moves4)"
    "rd_finding rd = f\<lparr>f_Symbol := symbol, f_TargetEvidence := target, f_OracleEvidence := orc, f_Kills := kills\<rparr>"
    "rd_symbolChanged rd \<longleftrightarrow> symbol \<noteq> f_Symbol f" "rd_touched rd \<longleftrightarrow> ok1 \<or> ok2 \<or> ok3 \<or> ok4"
    "rd_moves rd = moves2 @ moves3 @ moves4"
  using assms by (auto simp: retargetFinding_def split: sum.splits prod.splits)

subsection \<open>Entries and verbs\<close>

lemma moved_subjects:
  "movedExemptionSubjects es frm to = Inr moved \<Longrightarrow> (s, t) \<in> set moved \<Longrightarrow> retargetSymbol s frm to = Inr (t, True)"
  by (induction es arbitrary: moved) (auto split: sum.splits if_splits)

lemma all_subjects_judged:
  "movedExemptionSubjects es frm to = Inr moved \<Longrightarrow> e \<in> set es \<Longrightarrow>
    (\<exists>t. (x_Subject e, t) \<in> set moved) \<or> retargetSymbol (x_Subject e) frm to = Inr (x_Subject e, False)"
proof (induction es arbitrary: moved)
  case (Cons x xs)
  obtain after ok rest where run: "retargetSymbol (x_Subject x) frm to = Inr (after, ok)"
      "movedExemptionSubjects xs frm to = Inr rest" "moved = (if ok then (x_Subject x, after) # rest else rest)"
    using Cons.prems(1) by (auto split: sum.splits)
  show ?case
  proof (cases "e = x")
    case True
    then show ?thesis using run retargetSymbol_stays [of "x_Subject x" frm to after] by (cases ok) auto
  next
    case False
    then have "e \<in> set xs" using Cons.prems(2) by simp
    then show ?thesis using Cons.IH [OF run(2)] run(3) by (auto split: if_splits)
  qed
qed simp

lemma moved_lookup:
  assumes "movedExemptionSubjects es frm to = Inr moved" "e \<in> set es"
  shows "symbol_moved frm to (x_Subject e) (get_or (x_Subject e) (map_last moved (x_Subject e)))"
proof (cases "map_last moved (x_Subject e)")
  case None
  then have "\<nexists>t. (x_Subject e, t) \<in> set moved" by (force simp: map_last_None)
  then have "retargetSymbol (x_Subject e) frm to = Inr (x_Subject e, False)" using all_subjects_judged [OF assms] by simp
  then show ?thesis using symbol_movedI None by fastforce
next
  case (Some t)
  then have "retargetSymbol (x_Subject e) frm to = Inr (t, True)"
    using moved_subjects [OF assms(1)] map_last_Some_in by fastforce
  then show ?thesis using symbol_movedI Some by fastforce
qed

lemma rewrite_entries_ok:
  "rewrite_entries moved seen es = Inr (out, listed) \<Longrightarrow>
    map x_Reason out = map x_Reason es \<and> map x_Rationale out = map x_Rationale es \<and>
    map x_Subject out = map (\<lambda>e. get_or (x_Subject e) (moved (x_Subject e))) es \<and>
    listed = concat (map (\<lambda>e. case moved (x_Subject e) of
      Some t \<Rightarrow> [\<lparr>rw_Subject_From = x_Subject e, rw_Subject_To = t\<rparr>] | None \<Rightarrow> []) es) \<and>
    distinct (map x_key out) \<and> (\<forall>e \<in> set out. seen (x_key e) = None)"
proof (induction es arbitrary: seen out listed)
  case (Cons e es)
  define e' where "e' = (case moved (x_Subject e) of Some t \<Rightarrow> e\<lparr>x_Subject := t\<rparr> | None \<Rightarrow> e)"
  have e': "x_Reason e' = x_Reason e" "x_Rationale e' = x_Rationale e" "x_Subject e' = get_or (x_Subject e) (moved (x_Subject e))"
    by (auto simp: e'_def split: option.split)
  obtain rest listed' where run: "seen (x_key e') = None" "rewrite_entries moved (seen(x_key e' \<mapsto> x_Subject e)) es = Inr (rest, listed')"
      "out = e' # rest" "listed = (case moved (x_Subject e) of
        Some t \<Rightarrow> [\<lparr>rw_Subject_From = x_Subject e, rw_Subject_To = t\<rparr>] | None \<Rightarrow> []) @ listed'"
    using Cons.prems by (cases "moved (x_Subject e)") (auto simp: e'_def x_key_def Let_def split: option.splits sum.splits)
  note IH = Cons.IH [OF run(2)]
  have "\<forall>x \<in> set rest. seen (x_key x) = None \<and> x_key x \<noteq> x_key e'" using IH by (auto split: if_splits)
  then show ?case using IH run(1,3,4) e' by auto
qed simp

lemma edited_prune: "edited (prune_edit declared selKey) l fs = filter (prune_keeps declared selKey) fs"
  by (induction fs) (simp_all add: edited_def prune_edit_def)

lemma prune_fold:
  "pn_Removed (fold (prune_note declared selKey) rs result) = pn_Removed result @
     map (\<lambda>(l, f). \<lparr>pr_Symbol = f_Symbol f, pr_Selection = f_Selection f, pr_Layer = l, pr_Attested = AttestedDispositions f\<rparr>)
       (filter (\<lambda>(l, f). \<not> prune_keeps declared selKey f) rs) \<and>
   lc_Total (pn_Kept (fold (prune_note declared selKey) rs result)) =
     lc_Total (pn_Kept result) + length (filter (\<lambda>(l, f). prune_keeps declared selKey f) rs)"
proof (induction rs arbitrary: result)
  case (Cons r rs)
  obtain l f where r: "r = (l, f)" by (cases r)
  show ?case using Cons.IH [of "prune_note declared selKey r result"]
    by (cases "prune_keeps declared selKey f") (simp_all add: r prune_note_def lc_add_def lc_Total_def)
qed simp

lemma row_at_filter:
  assumes "distinct (map recordKey fs)"
  shows "row_at (filter P fs) k = (case row_at fs k of Some f \<Rightarrow> if P f then Some f else None | None \<Rightarrow> None)"
proof (cases "row_at fs k")
  case None
  then have "row_at (filter P fs) k = None" by (auto simp: row_at_None)
  then show ?thesis using None by simp
next
  case (Some f)
  then have f: "f \<in> set fs" "recordKey f = k" using row_at_Some [OF assms] by simp_all
  show ?thesis
  proof (cases "P f")
    case True
    then have "row_at (filter P fs) k = Some f"
      using row_at_Some [OF distinct_map_filter [OF assms], of P k f] f by simp
    then show ?thesis using Some True by simp
  next
    case False
    have "g = f" if "g \<in> set fs" "recordKey g = k" for g using that f assms by (auto simp: distinct_map inj_on_def)
    then have "k \<notin> recordKey ` set (filter P fs)" using False by auto
    then have "row_at (filter P fs) k = None" by (simp only: row_at_None) simp
    then show ?thesis using Some False by simp
  qed
qed

lemma plan_repo_edits: "plan_repo env edit fs p = Inr p' \<Longrightarrow> f \<in> set fs \<Longrightarrow> \<exists>r. edit LayerRepo f = Inr r"
  by (induction fs arbitrary: p) (auto simp: plan_repo_row_def split: sum.splits)

lemma plan_local_edits: "plan_local edit fs p = Inr p' \<Longrightarrow> f \<in> set fs \<Longrightarrow> \<exists>r. edit LayerLocal f = Inr r"
  by (induction fs arbitrary: p) (auto simp: plan_local_row_def split: sum.splits)

text \<open>The record a retarget leaves for a record.\<close>

definition moved_finding :: "string \<Rightarrow> string \<Rightarrow> finding \<Rightarrow> finding" where
  "moved_finding frm to f = (case retargetFinding frm to f of Inr rd \<Rightarrow> rd_finding rd | Inl _ \<Rightarrow> f)"

text \<open>A record a retarget may rewrite: its symbols move unambiguously, and its own new symbol resolves when the
  loaded selection measured it.\<close>

definition retargetable :: "string list \<Rightarrow> string \<Rightarrow> string \<Rightarrow> string \<Rightarrow> finding \<Rightarrow> bool" where
  "retargetable declared selKey frm to f \<longleftrightarrow>
     (case retargetFinding frm to f of
        Inl _ \<Rightarrow> False
      | Inr rd \<Rightarrow> rd_symbolChanged rd \<and> f_Selection f = selKey \<longrightarrow> resolves declared (f_Symbol (rd_finding rd)))"

lemma retarget_edit_Inr:
  "retarget_edit message declared selKey frm to l f = Inr r \<longleftrightarrow>
     retargetable declared selKey frm to f \<and> r = (moved_finding frm to f, True)"
  by (auto simp: retarget_edit_def retargetable_def moved_finding_def split: sum.split)

lemma edited_retarget:
  "list_all (retargetable declared selKey frm to) fs \<Longrightarrow>
    edited (retarget_edit message declared selKey frm to) l fs = map (moved_finding frm to) fs"
proof (induction fs)
  case (Cons f fs)
  then have "retarget_edit message declared selKey frm to l f = Inr (moved_finding frm to f, True)"
    by (simp add: retarget_edit_Inr)
  then show ?case using Cons by (simp add: edited_def)
qed (simp add: edited_def)

lemma retarget_note_rewritten:
  "list_all (\<lambda>r. \<not> rr_Shadowed r) (rs_Rewritten result) \<Longrightarrow>
    list_all (\<lambda>r. \<not> rr_Shadowed r) (rs_Rewritten (fold (retarget_note frm to) rs result)) \<and>
    map (\<lambda>r. (rr_Layer r, rr_From r)) (rs_Rewritten (fold (retarget_note frm to) rs result)) =
      map (\<lambda>r. (rr_Layer r, rr_From r)) (rs_Rewritten result) @
      map (\<lambda>(l, f). (l, f_Symbol f)) (filter (\<lambda>(l, f). f_Symbol (moved_finding frm to f) \<noteq> f_Symbol f) rs)"
proof (induction rs arbitrary: result)
  case (Cons r rs)
  obtain l f where r: "r = (l, f)" by (cases r)
  show ?case
  proof (cases "retargetFinding frm to f")
    case (Inl err)
    then show ?thesis using Cons by (simp add: r retarget_note_def moved_finding_def)
  next
    case (Inr rd)
    have "rd_symbolChanged rd \<longleftrightarrow> f_Symbol (rd_finding rd) \<noteq> f_Symbol f"
      by (rule retargetFinding_parts [OF Inr]) simp
    then show ?thesis
      using Cons.IH [of "retarget_note frm to r result"] Cons.prems Inr
      by (cases "rd_symbolChanged rd"; cases "rd_touched rd") (simp_all add: r retarget_note_def moved_finding_def)
  qed
qed simp

subsection \<open>Theorems\<close>

text \<open>C37: a rename is reversible: under a validated pair, a symbol the pair rewrites is rewritten back by the
  inverse pair, so no two symbols meet in one.\<close>

theorem retarget_symbol_roundtrip:
  assumes "ValidateRetargetPair frm to = Inr ()" "retargetSymbol symbol frm to = Inr (after, True)"
  shows "retargetSymbol after to frm = Inr (symbol, True)"
  using renames_back [OF assms(1)] assms(2) by (simp add: retargetSymbol_applies)

theorem retarget_symbol_roundtrip_witness:
  "retargetSymbol ''example.com/new/p.F'' ''example.com/new'' ''example.com/old'' = Inr (''example.com/old/p.F'', True)"
proof -
  have "ValidateRetargetPair ''example.com/old'' ''example.com/new'' = Inr ()"
    "retargetSymbol ''example.com/old/p.F'' ''example.com/old'' ''example.com/new'' = Inr (''example.com/new/p.F'', True)"
    by code_simp+
  then show ?thesis by (rule retarget_symbol_roundtrip)
qed

text \<open>a retarget of one record changes its symbol, its evidence and its kill attributions and nothing else:
  dispositions and survivors ride it unchanged; its own symbol and every evidence symbol is the rename of the
  old one; and a record no prefix applied to is left exactly as it was, with no move to echo.\<close>

theorem retarget_finding_frame:
  assumes "retargetFinding frm to f = Inr rd"
  shows "(rd_finding rd)\<lparr>f_Symbol := f_Symbol f, f_TargetEvidence := f_TargetEvidence f, f_OracleEvidence := f_OracleEvidence f,
      f_Kills := f_Kills f\<rparr> = f \<and>
    symbol_moved frm to (f_Symbol f) (f_Symbol (rd_finding rd)) \<and>
    symbol_moved frm to (e_Symbol (f_TargetEvidence f)) (e_Symbol (f_TargetEvidence (rd_finding rd))) \<and>
    list_all2 (\<lambda>e e'. symbol_moved frm to (e_Symbol e) (e_Symbol e')) (f_OracleEvidence f) (f_OracleEvidence (rd_finding rd)) \<and>
    (if rd_touched rd then True else rd_finding rd = f \<and> rd_moves rd = [])"
proof (rule retargetFinding_parts [OF assms])
  fix symbol ok1 target ok2 moves2 orc ok3 moves3 kills ok4 moves4
  assume parts: "retargetSymbol (f_Symbol f) frm to = Inr (symbol, ok1)"
    "retarget_evidence (f_Symbol f) frm to (f_TargetEvidence f) = Inr (target, ok2, moves2)"
    "retarget_list (retarget_evidence (f_Symbol f) frm to) (f_OracleEvidence f) = Inr (orc, ok3, moves3)"
    "retarget_list (retarget_kill (f_Symbol f) frm to) (f_Kills f) = Inr (kills, ok4, moves4)"
    and rd: "rd_finding rd = f\<lparr>f_Symbol := symbol, f_TargetEvidence := target, f_OracleEvidence := orc, f_Kills := kills\<rparr>"
    "rd_touched rd \<longleftrightarrow> ok1 \<or> ok2 \<or> ok3 \<or> ok4" "rd_moves rd = moves2 @ moves3 @ moves4"
  have "list_all2 (\<lambda>e e'. symbol_moved frm to (e_Symbol e) (e_Symbol e')) (f_OracleEvidence f) orc"
    by (rule retarget_list_all2 [OF _ parts(3)]) (rule retarget_evidence_symbol)
  moreover have "rd_finding rd = f \<and> rd_moves rd = []" if "\<not> rd_touched rd"
  proof -
    have "\<not> ok1" "\<not> ok2" "\<not> ok3" "\<not> ok4" using that rd(2) by simp_all
    then have "symbol = f_Symbol f" "target = f_TargetEvidence f \<and> moves2 = []"
      using retargetSymbol_untouched [OF parts(1)] retarget_evidence_untouched [OF parts(2)] by simp_all
    moreover have "orc = f_OracleEvidence f \<and> moves3 = []"
      by (rule retarget_list_untouched [of "retarget_evidence (f_Symbol f) frm to"])
        (use parts(3) \<open>\<not> ok3\<close> retarget_evidence_untouched in \<open>blast | simp\<close>)+
    moreover have "kills = f_Kills f \<and> moves4 = []"
      by (rule retarget_list_untouched [of "retarget_kill (f_Symbol f) frm to"])
        (use parts(4) \<open>\<not> ok4\<close> retarget_kill_untouched in \<open>blast | simp\<close>)+
    ultimately show ?thesis by (simp add: rd)
  qed
  ultimately show ?thesis
    using symbol_movedI [OF parts(1)] retarget_evidence_symbol [OF parts(2)] by (simp add: rd(1))
qed

text \<open>retargeting the exemption record moves subjects and nothing else: reasons and rationales stay as reviewed in
  their order, every subject is its rename, the moves listed are the ones made, and no two entries of the
  result accept one subject and reason.\<close>

theorem rewritten_exemptions_keep_review:
  assumes "rewrittenExemptionEntries entries frm to = Inr (out, listed)"
  shows "map x_Reason out = map x_Reason entries \<and> map x_Rationale out = map x_Rationale entries \<and>
    list_all2 (\<lambda>e e'. symbol_moved frm to (x_Subject e) (x_Subject e')) entries out \<and> distinct (map x_key out) \<and>
    length listed \<le> length entries"
proof -
  obtain moved where m: "movedExemptionSubjects entries frm to = Inr moved" "rewrite_entries (map_last moved) Map.empty entries = Inr (out, listed)"
    using assms by (auto simp: rewrittenExemptionEntries_def split: sum.splits)
  note ok = rewrite_entries_ok [OF m(2)]
  have len: "length out = length entries" using ok by (metis length_map)
  have "x_Subject (out ! i) = get_or (x_Subject (entries ! i)) (map_last moved (x_Subject (entries ! i)))" if "i < length entries" for i
    using ok that len by (metis (mono_tags, lifting) nth_map)
  then have "list_all2 (\<lambda>e e'. symbol_moved frm to (x_Subject e) (x_Subject e')) entries out"
    using len moved_lookup [OF m(1)] by (simp add: list_all2_conv_all_nth)
  moreover have "length (concat (map (\<lambda>e. case h e of Some t \<Rightarrow> [g e t] | None \<Rightarrow> []) es)) \<le> length es" for g :: "exemption \<Rightarrow> string \<Rightarrow> rewritten_exemption" and h es
    by (induction es) (auto split: option.split)
  ultimately show ?thesis using ok by auto
qed

text \<open>a prune removes exactly the detached records: the document keeps its rows whose symbol resolves, that are
  shaped, or that another selection measured, the overlay keeps the same of its records, every removal is
  echoed with its layer and its attested dispositions, and every stored record is counted once.\<close>

theorem prune_removes_exactly_detached:
  assumes ready: "store_ready env st dk" and load: "loadOverlay (sv_home env) (dk_overlay dk) = Inr (overlay, rd, dir)"
    and run: "PruneDetached env declared sel False st dk = Inr (st', dk', result)"
  defines "keeps \<equiv> prune_keeps declared (SelectionKey sel)"
  shows "mset (map wire (dk_rows dk')) = mset (map wire (filter keeps (dk_rows dk))) \<and>
    map_option wire (overlay_at env dk' k) =
      (case overlay_at env dk k of Some f \<Rightarrow> if keeps f then Some (wire f) else None | None \<Rightarrow> None) \<and>
    pn_Removed result = map (\<lambda>(l, f). \<lparr>pr_Symbol = f_Symbol f, pr_Selection = f_Selection f, pr_Layer = l,
      pr_Attested = AttestedDispositions f\<rparr>) (filter (\<lambda>(l, f). \<not> keeps f) (stored_records (dk_rows dk) overlay)) \<and>
    lc_Total (pn_Kept result) + length (pn_Removed result) = length (dk_rows dk) + length overlay"
proof -
  have hash: "inj (sv_home env)" "\<And>k. plain (sv_home env k)" and names: "distinct (map fst (dk_overlay dk))"
    using ready by (auto simp: store_ready_def)
  obtain rvn where rev: "ReviseExemptions env False (prune_edit declared (SelectionKey sel)) None st dk = Inr (st', dk', rvn)"
      and res: "result = (fold (prune_note declared (SelectionKey sel)) (stored_records (dk_rows dk) overlay)
        \<lparr>pn_Removed = [], pn_Kept = \<lparr>lc_Repo = 0, lc_Local = 0\<rparr>, pn_Check = False, pn_Rekeyed = []\<rparr>)\<lparr>pn_Rekeyed := sr_rekeyReported st'\<rparr>"
    using run load by (auto simp: PruneDetached_def Revise_def overlay_rows_def Let_def split: sum.splits prod.splits)
  note layers = revise_layers [OF ready load rev, of k]
  have keys: "distinct (map recordKey overlay)" using load_rows [OF load names] by blast
  have at: "row_at overlay k = overlay_at env dk k"
  proof -
    have "row_at overlay k = Some f \<longleftrightarrow> overlay_at env dk k = Some f" for f
      using row_at_Some [OF keys] served_rows [OF load names hash] by (simp add: overlay_at_def)
    then show ?thesis by (cases "overlay_at env dk k") (metis not_None_eq)+
  qed
  have removed: "pn_Removed result = map (\<lambda>(l, f). \<lparr>pr_Symbol = f_Symbol f, pr_Selection = f_Selection f, pr_Layer = l,
      pr_Attested = AttestedDispositions f\<rparr>) (filter (\<lambda>(l, f). \<not> keeps f) (stored_records (dk_rows dk) overlay))"
    and kept: "lc_Total (pn_Kept result) = length (filter (\<lambda>(l, f). keeps f) (stored_records (dk_rows dk) overlay))"
    using prune_fold [of declared "SelectionKey sel" "stored_records (dk_rows dk) overlay"]
    by (simp_all add: res keeps_def lc_Total_def)
  have "length (filter (\<lambda>(l, f). keeps f) rs) + length (filter (\<lambda>(l, f). \<not> keeps f) rs) = length rs" for rs :: "(layer \<times> finding) list"
    by (induction rs) auto
  from this [of "stored_records (dk_rows dk) overlay"]
  have "lc_Total (pn_Kept result) + length (pn_Removed result) = length (stored_records (dk_rows dk) overlay)"
    using removed kept by simp
  then have "lc_Total (pn_Kept result) + length (pn_Removed result) = length (dk_rows dk) + length overlay"
    by (simp add: stored_records_def)
  moreover have "map_option wire (overlay_at env dk' k) =
      (case overlay_at env dk k of Some f \<Rightarrow> if keeps f then Some (wire f) else None | None \<Rightarrow> None)"
  proof -
    have "map_option wire (overlay_at env dk' k) = map_option wire (row_at (filter keeps overlay) k)"
      using layers by (simp add: edited_prune keeps_def)
    then show ?thesis unfolding row_at_filter [OF keys] at by (cases "overlay_at env dk k") simp_all
  qed
  ultimately show ?thesis using layers removed by (simp add: edited_prune keeps_def)
qed

text \<open>a retarget rewrites every stored record in its own layer by the rename and changes no other: each record it
  rewrote is unambiguous and, when the loaded selection measured it, its new symbol is declared; the report
  lists exactly the records whose own symbol moved, and calls one shadowed exactly when it is a document row
  whose new key the overlay serves afterwards.\<close>

theorem retarget_rewrites_every_record:
  assumes ready: "store_ready env st dk" and load: "loadOverlay (sv_home env) (dk_overlay dk) = Inr (overlay, rd, dir)"
    and run: "Retarget env message declared sel frm to False st dk = Inr (st', dk', result)"
  shows "list_all (retargetable declared (SelectionKey sel) frm to) (dk_rows dk @ overlay) \<and>
    mset (map wire (dk_rows dk')) = mset (map (wire \<circ> moved_finding frm to) (dk_rows dk)) \<and>
    map_option wire (overlay_at env dk' k) = map_option wire (row_at (map (moved_finding frm to) overlay) k) \<and>
    map (\<lambda>r. (rr_Layer r, rr_From r)) (rs_Rewritten result) =
      map (\<lambda>(l, f). (l, f_Symbol f)) (filter (\<lambda>(l, f). f_Symbol (moved_finding frm to f) \<noteq> f_Symbol f)
        (stored_records (dk_rows dk) overlay)) \<and>
    list_all (\<lambda>r. rr_Shadowed r \<longleftrightarrow> rr_Layer r = LayerRepo \<and> overlay_at env dk' (recordKeyOf (rr_To r) (rr_Selection r)) \<noteq> None)
      (rs_Rewritten result)"
proof -
  let ?edit = "retarget_edit message declared (SelectionKey sel) frm to"
  let ?rw = "\<lambda>entries. case rewrittenExemptionEntries entries frm to of Inl err \<Rightarrow> Inl (message err) | Inr r \<Rightarrow> Inr r"
  obtain entries previewed where pre: "ValidateRetargetPair frm to = Inr ()"
      "rewrittenExemptionEntries (sr_exemptions st) frm to = Inr (entries, previewed)"
    using run by (auto simp: Retarget_def split: sum.splits)
  define noted0 :: retarget_result where "noted0 = \<lparr>rs_Rewritten = [], rs_RewrittenCounts = \<lparr>lc_Repo = 0, lc_Local = 0\<rparr>,
    rs_Touched = \<lparr>lc_Repo = 0, lc_Local = 0\<rparr>, rs_TouchedRewrites = [], rs_Exemptions = previewed, rs_Check = False, rs_Rekeyed = []\<rparr>"
  have overlay: "overlay_rows env dk = overlay" using load by (simp add: overlay_rows_def)
  obtain rvn where rev: "ReviseExemptions env False ?edit (Some ?rw) st dk = Inr (st', dk', rvn)"
      and res: "rs_Rewritten result = map (shadow (rv_Overlay rvn))
        (rs_Rewritten (fold (retarget_note frm to) (stored_records (dk_rows dk) overlay) noted0))"
    using run by (auto simp: Retarget_def pre overlay noted0_def Let_def split: sum.splits prod.splits)
  have noted0: "rs_Rewritten noted0 = []" by (simp add: noted0_def)
  have wrote: "revise_write env ?edit (Some ?rw) st dk = Inr (st', dk', rvn)" using rev by (simp add: ReviseExemptions_def)
  have judged: "list_all (retargetable declared (SelectionKey sel) frm to) (dk_rows dk @ overlay)"
  proof (rule revise_run [OF wrote])
    fix overlay' rd' dir' rp lp
    assume l: "loadOverlay (sv_home env) (dk_overlay dk) = Inr (overlay', rd', dir')"
      and rp: "plan_repo env ?edit (dk_rows dk) \<lparr>rp_next = [], rp_seen = {}, rp_changed = False\<rparr> = Inr rp"
      and lp: "plan_local ?edit overlay' \<lparr>lp_edits = [], lp_overlay = {}\<rparr> = Inr lp"
    have "overlay' = overlay" using l load by simp
    then show "list_all (retargetable declared (SelectionKey sel) frm to) (dk_rows dk @ overlay)"
      using plan_repo_edits [OF rp] plan_local_edits [OF lp] by (auto simp: list_all_iff retarget_edit_Inr)
  qed
  note layers = revise_layers [OF ready load rev]
  let ?noted = "rs_Rewritten (fold (retarget_note frm to) (stored_records (dk_rows dk) overlay) noted0)"
  have "map (\<lambda>r. (rr_Layer r, rr_From r)) (rs_Rewritten result) = map (\<lambda>r. (rr_Layer r, rr_From r)) ?noted"
    by (simp add: res shadow_def)
  then have rewritten: "map (\<lambda>r. (rr_Layer r, rr_From r)) (rs_Rewritten result) =
      map (\<lambda>(l, f). (l, f_Symbol f)) (filter (\<lambda>(l, f). f_Symbol (moved_finding frm to f) \<noteq> f_Symbol f)
        (stored_records (dk_rows dk) overlay))"
    using retarget_note_rewritten [of noted0 frm to] noted0 by simp
  have "list_all (\<lambda>r. rr_Shadowed r \<longleftrightarrow> rr_Layer r = LayerRepo \<and> recordKeyOf (rr_To r) (rr_Selection r) \<in> rv_Overlay rvn)
      (rs_Rewritten result)"
    unfolding res by (simp add: list_all_iff shadow_def)
  then have "list_all (\<lambda>r. rr_Shadowed r \<longleftrightarrow> rr_Layer r = LayerRepo \<and>
      overlay_at env dk' (recordKeyOf (rr_To r) (rr_Selection r)) \<noteq> None) (rs_Rewritten result)"
    using layers by simp
  then show ?thesis
    using judged rewritten layers [of k] by (simp add: edited_retarget)
qed

subsection \<open>A prune and a retarget\<close>

definition example_prune :: "store_error + (store \<times> disk \<times> prune_result)" where
  "example_prune = PruneDetached example_env [''p.A''] zero_selection False example_store example_disk"

definition example_retarget :: "retarget_failure + (store \<times> disk \<times> retarget_result)" where
  "example_retarget = Retarget example_env (\<lambda>_. []) [''q.A'', ''q.C''] zero_selection ''p.'' ''q.'' False example_store example_disk"

lemma example_verbs: "\<not> isl example_prune" "\<not> isl example_retarget"
  by code_simp+

lemma Inr_parts: "\<not> isl x \<Longrightarrow> x = Inr (fst (projr x), fst (snd (projr x)), snd (snd (projr x)))"
  by (cases x) simp_all

lemma example_prune_run: "PruneDetached example_env [''p.A''] zero_selection False example_store example_disk =
    Inr (fst (projr example_prune), fst (snd (projr example_prune)), snd (snd (projr example_prune)))"
  unfolding example_prune_def [symmetric] by (rule Inr_parts [OF example_verbs(1)])

lemma example_retarget_run: "Retarget example_env (\<lambda>_. []) [''q.A'', ''q.C''] zero_selection ''p.'' ''q.'' False example_store example_disk =
    Inr (fst (projr example_retarget), fst (snd (projr example_retarget)), snd (snd (projr example_retarget)))"
  unfolding example_retarget_def [symmetric] by (rule Inr_parts [OF example_verbs(2)])

lemma example_verbs_facts:
  "filter (prune_keeps [''p.A''] (SelectionKey zero_selection)) (dk_rows example_disk) = []"
  "row_at (map (moved_finding ''p.'' ''q.'') (fst example_load)) ''q.A'' = Some (parked_row\<lparr>f_Symbol := ''q.A''\<rparr>)"
  by code_simp+

theorem prune_removes_exactly_detached_witness: "dk_rows (fst (snd (projr example_prune))) = []"
  using prune_removes_exactly_detached [OF example_ready example_disk_loads example_prune_run, of "[]"]
  unfolding example_verbs_facts(1) by simp

theorem retarget_rewrites_every_record_witness:
  "map_option wire (overlay_at example_env (fst (snd (projr example_retarget))) ''q.A'') = Some (wire (parked_row\<lparr>f_Symbol := ''q.A''\<rparr>))"
  using retarget_rewrites_every_record [OF example_ready example_disk_loads example_retarget_run, of "''q.A''"]
  unfolding example_verbs_facts(2) by simp

lemma example_retargets:
  "retargetFinding ''p.'' ''q.'' parked_row = Inr \<lparr>rd_finding = parked_row\<lparr>f_Symbol := ''q.A''\<rparr>, rd_symbolChanged = True,
     rd_touched = True, rd_moves = []\<rparr>"
  "rewrittenExemptionEntries [\<lparr>x_Subject = ''p.TestA'', x_Reason = ''clause'', x_Rationale = ''ok''\<rparr>] ''p.'' ''q.'' =
     Inr ([\<lparr>x_Subject = ''q.TestA'', x_Reason = ''clause'', x_Rationale = ''ok''\<rparr>],
       [\<lparr>rw_Subject_From = ''p.TestA'', rw_Subject_To = ''q.TestA''\<rparr>])"
  by code_simp+

theorem retarget_finding_frame_witness: "symbol_moved ''p.'' ''q.'' ''p.A'' ''q.A''"
  using retarget_finding_frame [OF example_retargets(1)] by (simp add: parked_row_def zero_finding_def)

theorem rewritten_exemptions_keep_review_witness: "symbol_moved ''p.'' ''q.'' ''p.TestA'' ''q.TestA''"
  using rewritten_exemptions_keep_review [OF example_retargets(2)] by simp

end
