(* ===== verification/Ledger.thy ===== *)
theory Ledger
  imports Store Merge
begin

text \<open>
  A run's document side (\<open>epilogue.go\<close>): the run-start snapshot of dispositions, each finished target's
  incremental commit, the final merge, the sheds a face is told once, and the counts of the epilogue.

  The document is written through the store's own \<open>Update\<close>. The two callbacks are the lists of what they
  received: the sheds told and the records banked. A commit or a final merge whose write fails is its error.
\<close>

subsection \<open>State\<close>

record ledger =
  rl_runID :: string
  rl_wholeTree :: bool
  rl_snapshot :: "string \<Rightarrow> attestation list option"
  rl_overlaid :: "string set"
  rl_postMerge :: "string \<Rightarrow> finding option"
  rl_reported :: "string set"
  rl_commitSheds :: "attestation_shed list"
  rl_routed :: routing
  rl_told :: "attestation_shed list"
  rl_banked :: "(finding \<times> layer) list"

definition NewRunLedger :: "store \<Rightarrow> finding list \<Rightarrow> string \<Rightarrow> bool \<Rightarrow> ledger" where
  "NewRunLedger st prior runID wholeTree =
     \<lparr>rl_runID = runID, rl_wholeTree = wholeTree,
      rl_snapshot = map_last (map (\<lambda>f. (recordKey f, f_Attested f)) prior),
      rl_overlaid = {k \<in> recordKey ` set prior. Overlaid st k},
      rl_postMerge = Map.empty, rl_reported = {}, rl_commitSheds = [], rl_routed = Map.empty, rl_told = [], rl_banked = []\<rparr>"

text \<open>The placement a routing holds for a record, by its key or, without a selection, by its symbol.\<close>

definition placed :: "routing \<Rightarrow> finding \<Rightarrow> placement option" where
  "placed routing f =
     (case routing (recordKey f) of
        Some p \<Rightarrow> Some p
      | None \<Rightarrow> if f_Selection f = [] then routing (f_Symbol f) else None)"

definition ledger_layer :: "store_env \<Rightarrow> store \<Rightarrow> ledger \<Rightarrow> finding \<Rightarrow> layer \<times> string" where
  "ledger_layer env st l f =
     routing_of (in_force env st) (\<lambda>k. if k = recordKey f then placed (rl_routed l) f else None) f"

subsection \<open>Reports\<close>

definition shed_mutant :: "attestation_shed \<Rightarrow> string" where
  "shed_mutant d = mutantKey (sh_Symbol d) (sh_Position d) (sh_Operator d)"

definition con_mutant :: "attestation_contradiction \<Rightarrow> string" where
  "con_mutant c = mutantKey (con_Symbol c) (con_Position c) (con_Operator c)"

definition Contradiction :: "attestation_contradiction \<Rightarrow> ledger \<Rightarrow> ledger" where
  "Contradiction c l = l\<lparr>rl_reported := insert (con_mutant c) (rl_reported l)\<rparr>"

definition deliver :: "attestation_shed \<Rightarrow> ledger \<Rightarrow> ledger" where
  "deliver d l =
     (if shed_mutant d \<in> rl_reported l then l
      else l\<lparr>rl_reported := insert (shed_mutant d) (rl_reported l), rl_told := rl_told l @ [d]\<rparr>)"

definition SiteShed :: "attestation_shed \<Rightarrow> ledger \<Rightarrow> ledger" where
  "SiteShed d l = deliver d (l\<lparr>rl_commitSheds := rl_commitSheds l @ [d]\<rparr>)"

subsection \<open>Commits\<close>

text \<open>The rows a write's callback sees.\<close>

definition current_rows :: "store_env \<Rightarrow> disk \<Rightarrow> finding list" where
  "current_rows env dk =
     (case loadOverlay (sv_home env) (dk_overlay dk) of Inl _ \<Rightarrow> [] | Inr (overlay, _, _) \<Rightarrow> mergeLayers (dk_rows dk) overlay)"

definition note_merged :: "(string \<Rightarrow> bool) \<Rightarrow> finding list \<Rightarrow> (string \<Rightarrow> finding option) \<Rightarrow> string \<Rightarrow> finding option" where
  "note_merged committed merged pm = fold (\<lambda>m pm. if committed (recordKey m) then pm(recordKey m \<mapsto> m) else pm) merged pm"

definition Commit :: "store_env \<Rightarrow> finding \<Rightarrow> ledger \<times> store \<times> disk \<Rightarrow> store_error + (ledger \<times> store \<times> disk)" where
  "Commit env f s =
     (let (l, st, dk) = s; key = recordKey f; merge = (\<lambda>current. MergeFindings current [f] (Some (rl_snapshot l))) in
      case Update env (\<lambda>current. Inr (fst (merge current))) st dk of
        Inl err \<Rightarrow> Inl err
      | Inr (st', dk', routing) \<Rightarrow>
          (let (merged, dropped) = merge (current_rows env dk);
               (layer, _) = routing_of (in_force env st') routing f;
               routed = (case routing key of
                   Some p \<Rightarrow> (rl_routed l)(key \<mapsto> p)
                 | None \<Rightarrow> if f_Selection f = [] then (rl_routed l)(key := routing (f_Symbol f)) else rl_routed l);
               l = l\<lparr>rl_postMerge := note_merged (\<lambda>k. k = key) merged (rl_postMerge l), rl_routed := routed,
                 rl_banked := rl_banked l @ [(f, layer)], rl_commitSheds := rl_commitSheds l @ dropped\<rparr> in
           Inr (fold deliver dropped l, st', dk')))"

definition Rendered :: "ledger \<Rightarrow> finding list \<Rightarrow> finding list" where
  "Rendered l findings = RenderedFindings findings (rl_postMerge l)"

subsection \<open>The final merge\<close>

record run_outcome =
  ro_Rendered :: "finding list"
  ro_ResidueSheds :: "attestation_shed list"
  ro_Promoted :: nat
  ro_Demoted :: nat
  ro_MachineLocal :: nat
  ro_Dropped :: nat
  ro_ExemptionsRekeyed :: "rekeyed_exemption list"

definition no_outcome :: run_outcome where
  "no_outcome = \<lparr>ro_Rendered = [], ro_ResidueSheds = [], ro_Promoted = 0, ro_Demoted = 0, ro_MachineLocal = 0,
     ro_Dropped = 0, ro_ExemptionsRekeyed = []\<rparr>"

definition note_residue :: "attestation_shed \<Rightarrow> ledger \<times> attestation_shed list \<Rightarrow> ledger \<times> attestation_shed list" where
  "note_residue d s =
     (let (l, out) = s in
      if shed_mutant d \<in> rl_reported l then (l, out)
      else (l\<lparr>rl_reported := insert (shed_mutant d) (rl_reported l)\<rparr>, out @ [d]))"

text \<open>Whether a record was in the document at the run's start, and whether it sat in the overlay.\<close>

definition standing :: "ledger \<Rightarrow> finding \<Rightarrow> bool" where
  "standing l m \<longleftrightarrow> rl_snapshot l (recordKey m) \<noteq> None \<or> (f_Selection m = [] \<and> rl_snapshot l (f_Symbol m) \<noteq> None)"

definition overlaid_at_start :: "ledger \<Rightarrow> finding \<Rightarrow> bool" where
  "overlaid_at_start l m \<longleftrightarrow> recordKey m \<in> rl_overlaid l \<or> (f_Selection m = [] \<and> f_Symbol m \<in> rl_overlaid l)"

definition note_move :: "ledger \<Rightarrow> routing \<Rightarrow> finding \<Rightarrow> run_outcome \<Rightarrow> run_outcome" where
  "note_move l routing m oc =
     (case placed routing m of
        None \<Rightarrow> oc
      | Some p \<Rightarrow>
          if overlaid_at_start l m \<and> pl_Layer p = LayerRepo then oc\<lparr>ro_Promoted := ro_Promoted oc + 1\<rparr>
          else if standing l m \<and> \<not> overlaid_at_start l m \<and> pl_Layer p = LayerLocal then oc\<lparr>ro_Demoted := ro_Demoted oc + 1\<rparr>
          else oc)"

definition note_local :: "routing \<Rightarrow> finding \<Rightarrow> run_outcome \<Rightarrow> run_outcome" where
  "note_local routing f oc =
     (if f_Skipped f \<noteq> [] then oc
      else case placed routing f of
        Some p \<Rightarrow> if pl_Layer p = LayerLocal then oc\<lparr>ro_MachineLocal := ro_MachineLocal oc + 1\<rparr> else oc
      | None \<Rightarrow> oc)"

definition final_merge :: "ledger \<Rightarrow> finding list \<Rightarrow> target list \<Rightarrow> selection \<Rightarrow> finding list \<Rightarrow> finding list \<times> attestation_shed list" where
  "final_merge l findings targets sel current =
     (if rl_wholeTree l
      then MergeWholeFindingsForSelection current findings targets (Some (rl_snapshot l)) (SelectionKey sel)
      else MergeFindings current findings (Some (rl_snapshot l)))"

definition Finish :: "store_env \<Rightarrow> finding list \<Rightarrow> target list \<Rightarrow> selection \<Rightarrow> ledger \<times> store \<times> disk \<Rightarrow>
    store_error + (ledger \<times> store \<times> disk \<times> run_outcome)" where
  "Finish env findings targets sel s =
     (let (l, st, dk) = s in
      if targets = [] \<and> \<not> rl_wholeTree l then Inr (l, st, dk, no_outcome)
      else
        (let st = RecordRunBound findings sel (rl_runID l) (rl_wholeTree l) st;
             merge = final_merge l findings targets sel in
         case Update env (\<lambda>current. Inr (fst (merge current))) st dk of
           Inl err \<Rightarrow> Inl err
         | Inr (st', dk', routing) \<Rightarrow>
             (let current = current_rows env dk; (merged, finalSheds) = merge current;
                  l = l\<lparr>rl_postMerge := note_merged (\<lambda>k. rl_postMerge l k \<noteq> None) merged (rl_postMerge l)\<rparr>;
                  rendered = Rendered l findings;
                  oc = no_outcome\<lparr>ro_Dropped := (if rl_wholeTree l then droppedSymbols current merged else 0),
                    ro_Rendered := rendered, ro_ExemptionsRekeyed := sr_rekeyReported st'\<rparr>;
                  (l, residue) = fold note_residue (DedupeAttestationSheds (rl_commitSheds l @ finalSheds)) (l, []);
                  oc = fold (note_local routing) rendered (fold (note_move l routing) merged (oc\<lparr>ro_ResidueSheds := residue\<rparr>)) in
              Inr (l, st', dk', oc))))"

subsection \<open>What the epilogue states\<close>

definition DropText :: "run_outcome \<Rightarrow> string" where
  "DropText oc = (if ro_Dropped oc = 0 then []
     else ''the whole-tree reconcile dropped '' @ itoa (int (ro_Dropped oc)) @ '' record(s) whose targets left the code'')"

definition PromotedText :: "run_outcome \<Rightarrow> string" where
  "PromotedText oc = (if ro_Promoted oc = 0 then []
     else itoa (int (ro_Promoted oc)) @ '' record(s) promoted - findings document changed, commit it'')"

definition DemotedText :: "run_outcome \<Rightarrow> string" where
  "DemotedText oc = (if ro_Demoted oc = 0 then []
     else itoa (int (ro_Demoted oc)) @ '' record(s) demoted to the machine-local overlay - findings document changed, commit it'')"

text \<open>The UTF-8 bytes of the dash the messages use.\<close>

definition em_dash :: string where
  "em_dash = [CHR 0xE2, CHR 0x80, CHR 0x94]"

definition PersistedRiding :: "clause_ops \<Rightarrow> run_outcome \<Rightarrow> string option \<Rightarrow> string option" where
  "PersistedRiding ops oc err =
     (case err of
        None \<Rightarrow> None
      | Some e \<Rightarrow>
          (let parts = filter (\<lambda>line. line \<noteq> []) [DropText oc, PromotedText oc, DemotedText oc, RekeyedExemptionsLine ops (ro_ExemptionsRekeyed oc)] in
           if parts = [] then Some e else Some (e @ '' '' @ em_dash @ '' additionally, '' @ join ''; '' parts @ '' (persisted)'')))"

subsection \<open>Delivery\<close>

lemma deliver_simps [simp]:
  "rl_snapshot (deliver d l) = rl_snapshot l" "rl_wholeTree (deliver d l) = rl_wholeTree l" "rl_runID (deliver d l) = rl_runID l"
  "rl_overlaid (deliver d l) = rl_overlaid l" "rl_postMerge (deliver d l) = rl_postMerge l" "rl_commitSheds (deliver d l) = rl_commitSheds l"
  "rl_banked (deliver d l) = rl_banked l"
  "rl_reported (deliver d l) = insert (shed_mutant d) (rl_reported l)"
  "rl_told (deliver d l) = (if shed_mutant d \<in> rl_reported l then rl_told l else rl_told l @ [d])"
  by (auto simp: deliver_def)

lemma fold_deliver_simps [simp]:
  "rl_snapshot (fold deliver ds l) = rl_snapshot l" "rl_wholeTree (fold deliver ds l) = rl_wholeTree l"
  "rl_overlaid (fold deliver ds l) = rl_overlaid l" "rl_postMerge (fold deliver ds l) = rl_postMerge l"
  "rl_commitSheds (fold deliver ds l) = rl_commitSheds l" "rl_banked (fold deliver ds l) = rl_banked l"
  "rl_reported (fold deliver ds l) = shed_mutant ` set ds \<union> rl_reported l"
  by (induction ds arbitrary: l) auto

text \<open>The reports of a run: each shed was told once, and what was reported was told or contradicted.\<close>

definition told_ok :: "attestation_contradiction list \<Rightarrow> ledger \<Rightarrow> bool" where
  "told_ok cs l \<longleftrightarrow> distinct (map shed_mutant (rl_told l)) \<and>
     rl_reported l = shed_mutant ` set (rl_told l) \<union> con_mutant ` set cs \<and>
     shed_mutant ` set (rl_commitSheds l) \<subseteq> rl_reported l"

lemma deliver_told:
  assumes "distinct (map shed_mutant (rl_told l))" "rl_reported l = shed_mutant ` set (rl_told l) \<union> C"
  shows "distinct (map shed_mutant (rl_told (deliver d l))) \<and> rl_reported (deliver d l) = shed_mutant ` set (rl_told (deliver d l)) \<union> C"
  using assms by (auto simp: insert_absorb)

lemma fold_deliver_told:
  assumes "distinct (map shed_mutant (rl_told l))" "rl_reported l = shed_mutant ` set (rl_told l) \<union> C"
  shows "distinct (map shed_mutant (rl_told (fold deliver ds l))) \<and>
    rl_reported (fold deliver ds l) = shed_mutant ` set (rl_told (fold deliver ds l)) \<union> C"
  using assms
proof (induction ds arbitrary: l)
  case (Cons d ds)
  then show ?case using deliver_told [of l C d] by (metis fold_simps(2))
qed simp

lemma fold_note_residue:
  assumes "fold note_residue ds (l, out) = (l', out')" "distinct (map shed_mutant ds)"
  shows "rl_reported l' = shed_mutant ` set ds \<union> rl_reported l \<and> rl_told l' = rl_told l \<and> rl_postMerge l' = rl_postMerge l \<and>
    rl_snapshot l' = rl_snapshot l \<and> rl_overlaid l' = rl_overlaid l \<and>
    out' = out @ filter (\<lambda>d. shed_mutant d \<notin> rl_reported l) ds"
  using assms
proof (induction ds arbitrary: l out)
  case (Cons d ds)
  show ?case
  proof (cases "shed_mutant d \<in> rl_reported l")
    case True
    then show ?thesis using Cons.IH [of l out] Cons.prems by (auto simp: note_residue_def)
  next
    case False
    let ?l = "l\<lparr>rl_reported := insert (shed_mutant d) (rl_reported l)\<rparr>"
    have "shed_mutant x \<noteq> shed_mutant d" if "x \<in> set ds" for x
      using imageI [OF that, of shed_mutant] Cons.prems(2) by (metis distinct.simps(2) list.set_map list.simps(9))
    then have "filter (\<lambda>x. shed_mutant x \<notin> rl_reported ?l) ds = filter (\<lambda>x. shed_mutant x \<notin> rl_reported l) ds"
      by (intro filter_cong) auto
    then show ?thesis using Cons.IH [of ?l "out @ [d]"] Cons.prems False by (auto simp: note_residue_def)
  qed
qed simp

lemma fold_note_residue_sheds:
  assumes "fold note_residue ds (l, out) = (l', out')"
  shows "rl_commitSheds l' = rl_commitSheds l"
proof -
  have "rl_commitSheds (fst (note_residue d s)) = rl_commitSheds (fst s)" for d s
    by (cases s) (simp add: note_residue_def)
  then have "rl_commitSheds (fst (fold note_residue ds s)) = rl_commitSheds (fst s)" for s
    by (induction ds arbitrary: s) auto
  then show ?thesis using assms by (metis fst_conv)
qed

subsection \<open>What a merging write leaves\<close>

lemma wire_attested [simp]: "f_Attested (wire f) = f_Attested f"
  by (simp add: wire_def)

lemma merge_one_unskipped:
  assumes "list_all (\<lambda>p. f_Skipped (snd p) = []) (fst acc)"
  shows "list_all (\<lambda>p. f_Skipped (snd p) = []) (fst (merge_one snapshot f acc))"
proof (cases rule: merge_one_cases [of f snapshot acc])
  case skipped
  then show ?thesis using assms by simp
next
  case new
  then show ?thesis using assms set_update [of "recordKey f" f "fst acc"] by (auto simp: list_all_iff)
next
  case (replaced r att wd dropped)
  let ?g = "f\<lparr>f_Attested := att, f_Withdrawn := wd\<rparr>"
  have "f_Skipped ?g = []" using replaced(1) by simp
  then show ?thesis
    using assms set_update [of "recordKey f" ?g "fst acc"] by (auto simp: list_all_iff replaced(4))
qed

lemma fold_merge_unskipped:
  "list_all (\<lambda>p. f_Skipped (snd p) = []) (fst acc) \<Longrightarrow>
    list_all (\<lambda>p. f_Skipped (snd p) = []) (fst (fold (merge_one snapshot) fs acc))"
  by (induction fs arbitrary: acc) (simp_all add: merge_one_unskipped)

lemma merge_unskipped:
  assumes "\<And>f. f \<in> set prior \<Longrightarrow> f_Skipped f = []" "g \<in> set (fst (MergeFindings prior fresh snapshot))"
  shows "f_Skipped g = []"
proof -
  obtain merged sheds where m: "MergeFindings prior fresh snapshot = (merged, sheds)" by fastforce
  have "list_all (\<lambda>p. f_Skipped (snd p) = []) (map_keyed recordKey prior)"
    using assms(1) map_keyed_consistent by (fastforce simp: list_all_iff)
  then have "list_all (\<lambda>p. f_Skipped (snd p) = []) (fst (merge_rows prior fresh snapshot))"
    unfolding merge_rows_def by (intro fold_merge_unskipped) simp
  then have rows: "f_Skipped f = []" if "f \<in> set (map snd (fst (merge_rows prior fresh snapshot)))" for f
    using that by (auto simp: list_all_iff)
  have "g \<in> set (AnnotateSelectionVerdicts (map snd (fst (merge_rows prior fresh snapshot))))"
    using assms(2) m MergeFindings_rows(1) [OF m] by simp
  then obtain f where f: "f \<in> set (map snd (fst (merge_rows prior fresh snapshot)))" "unadvised g = unadvised f"
    using Annotate_mem_conv by blast
  show ?thesis using arg_cong [OF f(2), of f_Skipped] rows [OF f(1)] by simp
qed

text \<open>The run's final merge, whichever of the two it is.\<close>

definition kept_by :: "ledger \<Rightarrow> target list \<Rightarrow> selection \<Rightarrow> finding \<Rightarrow> bool" where
  "kept_by l targets sel f \<longleftrightarrow> \<not> rl_wholeTree l \<or> f_Selection f \<noteq> SelectionKey sel \<or>
     f_Symbol f \<in> t_Symbol ` set targets \<or> f_Shape f \<noteq> None"

lemma kept_by_unadvised: "unadvised f = unadvised g \<Longrightarrow> kept_by l targets sel f = kept_by l targets sel g"
proof -
  assume eq: "unadvised f = unadvised g"
  have "f_Shape (unadvised h) = f_Shape h" for h by (simp add: unadvised_def)
  then have "f_Shape f = f_Shape g" "f_Selection f = f_Selection g" "f_Symbol f = f_Symbol g"
    using arg_cong [OF eq, of f_Shape] arg_cong [OF eq, of f_Selection] arg_cong [OF eq, of f_Symbol] by simp_all
  then show ?thesis by (simp add: kept_by_def)
qed

lemma final_merge_rows:
  assumes "MergeFindings current findings (Some (rl_snapshot l)) = (merged, sheds)"
  obtains rows where "final_merge l findings targets sel current = (rows, sheds)"
    "map recordKey rows = map recordKey (filter (kept_by l targets sel) merged)"
    "\<And>g. g \<in> set rows \<Longrightarrow> \<exists>f \<in> set merged. kept_by l targets sel f \<and> unadvised g = unadvised f"
    "\<And>f. f \<in> set merged \<Longrightarrow> kept_by l targets sel f \<Longrightarrow> \<exists>g \<in> set rows. unadvised g = unadvised f"
proof (cases "rl_wholeTree l")
  case True
  let ?rows = "AnnotateSelectionVerdicts (filter (kept_by l targets sel) merged)"
  have "(\<lambda>f. f_Selection f \<noteq> SelectionKey sel \<or> f_Symbol f \<in> t_Symbol ` set targets \<or> f_Shape f \<noteq> None) = kept_by l targets sel"
    using True by (auto simp: kept_by_def fun_eq_iff)
  then have "final_merge l findings targets sel current = (?rows, sheds)"
    using True assms by (simp add: final_merge_def MergeWholeFindingsForSelection_def)
  moreover have "\<exists>f \<in> set merged. kept_by l targets sel f \<and> unadvised g = unadvised f" if "g \<in> set ?rows" for g
    using Annotate_mem_conv [OF that] by auto
  moreover have "\<exists>g \<in> set ?rows. unadvised g = unadvised f" if "f \<in> set merged" "kept_by l targets sel f" for f
    using Annotate_mem [of f "filter (kept_by l targets sel) merged"] that by simp
  ultimately show thesis by (intro that [of ?rows]) simp_all
next
  case False
  then have "kept_by l targets sel f" for f by (simp add: kept_by_def)
  then show thesis using False assms by (intro that [of merged]) (auto simp: final_merge_def)
qed

text \<open>A write whose callback merges: the document is the merged rows, and each sits where the routing says.\<close>

lemma merging_write:
  assumes ready: "store_ready env st dk" and parsed: "parsed_disk dk"
    and run: "Update env (\<lambda>current. Inr (fst (M current))) st dk = Inr (st', dk', routing)"
    and keys: "distinct (map recordKey (fst (M (current_rows env dk))))"
    and measured: "\<And>f. f \<in> set (fst (M (current_rows env dk))) \<Longrightarrow> f_Skipped f = []"
  defines "rows \<equiv> fst (M (current_rows env dk))"
  shows "store_ready env st' dk'" "parsed_disk dk'"
    "map_option wire (document env dk' k) = map_option wire (row_at rows k)"
    "f \<in> set rows \<Longrightarrow> \<exists>rs. routing (recordKey f) =
      Some \<lparr>pl_Layer = (if overlay_at env dk' (recordKey f) = None then LayerRepo else LayerLocal), pl_Reasons = rs\<rparr>"
    "k \<notin> recordKey ` set rows \<Longrightarrow> routing k = None"
proof -
  obtain overlay rd dir where load: "loadOverlay (sv_home env) (dk_overlay dk) = Inr (overlay, rd, dir)"
    using run by (auto simp: Update_def Let_def split: sum.splits)
  have nx: "(\<lambda>current. Inr (fst (M current))) (mergeLayers (dk_rows dk) overlay) = Inr rows"
    using load by (simp add: rows_def current_rows_def)
  have d: "distinct (map recordKey rows)" using keys by (simp add: rows_def)
  show "store_ready env st' dk'" using update_ready [OF ready run load nx d] by simp
  show "parsed_disk dk'" by (rule update_parsed [OF ready run load nx d parsed])
  show "map_option wire (document env dk' k) = map_option wire (row_at rows k)"
    by (rule update_document [OF ready run load nx d]) (use measured in \<open>simp add: rows_def\<close>)
  show "\<exists>rs. routing (recordKey f) =
      Some \<lparr>pl_Layer = (if overlay_at env dk' (recordKey f) = None then LayerRepo else LayerLocal), pl_Reasons = rs\<rparr>" if "f \<in> set rows"
  proof -
    have "f_Skipped f = []" using measured that by (simp add: rows_def)
    from update_placed [OF ready run load nx d that this refl] show ?thesis
      by (auto split: if_splits)
  qed
  show "routing k = None" if "k \<notin> recordKey ` set rows"
    using update_rest [OF ready run load nx d, of k] that by (auto simp: list_all_iff)
qed

lemma current_rows_ok:
  assumes "store_ready env st dk" "Update env update st dk = Inr res"
  shows "distinct (map recordKey (current_rows env dk))" "row_at (current_rows env dk) k = document env dk k"
    "parsed_disk dk \<Longrightarrow> f \<in> set (current_rows env dk) \<Longrightarrow> f_Skipped f = []"
proof -
  obtain overlay rd dir where load: "loadOverlay (sv_home env) (dk_overlay dk) = Inr (overlay, rd, dir)"
    using assms(2) by (auto simp: Update_def Let_def split: sum.splits)
  have rows: "current_rows env dk = mergeLayers (dk_rows dk) overlay" using load by (simp add: current_rows_def)
  show "distinct (map recordKey (current_rows env dk))" "row_at (current_rows env dk) k = document env dk k"
    unfolding rows using merged_view [OF assms(1) load] by simp_all
  show "parsed_disk dk \<Longrightarrow> f \<in> set (current_rows env dk) \<Longrightarrow> f_Skipped f = []"
    unfolding rows by (rule merged_unskipped [OF assms(1) load])
qed

subsection \<open>A run\<close>

text \<open>A run is the reports and commits of its targets in any order; the contradictions it emitted are kept.\<close>

inductive run_reaches :: "store_env \<Rightarrow> ledger \<times> store \<times> disk \<Rightarrow> attestation_contradiction list \<Rightarrow> ledger \<times> store \<times> disk \<Rightarrow> bool"
  for env s0 where
  opened: "run_reaches env s0 [] s0"
| contradicted: "run_reaches env s0 cs (l, st, dk) \<Longrightarrow> run_reaches env s0 (c # cs) (Contradiction c l, st, dk)"
| site_shed: "run_reaches env s0 cs (l, st, dk) \<Longrightarrow> run_reaches env s0 cs (SiteShed d l, st, dk)"
| committed: "run_reaches env s0 cs s \<Longrightarrow> Commit env f s = Inr s' \<Longrightarrow> run_reaches env s0 cs s'"

inductive_cases run_reachesE: "run_reaches env s0 cs s"

lemma commit_run:
  assumes "Commit env f (l, st, dk) = Inr (l', st', dk')"
  obtains routing merged dropped l1 where
    "Update env (\<lambda>current. Inr (fst (MergeFindings current [f] (Some (rl_snapshot l))))) st dk = Inr (st', dk', routing)"
    "MergeFindings (current_rows env dk) [f] (Some (rl_snapshot l)) = (merged, dropped)"
    "l' = fold deliver dropped l1" "rl_commitSheds l1 = rl_commitSheds l @ dropped" "rl_reported l1 = rl_reported l" "rl_told l1 = rl_told l"
    "rl_snapshot l1 = rl_snapshot l" "rl_wholeTree l1 = rl_wholeTree l" "rl_overlaid l1 = rl_overlaid l"
    "rl_postMerge l1 = note_merged (\<lambda>k. k = recordKey f) merged (rl_postMerge l)"
  using assms unfolding Commit_def Let_def by (auto split: sum.splits prod.splits)

text \<open>A disposition is in the document, or its mutant was reported.\<close>

definition disposed :: "store_env \<Rightarrow> string \<Rightarrow> survivor_key \<Rightarrow> string set \<Rightarrow> disk \<Rightarrow> bool" where
  "disposed env K k reported dk \<longleftrightarrow> (\<exists>g. document env dk K = Some g \<and> k \<in> a_key ` set (f_Attested g)) \<or>
     (\<exists>f. recordKey f = K \<and> mutantKey (f_Symbol f) (fst k) (snd k) \<in> reported)"

lemma disposed_merge:
  assumes ready: "store_ready env st dk" and run: "Update env update st dk = Inr res"
    and merge: "MergeFindings (current_rows env dk) fs snapshot = (merged, sheds)"
    and held: "disposed env K k reported dk"
  shows "(\<exists>g \<in> set merged. recordKey g = K \<and> k \<in> a_key ` set (f_Attested g)) \<or>
    (\<exists>f. recordKey f = K \<and> mutantKey (f_Symbol f) (fst k) (snd k) \<in> shed_mutant ` set sheds \<union> reported)"
proof -
  note cur = current_rows_ok [OF ready run]
  have "(\<exists>f. recordKey f = K \<and> mutantKey (f_Symbol f) (fst k) (snd k) \<in> shed_mutant ` set sheds)" 
    if d: "d \<in> set sheds" "sh_key d = k" "recordKey f = K" "sh_Symbol d = f_Symbol f" for d f
  proof -
    have "shed_mutant d = mutantKey (f_Symbol f) (fst k) (snd k)" using d(2,4) by (auto simp: shed_mutant_def sh_key_def)
    then show ?thesis using d(1,3) by (metis image_eqI)
  qed
  moreover have "(\<exists>d \<in> set sheds. sh_key d = k \<and> (\<exists>f. recordKey f = K \<and> sh_Symbol d = f_Symbol f)) \<or>
      (\<exists>g \<in> set merged. recordKey g = K \<and> k \<in> a_key ` set (f_Attested g))"
    if "document env dk K = Some p" "a \<in> set (f_Attested p)" "a_key a = k" for p a
  proof -
    have "p \<in> set (current_rows env dk)" "recordKey p = K"
      using row_at_Some [OF cur(1), of K p] cur(2) [of K] that(1) by simp_all
    then show ?thesis using merge_accounts [OF merge cur(1) _ that(2)] that(3) by simp
  qed
  ultimately show ?thesis using held unfolding disposed_def by blast
qed

lemma commit_step:
  assumes ready: "store_ready env st dk" and parsed: "parsed_disk dk" and run: "Commit env f (l, st, dk) = Inr (l', st', dk')"
  shows "store_ready env st' dk'" "parsed_disk dk'" "disposed env K k (rl_reported l) dk \<Longrightarrow> disposed env K k (rl_reported l') dk'"
    "told_ok cs l \<Longrightarrow> told_ok cs l'" "rl_snapshot l' = rl_snapshot l" "rl_wholeTree l' = rl_wholeTree l" "rl_overlaid l' = rl_overlaid l"
proof -
  obtain routing merged dropped l1 where c:
    "Update env (\<lambda>current. Inr (fst (MergeFindings current [f] (Some (rl_snapshot l))))) st dk = Inr (st', dk', routing)"
    "MergeFindings (current_rows env dk) [f] (Some (rl_snapshot l)) = (merged, dropped)"
    "l' = fold deliver dropped l1" "rl_commitSheds l1 = rl_commitSheds l @ dropped" "rl_reported l1 = rl_reported l" "rl_told l1 = rl_told l"
    "rl_snapshot l1 = rl_snapshot l" "rl_wholeTree l1 = rl_wholeTree l" "rl_overlaid l1 = rl_overlaid l"
    by (rule commit_run [OF run])
  note cur = current_rows_ok [OF ready c(1)]
  have keys: "distinct (map recordKey merged)" using merge_keys [OF c(2)] by simp
  have measured: "f_Skipped g = []" if "g \<in> set merged" for g
    using merge_unskipped [where prior = "current_rows env dk" and fresh = "[f]" and snapshot = "Some (rl_snapshot l)" and g = g]
      cur(3) [OF parsed] that c(2) by simp
  have w: "store_ready env st' dk'" "parsed_disk dk'" "map_option wire (document env dk' j) = map_option wire (row_at merged j)" for j
    using merging_write [OF ready parsed c(1)] keys measured c(2) by simp_all
  then show "store_ready env st' dk'" "parsed_disk dk'" by simp_all
  show "rl_snapshot l' = rl_snapshot l" "rl_wholeTree l' = rl_wholeTree l" "rl_overlaid l' = rl_overlaid l"
    using c(3,7-9) by simp_all
  show "disposed env K k (rl_reported l') dk'" if "disposed env K k (rl_reported l) dk"
  proof -
    have reported: "rl_reported l' = shed_mutant ` set dropped \<union> rl_reported l" using c(3,5) by simp
    from disposed_merge [OF ready c(1,2) that]
    consider g where "g \<in> set merged" "recordKey g = K" "k \<in> a_key ` set (f_Attested g)"
      | "\<exists>f. recordKey f = K \<and> mutantKey (f_Symbol f) (fst k) (snd k) \<in> rl_reported l'"
      unfolding reported by blast
    then show ?thesis
    proof cases
      case 1
      then have "row_at merged K = Some g" using row_at_Some [OF keys] by simp
      then obtain h where "document env dk' K = Some h" "wire h = wire g" using w(3) [of K] by auto
      then show ?thesis using 1(3) wire_attested [of h] wire_attested [of g] unfolding disposed_def by metis
    qed (auto simp: disposed_def)
  qed
  show "told_ok cs l'" if "told_ok cs l"
  proof -
    have "distinct (map shed_mutant (rl_told l1)) \<and> rl_reported l1 = shed_mutant ` set (rl_told l1) \<union> con_mutant ` set cs"
      using that c(5,6) by (simp add: told_ok_def)
    then have "distinct (map shed_mutant (rl_told l')) \<and> rl_reported l' = shed_mutant ` set (rl_told l') \<union> con_mutant ` set cs"
      unfolding c(3) by (intro fold_deliver_told) simp_all
    moreover have "shed_mutant ` set (rl_commitSheds l') \<subseteq> rl_reported l'"
      using that c(3-5) by (auto simp: told_ok_def)
    ultimately show ?thesis by (simp add: told_ok_def)
  qed
qed

lemma disposed_mono: "disposed env K k R dk \<Longrightarrow> R \<subseteq> R' \<Longrightarrow> disposed env K k R' dk"
  unfolding disposed_def by blast

text \<open>What holds in every state a run reaches from a ledger just opened over a ready store.\<close>

definition run_ok :: "store_env \<Rightarrow> ledger \<times> store \<times> disk \<Rightarrow> attestation_contradiction list \<Rightarrow> ledger \<times> store \<times> disk \<Rightarrow> bool" where
  "run_ok env s0 cs s \<longleftrightarrow>
     (let (l0, st0, dk0) = s0; (l, st, dk) = s in
      store_ready env st dk \<and> parsed_disk dk \<and> told_ok cs l \<and>
      rl_snapshot l = rl_snapshot l0 \<and> rl_wholeTree l = rl_wholeTree l0 \<and> rl_overlaid l = rl_overlaid l0 \<and>
      (\<forall>K k. disposed env K k {} dk0 \<longrightarrow> disposed env K k (rl_reported l) dk))"

lemma run_reaches_ok:
  assumes "run_reaches env (l0, st0, dk0) cs s" "store_ready env st0 dk0" "parsed_disk dk0" "told_ok [] l0" "rl_reported l0 = {}"
  shows "run_ok env (l0, st0, dk0) cs s"
  using assms(1)
proof induction
  case opened
  show ?case using assms(2-5) by (simp add: run_ok_def)
next
  case (contradicted cs l st dk c)
  have "told_ok (c # cs) (Contradiction c l)"
    using contradicted.IH by (auto simp: run_ok_def told_ok_def Contradiction_def)
  moreover have "disposed env K k (rl_reported (Contradiction c l)) dk" if "disposed env K k {} dk0" for K k
  proof (rule disposed_mono)
    show "disposed env K k (rl_reported l) dk" using contradicted.IH that unfolding run_ok_def Let_def prod.case by blast
  qed (auto simp: Contradiction_def)
  ultimately show ?case
    using contradicted.IH by (simp add: run_ok_def) (simp add: Contradiction_def)
next
  case (site_shed cs l st dk d)
  let ?l = "l\<lparr>rl_commitSheds := rl_commitSheds l @ [d]\<rparr>"
  have l: "distinct (map shed_mutant (rl_told ?l)) \<and> rl_reported ?l = shed_mutant ` set (rl_told ?l) \<union> con_mutant ` set cs"
    using site_shed.IH by (simp add: run_ok_def told_ok_def)
  then have "distinct (map shed_mutant (rl_told (SiteShed d l))) \<and>
      rl_reported (SiteShed d l) = shed_mutant ` set (rl_told (SiteShed d l)) \<union> con_mutant ` set cs"
    unfolding SiteShed_def by (intro deliver_told) simp_all
  moreover have "shed_mutant ` set (rl_commitSheds (SiteShed d l)) \<subseteq> rl_reported (SiteShed d l)"
    using site_shed.IH by (auto simp: SiteShed_def run_ok_def told_ok_def)
  moreover have "disposed env K k (rl_reported (SiteShed d l)) dk" if "disposed env K k {} dk0" for K k
  proof (rule disposed_mono)
    show "disposed env K k (rl_reported l) dk" using site_shed.IH that unfolding run_ok_def Let_def prod.case by blast
  qed (auto simp: SiteShed_def)
  moreover have "rl_snapshot (SiteShed d l) = rl_snapshot l" "rl_wholeTree (SiteShed d l) = rl_wholeTree l" "rl_overlaid (SiteShed d l) = rl_overlaid l"
    by (simp_all add: SiteShed_def)
  ultimately show ?case
    using site_shed.IH by (simp add: run_ok_def told_ok_def)
next
  case (committed cs s f s')
  obtain l st dk l' st' dk' where s: "s = (l, st, dk)" "s' = (l', st', dk')" by (metis surj_pair)
  have ok: "store_ready env st dk" "parsed_disk dk" using committed.IH by (simp_all add: run_ok_def s)
  note step = commit_step [OF ok committed.hyps(2) [unfolded s]]
  show ?case
    using committed.IH step(1,2,4-7) step(3) by (simp add: run_ok_def s)
qed

lemma opened_told: "told_ok [] (NewRunLedger st prior runID wholeTree)" "rl_reported (NewRunLedger st prior runID wholeTree) = {}"
  by (simp_all add: NewRunLedger_def told_ok_def)

text \<open>The post-merge rows: each is filed under its own key, and a committed record has one.\<close>

definition post_ok :: "ledger \<Rightarrow> bool" where
  "post_ok l \<longleftrightarrow> (\<forall>k m. rl_postMerge l k = Some m \<longrightarrow> recordKey m = k) \<and>
     (\<forall>p \<in> set (rl_banked l). f_Skipped (fst p) = [] \<longrightarrow> rl_postMerge l (recordKey (fst p)) \<noteq> None)"

lemma note_merged_at:
  "note_merged committed rows pm k = (if committed k then (case map_last (map (\<lambda>m. (recordKey m, m)) rows) k of Some m \<Rightarrow> Some m | None \<Rightarrow> pm k) else pm k)"
proof (induction rows arbitrary: pm)
  case (Cons m rows)
  have "map_last ((recordKey m, m) # xs) k = (case map_last xs k of Some v \<Rightarrow> Some v | None \<Rightarrow> if k = recordKey m then Some m else None)" for xs
  proof -
    have "map_last [(recordKey m, m)] k = (if k = recordKey m then Some m else None)" by (simp add: map_last_def)
    then show ?thesis using map_last_append [of "[(recordKey m, m)]" xs k] by (simp cong: option.case_cong)
  qed
  then show ?case
    using Cons.IH [of "if committed (recordKey m) then pm(recordKey m \<mapsto> m) else pm"]
    by (auto simp: note_merged_def split: option.splits)
qed (simp add: note_merged_def map_last_def)

lemma note_merged_row:
  assumes "distinct (map recordKey rows)"
  shows "note_merged committed rows pm k = (if committed k \<and> row_at rows k \<noteq> None then row_at rows k else pm k)"
  unfolding note_merged_at map_last_rows [OF assms] by (simp split: option.split)

lemma commit_post:
  assumes "Commit env f (l, st, dk) = Inr (l', st', dk')" "post_ok l"
  shows "post_ok l'"
proof -
  let ?merge = "MergeFindings (current_rows env dk) [f] (Some (rl_snapshot l))"
  obtain merged dropped where merge: "?merge = (merged, dropped)" by fastforce
  have l': "rl_postMerge l' = note_merged (\<lambda>k. k = recordKey f) merged (rl_postMerge l)" "fst ` set (rl_banked l') = insert f (fst ` set (rl_banked l))"
    using assms(1) merge unfolding Commit_def Let_def by (auto split: sum.splits prod.splits)
  have keys: "distinct (map recordKey merged)" "f_Skipped f = [] \<Longrightarrow> recordKey f \<in> recordKey ` set merged"
    using merge_keys [OF merge] by auto
  have "rl_postMerge l' (recordKey f) \<noteq> None" if "f_Skipped f = []"
    using keys(2) [OF that] row_at_None [of merged "recordKey f"] unfolding l' note_merged_row [OF keys(1)] by simp
  moreover have "rl_postMerge l k \<noteq> None \<Longrightarrow> rl_postMerge l' k \<noteq> None" for k
    unfolding l' note_merged_row [OF keys(1)] by auto
  moreover have "recordKey m = k" if "rl_postMerge l' k = Some m" for k m
    using that assms(2) row_at_Some [OF keys(1), of k m] unfolding l' note_merged_row [OF keys(1)]
    by (auto simp: post_ok_def split: if_splits)
  moreover have "f_Skipped g = [] \<Longrightarrow> rl_postMerge l (recordKey g) \<noteq> None" if "g \<in> fst ` set (rl_banked l)" for g
    using assms(2) that by (auto simp: post_ok_def)
  ultimately have "\<forall>g \<in> fst ` set (rl_banked l'). f_Skipped g = [] \<longrightarrow> rl_postMerge l' (recordKey g) \<noteq> None" unfolding l'(2) by blast
  then show ?thesis using \<open>\<And>k m. rl_postMerge l' k = Some m \<Longrightarrow> recordKey m = k\<close> by (simp add: post_ok_def)
qed

lemma run_reaches_post:
  assumes "run_reaches env (l0, st0, dk0) cs s" "post_ok l0"
  shows "post_ok (fst s)"
  using assms(1)
proof induction
  case (committed cs s f s')
  obtain l st dk l' st' dk' where s: "s = (l, st, dk)" "s' = (l', st', dk')" by (metis surj_pair)
  show ?case using commit_post [OF committed.hyps(2) [unfolded s]] committed.IH by (simp add: s)
qed (use assms(2) in \<open>simp_all add: post_ok_def Contradiction_def SiteShed_def\<close>)

lemma opened_post: "post_ok (NewRunLedger st prior runID wholeTree)"
  by (simp add: post_ok_def NewRunLedger_def)

subsection \<open>The end of a run\<close>

lemma RecordRunBound_ready: "store_ready env st dk \<Longrightarrow> store_ready env (RecordRunBound fs sel runID wholeTree st) dk"
  by (simp add: store_ready_def memo_ok_def RecordRunBound_def RecordCoverageBound_def in_force_def split: option.split)

definition promoted :: "ledger \<Rightarrow> routing \<Rightarrow> finding \<Rightarrow> bool" where
  "promoted l routing m \<longleftrightarrow> overlaid_at_start l m \<and> map_option pl_Layer (placed routing m) = Some LayerRepo"

definition demoted :: "ledger \<Rightarrow> routing \<Rightarrow> finding \<Rightarrow> bool" where
  "demoted l routing m \<longleftrightarrow> standing l m \<and> \<not> overlaid_at_start l m \<and> map_option pl_Layer (placed routing m) = Some LayerLocal"

definition local_row :: "routing \<Rightarrow> finding \<Rightarrow> bool" where
  "local_row routing f \<longleftrightarrow> f_Skipped f = [] \<and> map_option pl_Layer (placed routing f) = Some LayerLocal"

lemma note_move_simps:
  "ro_Promoted (note_move l r m oc) = (if promoted l r m then 1 else 0) + ro_Promoted oc"
  "ro_Demoted (note_move l r m oc) = (if demoted l r m then 1 else 0) + ro_Demoted oc"
  "ro_MachineLocal (note_move l r m oc) = ro_MachineLocal oc" "ro_Rendered (note_move l r m oc) = ro_Rendered oc"
  "ro_ResidueSheds (note_move l r m oc) = ro_ResidueSheds oc" "ro_Dropped (note_move l r m oc) = ro_Dropped oc"
  by (auto simp: note_move_def promoted_def demoted_def split: option.split)

lemma note_local_simps:
  "ro_MachineLocal (note_local r f oc) = (if local_row r f then 1 else 0) + ro_MachineLocal oc"
  "ro_Promoted (note_local r f oc) = ro_Promoted oc" "ro_Demoted (note_local r f oc) = ro_Demoted oc"
  "ro_Rendered (note_local r f oc) = ro_Rendered oc" "ro_ResidueSheds (note_local r f oc) = ro_ResidueSheds oc"
  "ro_Dropped (note_local r f oc) = ro_Dropped oc"
  by (auto simp: note_local_def local_row_def split: option.split)

lemma fold_note_move:
  "ro_Promoted (fold (note_move l r) ms oc) = length (filter (promoted l r) ms) + ro_Promoted oc"
  "ro_Demoted (fold (note_move l r) ms oc) = length (filter (demoted l r) ms) + ro_Demoted oc"
  "ro_MachineLocal (fold (note_move l r) ms oc) = ro_MachineLocal oc" "ro_Rendered (fold (note_move l r) ms oc) = ro_Rendered oc"
  "ro_ResidueSheds (fold (note_move l r) ms oc) = ro_ResidueSheds oc" "ro_Dropped (fold (note_move l r) ms oc) = ro_Dropped oc"
  by (induction ms arbitrary: oc) (simp_all add: note_move_simps)

lemma fold_note_local:
  "ro_MachineLocal (fold (note_local r) fs oc) = length (filter (local_row r) fs) + ro_MachineLocal oc"
  "ro_Promoted (fold (note_local r) fs oc) = ro_Promoted oc" "ro_Demoted (fold (note_local r) fs oc) = ro_Demoted oc"
  "ro_Rendered (fold (note_local r) fs oc) = ro_Rendered oc" "ro_ResidueSheds (fold (note_local r) fs oc) = ro_ResidueSheds oc"
  "ro_Dropped (fold (note_local r) fs oc) = ro_Dropped oc"
  by (induction fs arbitrary: oc) (simp_all add: note_local_simps)

lemma finish_run:
  assumes "Finish env findings targets sel (l, st, dk) = Inr (l', st', dk', oc)" "targets \<noteq> [] \<or> rl_wholeTree l"
  obtains routing rows sheds l1 where
    "Update env (\<lambda>current. Inr (fst (final_merge l findings targets sel current)))
      (RecordRunBound findings sel (rl_runID l) (rl_wholeTree l) st) dk = Inr (st', dk', routing)"
    "final_merge l findings targets sel (current_rows env dk) = (rows, sheds)"
    "l1 = l\<lparr>rl_postMerge := note_merged (\<lambda>k. rl_postMerge l k \<noteq> None) rows (rl_postMerge l)\<rparr>"
    "fold note_residue (DedupeAttestationSheds (rl_commitSheds l @ sheds)) (l1, []) = (l', ro_ResidueSheds oc)"
    "ro_Rendered oc = Rendered l1 findings"
    "ro_Dropped oc = (if rl_wholeTree l then droppedSymbols (current_rows env dk) rows else 0)"
    "ro_Promoted oc = length (filter (promoted l' routing) rows)" "ro_Demoted oc = length (filter (demoted l' routing) rows)"
    "ro_MachineLocal oc = length (filter (local_row routing) (Rendered l1 findings))"
proof -
  let ?st = "RecordRunBound findings sel (rl_runID l) (rl_wholeTree l) st" and ?merge = "final_merge l findings targets sel"
  obtain rows sheds where m: "?merge (current_rows env dk) = (rows, sheds)" by fastforce
  let ?l1 = "l\<lparr>rl_postMerge := note_merged (\<lambda>k. rl_postMerge l k \<noteq> None) rows (rl_postMerge l)\<rparr>"
  obtain l2 residue where residue: "fold note_residue (DedupeAttestationSheds (rl_commitSheds l @ sheds)) (?l1, []) = (l2, residue)"
    by fastforce
  obtain routing where u: "Update env (\<lambda>current. Inr (fst (?merge current))) ?st dk = Inr (st', dk', routing)"
    using assms unfolding Finish_def Let_def by (auto split: sum.splits prod.splits if_splits)
  have oc: "oc = fold (note_local routing) (Rendered ?l1 findings) (fold (note_move l2 routing) rows
      (no_outcome\<lparr>ro_Dropped := (if rl_wholeTree l then droppedSymbols (current_rows env dk) rows else 0),
         ro_Rendered := Rendered ?l1 findings, ro_ExemptionsRekeyed := sr_rekeyReported st', ro_ResidueSheds := residue\<rparr>))"
    and l': "l' = l2"
    using assms m u residue unfolding Finish_def Let_def by auto
  show thesis
    by (rule that [OF u m refl residue [folded l', THEN HOL.trans]]) (simp_all add: oc l' fold_note_local fold_note_move no_outcome_def)
qed

lemma finish_write:
  assumes ready: "store_ready env st dk" and parsed: "parsed_disk dk"
    and u: "Update env (\<lambda>current. Inr (fst (final_merge l findings targets sel current)))
      (RecordRunBound findings sel (rl_runID l) (rl_wholeTree l) st) dk = Inr (st', dk', routing)"
    and m: "final_merge l findings targets sel (current_rows env dk) = (rows, sheds)"
  shows "distinct (map recordKey rows)" "map_option wire (document env dk' k) = map_option wire (row_at rows k)"
    "f \<in> set rows \<Longrightarrow> map_option pl_Layer (routing (recordKey f)) =
      Some (if overlay_at env dk' (recordKey f) = None then LayerRepo else LayerLocal)"
    "k \<notin> recordKey ` set rows \<Longrightarrow> routing k = None"
    "disposed env K k' R dk \<Longrightarrow> disposed env K k' (shed_mutant ` set sheds \<union> R) dk' \<or>
      rl_wholeTree l \<and> document env dk' K = None \<and> 0 < droppedSymbols (current_rows env dk) rows"
    "\<not> rl_wholeTree l \<Longrightarrow> h \<in> set findings \<Longrightarrow> f_Skipped h = [] \<Longrightarrow> recordKey h \<in> recordKey ` set rows"
proof -
  obtain merged sheds' where merge: "MergeFindings (current_rows env dk) findings (Some (rl_snapshot l)) = (merged, sheds')" by fastforce
  obtain rows' where r: "final_merge l findings targets sel (current_rows env dk) = (rows', sheds')"
    "map recordKey rows' = map recordKey (filter (kept_by l targets sel) merged)"
    "\<And>g. g \<in> set rows' \<Longrightarrow> \<exists>f \<in> set merged. kept_by l targets sel f \<and> unadvised g = unadvised f"
    "\<And>f. f \<in> set merged \<Longrightarrow> kept_by l targets sel f \<Longrightarrow> \<exists>g \<in> set rows'. unadvised g = unadvised f"
    by (rule final_merge_rows [OF merge, where targets = targets and sel = sel]) blast
  have eq: "rows' = rows" "sheds' = sheds" using r(1) m by simp_all
  note r = r(2-4) [unfolded eq] and merge = merge [unfolded eq]
  note ready' = RecordRunBound_ready [OF ready] and cur = current_rows_ok [OF RecordRunBound_ready [OF ready] u]
  have mk: "distinct (map recordKey merged)" using merge_keys [OF merge] by simp
  then show keys: "distinct (map recordKey rows)" unfolding r(1) by (auto simp: distinct_map inj_on_def)
  have measured: "f_Skipped g = []" if g: "g \<in> set rows" for g
  proof -
    obtain f where f: "f \<in> set merged" "unadvised g = unadvised f" using r(2) [OF g] by blast
    have "f_Skipped f = []"
      using merge_unskipped [where prior = "current_rows env dk" and fresh = findings and snapshot = "Some (rl_snapshot l)" and g = f]
        cur(3) [OF parsed] f(1) merge by simp
    then show ?thesis using arg_cong [OF f(2), of f_Skipped] by simp
  qed
  note w = merging_write [OF ready' parsed u]
  show doc: "map_option wire (document env dk' k) = map_option wire (row_at rows k)" for k
    using w(3) keys measured m by simp
  show "map_option pl_Layer (routing (recordKey f)) =
      Some (if overlay_at env dk' (recordKey f) = None then LayerRepo else LayerLocal)" if "f \<in> set rows"
    using w(4) keys measured m that by fastforce
  show "routing k = None" if "k \<notin> recordKey ` set rows"
    using w(5) keys measured m that by simp
  show "recordKey h \<in> recordKey ` set rows" if "\<not> rl_wholeTree l" "h \<in> set findings" "f_Skipped h = []"
  proof -
    have "kept_by l targets sel = (\<lambda>_. True)" using that(1) by (simp add: kept_by_def fun_eq_iff)
    then have "recordKey ` set rows = recordKey ` set merged" using arg_cong [OF r(1), of set] by simp
    then show ?thesis using merge_keys [OF merge] that(2,3) by auto
  qed
  show "disposed env K k' (shed_mutant ` set sheds \<union> R) dk' \<or>
      rl_wholeTree l \<and> document env dk' K = None \<and> 0 < droppedSymbols (current_rows env dk) rows" if d: "disposed env K k' R dk"
  proof -
    consider (row) g where "g \<in> set merged" "recordKey g = K" "k' \<in> a_key ` set (f_Attested g)"
      | (told) "\<exists>f. recordKey f = K \<and> mutantKey (f_Symbol f) (fst k') (snd k') \<in> shed_mutant ` set sheds \<union> R"
      using disposed_merge [OF ready' u merge d] by blast
    then show ?thesis
    proof cases
      case row
      show ?thesis
      proof (cases "kept_by l targets sel g")
        case True
        then obtain h where h: "h \<in> set rows" "unadvised h = unadvised g" using r(3) row(1) by blast
        have hk: "recordKey h = K" "f_Attested h = f_Attested g"
          using row(2) unadvised_simps [of h] unadvised_simps [of g] arg_cong [OF h(2), of f_Attested] h(2)
          by (simp_all add: recordKey_def)
        then have "row_at rows K = Some h" using row_at_Some [OF keys] h(1) by simp
        then obtain d where "document env dk' K = Some d" "wire d = wire h" using doc [of K] by auto
        then show ?thesis using row(3) hk(2) wire_attested [of h] wire_attested [of d] unfolding disposed_def by metis
      next
        case False
        have "g' = g" if "g' \<in> set merged" "recordKey g' = K" for g'
          using mk that row(1,2) by (auto simp: distinct_map dest: inj_onD)
        then have "K \<notin> recordKey ` set (filter (kept_by l targets sel) merged)" using False by auto
        then have gone: "K \<notin> recordKey ` set rows" using arg_cong [OF r(1), of set] by simp
        then have "document env dk' K = None" using doc [of K] by (simp add: row_at_None [THEN iffD2])
        moreover have "rl_wholeTree l" using False by (simp add: kept_by_def)
        moreover have "0 < droppedSymbols (current_rows env dk) rows" if "K \<in> recordKey ` set (current_rows env dk)"
          using that gone by (auto simp: droppedSymbols_def filter_empty_conv)
        ultimately show ?thesis using d cur(2) [of K] row_at_None [of "current_rows env dk" K] unfolding disposed_def by force
      qed
    qed (auto simp: disposed_def)
  qed
qed

subsection \<open>The properties of a run\<close>

lemma opened_run:
  assumes "run_reaches env (NewRunLedger st0 prior runID wholeTree, st0, dk0) cs (l, st, dk)" "store_ready env st0 dk0" "parsed_disk dk0"
  shows "store_ready env st dk" "parsed_disk dk" "told_ok cs l" "post_ok l"
    "rl_snapshot l = map_last (map (\<lambda>f. (recordKey f, f_Attested f)) prior)" "rl_wholeTree l = wholeTree"
    "rl_overlaid l = {k \<in> recordKey ` set prior. Overlaid st0 k}"
    "disposed env K k {} dk0 \<Longrightarrow> disposed env K k (rl_reported l) dk"
proof -
  have ok: "run_ok env (NewRunLedger st0 prior runID wholeTree, st0, dk0) cs (l, st, dk)"
    using run_reaches_ok [OF assms opened_told] .
  then show "store_ready env st dk" "parsed_disk dk" "told_ok cs l"
    "rl_snapshot l = map_last (map (\<lambda>f. (recordKey f, f_Attested f)) prior)" "rl_wholeTree l = wholeTree"
    "rl_overlaid l = {k \<in> recordKey ` set prior. Overlaid st0 k}"
    by (simp_all add: run_ok_def NewRunLedger_def)
  show "post_ok l" using run_reaches_post [OF assms(1) opened_post] by simp
  show "disposed env K k {} dk0 \<Longrightarrow> disposed env K k (rl_reported l) dk"
    using ok unfolding run_ok_def Let_def prod.case by blast
qed

lemma dedupe_distinct: "distinct (map shed_mutant (DedupeAttestationSheds ss))"
  "shed_mutant ` set (DedupeAttestationSheds ss) = shed_mutant ` set ss"
proof -
  have "shed_mutant = (\<lambda>d. mutantKey (sh_Symbol d) (sh_Position d) (sh_Operator d))" by (simp add: shed_mutant_def fun_eq_iff)
  then show "distinct (map shed_mutant (DedupeAttestationSheds ss))" "shed_mutant ` set (DedupeAttestationSheds ss) = shed_mutant ` set ss"
    using dedupe_sheds_sound [of "{}" ss] by (simp_all add: DedupeAttestationSheds_def Let_def)
qed

lemma finish_reports:
  assumes told: "told_ok cs l"
    and dedupe: "fold note_residue (DedupeAttestationSheds (rl_commitSheds l @ sheds)) (l\<lparr>rl_postMerge := pm\<rparr>, []) = (l', residue)"
  shows "distinct (map shed_mutant (rl_told l' @ residue))" "rl_told l' = rl_told l"
    "shed_mutant ` set residue \<inter> con_mutant ` set cs = {}" "shed_mutant ` set residue \<subseteq> shed_mutant ` set (rl_commitSheds l @ sheds)"
    "shed_mutant ` set (rl_commitSheds l @ sheds) \<union> rl_reported l \<subseteq> shed_mutant ` set (rl_told l' @ residue) \<union> con_mutant ` set cs"
proof -
  note dd = dedupe_distinct
  note f = fold_note_residue [OF dedupe dd(1)]
  show "rl_told l' = rl_told l" using f by simp
  have residue: "residue = filter (\<lambda>d. shed_mutant d \<notin> rl_reported l) (DedupeAttestationSheds (rl_commitSheds l @ sheds))"
    using f by simp
  have reported: "rl_reported l = shed_mutant ` set (rl_told l) \<union> con_mutant ` set cs" using told by (simp add: told_ok_def)
  have "distinct (map shed_mutant residue)" unfolding residue by (rule distinct_map_filter_fst [OF dd(1)])
  moreover have "shed_mutant ` set residue \<inter> rl_reported l = {}" unfolding residue by auto
  ultimately show "distinct (map shed_mutant (rl_told l' @ residue))" "shed_mutant ` set residue \<inter> con_mutant ` set cs = {}"
    using told \<open>rl_told l' = rl_told l\<close> unfolding reported by (auto simp: told_ok_def)
  show "shed_mutant ` set residue \<subseteq> shed_mutant ` set (rl_commitSheds l @ sheds)"
    unfolding residue dd(2) [of "rl_commitSheds l @ sheds", THEN HOL.sym] by auto
  have "shed_mutant ` set (rl_commitSheds l @ sheds) \<subseteq> rl_reported l \<union> shed_mutant ` set residue"
    unfolding residue dd(2) [of "rl_commitSheds l @ sheds", THEN HOL.sym] by auto
  then show "shed_mutant ` set (rl_commitSheds l @ sheds) \<union> rl_reported l \<subseteq> shed_mutant ` set (rl_told l' @ residue) \<union> con_mutant ` set cs"
    unfolding reported \<open>rl_told l' = rl_told l\<close> by auto
qed

text \<open>
  What a run has to tell, kept beside the ledger and read off no field of it: every contradiction and site
  shed reported to it and, for each commit, the sheds its merge made, in the order they happened.
\<close>

datatype run_report = Contradicted attestation_contradiction | Shed attestation_shed

inductive run_reports :: "store_env \<Rightarrow> ledger \<times> store \<times> disk \<Rightarrow> run_report list \<Rightarrow> ledger \<times> store \<times> disk \<Rightarrow> bool"
  for env s0 where
  report_opened: "run_reports env s0 [] s0"
| report_contradicted: "run_reports env s0 rs (l, st, dk) \<Longrightarrow> run_reports env s0 (rs @ [Contradicted c]) (Contradiction c l, st, dk)"
| report_site_shed: "run_reports env s0 rs (l, st, dk) \<Longrightarrow> run_reports env s0 (rs @ [Shed d]) (SiteShed d l, st, dk)"
| report_committed: "run_reports env s0 rs (l, st, dk) \<Longrightarrow> Commit env f (l, st, dk) = Inr s' \<Longrightarrow>
    run_reports env s0 (rs @ map Shed (snd (MergeFindings (current_rows env dk) [f] (Some (rl_snapshot l))))) s'"

text \<open>The sheds of the final merge, which an empty partial run does not make.\<close>

definition final_sheds :: "store_env \<Rightarrow> ledger \<Rightarrow> finding list \<Rightarrow> target list \<Rightarrow> selection \<Rightarrow> disk \<Rightarrow> attestation_shed list" where
  "final_sheds env l findings targets sel dk =
     (if targets = [] \<and> \<not> rl_wholeTree l then [] else snd (final_merge l findings targets sel (current_rows env dk)))"

text \<open>The first report of each mutant, in order: what a reader is to be told of the sheds.\<close>

fun first_told :: "string set \<Rightarrow> run_report list \<Rightarrow> attestation_shed list" where
  "first_told seen [] = []"
| "first_told seen (Contradicted c # rs) = first_told (insert (con_mutant c) seen) rs"
| "first_told seen (Shed d # rs) =
     (if shed_mutant d \<in> seen then first_told seen rs else d # first_told (insert (shed_mutant d) seen) rs)"

fun reported_mutant :: "run_report \<Rightarrow> string" where
  "reported_mutant (Contradicted c) = con_mutant c"
| "reported_mutant (Shed d) = shed_mutant d"

lemma first_told_append:
  "first_told seen (rs @ rs') = first_told seen rs @ first_told (seen \<union> reported_mutant ` set rs) rs'"
  by (induction seen rs rule: first_told.induct) (auto simp: insert_absorb)

lemma first_told_distinct: "distinct (map shed_mutant (first_told seen rs)) \<and> shed_mutant ` set (first_told seen rs) \<inter> seen = {}"
  by (induction seen rs rule: first_told.induct) auto

lemma count_once: "distinct xs \<Longrightarrow> count_list xs x \<le> 1"
  by (induction xs) (auto simp: count_list_0_iff [THEN iffD2])

lemma first_told_sound: "Shed ` set (first_told seen rs) \<subseteq> set rs"
  by (induction seen rs rule: first_told.induct) auto

lemma first_told_complete:
  "Shed d \<in> set rs \<Longrightarrow> shed_mutant d \<notin> seen \<Longrightarrow> \<forall>c. Contradicted c \<in> set rs \<longrightarrow> con_mutant c \<noteq> shed_mutant d \<Longrightarrow>
    shed_mutant d \<in> shed_mutant ` set (first_told seen rs)"
  by (induction seen rs rule: first_told.induct) auto

lemma first_told_known: "shed_mutant ` set ds \<subseteq> seen \<Longrightarrow> first_told seen (map Shed ds) = []"
  by (induction ds) auto

lemma filter_dedupe: "filter (\<lambda>d. shed_mutant d \<notin> R) (dedupe_sheds S ds) = first_told (R \<union> S) (map Shed ds)"
proof (induction ds arbitrary: S)
  case (Cons d ds)
  have key: "mutantKey (sh_Symbol d) (sh_Position d) (sh_Operator d) = shed_mutant d" by (simp add: shed_mutant_def)
  show ?case using Cons.IH by (auto simp: Let_def key insert_absorb)
qed simp

lemma fold_deliver_first:
  "rl_told (fold deliver ds l) = rl_told l @ first_told (rl_reported l) (map Shed ds)"
  by (induction ds arbitrary: l) (auto simp: insert_absorb)

definition reports_ok :: "run_report list \<Rightarrow> ledger \<Rightarrow> bool" where
  "reports_ok rs l \<longleftrightarrow> rl_told l = first_told {} rs \<and> rl_reported l = reported_mutant ` set rs \<and>
     shed_mutant ` set (rl_commitSheds l) \<subseteq> reported_mutant ` set rs"

lemma deliver_reports:
  assumes "rl_told l = first_told {} rs" "rl_reported l = reported_mutant ` set rs"
  shows "rl_told (fold deliver ds l) = first_told {} (rs @ map Shed ds)"
    "rl_reported (fold deliver ds l) = reported_mutant ` set (rs @ map Shed ds)"
  using assms by (auto simp: fold_deliver_first first_told_append image_image image_Un)

lemma run_reports_ok:
  assumes "run_reports env s0 rs s" "reports_ok [] (fst s0)"
  shows "reports_ok rs (fst s)"
  using assms
proof (induction rule: run_reports.induct)
  case (report_contradicted rs l st dk c)
  then have "reports_ok rs l" by simp
  then show ?case by (simp add: reports_ok_def Contradiction_def first_told_append subset_insertI2)
next
  case (report_site_shed rs l st dk d)
  let ?l = "l\<lparr>rl_commitSheds := rl_commitSheds l @ [d]\<rparr>"
  have "rl_told ?l = first_told {} rs" "rl_reported ?l = reported_mutant ` set rs" using report_site_shed by (simp_all add: reports_ok_def)
  from deliver_reports [OF this, of "[d]"] show ?case using report_site_shed by (auto simp: reports_ok_def SiteShed_def)
next
  case (report_committed rs l st dk f s')
  obtain l' st' dk' where s': "s' = (l', st', dk')" by (cases s')
  obtain dropped l1 where c: "snd (MergeFindings (current_rows env dk) [f] (Some (rl_snapshot l))) = dropped" "l' = fold deliver dropped l1"
    "rl_commitSheds l1 = rl_commitSheds l @ dropped" "rl_reported l1 = rl_reported l" "rl_told l1 = rl_told l"
    by (rule commit_run [OF report_committed(2) [unfolded s']]) simp
  have "rl_told l1 = first_told {} rs" "rl_reported l1 = reported_mutant ` set rs" using report_committed c by (simp_all add: reports_ok_def)
  from deliver_reports [OF this, of dropped] show ?case using report_committed c by (auto simp: reports_ok_def s')
qed simp

lemma finish_tells:
  assumes ok: "reports_ok rs l" and fin: "Finish env findings targets sel (l, st, dk) = Inr (l', st', dk', oc)"
  shows "rl_told l' @ ro_ResidueSheds oc = first_told {} (rs @ map Shed (final_sheds env l findings targets sel dk))"
proof (cases "targets \<noteq> [] \<or> rl_wholeTree l")
  case True
  obtain rows sheds l1 where f: "final_merge l findings targets sel (current_rows env dk) = (rows, sheds)"
    "l1 = l\<lparr>rl_postMerge := note_merged (\<lambda>k. rl_postMerge l k \<noteq> None) rows (rl_postMerge l)\<rparr>"
    "fold note_residue (DedupeAttestationSheds (rl_commitSheds l @ sheds)) (l1, []) = (l', ro_ResidueSheds oc)"
    by (rule finish_run [OF fin True]) blast
  have "rl_told l' = rl_told l \<and> ro_ResidueSheds oc = filter (\<lambda>d. shed_mutant d \<notin> rl_reported l) (DedupeAttestationSheds (rl_commitSheds l @ sheds))"
    using fold_note_residue [OF f(3) dedupe_distinct(1)] f(2) by simp
  moreover have "filter (\<lambda>d. shed_mutant d \<notin> rl_reported l) (DedupeAttestationSheds (rl_commitSheds l @ sheds)) =
      first_told (rl_reported l) (map Shed sheds)"
  proof -
    have known: "shed_mutant ` set (rl_commitSheds l) \<subseteq> rl_reported l" using ok by (simp add: reports_ok_def)
    have "first_told (rl_reported l) (map Shed (rl_commitSheds l) @ map Shed sheds) = first_told (rl_reported l) (map Shed sheds)"
      by (simp only: first_told_append first_told_known [OF known]) (use known in \<open>simp add: image_image Un_absorb2\<close>)
    then show ?thesis by (simp add: DedupeAttestationSheds_def filter_dedupe)
  qed
  moreover have "final_sheds env l findings targets sel dk = sheds" using True f(1) by (auto simp: final_sheds_def)
  ultimately show ?thesis using ok by (simp add: reports_ok_def first_told_append)
next
  case False
  then have "l' = l" "ro_ResidueSheds oc = []" using fin by (auto simp: Finish_def no_outcome_def)
  then show ?thesis using ok False by (simp add: reports_ok_def final_sheds_def)
qed

text \<open>C38: A reader is told of each shed mutant exactly once. Over a whole run, every shed that was reported, that a
  commit's merge made or that the final merge made is told, once, unless its mutant's contradiction was told
  instead; nothing else is told; and in the order they happened the first report of each mutant is the one told,
  the final merge's as the residue behind those delivered while the run went on.\<close>

theorem each_shed_told_once:
  assumes run: "run_reports env (NewRunLedger st0 prior runID wholeTree, st0, dk0) reports (l, st, dk)"
    and fin: "Finish env findings targets sel (l, st, dk) = Inr (l', st', dk', oc)"
    and all: "told = rl_told l' @ ro_ResidueSheds oc" "sheds = reports @ map Shed (final_sheds env l findings targets sel dk)"
  shows "(Shed d \<in> set sheds \<longrightarrow> count_list (map shed_mutant told) (shed_mutant d) = 1 \<or> (\<exists>c. Contradicted c \<in> set reports \<and> con_mutant c = shed_mutant d)) \<and>
    count_list (map shed_mutant told) x \<le> 1 \<and> Shed ` set told \<subseteq> set sheds \<and> told = first_told {} sheds"
proof -
  have "reports_ok [] (NewRunLedger st0 prior runID wholeTree)" by (simp add: reports_ok_def NewRunLedger_def)
  then have "reports_ok reports l" using run_reports_ok [OF run] by simp
  from finish_tells [OF this fin] have told: "told = first_told {} sheds" by (simp add: all)
  have once: "count_list (map shed_mutant told) x \<le> 1" for x
    using first_told_distinct [of "{}" sheds] by (metis count_once told)
  moreover have "count_list (map shed_mutant told) (shed_mutant d) = 1"
    if "Shed d \<in> set sheds" "\<nexists>c. Contradicted c \<in> set reports \<and> con_mutant c = shed_mutant d"
  proof -
    have "Contradicted c \<in> set sheds \<Longrightarrow> Contradicted c \<in> set reports" for c by (auto simp: all)
    then have "shed_mutant d \<in> set (map shed_mutant told)" using first_told_complete [OF that(1), of "{}"] that(2) by (force simp: told)
    then have "count_list (map shed_mutant told) (shed_mutant d) \<noteq> 0" by (simp add: count_list_0_iff)
    then show ?thesis using once [of "shed_mutant d"] by simp
  qed
  ultimately show ?thesis using told first_told_sound [of "{}" sheds] by blast
qed

text \<open>C3: A run loses no disposition silently: what the document attested when the run opened is still attested in
  the document it leaves, or the reader was told of that mutant (a shed or a contradiction), or a whole-tree run
  removed the record and counts it as dropped.\<close>

theorem run_loses_no_disposition:
  assumes ready: "store_ready env st0 dk0" and parsed: "parsed_disk dk0"
    and run: "run_reaches env (NewRunLedger st0 prior runID wholeTree, st0, dk0) cs (l, st, dk)"
    and fin: "Finish env findings targets sel (l, st, dk) = Inr (l', st', dk', oc)"
    and attested: "document env dk0 K = Some p" "a \<in> set (f_Attested p)"
  shows "(\<exists>g. document env dk' K = Some g \<and> a_key a \<in> a_key ` set (f_Attested g)) \<or>
    (\<exists>f. recordKey f = K \<and> mutantKey (f_Symbol f) (a_Position a) (a_Operator a)
       \<in> shed_mutant ` set (rl_told l' @ ro_ResidueSheds oc) \<union> con_mutant ` set cs) \<or>
    wholeTree \<and> document env dk' K = None \<and> 0 < ro_Dropped oc"
proof -
  note o = opened_run [OF run ready parsed]
  have key: "fst (a_key a) = a_Position a" "snd (a_key a) = a_Operator a" by (simp_all add: a_key_def)
  have "disposed env K (a_key a) {} dk0" using attested by (auto simp: disposed_def)
  note d = o(8) [OF this]
  show ?thesis
  proof (cases "targets \<noteq> [] \<or> rl_wholeTree l")
    case True
    obtain routing rows sheds pm where f:
      "Update env (\<lambda>current. Inr (fst (final_merge l findings targets sel current)))
        (RecordRunBound findings sel (rl_runID l) (rl_wholeTree l) st) dk = Inr (st', dk', routing)"
      "final_merge l findings targets sel (current_rows env dk) = (rows, sheds)"
      "fold note_residue (DedupeAttestationSheds (rl_commitSheds l @ sheds)) (l\<lparr>rl_postMerge := pm\<rparr>, []) = (l', ro_ResidueSheds oc)"
      "ro_Dropped oc = (if rl_wholeTree l then droppedSymbols (current_rows env dk) rows else 0)"
      by (rule finish_run [OF fin True]) blast
    note rep = finish_reports(5) [OF o(3) f(3)]
    from finish_write(5) [OF o(1,2) f(1,2) d] show ?thesis
    proof
      assume "disposed env K (a_key a) (shed_mutant ` set sheds \<union> rl_reported l) dk'"
      then have "disposed env K (a_key a) (shed_mutant ` set (rl_told l' @ ro_ResidueSheds oc) \<union> con_mutant ` set cs) dk'"
        by (rule disposed_mono) (use rep in auto)
      then show ?thesis unfolding disposed_def key by blast
    qed (use f(4) o(6) in auto)
  next
    case False
    then have "l' = l" "dk' = dk" using fin by (auto simp: Finish_def)
    then show ?thesis using d o(3) unfolding disposed_def key told_ok_def by auto
  qed
qed

definition mark_row :: "finding \<Rightarrow> finding \<Rightarrow> finding" where
  "mark_row f m = m\<lparr>f_Cached := f_Cached f, f_Skipped := f_Skipped f, f_Unreached := f_Unreached f\<rparr>"

lemma rendered_row:
  "Rendered l fs = map (\<lambda>f. case rl_postMerge l (recordKey f) of Some m \<Rightarrow> mark_row f m | None \<Rightarrow> f) fs"
proof -
  have "recordKey f = f_Symbol f" if "f_Selection f = []" for f using that by (simp add: recordKey_def recordKeyOf_def)
  then show ?thesis by (auto simp: Rendered_def RenderedFindings_def mark_row_def Let_def split: option.split)
qed

lemma mark_row_simps [simp]: "wire (mark_row f m) = wire m" "recordKey (mark_row f m) = recordKey m" "f_Skipped (mark_row f m) = f_Skipped f"
  "f_Selection (mark_row f m) = f_Selection m" "f_Symbol (mark_row f m) = f_Symbol m"
  by (simp_all add: mark_row_def wire_def recordKey_def)

lemma symbol_key: "f_Selection f = [] \<Longrightarrow> f_Symbol f = recordKey f"
  by (simp add: recordKey_def recordKeyOf_def)

lemma by_key: "placed routing f = routing (recordKey f)" "standing l f \<longleftrightarrow> rl_snapshot l (recordKey f) \<noteq> None"
  "overlaid_at_start l f \<longleftrightarrow> recordKey f \<in> rl_overlaid l"
  by (auto simp: placed_def standing_def overlaid_at_start_def symbol_key split: option.split)

text \<open>Every committed record renders as the row the document holds at the end of the run, the cached, skipped and
  unreached marks of the run apart, or a whole-tree reconcile removed it.\<close>

theorem rendered_rows_are_the_documents:
  assumes ready: "store_ready env st0 dk0" and parsed: "parsed_disk dk0"
    and run: "run_reaches env (NewRunLedger st0 prior runID wholeTree, st0, dk0) cs (l, st, dk)"
    and fin: "Finish env findings targets sel (l, st, dk) = Inr (l', st', dk', oc)" and wrote: "targets \<noteq> [] \<or> wholeTree"
    and i: "i < length findings" "findings ! i \<in> fst ` set (rl_banked l)" "f_Skipped (findings ! i) = []"
  shows "map_option wire (document env dk' (recordKey (findings ! i))) = Some (wire (ro_Rendered oc ! i)) \<or>
    wholeTree \<and> document env dk' (recordKey (findings ! i)) = None"
proof -
  let ?k = "recordKey (findings ! i)"
  note o = opened_run [OF run ready parsed]
  obtain routing rows sheds where f:
    "Update env (\<lambda>current. Inr (fst (final_merge l findings targets sel current)))
      (RecordRunBound findings sel (rl_runID l) (rl_wholeTree l) st) dk = Inr (st', dk', routing)"
    "final_merge l findings targets sel (current_rows env dk) = (rows, sheds)"
    "ro_Rendered oc = Rendered (l\<lparr>rl_postMerge := note_merged (\<lambda>k. rl_postMerge l k \<noteq> None) rows (rl_postMerge l)\<rparr>) findings"
    by (rule finish_run [OF fin]) (use wrote o(6) in auto)
  note w = finish_write [OF o(1,2) f(1,2)]
  have committed: "rl_postMerge l ?k \<noteq> None" using o(4) i(2,3) by (auto simp: post_ok_def)
  show ?thesis
  proof (cases "row_at rows ?k")
    case None
    then have "?k \<notin> recordKey ` set rows" by (simp add: row_at_None)
    then have "wholeTree" using w(6) [of "findings ! i"] i(1,3) o(6) by auto
    moreover have "document env dk' ?k = None" using w(2) [of ?k] None by simp
    ultimately show ?thesis by simp
  next
    case (Some m)
    then show ?thesis
      using w(2) [of ?k] committed i(1) by (simp add: f(3) rendered_row note_merged_row [OF w(1)])
  qed
qed

text \<open>The epilogue's counts are the moves between the layers: the records that left the overlay for the document
  since the run opened, the document's records that left it for the overlay, and the measured records
  that ended in the overlay.\<close>

theorem epilogue_counts_are_moves:
  assumes ready: "store_ready env st0 dk0" and parsed: "parsed_disk dk0"
    and run: "run_reaches env (NewRunLedger st0 prior runID wholeTree, st0, dk0) cs (l, st, dk)"
    and fin: "Finish env findings targets sel (l, st, dk) = Inr (l', st', dk', oc)" and wrote: "targets \<noteq> [] \<or> wholeTree"
  shows "ro_Promoted oc = card {k \<in> recordKey ` set prior. Overlaid st0 k \<and> document env dk' k \<noteq> None \<and> overlay_at env dk' k = None} \<and>
    ro_Demoted oc = card {k \<in> recordKey ` set prior. \<not> Overlaid st0 k \<and> overlay_at env dk' k \<noteq> None} \<and>
    ro_MachineLocal oc = length (filter (\<lambda>f. f_Skipped f = [] \<and> overlay_at env dk' (recordKey f) \<noteq> None) findings)"
proof -
  note o = opened_run [OF run ready parsed]
  obtain routing rows sheds l1 where f:
    "Update env (\<lambda>current. Inr (fst (final_merge l findings targets sel current)))
      (RecordRunBound findings sel (rl_runID l) (rl_wholeTree l) st) dk = Inr (st', dk', routing)"
    "final_merge l findings targets sel (current_rows env dk) = (rows, sheds)"
    "l1 = l\<lparr>rl_postMerge := note_merged (\<lambda>k. rl_postMerge l k \<noteq> None) rows (rl_postMerge l)\<rparr>"
    "fold note_residue (DedupeAttestationSheds (rl_commitSheds l @ sheds)) (l1, []) = (l', ro_ResidueSheds oc)"
    "ro_Promoted oc = length (filter (promoted l' routing) rows)" "ro_Demoted oc = length (filter (demoted l' routing) rows)"
    "ro_MachineLocal oc = length (filter (local_row routing) (Rendered l1 findings))"
    by (rule finish_run [OF fin]) (use wrote o(6) in auto)
  note w = finish_write [OF o(1,2) f(1,2)]
  have start: "rl_overlaid l' = {k \<in> recordKey ` set prior. Overlaid st0 k}" "dom (rl_snapshot l') = recordKey ` set prior"
  proof -
    have "rl_overlaid l' = rl_overlaid l" "rl_snapshot l' = rl_snapshot l"
      using fold_note_residue [OF f(4) dedupe_distinct(1)] by (simp_all add: f(3))
    moreover have "dom (rl_snapshot l) = recordKey ` set prior"
      unfolding o(5) dom_def using map_last_None [of "map (\<lambda>f. (recordKey f, f_Attested f)) prior"] by (auto simp: image_image)
    ultimately show "rl_overlaid l' = {k \<in> recordKey ` set prior. Overlaid st0 k}" "dom (rl_snapshot l') = recordKey ` set prior"
      using o(7) by simp_all
  qed
  have layer: "map_option pl_Layer (routing k) =
      (if document env dk' k = None then None else Some (if overlay_at env dk' k = None then LayerRepo else LayerLocal))" for k
  proof (cases "row_at rows k")
    case None
    then show ?thesis using w(2) [of k] w(4) [of k] row_at_None [of rows k] None by simp
  next
    case (Some m)
    then have "m \<in> set rows" "recordKey m = k" using row_at_Some [OF w(1)] by simp_all
    then show ?thesis using w(2) [of k] w(3) [of m] Some by auto
  qed
  have count: "length (filter P rows) = card {k. document env dk' k \<noteq> None \<and> Q k}" if "\<And>m. P m \<longleftrightarrow> Q (recordKey m)" for P Q
  proof -
    have "length (filter P rows) = card (set (map recordKey (filter P rows)))"
      using distinct_card [OF distinct_map_filter_fst [OF w(1)], of P] by simp
    moreover have "document env dk' k \<noteq> None \<longleftrightarrow> k \<in> recordKey ` set rows" for k
      using w(2) [of k] row_at_None [of rows k] by (cases "row_at rows k") auto
    then have "set (map recordKey (filter P rows)) = {k. document env dk' k \<noteq> None \<and> Q k}" using that by auto
    ultimately show ?thesis by simp
  qed
  have up: "promoted l' routing m \<longleftrightarrow> recordKey m \<in> rl_overlaid l' \<and> overlay_at env dk' (recordKey m) = None \<and> document env dk' (recordKey m) \<noteq> None" for m
    by (auto simp: promoted_def by_key layer)
  have down: "demoted l' routing m \<longleftrightarrow>
      recordKey m \<in> dom (rl_snapshot l') \<and> recordKey m \<notin> rl_overlaid l' \<and> overlay_at env dk' (recordKey m) \<noteq> None" for m
    by (auto simp: demoted_def by_key layer document_def)
  have "ro_Promoted oc = card {k. document env dk' k \<noteq> None \<and> k \<in> rl_overlaid l' \<and> overlay_at env dk' k = None \<and> document env dk' k \<noteq> None}"
    unfolding f(5) by (rule count) (rule up)
  moreover have "ro_Demoted oc = card {k. document env dk' k \<noteq> None \<and> k \<in> dom (rl_snapshot l') \<and> k \<notin> rl_overlaid l' \<and> overlay_at env dk' k \<noteq> None}"
    unfolding f(6) by (rule count) (rule down)
  moreover have "length (filter (local_row routing) (Rendered l1 fs)) =
      length (filter (\<lambda>f. f_Skipped f = [] \<and> overlay_at env dk' (recordKey f) \<noteq> None) fs)" for fs
  proof -
    have "recordKey m = k" if "rl_postMerge l1 k = Some m" for m k
      using that o(4) row_at_Some [OF w(1), of k m] unfolding f(3) by (auto simp: post_ok_def note_merged_row [OF w(1)] split: if_splits)
    then have "local_row routing (case rl_postMerge l1 (recordKey f) of Some m \<Rightarrow> mark_row f m | None \<Rightarrow> f) \<longleftrightarrow>
        f_Skipped f = [] \<and> overlay_at env dk' (recordKey f) \<noteq> None" for f
      by (auto simp: local_row_def by_key layer document_def split: option.split)
    then show ?thesis unfolding rendered_row by (simp add: filter_map comp_def)
  qed
  ultimately show ?thesis
    unfolding start f(7) by (auto simp: document_def intro!: arg_cong [of _ _ card] split: option.splits)
qed

subsection \<open>A run\<close>

definition run_prior :: finding where
  "run_prior = example_finding\<lparr>f_Commit := ''c''\<rparr>"

definition run_fresh :: finding where
  "run_fresh = remeasured\<lparr>f_Commit := ''c'', f_Survivors := []\<rparr>"

definition run_disk :: disk where
  "run_disk = \<lparr>dk_rows = [run_prior], dk_bounds = [], dk_exemptions = None, dk_overlay = []\<rparr>"

definition run_opened :: ledger where
  "run_opened = NewRunLedger example_store [run_prior] ''r'' False"

definition run_committed :: "store_error + (ledger \<times> store \<times> disk)" where
  "run_committed = Commit example_env run_fresh (run_opened, example_store, run_disk)"

definition run_finished :: "target list \<Rightarrow> store_error + (ledger \<times> store \<times> disk \<times> run_outcome)" where
  "run_finished targets = Finish example_env [run_fresh] targets zero_selection (projr run_committed)"

definition run_target :: target where
  "run_target = \<lparr>t_Symbol = ''pkg.F'', t_Oracle = [], t_Labels = [], t_OracleExplicit = False, t_Structural = None, t_Manual = None\<rparr>"

lemma run_example: "\<not> isl run_committed" "\<not> isl (run_finished [run_target])"
  "map shed_mutant (rl_told (fst (projr (run_finished [run_target])))) = [mutantKey ''pkg.F'' ''a.go:3:1'' ''neg'']"
  by code_simp+

lemma run_example_ready: "store_ready example_env example_store run_disk" "parsed_disk run_disk"
proof -
  show "store_ready example_env example_store run_disk"
    using example_ready by (simp add: store_ready_def run_disk_def)
  show "parsed_disk run_disk"
    by (simp add: parsed_disk_def run_disk_def run_prior_def example_finding_def zero_finding_def rec_at_def)
qed

lemma run_example_reaches:
  "run_reaches example_env (run_opened, example_store, run_disk) [] (projr run_committed)"
proof (rule committed [OF opened])
  show "Commit example_env run_fresh (run_opened, example_store, run_disk) = Inr (projr run_committed)"
    using sum.collapse(2) [OF run_example(1)] by (simp add: run_committed_def)
qed

lemma run_example_finish:
  assumes "projr run_committed = (l, st, dk)" "projr (run_finished [run_target]) = (l', st', dk', oc)"
  shows "Finish example_env [run_fresh] [run_target] zero_selection (l, st, dk) = Inr (l', st', dk', oc)"
  using sum.collapse(2) [OF run_example(2)] assms by (simp add: run_finished_def)

lemma run_example_reports:
  assumes "projr run_committed = (l, st, dk)"
  shows "\<exists>reports. run_reports example_env (run_opened, example_store, run_disk) reports (l, st, dk) \<and>
    (\<exists>d. Shed d \<in> set reports \<and> shed_mutant d = mutantKey ''pkg.F'' ''a.go:3:1'' ''neg'') \<and> (\<forall>c. Contradicted c \<notin> set reports)"
proof -
  define dropped where "dropped = snd (MergeFindings (current_rows example_env run_disk) [run_fresh] (Some (rl_snapshot run_opened)))"
  have c: "Commit example_env run_fresh (run_opened, example_store, run_disk) = Inr (l, st, dk)"
    using sum.collapse(2) [OF run_example(1)] assms by (simp add: run_committed_def)
  have "map shed_mutant dropped = [mutantKey ''pkg.F'' ''a.go:3:1'' ''neg'']" unfolding dropped_def by code_simp
  then obtain d where "d \<in> set dropped" "shed_mutant d = mutantKey ''pkg.F'' ''a.go:3:1'' ''neg''" by auto
  then show ?thesis
    using run_reports.report_committed [OF run_reports.report_opened c, folded dropped_def] by fastforce
qed

theorem each_shed_told_once_witness:
  "let (l', st', dk', oc) = projr (run_finished [run_target]) in
     count_list (map shed_mutant (rl_told l' @ ro_ResidueSheds oc)) (mutantKey ''pkg.F'' ''a.go:3:1'' ''neg'') = 1"
proof -
  obtain l st dk where s: "projr run_committed = (l, st, dk)" by (metis surj_pair)
  obtain l' st' dk' oc where f: "projr (run_finished [run_target]) = (l', st', dk', oc)" by (metis surj_pair)
  obtain reports d where r: "run_reports example_env (run_opened, example_store, run_disk) reports (l, st, dk)"
    "Shed d \<in> set reports" "shed_mutant d = mutantKey ''pkg.F'' ''a.go:3:1'' ''neg''" "\<forall>c. Contradicted c \<notin> set reports"
    using run_example_reports [OF s] by blast
  from each_shed_told_once [OF r(1) [unfolded run_opened_def] run_example_finish [OF s f] refl refl, of d] r(2-4)
  show ?thesis by (simp add: f)
qed

theorem run_loses_no_disposition_witness:
  "let (l', st', dk', oc) = projr (run_finished [run_target]) in
    (\<exists>g. document example_env dk' ''pkg.F'' = Some g \<and> (''a.go:3:1'', ''neg'') \<in> a_key ` set (f_Attested g)) \<or>
    (\<exists>f. recordKey f = ''pkg.F'' \<and> mutantKey (f_Symbol f) ''a.go:3:1'' ''neg'' \<in> shed_mutant ` set (rl_told l' @ ro_ResidueSheds oc))"
proof -
  let ?a = "\<lparr>a_Position = ''a.go:3:1'', a_Operator = ''neg'', a_Reason = ''dead'', a_Site = ''s1''\<rparr>"
  obtain l st dk where s: "projr run_committed = (l, st, dk)" by (metis surj_pair)
  obtain l' st' dk' oc where f: "projr (run_finished [run_target]) = (l', st', dk', oc)" by (metis surj_pair)
  have "document example_env run_disk ''pkg.F'' = Some run_prior" "?a \<in> set (f_Attested run_prior)"
    by (code_simp, simp add: run_prior_def example_finding_def zero_finding_def)
  from run_loses_no_disposition [OF run_example_ready run_example_reaches [unfolded s run_opened_def] run_example_finish [OF s f] this]
  show ?thesis by (simp add: f a_key_def)
qed

lemma run_example_banked: "map fst (rl_banked (fst (projr run_committed))) = [run_fresh]" "f_Skipped run_fresh = []" "recordKey run_fresh = ''pkg.F''"
  by code_simp+

theorem rendered_rows_are_the_documents_witness:
  "let (l', st', dk', oc) = projr (run_finished [run_target]) in
    map_option wire (document example_env dk' ''pkg.F'') = Some (wire (ro_Rendered oc ! 0))"
proof -
  obtain l st dk where s: "projr run_committed = (l, st, dk)" by (metis surj_pair)
  obtain l' st' dk' oc where f: "projr (run_finished [run_target]) = (l', st', dk', oc)" by (metis surj_pair)
  have "fst ` set (rl_banked l) = {run_fresh}" using arg_cong [OF run_example_banked(1), of set] s by simp
  then have "[run_fresh] ! 0 \<in> fst ` set (rl_banked l)" by simp
  from rendered_rows_are_the_documents [OF run_example_ready run_example_reaches [unfolded s run_opened_def] run_example_finish [OF s f] _ _ this]
  show ?thesis using run_example_banked by (simp add: f)
qed

theorem epilogue_counts_are_moves_witness:
  "let (l', st', dk', oc) = projr (run_finished [run_target]) in ro_Promoted oc = 0"
proof -
  obtain l st dk where s: "projr run_committed = (l, st, dk)" by (metis surj_pair)
  obtain l' st' dk' oc where f: "projr (run_finished [run_target]) = (l', st', dk', oc)" by (metis surj_pair)
  from epilogue_counts_are_moves [OF run_example_ready run_example_reaches [unfolded s run_opened_def] run_example_finish [OF s f]]
  show ?thesis by (simp add: f Overlaid_def example_store_def)
qed

end
