(* ===== verification/Window.thy ===== *)
theory Window
  imports Confirm Execution Splice
begin

text \<open>
  The execution of one target window (\<open>executeWindow\<close> in \<open>run.go\<close>): the pool measures every
  executing candidate, a graceful stop truncates the window to what was dispatched, and the kills measured
  beside siblings are confirmed alone, the serial run replacing the parallel one.

  A candidate's parallel run is the argument \<open>execute\<close> and its serial run the argument \<open>serial\<close>: both are
  functions, since a window executes a candidate once and confirms a kill at most once. Where several
  workers fail, the code reports whichever failed first; the model reports the first in dispatch order. The
  cancellation of the context and the advisory progress events are left out.
\<close>

subsection \<open>The pool\<close>

text \<open>The row of a candidate nothing has scored: the discard zero value.\<close>

definition zero_scored :: scored where
  "zero_scored = \<lparr>sc_outcome = MutantDiscarded, sc_killer = [], sc_memoryDecided = False,
     sc_observation = zero_observation, sc_incomplete = []\<rparr>"

fun collect :: "('e + 'a) list \<Rightarrow> 'e + 'a list" where
  "collect [] = Inr []"
| "collect (x # xs) = (case x of Inl e \<Rightarrow> Inl e | Inr v \<Rightarrow> (case collect xs of Inl e \<Rightarrow> Inl e | Inr vs \<Rightarrow> Inr (v # vs)))"

text \<open>
  Where the graceful stop was seen: the work and the candidate whose dispatch it refused. Candidates before
  it in the walk were dispatched.
\<close>

type_synonym stop_point = "(nat \<times> nat) option"

definition dispatched :: "stop_point \<Rightarrow> nat \<Rightarrow> nat \<Rightarrow> bool" where
  "dispatched stop wi mi \<longleftrightarrow> (case stop of None \<Rightarrow> True | Some (bw, bm) \<Rightarrow> wi < bw \<or> wi = bw \<and> mi < bm)"

definition pool_row :: "(work \<Rightarrow> mutant \<Rightarrow> 'e + scored) \<Rightarrow> stop_point \<Rightarrow> nat \<Rightarrow> work \<Rightarrow> nat \<Rightarrow> 'e + scored" where
  "pool_row execute stop wi w mi =
     (if \<not> dispatched stop wi mi \<or> \<not> executesCandidate w mi then Inr zero_scored
      else case Mutant (wo_candidates w ! mi) of None \<Rightarrow> Inr zero_scored | Some m \<Rightarrow> execute w m)"

definition pool_work :: "(work \<Rightarrow> mutant \<Rightarrow> 'e + scored) \<Rightarrow> stop_point \<Rightarrow> nat \<times> work \<Rightarrow> 'e + scored list" where
  "pool_work execute stop p = collect (map (pool_row execute stop (fst p) (snd p)) [0..<length (wo_candidates (snd p))])"

definition pool_rows :: "(work \<Rightarrow> mutant \<Rightarrow> 'e + scored) \<Rightarrow> stop_point \<Rightarrow> work list \<Rightarrow> 'e + scored list list" where
  "pool_rows execute stop window = collect (map (pool_work execute stop) (enumerate 0 window))"

subsection \<open>The graceful drain\<close>

record drained_work =
  dw_work :: work
  dw_rows :: "scored list"
  dw_discard :: bool
  dw_cap :: "nat option"

text \<open>How far a work's candidate walk got; \<open>None\<close> is the whole of it.\<close>

definition drain_prefix :: "stop_point \<Rightarrow> nat \<Rightarrow> nat option" where
  "drain_prefix stop wi =
     (case stop of
        None \<Rightarrow> None
      | Some (bw, bm) \<Rightarrow> if wi > bw then Some 0 else if wi = bw then Some bm else None)"

text \<open>\<open>dw_cap\<close> is the candidate cap restamped on the record: its \<open>Budget\<close> and \<open>Generated\<close>.\<close>

definition drain_work :: "stop_point \<Rightarrow> nat \<times> work \<Rightarrow> scored list \<Rightarrow> drained_work" where
  "drain_work stop p rows =
     (let (wi, w) = p in
      case drain_prefix stop wi of
        None \<Rightarrow> \<lparr>dw_work = w, dw_rows = rows, dw_discard = False, dw_cap = None\<rparr>
      | Some k \<Rightarrow>
          if wo_serve w \<noteq> None \<or> wo_extend w \<noteq> None \<or> k = 0
          then \<lparr>dw_work = w\<lparr>wo_candidates := []\<rparr>, dw_rows = [], dw_discard = True, dw_cap = None\<rparr>
          else \<lparr>dw_work = w\<lparr>wo_candidates := take k (wo_candidates w)\<rparr>, dw_rows = take k rows, dw_discard = False,
            dw_cap = Some k\<rparr>)"

definition drain_window :: "stop_point \<Rightarrow> work list \<Rightarrow> scored list list \<Rightarrow> drained_work list" where
  "drain_window stop window rows = map (\<lambda>(p, r). drain_work stop p r) (zip (enumerate 0 window) rows)"

subsection \<open>Serial confirmation\<close>

definition confirmable :: "work \<Rightarrow> scored list \<Rightarrow> nat \<Rightarrow> bool" where
  "confirmable w rows mi \<longleftrightarrow> sc_outcome (rows ! mi) = MutantKilled \<and> sc_killer (rows ! mi) \<noteq> TimeoutKiller \<and>
     Mutant (wo_candidates w ! mi) \<noteq> None"

definition window_kills :: "work list \<Rightarrow> scored list list \<Rightarrow> window_kill list" where
  "window_kills window rows =
     concat (map (\<lambda>(wi, w). map (\<lambda>mi. \<lparr>wk_target = wi, wk_mi = mi\<rparr>)
       (filter (confirmable w (rows ! wi)) [0..<length (wo_candidates w)])) (enumerate 0 window))"

text \<open>The row the pool scored for a kill, its serial run under the killer the pool named, and the class of
  that run.\<close>

definition row_of :: "scored list list \<Rightarrow> window_kill \<Rightarrow> scored" where
  "row_of rows k = rows ! wk_target k ! wk_mi k"

type_synonym 'e serial_run = "window_kill \<Rightarrow> string \<Rightarrow> 'e + scored"

definition serial_row :: "'e serial_run \<Rightarrow> scored list list \<Rightarrow> window_kill \<Rightarrow> 'e + scored" where
  "serial_row serial rows k = serial k (sc_killer (row_of rows k))"

definition confirm_kill :: "'e serial_run \<Rightarrow> scored list list \<Rightarrow> window_kill \<Rightarrow> string \<Rightarrow> 'e + confirm_outcome" where
  "confirm_kill serial rows k mode =
     (case serial_row serial rows k of
        Inl e \<Rightarrow> Inl e
      | Inr s \<Rightarrow> Inr (classifyConfirmation (sc_outcome s) (sc_killer s)))"

definition serial_unverifiable :: "'e serial_run \<Rightarrow> scored list list \<Rightarrow> window_kill \<Rightarrow> bool" where
  "serial_unverifiable serial rows k =
     (case serial_row serial rows k of Inl _ \<Rightarrow> False | Inr s \<Rightarrow> ob_Unverifiable (sc_observation s))"

definition window_volatile :: "work list \<Rightarrow> scored list list \<Rightarrow> nat \<Rightarrow> bool" where
  "window_volatile window rows wi = windowEvidenceVolatile (window ! wi) (map sc_observation (rows ! wi))"

type_synonym flips = "nat \<Rightarrow> nat \<Rightarrow> string option"

definition rescore :: "'e serial_run \<Rightarrow> scored list list \<Rightarrow> window_kill \<times> string \<times> confirm_outcome \<Rightarrow>
    scored list list \<times> flips \<Rightarrow> scored list list \<times> flips" where
  "rescore serial rows0 step st =
     (let (k, _, result) = step; (rows, flips) = st; wi = wk_target k in
      case serial_row serial rows0 k of
        Inl _ \<Rightarrow> st
      | Inr s \<Rightarrow> (rows[wi := (rows ! wi)[wk_mi k := s]],
          if result = Flipped then flips(wi := (flips wi)(wk_mi k \<mapsto> sc_killer (row_of rows0 k))) else flips))"

definition confirm_window :: "int \<Rightarrow> 'e serial_run \<Rightarrow> work list \<Rightarrow> scored list list \<Rightarrow>
    'e + (scored list list \<times> flips)" where
  "confirm_window jobs serial window rows =
     (if jobs > 1 then
        (case confirmWindowKills (window_volatile window rows) (confirm_kill serial rows)
            (serial_unverifiable serial rows) (window_kills window rows) of
           Inl e \<Rightarrow> Inl e
         | Inr walk \<Rightarrow> Inr (fold (rescore serial rows) (wl_trace walk) (rows, \<lambda>_ _. None)))
      else Inr (rows, \<lambda>_ _. None))"

subsection \<open>The window\<close>

record executed_window =
  xw_window :: "work list"
  xw_scores :: "window_scores list"
  xw_observations :: "observation list list"
  xw_incompletes :: "string list list"
  xw_discard :: "bool list option"
  xw_caps :: "nat option list"

definition scores_of :: "scored list \<Rightarrow> (nat \<Rightarrow> string option) \<Rightarrow> window_scores" where
  "scores_of rows fl = \<lparr>ws_outcomes = map sc_outcome rows, ws_killers = map sc_killer rows, ws_flips = fl,
     ws_memoryDecided = map sc_memoryDecided rows\<rparr>"

definition executeWindow :: "int \<Rightarrow> (work \<Rightarrow> mutant \<Rightarrow> 'e + scored) \<Rightarrow> 'e serial_run \<Rightarrow> stop_point \<Rightarrow> work list \<Rightarrow>
    'e + executed_window" where
  "executeWindow jobs execute serial stop window =
     (case pool_rows execute stop window of
        Inl e \<Rightarrow> Inl e
      | Inr rows0 \<Rightarrow>
          (let drained = drain_window stop window rows0; window' = map dw_work drained in
           case confirm_window jobs serial window' (map dw_rows drained) of
             Inl e \<Rightarrow> Inl e
           | Inr (rows, fl) \<Rightarrow>
               Inr \<lparr>xw_window = window', xw_scores = map (\<lambda>(wi, r). scores_of r (fl wi)) (enumerate 0 rows),
                 xw_observations = map (map sc_observation) rows, xw_incompletes = map (map sc_incomplete) rows,
                 xw_discard = (if stop = None then None else Some (map dw_discard drained)), xw_caps = map dw_cap drained\<rparr>))"

subsection \<open>Rows\<close>

lemma collect_map_Inr [simp]: "collect (map Inr vs) = Inr vs"
  by (induction vs) simp_all

lemma collect_Inr: "collect xs = Inr vs \<longleftrightarrow> xs = map Inr vs"
proof
  show "collect xs = Inr vs \<Longrightarrow> xs = map Inr vs"
    by (induction xs arbitrary: vs) (auto split: sum.splits)
qed simp

lemma collect_nth: "collect xs = Inr vs \<Longrightarrow> length vs = length xs \<and> (\<forall>i < length xs. xs ! i = Inr (vs ! i))"
  by (auto simp: collect_Inr)

lemma pool_rows_nth:
  assumes "pool_rows execute stop window = Inr rows"
  shows "length rows = length window"
    and "wi < length window \<Longrightarrow> length (rows ! wi) = length (wo_candidates (window ! wi))"
    and "wi < length window \<Longrightarrow> mi < length (wo_candidates (window ! wi)) \<Longrightarrow>
      pool_row execute stop wi (window ! wi) mi = Inr (rows ! wi ! mi)"
proof -
  note c = collect_nth [OF assms [unfolded pool_rows_def]]
  show "length rows = length window" using c by simp
  have w: "pool_work execute stop (wi, window ! wi) = Inr (rows ! wi)" if "wi < length window" for wi
    using c that by (simp add: nth_enumerate_eq)
  have d: "length (rows ! wi) = length (wo_candidates (window ! wi)) \<and> (\<forall>mi < length (wo_candidates (window ! wi)).
      pool_row execute stop wi (window ! wi) mi = Inr (rows ! wi ! mi))" if "wi < length window" for wi
    using collect_nth [OF w [unfolded pool_work_def, OF that]] by simp
  show "wi < length window \<Longrightarrow> length (rows ! wi) = length (wo_candidates (window ! wi))"
    "wi < length window \<Longrightarrow> mi < length (wo_candidates (window ! wi)) \<Longrightarrow>
      pool_row execute stop wi (window ! wi) mi = Inr (rows ! wi ! mi)"
    using d by simp_all
qed

lemma pool_rows_conv:
  assumes "length rows = length window" "\<And>wi. wi < length window \<Longrightarrow> length (rows ! wi) = length (wo_candidates (window ! wi))"
    and "\<And>wi mi. wi < length window \<Longrightarrow> mi < length (wo_candidates (window ! wi)) \<Longrightarrow>
      pool_row execute stop wi (window ! wi) mi = Inr (rows ! wi ! mi)"
  shows "pool_rows execute stop window = Inr rows"
proof -
  have "pool_work execute stop (wi, window ! wi) = Inr (rows ! wi)" if "wi < length window" for wi
    unfolding pool_work_def collect_Inr using that by (intro nth_equalityI) (simp_all add: assms(2,3))
  then show ?thesis
    unfolding pool_rows_def collect_Inr by (intro nth_equalityI) (simp_all add: assms(1) nth_enumerate_eq)
qed

lemma drain_window_nth:
  assumes "length rows = length window"
  shows "length (drain_window stop window rows) = length window"
    and "wi < length window \<Longrightarrow> drain_window stop window rows ! wi = drain_work stop (wi, window ! wi) (rows ! wi)"
  using assms by (simp_all add: drain_window_def nth_enumerate_eq)

subsection \<open>A drained window is a capped run\<close>

definition fresh_work :: "work \<Rightarrow> bool" where
  "fresh_work w \<longleftrightarrow> wo_serve w = None \<and> wo_extend w = None"

text \<open>The candidates a stop leaves of a work, and whether it keeps the work.\<close>

definition kept_candidates :: "nat \<Rightarrow> nat \<Rightarrow> nat \<times> work \<Rightarrow> candidate list" where
  "kept_candidates bw bm p =
     (if fst p < bw then wo_candidates (snd p)
      else if fst p = bw \<and> fresh_work (snd p) then take bm (wo_candidates (snd p)) else [])"

definition capped_work :: "nat \<Rightarrow> nat \<Rightarrow> nat \<times> work \<Rightarrow> work" where
  "capped_work bw bm p = (snd p)\<lparr>wo_candidates := kept_candidates bw bm p\<rparr>"

lemma capped_work_simps [simp]:
  "wo_candidates (capped_work bw bm p) = kept_candidates bw bm p" "fst p < bw \<Longrightarrow> capped_work bw bm p = snd p"
  "wo_serve (capped_work bw bm p) = wo_serve (snd p)" "wo_extend (capped_work bw bm p) = wo_extend (snd p)"
  by (simp_all add: capped_work_def kept_candidates_def)

lemma drain_work_at:
  "drain_work (Some (bw, bm)) (wi, w) rows =
     \<lparr>dw_work = capped_work bw bm (wi, w),
      dw_rows = (if wi < bw then rows else if wi = bw \<and> fresh_work w then take bm rows else []),
      dw_discard = (bw \<le> wi \<and> \<not> (wi = bw \<and> 0 < bm \<and> fresh_work w)),
      dw_cap = (if wi = bw \<and> 0 < bm \<and> fresh_work w then Some bm else None)\<rparr>"
proof -
  have "w\<lparr>wo_candidates := wo_candidates w\<rparr> = w" by simp
  then show ?thesis
    by (auto simp: drain_work_def drain_prefix_def fresh_work_def capped_work_def kept_candidates_def)
qed

text \<open>A candidate's run does not depend on the work's candidate list.\<close>

definition candidate_blind :: "(work \<Rightarrow> mutant \<Rightarrow> 'e + scored) \<Rightarrow> bool" where
  "candidate_blind execute \<longleftrightarrow> (\<forall>w cs m. execute (w\<lparr>wo_candidates := cs\<rparr>) m = execute w m)"

lemma executeWorkMutant_blind:
  assumes "\<And>w cs m. shaped (w\<lparr>wo_candidates := cs\<rparr>) m = shaped w m"
  shows "candidate_blind (executeWorkMutant world budget merge shaped)"
  using assms by (simp add: candidate_blind_def executeWorkMutant_def executeMutant_def)

lemma capped_pool_row:
  assumes "candidate_blind execute" "mi < length (kept_candidates bw bm (wi, w))"
  shows "pool_row execute None wi (capped_work bw bm (wi, w)) mi = pool_row execute (Some (bw, bm)) wi w mi"
    and "mi < length (wo_candidates w)"
proof -
  show "mi < length (wo_candidates w)" using assms(2) by (simp add: kept_candidates_def split: if_splits)
  show "pool_row execute None wi (capped_work bw bm (wi, w)) mi = pool_row execute (Some (bw, bm)) wi w mi"
  proof (cases "wi < bw")
    case True
    then show ?thesis by (simp add: pool_row_def dispatched_def)
  next
    case False
    then have f: "wi = bw" "fresh_work w" "mi < bm" "mi < length (wo_candidates w)"
      using assms(2) by (auto simp: kept_candidates_def split: if_splits)
    then have "kept_candidates bw bm (wi, w) ! mi = wo_candidates w ! mi" by (simp add: kept_candidates_def)
    moreover have "executesCandidate (capped_work bw bm (wi, w)) mi = executesCandidate w mi"
      using f calculation by (auto simp: executesCandidate_def fresh_work_def)
    moreover have "execute (capped_work bw bm (wi, w)) m = execute w m" for m
      using assms(1) by (simp add: candidate_blind_def capped_work_def)
    ultimately show ?thesis using f by (simp add: pool_row_def dispatched_def cong: option.case_cong)
  qed
qed

definition capped_window :: "nat \<Rightarrow> nat \<Rightarrow> work list \<Rightarrow> work list" where
  "capped_window bw bm window = map (capped_work bw bm) (enumerate 0 window)"

lemma drained_rows:
  assumes blind: "candidate_blind execute" and pool: "pool_rows execute (Some (bw, bm)) window = Inr rows"
  defines "d \<equiv> drain_window (Some (bw, bm)) window rows"
  shows "map dw_work d = capped_window bw bm window"
    and "pool_rows execute None (capped_window bw bm window) = Inr (map dw_rows d)"
    and "drain_window None (capped_window bw bm window) (map dw_rows d) =
      map (\<lambda>x. x\<lparr>dw_discard := False, dw_cap := None\<rparr>) d"
proof -
  note p = pool_rows_nth [OF pool]
  note n = drain_window_nth [OF p(1), where stop = "Some (bw, bm)", folded d_def]
  have works: "dw_work (d ! wi) = capped_work bw bm (wi, window ! wi)" if "wi < length window" for wi
    using n(2) [OF that] by (simp add: drain_work_at)
  show w: "map dw_work d = capped_window bw bm window"
    unfolding capped_window_def by (intro nth_equalityI) (simp_all add: n(1) works nth_enumerate_eq)
  have at: "capped_window bw bm window ! wi = capped_work bw bm (wi, window ! wi)" if "wi < length window" for wi
    using that by (simp add: capped_window_def nth_enumerate_eq)
  have rows: "dw_rows (d ! wi) = take (length (kept_candidates bw bm (wi, window ! wi))) (rows ! wi)" if "wi < length window" for wi
    using n(2) [OF that] p(2) [OF that] by (auto simp: drain_work_at kept_candidates_def min_def)
  have len: "length (capped_window bw bm window) = length window" by (simp add: capped_window_def)
  have kept: "length (kept_candidates bw bm (wi, window ! wi)) \<le> length (rows ! wi)" if "wi < length window" for wi
    using p(2) [OF that] by (simp add: kept_candidates_def)
  show "pool_rows execute None (capped_window bw bm window) = Inr (map dw_rows d)"
  proof (rule pool_rows_conv)
    show "length (map dw_rows d) = length (capped_window bw bm window)" by (simp add: n(1) len)
    show "length (map dw_rows d ! wi) = length (wo_candidates (capped_window bw bm window ! wi))"
      if "wi < length (capped_window bw bm window)" for wi
      using that kept [of wi] by (simp add: len n(1) at rows)
    show "pool_row execute None wi (capped_window bw bm window ! wi) mi = Inr (map dw_rows d ! wi ! mi)"
      if "wi < length (capped_window bw bm window)" "mi < length (wo_candidates (capped_window bw bm window ! wi))" for wi mi
    proof -
      have wi: "wi < length window" using that(1) len by simp
      then have mi: "mi < length (kept_candidates bw bm (wi, window ! wi))" using that(2) by (simp add: at)
      show ?thesis
        using capped_pool_row [OF blind mi] p(3) [OF wi] mi wi by (simp add: at n(1) rows)
    qed
  qed
  show "drain_window None (capped_window bw bm window) (map dw_rows d) = map (\<lambda>x. x\<lparr>dw_discard := False, dw_cap := None\<rparr>) d"
  proof (rule nth_equalityI)
    show "length (drain_window None (capped_window bw bm window) (map dw_rows d)) = length (map (\<lambda>x. x\<lparr>dw_discard := False, dw_cap := None\<rparr>) d)"
      by (simp add: drain_window_nth(1) n(1) len)
    show "drain_window None (capped_window bw bm window) (map dw_rows d) ! wi = map (\<lambda>x. x\<lparr>dw_discard := False, dw_cap := None\<rparr>) d ! wi"
      if "wi < length (drain_window None (capped_window bw bm window) (map dw_rows d))" for wi
    proof -
      have l: "length (map dw_rows d) = length (capped_window bw bm window)" by (simp add: n(1) len)
      have wi: "wi < length window" using that by (simp add: drain_window_nth(1) [OF l] len)
      then show ?thesis
        by (simp add: drain_window_nth(2) [OF l] len n(1) drain_work_def drain_prefix_def works [symmetric] at)
    qed
  qed
qed

lemma drained_is_capped:
  assumes blind: "candidate_blind execute" and run: "executeWindow jobs execute serial (Some (bw, bm)) window = Inr x"
  shows "executeWindow jobs execute serial None (capped_window bw bm window) =
      Inr (x\<lparr>xw_discard := None, xw_caps := replicate (length window) None\<rparr>)"
    and "xw_window x = capped_window bw bm window"
    and "xw_discard x = Some (map (\<lambda>(wi, w). bw \<le> wi \<and> \<not> (wi = bw \<and> 0 < bm \<and> fresh_work w)) (enumerate 0 window))"
    and "xw_caps x = map (\<lambda>(wi, w). if wi = bw \<and> 0 < bm \<and> fresh_work w then Some bm else None) (enumerate 0 window)"
proof -
  obtain rows0 where pool: "pool_rows execute (Some (bw, bm)) window = Inr rows0"
    using run by (auto simp: executeWindow_def split: sum.splits)
  let ?d = "drain_window (Some (bw, bm)) window rows0"
  note d = drained_rows [OF blind pool]
  obtain rows fl where c: "confirm_window jobs serial (capped_window bw bm window) (map dw_rows ?d) = Inr (rows, fl)"
    using run pool by (auto simp: executeWindow_def Let_def d(1) split: sum.splits)
  have x: "x = \<lparr>xw_window = capped_window bw bm window, xw_scores = map (\<lambda>(wi, r). scores_of r (fl wi)) (enumerate 0 rows),
      xw_observations = map (map sc_observation) rows, xw_incompletes = map (map sc_incomplete) rows,
      xw_discard = Some (map dw_discard ?d), xw_caps = map dw_cap ?d\<rparr>"
    using run pool c by (simp add: executeWindow_def Let_def d(1))
  note n = drain_window_nth [OF pool_rows_nth(1) [OF pool], where stop = "Some (bw, bm)"]
  have works: "map dw_work (map (\<lambda>x. x\<lparr>dw_discard := False, dw_cap := None\<rparr>) ?d) = capped_window bw bm window"
    "map dw_rows (map (\<lambda>x. x\<lparr>dw_discard := False, dw_cap := None\<rparr>) ?d) = map dw_rows ?d"
    "map dw_cap (map (\<lambda>x. x\<lparr>dw_discard := False, dw_cap := None\<rparr>) ?d) = replicate (length window) None"
    using d(1) by (simp_all add: comp_def n(1) map_replicate_const)
  show "executeWindow jobs execute serial None (capped_window bw bm window) =
      Inr (x\<lparr>xw_discard := None, xw_caps := replicate (length window) None\<rparr>)"
    unfolding executeWindow_def d(2) sum.case Let_def d(3) works c x by simp
  show "xw_window x = capped_window bw bm window" by (simp add: x)
  show "xw_discard x = Some (map (\<lambda>(wi, w). bw \<le> wi \<and> \<not> (wi = bw \<and> 0 < bm \<and> fresh_work w)) (enumerate 0 window))"
    by (simp add: x, intro nth_equalityI) (simp_all add: n drain_work_at nth_enumerate_eq)
  show "xw_caps x = map (\<lambda>(wi, w). if wi = bw \<and> 0 < bm \<and> fresh_work w then Some bm else None) (enumerate 0 window)"
    by (simp add: x, intro nth_equalityI) (simp_all add: n drain_work_at nth_enumerate_eq)
qed

subsection \<open>Confirmation\<close>

lemma drain_confirmed:
  assumes "drain v c u queue st = Inr st'" "\<forall>(k, mode, r) \<in> set (wl_trace st). c k mode = Inr r"
  shows "\<forall>(k, mode, r) \<in> set (wl_trace st'). c k mode = Inr r"
  using assms
proof (induction v c u queue st rule: drain.induct)
  case (2 v c u k queue st)
  show ?case
  proof (rule drain_Cons_cases [OF "2.prems"(1)])
    fix r again st1
    assume r: "c k (mode_label (gateFor v (wk_target k) st)) = Inr r"
      and step: "confirmed v u k r st = (again, st1)" and rest: "drain v c u (queue @ again) st1 = Inr st'"
    show ?thesis
      using "2.IH" [OF r step [symmetric] rest] confirmed_trace [OF step] r "2.prems"(2) by auto
  qed
qed auto

lemma walk_confirmed:
  assumes "walk_kills v c u kills st = Inr st'" "\<forall>(k, mode, r) \<in> set (wl_trace st). c k mode = Inr r"
  shows "\<forall>(k, mode, r) \<in> set (wl_trace st'). c k mode = Inr r"
  using assms
proof (induction kills arbitrary: st)
  case (Cons k kills)
  from Cons.prems(1) show ?case
  proof (cases rule: walk_kills_Cons_cases)
    case (confirms g st2)
    then show ?thesis using Cons.IH [OF confirms(3)] drain_confirmed [OF confirms(2)] Cons.prems(2) by simp
  next
    case (skips g)
    then show ?thesis using Cons.IH [OF skips(2)] Cons.prems(2) by simp
  qed
qed simp

lemma window_kills_mem:
  "k \<in> set (window_kills window rows) \<longleftrightarrow> wk_target k < length window \<and>
     wk_mi k < length (wo_candidates (window ! wk_target k)) \<and> confirmable (window ! wk_target k) (rows ! wk_target k) (wk_mi k)"
proof -
  have "k \<in> set (window_kills window rows) \<longleftrightarrow> (\<exists>wi w. (wi, w) \<in> set (enumerate 0 window) \<and>
      wk_target k = wi \<and> wk_mi k < length (wo_candidates w) \<and> confirmable w (rows ! wi) (wk_mi k))"
    by (cases k) (auto simp: window_kills_def)
  then show ?thesis by (simp add: in_set_enumerate_eq)
qed

lemma sorted_concat_targets:
  assumes "\<And>p k. p \<in> set ps \<Longrightarrow> k \<in> set (f p) \<Longrightarrow> t k = (fst p :: nat)" "sorted (map fst ps)"
  shows "sorted (map t (concat (map f ps)))"
  using assms
proof (induction ps)
  case (Cons p ps)
  have "map t (f p) = replicate (length (f p)) (fst p)"
    using Cons.prems(1) [of p] by (intro replicate_eqI) auto
  then have "sorted (map t (f p))" by simp
  moreover have "t k \<le> t j" if "k \<in> set (f p)" "x \<in> set ps" "j \<in> set (f x)" for k x j
    using Cons.prems(1) [of p k] Cons.prems(1) [of x j] Cons.prems(2) that by simp
  moreover have "sorted (map t (concat (map f ps)))" using Cons by simp
  ultimately show ?case by (simp add: sorted_append)
qed simp

lemma window_kills_sorted: "sorted (map wk_target (window_kills window rows))"
  unfolding window_kills_def by (rule sorted_concat_targets) auto

lemma distinct_concat_targets:
  assumes "\<And>p k. p \<in> set ps \<Longrightarrow> k \<in> set (f p) \<Longrightarrow> t k = (fst p :: nat)" "distinct (map fst ps)" "\<And>p. distinct (f p)"
  shows "distinct (concat (map f ps))"
  using assms
proof (induction ps)
  case (Cons p ps)
  have "k \<notin> set (f x)" if "k \<in> set (f p)" "x \<in> set ps" for k x
  proof
    assume "k \<in> set (f x)"
    then have "fst p = fst x" using Cons.prems(1) [of p k] Cons.prems(1) [of x k] that by simp
    then show False using Cons.prems(2) that(2) by force
  qed
  then have "set (f p) \<inter> (\<Union>x \<in> set ps. set (f x)) = {}" by blast
  moreover have "distinct (concat (map f ps))" using Cons by simp
  ultimately show ?case using Cons.prems(3) by simp
qed simp

lemma window_kills_distinct: "distinct (window_kills window rows)"
  unfolding window_kills_def
proof (rule distinct_concat_targets [where t = wk_target])
  show "distinct (case p of (wi, w) \<Rightarrow> map (\<lambda>mi. \<lparr>wk_target = wi, wk_mi = mi\<rparr>)
      (filter (confirmable w (rows ! wi)) [0..<length (wo_candidates w)]))" for p :: "nat \<times> work"
    by (cases p) (simp add: distinct_map inj_on_def)
qed auto

lemma rescored_rows:
  fixes t i :: nat
  defines "K \<equiv> \<lparr>wk_target = t, wk_mi = i\<rparr>"
  assumes "\<forall>(k, mode, r) \<in> set tr. confirm_kill serial rows0 k mode = Inr r \<and> wk_target k < length rows \<and> wk_mi k < length (rows ! wk_target k)"
    and "fold (rescore serial rows0) tr (rows, fl) = (rows', fl')"
  shows "length rows' = length rows \<and> length (rows' ! t) = length (rows ! t) \<and>
    (t < length rows \<longrightarrow> i < length (rows ! t) \<longrightarrow>
      rows' ! t ! i = (if K \<in> fst ` set tr then projr (serial_row serial rows0 K) else rows ! t ! i)) \<and>
    fl' t i = (if \<exists>mode. (K, mode, Flipped) \<in> set tr then Some (sc_killer (row_of rows0 K)) else fl t i)"
  using assms(2-3)
proof (induction tr arbitrary: rows fl)
  case (Cons step tr)
  obtain k mode r where step: "step = (k, mode, r)" by (cases step)
  obtain s where s: "serial_row serial rows0 k = Inr s"
    using Cons.prems(1) by (auto simp: step confirm_kill_def split: sum.splits)
  define rows1 where "rows1 = rows[wk_target k := (rows ! wk_target k)[wk_mi k := s]]"
  define fl1 where "fl1 = (if r = Flipped then fl(wk_target k := (fl (wk_target k))(wk_mi k \<mapsto> sc_killer (row_of rows0 k))) else fl)"
  have "rescore serial rows0 step (rows, fl) = (rows1, fl1)"
    by (simp add: step rescore_def s rows1_def fl1_def Let_def)
  then have IH: "fold (rescore serial rows0) tr (rows1, fl1) = (rows', fl')"
    using Cons.prems(2) by simp
  have K: "K = k \<longleftrightarrow> wk_target k = t \<and> wk_mi k = i" by (cases k) (auto simp: K_def)
  have at: "wk_target k < length rows" "wk_mi k < length (rows ! wk_target k)" using Cons.prems(1) by (auto simp: step)
  have lens: "length rows1 = length rows" "length (rows1 ! j) = length (rows ! j)" for j
    using at(1) by (simp_all add: rows1_def nth_list_update)
  have row: "t < length rows \<Longrightarrow> i < length (rows ! t) \<Longrightarrow> rows1 ! t ! i = (if K = k then s else rows ! t ! i)"
    using at unfolding K rows1_def by (simp add: nth_list_update)
  have flip: "fl1 t i = (if K = k \<and> r = Flipped then Some (sc_killer (row_of rows0 k)) else fl t i)"
    unfolding K fl1_def by simp
  have rest: "\<forall>(k, mode, r) \<in> set tr. confirm_kill serial rows0 k mode = Inr r \<and> wk_target k < length rows1 \<and> wk_mi k < length (rows1 ! wk_target k)"
    using Cons.prems(1) by (simp add: lens)
  have mem: "K \<in> fst ` set (step # tr) \<longleftrightarrow> K = k \<or> K \<in> fst ` set tr"
    "(\<exists>mode. (K, mode, Flipped) \<in> set (step # tr)) \<longleftrightarrow> K = k \<and> r = Flipped \<or> (\<exists>mode. (K, mode, Flipped) \<in> set tr)"
    by (auto simp: step)
  have "K = k \<Longrightarrow> serial_row serial rows0 K = Inr s" using s by simp
  then show ?case
    using Cons.IH [OF rest IH] row flip unfolding mem lens by (auto split: if_splits)
qed simp

lemma window_row_shape:
  assumes "executeWindow jobs execute serial stop window = Inr x"
  obtains rows0 d rows fl where "pool_rows execute stop window = Inr rows0" "d = drain_window stop window rows0"
    "confirm_window jobs serial (map dw_work d) (map dw_rows d) = Inr (rows, fl)" "xw_window x = map dw_work d"
    "xw_scores x = map (\<lambda>(wi, r). scores_of r (fl wi)) (enumerate 0 rows)" "xw_observations x = map (map sc_observation) rows"
  using assms unfolding executeWindow_def Let_def by (auto split: sum.splits prod.splits)

lemma drained_row:
  assumes pool: "pool_rows execute stop window = Inr rows0" and wi: "wi < length window"
  defines "d \<equiv> drain_window stop window rows0"
  shows "length (dw_rows (d ! wi)) = length (wo_candidates (dw_work (d ! wi)))"
    and "mi < length (wo_candidates (dw_work (d ! wi))) \<Longrightarrow> mi < length (wo_candidates (window ! wi)) \<and>
      wo_candidates (dw_work (d ! wi)) ! mi = wo_candidates (window ! wi) ! mi \<and> dw_rows (d ! wi) ! mi = rows0 ! wi ! mi"
proof -
  note p = pool_rows_nth [OF pool]
  have d: "d ! wi = drain_work stop (wi, window ! wi) (rows0 ! wi)" using drain_window_nth(2) [OF p(1) wi] by (simp add: d_def)
  show "length (dw_rows (d ! wi)) = length (wo_candidates (dw_work (d ! wi)))"
    using p(2) [OF wi] by (auto simp: d drain_work_def min_def split: option.splits)
  show "mi < length (wo_candidates (dw_work (d ! wi))) \<Longrightarrow> mi < length (wo_candidates (window ! wi)) \<and>
      wo_candidates (dw_work (d ! wi)) ! mi = wo_candidates (window ! wi) ! mi \<and> dw_rows (d ! wi) ! mi = rows0 ! wi ! mi"
    using p(2) [OF wi] by (auto simp: d drain_work_def split: option.splits if_splits)
qed

lemma drained_kill:
  assumes pool: "pool_rows execute stop window = Inr rows0" and wi: "wi < length window"
  defines "d \<equiv> drain_window stop window rows0"
  assumes mi: "mi < length (wo_candidates (dw_work (d ! wi)))" and killed: "sc_outcome (dw_rows (d ! wi) ! mi) = MutantKilled"
  obtains m where "Mutant (wo_candidates (window ! wi) ! mi) = Some m" "execute (window ! wi) m = Inr (dw_rows (d ! wi) ! mi)"
proof -
  note r = drained_row(2) [OF pool wi, of mi, folded d_def, OF mi]
  have "pool_row execute stop wi (window ! wi) mi = Inr (dw_rows (d ! wi) ! mi)"
    using pool_rows_nth(3) [OF pool wi] r by simp
  moreover have "dw_rows (d ! wi) ! mi \<noteq> zero_scored" using killed by (auto simp: zero_scored_def)
  ultimately show thesis
    using that by (auto simp: pool_row_def split: if_splits option.splits)
qed

text \<open>The rows a confirmed window ends with.\<close>

lemma confirmed_window:
  assumes jobs: "1 < jobs" and run: "executeWindow jobs execute serial stop window = Inr x"
  obtains rows0 d walk rows fl where "pool_rows execute stop window = Inr rows0" "d = drain_window stop window rows0"
    "confirmWindowKills (window_volatile (map dw_work d) (map dw_rows d)) (confirm_kill serial (map dw_rows d))
      (serial_unverifiable serial (map dw_rows d)) (window_kills (map dw_work d) (map dw_rows d)) = Inr walk"
    "xw_window x = map dw_work d" "xw_observations x = map (map sc_observation) rows"
    "xw_scores x = map (\<lambda>(wi, r). scores_of r (fl wi)) (enumerate 0 rows)"
    "\<forall>(k, mode, r) \<in> set (wl_trace walk). confirm_kill serial (map dw_rows d) k mode = Inr r"
    "length rows = length window" "length d = length window" "\<And>t. length (rows ! t) = length (map dw_rows d ! t)"
    "\<And>t i. t < length window \<Longrightarrow> i < length (wo_candidates (dw_work (d ! t))) \<Longrightarrow> rows ! t ! i =
      (if \<lparr>wk_target = t, wk_mi = i\<rparr> \<in> fst ` set (wl_trace walk)
       then projr (serial_row serial (map dw_rows d) \<lparr>wk_target = t, wk_mi = i\<rparr>) else dw_rows (d ! t) ! i)"
    "\<And>t i. fl t i = (if \<exists>mode. (\<lparr>wk_target = t, wk_mi = i\<rparr>, mode, Flipped) \<in> set (wl_trace walk)
       then Some (sc_killer (dw_rows (d ! t) ! i)) else None)"
    "\<And>t i. \<lparr>wk_target = t, wk_mi = i\<rparr> \<in> fst ` set (wl_trace walk) \<Longrightarrow>
       t < length window \<and> i < length (wo_candidates (dw_work (d ! t))) \<and> confirmable (dw_work (d ! t)) (dw_rows (d ! t)) i"
proof -
  obtain rows0 d rows fl where s: "pool_rows execute stop window = Inr rows0" "d = drain_window stop window rows0"
    "confirm_window jobs serial (map dw_work d) (map dw_rows d) = Inr (rows, fl)" "xw_window x = map dw_work d"
    "xw_scores x = map (\<lambda>(wi, r). scores_of r (fl wi)) (enumerate 0 rows)" "xw_observations x = map (map sc_observation) rows"
    by (rule window_row_shape [OF run])
  have len: "length d = length window" using drain_window_nth(1) [OF pool_rows_nth(1) [OF s(1)]] s(2) by simp
  obtain walk where w: "confirmWindowKills (window_volatile (map dw_work d) (map dw_rows d)) (confirm_kill serial (map dw_rows d))
      (serial_unverifiable serial (map dw_rows d)) (window_kills (map dw_work d) (map dw_rows d)) = Inr walk"
    "fold (rescore serial (map dw_rows d)) (wl_trace walk) (map dw_rows d, \<lambda>_ _. None) = (rows, fl)"
    using s(3) jobs by (auto simp: confirm_window_def split: sum.splits)
  have tr: "\<forall>(k, mode, r) \<in> set (wl_trace walk). confirm_kill serial (map dw_rows d) k mode = Inr r"
    using walk_confirmed [OF w(1) [unfolded confirmWindowKills_def]] by (simp add: start_walk_def)
  have "set_mset (mset (map fst (wl_trace walk))) \<subseteq> set_mset (mset (window_kills (map dw_work d) (map dw_rows d)))"
    unfolding walk_conserves [OF w(1), symmetric] by simp
  then have kills: "fst ` set (wl_trace walk) \<subseteq> set (window_kills (map dw_work d) (map dw_rows d))" by simp
  have at: "t < length window \<and> i < length (wo_candidates (dw_work (d ! t))) \<and> confirmable (dw_work (d ! t)) (dw_rows (d ! t)) i"
    if "\<lparr>wk_target = t, wk_mi = i\<rparr> \<in> fst ` set (wl_trace walk)" for t i
    using subsetD [OF kills that] by (auto simp: window_kills_mem len)
  have rowlen: "length (dw_rows (d ! t)) = length (wo_candidates (dw_work (d ! t)))" if "t < length window" for t
    using drained_row(1) [OF s(1) that] s(2) by simp
  have "\<forall>(k, mode, r) \<in> set (wl_trace walk). confirm_kill serial (map dw_rows d) k mode = Inr r \<and>
      wk_target k < length (map dw_rows d) \<and> wk_mi k < length (map dw_rows d ! wk_target k)"
  proof -
    have "wk_target k < length (map dw_rows d) \<and> wk_mi k < length (map dw_rows d ! wk_target k)" if "k \<in> fst ` set (wl_trace walk)" for k
      using subsetD [OF kills that] by (auto simp: window_kills_mem len rowlen)
    then show ?thesis using tr by force
  qed
  note r = rescored_rows [OF this w(2)]
  have rows: "length rows = length window" "length (rows ! t) = length (map dw_rows d ! t)" for t
    using r [where t = t] by (simp_all add: len)
  show thesis
  proof (rule that [OF s(1,2) w(1) s(4,6,5) tr rows(1) len rows(2)])
    show "rows ! t ! i = (if \<lparr>wk_target = t, wk_mi = i\<rparr> \<in> fst ` set (wl_trace walk)
       then projr (serial_row serial (map dw_rows d) \<lparr>wk_target = t, wk_mi = i\<rparr>) else dw_rows (d ! t) ! i)"
      if "t < length window" "i < length (wo_candidates (dw_work (d ! t)))" for t i
      using r [where t = t and i = i] that rowlen [OF that(1)] by (simp add: len)
    show "fl t i = (if \<exists>mode. (\<lparr>wk_target = t, wk_mi = i\<rparr>, mode, Flipped) \<in> set (wl_trace walk)
       then Some (sc_killer (dw_rows (d ! t) ! i)) else None)" for t i
    proof (cases "t < length window")
      case True
      then show ?thesis using r [where t = t and i = i] by (simp add: len row_of_def)
    next
      case False
      then have "(\<lparr>wk_target = t, wk_mi = i\<rparr>, mode, Flipped) \<notin> set (wl_trace walk)" for mode using at [of t i] by force
      then show ?thesis using r [where t = t and i = i] by simp
    qed
  qed (rule at)
qed

subsection \<open>Properties\<close>

text \<open>C29: A window the graceful stop drained is the window of a capped run: executing the same window with the
  stopped work's candidates cut at the stop and the later works' removed gives the same window, scores and
  observations; the stopped record is capped at exactly the candidates it keeps, and a served,
  extended or empty work is discarded.\<close>

theorem drained_window_is_a_capped_run:
  assumes "candidate_blind execute" and "executeWindow jobs execute serial (Some (bw, bm)) window = Inr x"
  shows "executeWindow jobs execute serial None (capped_window bw bm window) =
      Inr (x\<lparr>xw_discard := None, xw_caps := replicate (length window) None\<rparr>) \<and>
    xw_window x = capped_window bw bm window \<and>
    xw_discard x = Some (map (\<lambda>(wi, w). bw \<le> wi \<and> \<not> (wi = bw \<and> 0 < bm \<and> fresh_work w)) (enumerate 0 window)) \<and>
    xw_caps x = map (\<lambda>(wi, w). if wi = bw \<and> 0 < bm \<and> fresh_work w then Some bm else None) (enumerate 0 window)"
  using drained_is_capped [OF assms] by simp

definition reproduces :: "'e + scored \<Rightarrow> bool" where
  "reproduces run \<longleftrightarrow> (case run of Inl _ \<Rightarrow> False | Inr s \<Rightarrow> sc_outcome s = MutantKilled \<and> sc_killer s \<noteq> TimeoutKiller)"

text \<open>C28: A kill a window of several workers reports, a timeout apart, was measured alone: the row is that of the
  candidate's serial run, under the killer the pool named; or it rests on the sample: no confirmation of the
  whole window flipped a kill, and at least the streak of the same target's kills were reproduced alone.\<close>

theorem window_kills_stand:
  assumes jobs: "1 < jobs" and run: "executeWindow jobs execute serial stop window = Inr x" and wi: "wi < length window"
    and mi: "mi < length (wo_candidates (xw_window x ! wi))"
    and killed: "ws_outcomes (xw_scores x ! wi) ! mi = MutantKilled" "ws_killers (xw_scores x ! wi) ! mi \<noteq> TimeoutKiller"
  shows "(\<exists>m p s. Mutant (wo_candidates (window ! wi) ! mi) = Some m \<and> execute (window ! wi) m = Inr p \<and>
      serial \<lparr>wk_target = wi, wk_mi = mi\<rparr> (sc_killer p) = Inr s \<and> sc_outcome s = MutantKilled \<and>
      sc_killer s = ws_killers (xw_scores x ! wi) ! mi \<and> sc_observation s = xw_observations x ! wi ! mi) \<or>
    list_all (\<lambda>s. ws_flips s = Map.empty) (xw_scores x) \<and>
    ConfirmStreak \<le> card {i. i < length (wo_candidates (xw_window x ! wi)) \<and>
      (\<exists>killer. reproduces (serial \<lparr>wk_target = wi, wk_mi = i\<rparr> killer))}"
proof -
  obtain rows0 d walk rows fl where c: "pool_rows execute stop window = Inr rows0" "d = drain_window stop window rows0"
    "confirmWindowKills (window_volatile (map dw_work d) (map dw_rows d)) (confirm_kill serial (map dw_rows d))
      (serial_unverifiable serial (map dw_rows d)) (window_kills (map dw_work d) (map dw_rows d)) = Inr walk"
    "xw_window x = map dw_work d" "xw_observations x = map (map sc_observation) rows"
    "xw_scores x = map (\<lambda>(wi, r). scores_of r (fl wi)) (enumerate 0 rows)"
    "\<forall>(k, mode, r) \<in> set (wl_trace walk). confirm_kill serial (map dw_rows d) k mode = Inr r"
    "length rows = length window" "length d = length window" "\<And>t. length (rows ! t) = length (map dw_rows d ! t)"
    "\<And>t i. t < length window \<Longrightarrow> i < length (wo_candidates (dw_work (d ! t))) \<Longrightarrow> rows ! t ! i =
      (if \<lparr>wk_target = t, wk_mi = i\<rparr> \<in> fst ` set (wl_trace walk)
       then projr (serial_row serial (map dw_rows d) \<lparr>wk_target = t, wk_mi = i\<rparr>) else dw_rows (d ! t) ! i)"
    "\<And>t i. fl t i = (if \<exists>mode. (\<lparr>wk_target = t, wk_mi = i\<rparr>, mode, Flipped) \<in> set (wl_trace walk)
       then Some (sc_killer (dw_rows (d ! t) ! i)) else None)"
    "\<And>t i. \<lparr>wk_target = t, wk_mi = i\<rparr> \<in> fst ` set (wl_trace walk) \<Longrightarrow>
       t < length window \<and> i < length (wo_candidates (dw_work (d ! t))) \<and> confirmable (dw_work (d ! t)) (dw_rows (d ! t)) i"
    by (rule confirmed_window [OF jobs run]) (rule that)
  let ?k = "\<lparr>wk_target = wi, wk_mi = mi\<rparr>"
  have mi': "mi < length (wo_candidates (dw_work (d ! wi)))" using mi wi by (simp add: c(4,9))
  have rl: "length (rows ! wi) = length (wo_candidates (dw_work (d ! wi)))"
    using c(10) [of wi] drained_row(1) [OF c(1) wi, folded c(2)] wi by (simp add: c(9))
  have score: "ws_outcomes (xw_scores x ! wi) ! i = sc_outcome (rows ! wi ! i)" "ws_killers (xw_scores x ! wi) ! i = sc_killer (rows ! wi ! i)"
    "xw_observations x ! wi ! i = sc_observation (rows ! wi ! i)" if "i < length (rows ! wi)" for i
    using that wi by (simp_all add: c(5,6,8) scores_of_def nth_enumerate_eq)
  show ?thesis
  proof (cases "?k \<in> fst ` set (wl_trace walk)")
    case True
    have "sc_outcome (dw_rows (d ! wi) ! mi) = MutantKilled" using c(13) [OF True] by (simp add: confirmable_def)
    then obtain m where m: "Mutant (wo_candidates (window ! wi) ! mi) = Some m" "execute (window ! wi) m = Inr (dw_rows (d ! wi) ! mi)"
      using drained_kill [OF c(1) wi] mi' unfolding c(2) by blast
    obtain mode r where "(?k, mode, r) \<in> set (wl_trace walk)" using True by auto
    then obtain s where s: "serial_row serial (map dw_rows d) ?k = Inr s" using c(7) by (fastforce simp: confirm_kill_def split: sum.splits)
    then have "rows ! wi ! mi = s" using c(11) [OF wi mi'] True by simp
    moreover have "serial ?k (sc_killer (dw_rows (d ! wi) ! mi)) = Inr s"
      using s wi by (simp add: serial_row_def row_of_def c(9))
    ultimately show ?thesis using m killed(1) score [of mi] rl mi' by auto
  next
    case False
    then have row: "rows ! wi ! mi = dw_rows (d ! wi) ! mi" using c(11) [OF wi mi'] by simp
    then have "sc_outcome (dw_rows (d ! wi) ! mi) = MutantKilled" using killed(1) score [of mi] rl mi' by simp
    then obtain m where m: "Mutant (wo_candidates (window ! wi) ! mi) = Some m"
      using drained_kill [OF c(1) wi] mi' unfolding c(2) by blast
    have "Mutant (wo_candidates (dw_work (d ! wi)) ! mi) = Some m"
      using drained_row(2) [OF c(1) wi, of mi] mi' m by (simp add: c(2))
    then have "?k \<in> set (window_kills (map dw_work d) (map dw_rows d))"
      using wi mi' row killed score [of mi] rl by (simp add: window_kills_mem c(9) confirmable_def)
    then have "?k \<in># mset (map fst (wl_trace walk)) + mset (wl_skipped walk)" unfolding walk_conserves [OF c(3)] by simp
    then have skipped: "?k \<in> set (wl_skipped walk)" using False by auto
    have "(k, mode, Flipped) \<notin> set (wl_trace walk)" for k mode
      using flip_confirms [OF c(3) window_kills_sorted] skipped by fastforce
    then have "fl = (\<lambda>_ _. None)" by (auto simp: c(12) fun_eq_iff)
    then have "list_all (\<lambda>s. ws_flips s = Map.empty) (xw_scores x)"
      by (auto simp: c(6) list_all_iff scores_of_def)
    moreover have "ConfirmStreak \<le> card {i. i < length (wo_candidates (xw_window x ! wi)) \<and>
        (\<exists>killer. reproduces (serial \<lparr>wk_target = wi, wk_mi = i\<rparr> killer))}" (is "_ \<le> card ?S")
    proof -
      let ?rs = "filter (\<lambda>(k, _, r). wk_target k = wi \<and> r = Reproduced) (wl_trace walk)"
      have "distinct (map fst (wl_trace walk))"
      proof -
        have "mset (map fst (wl_trace walk) @ wl_skipped walk) = mset (window_kills (map dw_work d) (map dw_rows d))"
          using walk_conserves [OF c(3)] by simp
        then have "distinct (map fst (wl_trace walk) @ wl_skipped walk)"
          using window_kills_distinct mset_eq_imp_distinct_iff by blast
        then show ?thesis by simp
      qed
      then have "distinct (map fst ?rs)" by (rule distinct_map_filter_fst)
      moreover have "inj_on wk_mi (set (map fst ?rs))"
        by (rule inj_onI) (auto intro!: window_kill.equality)
      ultimately have "reproductions wi walk = card (wk_mi ` set (map fst ?rs))"
        by (simp only: card_image distinct_card reproductions_def length_map)
      moreover have "wk_mi ` set (map fst ?rs) \<subseteq> ?S"
      proof
        fix i assume "i \<in> wk_mi ` set (map fst ?rs)"
        then obtain k mode where k: "(k, mode, Reproduced) \<in> set (wl_trace walk)" "wk_target k = wi" "wk_mi k = i" by auto
        then have eq: "k = \<lparr>wk_target = wi, wk_mi = i\<rparr>" by (auto intro: window_kill.equality)
        have conf: "confirm_kill serial (map dw_rows d) k mode = Inr Reproduced" using c(7) k(1) by fastforce
        then have "reproduces (serial k (sc_killer (row_of (map dw_rows d) k)))"
          by (auto simp: confirm_kill_def serial_row_def reproduces_def classifyConfirmation_def split: sum.splits if_splits)
        then show "i \<in> ?S" using c(13) [of wi i] k(1) wi unfolding eq by (force simp: c(4,9))
      qed
      then have "card (wk_mi ` set (map fst ?rs)) \<le> card ?S" by (intro card_mono) simp_all
      ultimately show ?thesis using skips_earned [OF c(3) window_kills_sorted skipped] by simp
    qed
    ultimately show ?thesis by blast
  qed
qed

text \<open>A flip is a withdrawn kill: the pool killed the candidate with the killer the flip names, the candidate
  survived its serial run, and survival is the verdict the window reports.\<close>

theorem flips_are_withdrawn_kills:
  assumes jobs: "1 < jobs" and run: "executeWindow jobs execute serial stop window = Inr x" and wi: "wi < length window"
    and flip: "ws_flips (xw_scores x ! wi) mi = Some killer"
  shows "mi < length (wo_candidates (xw_window x ! wi)) \<and> ws_outcomes (xw_scores x ! wi) ! mi = MutantSurvived \<and>
    killer \<noteq> TimeoutKiller \<and> (\<exists>m p s. Mutant (wo_candidates (window ! wi) ! mi) = Some m \<and> execute (window ! wi) m = Inr p \<and>
      sc_outcome p = MutantKilled \<and> sc_killer p = killer \<and>
      serial \<lparr>wk_target = wi, wk_mi = mi\<rparr> killer = Inr s \<and> sc_outcome s = MutantSurvived)"
proof -
  obtain rows0 d walk rows fl where c: "pool_rows execute stop window = Inr rows0" "d = drain_window stop window rows0"
    "confirmWindowKills (window_volatile (map dw_work d) (map dw_rows d)) (confirm_kill serial (map dw_rows d))
      (serial_unverifiable serial (map dw_rows d)) (window_kills (map dw_work d) (map dw_rows d)) = Inr walk"
    "xw_window x = map dw_work d" "xw_observations x = map (map sc_observation) rows"
    "xw_scores x = map (\<lambda>(wi, r). scores_of r (fl wi)) (enumerate 0 rows)"
    "\<forall>(k, mode, r) \<in> set (wl_trace walk). confirm_kill serial (map dw_rows d) k mode = Inr r"
    "length rows = length window" "length d = length window" "\<And>t. length (rows ! t) = length (map dw_rows d ! t)"
    "\<And>t i. t < length window \<Longrightarrow> i < length (wo_candidates (dw_work (d ! t))) \<Longrightarrow> rows ! t ! i =
      (if \<lparr>wk_target = t, wk_mi = i\<rparr> \<in> fst ` set (wl_trace walk)
       then projr (serial_row serial (map dw_rows d) \<lparr>wk_target = t, wk_mi = i\<rparr>) else dw_rows (d ! t) ! i)"
    "\<And>t i. fl t i = (if \<exists>mode. (\<lparr>wk_target = t, wk_mi = i\<rparr>, mode, Flipped) \<in> set (wl_trace walk)
       then Some (sc_killer (dw_rows (d ! t) ! i)) else None)"
    "\<And>t i. \<lparr>wk_target = t, wk_mi = i\<rparr> \<in> fst ` set (wl_trace walk) \<Longrightarrow>
       t < length window \<and> i < length (wo_candidates (dw_work (d ! t))) \<and> confirmable (dw_work (d ! t)) (dw_rows (d ! t)) i"
    by (rule confirmed_window [OF jobs run]) (rule that)
  let ?k = "\<lparr>wk_target = wi, wk_mi = mi\<rparr>"
  have "fl wi mi = Some killer" using flip wi by (simp add: c(6,8) nth_enumerate_eq scores_of_def)
  then obtain mode where tr: "(?k, mode, Flipped) \<in> set (wl_trace walk)" and killer: "killer = sc_killer (dw_rows (d ! wi) ! mi)"
    using c(12) [of wi mi] by (auto split: if_splits)
  have mem: "?k \<in> fst ` set (wl_trace walk)" using tr by force
  note at = c(13) [OF mem]
  have mi: "mi < length (wo_candidates (dw_work (d ! wi)))" using at by simp
  have killed: "sc_outcome (dw_rows (d ! wi) ! mi) = MutantKilled" "killer \<noteq> TimeoutKiller" using at by (auto simp: confirmable_def killer)
  then obtain m where m: "Mutant (wo_candidates (window ! wi) ! mi) = Some m" "execute (window ! wi) m = Inr (dw_rows (d ! wi) ! mi)"
    using drained_kill [OF c(1) wi] mi unfolding c(2) by blast
  have "confirm_kill serial (map dw_rows d) ?k mode = Inr Flipped" using c(7) tr by fastforce
  then obtain s where s: "serial_row serial (map dw_rows d) ?k = Inr s" "classifyConfirmation (sc_outcome s) (sc_killer s) = Flipped"
    by (auto simp: confirm_kill_def split: sum.splits)
  then have out: "sc_outcome s = MutantSurvived" by (cases "sc_outcome s") (auto simp: classifyConfirmation_def split: if_splits)
  have "rows ! wi ! mi = s" using c(11) [OF wi mi] mem s(1) by simp
  moreover have "mi < length (rows ! wi)"
    using c(10) [of wi] drained_row(1) [OF c(1) wi, folded c(2)] wi mi by (simp add: c(9))
  moreover have "serial ?k killer = Inr s" using s(1) wi by (simp add: serial_row_def row_of_def c(9) killer)
  ultimately show ?thesis
    using m killed killer out mi wi by (auto simp: c(4,6,8,9) nth_enumerate_eq scores_of_def)
qed

subsection \<open>A window\<close>

definition window_candidate :: "string \<Rightarrow> candidate" where
  "window_candidate pos = runnable (cand pos ''neg'')"

definition window_work :: work where
  "window_work = sample_work\<lparr>wo_candidates := map window_candidate [''1'', ''2'', ''3'', ''4'', ''5'']\<rparr>"

definition killed_by :: "string \<Rightarrow> scored" where
  "killed_by killer = zero_scored\<lparr>sc_outcome := MutantKilled, sc_killer := killer\<rparr>"

definition pool_kills :: "work \<Rightarrow> mutant \<Rightarrow> string + scored" where
  "pool_kills w m = Inr (killed_by ''p.TestA'')"

definition serial_kills :: "string serial_run" where
  "serial_kills k killer = Inr (if wk_target k = 1 then zero_scored\<lparr>sc_outcome := MutantSurvived\<rparr> else killed_by killer)"

definition one_window :: "string + executed_window" where
  "one_window = executeWindow 2 pool_kills serial_kills None [window_work]"

definition flipped_window :: "string + executed_window" where
  "flipped_window = executeWindow 2 pool_kills serial_kills None [window_work, window_work\<lparr>wo_candidates := [window_candidate ''9'']\<rparr>]"

definition stopped_window :: "string + executed_window" where
  "stopped_window = executeWindow 2 pool_kills serial_kills (Some (0, 2)) [window_work, window_work]"

lemma window_examples: "\<not> isl one_window" "\<not> isl flipped_window" "\<not> isl stopped_window"
  "map (\<lambda>w. length (wo_candidates w)) (xw_window (projr stopped_window)) = [2, 0]"
  "map (\<lambda>w. length (wo_candidates w)) (xw_window (projr one_window)) = [5]"
  "ws_outcomes (xw_scores (projr one_window) ! 0) = replicate 5 MutantKilled"
  "ws_killers (xw_scores (projr one_window) ! 0) = replicate 5 ''p.TestA''"
  "ws_flips (xw_scores (projr flipped_window) ! 1) 0 = Some ''p.TestA''"
  by code_simp+

lemma window_runs: "executeWindow 2 pool_kills serial_kills None [window_work] = Inr (projr one_window)"
  "executeWindow 2 pool_kills serial_kills None [window_work, window_work\<lparr>wo_candidates := [window_candidate ''9'']\<rparr>] = Inr (projr flipped_window)"
  "executeWindow 2 pool_kills serial_kills (Some (0, 2)) [window_work, window_work] = Inr (projr stopped_window)"
  using sum.collapse(2) [OF window_examples(1)] sum.collapse(2) [OF window_examples(2)] sum.collapse(2) [OF window_examples(3)]
  by (simp_all add: one_window_def flipped_window_def stopped_window_def)

theorem drained_window_is_a_capped_run_witness:
  "xw_window (projr stopped_window) = capped_window 0 2 [window_work, window_work] \<and>
   xw_caps (projr stopped_window) = [Some 2, None] \<and> xw_discard (projr stopped_window) = Some [False, True]"
  using drained_window_is_a_capped_run [OF _ window_runs(3)]
  by (simp add: candidate_blind_def pool_kills_def fresh_work_def window_work_def sample_work_def enumerate_eq_zip upt_rec)

theorem window_kills_stand_witness:
  "sc_killer (killed_by ''p.TestA'') = ws_killers (xw_scores (projr one_window) ! 0) ! 4 \<and>
   ((\<exists>m p s. Mutant (wo_candidates window_work ! 4) = Some m \<and> pool_kills window_work m = Inr p \<and>
      serial_kills \<lparr>wk_target = 0, wk_mi = 4\<rparr> (sc_killer p) = Inr s \<and> sc_killer s = ''p.TestA'') \<or>
    list_all (\<lambda>s. ws_flips s = Map.empty) (xw_scores (projr one_window)))"
proof -
  have len: "length (xw_window (projr one_window)) = 1" using arg_cong [OF window_examples(5), of length] by simp
  then have five: "length (wo_candidates (xw_window (projr one_window) ! 0)) = 5"
    using arg_cong [OF window_examples(5), of "\<lambda>xs. xs ! 0"] by simp
  show ?thesis
    using window_kills_stand [OF _ window_runs(1), of 0 4] five
    by (auto simp: window_examples(6,7) TimeoutKiller_def killed_by_def)
qed

theorem flips_are_withdrawn_kills_witness:
  "ws_outcomes (xw_scores (projr flipped_window) ! 1) ! 0 = MutantSurvived"
  using flips_are_withdrawn_kills [OF _ window_runs(2) _ window_examples(8)] by simp

end
