(* ===== verification/Reconcile.thy ===== *)
theory Reconcile
  imports Splice Schedule Portable
begin

text \<open>
  The evidence of a measurement (\<open>reconcile.go\<close>, \<open>freshness.go\<close>, \<open>findings.go\<close>): the union of the processes'
  runtime-input observations, what it attaches to the subjects, and its reconciliation with a served record.

  The observations are values of the library package \<open>runtimeinput\<close>; its functions are the fields of
  \<open>runtime_ops\<close>, each under the environment and the tree of the run. The process identities the
  code passes them carry a counter and are left out. \<open>runtime_laws\<close> states what the library documents and
  the code relies on: an unverifiable state stays unverifiable.
\<close>

subsection \<open>The library\<close>

record subject_view =
  vw_symbol :: string
  vw_evidenceDir :: string

record runtime_ops =
  ri_merge :: "observation list \<Rightarrow> string + observation"
  ri_incomplete :: "string \<Rightarrow> string + observation"
  ri_adopt :: "string \<Rightarrow> string \<Rightarrow> string + observation"
  ri_absolute :: "string \<Rightarrow> observation \<Rightarrow> string + observation"
  ri_relative :: "string \<Rightarrow> observation \<Rightarrow> string + observation"
  ri_state :: "observation \<Rightarrow> string + runtime_state"
  ri_manifest :: "observation \<Rightarrow> string"
  ri_paths :: "string \<Rightarrow> string list option"
  ri_attribution :: "observation \<Rightarrow> string"
  ri_refusal :: "string \<Rightarrow> string"
  ri_attach :: "subject_view \<Rightarrow> observation \<Rightarrow> string + fingerprint"

definition runtime_laws :: "runtime_ops \<Rightarrow> bool" where
  "runtime_laws ops \<longleftrightarrow>
     (\<forall>os ob. ri_merge ops os = Inr ob \<longrightarrow> (\<exists>x \<in> set os. ob_Unverifiable x) \<longrightarrow> ob_Unverifiable ob) \<and>
     (\<forall>reason ob. ri_incomplete ops reason = Inr ob \<longrightarrow> ob_Unverifiable ob) \<and>
     (\<forall>dir ob ob'. ri_relative ops dir ob = Inr ob' \<longrightarrow> ob_Unverifiable ob' = ob_Unverifiable ob) \<and>
     (\<forall>ob st. ri_state ops ob = Inr st \<longrightarrow> rs_Unverifiable st = ob_Unverifiable ob)"

text \<open>The class \<open>errEvidenceFinalization\<close>, which refuses one target, and every other error.\<close>

datatype evidence_error = Finalization string | RuntimeFailure string

definition finalizing :: "string + 'a \<Rightarrow> evidence_error + 'a" where
  "finalizing x = (case x of Inl e \<Rightarrow> Inl (Finalization e) | Inr v \<Rightarrow> Inr v)"

definition failing :: "string + 'a \<Rightarrow> evidence_error + 'a" where
  "failing x = (case x of Inl e \<Rightarrow> Inl (RuntimeFailure e) | Inr v \<Rightarrow> Inr v)"

definition completedEvidence :: "runtime_ops \<Rightarrow> observation \<Rightarrow> string + runtime_state \<times> string" where
  "completedEvidence ops ob =
     (case ri_state ops ob of
        Inl e \<Rightarrow> Inl e
      | Inr st \<Rightarrow> Inr (st, evidenceAttribution (ri_refusal ops) (ri_attribution ops ob) (rs_Reason st)))"

definition evidenceFromFingerprint :: "string \<Rightarrow> fingerprint \<Rightarrow> runtime_state \<times> string \<Rightarrow> subject_evidence" where
  "evidenceFromFingerprint symbol fp re =
     zero_evidence\<lparr>e_Symbol := symbol, e_Fingerprint := fp, e_RuntimeUnverifiable := rs_Unverifiable (fst re),
       e_RuntimeReason := rs_Reason (fst re), e_RuntimeAttribution := snd re\<rparr>"

definition cappedNameList :: "string list \<Rightarrow> string \<Rightarrow> string" where
  "cappedNameList names noun =
     (if length names \<le> 3 then join '', '' names
      else nat_dec (length names) @ '' '' @ noun @ '': '' @ join '', '' (take 3 names) @ '', ... (+'' @ nat_dec (length names - 3) @ '' more)'')"

subsection \<open>Unions\<close>

definition merge_delta :: "runtime_ops \<Rightarrow> observation list \<Rightarrow> string list" where
  "merge_delta ops states =
     (case find (\<lambda>delta. delta \<noteq> []) (map (\<lambda>x. manifestPathDelta (ri_paths ops (ri_manifest ops (hd states)))
         (ri_paths ops (ri_manifest ops x))) (tl states)) of
        None \<Rightarrow> [] | Some delta \<Rightarrow> delta)"

definition diverging :: "string list \<Rightarrow> string" where
  "diverging delta = (if delta = [] then [] else ''; diverging inputs: '' @ cappedNameList delta ''inputs'')"

text \<open>What is left of a union that does not merge: an incomplete observation and whatever merges into it.\<close>

definition salvage :: "runtime_ops \<Rightarrow> observation list \<Rightarrow> observation \<Rightarrow> observation" where
  "salvage ops states result =
     fold (\<lambda>x result. if ri_manifest ops x = [] then result
       else case ri_merge ops [result, x] of Inl _ \<Rightarrow> result | Inr merged \<Rightarrow> merged) states result"

definition mergeFindingObservations :: "runtime_ops \<Rightarrow> observation list \<Rightarrow> string + observation" where
  "mergeFindingObservations ops states =
     (case ri_merge ops states of
        Inr ob \<Rightarrow> Inr ob
      | Inl e \<Rightarrow>
          (case ri_incomplete ops (''runtime input observations could not be merged for reuse: '' @ e @ diverging (merge_delta ops states)) of
             Inl e \<Rightarrow> Inl e
           | Inr result \<Rightarrow> Inr (salvage ops states result)))"

text \<open>The processes of a walk: the runnable candidates, restricted to the flagged ones in a splice.\<close>

definition walked :: "nat set option \<Rightarrow> candidate list \<Rightarrow> nat list" where
  "walked only candidates =
     filter (\<lambda>mi. (case only of None \<Rightarrow> True | Some fl \<Rightarrow> mi \<in> fl) \<and> Mutant (candidates ! mi) \<noteq> None) [0..<length candidates]"

definition completedObservationUnion :: "runtime_ops \<Rightarrow> observation list \<Rightarrow> candidate list \<Rightarrow> outcome list \<Rightarrow> observation list \<Rightarrow>
    string list \<Rightarrow> nat set option \<Rightarrow> string + observation \<times> candidate_evidence list" where
  "completedObservationUnion ops baselines candidates outcomes observations incompletes only =
     (let processes = walked only candidates;
          evidence = map (\<lambda>mi. \<lparr>ce_Position = c_Position (candidates ! mi), ce_Operator = c_Operator (candidates ! mi),
              ce_Reason = incompletes ! mi, ce_Disposition = outcomeDisposition (outcomes ! mi)\<rparr>)
            (filter (\<lambda>mi. incompletes ! mi \<noteq> []) processes);
          states = map (\<lambda>mi. observations ! mi) (filter (\<lambda>mi. incompletes ! mi = []) processes) in
      case mergeFindingObservations ops (baselines @ states) of
        Inl e \<Rightarrow> Inl e
      | Inr un \<Rightarrow> Inr (un, evidence))"

subsection \<open>Attaching a un\<close>

definition attachSubjectEvidence :: "runtime_ops \<Rightarrow> observation \<Rightarrow> subject_view \<Rightarrow> evidence_error + subject_evidence" where
  "attachSubjectEvidence ops un v =
     (case ri_relative ops (vw_evidenceDir v) un of
        Inl e \<Rightarrow> Inl (Finalization e)
      | Inr ob \<Rightarrow>
          (case completedEvidence ops ob of
             Inl e \<Rightarrow> Inl (Finalization e)
           | Inr re \<Rightarrow>
               (case ri_attach ops v ob of
                  Inl e \<Rightarrow> Inl (Finalization e)
                | Inr fp \<Rightarrow> Inr (evidenceFromFingerprint (vw_symbol v) fp re))))"

fun attach_all :: "runtime_ops \<Rightarrow> observation \<Rightarrow> subject_view list \<Rightarrow> evidence_error + subject_evidence list" where
  "attach_all ops un [] = Inr []"
| "attach_all ops un (v # vs) =
     (case attachSubjectEvidence ops un v of
        Inl e \<Rightarrow> Inl e
      | Inr ev \<Rightarrow> (case attach_all ops un vs of Inl e \<Rightarrow> Inl e | Inr evs \<Rightarrow> Inr (ev # evs)))"

definition attachOracleEvidence :: "runtime_ops \<Rightarrow> observation \<Rightarrow> subject_view list \<Rightarrow> evidence_error + subject_evidence list" where
  "attachOracleEvidence ops un oracle =
     (case attach_all ops un oracle of Inl e \<Rightarrow> Inl e | Inr evs \<Rightarrow> Inr (sort_key e_Symbol evs))"

definition attachEvidence :: "runtime_ops \<Rightarrow> observation \<Rightarrow> subject_view \<Rightarrow> subject_view list \<Rightarrow>
    evidence_error + subject_evidence \<times> subject_evidence list" where
  "attachEvidence ops un target oracle =
     (case attachSubjectEvidence ops un target of
        Inl e \<Rightarrow> Inl e
      | Inr te \<Rightarrow> (case attachOracleEvidence ops un oracle of Inl e \<Rightarrow> Inl e | Inr oes \<Rightarrow> Inr (te, oes)))"

definition stamp_row :: "string \<Rightarrow> subject_evidence \<Rightarrow> subject_evidence" where
  "stamp_row reason ev =
     (let ev = ev\<lparr>e_RuntimeAttribution := []\<rparr> in
      if \<not> e_RuntimeUnverifiable ev \<or> e_RuntimeReason ev = [] then ev\<lparr>e_RuntimeUnverifiable := True, e_RuntimeReason := reason\<rparr> else ev)"

definition stampUnverifiable :: "string \<Rightarrow> finding \<Rightarrow> finding" where
  "stampUnverifiable reason f =
     (let f = f\<lparr>f_EvidenceFault := reason, f_OracleEvidence := map (stamp_row reason) (f_OracleEvidence f)\<rparr> in
      if f_Shape f = None then f\<lparr>f_TargetEvidence := stamp_row reason (f_TargetEvidence f)\<rparr> else f)"

subsection \<open>Reconciling a served record\<close>

definition evidenceBase :: "string \<Rightarrow> subject_evidence \<Rightarrow> string" where
  "evidenceBase treeDir ev = (if e_ModuleBase ev = [] then treeDir else path_join treeDir (e_ModuleBase ev))"

definition foldRecordedUnion :: "runtime_ops \<Rightarrow> finding \<Rightarrow> string \<Rightarrow> observation \<Rightarrow> string + observation" where
  "foldRecordedUnion ops rec moduleDir un =
     (case ri_adopt ops (fp_RuntimeInputs (e_Fingerprint (f_TargetEvidence rec))) moduleDir of
        Inl _ \<Rightarrow> Inr un
      | Inr adopted \<Rightarrow>
          (case ri_absolute ops moduleDir adopted of
             Inl _ \<Rightarrow> Inr un
           | Inr adopted \<Rightarrow> mergeFindingObservations ops [un, adopted]))"

definition stamp_at :: "runtime_ops \<Rightarrow> string \<Rightarrow> observation \<Rightarrow> subject_evidence \<Rightarrow> evidence_error + subject_evidence" where
  "stamp_at ops treeDir un ev =
     (case ri_relative ops (evidenceBase treeDir ev) un of
        Inl e \<Rightarrow> Inl (Finalization e)
      | Inr stamped \<Rightarrow>
          (case completedEvidence ops stamped of
             Inl e \<Rightarrow> Inl (RuntimeFailure e)
           | Inr (st, attribution) \<Rightarrow> Inr (withRuntimeState ev st attribution)))"

fun stamp_all :: "runtime_ops \<Rightarrow> string \<Rightarrow> observation \<Rightarrow> subject_evidence list \<Rightarrow> evidence_error + subject_evidence list" where
  "stamp_all ops treeDir un [] = Inr []"
| "stamp_all ops treeDir un (ev # evs) =
     (case stamp_at ops treeDir un ev of
        Inl e \<Rightarrow> Inl e
      | Inr ev' \<Rightarrow> (case stamp_all ops treeDir un evs of Inl e \<Rightarrow> Inl e | Inr evs' \<Rightarrow> Inr (ev' # evs')))"

text \<open>The union a diverged record is stamped with: a verifiable one takes an incomplete observation in.\<close>

definition diverged_union :: "runtime_ops \<Rightarrow> finding \<Rightarrow> observation \<Rightarrow> runtime_state \<Rightarrow> string + observation" where
  "diverged_union ops rec un st =
     (if rs_Unverifiable st then Inr un
      else
        (let delta = manifestPathDelta (ri_paths ops (fp_RuntimeInputs (e_Fingerprint (f_TargetEvidence rec)))) (ri_paths ops (rs_Manifest st)) in
         case ri_incomplete ops (''runtime input observations diverged from the served record's completed-process union'' @ diverging delta) of
           Inl e \<Rightarrow> Inl e
         | Inr incomplete \<Rightarrow>
             (case mergeFindingObservations ops [un, incomplete] of
                Inl e \<Rightarrow> Inl e
              | Inr merged \<Rightarrow> (case ri_state ops merged of Inl e \<Rightarrow> Inl e | Inr _ \<Rightarrow> Inr merged))))"

definition applySplicedUnion :: "runtime_ops \<Rightarrow> string \<Rightarrow> finding \<Rightarrow> observation \<Rightarrow> string \<Rightarrow> evidence_error + observation \<times> finding" where
  "applySplicedUnion ops treeDir rec un recordBase =
     (case failing (ri_state ops un) of
        Inl e \<Rightarrow> Inl e
      | Inr st \<Rightarrow>
     (case finalizing (ri_relative ops recordBase un) of
        Inl e \<Rightarrow> Inl e
      | Inr rel \<Rightarrow>
     (case finalizing (ri_state ops rel) of
        Inl e \<Rightarrow> Inl e
      | Inr relState \<Rightarrow>
          if \<not> splicedUnionDiverged relState (f_TargetEvidence rec) \<or> \<not> splicedUnionDiverged st (f_TargetEvidence rec) then Inr (un, rec)
          else
     (case failing (diverged_union ops rec un st) of
        Inl e \<Rightarrow> Inl e
      | Inr un \<Rightarrow>
     (case stamp_at ops treeDir un (f_TargetEvidence rec) of
        Inl e \<Rightarrow> Inl e
      | Inr te \<Rightarrow>
     (case stamp_all ops treeDir un (f_OracleEvidence rec) of
        Inl e \<Rightarrow> Inl e
      | Inr oes \<Rightarrow> Inr (un, rec\<lparr>f_TargetEvidence := te, f_OracleEvidence := oes\<rparr>)))))))"

text \<open>\<open>preserved\<close> is the library's judgment that the current view's ledger preserves a recorded one's bindings.\<close>

definition splicedCompartmentLedger :: "(compartment_ledger \<Rightarrow> bool) \<Rightarrow> compartment_ledger \<Rightarrow> compartment_ledger option \<Rightarrow>
    compartment_ledger option" where
  "splicedCompartmentLedger preserved current prior =
     (case prior of None \<Rightarrow> None | Some l \<Rightarrow> if preserved l then Some current else Some l)"

definition spliceRecordedEvidence :: "runtime_ops \<Rightarrow> string \<Rightarrow> (compartment_ledger \<Rightarrow> bool) \<Rightarrow> compartment_ledger \<Rightarrow> finding \<Rightarrow>
    candidate list \<Rightarrow> nat set \<Rightarrow> observation list \<Rightarrow> subject_view \<Rightarrow> subject_view list \<Rightarrow> outcome list \<Rightarrow> observation list \<Rightarrow>
    string list \<Rightarrow> string list \<Rightarrow> bool \<Rightarrow> bool \<Rightarrow> evidence_error + finding \<times> candidate_evidence list" where
  "spliceRecordedEvidence ops treeDir preserved current rec candidates reExecuted baselines target oracle outcomes observations incompletes labels
      foldRecorded cached =
     (case failing (completedObservationUnion ops baselines candidates outcomes observations incompletes (Some reExecuted)) of
        Inl e \<Rightarrow> Inl e
      | Inr (un, fresh) \<Rightarrow>
     (let base = evidenceBase treeDir (f_TargetEvidence rec) in
      case failing (if foldRecorded then foldRecordedUnion ops rec base un else Inr un) of
        Inl e \<Rightarrow> Inl e
      | Inr un \<Rightarrow>
     (case applySplicedUnion ops treeDir rec un base of
        Inl e \<Rightarrow> Inl e
      | Inr (un, rec) \<Rightarrow>
     (case attachEvidence ops un target oracle of
        Inl e \<Rightarrow> Inl e
      | Inr _ \<Rightarrow> Inr (rec\<lparr>f_CompartmentLedger := splicedCompartmentLedger preserved current (f_CompartmentLedger rec), f_Labels := labels, f_Cached := cached\<rparr>, fresh)))))"

datatype reconcile_error = Evidence evidence_error | Counts splice_error

definition spliceServedFinding :: "runtime_ops \<Rightarrow> string \<Rightarrow> (compartment_ledger \<Rightarrow> bool) \<Rightarrow> compartment_ledger \<Rightarrow> durations \<Rightarrow> clause_ops \<Rightarrow>
    finding \<Rightarrow> candidate list \<Rightarrow> nat set \<Rightarrow> observation list \<Rightarrow> subject_view \<Rightarrow> subject_view list \<Rightarrow> window_scores \<Rightarrow> observation list \<Rightarrow>
    string list \<Rightarrow> string list \<Rightarrow> exemption list \<Rightarrow> int \<Rightarrow> int \<Rightarrow> bool \<Rightarrow> reconcile_error + finding" where
  "spliceServedFinding ops treeDir preserved current d xops rec candidates fl baselines target oracle scores observations incompletes labels
      exemptions memoryPin oracleBudget budgetDerived =
     (case spliceRecordedEvidence ops treeDir preserved current rec candidates fl baselines target oracle (ws_outcomes scores) observations
        incompletes labels False True of
        Inl e \<Rightarrow> Inl (Evidence e)
      | Inr (rec, fresh) \<Rightarrow>
          (case spliceFindingCounts d xops rec candidates fl scores fresh exemptions memoryPin oracleBudget budgetDerived of
             Inl e \<Rightarrow> Inl (Counts e)
           | Inr f \<Rightarrow> Inr f))"

definition spliceExtendedFinding :: "runtime_ops \<Rightarrow> string \<Rightarrow> (compartment_ledger \<Rightarrow> bool) \<Rightarrow> compartment_ledger \<Rightarrow> durations \<Rightarrow> clause_ops \<Rightarrow>
    finding \<Rightarrow> candidate list \<Rightarrow> nat \<Rightarrow> observation list \<Rightarrow> subject_view \<Rightarrow> subject_view list \<Rightarrow> window_scores \<Rightarrow> observation list \<Rightarrow>
    string list \<Rightarrow> string list \<Rightarrow> int \<Rightarrow> exemption list \<Rightarrow> int \<Rightarrow> int \<Rightarrow> bool \<Rightarrow> evidence_error + finding" where
  "spliceExtendedFinding ops treeDir preserved current d xops rec candidates from baselines target oracle scores observations incompletes labels
      budget exemptions memoryPin oracleBudget budgetDerived =
     (case spliceRecordedEvidence ops treeDir preserved current rec candidates {from..<length candidates} baselines target oracle (ws_outcomes scores)
        observations incompletes labels True False of
        Inl e \<Rightarrow> Inl e
      | Inr (rec, fresh) \<Rightarrow>
          Inr (extendFindingCounts d xops rec candidates from scores fresh budget exemptions memoryPin oracleBudget budgetDerived))"

subsection \<open>Verifiability\<close>

lemma laws_merge: "runtime_laws ops \<Longrightarrow> ri_merge ops os = Inr ob \<Longrightarrow> x \<in> set os \<Longrightarrow> ob_Unverifiable x \<Longrightarrow> ob_Unverifiable ob"
  by (auto simp: runtime_laws_def)

lemma laws_incomplete: "runtime_laws ops \<Longrightarrow> ri_incomplete ops reason = Inr ob \<Longrightarrow> ob_Unverifiable ob"
  by (auto simp: runtime_laws_def)

lemma laws_relative: "runtime_laws ops \<Longrightarrow> ri_relative ops dir ob = Inr ob' \<Longrightarrow> ob_Unverifiable ob' = ob_Unverifiable ob"
  by (auto simp: runtime_laws_def)

lemma laws_state: "runtime_laws ops \<Longrightarrow> ri_state ops ob = Inr st \<Longrightarrow> rs_Unverifiable st = ob_Unverifiable ob"
  by (auto simp: runtime_laws_def)

lemma salvage_unverifiable: "runtime_laws ops \<Longrightarrow> ob_Unverifiable result \<Longrightarrow> ob_Unverifiable (salvage ops states result)"
  unfolding salvage_def
proof (induction states arbitrary: result)
  case (Cons x states)
  have "ob_Unverifiable merged" if "ri_merge ops [result, x] = Inr merged" for merged
    using laws_merge [OF Cons.prems(1) that, of result] Cons.prems(2) by simp
  then show ?case using Cons.IH Cons.prems by (auto split: sum.split)
qed simp

lemma merge_verifiable:
  assumes "runtime_laws ops" "mergeFindingObservations ops states = Inr ob" "\<not> ob_Unverifiable ob"
  shows "list_all (\<lambda>x. \<not> ob_Unverifiable x) states"
  using assms laws_merge [OF assms(1)] laws_incomplete [OF assms(1)] salvage_unverifiable [OF assms(1)]
  by (auto simp: mergeFindingObservations_def list_all_iff split: sum.splits)

lemma union_run:
  assumes "completedObservationUnion ops baselines candidates outcomes observations incompletes only = Inr (un, evidence)"
  shows "mergeFindingObservations ops (baselines @ map (\<lambda>mi. observations ! mi)
      (filter (\<lambda>mi. incompletes ! mi = []) (walked only candidates))) = Inr un"
    "evidence = map (\<lambda>mi. \<lparr>ce_Position = c_Position (candidates ! mi), ce_Operator = c_Operator (candidates ! mi),
        ce_Reason = incompletes ! mi, ce_Disposition = outcomeDisposition (outcomes ! mi)\<rparr>)
      (filter (\<lambda>mi. incompletes ! mi \<noteq> []) (walked only candidates))"
  using assms by (auto simp: completedObservationUnion_def Let_def split: sum.splits)

text \<open>The processes of a measurement that left verifiable observations.\<close>

definition sound_processes :: "observation list \<Rightarrow> candidate list \<Rightarrow> observation list \<Rightarrow> string list \<Rightarrow> nat set option \<Rightarrow> bool" where
  "sound_processes baselines candidates observations incompletes only \<longleftrightarrow>
     list_all (\<lambda>b. \<not> ob_Unverifiable b) baselines \<and>
     list_all (\<lambda>mi. incompletes ! mi \<noteq> [] \<or> \<not> ob_Unverifiable (observations ! mi)) (walked only candidates)"

lemma union_sound:
  assumes "runtime_laws ops"
    and "completedObservationUnion ops baselines candidates outcomes observations incompletes only = Inr (un, evidence)"
    and "\<not> ob_Unverifiable un"
  shows "sound_processes baselines candidates observations incompletes only"
proof -
  have m: "\<forall>x \<in> set baselines \<union> (\<lambda>mi. observations ! mi) ` {mi \<in> set (walked only candidates). incompletes ! mi = []}. \<not> ob_Unverifiable x"
    using merge_verifiable [OF assms(1) union_run(1) [OF assms(2)] assms(3)] by (simp only: list_all_iff set_append set_map set_filter)
  show ?thesis
    unfolding sound_processes_def list_all_iff
  proof (intro conjI ballI)
    show "\<not> ob_Unverifiable b" if "b \<in> set baselines" for b using m that by blast
    show "incompletes ! mi \<noteq> [] \<or> \<not> ob_Unverifiable (observations ! mi)" if "mi \<in> set (walked only candidates)" for mi
      using m that by blast
  qed
qed

lemma stamp_at_unverifiable:
  assumes "runtime_laws ops" "ob_Unverifiable un" "stamp_at ops treeDir un ev = Inr ev'"
  shows "e_RuntimeUnverifiable ev'"
  using assms laws_relative [OF assms(1)] laws_state [OF assms(1)]
  by (auto simp: stamp_at_def completedEvidence_def withRuntimeState_def split: sum.splits)

lemma stamp_all_unverifiable:
  assumes "runtime_laws ops" "ob_Unverifiable un"
  shows "stamp_all ops treeDir un evs = Inr evs' \<Longrightarrow> list_all e_RuntimeUnverifiable evs'"
  by (induction evs arbitrary: evs') (auto split: sum.splits dest: stamp_at_unverifiable [OF assms])

lemma diverged_unverifiable:
  assumes "runtime_laws ops" "ri_state ops un = Inr st" "diverged_union ops rec un st = Inr un'"
  shows "ob_Unverifiable un'"
proof (cases "rs_Unverifiable st")
  case True
  then show ?thesis using assms laws_state [OF assms(1,2)] by (simp add: diverged_union_def)
next
  case False
  then obtain reason incomplete where i: "ri_incomplete ops reason = Inr incomplete" "mergeFindingObservations ops [un, incomplete] = Inr un'"
    using assms(3) by (auto simp: diverged_union_def Let_def split: sum.splits)
  show ?thesis
    using merge_verifiable [OF assms(1) i(2)] laws_incomplete [OF assms(1) i(1)] by auto
qed

lemma applied_union:
  assumes laws: "runtime_laws ops" and run: "applySplicedUnion ops treeDir rec un base = Inr (un', rec')"
  shows "rec' = rec \<and> un' = un \<and> \<not> ob_Unverifiable un \<and> (\<exists>st. \<not> splicedUnionDiverged st (f_TargetEvidence rec)) \<or>
    (\<exists>te oes. rec' = rec\<lparr>f_TargetEvidence := te, f_OracleEvidence := oes\<rparr> \<and> e_RuntimeUnverifiable te \<and> list_all e_RuntimeUnverifiable oes)"
proof -
  obtain st rel relState where s: "ri_state ops un = Inr st" "ri_relative ops base un = Inr rel" "ri_state ops rel = Inr relState"
    using run by (auto simp: applySplicedUnion_def failing_def finalizing_def split: sum.splits)
  have unv: "rs_Unverifiable st = ob_Unverifiable un" "rs_Unverifiable relState = ob_Unverifiable un"
    using laws_state [OF laws s(1)] laws_state [OF laws s(3)] laws_relative [OF laws s(2)] by simp_all
  show ?thesis
  proof (cases "splicedUnionDiverged relState (f_TargetEvidence rec) \<and> splicedUnionDiverged st (f_TargetEvidence rec)")
    case False
    then have "rec' = rec" "un' = un" using run s by (auto simp: applySplicedUnion_def failing_def finalizing_def)
    moreover have "\<not> ob_Unverifiable un" using False unv by (auto simp: splicedUnionDiverged_def)
    ultimately show ?thesis using False by blast
  next
    case True
    then obtain te oes where d: "diverged_union ops rec un st = Inr un'" "stamp_at ops treeDir un' (f_TargetEvidence rec) = Inr te"
      "stamp_all ops treeDir un' (f_OracleEvidence rec) = Inr oes" "rec' = rec\<lparr>f_TargetEvidence := te, f_OracleEvidence := oes\<rparr>"
      using run s by (auto simp: applySplicedUnion_def failing_def finalizing_def split: sum.splits)
    have "ob_Unverifiable un'" by (rule diverged_unverifiable [OF laws s(1) d(1)])
    then show ?thesis using stamp_at_unverifiable [OF laws _ d(2)] stamp_all_unverifiable [OF laws _ d(3)] d(4) by blast
  qed
qed

lemma spliced_evidence:
  assumes laws: "runtime_laws ops"
    and run: "spliceRecordedEvidence ops treeDir preserved current rec candidates re baselines target oracle outcomes observations
      incompletes labels foldRecorded cached = Inr (rec', fresh)"
  shows "rec' = rec\<lparr>f_TargetEvidence := f_TargetEvidence rec', f_OracleEvidence := f_OracleEvidence rec',
      f_CompartmentLedger := splicedCompartmentLedger preserved current (f_CompartmentLedger rec), f_Labels := labels, f_Cached := cached\<rparr>"
    and "f_TargetEvidence rec' = f_TargetEvidence rec \<and> f_OracleEvidence rec' = f_OracleEvidence rec \<and>
        sound_processes baselines candidates observations incompletes (Some re) \<or>
      list_all e_RuntimeUnverifiable (f_TargetEvidence rec' # f_OracleEvidence rec')"
    and "map ce_key fresh = map (\<lambda>mi. c_key (candidates ! mi)) (filter (\<lambda>mi. incompletes ! mi \<noteq> []) (walked (Some re) candidates))"
proof -
  let ?base = "evidenceBase treeDir (f_TargetEvidence rec)"
  obtain un0 un un' rec1 where s: "completedObservationUnion ops baselines candidates outcomes observations incompletes (Some re) = Inr (un0, fresh)"
    "(if foldRecorded then foldRecordedUnion ops rec ?base un0 else Inr un0) = Inr un" "applySplicedUnion ops treeDir rec un ?base = Inr (un', rec1)"
    "rec' = rec1\<lparr>f_CompartmentLedger := splicedCompartmentLedger preserved current (f_CompartmentLedger rec1), f_Labels := labels, f_Cached := cached\<rparr>"
    using run by (auto simp: spliceRecordedEvidence_def failing_def Let_def split: sum.splits prod.splits)
  have base: "\<not> ob_Unverifiable un \<Longrightarrow> \<not> ob_Unverifiable un0"
  proof (cases foldRecorded)
    case True
    assume v: "\<not> ob_Unverifiable un"
    have "un = un0 \<or> (\<exists>a. mergeFindingObservations ops [un0, a] = Inr un)"
      using s(2) True by (auto simp: foldRecordedUnion_def split: sum.splits)
    then show "\<not> ob_Unverifiable un0" using merge_verifiable [OF laws _ v] v by fastforce
  qed (use s(2) in simp)
  note a = applied_union [OF laws s(3)]
  then show "rec' = rec\<lparr>f_TargetEvidence := f_TargetEvidence rec', f_OracleEvidence := f_OracleEvidence rec',
      f_CompartmentLedger := splicedCompartmentLedger preserved current (f_CompartmentLedger rec), f_Labels := labels, f_Cached := cached\<rparr>"
    unfolding s(4) by (elim disjE exE conjE) simp_all
  show "f_TargetEvidence rec' = f_TargetEvidence rec \<and> f_OracleEvidence rec' = f_OracleEvidence rec \<and>
        sound_processes baselines candidates observations incompletes (Some re) \<or>
      list_all e_RuntimeUnverifiable (f_TargetEvidence rec' # f_OracleEvidence rec')"
    using a base union_sound [OF laws s(1)] unfolding s(4) by auto
  show "map ce_key fresh = map (\<lambda>mi. c_key (candidates ! mi)) (filter (\<lambda>mi. incompletes ! mi \<noteq> []) (walked (Some re) candidates))"
    using union_run(2) [OF s(1)] by (simp add: ce_key_def c_key_def)
qed

subsection \<open>Both splices\<close>

lemma mergeScoredFacts_frame [simp]:
  "f_TargetEvidence (mergeScoredFacts d rec scores pin ob derived) = f_TargetEvidence rec"
  "f_OracleEvidence (mergeScoredFacts d rec scores pin ob derived) = f_OracleEvidence rec"
  "f_Cached (mergeScoredFacts d rec scores pin ob derived) = f_Cached rec"
  "f_EvidenceFault (mergeScoredFacts d rec scores pin ob derived) = f_EvidenceFault rec"
  by (auto simp: mergeScoredFacts_def Let_def split: option.split)

lemma spliceFindingCounts_frame:
  assumes "spliceFindingCounts d xops rec candidates fl scores fresh xs pin ob derived = Inr f"
  shows "f_TargetEvidence f = f_TargetEvidence rec" "f_OracleEvidence f = f_OracleEvidence rec" "f_Cached f = f_Cached rec"
  using assms by (auto simp: spliceFindingCounts_def Let_def split: sum.splits option.splits prod.splits)

lemma extendFindingCounts_frame:
  "f_TargetEvidence (extendFindingCounts d xops rec candidates from scores fresh budget xs pin ob derived) = f_TargetEvidence rec"
  "f_OracleEvidence (extendFindingCounts d xops rec candidates from scores fresh budget xs pin ob derived) = f_OracleEvidence rec"
  "f_Cached (extendFindingCounts d xops rec candidates from scores fresh budget xs pin ob derived) = f_Cached rec"
  by (simp_all add: extendFindingCounts_def Let_def split: prod.split)

lemma reconciled_operators: "operators_wf (r\<lparr>f_TargetEvidence := te, f_OracleEvidence := oes, f_CompartmentLedger := cl, f_Labels := ls, f_Cached := ca\<rparr>) = operators_wf r"
  by (simp add: operators_wf_def)

text \<open>C16: A splice of a served record keeps every recorded pin or refuses reuse: its evidence rows are the recorded
  ones, and then every baseline and every re-executed process that did not name an incompleteness left a
  verifiable observation; or every row is stamped unverifiable. Nothing else of the record moves but the
  licensed ledger, the labels and the serve mark, and the fresh candidate evidence names exactly the re-executed
  candidates whose process was incomplete.\<close>

theorem splice_pins_or_refuses_reuse:
  assumes "runtime_laws ops"
    and "spliceRecordedEvidence ops treeDir preserved current rec candidates re baselines target oracle outcomes observations
      incompletes labels foldRecorded cached = Inr (rec', fresh)"
  shows "rec' = rec\<lparr>f_TargetEvidence := f_TargetEvidence rec', f_OracleEvidence := f_OracleEvidence rec',
      f_CompartmentLedger := splicedCompartmentLedger preserved current (f_CompartmentLedger rec), f_Labels := labels, f_Cached := cached\<rparr> \<and>
    (f_TargetEvidence rec' = f_TargetEvidence rec \<and> f_OracleEvidence rec' = f_OracleEvidence rec \<and>
       sound_processes baselines candidates observations incompletes (Some re) \<or>
     list_all e_RuntimeUnverifiable (f_TargetEvidence rec' # f_OracleEvidence rec')) \<and>
    map ce_key fresh = map (\<lambda>mi. c_key (candidates ! mi)) (filter (\<lambda>mi. incompletes ! mi \<noteq> []) (walked (Some re) candidates))"
  by (intro conjI spliced_evidence [OF assms])

text \<open>A capped record extended to a wider budget is a fresh measurement whose accounting balances over every candidate, and
  whose evidence keeps every pin or is unverifiable as a whole.\<close>

theorem extended_splice_is_sound:
  assumes laws: "runtime_laws ops" and wf: "operators_wf rec" "f_Generated rec = int from" "from \<le> length candidates"
    and op: "\<forall>c \<in> set (drop from candidates). c_Operator c \<noteq> []"
    and run: "spliceExtendedFinding ops treeDir preserved current d xops rec candidates from baselines target oracle scores observations
      incompletes labels budget xs pin ob derived = Inr f"
  shows "operators_wf f \<and> f_Generated f = int (length candidates) \<and> f_Mutants f = f_Killed f + int (length (f_Survivors f)) \<and>
    f_Generated f = f_Mutants f + f_Discarded f \<and> \<not> f_Cached f \<and>
    (f_TargetEvidence f = f_TargetEvidence rec \<and> f_OracleEvidence f = f_OracleEvidence rec \<or>
     list_all e_RuntimeUnverifiable (f_TargetEvidence f # f_OracleEvidence f))"
proof -
  obtain rec' fresh where s: "spliceRecordedEvidence ops treeDir preserved current rec candidates {from..<length candidates} baselines target oracle
      (ws_outcomes scores) observations incompletes labels True False = Inr (rec', fresh)"
    "f = extendFindingCounts d xops rec' candidates from scores fresh budget xs pin ob derived"
    using run by (auto simp: spliceExtendedFinding_def split: sum.splits prod.splits)
  note ev = spliced_evidence [OF laws s(1)]
  note same = reconciled_operators
  have rec': "operators_wf rec'" "f_Generated rec' = int from" "\<not> f_Cached rec'"
    by (subst ev(1), simp add: same wf)+
  show ?thesis
    using extend_counts [OF rec'(1,2) wf(3) op s(2)] rec'(3) ev(2) unfolding s(2) extendFindingCounts_frame by auto
qed

subsection \<open>A splice\<close>

definition plain_runtime :: runtime_ops where
  "plain_runtime = \<lparr>ri_merge = (\<lambda>os. Inr \<lparr>ob_Unverifiable = list_ex ob_Unverifiable os, ob_Rest = []\<rparr>),
     ri_incomplete = (\<lambda>_. Inr \<lparr>ob_Unverifiable = True, ob_Rest = ''incomplete''\<rparr>), ri_adopt = (\<lambda>_ _. Inl ''moved''),
     ri_absolute = (\<lambda>_. Inr), ri_relative = (\<lambda>_. Inr),
     ri_state = (\<lambda>ob. Inr \<lparr>rs_Manifest = ob_Rest ob, rs_Digest = ob_Rest ob, rs_Unverifiable = ob_Unverifiable ob, rs_Reason = []\<rparr>),
     ri_manifest = ob_Rest, ri_paths = Some \<circ> (\<lambda>m. [m]), ri_attribution = (\<lambda>_. []), ri_refusal = (\<lambda>_. []), ri_attach = (\<lambda>_ _. Inr zero_fingerprint)\<rparr>"

lemma plain_laws: "runtime_laws plain_runtime"
  by (auto simp: runtime_laws_def plain_runtime_def list_ex_iff)

definition plain_view :: subject_view where
  "plain_view = \<lparr>vw_symbol = ''pkg.F'', vw_evidenceDir = ''/w''\<rparr>"

definition seen_observation :: observation where
  "seen_observation = \<lparr>ob_Unverifiable = False, ob_Rest = ''m''\<rparr>"

definition no_ledger :: compartment_ledger where
  "no_ledger = \<lparr>cl_BindingStrategy = [], cl_BaseFiles = [], cl_Declarations = [], cl_FileHeaders = []\<rparr>"

abbreviation sample_splice :: "evidence_error + finding \<times> candidate_evidence list" where
  "sample_splice \<equiv> spliceRecordedEvidence plain_runtime ''/w'' (\<lambda>_. True) no_ledger splice_example (g_Candidates splice_generation) {1}
     [seen_observation] plain_view [] (ws_outcomes some_scores) [seen_observation, seen_observation] [[], []] [] False True"

lemmas splice_eval = completedObservationUnion_def walked_def mergeFindingObservations_def plain_runtime_def applySplicedUnion_def failing_def
  finalizing_def splicedUnionDiverged_def zero_evidence_def zero_fingerprint_def attachEvidence_def attachSubjectEvidence_def
  attachOracleEvidence_def completedEvidence_def seen_observation_def splicedCompartmentLedger_def

lemma sample_splice_runs: "sample_splice = Inr (splice_example\<lparr>f_Cached := True\<rparr>, [])"
  by (simp add: spliceRecordedEvidence_def splice_eval splice_example_defs upt_rec Mutant_def Let_def)

theorem splice_pins_or_refuses_reuse_witness:
  "map (\<lambda>mi. c_key (g_Candidates splice_generation ! mi))
     (filter (\<lambda>mi. [[], []] ! mi \<noteq> ([] :: string)) (walked (Some {1}) (g_Candidates splice_generation))) = [] \<and>
   f_Cached (splice_example\<lparr>f_Cached := True\<rparr>)"
  using splice_pins_or_refuses_reuse [OF plain_laws sample_splice_runs] by simp

abbreviation sample_extended :: "evidence_error + finding" where
  "sample_extended \<equiv> spliceExtendedFinding plain_runtime ''/w'' (\<lambda>_. True) no_ledger some_durations plain_ops extend_example
     [cand ''1'' ''neg'', cand ''2'' ''neg'', cand ''3'' ''add''] 1 [seen_observation] plain_view [] some_scores [] [] [] 3 [] 0 0 False"

lemma sample_extends: "\<exists>f. sample_extended = Inr f"
  by (simp add: spliceExtendedFinding_def spliceRecordedEvidence_def splice_eval foldRecordedUnion_def
      extend_example_def zero_finding_def cand_def upt_rec Mutant_def Let_def)

theorem extended_splice_is_sound_witness:
  "\<exists>f. sample_extended = Inr f \<and> f_Generated f = 3 \<and> f_Generated f = f_Mutants f + f_Discarded f"
proof -
  obtain f where f: "sample_extended = Inr f" using sample_extends by blast
  have "operators_wf extend_example"
    by (simp add: operators_wf_def extend_example_def zero_finding_def operator_row_ok_def)
  moreover have "f_Generated extend_example = int 1" by (simp add: extend_example_def)
  moreover have "\<forall>c \<in> set (drop 1 [cand ''1'' ''neg'', cand ''2'' ''neg'', cand ''3'' ''add'']). c_Operator c \<noteq> []"
    by (simp add: cand_def)
  ultimately show ?thesis using extended_splice_is_sound [OF plain_laws _ _ _ _ f] f by simp
qed

end
