(* ===== verification/Paths.thy ===== *)
theory Paths
  imports GoStrings
begin

text \<open>
  The lexical part of \<open>path/filepath\<close> the provenance code uses beside \<open>Clean\<close>, \<open>Base\<close> and \<open>Join\<close>:
  \<open>Dir\<close>, \<open>IsAbs\<close>, \<open>Rel\<close> and \<open>IsLocal\<close>, for the separator \<open>/\<close>; and the walk from a directory to its
  ancestors, which ends because a proper parent has a smaller rank.
\<close>

definition path_dir :: "string \<Rightarrow> string" where
  "path_dir s = (case cut_last CHR ''/'' s of None \<Rightarrow> ''.'' | Some (a, _) \<Rightarrow> path_clean (a @ ''/''))"

definition is_abs :: "string \<Rightarrow> bool" where
  "is_abs s = has_prefix s ''/''"

definition path_parts :: "string \<Rightarrow> string list" where
  "path_parts s = (let c = path_clean s in if c = ''.'' then [] else filter (\<lambda>p. p \<noteq> []) (split_on CHR ''/'' c))"

fun strip_common :: "string list \<Rightarrow> string list \<Rightarrow> string list \<times> string list" where
  "strip_common (b # bs) (t # ts) = (if b = t then strip_common bs ts else (b # bs, t # ts))"
| "strip_common bs ts = (bs, ts)"

definition path_rel :: "string \<Rightarrow> string \<Rightarrow> string option" where
  "path_rel base targ =
     (if is_abs base \<noteq> is_abs targ then None
      else case strip_common (path_parts base) (path_parts targ) of
        (bs, ts) \<Rightarrow>
          if bs \<noteq> [] \<and> hd bs = ''..'' then None
          else if bs = [] \<and> ts = [] then Some ''.''
          else Some (join ''/'' (replicate (length bs) ''..'' @ ts)))"

definition is_local :: "string \<Rightarrow> bool" where
  "is_local s \<longleftrightarrow> s \<noteq> [] \<and> \<not> is_abs s \<and> path_clean s \<noteq> ''..'' \<and> \<not> has_prefix (path_clean s) ''../''"

subsection \<open>A cleaned path is no longer\<close>

definition parts_size :: "string list \<Rightarrow> nat" where
  "parts_size ps = (\<Sum>p\<leftarrow>ps. length p + 1)"

lemma parts_size_simps [simp]:
  "parts_size [] = 0" "parts_size (p # ps) = length p + 1 + parts_size ps" "parts_size (ps @ qs) = parts_size ps + parts_size qs"
  "parts_size (rev ps) = parts_size ps"
  by (simp_all add: parts_size_def rev_map [symmetric])

lemma join_size: "length (join ''/'' ps) = parts_size ps - 1"
  by (induction ps rule: induct_list012) auto

lemma split_size: "parts_size (split_on c s) = length s + 1"
proof (induction s)
  case (Cons a s)
  then show ?case by (cases "split_on c s") auto
qed simp

lemma clean_size: "parts_size (clean_parts rooted acc ps) + length (filter (\<lambda>p. p = []) ps) \<le> parts_size acc + parts_size ps"
proof (induction rooted acc ps rule: clean_parts.induct)
  case (2 rooted acc p ps)
  then show ?case by (auto split: list.splits if_splits)
qed simp

lemma split_snoc: "split_on c (s @ [c]) = split_on c s @ [[]]"
proof (induction s)
  case (Cons a s)
  then show ?case by (cases "split_on c s"; cases "split_on c (s @ [c])") (auto simp: split_on_not_Nil)
qed simp

lemma clean_slash_length:
  assumes "u \<noteq> []" shows "length (path_clean (u @ ''/'')) \<le> length u"
proof -
  let ?ps = "split_on CHR ''/'' (u @ ''/'')"
  define cs where "cs = clean_parts (hd u = CHR ''/'') [] ?ps"
  have size: "parts_size ?ps = length u + 2" by (simp add: split_size)
  have cs: "parts_size cs + length (filter (\<lambda>p. p = []) ?ps) \<le> length u + 2"
    using clean_size [of _ "[]" ?ps] size unfolding cs_def by (metis add_0 parts_size_simps(1))
  have last: "length (filter (\<lambda>p. p = []) ?ps) \<ge> 1" by (simp add: split_snoc)
  have pos: "length u \<ge> 1" using assms by (cases u) auto
  have eq: "path_clean (u @ ''/'') = (if hd u = CHR ''/'' then CHR ''/'' # join ''/'' cs
      else if join ''/'' cs = [] then ''.'' else join ''/'' cs)"
    using assms by (simp add: path_clean_def Let_def cs_def)
  show ?thesis
  proof (cases "hd u = CHR ''/''")
    case True
    then obtain t where u: "u = CHR ''/'' # t" using assms by (cases u) auto
    have "length (filter (\<lambda>p. p = []) ?ps) \<ge> 2" by (simp add: u split_snoc)
    then have "parts_size cs \<le> length u" using cs by simp
    then show ?thesis using True eq pos by (simp add: join_size)
  next
    case False
    then show ?thesis using eq cs last pos by (auto simp: join_size)
  qed
qed

text \<open>The rank that falls from a directory to a proper parent: \<open>.\<close> is its own parent.\<close>

definition dir_rank :: "string \<Rightarrow> nat" where
  "dir_rank d = (if d = ''.'' then 0 else length d + 1)"

lemma parent_rank:
  assumes "path_dir d \<noteq> d" shows "dir_rank (path_dir d) < dir_rank d"
proof (cases "cut_last CHR ''/'' d")
  case None
  then show ?thesis using assms by (simp add: path_dir_def dir_rank_def)
next
  case (Some ab)
  obtain a b where ab: "ab = (a, b)" by (cases ab)
  have d: "d = a @ CHR ''/'' # b" using Some ab cut_last_Some by metis
  have dir: "path_dir d = path_clean (a @ ''/'')" by (simp add: path_dir_def Some ab)
  have nd: "d \<noteq> ''.''" using d by (cases a) auto
  show ?thesis
  proof (cases "a = []")
    case True
    have root: "path_clean ''/'' = ''/''" by (simp add: path_clean_def)
    have "b \<noteq> []" using assms dir d True root by auto
    then show ?thesis using dir True root d nd by (simp add: dir_rank_def)
  next
    case False
    then show ?thesis using clean_slash_length [OF False] dir d nd by (simp add: dir_rank_def)
  qed
qed

subsection \<open>The walk to the ancestors\<close>

function ascend :: "(string \<Rightarrow> 'a option) \<Rightarrow> string \<Rightarrow> 'a option" where
  "ascend probe dir =
     (case probe dir of
        Some x \<Rightarrow> Some x
      | None \<Rightarrow> let parent = path_dir dir in if parent = dir then None else ascend probe parent)"
  by pat_completeness auto
termination by (relation "measure (\<lambda>(_, d). dir_rank d)") (auto simp: parent_rank)

declare ascend.simps [simp del]

inductive ancestor :: "string \<Rightarrow> string \<Rightarrow> bool" for dir where
  self: "ancestor dir dir"
| parent: "ancestor dir d \<Longrightarrow> ancestor dir (path_dir d)"

lemma ancestor_parent: "ancestor (path_dir dir) d \<Longrightarrow> ancestor dir d"
  by (induction rule: ancestor.induct) (auto intro: ancestor.intros)

text \<open>The walk answers with the probe of an ancestor, and gives up only when none answers.\<close>

lemma ascend_Some: "ascend probe dir = Some x \<Longrightarrow> \<exists>d. ancestor dir d \<and> probe d = Some x"
proof (induction probe dir rule: ascend.induct)
  case (1 probe dir)
  show ?case
  proof (cases "probe dir")
    case None
    have "path_dir dir \<noteq> dir" "ascend probe (path_dir dir) = Some x"
      using 1(2) None by (auto simp: ascend.simps [of probe dir] Let_def split: if_splits)
    then show ?thesis using 1(1) [OF None refl] ancestor_parent by blast
  next
    case (Some y)
    then show ?thesis using 1(2) ancestor.self [of dir] by (auto simp: ascend.simps [of probe dir])
  qed
qed

lemma ancestor_below: "ancestor dir d \<Longrightarrow> d = dir \<or> ancestor (path_dir dir) d"
  by (induction rule: ancestor.induct) (auto intro: ancestor.intros)

lemma ancestor_root: "path_dir dir = dir \<Longrightarrow> ancestor dir d \<Longrightarrow> d = dir"
proof -
  assume root: "path_dir dir = dir" and "ancestor dir d"
  from this(2) show "d = dir" by (induction rule: ancestor.induct) (simp_all add: root)
qed

lemma ascend_None: "ascend probe dir = None \<Longrightarrow> ancestor dir d \<Longrightarrow> probe d = None"
proof (induction probe dir rule: ascend.induct)
  case (1 probe dir)
  have none: "probe dir = None" using 1(2) by (auto simp: ascend.simps [of probe dir] split: option.splits)
  show ?case
  proof (cases "path_dir dir = dir")
    case True
    then show ?thesis using ancestor_root [OF True 1(3)] none by simp
  next
    case False
    then have "ascend probe (path_dir dir) = None" using 1(2) none by (simp add: ascend.simps [of probe dir] Let_def)
    then show ?thesis using 1(1) [OF none refl False] ancestor_below [OF 1(3)] none by blast
  qed
qed

end
