(* ===== verification/Provenance.thy ===== *)
theory Provenance
  imports Reconcile Paths
begin

text \<open>
  The provenance of a record (\<open>provenance.go\<close>, and the stamp in \<open>reconcile.go\<close>): where a path lies
  for the repository, the dirty judgment over a record's inputs, the files HEAD holds beside the sources,
  and the stamp that writes commit and dirtiness or refuses a staged run's target.

  The file system and git are the fields of \<open>world\<close>, as they answer while the function runs; a git
  command that fails is \<open>None\<close>, or the left side where the code quotes its error. The loop over the package
  directories runs in order of first occurrence (Go's map order is arbitrary). Cancellation is left out.
\<close>

subsection \<open>The file system and git\<close>

record world =
  wd_cwd :: string
  wd_stat :: "string \<Rightarrow> bool"
  wd_resolve :: "string \<Rightarrow> string option"
  wd_link :: "string \<Rightarrow> bool option"
  wd_modified :: "string \<Rightarrow> int option"
  git_toplevel :: "string + string"
  git_head :: "string + string"
  git_writeTree :: "string + string"
  git_status :: "string list \<Rightarrow> string option"
  git_flags :: "string list \<Rightarrow> string option"
  git_lsTree :: "string \<Rightarrow> string + string"
  git_others :: "string option"

definition path_abs :: "world \<Rightarrow> string \<Rightarrow> string" where
  "path_abs wd p = (if is_abs p then path_clean p else path_join (wd_cwd wd) p)"

record repository_state =
  rp_root :: string
  rp_available :: bool
  rp_staged :: bool
  rp_stagedTree :: string

definition no_repository :: repository_state where
  "no_repository = \<lparr>rp_root = [], rp_available = False, rp_staged = False, rp_stagedTree = []\<rparr>"

definition captureRepositoryState :: "world \<Rightarrow> bool \<Rightarrow> string + repository_state" where
  "captureRepositoryState wd staged =
     (case git_toplevel wd of
        Inl e \<Rightarrow> if staged then Inl (''gomutant: staged mode needs a git repository: '' @ e) else Inr no_repository
      | Inr root \<Rightarrow>
     (case git_head wd of
        Inl e \<Rightarrow> if staged then Inl (''gomutant: staged mode needs commit provenance: '' @ e) else Inr no_repository
      | Inr _ \<Rightarrow>
          let state = no_repository\<lparr>rp_root := trim_space root, rp_available := True\<rparr> in
          if \<not> staged then Inr state
          else case git_writeTree wd of
              Inl e \<Rightarrow> Inl (''gomutant: staged mode cannot pin the index snapshot: '' @ e)
            | Inr tree \<Rightarrow> Inr (state\<lparr>rp_staged := True, rp_stagedTree := trim_space tree\<rparr>)))"

subsection \<open>Module selection\<close>

definition module_paths :: "world \<Rightarrow> string \<Rightarrow> (string \<times> string list) option" where
  "module_paths wd dir =
     (let gomod = path_join dir ''go.mod'' in
      if wd_stat wd gomod
      then Some (gomod, [gomod, path_join dir ''go.sum'', path_join dir ''vendor/modules.txt''])
      else None)"

definition add_module :: "world \<Rightarrow> string \<Rightarrow> string list \<times> string list \<Rightarrow> string list \<times> string list" where
  "add_module wd source sp =
     (case ascend (module_paths wd) (path_dir source) of
        None \<Rightarrow> sp
      | Some (gomod, ps) \<Rightarrow> if gomod \<in> set (fst sp) then sp else (gomod # fst sp, snd sp @ ps))"

definition withModuleSelectionPaths :: "world \<Rightarrow> string list \<Rightarrow> string list" where
  "withModuleSelectionPaths wd sourceFiles = snd (fold (add_module wd) sourceFiles ([], sourceFiles))"

subsection \<open>Placement\<close>

datatype placement_kind = InRepo | Outside | OutsideMissing | Unknown

definition outside :: "placement_kind \<Rightarrow> bool" where
  "outside k \<longleftrightarrow> k = Outside \<or> k = OutsideMissing"

function resolved_ancestor :: "world \<Rightarrow> string \<Rightarrow> string \<Rightarrow> (string \<times> string) option" where
  "resolved_ancestor wd dir rest =
     (case wd_resolve wd dir of
        Some resolved \<Rightarrow> Some (resolved, rest)
      | None \<Rightarrow>
          let parent = path_dir dir in
          if parent = dir then None else resolved_ancestor wd parent (path_join (path_base dir) rest))"
  by pat_completeness auto
termination by (relation "measure (\<lambda>(_, d, _). dir_rank d)") (auto simp: parent_rank)

declare resolved_ancestor.simps [simp del]

definition deepestResolvedAncestor :: "world \<Rightarrow> string \<Rightarrow> (string \<times> string) option" where
  "deepestResolvedAncestor wd p = resolved_ancestor wd (path_dir p) (path_base p)"

fun first_link :: "world \<Rightarrow> string \<Rightarrow> string \<Rightarrow> string list \<Rightarrow> string option" where
  "first_link wd root prefix [] = None"
| "first_link wd root prefix (component # components) =
     (let prefix = path_join prefix component in
      case wd_link wd (path_join root prefix) of
        None \<Rightarrow> None
      | Some link \<Rightarrow> if link then Some prefix else first_link wd root prefix components)"

definition firstSymlinkComponent :: "world \<Rightarrow> repository_state \<Rightarrow> string \<Rightarrow> string option" where
  "firstSymlinkComponent wd s path =
     (case path_rel (rp_root s) path of
        None \<Rightarrow> None
      | Some rel \<Rightarrow> if \<not> is_local rel then None else first_link wd (rp_root s) [] (split_on CHR ''/'' rel))"

definition physical_form :: "world \<Rightarrow> string \<Rightarrow> (string \<times> string) option" where
  "physical_form wd path =
     (case wd_resolve wd path of Some resolved \<Rightarrow> Some (resolved, []) | None \<Rightarrow> deepestResolvedAncestor wd path)"

definition path_placement :: "world \<Rightarrow> repository_state \<Rightarrow> string \<Rightarrow> string list \<times> placement_kind" where
  "path_placement wd s path =
     (let path = (if is_abs path then path else path_abs wd path) in
      case wd_resolve wd (rp_root s) of
        None \<Rightarrow> ([path], Unknown)
      | Some rootPhysical \<Rightarrow>
     (case physical_form wd path of
        None \<Rightarrow> ([path], Unknown)
      | Some (physical, remainder) \<Rightarrow>
          let pathspecs = (case firstSymlinkComponent wd s path of None \<Rightarrow> [] | Some link \<Rightarrow> [link]) in
          case path_rel rootPhysical physical of
            None \<Rightarrow> (pathspecs, if remainder \<noteq> [] then OutsideMissing else Outside)
          | Some rel \<Rightarrow>
              if \<not> is_local rel then (pathspecs, if remainder \<noteq> [] then OutsideMissing else Outside)
              else
                let rel = (if remainder \<noteq> [] then path_join rel (case str_cut ''/'' remainder of None \<Rightarrow> remainder | Some (first, _) \<Rightarrow> first)
                           else rel) in
                (if rel \<noteq> ''.'' \<and> rel \<notin> set pathspecs then pathspecs @ [rel] else pathspecs, InRepo)))"

subsection \<open>The dirty judgment\<close>

definition flag_causes :: "string \<Rightarrow> string list" where
  "flag_causes out =
     map (\<lambda>line. ''change tracking opted out (skip-worktree or assume-unchanged): '' @ trim_space (tl line))
       (filter (\<lambda>line. line \<noteq> [] \<and> (hd line = CHR ''S'' \<or> CHR ''a'' \<le> hd line \<and> hd line \<le> CHR ''z''))
         (split_on (CHR 0x0A) out))"

definition statusCause :: "string \<Rightarrow> string \<times> bool" where
  "statusCause line =
     (let x = line ! 0; y = line ! 1; name = trim_space (drop 2 line);
          name = (case str_cut '' -> '' name of None \<Rightarrow> name | Some (_, dest) \<Rightarrow> dest) in
      if x = CHR ''?'' then (''untracked: '' @ name, True)
      else if x = CHR ''!'' then (''ignored: '' @ name, True)
      else if y \<noteq> CHR '' '' then (''worktree differs from the index: '' @ name, True)
      else (''index differs from HEAD: '' @ name, False))"

definition status_causes :: "bool \<Rightarrow> string \<Rightarrow> string list" where
  "status_causes staged out =
     map (fst \<circ> statusCause)
       (filter (\<lambda>line. 3 \<le> length line \<and> (snd (statusCause line) \<or> \<not> staged)) (split_on (CHR 0x0A) out))"

definition pathspec_of :: "world \<Rightarrow> repository_state \<Rightarrow> string list \<Rightarrow> string list" where
  "pathspec_of wd s paths = fold (\<lambda>path specs. fold (\<lambda>rel specs. if rel \<in> set specs then specs else specs @ [rel])
     (fst (path_placement wd s path)) specs) paths []"

definition pathsDirty :: "world \<Rightarrow> repository_state \<Rightarrow> string list \<Rightarrow> bool \<times> string list" where
  "pathsDirty wd s selectedPaths =
     (if \<not> rp_available s then (True, [''no repository state available for the dirty judgment''])
      else
        let pathspec = pathspec_of wd s selectedPaths in
        if pathspec = [] then (False, [])
        else case git_status wd pathspec of
            None \<Rightarrow> (True, [''git status unavailable over the measured inputs''])
          | Some status \<Rightarrow>
         (case git_flags wd pathspec of
            None \<Rightarrow> (True, [''git ls-files unavailable over the measured inputs''])
          | Some opted \<Rightarrow>
              if flag_causes opted \<noteq> [] then (True, flag_causes opted)
              else (status_causes (rp_staged s) status \<noteq> [], status_causes (rp_staged s) status)))"

definition snapshotMoved :: "world \<Rightarrow> repository_state \<Rightarrow> bool" where
  "snapshotMoved wd s \<longleftrightarrow>
     rp_staged s \<and> (case git_writeTree wd of Inl _ \<Rightarrow> True | Inr tree \<Rightarrow> trim_space tree \<noteq> rp_stagedTree s)"

subsection \<open>Historical files and the capture commit\<close>

definition package_dirs :: "repository_state \<Rightarrow> string list \<Rightarrow> string list" where
  "package_dirs s sourceFiles =
     fold (\<lambda>source dirs. case path_rel (rp_root s) (path_dir source) of
         None \<Rightarrow> dirs
       | Some rel \<Rightarrow> if is_local rel \<and> rel \<notin> set dirs then dirs @ [rel] else dirs) sourceFiles []"

definition listed_files :: "repository_state \<Rightarrow> string \<Rightarrow> string \<Rightarrow> string list" where
  "listed_files s dir out =
     map (path_join (rp_root s)) (filter (\<lambda>rel. rel \<noteq> [] \<and> path_dir rel = dir) (split_on (CHR 0x00) out))"

definition list_dir :: "world \<Rightarrow> repository_state \<Rightarrow> string \<Rightarrow> string list \<times> string list \<Rightarrow> string list \<times> string list" where
  "list_dir wd s dir pu =
     (case git_lsTree wd dir of
        Inl e \<Rightarrow> (fst pu, snd pu @ [''historical package files under '' @ dir @ '' unlisted: '' @ e])
      | Inr out \<Rightarrow> (fold (\<lambda>path paths. if path \<in> set paths then paths else paths @ [path]) (listed_files s dir out) (fst pu), snd pu))"

definition historicalPackageFiles :: "world \<Rightarrow> repository_state \<Rightarrow> string list \<Rightarrow> string list \<times> string list" where
  "historicalPackageFiles wd s sourceFiles =
     (if \<not> rp_available s then ([], [])
      else apsnd sort (fold (list_dir wd s) (package_dirs s sourceFiles) ([], [])))"

definition currentCommit :: "world \<Rightarrow> repository_state \<Rightarrow> string + string" where
  "currentCommit wd s =
     (if \<not> rp_available s then Inr []
      else case git_head wd of
          Inl e \<Rightarrow> Inl (''gomutant: commit provenance unavailable at stamp time: '' @ e)
        | Inr head \<Rightarrow> Inr (trim_space head))"

subsection \<open>Residue\<close>

definition own_forms :: "world \<Rightarrow> string \<Rightarrow> string list" where
  "own_forms wd w =
     (let abs = path_abs wd w in
      path_clean abs # (case wd_resolve wd abs of None \<Rightarrow> [] | Some resolved \<Rightarrow> [path_clean resolved])
        @ (case wd_resolve wd (path_dir abs) of None \<Rightarrow> [] | Some dir \<Rightarrow> [path_join dir (path_base abs)]))"

definition fresh_untracked :: "world \<Rightarrow> repository_state \<Rightarrow> int \<Rightarrow> string list \<Rightarrow> string \<Rightarrow> string list" where
  "fresh_untracked wd s since ownWrites out =
     filter (\<lambda>line. line \<noteq> [] \<and> path_clean (path_join (rp_root s) line) \<notin> set (concat (map (own_forms wd) ownWrites)) \<and>
         (case wd_modified wd (path_join (rp_root s) line) of None \<Rightarrow> False | Some t \<Rightarrow> \<not> t < since))
       (split_on (CHR 0x0A) (trim_space out))"

definition measurementResidue :: "world \<Rightarrow> repository_state \<Rightarrow> int \<Rightarrow> string list \<Rightarrow> string" where
  "measurementResidue wd s since ownWrites =
     (if \<not> rp_available s then []
      else case git_others wd of
          None \<Rightarrow> []
        | Some out \<Rightarrow>
            (case sort (fresh_untracked wd s since ownWrites out) of
               [] \<Rightarrow> []
             | first # rest \<Rightarrow>
                 ''; untracked '' @ (if rest = [] then first else first @ '' (and '' @ nat_dec (length rest) @ '' more)'') @
                 '' appeared during measurement - a mutant or oracle process can write into the tree, and the refused target re-measures once the residue is removed''))"

subsection \<open>The inputs of a record\<close>

record provenance_view = subject_view +
  vw_sourceFiles :: "string list"
  vw_env :: "string list"

definition unlistedRefusal :: "string list \<Rightarrow> string \<Rightarrow> string" where
  "unlistedRefusal unlisted remedy = cappedJoin unlisted 8 @ ''; the staged snapshot cannot vouch for the target'' @ remedy"

definition view_sources :: "provenance_view option \<Rightarrow> provenance_view list \<Rightarrow> string list" where
  "view_sources target oracle =
     (case target of None \<Rightarrow> [] | Some v \<Rightarrow> vw_sourceFiles v) @ concat (map vw_sourceFiles oracle)"

definition provenancePaths :: "world \<Rightarrow> string \<Rightarrow> repository_state \<Rightarrow> provenance_view option \<Rightarrow> provenance_view list \<Rightarrow>
    string list \<times> string list" where
  "provenancePaths wd treeDir s target oracle =
     (let sourceFiles = view_sources target oracle; (historical, unlisted) = historicalPackageFiles wd s sourceFiles in
      (withModuleSelectionPaths wd (sourceFiles @ historical) @ [path_join treeDir ''go.work'', path_join treeDir ''go.work.sum''],
       unlisted))"

definition externalInputs :: "world \<Rightarrow> string \<Rightarrow> repository_state \<Rightarrow> provenance_view option \<Rightarrow> provenance_view list \<Rightarrow>
    string list \<Rightarrow> string list \<times> string list" where
  "externalInputs wd treeDir s target oracle shapedFiles =
     (let (paths, unlisted) = provenancePaths wd treeDir s target oracle in
      (sort (remdups (filter (\<lambda>path. outside (snd (path_placement wd s path))) (paths @ shapedFiles))), unlisted))"

subsection \<open>The stamp\<close>

text \<open>\<open>runtimeinput\<close>: the paths of a manifest at a base, and its state now under an environment.\<close>

record input_state =
  is_OK :: bool
  is_Unverifiable :: bool
  is_Reason :: string
  is_Digest :: string

record manifest_ops =
  mo_paths :: "string \<Rightarrow> string \<Rightarrow> string list option"
  mo_current :: "string \<Rightarrow> string \<Rightarrow> string list \<Rightarrow> input_state option"

definition view_envs :: "provenance_view option \<Rightarrow> provenance_view list \<Rightarrow> (string \<times> string list) list" where
  "view_envs target oracle =
     map (\<lambda>v. (vw_symbol v, vw_env v)) ((case target of None \<Rightarrow> [] | Some v \<Rightarrow> [v]) @ oracle)"

definition manifest_of :: "subject_evidence \<Rightarrow> string" where
  "manifest_of ev = fp_RuntimeInputs (e_Fingerprint ev)"

definition evidence_base :: "string \<Rightarrow> (string \<times> string list) list \<Rightarrow> subject_evidence \<Rightarrow> string" where
  "evidence_base treeDir envs ev = (if map_last envs (e_Symbol ev) = None then [] else evidenceBase treeDir ev)"

definition evidence_paths :: "manifest_ops \<Rightarrow> string \<Rightarrow> (string \<times> string list) list \<Rightarrow> subject_evidence \<Rightarrow> string + string list" where
  "evidence_paths mo treeDir envs ev =
     (let base = evidence_base treeDir envs ev in
      if base = [] then Inl (''an evidence manifest names a subject with no view ('' @ e_Symbol ev @ '')'')
      else case mo_paths mo (manifest_of ev) base of
          None \<Rightarrow> Inl (''an evidence manifest is unreadable ('' @ e_Symbol ev @ '')'')
        | Some paths \<Rightarrow> Inr paths)"

definition unresolvable :: "world \<Rightarrow> repository_state \<Rightarrow> string list \<Rightarrow> string list" where
  "unresolvable wd s paths = filter (\<lambda>p. snd (path_placement wd s p) = OutsideMissing \<or> snd (path_placement wd s p) = Unknown) paths"

definition reproduces :: "manifest_ops \<Rightarrow> string \<Rightarrow> (string \<times> string list) list \<Rightarrow> subject_evidence \<Rightarrow> bool" where
  "reproduces mo treeDir envs ev =
     (case mo_current mo (manifest_of ev) (evidence_base treeDir envs ev) (get_or [] (map_last envs (e_Symbol ev))) of
        None \<Rightarrow> False
      | Some st \<Rightarrow> is_OK st \<and> is_Unverifiable st = e_RuntimeUnverifiable ev \<and> is_Reason st = e_RuntimeReason ev \<and>
          is_Digest st = fp_RuntimeDigest (e_Fingerprint ev))"

definition reproduction_faults :: "world \<Rightarrow> manifest_ops \<Rightarrow> string \<Rightarrow> repository_state \<Rightarrow> (string \<times> string list) list \<Rightarrow>
    subject_evidence \<Rightarrow> string list \<Rightarrow> string list" where
  "reproduction_faults wd mo treeDir s envs ev paths =
     (if unresolvable wd s paths \<noteq> [] \<and> \<not> reproduces mo treeDir envs ev
      then [''recorded runtime-input evidence for '' @ e_Symbol ev @ '' no longer reproduces over externally rooted identities ('' @
        join '', '' (unresolvable wd s paths) @ '')'']
      else [])"

text \<open>The walk over the subjects' evidence: a refusal, or the identities to judge with git and the faults.\<close>

fun judge_evidence :: "world \<Rightarrow> manifest_ops \<Rightarrow> string \<Rightarrow> repository_state \<Rightarrow> (string \<times> string list) list \<Rightarrow>
    subject_evidence list \<Rightarrow> string + string list \<times> string list" where
  "judge_evidence wd mo treeDir s envs [] = Inr ([], [])"
| "judge_evidence wd mo treeDir s envs (ev # evs) =
     (if manifest_of ev = [] then judge_evidence wd mo treeDir s envs evs
      else case evidence_paths mo treeDir envs ev of
          Inl fault \<Rightarrow> if rp_staged s then Inl (fault @ ''; the staged snapshot cannot vouch for it'') else Inr ([], [fault])
        | Inr paths \<Rightarrow>
            (case judge_evidence wd mo treeDir s envs evs of
               Inl refusal \<Rightarrow> Inl refusal
             | Inr (ps, faults) \<Rightarrow>
                 Inr (filter (\<lambda>p. snd (path_placement wd s p) \<noteq> Unknown) paths @ ps,
                   reproduction_faults wd mo treeDir s envs ev paths @ faults)))"

definition noted_faults :: "string \<Rightarrow> string list \<Rightarrow> string" where
  "noted_faults earlier faults =
     (if faults = [] then earlier
      else if earlier \<noteq> [] \<and> earlier \<noteq> join ''; '' faults then earlier @ ''; '' @ join ''; '' faults
      else join ''; '' faults)"

definition staged_verdict :: "world \<Rightarrow> repository_state \<Rightarrow> string list \<Rightarrow> string list \<Rightarrow> finding \<Rightarrow> string + finding" where
  "staged_verdict wd s faults causes f =
     (if \<not> rp_staged s then Inr f
      else if snapshotMoved wd s
      then Inl ''the index snapshot was re-staged mid-run; the recorded tree no longer names the measured content''
      else if f_Dirty f \<or> faults \<noteq> []
      then Inl (''unstaged drift over the measured package's inputs ('' @ cappedJoin (faults @ causes) 8 @
        ''); stage or stash it to pin the snapshot'')
      else Inr f)"

definition stampProvenance :: "world \<Rightarrow> manifest_ops \<Rightarrow> string \<Rightarrow> repository_state \<Rightarrow> provenance_view option \<Rightarrow>
    provenance_view list \<Rightarrow> string list \<Rightarrow> finding \<Rightarrow> string + finding" where
  "stampProvenance wd mo treeDir s target oracle shapedFiles f =
     (let f = f\<lparr>f_StagedTree := rp_stagedTree s\<rparr>;
          (sourceFiles, unlisted) = provenancePaths wd treeDir s target oracle in
      if unlisted \<noteq> [] \<and> rp_staged s then Inl (unlistedRefusal unlisted [])
      else case judge_evidence wd mo treeDir s (view_envs target oracle) (f_TargetEvidence f # f_OracleEvidence f) of
          Inl refusal \<Rightarrow> Inl refusal
        | Inr (paths, faults) \<Rightarrow>
            (let (dirty, causes) = pathsDirty wd s (sourceFiles @ shapedFiles @ paths);
                 f = f\<lparr>f_Dirty := dirty, f_EvidenceFault := noted_faults (f_EvidenceFault f) faults\<rparr>;
                 unlist = (\<lambda>f. if unlisted \<noteq> [] then f\<lparr>f_Commit := [], f_Dirty := True\<rparr> else f) in
             case currentCommit wd s of
               Inl _ \<Rightarrow>
                 if rp_staged s then Inl ''commit provenance unavailable at stamp time; the staged snapshot cannot be attributed''
                 else staged_verdict wd s faults causes (unlist (f\<lparr>f_Commit := [], f_Dirty := True\<rparr>))
             | Inr commit \<Rightarrow> staged_verdict wd s faults causes (unlist (f\<lparr>f_Commit := commit\<rparr>))))"

subsection \<open>What a clean stamp rests on\<close>

definition vouched_line :: "bool \<Rightarrow> string \<Rightarrow> bool" where
  "vouched_line staged line \<longleftrightarrow>
     length line < 3 \<or> staged \<and> line ! 0 \<noteq> CHR ''?'' \<and> line ! 0 \<noteq> CHR ''!'' \<and> line ! 1 = CHR '' ''"

definition git_vouches :: "world \<Rightarrow> repository_state \<Rightarrow> string list \<Rightarrow> bool" where
  "git_vouches wd s specs \<longleftrightarrow> specs = [] \<or>
     (case (git_status wd specs, git_flags wd specs) of
        (Some status, Some opted) \<Rightarrow>
          list_all (vouched_line (rp_staged s)) (split_on (CHR 0x0A) status) \<and>
          list_all (\<lambda>line. line = [] \<or> hd line \<noteq> CHR ''S'' \<and> \<not> (CHR ''a'' \<le> hd line \<and> hd line \<le> CHR ''z'')) (split_on (CHR 0x0A) opted)
      | _ \<Rightarrow> False)"

lemma status_causes_Nil: "status_causes staged out = [] \<longleftrightarrow> list_all (vouched_line staged) (split_on (CHR 0x0A) out)"
  by (auto simp: status_causes_def filter_empty_conv list_all_iff vouched_line_def statusCause_def Let_def not_le split: if_splits)

lemma flag_causes_Nil: "flag_causes out = [] \<longleftrightarrow>
    list_all (\<lambda>line. line = [] \<or> hd line \<noteq> CHR ''S'' \<and> \<not> (CHR ''a'' \<le> hd line \<and> hd line \<le> CHR ''z'')) (split_on (CHR 0x0A) out)"
  by (auto simp: flag_causes_def filter_empty_conv list_all_iff)

lemma pathsDirty_clean:
  assumes "pathsDirty wd s paths = (False, causes)"
  shows "rp_available s" "git_vouches wd s (pathspec_of wd s paths)" "causes = []"
proof -
  show av: "rp_available s" using assms by (auto simp: pathsDirty_def split: if_splits)
  show "git_vouches wd s (pathspec_of wd s paths)"
  proof (cases "pathspec_of wd s paths = []")
    case False
    obtain status where st: "git_status wd (pathspec_of wd s paths) = Some status"
      using assms av False by (cases "git_status wd (pathspec_of wd s paths)") (auto simp: pathsDirty_def Let_def)
    obtain opted where op: "git_flags wd (pathspec_of wd s paths) = Some opted"
      using assms av False st by (cases "git_flags wd (pathspec_of wd s paths)") (auto simp: pathsDirty_def Let_def)
    have "flag_causes opted = []" "status_causes (rp_staged s) status = []"
      using assms av False st op by (auto simp: pathsDirty_def Let_def split: if_splits)
    then show ?thesis using st op by (simp add: git_vouches_def status_causes_Nil flag_causes_Nil)
  qed (simp add: git_vouches_def)
  show "causes = []" using assms by (auto simp: pathsDirty_def Let_def split: if_splits option.splits)
qed

lemma fold_add_missing: "set (fold (\<lambda>x xs. if x \<in> set xs then xs else xs @ [x]) ys xs) = set xs \<union> set ys"
  by (induction ys arbitrary: xs) auto

lemma pathspec_fold:
  "set (fold (\<lambda>path specs. fold (\<lambda>rel specs. if rel \<in> set specs then specs else specs @ [rel]) (f path) specs) paths specs) =
     set specs \<union> \<Union> (set ` f ` set paths)"
  by (induction paths arbitrary: specs) (auto simp: fold_add_missing)

lemma set_pathspec: "set (pathspec_of wd s paths) = \<Union> (set ` (\<lambda>p. fst (path_placement wd s p)) ` set paths)"
  using pathspec_fold [of "\<lambda>p. fst (path_placement wd s p)" paths "[]"] by (simp add: pathspec_of_def)

lemma add_module_grows: "set (snd sp) \<subseteq> set (snd (add_module wd source sp))"
  by (auto simp: add_module_def split: option.splits)

lemma fold_add_module_grows: "set (snd sp) \<subseteq> set (snd (fold (add_module wd) sources sp))"
proof (induction sources arbitrary: sp)
  case (Cons source sources)
  then show ?case using add_module_grows [of sp wd source] by fastforce
qed simp

lemma module_selection_keeps: "set sourceFiles \<subseteq> set (withModuleSelectionPaths wd sourceFiles)"
  using fold_add_module_grows [of "([], sourceFiles)" wd sourceFiles] by (simp add: withModuleSelectionPaths_def)

lemma set_package_dirs_fold:
  "set (fold (\<lambda>source dirs. case path_rel root (path_dir source) of None \<Rightarrow> dirs
       | Some rel \<Rightarrow> if is_local rel \<and> rel \<notin> set dirs then dirs @ [rel] else dirs) sources dirs) =
     set dirs \<union> {rel. \<exists>source \<in> set sources. path_rel root (path_dir source) = Some rel \<and> is_local rel}"
  by (induction sources arbitrary: dirs) (auto split: option.splits)

lemma set_package_dirs:
  "set (package_dirs s sources) = {rel. \<exists>source \<in> set sources. path_rel (rp_root s) (path_dir source) = Some rel \<and> is_local rel}"
  using set_package_dirs_fold [of "rp_root s" sources "[]"] by (simp add: package_dirs_def)

lemma list_dir_grows: "set (fst pu) \<subseteq> set (fst (list_dir wd s dir pu))" "set (snd pu) \<subseteq> set (snd (list_dir wd s dir pu))"
  by (auto simp: list_dir_def fold_add_missing split: sum.splits)

lemma list_dir_answers:
  assumes "snd (list_dir wd s dir pu) = []"
  shows "\<exists>out. git_lsTree wd dir = Inr out \<and> set (listed_files s dir out) \<subseteq> set (fst (list_dir wd s dir pu))"
  using assms by (auto simp: list_dir_def fold_add_missing split: sum.splits)

lemma fold_list_dir_grows:
  "set (fst pu) \<subseteq> set (fst (fold (list_dir wd s) dirs pu))" "set (snd pu) \<subseteq> set (snd (fold (list_dir wd s) dirs pu))"
proof (induction dirs arbitrary: pu)
  case (Cons dir dirs)
  { case 1 show ?case using Cons(1) [of "list_dir wd s dir pu"] list_dir_grows(1) [of pu wd s dir] by auto }
  { case 2 show ?case using Cons(2) [of "list_dir wd s dir pu"] list_dir_grows(2) [of pu wd s dir] by auto }
qed simp_all

lemma fold_list_dir_answers:
  assumes "snd (fold (list_dir wd s) dirs pu) = []" "dir \<in> set dirs"
  shows "\<exists>out. git_lsTree wd dir = Inr out \<and> set (listed_files s dir out) \<subseteq> set (fst (fold (list_dir wd s) dirs pu))"
  using assms
proof (induction dirs arbitrary: pu)
  case (Cons d dirs)
  have quiet: "snd (list_dir wd s d pu) = []"
    using Cons.prems(1) fold_list_dir_grows(2) [of "list_dir wd s d pu" wd s dirs] by simp
  show ?case
  proof (cases "dir = d")
    case True
    then show ?thesis
      using list_dir_answers [OF quiet] fold_list_dir_grows(1) [of "list_dir wd s d pu" wd s dirs] by auto
  next
    case False
    then show ?thesis using Cons.IH [of "list_dir wd s d pu"] Cons.prems by simp
  qed
qed simp

lemma historical_answers:
  assumes "rp_available s" "historicalPackageFiles wd s sources = (historical, [])"
    and "source \<in> set sources" "path_rel (rp_root s) (path_dir source) = Some dir" "is_local dir"
  shows "\<exists>out. git_lsTree wd dir = Inr out \<and> set (listed_files s dir out) \<subseteq> set historical"
proof -
  have "sort (snd (fold (list_dir wd s) (package_dirs s sources) ([], []))) = []"
    "historical = fst (fold (list_dir wd s) (package_dirs s sources) ([], []))"
    using assms(1,2) by (simp_all add: historicalPackageFiles_def prod_eq_iff)
  moreover have "dir \<in> set (package_dirs s sources)" using assms(3-5) by (auto simp: set_package_dirs)
  ultimately show ?thesis using fold_list_dir_answers by (metis sort_Nil_iff)
qed

lemma provenancePaths_covers:
  assumes "rp_available s" "provenancePaths wd treeDir s target oracle = (paths, [])"
  shows "set (view_sources target oracle) \<subseteq> set paths"
    and "source \<in> set (view_sources target oracle) \<Longrightarrow> path_rel (rp_root s) (path_dir source) = Some dir \<Longrightarrow> is_local dir \<Longrightarrow>
      \<exists>out. git_lsTree wd dir = Inr out \<and> set (listed_files s dir out) \<subseteq> set paths"
proof -
  obtain historical where h: "historicalPackageFiles wd s (view_sources target oracle) = (historical, [])"
    and paths: "paths = withModuleSelectionPaths wd (view_sources target oracle @ historical) @ [path_join treeDir ''go.work'', path_join treeDir ''go.work.sum'']"
    using assms(2) by (auto simp: provenancePaths_def Let_def split: prod.splits)
  have keeps: "set (view_sources target oracle) \<union> set historical \<subseteq> set paths"
    using module_selection_keeps [of "view_sources target oracle @ historical" wd] paths by auto
  then show "set (view_sources target oracle) \<subseteq> set paths" by simp
  show "\<exists>out. git_lsTree wd dir = Inr out \<and> set (listed_files s dir out) \<subseteq> set paths"
    if "source \<in> set (view_sources target oracle)" "path_rel (rp_root s) (path_dir source) = Some dir" "is_local dir"
    using historical_answers [OF assms(1) h that] keeps by blast
qed

lemma judge_faults_named: "judge_evidence wd mo treeDir s envs evs = Inr (ps, faults) \<Longrightarrow> [] \<notin> set faults"
proof (induction evs arbitrary: ps faults)
  case (Cons ev evs)
  have "[] \<notin> set (reproduction_faults wd mo treeDir s envs ev paths)" for paths by (simp add: reproduction_faults_def)
  moreover have "fault \<noteq> []" if "evidence_paths mo treeDir envs ev = Inl fault" for fault
    using that by (auto simp: evidence_paths_def Let_def split: if_splits option.splits)
  ultimately show ?case using Cons by (auto split: if_splits sum.splits prod.splits)
qed simp

lemma join_Nil_iff: "[] \<notin> set faults \<Longrightarrow> sep \<noteq> [] \<Longrightarrow> join sep faults = [] \<longleftrightarrow> faults = []"
  by (induction faults rule: induct_list012) auto

lemma noted_faults_Nil: "[] \<notin> set faults \<Longrightarrow> noted_faults earlier faults = [] \<longleftrightarrow> earlier = [] \<and> faults = []"
  by (auto simp: noted_faults_def join_Nil_iff)

lemma judge_unfaulted:
  assumes "judge_evidence wd mo treeDir s envs evs = Inr (ps, [])" "ev \<in> set evs" "manifest_of ev \<noteq> []"
  shows "\<exists>paths. evidence_paths mo treeDir envs ev = Inr paths \<and>
    {p \<in> set paths. snd (path_placement wd s p) \<noteq> Unknown} \<subseteq> set ps \<and> (unresolvable wd s paths = [] \<or> reproduces mo treeDir envs ev)"
  using assms
proof (induction evs arbitrary: ps)
  case (Cons e evs)
  show ?case
  proof (cases "manifest_of e = []")
    case True
    then show ?thesis using Cons by auto
  next
    case False
    obtain paths ps' where step: "evidence_paths mo treeDir envs e = Inr paths" "judge_evidence wd mo treeDir s envs evs = Inr (ps', [])"
      "ps = filter (\<lambda>p. snd (path_placement wd s p) \<noteq> Unknown) paths @ ps'" "reproduction_faults wd mo treeDir s envs e paths = []"
      using Cons.prems(1) False by (auto split: if_splits sum.splits prod.splits)
    have here: "unresolvable wd s paths = [] \<or> reproduces mo treeDir envs e"
      using step(4) by (auto simp: reproduction_faults_def split: if_splits)
    show ?thesis
    proof (cases "ev = e")
      case True
      then show ?thesis using step(1,3) here by auto
    next
      case False
      then show ?thesis using Cons.IH [OF step(2)] Cons.prems step(3) by auto
    qed
  qed
qed simp

lemma staged_verdict_Inr:
  "staged_verdict wd s faults causes f = Inr f' \<Longrightarrow> f' = f \<and> (rp_staged s \<longrightarrow> \<not> snapshotMoved wd s \<and> \<not> f_Dirty f \<and> faults = [])"
  by (auto simp: staged_verdict_def split: if_splits)

text \<open>The parts of a stamp that went through.\<close>

lemma stampProvenance_Inr:
  assumes "stampProvenance wd mo treeDir s target oracle shapedFiles f = Inr f'"
  obtains sources unlisted paths faults dirty causes where
    "provenancePaths wd treeDir s target oracle = (sources, unlisted)"
    "judge_evidence wd mo treeDir s (view_envs target oracle) (f_TargetEvidence f # f_OracleEvidence f) = Inr (paths, faults)"
    "pathsDirty wd s (sources @ shapedFiles @ paths) = (dirty, causes)"
    "f_Dirty f' \<longleftrightarrow> dirty \<or> unlisted \<noteq> [] \<or> (\<exists>e. currentCommit wd s = Inl e)"
    "f_Commit f' = (if unlisted \<noteq> [] then [] else case currentCommit wd s of Inl _ \<Rightarrow> [] | Inr commit \<Rightarrow> commit)"
    "f_EvidenceFault f' = noted_faults (f_EvidenceFault f) faults"
    "f_StagedTree f' = rp_stagedTree s"
    "rp_staged s \<longrightarrow> \<not> snapshotMoved wd s \<and> \<not> f_Dirty f' \<and> faults = []"
proof -
  obtain sources unlisted where p: "provenancePaths wd treeDir s target oracle = (sources, unlisted)" by fastforce
  have ev: "f_TargetEvidence (f\<lparr>f_StagedTree := rp_stagedTree s\<rparr>) # f_OracleEvidence (f\<lparr>f_StagedTree := rp_stagedTree s\<rparr>)
      = f_TargetEvidence f # f_OracleEvidence f" by simp
  obtain paths faults where j: "judge_evidence wd mo treeDir s (view_envs target oracle) (f_TargetEvidence f # f_OracleEvidence f) = Inr (paths, faults)"
    using assms by (auto simp: stampProvenance_def p Let_def simp del: judge_evidence.simps split: if_splits sum.splits)
  obtain dirty causes where d: "pathsDirty wd s (sources @ shapedFiles @ paths) = (dirty, causes)" by fastforce
  define dirtied where "dirtied = (dirty \<or> unlisted \<noteq> [] \<or> (\<exists>e. currentCommit wd s = Inl e))"
  define commit where "commit = (if unlisted \<noteq> [] then [] else case currentCommit wd s of Inl _ \<Rightarrow> [] | Inr commit \<Rightarrow> commit)"
  define stamped where "stamped = f\<lparr>f_StagedTree := rp_stagedTree s, f_Dirty := dirtied,
     f_EvidenceFault := noted_faults (f_EvidenceFault f) faults, f_Commit := commit\<rparr>"
  have "staged_verdict wd s faults causes stamped = Inr f'"
  proof (cases "currentCommit wd s")
    case (Inl e)
    have "stamped = f\<lparr>f_StagedTree := rp_stagedTree s, f_EvidenceFault := noted_faults (f_EvidenceFault f) faults,
        f_Commit := [], f_Dirty := True\<rparr>"
      by (rule finding.equality) (simp_all add: stamped_def dirtied_def commit_def Inl)
    then show ?thesis
      using assms Inl by (simp add: stampProvenance_def p Let_def j d del: judge_evidence.simps split: if_splits)
  next
    case (Inr c)
    have "stamped = (if unlisted \<noteq> []
        then f\<lparr>f_StagedTree := rp_stagedTree s, f_EvidenceFault := noted_faults (f_EvidenceFault f) faults, f_Commit := [], f_Dirty := True\<rparr>
        else f\<lparr>f_StagedTree := rp_stagedTree s, f_Dirty := dirty, f_EvidenceFault := noted_faults (f_EvidenceFault f) faults, f_Commit := c\<rparr>)"
      by (rule finding.equality) (simp_all add: stamped_def dirtied_def commit_def Inr)
    then show ?thesis
      using assms Inr by (simp add: stampProvenance_def p Let_def j d del: judge_evidence.simps split: if_splits)
  qed
  from staged_verdict_Inr [OF this] show thesis
    by (intro that [OF p j d]) (auto simp: stamped_def dirtied_def commit_def)
qed

text \<open>C25: A record that was stamped clean is the repository's: the stamp read a commit of an available repository;
  HEAD's listing of every package directory of the views' sources in the tree answered; git answered for a pathspec
  that covers the views' sources, the listed files, the shape's files and, unless the record carries an
  evidence fault, every identity its evidence manifests name or reproduced; and no line of the answer counts as drift.\<close>

theorem clean_stamp_is_vouched:
  assumes stamp: "stampProvenance wd mo treeDir s target oracle shapedFiles f = Inr f'" and clean: "\<not> f_Dirty f'"
  shows "rp_available s \<and> (\<exists>head. git_head wd = Inr head \<and> f_Commit f' = trim_space head) \<and>
    (\<exists>specs. git_vouches wd s specs \<and>
      (\<forall>p \<in> set (view_sources target oracle) \<union> set shapedFiles. set (fst (path_placement wd s p)) \<subseteq> set specs) \<and>
      (\<forall>source \<in> set (view_sources target oracle). \<forall>dir. path_rel (rp_root s) (path_dir source) = Some dir \<and> is_local dir \<longrightarrow>
        (\<exists>out. git_lsTree wd dir = Inr out \<and> (\<forall>p \<in> set (listed_files s dir out). set (fst (path_placement wd s p)) \<subseteq> set specs))) \<and>
      (f_EvidenceFault f' = [] \<longrightarrow>
        (\<forall>ev \<in> set (f_TargetEvidence f # f_OracleEvidence f). manifest_of ev \<noteq> [] \<longrightarrow>
          (\<exists>paths. evidence_paths mo treeDir (view_envs target oracle) ev = Inr paths \<and>
            (\<forall>p \<in> set paths. snd (path_placement wd s p) = Unknown \<or> set (fst (path_placement wd s p)) \<subseteq> set specs) \<and>
            (unresolvable wd s paths = [] \<or> reproduces mo treeDir (view_envs target oracle) ev)))))"
proof -
  obtain sources unlisted paths faults dirty causes where st:
    "provenancePaths wd treeDir s target oracle = (sources, unlisted)"
    "judge_evidence wd mo treeDir s (view_envs target oracle) (f_TargetEvidence f # f_OracleEvidence f) = Inr (paths, faults)"
    "pathsDirty wd s (sources @ shapedFiles @ paths) = (dirty, causes)"
    "f_Dirty f' \<longleftrightarrow> dirty \<or> unlisted \<noteq> [] \<or> (\<exists>e. currentCommit wd s = Inl e)"
    "f_Commit f' = (if unlisted \<noteq> [] then [] else case currentCommit wd s of Inl _ \<Rightarrow> [] | Inr commit \<Rightarrow> commit)"
    "f_EvidenceFault f' = noted_faults (f_EvidenceFault f) faults"
    by (rule stampProvenance_Inr [OF stamp])
  have quiet: "\<not> dirty" "unlisted = []" "\<nexists>e. currentCommit wd s = Inl e" using st(4) clean by auto
  define specs where "specs = pathspec_of wd s (sources @ shapedFiles @ paths)"
  have git: "rp_available s" "git_vouches wd s specs"
    using pathsDirty_clean [of wd s "sources @ shapedFiles @ paths" causes] st(3) quiet(1) by (simp_all add: specs_def)
  have commit: "\<exists>head. git_head wd = Inr head \<and> f_Commit f' = trim_space head"
    using quiet(2,3) git(1) st(5) by (cases "git_head wd") (auto simp: currentCommit_def)
  have covers: "set (fst (path_placement wd s p)) \<subseteq> set specs" if "p \<in> set sources \<union> set shapedFiles \<union> set paths" for p
    using that by (auto simp: specs_def set_pathspec)
  note listed = provenancePaths_covers [OF git(1) st(1) [unfolded quiet(2)]]
  have evidence: "\<exists>ps. evidence_paths mo treeDir (view_envs target oracle) ev = Inr ps \<and>
      (\<forall>p \<in> set ps. snd (path_placement wd s p) = Unknown \<or> set (fst (path_placement wd s p)) \<subseteq> set specs) \<and>
      (unresolvable wd s ps = [] \<or> reproduces mo treeDir (view_envs target oracle) ev)"
    if "f_EvidenceFault f' = []" "ev \<in> set (f_TargetEvidence f # f_OracleEvidence f)" "manifest_of ev \<noteq> []" for ev
  proof -
    have "faults = []" using noted_faults_Nil [OF judge_faults_named [OF st(2)]] st(6) that(1) by metis
    note unfaulted = judge_unfaulted [OF st(2) [unfolded this] that(2,3)]
    then obtain ps where "evidence_paths mo treeDir (view_envs target oracle) ev = Inr ps"
      "{p \<in> set ps. snd (path_placement wd s p) \<noteq> Unknown} \<subseteq> set paths" "unresolvable wd s ps = [] \<or> reproduces mo treeDir (view_envs target oracle) ev"
      by blast
    then show ?thesis using covers by blast
  qed
  have listing: "\<exists>out. git_lsTree wd dir = Inr out \<and> (\<forall>p \<in> set (listed_files s dir out). set (fst (path_placement wd s p)) \<subseteq> set specs)"
    if "source \<in> set (view_sources target oracle)" "path_rel (rp_root s) (path_dir source) = Some dir" "is_local dir" for source dir
    using listed(2) [OF that] covers by blast
  show ?thesis using git commit covers listed(1) evidence listing by blast
qed

text \<open>C26: A staged run persists a record only when its snapshot stands: the index still writes the tree the record
  names, the record is clean with a commit of HEAD, every listing answered, and this stamp found no fault in its evidence.
  Index-only changes do not count as drift, which is the one difference between the two judgments.\<close>

theorem staged_stamp_is_the_snapshot:
  assumes stamp: "stampProvenance wd mo treeDir s target oracle shapedFiles f = Inr f'" and staged: "rp_staged s"
  shows "\<not> f_Dirty f' \<and> f_StagedTree f' = rp_stagedTree s \<and> (\<exists>tree. git_writeTree wd = Inr tree \<and> trim_space tree = f_StagedTree f') \<and>
    (\<exists>head. git_head wd = Inr head \<and> f_Commit f' = trim_space head) \<and> f_EvidenceFault f' = f_EvidenceFault f \<and>
    snd (provenancePaths wd treeDir s target oracle) = []"
proof -
  obtain sources unlisted paths faults dirty causes where st:
    "provenancePaths wd treeDir s target oracle = (sources, unlisted)"
    "pathsDirty wd s (sources @ shapedFiles @ paths) = (dirty, causes)"
    "f_Dirty f' \<longleftrightarrow> dirty \<or> unlisted \<noteq> [] \<or> (\<exists>e. currentCommit wd s = Inl e)"
    "f_Commit f' = (if unlisted \<noteq> [] then [] else case currentCommit wd s of Inl _ \<Rightarrow> [] | Inr commit \<Rightarrow> commit)"
    "f_EvidenceFault f' = noted_faults (f_EvidenceFault f) faults" "f_StagedTree f' = rp_stagedTree s"
    "rp_staged s \<longrightarrow> \<not> snapshotMoved wd s \<and> \<not> f_Dirty f' \<and> faults = []"
    by (rule stampProvenance_Inr [OF stamp])
  have quiet: "\<not> f_Dirty f'" "faults = []" "\<not> snapshotMoved wd s" using st(7) staged by auto
  have rest: "\<not> dirty" "unlisted = []" "\<nexists>e. currentCommit wd s = Inl e" using quiet(1) st(3) by auto
  have "rp_available s" using pathsDirty_clean(1) [of wd s "sources @ shapedFiles @ paths" causes] st(2) rest(1) by simp
  then have commit: "\<exists>head. git_head wd = Inr head \<and> f_Commit f' = trim_space head"
    using rest(2,3) st(4) by (cases "git_head wd") (auto simp: currentCommit_def)
  have "\<exists>tree. git_writeTree wd = Inr tree \<and> trim_space tree = f_StagedTree f'"
    using quiet(3) staged st(6) by (auto simp: snapshotMoved_def split: sum.splits)
  then show ?thesis using quiet commit rest(2) st(1,5,6) by (simp add: noted_faults_def)
qed

text \<open>C40: A fault in the evidence does not make a record dirty: outside staged mode a manifest that cannot be read,
  or a subject without a view, is noted as the record's evidence fault, and the record is as dirty as git says.\<close>

theorem evidence_fault_is_not_dirt:
  assumes "\<not> rp_staged s" and "provenancePaths wd treeDir s target oracle = (sources, [])"
    and "judge_evidence wd mo treeDir s (view_envs target oracle) (f_TargetEvidence f # f_OracleEvidence f) = Inr (paths, faults)"
    and "faults \<noteq> []" and "pathsDirty wd s (sources @ shapedFiles @ paths) = (False, causes)" and "currentCommit wd s = Inr commit"
  shows "\<exists>f'. stampProvenance wd mo treeDir s target oracle shapedFiles f = Inr f' \<and>
    \<not> f_Dirty f' \<and> f_Commit f' = commit \<and> f_EvidenceFault f' \<noteq> []"
proof -
  have "noted_faults (f_EvidenceFault f) faults \<noteq> []"
    using noted_faults_Nil [OF judge_faults_named [OF assms(3)]] assms(4) by simp
  then show ?thesis
    using assms by (simp add: stampProvenance_def staged_verdict_def Let_def del: judge_evidence.simps)
qed

subsection \<open>Residue\<close>

text \<open>
  The residue names a file only if git lists it untracked, it was changed since the run began, and it is
  none of the forms of the run's own writes; it counts all of them and names the least.
\<close>

theorem residue_names_fresh_files:
  assumes "measurementResidue wd s since ownWrites \<noteq> []"
  shows "\<exists>out name. git_others wd = Some out \<and> name \<in> set (split_on (CHR 0x0A) (trim_space out)) \<and>
    (\<exists>t. wd_modified wd (path_join (rp_root s) name) = Some t \<and> since \<le> t) \<and>
    (\<forall>w \<in> set ownWrites. path_clean (path_join (rp_root s) name) \<notin> set (own_forms wd w)) \<and>
    (\<forall>other \<in> set (fresh_untracked wd s since ownWrites out). name \<le> other) \<and>
    has_prefix (measurementResidue wd s since ownWrites) (''; untracked '' @ name @ '' '')"
proof -
  obtain out where out: "git_others wd = Some out"
    using assms by (cases "git_others wd") (auto simp: measurementResidue_def split: if_splits)
  obtain name rest where fresh: "sort (fresh_untracked wd s since ownWrites out) = name # rest"
    using assms out by (cases "sort (fresh_untracked wd s since ownWrites out)") (auto simp: measurementResidue_def split: if_splits)
  have least: "\<forall>other \<in> set (name # rest). name \<le> other" using sorted_sort [of "fresh_untracked wd s since ownWrites out"] fresh by simp
  have members: "set (name # rest) = set (fresh_untracked wd s since ownWrites out)" by (metis fresh set_sort)
  then have "name \<in> set (fresh_untracked wd s since ownWrites out)" by auto
  then have named: "name \<in> set (split_on (CHR 0x0A) (trim_space out))"
    "\<exists>t. wd_modified wd (path_join (rp_root s) name) = Some t \<and> since \<le> t"
    "\<forall>w \<in> set ownWrites. path_clean (path_join (rp_root s) name) \<notin> set (own_forms wd w)"
    by (auto simp: fresh_untracked_def not_less split: option.splits)
  have "has_prefix (measurementResidue wd s since ownWrites) (''; untracked '' @ name @ '' '')"
  proof (cases "rest = []")
    case True
    then show ?thesis using assms out fresh by (simp add: measurementResidue_def has_prefix_def split: if_splits)
  next
    case False
    then show ?thesis using assms out fresh by (simp add: measurementResidue_def has_prefix_def split: if_splits)
  qed
  then show ?thesis using out least named unfolding members by blast
qed

subsection \<open>Examples\<close>

definition sample_world :: "string \<Rightarrow> world" where
  "sample_world status = \<lparr>wd_cwd = ''/r'', wd_stat = (\<lambda>p. p = ''/r/go.mod''), wd_resolve = Some, wd_link = (\<lambda>_. Some False),
     wd_modified = (\<lambda>_. Some 7), git_toplevel = Inr ''/r'', git_head = Inr ''c1'', git_writeTree = Inr ''t1'',
     git_status = (\<lambda>_. Some status), git_flags = (\<lambda>_. Some ''H p/a.go''), git_lsTree = (\<lambda>_. Inr ''p/a.go''), git_others = Some ''p/new.db''\<rparr>"

definition sample_repository :: "bool \<Rightarrow> repository_state" where
  "sample_repository staged = \<lparr>rp_root = ''/r'', rp_available = True, rp_staged = staged, rp_stagedTree = (if staged then ''t1'' else [])\<rparr>"

definition sample_view :: provenance_view where
  "sample_view = \<lparr>vw_symbol = ''p.F'', vw_evidenceDir = ''/r'', vw_sourceFiles = [''/r/p/a.go''], vw_env = []\<rparr>"

definition sample_manifests :: manifest_ops where
  "sample_manifests = \<lparr>mo_paths = (\<lambda>m base. if m = ''m'' then Some [''/r/p/data''] else None), mo_current = (\<lambda>_ _ _. None)\<rparr>"

definition sample_stamped :: "string \<Rightarrow> finding" where
  "sample_stamped manifest = zero_finding\<lparr>f_TargetEvidence := zero_evidence\<lparr>e_Symbol := ''p.F'',
     e_Fingerprint := zero_fingerprint\<lparr>fp_RuntimeInputs := manifest\<rparr>\<rparr>\<rparr>"

lemma sample_stamps:
  "case stampProvenance (sample_world []) sample_manifests ''/r'' (sample_repository False) (Some sample_view) [] [] (sample_stamped ''m'') of
     Inl _ \<Rightarrow> False | Inr f \<Rightarrow> \<not> f_Dirty f \<and> f_Commit f = ''c1'' \<and> f_EvidenceFault f = []"
  "case stampProvenance (sample_world ''M  p/a.go'') sample_manifests ''/r'' (sample_repository True) (Some sample_view) [] [] (sample_stamped ''m'') of
     Inl _ \<Rightarrow> False | Inr f \<Rightarrow> \<not> f_Dirty f"
  by code_simp+

lemma sample_fault:
  "case provenancePaths (sample_world []) ''/r'' (sample_repository False) (Some sample_view) [] of (sources, unlisted) \<Rightarrow> unlisted = [] \<and>
     pathsDirty (sample_world []) (sample_repository False) sources = (False, [])"
  "judge_evidence (sample_world []) sample_manifests ''/r'' (sample_repository False) (view_envs (Some sample_view) [])
     (f_TargetEvidence (sample_stamped ''x'') # f_OracleEvidence (sample_stamped ''x''))
     = Inr ([], [''an evidence manifest is unreadable (p.F)''])"
  "currentCommit (sample_world []) (sample_repository False) = Inr ''c1''"
  by code_simp+

theorem clean_stamp_is_vouched_witness:
  "\<exists>f' specs. stampProvenance (sample_world []) sample_manifests ''/r'' (sample_repository False) (Some sample_view) [] [] (sample_stamped ''m'') = Inr f' \<and>
    git_vouches (sample_world []) (sample_repository False) specs"
proof -
  obtain f' where f': "stampProvenance (sample_world []) sample_manifests ''/r'' (sample_repository False) (Some sample_view) [] []
      (sample_stamped ''m'') = Inr f'" "\<not> f_Dirty f'"
    using sample_stamps(1) by (auto split: sum.splits)
  show ?thesis using f'(1) clean_stamp_is_vouched [OF f'] by blast
qed

theorem staged_stamp_is_the_snapshot_witness:
  "\<exists>f'. stampProvenance (sample_world ''M  p/a.go'') sample_manifests ''/r'' (sample_repository True) (Some sample_view) [] []
     (sample_stamped ''m'') = Inr f' \<and> f_StagedTree f' = ''t1''"
proof -
  obtain f' where f': "stampProvenance (sample_world ''M  p/a.go'') sample_manifests ''/r'' (sample_repository True) (Some sample_view) [] []
      (sample_stamped ''m'') = Inr f'"
    using sample_stamps(2) by (auto split: sum.splits)
  have "rp_staged (sample_repository True)" "rp_stagedTree (sample_repository True) = ''t1''" by (simp_all add: sample_repository_def)
  then show ?thesis using f' staged_stamp_is_the_snapshot [OF f'] by simp
qed

theorem evidence_fault_is_not_dirt_witness:
  "\<exists>f'. stampProvenance (sample_world []) sample_manifests ''/r'' (sample_repository False) (Some sample_view) [] [] (sample_stamped ''x'') = Inr f' \<and>
     \<not> f_Dirty f' \<and> f_EvidenceFault f' \<noteq> []"
proof -
  have plain: "\<not> rp_staged (sample_repository False)" by (simp add: sample_repository_def)
  obtain sources where p: "provenancePaths (sample_world []) ''/r'' (sample_repository False) (Some sample_view) [] = (sources, [])"
    "pathsDirty (sample_world []) (sample_repository False) (sources @ [] @ []) = (False, [])"
    using sample_fault(1) by (auto split: prod.splits)
  show ?thesis
    using evidence_fault_is_not_dirt [OF plain p(1) sample_fault(2) _ p(2) sample_fault(3)] by blast
qed

theorem residue_names_fresh_files_witness:
  "\<exists>name. has_prefix (measurementResidue (sample_world []) (sample_repository False) 3 []) (''; untracked '' @ name @ '' '')"
proof -
  have "measurementResidue (sample_world []) (sample_repository False) 3 [] \<noteq> []" by code_simp
  from residue_names_fresh_files [OF this] show ?thesis by blast
qed

end
