(* ===== verification/Freshness.thy ===== *)
theory Freshness
  imports Provenance Execution
begin

text \<open>
  Whether a record may be served again (\<open>freshness.go\<close>): the packages of its oracle, the pins two records
  share, the delta of a derived oracle, and the comparison of a record's evidence with the current views.

  The analysis library's answers are the fields of \<open>freshness_ops\<close>; a reading of a runtime-input
  manifest is its state and, if it failed, the error. The readings of one decision are numbered, so that
  two of one manifest may differ.
\<close>

subsection \<open>Packages\<close>

definition allDigits :: "string \<Rightarrow> bool" where
  "allDigits s \<longleftrightarrow> list_all (\<lambda>r. CHR ''0'' \<le> r \<and> r \<le> CHR ''9'') s \<and> s \<noteq> []"

text \<open>The loop of \<open>symbolPackage\<close> over what follows the last slash: the part of it that is the package's.\<close>

function cut_package :: "string \<Rightarrow> string option" where
  "cut_package rest =
     (case str_cut ''.'' rest of
        None \<Rightarrow> None
      | Some (name, segment) \<Rightarrow>
          let v = takeWhile (\<lambda>c. c \<noteq> CHR ''.'') segment in
          if 2 \<le> length v \<and> hd v = CHR ''v'' \<and> allDigits (tl v)
          then (case cut_package (drop (length v) segment) of None \<Rightarrow> None | Some p \<Rightarrow> Some (name @ ''.'' @ v @ p))
          else Some name)"
  by pat_completeness auto
termination
proof (relation "measure length")
  fix rest :: string and x name segment v
  assume "str_cut ''.'' rest = Some x" "(name, segment) = x"
  then have "rest = name @ ''.'' @ segment" using str_cut_Some by metis
  then show "(drop (length v) segment, rest) \<in> measure length" by simp
qed simp

declare cut_package.simps [simp del]

definition symbolPackage :: "string \<Rightarrow> string" where
  "symbolPackage symbol =
     (case cut_last CHR ''/'' symbol of
        None \<Rightarrow> get_or symbol (cut_package symbol)
      | Some (dir, rest) \<Rightarrow> (case cut_package rest of None \<Rightarrow> symbol | Some p \<Rightarrow> dir @ ''/'' @ p))"

text \<open>The package a loaded tree names for a symbol is \<open>owner\<close>, empty where none of its paths prefixes the symbol.\<close>

definition PackageOf :: "(string \<Rightarrow> string) \<Rightarrow> string \<Rightarrow> string" where
  "PackageOf owner symbol = (if owner symbol \<noteq> [] then owner symbol else symbolPackage symbol)"

definition packageProcessAttestable :: "(string \<Rightarrow> string) \<Rightarrow> string \<Rightarrow> string list \<Rightarrow> bool" where
  "packageProcessAttestable packageOf targetSymbol oracle \<longleftrightarrow> list_all (\<lambda>symbol. packageOf symbol = packageOf targetSymbol) oracle"

definition findingPackageProcessAttestable :: "(string \<Rightarrow> string) \<Rightarrow> finding \<Rightarrow> bool" where
  "findingPackageProcessAttestable packageOf f = packageProcessAttestable packageOf (f_Symbol f) (map e_Symbol (f_OracleEvidence f))"

subsection \<open>Pins of two records\<close>

definition canonicalCandidateEvidence :: "candidate_evidence list \<Rightarrow> candidate_evidence list" where
  "canonicalCandidateEvidence evidence = sort_key (\<lambda>e. (ce_Position e, ce_Operator e)) evidence"

definition sortedSubjectEvidence :: "subject_evidence list \<Rightarrow> subject_evidence list" where
  "sortedSubjectEvidence evidence = sort_key e_Symbol evidence"

definition attestationPinView :: "subject_evidence \<Rightarrow> subject_evidence" where
  "attestationPinView ev =
     ev\<lparr>e_Fingerprint := (e_Fingerprint ev)\<lparr>fp_DynamicStateVouches := [], fp_PackageProcessDischarges := [],
          fp_SingleSubjectDischarges := [], fp_ClosureStrategy := []\<rparr>,
        e_ModuleBase := [], e_RuntimeAttribution := []\<rparr>"

definition mutationDomainHeld :: "finding \<Rightarrow> finding \<Rightarrow> bool" where
  "mutationDomainHeld prior current \<longleftrightarrow> f_BodyHash prior = f_BodyHash current \<and> f_OperatorSet prior = f_OperatorSet current"

definition sameAttestationPins :: "finding \<Rightarrow> finding \<Rightarrow> bool" where
  "sameAttestationPins prior current \<longleftrightarrow>
     f_PropertyRegime prior = f_PropertyRegime current \<and> OracleExecutionPolicyIssue prior = [] \<and> OracleExecutionPolicyIssue current = [] \<and>
     f_OperatorSet prior = f_OperatorSet current \<and> f_OracleExplicit prior = f_OracleExplicit current \<and> f_Budget prior = f_Budget current \<and>
     f_CandidateCount prior = f_CandidateCount current \<and> f_Generated prior = f_Generated current \<and>
     timeoutPinMatchesRecord prior current \<and> \<not> memoryPinStale prior (f_OracleMemoryBytes current) \<and>
     attestationPinView (f_TargetEvidence prior) = attestationPinView (f_TargetEvidence current) \<and>
     length (f_OracleEvidence prior) = length (f_OracleEvidence current) \<and>
     distinct (map e_Symbol (f_OracleEvidence prior)) \<and> distinct (map e_Symbol (f_OracleEvidence current)) \<and>
     list_all (\<lambda>ev. case find (\<lambda>p. e_Symbol p = e_Symbol ev) (f_OracleEvidence prior) of
         None \<Rightarrow> False | Some p \<Rightarrow> attestationPinView p = attestationPinView ev) (f_OracleEvidence current)"

definition derivationMove :: "subject_evidence \<Rightarrow> subject_evidence \<Rightarrow> string" where
  "derivationMove prior current =
     (let p = fp_ClosureStrategy (e_Fingerprint prior); c = fp_ClosureStrategy (e_Fingerprint current) in
      if p = [] \<or> p = c then [] else p @ '' -> '' @ c)"

subsection \<open>The delta of a derived oracle\<close>

definition derivedOracleDelta :: "string list \<Rightarrow> string list \<Rightarrow> string" where
  "derivedOracleDelta recorded current =
     (let added = filter (\<lambda>s. s \<notin> set recorded) current; removed = filter (\<lambda>s. s \<notin> set current) recorded in
      if added = [] \<and> removed = []
      then (if length recorded \<noteq> length current then ''derived oracle changed (recorded oracle repeats an identity)'' else [])
      else ''derived oracle changed ('' @
        join ''; '' ((if added \<noteq> [] then [''added: '' @ cappedNameList added ''tests''] else []) @
          (if removed \<noteq> [] then [''removed: '' @ cappedNameList removed ''tests''] else [])) @ '')'')"

definition retainedOracleNames :: "finding \<Rightarrow> string list \<Rightarrow> (string \<times> string) list" where
  "retainedOracleNames f currentOracle =
     map (\<lambda>ev. (snd (splitTestSymbol (e_Symbol ev)), e_Symbol ev))
       (filter (\<lambda>ev. e_Symbol ev \<in> set currentOracle \<and> snd (splitTestSymbol (e_Symbol ev)) \<noteq> []) (f_OracleEvidence f))"

subsection \<open>Readings\<close>

datatype reading_key = Reading (rk_manifest: string) (rk_base: string) (rk_env: "string list")

record reading =
  rd_state :: input_state
  rd_error :: "string option"

record runtime_memo =
  mm_results :: "reading_key \<Rightarrow> (reading \<times> nat) option"
  mm_order :: "reading_key list"
  mm_reads :: nat

definition newRuntimeMemo :: runtime_memo where
  "newRuntimeMemo = \<lparr>mm_results = (\<lambda>_. None), mm_order = [], mm_reads = 0\<rparr>"

definition once :: "(nat \<Rightarrow> reading_key \<Rightarrow> reading) \<Rightarrow> reading_key \<Rightarrow> runtime_memo \<Rightarrow> reading \<times> runtime_memo" where
  "once current key m =
     (case mm_results m key of
        Some (r, uses) \<Rightarrow> (r, m\<lparr>mm_results := (mm_results m)(key \<mapsto> (r, uses + 1))\<rparr>)
      | None \<Rightarrow>
          let r = current (mm_reads m) key in
          (r, m\<lparr>mm_results := (mm_results m)(key \<mapsto> (r, 1)), mm_order := mm_order m @ [key], mm_reads := mm_reads m + 1\<rparr>))"

fun verify_keys :: "(nat \<Rightarrow> reading_key \<Rightarrow> reading) \<Rightarrow> (reading_key \<Rightarrow> (reading \<times> nat) option) \<Rightarrow> nat \<Rightarrow> reading_key list \<Rightarrow> bool" where
  "verify_keys current results reads [] = True"
| "verify_keys current results reads (key # keys) =
     (case results key of
        None \<Rightarrow> verify_keys current results reads keys
      | Some (r, uses) \<Rightarrow>
          if uses < 2 then verify_keys current results reads keys
          else let now = current reads key in
            if rd_error now \<noteq> None \<or> rd_state now \<noteq> rd_state r then False else verify_keys current results (reads + 1) keys)"

definition verify :: "(nat \<Rightarrow> reading_key \<Rightarrow> reading) \<Rightarrow> runtime_memo \<Rightarrow> bool" where
  "verify current m = verify_keys current (mm_results m) (mm_reads m) (mm_order m)"

subsection \<open>Evidence against a view\<close>

datatype verdict_status = StatusValid | StatusUnverifiable | StatusStale

record verdict =
  v_Status :: verdict_status
  v_Reason :: string

datatype gofresh_subject = Subject (subject_package: string) (subject_symbol: string)

record judged_view = provenance_view +
  vw_purity :: string
  vw_snapshot :: nat
  vw_subject :: gofresh_subject

record freshness_ops =
  fo_check :: "nat \<Rightarrow> fingerprint \<Rightarrow> gofresh_subject \<Rightarrow> string + verdict"
  fo_checkObserved :: "nat \<Rightarrow> fingerprint \<Rightarrow> gofresh_subject \<Rightarrow> string + verdict"
  fo_batch :: "nat \<Rightarrow> (gofresh_subject \<times> fingerprint) list \<Rightarrow> string + (gofresh_subject \<Rightarrow> verdict)"
  fo_moved :: "reading_key \<Rightarrow> string list option"

definition acceptValidVerdict :: "verdict \<Rightarrow> bool" where
  "acceptValidVerdict v \<longleftrightarrow> v_Status v = StatusValid"

definition observedFingerprint :: "fingerprint \<Rightarrow> bool" where
  "observedFingerprint fp \<longleftrightarrow> fp_ObservationAssertion fp \<noteq> [] \<or> fp_ProofStrategy fp \<noteq> [] \<or> fp_SubjectPackage fp \<noteq> [] \<or>
     fp_SubjectSymbol fp \<noteq> [] \<or> fp_ProofReason fp \<noteq> [] \<or> fp_ProofEvidence fp \<noteq> [] \<or> fp_Observable fp"

definition checkContext :: "freshness_ops \<Rightarrow> judged_view \<Rightarrow> fingerprint \<Rightarrow> string + verdict" where
  "checkContext fo v fp =
     (if observedFingerprint fp then fo_checkObserved fo (vw_snapshot v) fp (vw_subject v) else fo_check fo (vw_snapshot v) fp (vw_subject v))"

definition reading_of :: "judged_view \<Rightarrow> subject_evidence \<Rightarrow> reading_key" where
  "reading_of v ev = Reading (manifest_of ev) (evidenceBase (vw_evidenceDir v) ev) (vw_env v)"

definition reading_stands :: "judged_view \<Rightarrow> subject_evidence \<Rightarrow> reading \<Rightarrow> bool" where
  "reading_stands v ev r \<longleftrightarrow>
     rd_error r = None \<and> is_OK (rd_state r) \<and> is_Digest (rd_state r) = fp_RuntimeDigest (e_Fingerprint ev) \<and>
     is_Unverifiable (rd_state r) = e_RuntimeUnverifiable ev \<and> is_Reason (rd_state r) = e_RuntimeReason ev \<and>
     \<not> e_RuntimeUnverifiable ev \<and> fp_PurityAssertion (e_Fingerprint ev) = vw_purity v"

definition evidencePrecheck :: "(nat \<Rightarrow> reading_key \<Rightarrow> reading) \<Rightarrow> judged_view \<Rightarrow> subject_evidence \<Rightarrow> runtime_memo \<Rightarrow> bool \<times> runtime_memo" where
  "evidencePrecheck current v ev m =
     (if e_Symbol ev \<noteq> vw_symbol v \<or> manifest_of ev = [] \<or> fp_RuntimeDigest (e_Fingerprint ev) = [] then (False, m)
      else let (r, m) = once current (reading_of v ev) m in (reading_stands v ev r, m))"

fun prechecks :: "(nat \<Rightarrow> reading_key \<Rightarrow> reading) \<Rightarrow> (judged_view \<times> subject_evidence) list \<Rightarrow> runtime_memo \<Rightarrow> bool \<times> runtime_memo" where
  "prechecks current [] m = (True, m)"
| "prechecks current ((v, ev) # pairs) m =
     (let (ok, m) = evidencePrecheck current v ev m in if ok then prechecks current pairs m else (False, m))"

type_synonym batches = "(nat \<times> (gofresh_subject \<times> fingerprint) list) list"

text \<open>The walk that checks single rows and collects the batch of each view; \<open>None\<close> when a single row is refused.\<close>

fun group_pairs :: "freshness_ops \<Rightarrow> (judged_view \<times> subject_evidence) list \<Rightarrow> batches \<Rightarrow> string + batches option" where
  "group_pairs fo [] bs = Inr (Some bs)"
| "group_pairs fo ((v, ev) # pairs) bs =
     (let fp = e_Fingerprint ev; batch = get_or [] (map_of bs (vw_snapshot v)) in
      if \<not> observedFingerprint fp \<or> vw_subject v \<in> fst ` set batch
      then (case checkContext fo v fp of
              Inl e \<Rightarrow> Inl e
            | Inr vd \<Rightarrow> if acceptValidVerdict vd then group_pairs fo pairs bs else Inr None)
      else group_pairs fo pairs (AList.update (vw_snapshot v) (batch @ [(vw_subject v, fp)]) bs))"

fun check_batches :: "freshness_ops \<Rightarrow> batches \<Rightarrow> string + bool" where
  "check_batches fo [] = Inr True"
| "check_batches fo ((snap, recorded) # bs) =
     (case fo_batch fo snap recorded of
        Inl e \<Rightarrow> Inl e
      | Inr verdicts \<Rightarrow>
          if list_all (\<lambda>(subject, _). acceptValidVerdict (verdicts subject)) recorded then check_batches fo bs else Inr False)"

definition evidencePairsValid :: "freshness_ops \<Rightarrow> (nat \<Rightarrow> reading_key \<Rightarrow> reading) \<Rightarrow> (judged_view \<times> subject_evidence) list \<Rightarrow>
    runtime_memo \<Rightarrow> (string + bool) \<times> runtime_memo" where
  "evidencePairsValid fo current pairs m =
     (let (ok, m) = prechecks current pairs m in
      if \<not> ok then (Inr False, m)
      else (case group_pairs fo pairs [] of
          Inl e \<Rightarrow> (Inl e, m)
        | Inr None \<Rightarrow> (Inr False, m)
        | Inr (Some bs) \<Rightarrow> (check_batches fo bs, m)))"

subsection \<open>The serve decision\<close>

record run_pins =
  pn_oracleExplicit :: bool
  pn_operatorSet :: string
  pn_timeout :: string
  pn_timeoutDerived :: bool
  pn_memoryPin :: int
  pn_regime :: string

definition pins_hold :: "run_pins \<Rightarrow> finding \<Rightarrow> judged_view list \<Rightarrow> bool" where
  "pins_hold pn prior oracle \<longleftrightarrow>
     f_EvidenceFault prior = [] \<and> OracleExecutionPolicyIssue prior = [] \<and> f_OperatorSet prior = pn_operatorSet pn \<and>
     f_OracleExplicit prior = pn_oracleExplicit pn \<and> timeoutPinMatches prior (pn_timeout pn) (pn_timeoutDerived pn) \<and>
     \<not> memoryPinStale prior (pn_memoryPin pn) \<and> f_PropertyRegime prior = pn_regime pn \<and>
     length (f_OracleEvidence prior) = length oracle \<and> distinct (map e_Symbol (f_OracleEvidence prior))"

fun pair_oracle :: "subject_evidence list \<Rightarrow> judged_view list \<Rightarrow> (judged_view \<times> subject_evidence) list option" where
  "pair_oracle recorded [] = Some []"
| "pair_oracle recorded (v # vs) =
     (case find (\<lambda>ev. e_Symbol ev = vw_symbol v) recorded of
        None \<Rightarrow> None
      | Some ev \<Rightarrow> (case pair_oracle recorded vs of None \<Rightarrow> None | Some pairs \<Rightarrow> Some ((v, ev) # pairs)))"

definition pairs_match :: "freshness_ops \<Rightarrow> (nat \<Rightarrow> reading_key \<Rightarrow> reading) \<Rightarrow> (judged_view \<times> subject_evidence) list \<Rightarrow> string + bool" where
  "pairs_match fo current pairs =
     (case evidencePairsValid fo current pairs newRuntimeMemo of
        (Inl e, _) \<Rightarrow> Inl e
      | (Inr ok, m) \<Rightarrow> Inr (ok \<and> verify current m))"

definition evidenceSetMatches :: "freshness_ops \<Rightarrow> (nat \<Rightarrow> reading_key \<Rightarrow> reading) \<Rightarrow> run_pins \<Rightarrow> finding \<Rightarrow> judged_view \<Rightarrow>
    judged_view list \<Rightarrow> string + bool" where
  "evidenceSetMatches fo current pn prior target oracle =
     (if \<not> pins_hold pn prior oracle then Inr False
      else case pair_oracle (f_OracleEvidence prior) oracle of
          None \<Rightarrow> Inr False
        | Some pairs \<Rightarrow> pairs_match fo current ((target, f_TargetEvidence prior) # pairs))"

definition shapedEvidenceMatches :: "freshness_ops \<Rightarrow> (nat \<Rightarrow> reading_key \<Rightarrow> reading) \<Rightarrow> run_pins \<Rightarrow> finding \<Rightarrow> judged_view list \<Rightarrow>
    string + bool" where
  "shapedEvidenceMatches fo current pn prior oracle =
     (if \<not> pins_hold (pn\<lparr>pn_oracleExplicit := True\<rparr>) prior oracle \<or> f_CandidateEvidence prior \<noteq> [] then Inr False
      else case pair_oracle (f_OracleEvidence prior) oracle of
          None \<Rightarrow> Inr False
        | Some pairs \<Rightarrow> pairs_match fo current pairs)"

subsection \<open>One reading of each manifest\<close>

text \<open>The memo after the readings \<open>ks\<close>: every key was read once, at its place in the order, and its uses are counted.\<close>

definition memo_inv :: "(nat \<Rightarrow> reading_key \<Rightarrow> reading) \<Rightarrow> reading_key list \<Rightarrow> runtime_memo \<Rightarrow> bool" where
  "memo_inv current ks m \<longleftrightarrow>
     distinct (mm_order m) \<and> mm_reads m = length (mm_order m) \<and> set (mm_order m) = set ks \<and>
     (\<forall>key. key \<notin> set ks \<longrightarrow> mm_results m key = None) \<and>
     (\<forall>i < length (mm_order m). mm_results m (mm_order m ! i) = Some (current i (mm_order m ! i), count_list ks (mm_order m ! i)))"

lemma new_memo_inv: "memo_inv current [] newRuntimeMemo"
  by (simp add: memo_inv_def newRuntimeMemo_def)

lemma memo_lookup:
  assumes "memo_inv current ks m" "key \<in> set ks"
  shows "\<exists>i < length (mm_order m). mm_order m ! i = key \<and> mm_results m key = Some (current i key, count_list ks key)"
proof -
  obtain i where "i < length (mm_order m)" "mm_order m ! i = key"
    using assms by (metis in_set_conv_nth memo_inv_def)
  then show ?thesis using assms(1) unfolding memo_inv_def by metis
qed

lemma once_inv:
  assumes inv: "memo_inv current ks m"
  shows "memo_inv current (ks @ [key]) (snd (once current key m))"
    and "\<exists>u. mm_results (snd (once current key m)) key = Some (fst (once current key m), u)"
    and "mm_results m k = Some (r, u) \<Longrightarrow> \<exists>u'. mm_results (snd (once current key m)) k = Some (r, u')"
proof -
  have new: "mm_results m key = None" if "key \<notin> set ks" using inv that unfolding memo_inv_def by blast
  { assume known: "key \<in> set ks"
    obtain i where i: "i < length (mm_order m)" "mm_order m ! i = key" "mm_results m key = Some (current i key, count_list ks key)"
      using memo_lookup [OF inv known] by blast
    have "memo_inv current (ks @ [key]) (snd (once current key m))"
      using inv known i unfolding memo_inv_def
      by (auto simp: once_def nth_eq_iff_index_eq) }
  moreover
  { assume fresh: "key \<notin> set ks"
    have "memo_inv current (ks @ [key]) (snd (once current key m))"
      using inv fresh new [OF fresh] unfolding memo_inv_def
      by (auto simp: once_def Let_def nth_append less_Suc_eq count_list_0_iff) }
  ultimately show "memo_inv current (ks @ [key]) (snd (once current key m))" by blast
  show "\<exists>u. mm_results (snd (once current key m)) key = Some (fst (once current key m), u)"
    by (auto simp: once_def Let_def split: option.split)
  show "\<exists>u'. mm_results (snd (once current key m)) k = Some (r, u')" if "mm_results m k = Some (r, u)"
    using that by (auto simp: once_def Let_def split: option.split)
qed

definition row_identified :: "judged_view \<Rightarrow> subject_evidence \<Rightarrow> bool" where
  "row_identified v ev \<longleftrightarrow> e_Symbol ev = vw_symbol v \<and> manifest_of ev \<noteq> [] \<and> fp_RuntimeDigest (e_Fingerprint ev) \<noteq> []"

abbreviation pair_keys :: "(judged_view \<times> subject_evidence) list \<Rightarrow> reading_key list" where
  "pair_keys pairs \<equiv> map (\<lambda>(v, ev). reading_of v ev) pairs"

lemma evidencePrecheck_True:
  assumes "evidencePrecheck current v ev m = (True, m')"
  shows "row_identified v ev" "m' = snd (once current (reading_of v ev) m)"
    "reading_stands v ev (fst (once current (reading_of v ev) m))"
  using assms by (auto simp: evidencePrecheck_def row_identified_def Let_def split: if_splits prod.splits)

lemma prechecks_inv:
  assumes "prechecks current pairs m = (True, m')" "memo_inv current ks m"
  shows "memo_inv current (ks @ pair_keys pairs) m' \<and> (\<forall>k r u. mm_results m k = Some (r, u) \<longrightarrow> (\<exists>u'. mm_results m' k = Some (r, u'))) \<and>
    (\<forall>(v, ev) \<in> set pairs. row_identified v ev \<and> (\<exists>r u. mm_results m' (reading_of v ev) = Some (r, u) \<and> reading_stands v ev r))"
  using assms
proof (induction pairs arbitrary: m ks)
  case (Cons pair pairs)
  obtain v ev where pair: "pair = (v, ev)" by fastforce
  obtain m1 where head: "evidencePrecheck current v ev m = (True, m1)" and rest: "prechecks current pairs m1 = (True, m')"
    using Cons.prems(1) by (auto simp: pair Let_def split: prod.splits if_splits)
  note h = evidencePrecheck_True [OF head]
  note o = once_inv [OF Cons.prems(2), where key = "reading_of v ev", folded h(2)]
  note tail = Cons.IH [OF rest o(1)]
  obtain u where here: "mm_results m1 (reading_of v ev) = Some (fst (once current (reading_of v ev) m), u)" using o(2) by blast
  then have "\<exists>r u. mm_results m' (reading_of v ev) = Some (r, u) \<and> reading_stands v ev r" using tail h(3) by blast
  moreover have "\<exists>u'. mm_results m' k = Some (r, u')" if "mm_results m k = Some (r, u)" for k r u
    using o(3) [OF that] tail by blast
  ultimately show ?case using tail h(1) by (auto simp: pair)
qed simp

lemma verify_keys_reads:
  assumes "verify_keys current results reads keys" "key \<in> set keys" "results key = Some (r, uses)" "2 \<le> uses"
  shows "\<exists>n \<ge> reads. rd_error (current n key) = None \<and> rd_state (current n key) = rd_state r"
  using assms
proof (induction keys arbitrary: reads)
  case (Cons k keys)
  show ?case
  proof (cases "k = key")
    case True
    then show ?thesis using Cons.prems by (auto simp: Let_def split: if_splits)
  next
    case False
    then have later: "key \<in> set keys" using Cons.prems(2) by simp
    have "verify_keys current results reads keys \<or> verify_keys current results (reads + 1) keys"
      using Cons.prems(1) by (auto simp: Let_def split: option.splits if_splits)
    then show ?thesis using Cons.IH [OF _ later Cons.prems(3,4)] by (meson le_add1 order_trans)
  qed
qed simp

lemma pairs_match_reads:
  assumes "pairs_match fo current pairs = Inr True"
  shows "\<exists>m. memo_inv current (pair_keys pairs) m \<and>
    (\<forall>(v, ev) \<in> set pairs. row_identified v ev \<and> (\<exists>r u. mm_results m (reading_of v ev) = Some (r, u) \<and> reading_stands v ev r)) \<and>
    (\<forall>key r u. mm_results m key = Some (r, u) \<and> 2 \<le> u \<longrightarrow>
      (\<exists>n \<ge> length (mm_order m). rd_error (current n key) = None \<and> rd_state (current n key) = rd_state r))"
proof -
  obtain m where ok: "prechecks current pairs newRuntimeMemo = (True, m)" and v: "verify current m"
    using assms by (auto simp: pairs_match_def evidencePairsValid_def Let_def split: sum.splits prod.splits if_splits option.splits)
  note inv = prechecks_inv [OF ok new_memo_inv, unfolded append_Nil]
  have "\<exists>n \<ge> length (mm_order m). rd_error (current n key) = None \<and> rd_state (current n key) = rd_state r"
    if "mm_results m key = Some (r, u)" "2 \<le> u" for key r u
  proof -
    have "key \<in> set (mm_order m)" using inv that(1) unfolding memo_inv_def by (metis option.distinct(1))
    then show ?thesis
      using verify_keys_reads [OF v [unfolded verify_def] _ that] inv unfolding memo_inv_def by metis
  qed
  then show ?thesis using inv by blast
qed

subsection \<open>The batches decide what the rows decide\<close>

text \<open>gofresh: a subject's batched verdict equals its single check.\<close>

definition batch_law :: "freshness_ops \<Rightarrow> bool" where
  "batch_law fo \<longleftrightarrow> (\<forall>snap recorded verdicts. fo_batch fo snap recorded = Inr verdicts \<and> distinct (map fst recorded) \<longrightarrow>
     (\<forall>(subject, fp) \<in> set recorded. fo_checkObserved fo snap fp subject = Inr (verdicts subject)))"

definition row_valid :: "freshness_ops \<Rightarrow> judged_view \<Rightarrow> subject_evidence \<Rightarrow> bool" where
  "row_valid fo v ev = (case checkContext fo v (e_Fingerprint ev) of Inl _ \<Rightarrow> False | Inr vd \<Rightarrow> acceptValidVerdict vd)"

definition observed_valid :: "freshness_ops \<Rightarrow> nat \<Rightarrow> gofresh_subject \<Rightarrow> fingerprint \<Rightarrow> bool" where
  "observed_valid fo snap subject fp = (case fo_checkObserved fo snap fp subject of Inl _ \<Rightarrow> False | Inr vd \<Rightarrow> acceptValidVerdict vd)"

definition batch_entry :: "batches \<Rightarrow> nat \<Rightarrow> gofresh_subject \<Rightarrow> fingerprint \<Rightarrow> bool" where
  "batch_entry bs snap subject fp \<longleftrightarrow> (\<exists>recorded. map_of bs snap = Some recorded \<and> (subject, fp) \<in> set recorded)"

definition batches_ok :: "batches \<Rightarrow> bool" where
  "batches_ok bs \<longleftrightarrow> distinct (map fst bs) \<and> (\<forall>snap recorded. map_of bs snap = Some recorded \<longrightarrow> distinct (map fst recorded))"

lemma row_valid_observed:
  "observedFingerprint (e_Fingerprint ev) \<Longrightarrow> row_valid fo v ev = observed_valid fo (vw_snapshot v) (vw_subject v) (e_Fingerprint ev)"
  by (simp add: row_valid_def observed_valid_def checkContext_def)

lemma batches_ok_update:
  assumes "batches_ok bs" "vw_subject v \<notin> fst ` set (get_or [] (map_of bs snap))"
  shows "batches_ok (AList.update snap (get_or [] (map_of bs snap) @ [(vw_subject v, fp)]) bs)"
  using assms by (cases "map_of bs snap") (auto simp: batches_ok_def update_conv' distinct_update split: if_splits)

lemma batch_entry_update:
  "batch_entry (AList.update snap (get_or [] (map_of bs snap) @ [(subject, fp)]) bs) k s g \<longleftrightarrow>
     batch_entry bs k s g \<or> k = snap \<and> s = subject \<and> g = fp"
  by (cases "map_of bs snap") (auto simp: batch_entry_def update_conv')

lemma group_pairs_collects:
  assumes "group_pairs fo pairs bs = Inr (Some bs')" "batches_ok bs"
  shows "batches_ok bs' \<and>
    (\<forall>v ev. (v, ev) \<in> set pairs \<longrightarrow> row_valid fo v ev \<or>
      observedFingerprint (e_Fingerprint ev) \<and> batch_entry bs' (vw_snapshot v) (vw_subject v) (e_Fingerprint ev)) \<and>
    (\<forall>snap s fp. batch_entry bs snap s fp \<longrightarrow> batch_entry bs' snap s fp) \<and>
    (\<forall>snap s fp. batch_entry bs' snap s fp \<longrightarrow> batch_entry bs snap s fp \<or>
      (\<exists>v ev. (v, ev) \<in> set pairs \<and> observedFingerprint (e_Fingerprint ev) \<and> vw_snapshot v = snap \<and> vw_subject v = s \<and> e_Fingerprint ev = fp))"
  using assms
proof (induction pairs arbitrary: bs)
  case (Cons pair pairs)
  obtain v ev where pair: "pair = (v, ev)" by fastforce
  define single where "single = (\<not> observedFingerprint (e_Fingerprint ev) \<or> vw_subject v \<in> fst ` set (get_or [] (map_of bs (vw_snapshot v))))"
  show ?case
  proof (cases single)
    case True
    obtain vd where "checkContext fo v (e_Fingerprint ev) = Inr vd" "acceptValidVerdict vd" and rest: "group_pairs fo pairs bs = Inr (Some bs')"
      using Cons.prems(1) True by (auto simp: pair single_def Let_def split: sum.splits if_splits)
    then have "row_valid fo v ev" by (simp add: row_valid_def)
    then show ?thesis using Cons.IH [OF rest Cons.prems(2)] unfolding pair by (metis set_ConsD list.set_intros(2) prod.inject)
  next
    case False
    define bs1 where "bs1 = AList.update (vw_snapshot v) (get_or [] (map_of bs (vw_snapshot v)) @ [(vw_subject v, e_Fingerprint ev)]) bs"
    have rest: "group_pairs fo pairs bs1 = Inr (Some bs')"
      using Cons.prems(1) False by (simp add: pair single_def Let_def bs1_def)
    have ok: "batches_ok bs1"
      unfolding bs1_def by (rule batches_ok_update [OF Cons.prems(2)]) (use False in \<open>simp add: single_def\<close>)
    have obs: "observedFingerprint (e_Fingerprint ev)" using False by (simp add: single_def)
    have entry: "batch_entry bs1 k s g \<longleftrightarrow> batch_entry bs k s g \<or> k = vw_snapshot v \<and> s = vw_subject v \<and> g = e_Fingerprint ev" for k s g
      by (simp add: bs1_def batch_entry_update)
    note IH = Cons.IH [OF rest ok]
    have mine: "batch_entry bs' (vw_snapshot v) (vw_subject v) (e_Fingerprint ev)" using IH entry by blast
    show ?thesis
    proof (intro conjI allI impI)
      show "batches_ok bs'" using IH by blast
      show "row_valid fo w e \<or> observedFingerprint (e_Fingerprint e) \<and> batch_entry bs' (vw_snapshot w) (vw_subject w) (e_Fingerprint e)"
        if "(w, e) \<in> set (pair # pairs)" for w e
        using that IH mine obs by (auto simp: pair)
      show "batch_entry bs' k s g" if "batch_entry bs k s g" for k s g using that IH entry by blast
      show "batch_entry bs k s g \<or> (\<exists>w e. (w, e) \<in> set (pair # pairs) \<and> observedFingerprint (e_Fingerprint e) \<and>
          vw_snapshot w = k \<and> vw_subject w = s \<and> e_Fingerprint e = g)" if "batch_entry bs' k s g" for k s g
      proof -
        from that IH have "batch_entry bs1 k s g \<or> (\<exists>w e. (w, e) \<in> set pairs \<and> observedFingerprint (e_Fingerprint e) \<and>
          vw_snapshot w = k \<and> vw_subject w = s \<and> e_Fingerprint e = g)" by blast
        then show ?thesis using entry obs unfolding pair by (metis list.set_intros(1,2))
      qed
    qed
  qed
qed simp

lemma group_pairs_refuses:
  "group_pairs fo pairs bs = Inr None \<Longrightarrow> \<exists>v ev. (v, ev) \<in> set pairs \<and> \<not> row_valid fo v ev"
proof (induction pairs arbitrary: bs)
  case (Cons pair pairs)
  obtain v ev where pair: "pair = (v, ev)" by fastforce
  show ?case
  proof (cases "row_valid fo v ev")
    case True
    then have "\<exists>bs1. group_pairs fo pairs bs1 = Inr None"
      using Cons.prems by (auto simp: pair Let_def row_valid_def split: sum.splits if_splits)
    then show ?thesis using Cons.IH by (metis list.set_intros(2))
  next
    case False
    then show ?thesis unfolding pair by (metis list.set_intros(1))
  qed
qed simp

lemma check_batches_entries:
  assumes "batch_law fo" "check_batches fo bs = Inr b" "batches_ok bs"
  shows "b \<longleftrightarrow> (\<forall>snap s fp. batch_entry bs snap s fp \<longrightarrow> observed_valid fo snap s fp)"
  using assms(2,3)
proof (induction bs)
  case Nil
  then show ?case by (simp add: batch_entry_def)
next
  case (Cons batch bs)
  obtain snap recorded where batch: "batch = (snap, recorded)" by fastforce
  obtain verdicts where v: "fo_batch fo snap recorded = Inr verdicts" using Cons.prems(1) by (auto simp: batch split: sum.splits)
  have outside: "snap \<notin> fst ` set bs" using Cons.prems(2) by (simp add: batch batches_ok_def)
  have recorded: "distinct (map fst recorded)"
  proof -
    have "map_of (batch # bs) snap = Some recorded" by (simp add: batch)
    then show ?thesis using Cons.prems(2) unfolding batches_ok_def by blast
  qed
  have none: "map_of bs snap = None" using outside by (simp add: map_of_eq_None_iff)
  have "distinct (map fst rows)" if "map_of bs k = Some rows" for k rows
  proof -
    have "map_of (batch # bs) k = Some rows" using that none by (auto simp: batch)
    then show ?thesis using Cons.prems(2) unfolding batches_ok_def by blast
  qed
  then have ok: "batches_ok bs" using Cons.prems(2) by (simp add: batch batches_ok_def)
  have single: "fo_checkObserved fo snap fp s = Inr (verdicts s)" if "(s, fp) \<in> set recorded" for s fp
    using assms(1) v recorded that unfolding batch_law_def by blast
  have split: "batch_entry (batch # bs) k s fp \<longleftrightarrow> k = snap \<and> (s, fp) \<in> set recorded \<or> batch_entry bs k s fp" for k s fp
    using none by (auto simp: batch batch_entry_def)
  have here: "list_all (\<lambda>(subject, _). acceptValidVerdict (verdicts subject)) recorded \<longleftrightarrow>
      (\<forall>s fp. (s, fp) \<in> set recorded \<longrightarrow> observed_valid fo snap s fp)"
    using single by (auto simp: list_all_iff observed_valid_def)
  show ?case
  proof (cases "list_all (\<lambda>(subject, _). acceptValidVerdict (verdicts subject)) recorded")
    case True
    then have "check_batches fo bs = Inr b" using Cons.prems(1) v by (simp add: batch)
    note IH = Cons.IH [OF this ok]
    show ?thesis unfolding split IH using here True by blast
  next
    case False
    then have "\<not> b" using Cons.prems(1) v by (simp add: batch)
    then show ?thesis using here False split by blast
  qed
qed

lemma pairs_valid_rows:
  assumes "batch_law fo" "prechecks current pairs m = (True, m1)" "evidencePairsValid fo current pairs m = (Inr b, m')"
  shows "b \<longleftrightarrow> (\<forall>v ev. (v, ev) \<in> set pairs \<longrightarrow> row_valid fo v ev)"
proof -
  consider (refused) "group_pairs fo pairs [] = Inr None" "\<not> b" | (grouped) bs where "group_pairs fo pairs [] = Inr (Some bs)" "check_batches fo bs = Inr b"
    using assms(2,3) by (auto simp: evidencePairsValid_def split: sum.splits option.splits)
  then show ?thesis
  proof cases
    case refused
    then show ?thesis using group_pairs_refuses by metis
  next
    case grouped
    have ok: "batches_ok []" by (simp add: batches_ok_def)
    note g = group_pairs_collects [OF grouped(1) ok]
    have entries: "b \<longleftrightarrow> (\<forall>snap s fp. batch_entry bs snap s fp \<longrightarrow> observed_valid fo snap s fp)"
      by (rule check_batches_entries [OF assms(1) grouped(2)]) (use g in blast)
    have none: "\<not> batch_entry [] snap s fp" for snap s fp by (simp add: batch_entry_def)
    show ?thesis
    proof
      assume b
      show "\<forall>v ev. (v, ev) \<in> set pairs \<longrightarrow> row_valid fo v ev"
        using entries \<open>b\<close> g row_valid_observed by metis
    next
      assume rows: "\<forall>v ev. (v, ev) \<in> set pairs \<longrightarrow> row_valid fo v ev"
      have "observed_valid fo snap s fp" if "batch_entry bs snap s fp" for snap s fp
      proof -
        have "\<exists>v ev. (v, ev) \<in> set pairs \<and> observedFingerprint (e_Fingerprint ev) \<and> vw_snapshot v = snap \<and> vw_subject v = s \<and> e_Fingerprint ev = fp"
          using that g none by blast
        then show ?thesis using rows row_valid_observed by metis
      qed
      then show b using entries by blast
    qed
  qed
qed

subsection \<open>What the serve decision decides\<close>

definition row_stands :: "(reading_key \<Rightarrow> reading) \<Rightarrow> freshness_ops \<Rightarrow> judged_view \<Rightarrow> subject_evidence \<Rightarrow> bool" where
  "row_stands rd fo v ev \<longleftrightarrow> row_identified v ev \<and> reading_stands v ev (rd (reading_of v ev)) \<and> row_valid fo v ev"

definition memo_of :: "(reading_key \<Rightarrow> reading) \<Rightarrow> runtime_memo \<Rightarrow> bool" where
  "memo_of rd m \<longleftrightarrow> (\<forall>key r u. mm_results m key = Some (r, u) \<longrightarrow> r = rd key)"

lemma once_stable:
  assumes "memo_of rd m" shows "fst (once (\<lambda>_. rd) key m) = rd key" "memo_of rd (snd (once (\<lambda>_. rd) key m))"
  using assms by (auto simp: memo_of_def once_def Let_def split: option.splits if_splits)

lemma prechecks_stable:
  assumes "prechecks (\<lambda>_. rd) pairs m = (ok, m')" "memo_of rd m"
  shows "memo_of rd m' \<and> (ok \<longleftrightarrow> (\<forall>v ev. (v, ev) \<in> set pairs \<longrightarrow> row_identified v ev \<and> reading_stands v ev (rd (reading_of v ev))))"
  using assms
proof (induction pairs arbitrary: m)
  case (Cons pair pairs)
  obtain v ev where pair: "pair = (v, ev)" by fastforce
  define m1 where "m1 = snd (evidencePrecheck (\<lambda>_. rd) v ev m)"
  have head: "evidencePrecheck (\<lambda>_. rd) v ev m = (row_identified v ev \<and> reading_stands v ev (rd (reading_of v ev)), m1)"
    using once_stable(1) [OF Cons.prems(2), of "reading_of v ev"]
    by (cases "once (\<lambda>_. rd) (reading_of v ev) m") (auto simp: m1_def evidencePrecheck_def row_identified_def Let_def)
  have m1: "memo_of rd m1"
    using once_stable(2) [OF Cons.prems(2), of "reading_of v ev"] Cons.prems(2)
    by (cases "once (\<lambda>_. rd) (reading_of v ev) m") (auto simp: m1_def evidencePrecheck_def Let_def)
  show ?case
  proof (cases "row_identified v ev \<and> reading_stands v ev (rd (reading_of v ev))")
    case True
    then have "prechecks (\<lambda>_. rd) pairs m1 = (ok, m')" using Cons.prems(1) head by (simp add: pair)
    from Cons.IH [OF this m1] show ?thesis using True by (auto simp: pair)
  next
    case False
    then have "\<not> ok" "m' = m1" using Cons.prems(1) head by (auto simp: pair)
    then show ?thesis using False m1 by (auto simp: pair)
  qed
qed simp

lemma verify_stable:
  assumes "\<And>key r u. key \<in> set keys \<Longrightarrow> results key = Some (r, u) \<Longrightarrow> r = rd key \<and> rd_error r = None"
  shows "verify_keys (\<lambda>_. rd) results reads keys"
  using assms
proof (induction keys arbitrary: reads)
  case (Cons key keys)
  have "verify_keys (\<lambda>_. rd) results n keys" for n by (rule Cons.IH) (use Cons.prems in auto)
  moreover have "r = rd key \<and> rd_error r = None" if "results key = Some (r, u)" for r u
    by (rule Cons.prems [OF _ that]) simp
  ultimately show ?case by (fastforce simp: Let_def split: option.split)
qed simp

lemma pairs_match_stable:
  assumes "batch_law fo" "pairs_match fo (\<lambda>_. rd) pairs = Inr b"
  shows "b \<longleftrightarrow> (\<forall>v ev. (v, ev) \<in> set pairs \<longrightarrow> row_stands rd fo v ev)"
proof -
  obtain ok m where p: "prechecks (\<lambda>_. rd) pairs newRuntimeMemo = (ok, m)" by fastforce
  have new: "memo_of rd newRuntimeMemo" by (simp add: memo_of_def newRuntimeMemo_def)
  note st = prechecks_stable [OF p new]
  show ?thesis
  proof (cases ok)
    case False
    then have "\<not> b" using assms(2) p by (simp add: pairs_match_def evidencePairsValid_def)
    then show ?thesis using st False unfolding row_stands_def by blast
  next
    case True
    then obtain b' where e: "evidencePairsValid fo (\<lambda>_. rd) pairs newRuntimeMemo = (Inr b', m)" "b = (b' \<and> verify (\<lambda>_. rd) m)"
      using assms(2) p by (auto simp: pairs_match_def evidencePairsValid_def split: sum.splits option.splits)
    have inv: "memo_inv (\<lambda>_. rd) (pair_keys pairs) m"
      using prechecks_inv [OF _ new_memo_inv, unfolded append_Nil, of "\<lambda>_. rd" pairs m] p True by simp
    have "verify (\<lambda>_. rd) m"
      unfolding verify_def
    proof (rule verify_stable)
      fix key r u assume "key \<in> set (mm_order m)" "mm_results m key = Some (r, u)"
      then have key: "key \<in> set (pair_keys pairs)" "r = rd key" using inv st unfolding memo_inv_def memo_of_def by blast+
      then obtain v ev where "(v, ev) \<in> set pairs" "key = reading_of v ev" by auto
      then have "reading_stands v ev (rd key)" using st True by blast
      then show "r = rd key \<and> rd_error r = None" using key(2) by (simp add: reading_stands_def)
    qed
    then have b: "b = b'" using e(2) by simp
    have "prechecks (\<lambda>_. rd) pairs newRuntimeMemo = (True, m)" using p True by simp
    note rows = pairs_valid_rows [OF assms(1) this e(1)]
    show ?thesis unfolding b rows row_stands_def using st True by blast
  qed
qed

lemma find_symbol: "find (\<lambda>ev. e_Symbol ev = x) recorded = None \<longleftrightarrow> x \<notin> e_Symbol ` set recorded"
  by (auto simp: find_None_iff)

lemma pair_oracle_None: "pair_oracle recorded vs = None \<longleftrightarrow> (\<exists>v \<in> set vs. vw_symbol v \<notin> e_Symbol ` set recorded)"
proof (induction vs)
  case (Cons v vs)
  then show ?case
    using find_symbol [of "vw_symbol v" recorded]
    by (cases "find (\<lambda>ev. e_Symbol ev = vw_symbol v) recorded"; cases "pair_oracle recorded vs") auto
qed simp

lemma pair_oracle_Some:
  assumes "pair_oracle recorded vs = Some pairs" "distinct (map e_Symbol recorded)"
  shows "(v, ev) \<in> set pairs \<longleftrightarrow> v \<in> set vs \<and> ev \<in> set recorded \<and> e_Symbol ev = vw_symbol v"
  using assms(1)
proof (induction vs arbitrary: pairs)
  case (Cons w vs)
  obtain e ps where e: "find (\<lambda>ev. e_Symbol ev = vw_symbol w) recorded = Some e" "pair_oracle recorded vs = Some ps" "pairs = (w, e) # ps"
    using Cons.prems by (auto split: option.splits)
  have mem: "e \<in> set recorded" "e_Symbol e = vw_symbol w" using e(1) by (auto simp: find_Some_iff)
  have only: "f = e" if "f \<in> set recorded" "e_Symbol f = vw_symbol w" for f
    using that mem assms(2) by (metis distinct_map inj_onD)
  have "(v, ev) \<in> set pairs \<longleftrightarrow> v = w \<and> ev = e \<or> v \<in> set vs \<and> ev \<in> set recorded \<and> e_Symbol ev = vw_symbol v"
    using Cons.IH [OF e(2)] by (simp add: e(3))
  also have "\<dots> \<longleftrightarrow> v \<in> set (w # vs) \<and> ev \<in> set recorded \<and> e_Symbol ev = vw_symbol v"
    using only mem unfolding list.set by blast
  finally show ?case .
qed simp

lemma serve_rows:
  assumes law: "batch_law fo" and decision: "evidenceSetMatches fo (\<lambda>_. rd) pn prior target oracle = Inr b"
  shows "b \<longleftrightarrow> pins_hold pn prior oracle \<and> row_stands rd fo target (f_TargetEvidence prior) \<and>
    (\<forall>v \<in> set oracle. \<exists>ev \<in> set (f_OracleEvidence prior). row_stands rd fo v ev)"
proof (cases "pins_hold pn prior oracle")
  case False
  then show ?thesis using decision by (simp add: evidenceSetMatches_def)
next
  case True
  then have distinct: "distinct (map e_Symbol (f_OracleEvidence prior))" by (simp add: pins_hold_def)
  have named: "e_Symbol ev = vw_symbol v" if "row_stands rd fo v ev" for v ev
    using that by (simp add: row_stands_def row_identified_def)
  show ?thesis
  proof (cases "pair_oracle (f_OracleEvidence prior) oracle")
    case None
    then have "\<not> b" using decision True by (simp add: evidenceSetMatches_def)
    moreover obtain v where "v \<in> set oracle" "vw_symbol v \<notin> e_Symbol ` set (f_OracleEvidence prior)"
      using None pair_oracle_None by blast
    ultimately show ?thesis using named by force
  next
    case (Some pairs)
    then have match: "pairs_match fo (\<lambda>_. rd) ((target, f_TargetEvidence prior) # pairs) = Inr b"
      using decision True by (simp add: evidenceSetMatches_def)
    note paired = pair_oracle_Some [OF Some distinct]
    have each: "\<exists>ev. (v, ev) \<in> set pairs" if "v \<in> set oracle" for v
      using that Some paired pair_oracle_None [of "f_OracleEvidence prior" "oracle"] by (metis imageE option.distinct(1))
    have rows: "b \<longleftrightarrow> row_stands rd fo target (f_TargetEvidence prior) \<and> (\<forall>v ev. (v, ev) \<in> set pairs \<longrightarrow> row_stands rd fo v ev)"
      unfolding pairs_match_stable [OF law match] list.set by blast
    have oracle_rows: "(\<forall>v ev. (v, ev) \<in> set pairs \<longrightarrow> row_stands rd fo v ev) \<longleftrightarrow>
        (\<forall>v \<in> set oracle. \<exists>ev \<in> set (f_OracleEvidence prior). row_stands rd fo v ev)"
    proof
      assume "\<forall>v ev. (v, ev) \<in> set pairs \<longrightarrow> row_stands rd fo v ev"
      then show "\<forall>v \<in> set oracle. \<exists>ev \<in> set (f_OracleEvidence prior). row_stands rd fo v ev" using each unfolding paired by blast
    next
      assume all: "\<forall>v \<in> set oracle. \<exists>ev \<in> set (f_OracleEvidence prior). row_stands rd fo v ev"
      have "row_stands rd fo v ev" if "(v, ev) \<in> set pairs" for v ev
      proof -
        have inj: "inj_on e_Symbol (set (f_OracleEvidence prior))" using distinct by (simp add: distinct_map)
        have ev: "v \<in> set oracle" "ev \<in> set (f_OracleEvidence prior)" "e_Symbol ev = vw_symbol v" using that unfolding paired by blast+
        obtain ev' where ev': "ev' \<in> set (f_OracleEvidence prior)" "row_stands rd fo v ev'" using all ev(1) by blast
        have "e_Symbol ev' = e_Symbol ev" using named [OF ev'(2)] ev(3) by simp
        from inj_onD [OF inj this ev'(1) ev(2)] have "ev' = ev" .
        then show ?thesis using ev'(2) by simp
      qed
      then show "\<forall>v ev. (v, ev) \<in> set pairs \<longrightarrow> row_stands rd fo v ev" by blast
    qed
    show ?thesis using True rows oracle_rows by blast
  qed
qed

text \<open>C17: The serve decision, with its memo and its batches, decides row by row: while the manifests stay as they
  are, a record matches exactly when its pins hold and the target's row and one row of each current oracle test stand:
  the row is the view's, its recorded inputs re-evaluate to exactly what it recorded, verifiably, and the analysis calls it valid.\<close>

theorem serve_decision_judges_rows:
  assumes law: "batch_law fo" and decision: "evidenceSetMatches fo (\<lambda>_. rd) pn prior target oracle = Inr b"
  shows "b \<longleftrightarrow> pins_hold pn prior oracle \<and> row_stands rd fo target (f_TargetEvidence prior) \<and>
    (\<forall>v \<in> set oracle. \<exists>ev \<in> set (f_OracleEvidence prior). row_stands rd fo v ev)"
  by (rule serve_rows [OF law decision])

text \<open>C18: A record is served on one reading of every manifest: each manifest the decision consults is read once,
  in the order first consulted, every row stands on that reading, and one that several rows share is
  read again at the end and is the same.\<close>

theorem served_record_rests_on_one_reading:
  assumes "evidenceSetMatches fo current pn prior target oracle = Inr True"
  shows "\<exists>pairs keys readings. pair_oracle (f_OracleEvidence prior) oracle = Some pairs \<and> distinct keys \<and>
    set keys = set (pair_keys ((target, f_TargetEvidence prior) # pairs)) \<and>
    (\<forall>i < length keys. readings (keys ! i) = current i (keys ! i)) \<and>
    (\<forall>(v, ev) \<in> set ((target, f_TargetEvidence prior) # pairs). row_identified v ev \<and> reading_stands v ev (readings (reading_of v ev))) \<and>
    (\<forall>key. 2 \<le> count_list (pair_keys ((target, f_TargetEvidence prior) # pairs)) key \<longrightarrow>
      (\<exists>n \<ge> length keys. rd_error (current n key) = None \<and> rd_state (current n key) = rd_state (readings key)))"
proof -
  obtain pairs where pairs: "pair_oracle (f_OracleEvidence prior) oracle = Some pairs"
    and match: "pairs_match fo current ((target, f_TargetEvidence prior) # pairs) = Inr True"
    using assms by (auto simp: evidenceSetMatches_def split: if_splits option.splits)
  let ?ps = "(target, f_TargetEvidence prior) # pairs"
  obtain m where inv: "memo_inv current (pair_keys ?ps) m"
    and rows: "\<forall>(v, ev) \<in> set ?ps. row_identified v ev \<and> (\<exists>r u. mm_results m (reading_of v ev) = Some (r, u) \<and> reading_stands v ev r)"
    and again: "\<forall>key r u. mm_results m key = Some (r, u) \<and> 2 \<le> u \<longrightarrow>
      (\<exists>n \<ge> length (mm_order m). rd_error (current n key) = None \<and> rd_state (current n key) = rd_state r)"
    using pairs_match_reads [OF match] by blast
  define readings where "readings = (\<lambda>key. fst (the (mm_results m key)))"
  have order: "distinct (mm_order m)" "set (mm_order m) = set (pair_keys ?ps)" using inv unfolding memo_inv_def by blast+
  have read: "readings (mm_order m ! i) = current i (mm_order m ! i)" if "i < length (mm_order m)" for i
    using inv that unfolding memo_inv_def readings_def by simp
  have stands: "\<forall>(v, ev) \<in> set ?ps. row_identified v ev \<and> reading_stands v ev (readings (reading_of v ev))"
    using rows unfolding readings_def by fastforce
  have shared: "\<exists>n \<ge> length (mm_order m). rd_error (current n key) = None \<and> rd_state (current n key) = rd_state (readings key)"
    if "2 \<le> count_list (pair_keys ?ps) key" for key
  proof -
    have "key \<in> set (pair_keys ?ps)" using that by (metis count_list_0_iff not_numeral_le_zero)
    from memo_lookup [OF inv this] obtain i where "mm_results m key = Some (current i key, count_list (pair_keys ?ps) key)" by blast
    then show ?thesis using again that unfolding readings_def by (metis fst_conv option.sel)
  qed
  show ?thesis using pairs order read stands shared by blast
qed

subsection \<open>The derived oracle\<close>

lemma derived_delta_Nil:
  "derivedOracleDelta recorded current = [] \<longleftrightarrow> set recorded = set current \<and> length recorded = length current"
  by (auto simp: derivedOracleDelta_def Let_def filter_empty_conv)

lemma derived_delta_sorted:
  assumes "sorted recorded" "sorted current" "distinct current" "derivedOracleDelta recorded current = []"
  shows "recorded = current"
proof -
  have same: "set recorded = set current" "length recorded = length current" using assms(4) by (simp_all add: derived_delta_Nil)
  then have "distinct recorded" using assms(3) by (metis card_distinct distinct_card)
  then show ?thesis using assms same(1) sorted_distinct_set_unique by blast
qed

subsection \<open>Examples\<close>

definition sample_judged :: judged_view where
  "sample_judged = \<lparr>vw_symbol = ''p.F'', vw_evidenceDir = ''/r'', vw_sourceFiles = [''/r/p/a.go''], vw_env = [], vw_purity = [],
     vw_snapshot = 0, vw_subject = Subject ''p'' ''F''\<rparr>"

definition sample_test :: judged_view where
  "sample_test = sample_judged\<lparr>vw_symbol := ''p.TestF'', vw_subject := Subject ''p'' ''TestF''\<rparr>"

definition sample_fresh :: freshness_ops where
  "sample_fresh = \<lparr>fo_check = (\<lambda>_ _ _. Inr \<lparr>v_Status = StatusValid, v_Reason = []\<rparr>),
     fo_checkObserved = (\<lambda>_ _ _. Inr \<lparr>v_Status = StatusValid, v_Reason = []\<rparr>),
     fo_batch = (\<lambda>_ _. Inr (\<lambda>_. \<lparr>v_Status = StatusValid, v_Reason = []\<rparr>)), fo_moved = (\<lambda>_. None)\<rparr>"

definition sample_reading :: "reading_key \<Rightarrow> reading" where
  "sample_reading key = \<lparr>rd_state = \<lparr>is_OK = True, is_Unverifiable = False, is_Reason = [], is_Digest = ''d''\<rparr>, rd_error = None\<rparr>"

definition sample_row :: "string \<Rightarrow> subject_evidence" where
  "sample_row symbol = zero_evidence\<lparr>e_Symbol := symbol,
     e_Fingerprint := zero_fingerprint\<lparr>fp_RuntimeInputs := ''m'', fp_RuntimeDigest := ''d'', fp_ObservationAssertion := ''o''\<rparr>\<rparr>"

definition sample_served :: finding where
  "sample_served = zero_finding\<lparr>f_Symbol := ''p.F'', f_OperatorSet := ''go/13'', f_OracleTimeout := ''30s'',
     f_OracleExecutionPolicy := FullOracleExecutionPolicy, f_TargetEvidence := sample_row ''p.F'', f_OracleEvidence := [sample_row ''p.TestF'']\<rparr>"

definition sample_pins :: run_pins where
  "sample_pins = \<lparr>pn_oracleExplicit = False, pn_operatorSet = ''go/13'', pn_timeout = ''30s'', pn_timeoutDerived = False,
     pn_memoryPin = 0, pn_regime = []\<rparr>"

lemma sample_batch_law: "batch_law sample_fresh"
  by (auto simp: batch_law_def sample_fresh_def)

lemma sample_served_matches:
  "evidenceSetMatches sample_fresh (\<lambda>_. sample_reading) sample_pins sample_served sample_judged [sample_test] = Inr True"
  by code_simp

theorem serve_decision_judges_rows_witness:
  "row_stands sample_reading sample_fresh sample_judged (sample_row ''p.F'')"
  using serve_decision_judges_rows [OF sample_batch_law sample_served_matches] by (simp add: sample_served_def)

theorem served_record_rests_on_one_reading_witness:
  "\<exists>keys :: reading_key list. distinct keys \<and> set keys = {Reading ''m'' ''/r'' []}"
proof -
  have "pair_oracle (f_OracleEvidence sample_served) [sample_test] = Some [(sample_test, sample_row ''p.TestF'')]" by code_simp
  moreover have "set (pair_keys [(sample_judged, f_TargetEvidence sample_served), (sample_test, sample_row ''p.TestF'')]) = {Reading ''m'' ''/r'' []}"
    by code_simp
  ultimately show ?thesis using served_record_rests_on_one_reading [OF sample_served_matches] by auto
qed

end
