(* ===== verification/Inspection.thy ===== *)
theory Inspection
  imports Freshness
begin

text \<open>
  The inspection of recorded findings (\<open>freshness.go\<close>, \<open>inspection.go\<close>) and the posture a run reports of
  each record (\<open>run.go\<close>): one record's state against the current tree, the batched pass over a document,
  the walk both faces render, the posture and its roster.

  The loaded tree is the record \<open>tree_ops\<close>: its declared symbols, the oracle and shape derivations, the views the
  analysis library builds for a set of subjects, and the ledger of a view. Progress callbacks are left out.
\<close>

subsection \<open>States\<close>

datatype finding_state = FindingCurrent | FindingStale | FindingUnverifiable | FindingDetached | FindingRecorded

definition state_text :: "finding_state \<Rightarrow> string" where
  "state_text st = (case st of FindingCurrent \<Rightarrow> ''current'' | FindingStale \<Rightarrow> ''stale'' | FindingUnverifiable \<Rightarrow> ''unverifiable''
     | FindingDetached \<Rightarrow> ''detached'' | FindingRecorded \<Rightarrow> ''recorded'')"

definition ValidateFindingState :: "string \<Rightarrow> bool" where
  "ValidateFindingState state \<longleftrightarrow>
     state \<in> set ([] # map state_text [FindingCurrent, FindingStale, FindingUnverifiable, FindingDetached])"

text \<open>The channels a posture names; an inspection without one is the freshness judgment.\<close>

definition PostureFreshness :: string where "PostureFreshness = ''freshness''"
definition PostureCandidateEvidence :: string where "PostureCandidateEvidence = ''candidate evidence''"
definition PostureRuntimeInputs :: string where "PostureRuntimeInputs = ''runtime inputs''"
definition PostureStoredObservation :: string where "PostureStoredObservation = ''stored observation''"

record inspection =
  in_State :: finding_state
  in_Reason :: string
  in_Channel :: string
  in_CandidateEvidence :: "candidate_evidence list"

definition inspected :: "finding_state \<Rightarrow> string \<Rightarrow> inspection" where
  "inspected st reason = \<lparr>in_State = st, in_Reason = reason, in_Channel = [], in_CandidateEvidence = []\<rparr>"

definition runtime_refused :: "string \<Rightarrow> inspection" where
  "runtime_refused reason = (inspected FindingUnverifiable reason)\<lparr>in_Channel := PostureRuntimeInputs\<rparr>"

definition RecordedInspection :: "finding \<Rightarrow> inspection" where
  "RecordedInspection f = (inspected FindingRecorded [])\<lparr>in_CandidateEvidence := f_CandidateEvidence f\<rparr>"

definition candidateEvidenceReason :: "candidate_evidence list \<Rightarrow> string" where
  "candidateEvidenceReason evidence =
     nat_dec (length evidence) @ '' candidate(s) carry unverifiable runtime evidence and re-execute before reuse''"

definition withCandidateEvidence :: "inspection \<Rightarrow> finding \<Rightarrow> inspection" where
  "withCandidateEvidence insp f =
     (let evidence = canonicalCandidateEvidence (f_CandidateEvidence f); insp = insp\<lparr>in_CandidateEvidence := evidence\<rparr> in
      if in_State insp = FindingCurrent \<and> evidence \<noteq> []
      then insp\<lparr>in_State := FindingUnverifiable, in_Reason := candidateEvidenceReason evidence, in_Channel := PostureCandidateEvidence\<rparr>
      else insp)"

subsection \<open>One subject\<close>

definition movedInputSuffix :: "freshness_ops \<Rightarrow> reading_key \<Rightarrow> string" where
  "movedInputSuffix fo key =
     (case fo_moved fo key of
        None \<Rightarrow> []
      | Some moved \<Rightarrow>
          if moved = [] then []
          else if 3 < length moved then '': '' @ join '', '' (take 3 moved) @ '' and '' @ nat_dec (length moved - 3) @ '' more''
          else '': '' @ join '', '' moved)"

definition inspectContext :: "freshness_ops \<Rightarrow> (reading_key \<Rightarrow> reading) \<Rightarrow> judged_view \<Rightarrow> subject_evidence \<Rightarrow> string + inspection" where
  "inspectContext fo rd v ev =
     (if e_Symbol ev \<noteq> vw_symbol v then Inr (inspected FindingStale ''subject identity changed'')
      else if e_RuntimeUnverifiable ev then Inr (runtime_refused (e_RuntimeReason ev))
      else
        let r = rd (reading_of v ev) in
        case rd_error r of
          Some e \<Rightarrow> Inr (runtime_refused e)
        | None \<Rightarrow>
            if \<not> is_OK (rd_state r) then Inr (runtime_refused ''runtime inputs cannot be evaluated'')
            else if is_Unverifiable (rd_state r) then Inr (runtime_refused (is_Reason (rd_state r)))
            else if is_Digest (rd_state r) \<noteq> fp_RuntimeDigest (e_Fingerprint ev)
            then Inr (inspected FindingStale (''runtime inputs changed'' @ movedInputSuffix fo (reading_of v ev)))
            else if fp_PurityAssertion (e_Fingerprint ev) \<noteq> vw_purity v then Inr (inspected FindingStale ''purity assertion changed'')
            else case checkContext fo v (e_Fingerprint ev) of
                Inl e \<Rightarrow> Inl e
              | Inr vd \<Rightarrow>
                  Inr (case v_Status vd of
                      StatusValid \<Rightarrow> inspected FindingCurrent []
                    | StatusUnverifiable \<Rightarrow> inspected FindingUnverifiable (v_Reason vd)
                    | StatusStale \<Rightarrow> inspected FindingStale (v_Reason vd)))"

subsection \<open>Admission\<close>

definition OperatorSet :: string where "OperatorSet = ''go/13''"
definition shapedOperatorSet :: string where "shapedOperatorSet = ''shaped/1''"

record tree_ops =
  tr_selection :: string
  tr_declared :: "string list"
  tr_packageOf :: "string \<Rightarrow> string"
  tr_validOracle :: "string \<Rightarrow> bool"
  tr_derivedOracle :: "string \<Rightarrow> string + string list"
  tr_shapeDigest :: "string \<Rightarrow> target_shape \<Rightarrow> string + string"
  tr_badDuration :: "string \<Rightarrow> string option"
  tr_quote :: "string \<Rightarrow> string"
  tr_tolerantViews :: "bool \<Rightarrow> string list \<Rightarrow> string \<Rightarrow> judged_view option"
  tr_strictViews :: "bool \<Rightarrow> string list \<Rightarrow> string + (string \<Rightarrow> judged_view option)"
  tr_ledger :: "judged_view \<Rightarrow> compartment_ledger option"
  tr_changed :: "compartment_ledger \<Rightarrow> compartment_ledger \<Rightarrow> string list"

record admission =
  ad_decided :: "inspection option"
  ad_enrich :: "string list option"
  ad_target :: string
  ad_oracle :: "subject_evidence list"
  ad_valid :: "string list"
  ad_symbols :: "string list"
  ad_packageProcess :: bool

definition start_admission :: "tree_ops \<Rightarrow> finding \<Rightarrow> admission" where
  "start_admission tr f = \<lparr>ad_decided = None, ad_enrich = None, ad_target = [], ad_oracle = [], ad_valid = [], ad_symbols = [],
     ad_packageProcess = findingPackageProcessAttestable (tr_packageOf tr) f\<rparr>"

definition decided :: "admission \<Rightarrow> finding_state \<Rightarrow> string \<Rightarrow> string + admission" where
  "decided adm st reason = Inr (adm\<lparr>ad_decided := Some (inspected st reason)\<rparr>)"

definition admit_oracle :: "tree_ops \<Rightarrow> finding \<Rightarrow> admission \<Rightarrow> string + admission" where
  "admit_oracle tr f adm =
     (if OracleExecutionPolicyIssue f \<noteq> [] then decided adm FindingStale (OracleExecutionPolicyIssue f)
      else
        let rows = sortedSubjectEvidence (f_OracleEvidence f); valid = filter (tr_validOracle tr) (map e_Symbol rows) in
        Inr (adm\<lparr>ad_oracle := rows, ad_valid := valid, ad_symbols := ad_symbols adm @ valid\<rparr>))"

definition admit_shaped :: "tree_ops \<Rightarrow> finding \<Rightarrow> target_shape \<Rightarrow> admission \<Rightarrow> string + admission" where
  "admit_shaped tr f shape adm =
     (if f_OperatorSet f \<noteq> shapedOperatorSet then decided adm FindingStale ''shaped operator set changed''
      else case tr_badDuration tr (f_OracleTimeout f) of
          Some e \<Rightarrow> Inl (''finding '' @ f_Symbol f @ '' has invalid oracle timeout: '' @ e)
        | None \<Rightarrow>
       (case tr_shapeDigest tr (f_Symbol f) shape of
          Inl e \<Rightarrow> decided adm FindingStale (''shape no longer derives: '' @ e)
        | Inr digest \<Rightarrow>
            if digest \<noteq> f_BodyHash f then decided adm FindingStale ''the declared shape or a probed file moved''
            else admit_oracle tr f adm))"

definition admit_symbol :: "tree_ops \<Rightarrow> finding \<Rightarrow> admission \<Rightarrow> string + admission" where
  "admit_symbol tr f adm =
     (if f_Symbol f \<notin> set (tr_declared tr) then
        (if f_Selection f \<noteq> tr_selection tr
         then decided adm FindingStale (''recorded under build selection '' @ tr_quote tr (f_Selection f) @
           '' (current tree loaded under '' @ tr_quote tr (tr_selection tr) @ '')'')
         else decided adm FindingDetached
           ''mutated symbol no longer resolves - terminal: no re-measure can revive this record; prune removes it, retarget follows a rename'')
      else if f_OperatorSet f \<noteq> OperatorSet then decided adm FindingStale ''operator set changed''
      else case tr_badDuration tr (f_OracleTimeout f) of
          Some e \<Rightarrow> Inl (''finding '' @ f_Symbol f @ '' has invalid oracle timeout: '' @ e)
        | None \<Rightarrow>
            let adm = adm\<lparr>ad_target := f_Symbol f\<rparr> in
            if OracleExecutionPolicyIssue f \<noteq> [] then decided adm FindingStale (OracleExecutionPolicyIssue f)
            else if f_OracleExplicit f then admit_oracle tr f (adm\<lparr>ad_symbols := [f_Symbol f]\<rparr>)
            else case tr_derivedOracle tr (f_Symbol f) of
                Inl e \<Rightarrow> Inl e
              | Inr currentOracle \<Rightarrow>
                  let reason = derivedOracleDelta (sort (map e_Symbol (f_OracleEvidence f))) currentOracle in
                  if reason \<noteq> [] then
                    (if f_CompartmentLedger f \<noteq> None \<and> retainedOracleNames f currentOracle \<noteq> []
                     then decided (adm\<lparr>ad_enrich := Some currentOracle, ad_symbols := [f_Symbol f]\<rparr>) FindingStale reason
                     else decided adm FindingStale reason)
                  else admit_oracle tr f (adm\<lparr>ad_symbols := [f_Symbol f]\<rparr>))"

definition admitFinding :: "tree_ops \<Rightarrow> finding \<Rightarrow> string + admission" where
  "admitFinding tr f =
     (case f_Shape f of
        Some shape \<Rightarrow> admit_shaped tr f shape (start_admission tr f)
      | None \<Rightarrow> admit_symbol tr f (start_admission tr f))"

subsection \<open>Judgment\<close>

type_synonym view_set = "bool \<times> (string \<Rightarrow> judged_view option)"

definition served_view :: "view_set option \<Rightarrow> bool \<Rightarrow> string \<Rightarrow> judged_view option" where
  "served_view prebuilt packageProcess symbol =
     (case prebuilt of None \<Rightarrow> None | Some (mode, views) \<Rightarrow> if mode = packageProcess then views symbol else None)"

definition viewsFor :: "tree_ops \<Rightarrow> string list \<Rightarrow> view_set option \<Rightarrow> bool \<Rightarrow> string + (string \<Rightarrow> judged_view option)" where
  "viewsFor tr symbols prebuilt packageProcess =
     (let have = served_view prebuilt packageProcess; missing = filter (\<lambda>s. have s = None) symbols in
      if missing = [] then Inr have
      else case tr_strictViews tr packageProcess missing of
          Inl e \<Rightarrow> Inl e
        | Inr views \<Rightarrow> Inr (\<lambda>s. case have s of Some v \<Rightarrow> Some v | None \<Rightarrow> views s))"

definition modifiedOracleNames :: "tree_ops \<Rightarrow> finding \<Rightarrow> string list \<Rightarrow> view_set option \<Rightarrow> bool \<Rightarrow> string list" where
  "modifiedOracleNames tr f currentOracle prebuilt packageProcess =
     (case f_CompartmentLedger f of
        None \<Rightarrow> []
      | Some recorded \<Rightarrow>
          let byName = retainedOracleNames f currentOracle;
              target = (case served_view prebuilt packageProcess (f_Symbol f) of
                  Some v \<Rightarrow> Some v
                | None \<Rightarrow> (case tr_strictViews tr packageProcess [f_Symbol f] of Inl _ \<Rightarrow> None | Inr views \<Rightarrow> views (f_Symbol f))) in
          if byName = [] then []
          else case target of
              None \<Rightarrow> []
            | Some v \<Rightarrow>
                (case tr_ledger tr v of
                   None \<Rightarrow> []
                 | Some current \<Rightarrow> sort (remdups (List.map_filter (map_last byName) (tr_changed tr recorded current)))))"

definition prefixed :: "string \<Rightarrow> inspection \<Rightarrow> inspection" where
  "prefixed lead insp = insp\<lparr>in_Reason := lead @ in_Reason insp\<rparr>"

text \<open>A symbol without a view cannot occur: the strict build serves every subject it was asked for or fails.\<close>

definition inspect_view :: "freshness_ops \<Rightarrow> (reading_key \<Rightarrow> reading) \<Rightarrow> judged_view option \<Rightarrow> subject_evidence \<Rightarrow> string + inspection" where
  "inspect_view fo rd v ev = (case v of None \<Rightarrow> Inl ''no view'' | Some v \<Rightarrow> inspectContext fo rd v ev)"

fun judge_oracle :: "freshness_ops \<Rightarrow> (reading_key \<Rightarrow> reading) \<Rightarrow> (string \<Rightarrow> judged_view option) \<Rightarrow> string list \<Rightarrow> string \<Rightarrow>
    subject_evidence list \<Rightarrow> string + inspection" where
  "judge_oracle fo rd viewFor valid fault [] =
     Inr (if fault \<noteq> [] then runtime_refused fault else inspected FindingCurrent [])"
| "judge_oracle fo rd viewFor valid fault (ev # evs) =
     (if e_Symbol ev \<notin> set valid then Inr (inspected FindingStale (''oracle '' @ e_Symbol ev @ '' no longer resolves''))
      else case inspect_view fo rd (viewFor (e_Symbol ev)) ev of
          Inl e \<Rightarrow> Inl e
        | Inr insp \<Rightarrow>
            if in_State insp \<noteq> FindingCurrent then Inr (prefixed (''oracle '' @ e_Symbol ev @ '': '') insp)
            else judge_oracle fo rd viewFor valid fault evs)"

definition enriched :: "string list \<Rightarrow> inspection \<Rightarrow> inspection" where
  "enriched modified insp =
     (if modified = [] then insp
      else insp\<lparr>in_Reason := trim_suffix (in_Reason insp) '')'' @ ''; modified: '' @ cappedNameList modified ''tests'' @ '')''\<rparr>)"

definition judgeAdmitted :: "tree_ops \<Rightarrow> freshness_ops \<Rightarrow> (reading_key \<Rightarrow> reading) \<Rightarrow> finding \<Rightarrow> admission \<Rightarrow> view_set option \<Rightarrow>
    string + inspection" where
  "judgeAdmitted tr fo rd f adm prebuilt =
     (case ad_decided adm of
        Some insp \<Rightarrow>
          (case ad_enrich adm of
             None \<Rightarrow> Inr insp
           | Some currentOracle \<Rightarrow> Inr (enriched (modifiedOracleNames tr f currentOracle prebuilt (ad_packageProcess adm)) insp))
      | None \<Rightarrow>
     (case viewsFor tr (ad_symbols adm) prebuilt (ad_packageProcess adm) of
        Inl e \<Rightarrow> Inl e
      | Inr viewFor \<Rightarrow>
          if ad_target adm = [] then judge_oracle fo rd viewFor (ad_valid adm) (f_EvidenceFault f) (ad_oracle adm)
          else case inspect_view fo rd (viewFor (ad_target adm)) (f_TargetEvidence f) of
              Inl e \<Rightarrow> Inl e
            | Inr insp \<Rightarrow>
                if in_State insp \<noteq> FindingCurrent
                then Inr (if in_Reason insp \<noteq> [] then prefixed ''target: '' insp else insp)
                else judge_oracle fo rd viewFor (ad_valid adm) (f_EvidenceFault f) (ad_oracle adm)))"

definition inspectFindingState :: "tree_ops \<Rightarrow> freshness_ops \<Rightarrow> (reading_key \<Rightarrow> reading) \<Rightarrow> finding \<Rightarrow> view_set option \<Rightarrow> string + inspection" where
  "inspectFindingState tr fo rd f prebuilt =
     (case admitFinding tr f of Inl e \<Rightarrow> Inl e | Inr adm \<Rightarrow> judgeAdmitted tr fo rd f adm prebuilt)"

subsection \<open>A pass over records\<close>

definition pass_symbols :: "bool \<Rightarrow> (string + admission) list \<Rightarrow> string list" where
  "pass_symbols mode admissions =
     sort (remdups (concat (map (\<lambda>a. case a of Inl _ \<Rightarrow> [] | Inr adm \<Rightarrow> if ad_packageProcess adm = mode then ad_symbols adm else []) admissions)))"

definition pass_views :: "tree_ops \<Rightarrow> (string + admission) list \<Rightarrow> bool \<Rightarrow> view_set option" where
  "pass_views tr admissions mode =
     (let symbols = pass_symbols mode admissions in
      if symbols = [] then None else Some (mode, tr_tolerantViews tr mode symbols))"

definition judge_record :: "tree_ops \<Rightarrow> freshness_ops \<Rightarrow> (reading_key \<Rightarrow> reading) \<Rightarrow> (bool \<Rightarrow> view_set option) \<Rightarrow> finding \<Rightarrow> string + admission \<Rightarrow>
    string + inspection" where
  "judge_record tr fo rd prebuilt f a =
     (case a of
        Inl e \<Rightarrow> Inl e
      | Inr adm \<Rightarrow>
          (case judgeAdmitted tr fo rd f adm (prebuilt (ad_packageProcess adm)) of
             Inl e \<Rightarrow> Inl e
           | Inr insp \<Rightarrow> Inr (withCandidateEvidence insp f)))"

definition inspect_all :: "tree_ops \<Rightarrow> freshness_ops \<Rightarrow> (reading_key \<Rightarrow> reading) \<Rightarrow> finding list \<Rightarrow> (string + inspection) list" where
  "inspect_all tr fo rd findings =
     (let admissions = map (admitFinding tr) findings in
      map (\<lambda>(f, a). judge_record tr fo rd (pass_views tr admissions) f a) (zip findings admissions))"

fun all_ok :: "(string + 'a) list \<Rightarrow> string + 'a list" where
  "all_ok [] = Inr []"
| "all_ok (Inl e # xs) = Inl e"
| "all_ok (Inr x # xs) = (case all_ok xs of Inl e \<Rightarrow> Inl e | Inr ys \<Rightarrow> Inr (x # ys))"

definition InspectFindings :: "tree_ops \<Rightarrow> freshness_ops \<Rightarrow> (reading_key \<Rightarrow> reading) \<Rightarrow> finding list \<Rightarrow> string + inspection list" where
  "InspectFindings tr fo rd findings =
     (case all_ok (map (admitFinding tr) findings) of
        Inl e \<Rightarrow> Inl e
      | Inr _ \<Rightarrow> all_ok (inspect_all tr fo rd findings))"

definition InspectFinding :: "tree_ops \<Rightarrow> freshness_ops \<Rightarrow> (reading_key \<Rightarrow> reading) \<Rightarrow> finding \<Rightarrow> string + inspection" where
  "InspectFinding tr fo rd f = (case InspectFindings tr fo rd [f] of Inl e \<Rightarrow> Inl e | Inr xs \<Rightarrow> Inr (xs ! 0))"

subsection \<open>What a current record is\<close>

definition row_current :: "(reading_key \<Rightarrow> reading) \<Rightarrow> freshness_ops \<Rightarrow> judged_view \<Rightarrow> subject_evidence \<Rightarrow> bool" where
  "row_current rd fo v ev \<longleftrightarrow>
     e_Symbol ev = vw_symbol v \<and> \<not> e_RuntimeUnverifiable ev \<and>
     rd_error (rd (reading_of v ev)) = None \<and> is_OK (rd_state (rd (reading_of v ev))) \<and> \<not> is_Unverifiable (rd_state (rd (reading_of v ev))) \<and>
     is_Digest (rd_state (rd (reading_of v ev))) = fp_RuntimeDigest (e_Fingerprint ev) \<and>
     fp_PurityAssertion (e_Fingerprint ev) = vw_purity v \<and> row_valid fo v ev"

lemma inspect_current:
  "inspectContext fo rd v ev = Inr insp \<Longrightarrow> in_State insp = FindingCurrent \<longleftrightarrow> row_current rd fo v ev"
  by (auto simp: inspectContext_def row_current_def row_valid_def acceptValidVerdict_def inspected_def runtime_refused_def Let_def
      split: if_splits option.splits sum.splits verdict_status.splits)

lemma current_inspects: "row_current rd fo v ev \<Longrightarrow> inspectContext fo rd v ev = Inr (inspected FindingCurrent [])"
  by (auto simp: inspectContext_def row_current_def row_valid_def acceptValidVerdict_def Let_def split: sum.splits verdict_status.splits)

lemma stands_current: "row_stands rd fo v ev \<Longrightarrow> row_current rd fo v ev"
  by (auto simp: row_stands_def row_current_def reading_stands_def row_identified_def)

lemma judge_oracle_current:
  assumes "judge_oracle fo rd g valid fault rows = Inr insp" "in_State insp = FindingCurrent"
  shows "fault = [] \<and> (\<forall>ev \<in> set rows. e_Symbol ev \<in> set valid \<and> (\<exists>v. g (e_Symbol ev) = Some v \<and> row_current rd fo v ev))"
  using assms
proof (induction rows)
  case Nil
  then show ?case by (auto simp: runtime_refused_def inspected_def split: if_splits)
next
  case (Cons ev rows)
  obtain i where i: "e_Symbol ev \<in> set valid" "inspect_view fo rd (g (e_Symbol ev)) ev = Inr i"
    using Cons.prems by (auto simp: inspected_def split: if_splits sum.splits)
  have st: "in_State i = FindingCurrent" using Cons.prems i by (auto simp: prefixed_def split: if_splits)
  then have "judge_oracle fo rd g valid fault rows = Inr insp" using Cons.prems i by simp
  moreover obtain v where "g (e_Symbol ev) = Some v" "inspectContext fo rd v ev = Inr i"
    using i(2) by (auto simp: inspect_view_def split: option.splits)
  ultimately show ?case using Cons.IH Cons.prems(2) i(1) inspect_current st by auto
qed

lemma judge_oracle_accepts:
  assumes "\<And>ev. ev \<in> set rows \<Longrightarrow> e_Symbol ev \<in> set valid \<and> (\<exists>v. g (e_Symbol ev) = Some v \<and> row_current rd fo v ev)"
  shows "judge_oracle fo rd g valid [] rows = Inr (inspected FindingCurrent [])"
  using assms
proof (induction rows)
  case (Cons ev rows)
  obtain v where v: "e_Symbol ev \<in> set valid" "g (e_Symbol ev) = Some v" "row_current rd fo v ev" using Cons.prems [of ev] by auto
  have "judge_oracle fo rd g valid [] rows = Inr (inspected FindingCurrent [])" by (rule Cons.IH) (use Cons.prems in auto)
  then show ?case using v current_inspects [OF v(3)] by (simp add: inspect_view_def inspected_def)
qed simp

lemma sort_key_Nil [simp]: "sort_key g xs = [] \<longleftrightarrow> xs = []"
  by (metis length_0_conv length_sort)

lemma undecided_current:
  assumes "judgeAdmitted tr fo rd f adm prebuilt = Inr insp" "in_State insp = FindingCurrent" "admitFinding tr f = Inr adm"
  shows "ad_decided adm = None"
proof (cases "ad_decided adm")
  case (Some i)
  then have "in_State i \<noteq> FindingCurrent"
    using assms(3) by (auto simp: admitFinding_def admit_shaped_def admit_symbol_def admit_oracle_def decided_def start_admission_def
        inspected_def Let_def split: option.splits if_splits sum.splits)
  then have False using assms(1,2) Some by (auto simp: judgeAdmitted_def enriched_def split: option.splits if_splits)
  then show ?thesis ..
qed simp

lemma admitted_undecided:
  assumes "admitFinding tr f = Inr adm" "ad_decided adm = None"
  shows "OracleExecutionPolicyIssue f = []" "ad_oracle adm = sortedSubjectEvidence (f_OracleEvidence f)"
    "set (ad_valid adm) = {s \<in> e_Symbol ` set (f_OracleEvidence f). tr_validOracle tr s}"
    "f_Shape f = None \<Longrightarrow> f_Symbol f \<in> set (tr_declared tr) \<and> f_OperatorSet f = OperatorSet \<and> ad_target adm = f_Symbol f \<and>
       (f_OracleExplicit f \<or> (\<exists>current. tr_derivedOracle tr (f_Symbol f) = Inr current \<and>
         derivedOracleDelta (sort (map e_Symbol (f_OracleEvidence f))) current = []))"
    "f_Shape f = Some shape \<Longrightarrow> f_OperatorSet f = shapedOperatorSet \<and> ad_target adm = [] \<and> tr_shapeDigest tr (f_Symbol f) shape = Inr (f_BodyHash f)"
proof -
  have last_step: "OracleExecutionPolicyIssue f = [] \<and> ad_oracle adm = sortedSubjectEvidence (f_OracleEvidence f) \<and>
      set (ad_valid adm) = {s \<in> e_Symbol ` set (f_OracleEvidence f). tr_validOracle tr s} \<and> ad_target adm = ad_target a"
    if "admit_oracle tr f a = Inr adm" for a
    using that assms(2) by (auto simp: admit_oracle_def decided_def Let_def sortedSubjectEvidence_def split: if_splits)
  have ends: "\<exists>a. admit_oracle tr f a = Inr adm \<and>
      (case f_Shape f of
         None \<Rightarrow> f_Symbol f \<in> set (tr_declared tr) \<and> f_OperatorSet f = OperatorSet \<and> ad_target a = f_Symbol f \<and>
           (f_OracleExplicit f \<or> (\<exists>current. tr_derivedOracle tr (f_Symbol f) = Inr current \<and>
             derivedOracleDelta (sort (map e_Symbol (f_OracleEvidence f))) current = []))
       | Some shape \<Rightarrow> f_OperatorSet f = shapedOperatorSet \<and> ad_target a = [] \<and> tr_shapeDigest tr (f_Symbol f) shape = Inr (f_BodyHash f))"
  proof (cases "f_Shape f")
    case None
    then show ?thesis
      using assms unfolding admitFinding_def admit_symbol_def decided_def
      by (auto simp: Let_def split: if_splits option.splits sum.splits)
  next
    case (Some shape)
    have "ad_target (start_admission tr f) = []" by (simp add: start_admission_def)
    then show ?thesis
      using assms Some unfolding admitFinding_def admit_shaped_def decided_def
      by (auto split: if_splits option.splits sum.splits)
  qed
  then obtain a where a: "admit_oracle tr f a = Inr adm" and shape: "case f_Shape f of
         None \<Rightarrow> f_Symbol f \<in> set (tr_declared tr) \<and> f_OperatorSet f = OperatorSet \<and> ad_target a = f_Symbol f \<and>
           (f_OracleExplicit f \<or> (\<exists>current. tr_derivedOracle tr (f_Symbol f) = Inr current \<and>
             derivedOracleDelta (sort (map e_Symbol (f_OracleEvidence f))) current = []))
       | Some shape \<Rightarrow> f_OperatorSet f = shapedOperatorSet \<and> ad_target a = [] \<and> tr_shapeDigest tr (f_Symbol f) shape = Inr (f_BodyHash f)" by blast
  note last_step [OF a]
  then show "OracleExecutionPolicyIssue f = []" "ad_oracle adm = sortedSubjectEvidence (f_OracleEvidence f)"
    "set (ad_valid adm) = {s \<in> e_Symbol ` set (f_OracleEvidence f). tr_validOracle tr s}"
    "f_Shape f = None \<Longrightarrow> f_Symbol f \<in> set (tr_declared tr) \<and> f_OperatorSet f = OperatorSet \<and> ad_target adm = f_Symbol f \<and>
       (f_OracleExplicit f \<or> (\<exists>current. tr_derivedOracle tr (f_Symbol f) = Inr current \<and>
         derivedOracleDelta (sort (map e_Symbol (f_OracleEvidence f))) current = []))"
    "f_Shape f = Some shape \<Longrightarrow> f_OperatorSet f = shapedOperatorSet \<and> ad_target adm = [] \<and> tr_shapeDigest tr (f_Symbol f) shape = Inr (f_BodyHash f)"
    using shape by auto
qed

text \<open>C20: A record inspected as current is still vouched for, all of it: its symbol is declared and measured under
  today's operators (or its shape derives the same digest), its oracle is exactly the derived one unless explicit,
  the target's row and every oracle row stand against their views, every oracle test resolves, no
  evidence fault is recorded and no candidate awaits re-execution.\<close>

theorem current_inspection_is_vouched:
  assumes insp: "inspectFindingState tr fo rd f prebuilt = Inr insp" and current: "in_State (withCandidateEvidence insp f) = FindingCurrent"
  shows "f_CandidateEvidence f = [] \<and> f_EvidenceFault f = [] \<and> OracleExecutionPolicyIssue f = [] \<and>
    (\<exists>adm views. admitFinding tr f = Inr adm \<and> viewsFor tr (ad_symbols adm) prebuilt (ad_packageProcess adm) = Inr views \<and>
      (\<forall>ev \<in> set (f_OracleEvidence f). tr_validOracle tr (e_Symbol ev) \<and> (\<exists>v. views (e_Symbol ev) = Some v \<and> row_current rd fo v ev)) \<and>
      (case f_Shape f of
         Some shape \<Rightarrow> f_OperatorSet f = shapedOperatorSet \<and> tr_shapeDigest tr (f_Symbol f) shape = Inr (f_BodyHash f)
       | None \<Rightarrow> f_Symbol f \<in> set (tr_declared tr) \<and> f_OperatorSet f = OperatorSet \<and>
           (f_OracleExplicit f \<or> (\<exists>current. tr_derivedOracle tr (f_Symbol f) = Inr current \<and>
             set current = e_Symbol ` set (f_OracleEvidence f) \<and> length current = length (f_OracleEvidence f))) \<and>
           (f_Symbol f \<noteq> [] \<longrightarrow> (\<exists>v. views (f_Symbol f) = Some v \<and> row_current rd fo v (f_TargetEvidence f)))))"
proof -
  have evidence: "f_CandidateEvidence f = []" "in_State insp = FindingCurrent"
    using current by (auto simp: withCandidateEvidence_def canonicalCandidateEvidence_def Let_def split: if_splits)
  obtain adm where adm: "admitFinding tr f = Inr adm" and judged: "judgeAdmitted tr fo rd f adm prebuilt = Inr insp"
    using insp by (auto simp: inspectFindingState_def split: sum.splits)
  note open' = undecided_current [OF judged evidence(2) adm]
  note parts = admitted_undecided [OF adm open']
  obtain views where views: "viewsFor tr (ad_symbols adm) prebuilt (ad_packageProcess adm) = Inr views"
    using judged open' by (auto simp: judgeAdmitted_def split: sum.splits)
  have tests: "judge_oracle fo rd views (ad_valid adm) (f_EvidenceFault f) (ad_oracle adm) = Inr insp"
    and target: "ad_target adm \<noteq> [] \<longrightarrow> (\<exists>i. inspect_view fo rd (views (ad_target adm)) (f_TargetEvidence f) = Inr i \<and> in_State i = FindingCurrent)"
    using judged open' views evidence(2) by (auto simp: judgeAdmitted_def prefixed_def split: if_splits sum.splits)
  note rows = judge_oracle_current [OF tests evidence(2)]
  have row: "tr_validOracle tr (e_Symbol ev) \<and> (\<exists>v. views (e_Symbol ev) = Some v \<and> row_current rd fo v ev)" if "ev \<in> set (f_OracleEvidence f)" for ev
    using that rows parts(3) by (auto simp: parts(2) sortedSubjectEvidence_def)
  have target_row: "\<exists>v. views (ad_target adm) = Some v \<and> row_current rd fo v (f_TargetEvidence f)" if "ad_target adm \<noteq> []"
    using target that inspect_current by (fastforce simp: inspect_view_def split: option.splits)
  have "case f_Shape f of
         Some shape \<Rightarrow> f_OperatorSet f = shapedOperatorSet \<and> tr_shapeDigest tr (f_Symbol f) shape = Inr (f_BodyHash f)
       | None \<Rightarrow> f_Symbol f \<in> set (tr_declared tr) \<and> f_OperatorSet f = OperatorSet \<and>
           (f_OracleExplicit f \<or> (\<exists>current. tr_derivedOracle tr (f_Symbol f) = Inr current \<and>
             set current = e_Symbol ` set (f_OracleEvidence f) \<and> length current = length (f_OracleEvidence f))) \<and>
           (f_Symbol f \<noteq> [] \<longrightarrow> (\<exists>v. views (f_Symbol f) = Some v \<and> row_current rd fo v (f_TargetEvidence f)))"
  proof (cases "f_Shape f")
    case None
    then show ?thesis using parts(4) target_row by (auto simp: derived_delta_Nil)
  next
    case (Some shape)
    then show ?thesis using parts(5) by auto
  qed
  then show ?thesis using evidence(1) rows parts(1) adm views row by blast
qed

text \<open>A record of a declared symbol, measured under today's operators with the oracle the tree derives, is left undecided
  by the admission, which names the target and the whole oracle for the judgment.\<close>

lemma admission_admits:
  assumes rec: "f_Shape f = None" "f_Symbol f \<in> set (tr_declared tr)" "f_OperatorSet f = OperatorSet" "tr_badDuration tr (f_OracleTimeout f) = None"
      "OracleExecutionPolicyIssue f = []"
    and tests: "\<forall>ev \<in> set (f_OracleEvidence f). tr_validOracle tr (e_Symbol ev)"
    and derived: "\<not> f_OracleExplicit f \<Longrightarrow> \<exists>current. tr_derivedOracle tr (f_Symbol f) = Inr current \<and>
      set current = e_Symbol ` set (f_OracleEvidence f) \<and> length current = length (f_OracleEvidence f)"
  shows "\<exists>adm. admitFinding tr f = Inr adm \<and> ad_decided adm = None \<and> ad_target adm = f_Symbol f \<and>
    ad_packageProcess adm = findingPackageProcessAttestable (tr_packageOf tr) f \<and>
    set (ad_symbols adm) = insert (f_Symbol f) (e_Symbol ` set (f_OracleEvidence f)) \<and>
    ad_oracle adm = sortedSubjectEvidence (f_OracleEvidence f) \<and> set (ad_valid adm) = e_Symbol ` set (f_OracleEvidence f)"
proof -
  define start where "start = (start_admission tr f)\<lparr>ad_target := f_Symbol f, ad_symbols := [f_Symbol f]\<rparr>"
  have no_delta: "derivedOracleDelta (sort (map e_Symbol (f_OracleEvidence f))) current = []"
    if "set current = e_Symbol ` set (f_OracleEvidence f)" "length current = length (f_OracleEvidence f)" for current
    using that by (simp add: derived_delta_Nil)
  have "admitFinding tr f = admit_oracle tr f start"
    using rec derived no_delta
    by (cases "f_OracleExplicit f") (auto simp: admitFinding_def admit_symbol_def start_def Let_def)
  moreover have "filter (tr_validOracle tr) (map e_Symbol (sortedSubjectEvidence (f_OracleEvidence f))) =
      map e_Symbol (sortedSubjectEvidence (f_OracleEvidence f))"
    using tests by (auto simp: filter_id_conv sortedSubjectEvidence_def)
  moreover have "set (map e_Symbol (sortedSubjectEvidence (f_OracleEvidence f))) = e_Symbol ` set (f_OracleEvidence f)"
    by (simp add: sortedSubjectEvidence_def)
  ultimately show ?thesis
    using rec(5) by (simp add: admit_oracle_def Let_def start_def start_admission_def)
qed

lemma viewsFor_served:
  assumes "\<And>s. s \<in> set symbols \<Longrightarrow> served_view prebuilt mode s \<noteq> None"
  shows "viewsFor tr symbols prebuilt mode = Inr (served_view prebuilt mode)"
  using assms by (auto simp: viewsFor_def Let_def filter_empty_conv)

text \<open>The rows of a served record, by name: one row per test of the run's oracle, each current against that test's view.\<close>

lemma served_rows_current:
  assumes law: "batch_law fo" and served: "evidenceSetMatches fo (\<lambda>_. rd) pn prior target oracle = Inr True"
    and tests: "distinct (map vw_symbol oracle)"
  shows "e_Symbol ` set (f_OracleEvidence prior) = vw_symbol ` set oracle"
    and "\<And>ev. ev \<in> set (f_OracleEvidence prior) \<Longrightarrow> \<exists>v \<in> set oracle. vw_symbol v = e_Symbol ev \<and> row_current rd fo v ev"
proof -
  have decision: "pins_hold pn prior oracle" "\<forall>v \<in> set oracle. \<exists>ev \<in> set (f_OracleEvidence prior). row_stands rd fo v ev"
    using serve_rows [OF law served] by blast+
  have pins: "length (f_OracleEvidence prior) = length oracle" "distinct (map e_Symbol (f_OracleEvidence prior))"
    using decision(1) by (simp_all add: pins_hold_def)
  have sub: "set (map vw_symbol oracle) \<subseteq> set (map e_Symbol (f_OracleEvidence prior))"
    using decision(2) by (force simp: row_stands_def row_identified_def)
  then have names: "set (map vw_symbol oracle) = set (map e_Symbol (f_OracleEvidence prior))"
    using pins tests by (metis List.finite_set card_subset_eq distinct_card length_map)
  then show "e_Symbol ` set (f_OracleEvidence prior) = vw_symbol ` set oracle" by simp
  show "\<exists>v \<in> set oracle. vw_symbol v = e_Symbol ev \<and> row_current rd fo v ev" if ev: "ev \<in> set (f_OracleEvidence prior)" for ev
  proof -
    have "e_Symbol ev \<in> set (map vw_symbol oracle)" using names ev by simp
    then obtain v where v: "v \<in> set oracle" "vw_symbol v = e_Symbol ev" by auto
    then obtain ev' where ev': "ev' \<in> set (f_OracleEvidence prior)" "row_stands rd fo v ev'" using decision(2) by blast
    moreover have "inj_on e_Symbol (set (f_OracleEvidence prior))" using pins(2) by (simp add: distinct_map)
    moreover have "e_Symbol ev' = e_Symbol ev" using ev'(2) v(2) by (simp add: row_stands_def row_identified_def)
    ultimately have "ev' = ev" using ev by (meson inj_onD)
    then show ?thesis using ev'(2) v stands_current by blast
  qed
qed

text \<open>C19: The serve decision and the inspection agree. A record the run would serve whole - its symbol declared, judged under
  the run's operator set, with the valid tests the run resolved for its oracle (the derived ones unless it is explicit) and
  the same views - is admitted by the inspection and inspects as current while its inputs stay as they are; with
  candidates that await re-execution it inspects as unverifiable, on their channel.\<close>

theorem served_record_inspects_current:
  assumes law: "batch_law fo" and served: "evidenceSetMatches fo (\<lambda>_. rd) pn prior target oracle = Inr True"
    and run: "pn_operatorSet pn = OperatorSet" "f_Symbol prior \<in> set (tr_declared tr)" "f_Shape prior = None" "f_Symbol prior \<noteq> []"
      "tr_badDuration tr (f_OracleTimeout prior) = None"
    and tests: "distinct (map vw_symbol oracle)" "\<forall>v \<in> set oracle. tr_validOracle tr (vw_symbol v)"
      "\<not> f_OracleExplicit prior \<Longrightarrow> tr_derivedOracle tr (f_Symbol prior) = Inr (map vw_symbol oracle)"
    and views: "served_view (prebuilt mode) mode (f_Symbol prior) = Some target"
      "\<forall>v \<in> set oracle. served_view (prebuilt mode) mode (vw_symbol v) = Some v"
    and mode: "mode = findingPackageProcessAttestable (tr_packageOf tr) prior"
  shows "\<exists>insp. judge_record tr fo rd prebuilt prior (admitFinding tr prior) = Inr insp \<and>
    in_State insp = (if f_CandidateEvidence prior = [] then FindingCurrent else FindingUnverifiable) \<and>
    in_Channel insp = (if f_CandidateEvidence prior = [] then [] else PostureCandidateEvidence)"
proof -
  have decision: "pins_hold pn prior oracle" "row_stands rd fo target (f_TargetEvidence prior)"
    using serve_rows [OF law served] by blast+
  have pins: "length (f_OracleEvidence prior) = length oracle" "f_EvidenceFault prior = []" "OracleExecutionPolicyIssue prior = []"
    "f_OperatorSet prior = OperatorSet"
    using decision(1) run(1) by (simp_all add: pins_hold_def)
  note rows = served_rows_current [OF law served tests(1)]
  have valid: "\<forall>ev \<in> set (f_OracleEvidence prior). tr_validOracle tr (e_Symbol ev)" using rows(2) tests(2) by metis
  have derived: "\<exists>current. tr_derivedOracle tr (f_Symbol prior) = Inr current \<and>
      set current = e_Symbol ` set (f_OracleEvidence prior) \<and> length current = length (f_OracleEvidence prior)" if "\<not> f_OracleExplicit prior"
    using tests(3) [OF that] rows(1) pins(1) by simp
  obtain adm where adm: "admitFinding tr prior = Inr adm" "ad_decided adm = None" "ad_target adm = f_Symbol prior" "ad_packageProcess adm = mode"
      "set (ad_symbols adm) = insert (f_Symbol prior) (e_Symbol ` set (f_OracleEvidence prior))"
      "ad_oracle adm = sortedSubjectEvidence (f_OracleEvidence prior)" "set (ad_valid adm) = e_Symbol ` set (f_OracleEvidence prior)"
    using admission_admits [OF run(3,2) pins(4) run(5) pins(3) valid derived] mode by blast
  have "served_view (prebuilt mode) mode s \<noteq> None" if "s \<in> set (ad_symbols adm)" for s
    using that views rows(1) by (auto simp: adm(5))
  then have have_views: "viewsFor tr (ad_symbols adm) (prebuilt mode) mode = Inr (served_view (prebuilt mode) mode)" by (rule viewsFor_served)
  have row: "e_Symbol ev \<in> set (ad_valid adm) \<and> (\<exists>v. served_view (prebuilt mode) mode (e_Symbol ev) = Some v \<and> row_current rd fo v ev)"
    if "ev \<in> set (ad_oracle adm)" for ev
  proof -
    have "ev \<in> set (f_OracleEvidence prior)" using that by (simp add: adm(6) sortedSubjectEvidence_def)
    then show ?thesis using rows(2) [of ev] views(2) by (auto simp: adm(7))
  qed
  have "judge_oracle fo rd (served_view (prebuilt mode) mode) (ad_valid adm) [] (ad_oracle adm) = Inr (inspected FindingCurrent [])"
    by (rule judge_oracle_accepts [OF row])
  moreover have "inspect_view fo rd (served_view (prebuilt mode) mode (f_Symbol prior)) (f_TargetEvidence prior) = Inr (inspected FindingCurrent [])"
    using current_inspects [OF stands_current [OF decision(2)]] views(1) by (simp add: inspect_view_def)
  ultimately have "judgeAdmitted tr fo rd prior adm (prebuilt mode) = Inr (inspected FindingCurrent [])"
    using have_views run(4) by (simp add: judgeAdmitted_def adm(2,3,4) pins(2) inspected_def)
  then show ?thesis
    by (simp add: judge_record_def adm(1,4) withCandidateEvidence_def canonicalCandidateEvidence_def inspected_def Let_def)
qed

subsection \<open>Examples\<close>

definition sample_tree :: tree_ops where
  "sample_tree = \<lparr>tr_selection = [], tr_declared = [''p.F''], tr_packageOf = symbolPackage, tr_validOracle = (\<lambda>_. True),
     tr_derivedOracle = (\<lambda>_. Inr [''p.TestF'']), tr_shapeDigest = (\<lambda>_ _. Inl ''no shape''), tr_badDuration = (\<lambda>_. None), tr_quote = id,
     tr_tolerantViews = (\<lambda>mode symbols s. if s \<in> set symbols then (if s = ''p.F'' then Some sample_judged else if s = ''p.TestF'' then Some sample_test else None) else None),
     tr_strictViews = (\<lambda>_ _. Inl ''unbuilt''), tr_ledger = (\<lambda>_. None), tr_changed = (\<lambda>_ _. [])\<rparr>"

definition sample_prebuilt :: "view_set option" where
  "sample_prebuilt = Some (True, tr_tolerantViews sample_tree True [''p.F'', ''p.TestF''])"

lemma sample_inspects: "InspectFindings sample_tree sample_fresh sample_reading [sample_served] = Inr [inspected FindingCurrent []]"
  by code_simp

lemma sample_state: "inspectFindingState sample_tree sample_fresh sample_reading sample_served sample_prebuilt = Inr (inspected FindingCurrent [])"
  "in_State (withCandidateEvidence (inspected FindingCurrent []) sample_served) = FindingCurrent"
  by code_simp+

theorem current_inspection_is_vouched_witness:
  "f_EvidenceFault sample_served = [] \<and> f_CandidateEvidence sample_served = []"
  using current_inspection_is_vouched [OF sample_state] by blast

theorem served_record_inspects_current_witness:
  "\<exists>insp. judge_record sample_tree sample_fresh sample_reading (\<lambda>_. sample_prebuilt) sample_served (admitFinding sample_tree sample_served) = Inr insp \<and>
     in_State insp = FindingCurrent"
proof -
  have rec: "f_Shape sample_served = None" "f_Symbol sample_served = ''p.F''" "vw_symbol sample_test = ''p.TestF''"
      "f_CandidateEvidence sample_served = []" "pn_operatorSet sample_pins = OperatorSet"
    by (simp_all add: sample_served_def zero_finding_def sample_test_def sample_pins_def OperatorSet_def)
  have mode: "findingPackageProcessAttestable (tr_packageOf sample_tree) sample_served" by code_simp
  show ?thesis
    using served_record_inspects_current [OF sample_batch_law sample_served_matches, of sample_tree "\<lambda>_. sample_prebuilt" True] mode
    by (auto simp: rec sample_tree_def sample_prebuilt_def served_view_def)
qed

end
