(* ===== verification/Measure.thy ===== *)
theory Measure
  imports Window Buckets Reconcile Provenance Freshness Verdicts
begin

text \<open>
  The aggregation of an executed window (\<open>aggregateWindow\<close> in \<open>run.go\<close>): each measured work item is assembled into a record - a
  served record spliced with its re-executed candidates, a capped record extended, or a fresh one - validated
  against the tree, stamped with its provenance, given its buckets, exemptions and prior dispositions, and committed; or its target is
  refused, leaving the prior record; or the campaign aborts.

  The state is what a run has so far: its findings, which targets are committed, refused and done, what the caller's commit accepted and
  what the callbacks heard. The views' validation is a list of verdicts, one per module. The bank deposits of a committed record,
  the guidance's contents and cancellation are left out. Where the code refuses a fresh target it leaves the partly filled
  entry among the run's findings, which the run then drops; the model leaves the skeleton there.
\<close>

subsection \<open>Producer validation\<close>

datatype module_check = Holds | AnalysisUnavailable string | Moved string

text \<open>The first moved module refuses, an unavailable analysis is held until every module answered.\<close>

fun validate_modules :: "(bool \<times> module_check) list \<Rightarrow> module_check \<Rightarrow> module_check" where
  "validate_modules [] held_verdict = held_verdict"
| "validate_modules ((producer, check) # modules) held_verdict =
     (if \<not> producer then validate_modules modules held_verdict
      else case check of
          Holds \<Rightarrow> validate_modules modules held_verdict
        | AnalysisUnavailable e \<Rightarrow> validate_modules modules (if held_verdict = Holds then check else held_verdict)
        | Moved e \<Rightarrow> Moved e)"

definition validateProducers :: "(bool \<times> module_check) list \<Rightarrow> module_check" where
  "validateProducers modules = validate_modules modules Holds"

text \<open>\<open>Inl\<close> refuses the target; \<open>Inr\<close> is the reason the proof is unavailable, or empty.\<close>

definition producerValidation :: "(bool \<times> module_check) list \<Rightarrow> string + string" where
  "producerValidation modules = (case validateProducers modules of Holds \<Rightarrow> Inr [] | AnalysisUnavailable e \<Rightarrow> Inr e | Moved e \<Rightarrow> Inl e)"

subsection \<open>The run\<close>

record campaign =
  cg_ops :: runtime_ops
  cg_treeDir :: string
  cg_durations :: durations
  cg_clauses :: clause_ops
  cg_Exemptions :: "exemption list"
  cg_RunID :: string
  cg_Budget :: int
  cg_memoryPin :: int
  cg_groupBudget :: "(oracle_group \<Rightarrow> int) option"
  cg_OracleTimeout :: int
  cg_deriveBudgets :: bool
  cg_world :: world
  cg_manifests :: manifest_ops
  cg_repository :: repository_state
  cg_coverage :: coverage_sources
  cg_inputPaths :: "subject_evidence \<Rightarrow> string list option"
  cg_selKey :: string
  cg_crossSelectionPrior :: "finding list"
  cg_prior :: "string \<Rightarrow> finding option"
  cg_residue :: string
  cg_Commit :: "finding \<Rightarrow> string option"
  cg_Guidance :: "(finding \<Rightarrow> string option) option"

record item =
  it_target :: nat
  it_Symbol :: string
  it_Labels :: "string list"
  it_work :: work
  it_modules :: "(bool \<times> module_check) list"
  it_targetView :: provenance_view
  it_oracleViews :: "provenance_view list"
  it_shapedFiles :: "string list"
  it_preserved :: "compartment_ledger \<Rightarrow> bool"
  it_currentLedger :: compartment_ledger
  it_coverPkg :: string
  it_scores :: window_scores
  it_observations :: "observation list"
  it_incompletes :: "string list"
  it_discard :: bool

record attestation_carry =
  cy_Symbol :: string
  cy_Position :: string
  cy_Operator :: string
  cy_Reason :: string
  cy_Derivation :: string

datatype told = ToldContradiction attestation_contradiction | ToldCarry attestation_carry | ToldSiteShed string attestation_shed

record run_state =
  rn_findings :: "finding list"
  rn_committed :: "nat list"
  rn_drifted :: "(string \<times> string) list"
  rn_done :: "nat list"
  rn_persisted :: "finding list"
  rn_coverage :: coverage_cache
  rn_told :: "told list"

text \<open>A shaped item has no target view.\<close>

definition target_sources :: "item \<Rightarrow> provenance_view option" where
  "target_sources it = (if wo_shaped (it_work it) then None else Some (it_targetView it))"

definition target_subject :: "item \<Rightarrow> subject_view" where
  "target_subject it = subject_view.truncate (it_targetView it)"

definition oracle_subjects :: "item \<Rightarrow> subject_view list" where
  "oracle_subjects it = map subject_view.truncate (it_oracleViews it)"

definition item_budget :: "campaign \<Rightarrow> item \<Rightarrow> int" where
  "item_budget cg it = maxGroupBudget (cg_groupBudget cg) (cg_OracleTimeout cg) (it_work it)"

datatype abort = EvidenceAbort string | CountsAbort splice_error | CommitAbort string | GuidanceAbort string

text \<open>An assembled record with what the callbacks heard on the way; \<open>Refuse\<close> ends the target, \<open>Abort\<close> the run.\<close>

datatype assembly = Refuse string | Abort abort | Assembled finding "told list" coverage_cache

definition bucketed :: "campaign \<Rightarrow> item \<Rightarrow> nat \<Rightarrow> finding \<times> coverage_cache \<Rightarrow> finding \<times> coverage_cache" where
  "bucketed cg it start fc = bucketSurvivorExecution (cg_clauses cg) (cg_Exemptions cg) (cg_inputPaths cg) (cg_coverage cg) (it_coverPkg it) (it_work it) start
     (fst fc) (snd fc)"

definition unstable :: "campaign \<Rightarrow> finding \<Rightarrow> bool" where
  "unstable cg f \<longleftrightarrow> unstableForBuckets (cg_clauses cg) (cg_Exemptions cg) f"

definition stamped :: "campaign \<Rightarrow> item \<Rightarrow> string list \<Rightarrow> finding \<Rightarrow> string + finding" where
  "stamped cg it shapedFiles f = stampProvenance (cg_world cg) (cg_manifests cg) (cg_treeDir cg) (cg_repository cg) (target_sources it) (it_oracleViews it)
     shapedFiles f"

text \<open>What the two splice arms share: validation, the record-wide stamp with its buckets, provenance.\<close>

definition revalidated :: "campaign \<Rightarrow> item \<Rightarrow> finding \<Rightarrow> coverage_cache \<Rightarrow> string + finding \<times> coverage_cache" where
  "revalidated cg it f cache =
     (case producerValidation (it_modules it) of
        Inl e \<Rightarrow> Inl e
      | Inr unavailable \<Rightarrow>
          let (f, cache) = (if unavailable = [] then (f, cache)
                else let f = stampUnverifiable unavailable f in if unstable cg f then bucketed cg it 0 (f, cache) else (f, cache)) in
          case stamped cg it [] f of Inl e \<Rightarrow> Inl e | Inr f \<Rightarrow> Inr (f, cache))"

definition finished :: "campaign \<Rightarrow> finding \<Rightarrow> finding" where
  "finished cg f = (stampExemptions (cg_clauses cg) (cg_Exemptions cg) f)\<lparr>f_Run := cg_RunID cg\<rparr>"

definition evidence_outcome :: "evidence_error \<Rightarrow> assembly" where
  "evidence_outcome e = (case e of Finalization reason \<Rightarrow> Refuse reason | RuntimeFailure reason \<Rightarrow> Abort (EvidenceAbort reason))"

definition served_item :: "campaign \<Rightarrow> item \<Rightarrow> finding \<Rightarrow> coverage_cache \<Rightarrow> assembly" where
  "served_item cg it rec cache =
     (let w = it_work it in
      case spliceServedFinding (cg_ops cg) (cg_treeDir cg) (it_preserved it) (it_currentLedger it) (cg_durations cg) (cg_clauses cg) rec (wo_candidates w)
          (wo_flagged w) (wo_baselines w) (target_subject it) (oracle_subjects it) (it_scores it) (it_observations it) (it_incompletes it) (it_Labels it)
          (cg_Exemptions cg) (cg_memoryPin cg) (item_budget cg it) (cg_deriveBudgets cg) of
        Inl (Evidence e) \<Rightarrow> evidence_outcome e
      | Inl (Counts e) \<Rightarrow> Abort (CountsAbort e)
      | Inr spliced \<Rightarrow>
     (case revalidated cg it spliced cache of
        Inl e \<Rightarrow> Refuse e
      | Inr (f, cache) \<Rightarrow>
          let (f, cache) = (if f_EvidenceFault f \<noteq> [] \<and> unstable cg f then bucketed cg it 0 (f, cache) else (f, cache)); f = finished cg f in
          Assembled f (map ToldContradiction (contradictKilledDispositions (f_Symbol f) (f_Attested rec) (f_Survivors f) (f_Kills f))) cache))"

definition extended_item :: "campaign \<Rightarrow> item \<Rightarrow> finding \<Rightarrow> coverage_cache \<Rightarrow> assembly" where
  "extended_item cg it rec cache =
     (let w = it_work it in
      case spliceExtendedFinding (cg_ops cg) (cg_treeDir cg) (it_preserved it) (it_currentLedger it) (cg_durations cg) (cg_clauses cg) rec (wo_candidates w)
          (wo_extendFrom w) (wo_baselines w) (target_subject it) (oracle_subjects it) (it_scores it) (it_observations it) (it_incompletes it) (it_Labels it)
          (cg_Budget cg) (cg_Exemptions cg) (cg_memoryPin cg) (item_budget cg it) (cg_deriveBudgets cg) of
        Inl e \<Rightarrow> evidence_outcome e
      | Inr extended \<Rightarrow>
     (case revalidated cg it extended cache of
        Inl e \<Rightarrow> Refuse e
      | Inr (f, cache) \<Rightarrow>
          let (f, cache) = (if unstable cg f then (if f_EvidenceFault f \<noteq> [] then bucketed cg it 0 (f, cache) else (f, cache))
                else bucketed cg it (length (f_Survivors rec)) (f, cache)) in
          Assembled (finished cg f) [] cache))"

subsection \<open>A fresh record\<close>

text \<open>\<open>f\<close> is the skeleton the preparation left in the findings. A shaped item's candidates run unobserved: its union spans the
  baselines, and only the oracle's rows are attached.\<close>

definition attached :: "campaign \<Rightarrow> item \<Rightarrow> finding \<Rightarrow> assembly + finding" where
  "attached cg it f =
     (let w = it_work it; ops = cg_ops cg in
      case (if wo_shaped w then completedObservationUnion ops (wo_baselines w) [] [] [] [] None
            else completedObservationUnion ops (wo_baselines w) (wo_candidates w) (ws_outcomes (it_scores it)) (it_observations it) (it_incompletes it) None) of
        Inl e \<Rightarrow> Inl (Abort (EvidenceAbort e))
      | Inr (un, candidateEvidence) \<Rightarrow>
          let f = f\<lparr>f_CandidateEvidence := candidateEvidence\<rparr> in
          if wo_shaped w then
            (case attachOracleEvidence ops un (oracle_subjects it) of
               Inl e \<Rightarrow> Inl (evidence_outcome e)
             | Inr oes \<Rightarrow> Inr (f\<lparr>f_OracleEvidence := oes\<rparr>))
          else
            (case attachEvidence ops un (target_subject it) (oracle_subjects it) of
               Inl e \<Rightarrow> Inl (evidence_outcome e)
             | Inr (te, oes) \<Rightarrow> Inr (f\<lparr>f_TargetEvidence := te, f_OracleEvidence := oes, f_CompartmentLedger := Some (it_currentLedger it)\<rparr>)))"

definition scored_counts :: "operator_summary list \<Rightarrow> finding \<Rightarrow> finding" where
  "scored_counts ops f = fold (\<lambda>s f. f\<lparr>f_Discarded := f_Discarded f + o_Discarded s, f_Mutants := f_Mutants f + (o_Killed s + o_Survived s),
     f_Killed := f_Killed f + o_Killed s\<rparr>) ops (f\<lparr>f_Operators := ops\<rparr>)"

definition scored_candidate :: "candidate list \<Rightarrow> window_scores \<Rightarrow> nat \<Rightarrow> finding \<Rightarrow> finding" where
  "scored_candidate candidates scores mi f =
     (case ws_outcomes scores ! mi of
        MutantSurvived \<Rightarrow> f\<lparr>f_Survivors := f_Survivors f @ [newSurvivor (candidates ! mi) [] (ws_flips scores) mi]\<rparr>
      | MutantKilled \<Rightarrow> f\<lparr>f_Kills := f_Kills f @ [\<lparr>k_Position = c_Position (candidates ! mi), k_Operator = c_Operator (candidates ! mi),
          k_Killer = ws_killers scores ! mi\<rparr>]\<rparr>
      | MutantDiscarded \<Rightarrow> f)"

definition scored_rows :: "candidate list \<Rightarrow> window_scores \<Rightarrow> finding \<Rightarrow> finding" where
  "scored_rows candidates scores f = fold (scored_candidate candidates scores) [0..<length candidates] f"

definition domain_held :: "item \<Rightarrow> finding \<Rightarrow> finding \<Rightarrow> bool" where
  "domain_held it rec f \<longleftrightarrow> mutationDomainHeld rec f \<and> (wo_shaped (it_work it) \<longrightarrow> f_Shape rec = f_Shape f \<and> sameAttestationPins rec f)"

definition carry_told :: "finding \<Rightarrow> finding \<Rightarrow> attestation \<Rightarrow> told" where
  "carry_told rec f a = ToldCarry \<lparr>cy_Symbol = f_Symbol f, cy_Position = a_Position a, cy_Operator = a_Operator a, cy_Reason = a_Reason a,
     cy_Derivation = derivationMove (f_TargetEvidence rec) (f_TargetEvidence f)\<rparr>"

definition carried_dispositions :: "campaign \<Rightarrow> item \<Rightarrow> finding \<Rightarrow> finding \<times> told list" where
  "carried_dispositions cg it f =
     (case cg_prior cg (it_Symbol it) of
        None \<Rightarrow> (f, [])
      | Some rec \<Rightarrow>
          if \<not> domain_held it rec f then (f, [])
          else
            let (kept, siteSheds, gone) = carryAnchoredAttestations (f_Attested rec) (f_Survivors f);
                f = f\<lparr>f_Attested := f_Attested f @ kept\<rparr>;
                f = f\<lparr>f_Withdrawn := carryAnchoredWithdrawn (f_Withdrawn rec) (f_Attested f) (f_Survivors f)\<rparr> in
            (f, (if sameAttestationPins rec f then [] else map (carry_told rec f) kept) @ map (ToldSiteShed (f_Symbol f)) siteSheds @
               map ToldContradiction (contradictKilledDispositions (f_Symbol f) gone (f_Survivors f) (f_Kills f))))"

definition fresh_item :: "campaign \<Rightarrow> item \<Rightarrow> finding \<Rightarrow> coverage_cache \<Rightarrow> assembly" where
  "fresh_item cg it skeleton cache =
     (let w = it_work it; scores = it_scores it in
      case attached cg it skeleton of
        Inl result \<Rightarrow> result
      | Inr f \<Rightarrow>
     (case producerValidation (it_modules it) of
        Inl e \<Rightarrow> Refuse e
      | Inr unavailable \<Rightarrow>
     (case stamped cg it (it_shapedFiles it) (if unavailable = [] then f else stampUnverifiable unavailable f) of
        Inl e \<Rightarrow> Refuse e
      | Inr f \<Rightarrow>
          let f = stampExemptions (cg_clauses cg) (cg_Exemptions cg) (f\<lparr>f_Run := cg_RunID cg\<rparr>);
              f = mergeScoredFacts (cg_durations cg) f scores (f_OracleMemoryBytes f) (item_budget cg it) (cg_deriveBudgets cg);
              f = scored_counts (summarizeOperators (wo_candidates w) (ws_outcomes scores)) f;
              f = scored_rows (wo_candidates w) scores f;
              (f, cache) = (if wo_shaped w then (f, cache) else bucketed cg it 0 (f, cache));
              (f, heard) = carried_dispositions cg it f in
          Assembled f heard cache)))"

subsection \<open>Commit\<close>

definition annotateCrossSelection :: "finding list \<Rightarrow> finding \<Rightarrow> finding" where
  "annotateCrossSelection crossSelectionPrior f =
     (if crossSelectionPrior = [] \<or> f_Skipped f \<noteq> [] then f
      else let bundle = f # filter (\<lambda>other. f_Symbol other = f_Symbol f) crossSelectionPrior in
        if length bundle < 2 then f else AnnotateSelectionVerdicts bundle ! 0)"

definition refuseTarget :: "campaign \<Rightarrow> item \<Rightarrow> string \<Rightarrow> run_state \<Rightarrow> run_state" where
  "refuseTarget cg it reason st = st\<lparr>rn_drifted := rn_drifted st @ [(it_Symbol it, reason @ cg_residue cg)], rn_done := rn_done st @ [it_target it]\<rparr>"

definition guided :: "campaign \<Rightarrow> finding \<Rightarrow> string option" where
  "guided cg f = (case cg_Guidance cg of None \<Rightarrow> None | Some probe \<Rightarrow> if \<not> unstable cg f \<or> f_OracleExplicit f then None else probe f)"

definition selected :: "campaign \<Rightarrow> finding \<Rightarrow> finding" where
  "selected cg f = annotateCrossSelection (cg_crossSelectionPrior cg) (f\<lparr>f_Selection := cg_selKey cg\<rparr>)"

definition commitAndAttribute :: "campaign \<Rightarrow> item \<Rightarrow> finding \<Rightarrow> run_state \<Rightarrow> abort option \<times> run_state" where
  "commitAndAttribute cg it f st =
     (let f = selected cg f;
          st = st\<lparr>rn_findings := (rn_findings st)[it_target it := f]\<rparr> in
      case cg_Commit cg f of
        Some e \<Rightarrow> (Some (CommitAbort e), st)
      | None \<Rightarrow>
          (map_option GuidanceAbort (guided cg f),
           st\<lparr>rn_committed := rn_committed st @ [it_target it], rn_persisted := rn_persisted st @ [f], rn_done := rn_done st @ [it_target it]\<rparr>))"

definition assembled_item :: "campaign \<Rightarrow> item \<Rightarrow> run_state \<Rightarrow> assembly" where
  "assembled_item cg it st =
     (case wo_serve (it_work it) of
        Some rec \<Rightarrow> served_item cg it rec (rn_coverage st)
      | None \<Rightarrow>
          (case wo_extend (it_work it) of
             Some rec \<Rightarrow> extended_item cg it rec (rn_coverage st)
           | None \<Rightarrow> fresh_item cg it (rn_findings st ! it_target it) (rn_coverage st)))"

definition aggregate_item :: "campaign \<Rightarrow> item \<Rightarrow> run_state \<Rightarrow> abort option \<times> run_state" where
  "aggregate_item cg it st =
     (if it_discard it then (None, st\<lparr>rn_done := rn_done st @ [it_target it]\<rparr>)
      else case assembled_item cg it st of
          Refuse e \<Rightarrow> (None, refuseTarget cg it e st)
        | Abort a \<Rightarrow> (Some a, st)
        | Assembled f heard cache \<Rightarrow> commitAndAttribute cg it f (st\<lparr>rn_coverage := cache, rn_told := rn_told st @ heard\<rparr>))"

fun aggregateWindow :: "campaign \<Rightarrow> item list \<Rightarrow> run_state \<Rightarrow> abort option \<times> run_state" where
  "aggregateWindow cg [] st = (None, st)"
| "aggregateWindow cg (it # its) st =
     (case aggregate_item cg it st of
        (Some a, st) \<Rightarrow> (Some a, st)
      | (None, st) \<Rightarrow> aggregateWindow cg its st)"

section \<open>Properties\<close>

subsection \<open>What an assembly leaves alone\<close>

lemma stamp_frame:
  assumes "stampProvenance wd mo treeDir s target oracle shapedFiles f = Inr f'"
  shows "f' = f\<lparr>f_StagedTree := f_StagedTree f', f_Dirty := f_Dirty f', f_EvidenceFault := f_EvidenceFault f', f_Commit := f_Commit f'\<rparr>"
proof -
  have verdict: "staged_verdict wd s faults causes g = Inr h \<Longrightarrow> h = g" for faults causes g h by (simp add: staged_verdict_Inr)
  show ?thesis using assms
    by (auto simp: stampProvenance_def Let_def simp del: judge_evidence.simps split: if_splits sum.splits prod.splits dest!: verdict)
qed

lemma stamp_keeps_fault:
  assumes "stampProvenance wd mo treeDir s target oracle shapedFiles f = Inr f'" and "f_EvidenceFault f \<noteq> []"
  shows "f_EvidenceFault f' \<noteq> []"
proof -
  obtain faults where "f_EvidenceFault f' = noted_faults (f_EvidenceFault f) faults" by (rule stampProvenance_Inr [OF assms(1)])
  then show ?thesis using assms(2) by (auto simp: noted_faults_def)
qed

lemma stamp_fields:
  assumes "stampProvenance wd mo treeDir s target oracle shapedFiles f = Inr f'"
  shows "f_Survivors f' = f_Survivors f" "f_Kills f' = f_Kills f" "f_Mutants f' = f_Mutants f" "f_Killed f' = f_Killed f" "f_Discarded f' = f_Discarded f"
    "f_Attested f' = f_Attested f" "f_Generated f' = f_Generated f" "f_CandidateCount f' = f_CandidateCount f" "f_Budget f' = f_Budget f"
  by (subst stamp_frame [OF assms], simp)+

lemma bucketed_frame:
  "(fst (bucketed cg it start fc))\<lparr>f_Survivors := []\<rparr> = (fst fc)\<lparr>f_Survivors := []\<rparr>"
  "map (s_Execution_update (\<lambda>_. [])) (f_Survivors (fst (bucketed cg it start fc))) = map (s_Execution_update (\<lambda>_. [])) (f_Survivors (fst fc))"
  using bucketing_frame [of "cg_clauses cg" "cg_Exemptions cg" "cg_inputPaths cg" "cg_coverage cg" "it_coverPkg it" "it_work it" start "fst fc" "snd fc"]
  unfolding bucketed_def by simp_all

lemma bucketed_fault [simp]: "f_EvidenceFault (fst (bucketed cg it start fc)) = f_EvidenceFault (fst fc)"
  using arg_cong [OF bucketed_frame(1), of f_EvidenceFault] by simp

lemma bucketed_fields [simp]:
  "f_Kills (fst (bucketed cg it start fc)) = f_Kills (fst fc)" "f_Mutants (fst (bucketed cg it start fc)) = f_Mutants (fst fc)"
  "f_Killed (fst (bucketed cg it start fc)) = f_Killed (fst fc)" "f_Discarded (fst (bucketed cg it start fc)) = f_Discarded (fst fc)"
  "f_Attested (fst (bucketed cg it start fc)) = f_Attested (fst fc)" "f_Run (fst (bucketed cg it start fc)) = f_Run (fst fc)"
  "f_Generated (fst (bucketed cg it start fc)) = f_Generated (fst fc)" "f_CandidateCount (fst (bucketed cg it start fc)) = f_CandidateCount (fst fc)"
  "f_Budget (fst (bucketed cg it start fc)) = f_Budget (fst fc)" "f_Operators (fst (bucketed cg it start fc)) = f_Operators (fst fc)"
  using arg_cong [OF bucketed_frame(1) [of cg it start fc], of f_Kills] arg_cong [OF bucketed_frame(1) [of cg it start fc], of f_Mutants]
    arg_cong [OF bucketed_frame(1) [of cg it start fc], of f_Killed] arg_cong [OF bucketed_frame(1) [of cg it start fc], of f_Discarded]
    arg_cong [OF bucketed_frame(1) [of cg it start fc], of f_Attested] arg_cong [OF bucketed_frame(1) [of cg it start fc], of f_Run]
    arg_cong [OF bucketed_frame(1) [of cg it start fc], of f_Generated] arg_cong [OF bucketed_frame(1) [of cg it start fc], of f_CandidateCount]
    arg_cong [OF bucketed_frame(1) [of cg it start fc], of f_Budget] arg_cong [OF bucketed_frame(1) [of cg it start fc], of f_Operators] by simp_all

lemma bucketed_keys [simp]: "map s_key (f_Survivors (fst (bucketed cg it start fc))) = map s_key (f_Survivors (fst fc))"
  using arg_cong [OF bucketed_frame(2) [of cg it start fc], of "map s_key"] by (simp add: comp_def s_key_def [abs_def])

lemma merged_fields [simp]:
  "f_Survivors (mergeScoredFacts d f scores pin budget derived) = f_Survivors f" "f_Kills (mergeScoredFacts d f scores pin budget derived) = f_Kills f"
  "f_Mutants (mergeScoredFacts d f scores pin budget derived) = f_Mutants f" "f_Killed (mergeScoredFacts d f scores pin budget derived) = f_Killed f"
  "f_Discarded (mergeScoredFacts d f scores pin budget derived) = f_Discarded f" "f_Attested (mergeScoredFacts d f scores pin budget derived) = f_Attested f"
  "f_EvidenceFault (mergeScoredFacts d f scores pin budget derived) = f_EvidenceFault f" "f_Run (mergeScoredFacts d f scores pin budget derived) = f_Run f"
  "f_Generated (mergeScoredFacts d f scores pin budget derived) = f_Generated f" "f_CandidateCount (mergeScoredFacts d f scores pin budget derived) = f_CandidateCount f" "f_Budget (mergeScoredFacts d f scores pin budget derived) = f_Budget f"
  by (simp_all add: mergeScoredFacts_def Let_def split: option.split)

lemma exempted_fields [simp]:
  "f_Survivors (stampExemptions ops xs f) = f_Survivors f" "f_Kills (stampExemptions ops xs f) = f_Kills f"
  "f_Mutants (stampExemptions ops xs f) = f_Mutants f" "f_Killed (stampExemptions ops xs f) = f_Killed f"
  "f_Discarded (stampExemptions ops xs f) = f_Discarded f" "f_Attested (stampExemptions ops xs f) = f_Attested f"
  "f_EvidenceFault (stampExemptions ops xs f) = f_EvidenceFault f" "f_Run (stampExemptions ops xs f) = f_Run f"
  "f_Generated (stampExemptions ops xs f) = f_Generated f" "f_CandidateCount (stampExemptions ops xs f) = f_CandidateCount f" "f_Budget (stampExemptions ops xs f) = f_Budget f"
  by (simp_all add: stampExemptions_def)

lemma unverifiable_fields [simp]:
  "f_Survivors (stampUnverifiable reason f) = f_Survivors f" "f_Kills (stampUnverifiable reason f) = f_Kills f"
  "f_Mutants (stampUnverifiable reason f) = f_Mutants f" "f_Killed (stampUnverifiable reason f) = f_Killed f"
  "f_Discarded (stampUnverifiable reason f) = f_Discarded f" "f_Attested (stampUnverifiable reason f) = f_Attested f"
  "f_EvidenceFault (stampUnverifiable reason f) = reason"
  "f_Generated (stampUnverifiable reason f) = f_Generated f" "f_CandidateCount (stampUnverifiable reason f) = f_CandidateCount f" "f_Budget (stampUnverifiable reason f) = f_Budget f"
  by (simp_all add: stampUnverifiable_def Let_def)

lemma attached_fields:
  assumes "attached cg it f = Inr f'"
  shows "f_Survivors f' = f_Survivors f" "f_Kills f' = f_Kills f" "f_Mutants f' = f_Mutants f" "f_Killed f' = f_Killed f" "f_Discarded f' = f_Discarded f"
    "f_Attested f' = f_Attested f" "f_Generated f' = f_Generated f" "f_CandidateCount f' = f_CandidateCount f" "f_Budget f' = f_Budget f"
  using assms by (auto simp: attached_def Let_def split: sum.splits prod.splits if_splits)

lemma attached_refuses: "attached cg it f = Inl r \<Longrightarrow> r \<noteq> Assembled g heard cache"
  by (auto simp: attached_def evidence_outcome_def Let_def split: sum.splits prod.splits if_splits evidence_error.splits)

subsection \<open>Scores\<close>

definition scored_as :: "outcome \<Rightarrow> outcome list \<Rightarrow> nat \<Rightarrow> nat list" where
  "scored_as v outcomes n = filter (\<lambda>mi. outcomes ! mi = v) [0..<n]"

lemma scored_counts_fields [simp]:
  "f_Killed (scored_counts ops f) = f_Killed f + sum_list (map o_Killed ops)"
  "f_Mutants (scored_counts ops f) = f_Mutants f + (sum_list (map o_Killed ops) + sum_list (map o_Survived ops))"
  "f_Discarded (scored_counts ops f) = f_Discarded f + sum_list (map o_Discarded ops)"
  "f_Survivors (scored_counts ops f) = f_Survivors f" "f_Kills (scored_counts ops f) = f_Kills f" "f_Attested (scored_counts ops f) = f_Attested f"
  "f_EvidenceFault (scored_counts ops f) = f_EvidenceFault f" "f_Run (scored_counts ops f) = f_Run f" "f_Operators (scored_counts ops f) = ops"
  "f_Generated (scored_counts ops f) = f_Generated f" "f_CandidateCount (scored_counts ops f) = f_CandidateCount f" "f_Budget (scored_counts ops f) = f_Budget f"
proof -
  define step where "step s f = f\<lparr>f_Discarded := f_Discarded f + o_Discarded s, f_Mutants := f_Mutants f + (o_Killed s + o_Survived s),
     f_Killed := f_Killed f + o_Killed s\<rparr>" for s :: operator_summary and f :: finding
  have fold: "fold step os g = g\<lparr>f_Discarded := f_Discarded g + sum_list (map o_Discarded os), f_Mutants := f_Mutants g + (sum_list (map o_Killed os) + sum_list (map o_Survived os)),
     f_Killed := f_Killed g + sum_list (map o_Killed os)\<rparr>" for os g
  proof (induction os arbitrary: g)
    case (Cons s os)
    show ?case unfolding fold_simps Cons.IH by (rule finding.equality) (simp_all add: step_def algebra_simps)
  qed simp
  have "scored_counts ops f = fold step ops (f\<lparr>f_Operators := ops\<rparr>)" by (simp add: scored_counts_def step_def [abs_def])
  then show "f_Killed (scored_counts ops f) = f_Killed f + sum_list (map o_Killed ops)"
    "f_Mutants (scored_counts ops f) = f_Mutants f + (sum_list (map o_Killed ops) + sum_list (map o_Survived ops))"
    "f_Discarded (scored_counts ops f) = f_Discarded f + sum_list (map o_Discarded ops)"
    "f_Survivors (scored_counts ops f) = f_Survivors f" "f_Kills (scored_counts ops f) = f_Kills f" "f_Attested (scored_counts ops f) = f_Attested f"
    "f_EvidenceFault (scored_counts ops f) = f_EvidenceFault f" "f_Run (scored_counts ops f) = f_Run f" "f_Operators (scored_counts ops f) = ops"
    "f_Generated (scored_counts ops f) = f_Generated f" "f_CandidateCount (scored_counts ops f) = f_CandidateCount f" "f_Budget (scored_counts ops f) = f_Budget f"
    by (simp_all add: fold)
qed

definition kill_row :: "candidate list \<Rightarrow> window_scores \<Rightarrow> nat \<Rightarrow> kill" where
  "kill_row candidates scores mi = \<lparr>k_Position = c_Position (candidates ! mi), k_Operator = c_Operator (candidates ! mi), k_Killer = ws_killers scores ! mi\<rparr>"

lemma scored_rows_run:
  "scored_rows candidates scores f = f\<lparr>
     f_Survivors := f_Survivors f @ map (\<lambda>mi. newSurvivor (candidates ! mi) [] (ws_flips scores) mi) (scored_as MutantSurvived (ws_outcomes scores) (length candidates)),
     f_Kills := f_Kills f @ map (kill_row candidates scores) (scored_as MutantKilled (ws_outcomes scores) (length candidates))\<rparr>"
proof -
  have "fold (scored_candidate candidates scores) mis g = g\<lparr>
     f_Survivors := f_Survivors g @ map (\<lambda>mi. newSurvivor (candidates ! mi) [] (ws_flips scores) mi) (filter (\<lambda>mi. ws_outcomes scores ! mi = MutantSurvived) mis),
     f_Kills := f_Kills g @ map (kill_row candidates scores) (filter (\<lambda>mi. ws_outcomes scores ! mi = MutantKilled) mis)\<rparr>" for mis g
    by (induction mis arbitrary: g) (simp_all add: scored_candidate_def kill_row_def split: outcome.split)
  then show ?thesis by (simp add: scored_rows_def scored_as_def)
qed

lemma score_operator_sums:
  assumes "distinct (map o_Operator ops)"
  shows "sum_list (map o_Killed (score_operator op (outcomeDisposition v) ops)) = sum_list (map o_Killed ops) + of_bool (v = MutantKilled)"
    "sum_list (map o_Survived (score_operator op (outcomeDisposition v) ops)) = sum_list (map o_Survived ops) + of_bool (v = MutantSurvived)"
    "sum_list (map o_Discarded (score_operator op (outcomeDisposition v) ops)) = sum_list (map o_Discarded ops) + of_bool (v = MutantDiscarded)"
proof -
  obtain pre y post where sc: "score_operator op (outcomeDisposition v) ops = pre @ Splice.scored_row (outcomeDisposition v) y # post"
    and ops: "ops = pre @ y # post \<or> ops = pre @ post \<and> y = zero_summary op"
    by (rule score_operator_cases [OF assms])
  have parts: "sum_list (map g ops) = sum_list (map g pre) + g y + sum_list (map g post)" if "g (zero_summary op) = 0" for g :: "operator_summary \<Rightarrow> int"
    using ops by (rule disjE) (simp_all add: that)
  have zeros: "o_Killed (zero_summary op) = 0" "o_Survived (zero_summary op) = 0" "o_Discarded (zero_summary op) = 0" by (simp_all add: zero_summary_def)
  show "sum_list (map o_Killed (score_operator op (outcomeDisposition v) ops)) = sum_list (map o_Killed ops) + of_bool (v = MutantKilled)"
    "sum_list (map o_Survived (score_operator op (outcomeDisposition v) ops)) = sum_list (map o_Survived ops) + of_bool (v = MutantSurvived)"
    "sum_list (map o_Discarded (score_operator op (outcomeDisposition v) ops)) = sum_list (map o_Discarded ops) + of_bool (v = MutantDiscarded)"
    unfolding sc parts [of o_Killed, OF zeros(1)] parts [of o_Survived, OF zeros(2)] parts [of o_Discarded, OF zeros(3)]
    by (auto simp: outcomeDisposition_def split: outcome.split)
qed

lemma summary_sums:
  assumes "distinct (map o_Operator ops)" "\<forall>x \<in> set ops. o_Generated x = o_Discarded x + o_Killed x + o_Survived x"
  shows "sum_list (map o_Killed (fold summary_step cos ops)) = sum_list (map o_Killed ops) + int (length (filter (\<lambda>co. snd co = MutantKilled) cos)) \<and>
    sum_list (map o_Survived (fold summary_step cos ops)) = sum_list (map o_Survived ops) + int (length (filter (\<lambda>co. snd co = MutantSurvived) cos)) \<and>
    sum_list (map o_Discarded (fold summary_step cos ops)) = sum_list (map o_Discarded ops) + int (length (filter (\<lambda>co. snd co = MutantDiscarded) cos))"
  using assms
proof (induction cos arbitrary: ops)
  case (Cons co cos)
  let ?disp = "outcomeDisposition (snd co)"
  have disp: "?disp \<in> {''killed'', ''survived'', ''discarded''}" by (rule disposition_cases)
  note st = frame_step [OF Cons.prems disp, of "c_Operator (fst co)", folded summary_step_def]
  show ?case
    using Cons.IH [OF st(1,2)] score_operator_sums [OF Cons.prems(1), of "c_Operator (fst co)" "snd co", folded summary_step_def] by simp
qed simp

lemma summarize_sums:
  "sum_list (map o_Killed (summarizeOperators candidates outcomes)) = int (length (scored_as MutantKilled outcomes (length candidates)))"
  "sum_list (map o_Survived (summarizeOperators candidates outcomes)) = int (length (scored_as MutantSurvived outcomes (length candidates)))"
  "sum_list (map o_Discarded (summarizeOperators candidates outcomes)) = int (length (scored_as MutantDiscarded outcomes (length candidates)))"
  using summary_sums [of "[]" "map (\<lambda>i. (candidates ! i, outcomes ! i)) [0..<length candidates]"]
  by (simp_all add: summarizeOperators_def scored_as_def sum_list_sort_key filter_map comp_def)

lemma scored_as_partition:
  "length (scored_as MutantKilled outcomes n) + length (scored_as MutantSurvived outcomes n) + length (scored_as MutantDiscarded outcomes n) = n"
proof -
  have "length (filter (\<lambda>mi. outcomes ! mi = MutantKilled) ms) + length (filter (\<lambda>mi. outcomes ! mi = MutantSurvived) ms) +
      length (filter (\<lambda>mi. outcomes ! mi = MutantDiscarded) ms) = length ms" for ms
  proof (induction ms)
    case (Cons m ms)
    then show ?case by (cases "outcomes ! m") simp_all
  qed simp
  from this [of "[0..<n]"] show ?thesis by (simp add: scored_as_def)
qed

subsection \<open>A fresh record\<close>

lemma carried_fields:
  "f_Survivors (fst (carried_dispositions cg it f)) = f_Survivors f" "f_Kills (fst (carried_dispositions cg it f)) = f_Kills f"
  "f_Mutants (fst (carried_dispositions cg it f)) = f_Mutants f" "f_Killed (fst (carried_dispositions cg it f)) = f_Killed f"
  "f_Discarded (fst (carried_dispositions cg it f)) = f_Discarded f" "f_EvidenceFault (fst (carried_dispositions cg it f)) = f_EvidenceFault f"
  "f_Run (fst (carried_dispositions cg it f)) = f_Run f" "f_Symbol (fst (carried_dispositions cg it f)) = f_Symbol f"
  "f_Generated (fst (carried_dispositions cg it f)) = f_Generated f" "f_CandidateCount (fst (carried_dispositions cg it f)) = f_CandidateCount f" "f_Budget (fst (carried_dispositions cg it f)) = f_Budget f" "f_Operators (fst (carried_dispositions cg it f)) = f_Operators f"
  by (simp_all add: carried_dispositions_def Let_def split: option.split prod.split)

text \<open>A fresh record is its scored skeleton with the prior dispositions carried: \<open>b\<close> has the scores.\<close>

lemma fresh_item_parts:
  assumes "fresh_item cg it skeleton cache = Assembled f heard cache'"
  obtains b g unavailable where "(f, heard) = carried_dispositions cg it b" "producerValidation (it_modules it) = Inr unavailable"
    "f_Kills b = f_Kills skeleton @ map (kill_row (wo_candidates (it_work it)) (it_scores it))
       (scored_as MutantKilled (ws_outcomes (it_scores it)) (length (wo_candidates (it_work it))))"
    "map s_key (f_Survivors b) = map s_key (f_Survivors skeleton) @ map (\<lambda>mi. c_key (wo_candidates (it_work it) ! mi))
       (scored_as MutantSurvived (ws_outcomes (it_scores it)) (length (wo_candidates (it_work it))))"
    "f_Killed b = f_Killed skeleton + int (length (scored_as MutantKilled (ws_outcomes (it_scores it)) (length (wo_candidates (it_work it)))))"
    "f_Mutants b = f_Mutants skeleton + int (length (scored_as MutantKilled (ws_outcomes (it_scores it)) (length (wo_candidates (it_work it)))))
       + int (length (scored_as MutantSurvived (ws_outcomes (it_scores it)) (length (wo_candidates (it_work it)))))"
    "f_Discarded b = f_Discarded skeleton + int (length (scored_as MutantDiscarded (ws_outcomes (it_scores it)) (length (wo_candidates (it_work it)))))"
    "f_Operators b = summarizeOperators (wo_candidates (it_work it)) (ws_outcomes (it_scores it))"
    "f_Generated b = f_Generated skeleton" "f_CandidateCount b = f_CandidateCount skeleton" "f_Budget b = f_Budget skeleton"
    "f_Attested b = f_Attested skeleton" "f_Run b = cg_RunID cg" "unavailable \<noteq> [] \<longrightarrow> f_EvidenceFault b \<noteq> []"
proof -
  let ?w = "it_work it" and ?scores = "it_scores it"
  obtain g where g: "attached cg it skeleton = Inr g"
    using assms attached_refuses [of cg it skeleton] by (cases "attached cg it skeleton") (auto simp: fresh_item_def)
  obtain unavailable where un: "producerValidation (it_modules it) = Inr unavailable"
    using assms g by (cases "producerValidation (it_modules it)") (simp_all add: fresh_item_def Let_def)
  define v where "v = (if unavailable = [] then g else stampUnverifiable unavailable g)"
  obtain p where p: "stamped cg it (it_shapedFiles it) v = Inr p" using assms g un by (cases "stamped cg it (it_shapedFiles it) v") (simp_all add: fresh_item_def v_def)
  define q where "q = scored_rows (wo_candidates ?w) ?scores (scored_counts (summarizeOperators (wo_candidates ?w) (ws_outcomes ?scores))
    (mergeScoredFacts (cg_durations cg) (stampExemptions (cg_clauses cg) (cg_Exemptions cg) (p\<lparr>f_Run := cg_RunID cg\<rparr>)) ?scores
      (f_OracleMemoryBytes (stampExemptions (cg_clauses cg) (cg_Exemptions cg) (p\<lparr>f_Run := cg_RunID cg\<rparr>))) (item_budget cg it) (cg_deriveBudgets cg)))"
  define b where "b = fst (if wo_shaped ?w then (q, cache) else bucketed cg it 0 (q, cache))"
  have f: "(f, heard) = carried_dispositions cg it b"
    using assms by (simp add: fresh_item_def g un v_def [symmetric] p Let_def q_def [symmetric] b_def split: prod.splits if_splits)
  note gf = attached_fields [OF g] and pf = stamp_fields [OF p [unfolded stamped_def]]
  have bq: "f_Kills b = f_Kills q" "f_Mutants b = f_Mutants q" "f_Killed b = f_Killed q" "f_Discarded b = f_Discarded q" "f_Attested b = f_Attested q"
    "f_Run b = f_Run q" "f_EvidenceFault b = f_EvidenceFault q" "f_Operators b = f_Operators q" "f_Generated b = f_Generated q"
    "f_CandidateCount b = f_CandidateCount q" "f_Budget b = f_Budget q" "map s_key (f_Survivors b) = map s_key (f_Survivors q)"
    by (simp_all add: b_def)
  have vf: "f_Survivors v = f_Survivors skeleton" "f_Kills v = f_Kills skeleton" "f_Mutants v = f_Mutants skeleton" "f_Killed v = f_Killed skeleton"
    "f_Discarded v = f_Discarded skeleton" "f_Attested v = f_Attested skeleton" "f_Generated v = f_Generated skeleton"
    "f_CandidateCount v = f_CandidateCount skeleton" "f_Budget v = f_Budget skeleton" by (simp_all add: v_def gf)
  have fault: "f_EvidenceFault p \<noteq> []" if "unavailable \<noteq> []"
    using stamp_keeps_fault [OF p [unfolded stamped_def]] that by (simp add: v_def)
  show thesis
    by (rule that [OF f un]) (use bq(12) fault in \<open>simp_all add: bq(1-11) q_def scored_rows_run pf vf summarize_sums comp_def\<close>)
qed

text \<open>C10: A fresh record accounts for every candidate. Its counts are those of its rows: mutants are kills and survivors, with the
  discarded candidates they are all candidates, every kill is a candidate scored killed and names the killer of its score, and the
  survivors are the candidates scored survived, in order.\<close>
theorem fresh_record_accounts:
  assumes "fresh_item cg it skeleton cache = Assembled f heard cache'"
    and "f_Kills skeleton = []" "f_Survivors skeleton = []" "f_Killed skeleton = 0" "f_Mutants skeleton = 0" "f_Discarded skeleton = 0"
  shows "f_Killed f = int (length (f_Kills f)) \<and> f_Mutants f = f_Killed f + int (length (f_Survivors f)) \<and>
    f_Mutants f + f_Discarded f = int (length (wo_candidates (it_work it))) \<and>
    f_Kills f = map (kill_row (wo_candidates (it_work it)) (it_scores it)) (scored_as MutantKilled (ws_outcomes (it_scores it)) (length (wo_candidates (it_work it)))) \<and>
    map s_key (f_Survivors f) = map (\<lambda>mi. c_key (wo_candidates (it_work it) ! mi)) (scored_as MutantSurvived (ws_outcomes (it_scores it)) (length (wo_candidates (it_work it))))"
proof -
  obtain b where b: "(f, heard) = carried_dispositions cg it b"
    "f_Kills b = map (kill_row (wo_candidates (it_work it)) (it_scores it)) (scored_as MutantKilled (ws_outcomes (it_scores it)) (length (wo_candidates (it_work it))))"
    "map s_key (f_Survivors b) = map (\<lambda>mi. c_key (wo_candidates (it_work it) ! mi)) (scored_as MutantSurvived (ws_outcomes (it_scores it)) (length (wo_candidates (it_work it))))"
    "f_Killed b = int (length (scored_as MutantKilled (ws_outcomes (it_scores it)) (length (wo_candidates (it_work it)))))"
    "f_Mutants b = int (length (scored_as MutantKilled (ws_outcomes (it_scores it)) (length (wo_candidates (it_work it)))))
       + int (length (scored_as MutantSurvived (ws_outcomes (it_scores it)) (length (wo_candidates (it_work it)))))"
    "f_Discarded b = int (length (scored_as MutantDiscarded (ws_outcomes (it_scores it)) (length (wo_candidates (it_work it)))))"
    by (rule fresh_item_parts [OF assms(1)]) (simp add: assms(2-6))
  have f: "f = fst (carried_dispositions cg it b)" using b(1) by (metis fst_conv)
  have "length (f_Survivors b) = length (scored_as MutantSurvived (ws_outcomes (it_scores it)) (length (wo_candidates (it_work it))))"
    using arg_cong [OF b(3), of length] by simp
  then show ?thesis using b(2-6) scored_as_partition [of "ws_outcomes (it_scores it)" "length (wo_candidates (it_work it))"]
    by (simp add: f carried_fields)
qed

text \<open>The rows of the summary count each operator's candidates.\<close>

definition operator_count :: "string \<Rightarrow> outcome \<Rightarrow> (candidate \<times> outcome) list \<Rightarrow> int" where
  "operator_count op v cos = int (length (filter (\<lambda>co. c_Operator (fst co) = op \<and> snd co = v) cos))"

lemma summary_rows:
  "distinct (map o_Operator (fold summary_step cos [])) \<and> (\<forall>x \<in> set (fold summary_step cos []).
     o_Operator x \<in> c_Operator ` fst ` set cos \<and> o_Generated x > 0 \<and> o_Killed x = operator_count (o_Operator x) MutantKilled cos \<and>
     o_Survived x = operator_count (o_Operator x) MutantSurvived cos \<and> o_Discarded x = operator_count (o_Operator x) MutantDiscarded cos \<and>
     o_Generated x = o_Discarded x + o_Killed x + o_Survived x)"
proof (induction cos rule: rev_induct)
  case (snoc co cos)
  let ?op = "c_Operator (fst co)" and ?rows = "fold summary_step cos []"
  have IH: "distinct (map o_Operator ?rows)" and rows: "\<And>x. x \<in> set ?rows \<Longrightarrow> o_Operator x \<in> c_Operator ` fst ` set cos \<and> o_Generated x > 0 \<and>
     o_Killed x = operator_count (o_Operator x) MutantKilled cos \<and> o_Survived x = operator_count (o_Operator x) MutantSurvived cos \<and>
     o_Discarded x = operator_count (o_Operator x) MutantDiscarded cos \<and> o_Generated x = o_Discarded x + o_Killed x + o_Survived x"
    using snoc by auto
  obtain pre y post where sc: "score_operator ?op (outcomeDisposition (snd co)) ?rows = pre @ Splice.scored_row (outcomeDisposition (snd co)) y # post"
    and y: "o_Operator y = ?op" "?op \<notin> o_Operator ` set (pre @ post)"
    and ops: "?rows = pre @ y # post \<or> ?rows = pre @ post \<and> y = zero_summary ?op"
    by (rule score_operator_cases [OF IH])
  have dist: "distinct (map o_Operator (fold summary_step (cos @ [co]) []))"
    using frame_step(1) [OF IH _ disposition_cases, of ?op "snd co"] rows by (simp add: summary_step_def)
  have other: "operator_count (o_Operator x) v (cos @ [co]) = operator_count (o_Operator x) v cos" if "x \<in> set (pre @ post)" for x v
    using that y(2) by (auto simp: operator_count_def)
  have absent: "operator_count ?op v cos = 0" if "?rows = pre @ post" for v
  proof -
    have "o_Operator ` set ?rows = (c_Operator \<circ> fst) ` set cos" using summary_fold [of "[]" cos] by simp
    then have "?op \<notin> c_Operator ` fst ` set cos" using y(2) that by (simp add: image_image)
    then show ?thesis by (auto simp: operator_count_def filter_empty_conv image_iff)
  qed
  have prior: "o_Killed y = operator_count ?op MutantKilled cos \<and> o_Survived y = operator_count ?op MutantSurvived cos \<and>
      o_Discarded y = operator_count ?op MutantDiscarded cos \<and> o_Generated y = o_Discarded y + o_Killed y + o_Survived y"
    using ops
  proof (elim disjE conjE)
    assume "?rows = pre @ y # post" then show ?thesis using rows [of y] y(1) by simp
  next
    assume a: "?rows = pre @ post" "y = zero_summary ?op"
    have zero: "o_Killed y = 0" "o_Survived y = 0" "o_Discarded y = 0" "o_Generated y = 0" by (simp_all add: a(2) zero_summary_def)
    show ?thesis unfolding absent [OF a(1)] zero by simp
  qed
  have nonneg: "0 \<le> o_Generated y" using prior by (simp add: operator_count_def)
  let ?z = "Splice.scored_row (outcomeDisposition (snd co)) y"
  have z: "o_Operator ?z = ?op \<and> o_Generated ?z = o_Generated y + 1 \<and> o_Killed ?z = o_Killed y + of_bool (snd co = MutantKilled) \<and>
      o_Survived ?z = o_Survived y + of_bool (snd co = MutantSurvived) \<and> o_Discarded ?z = o_Discarded y + of_bool (snd co = MutantDiscarded)"
    using y(1) by (cases "snd co") (simp_all add: Splice.scored_row_def applyDisposition_def outcomeDisposition_def)
  have grown: "operator_count ?op v (cos @ [co]) = operator_count ?op v cos + of_bool (snd co = v)" for v by (simp add: operator_count_def)
  have bools: "of_bool (snd co = MutantDiscarded) + of_bool (snd co = MutantKilled) + of_bool (snd co = MutantSurvived) = (1::int)" by (cases "snd co") simp_all
  have old: "x \<in> set ?rows" if "x \<in> set (pre @ post)" for x using ops that by auto
  have "o_Operator x \<in> c_Operator ` fst ` set (cos @ [co]) \<and> o_Generated x > 0 \<and> o_Killed x = operator_count (o_Operator x) MutantKilled (cos @ [co]) \<and>
     o_Survived x = operator_count (o_Operator x) MutantSurvived (cos @ [co]) \<and> o_Discarded x = operator_count (o_Operator x) MutantDiscarded (cos @ [co]) \<and>
     o_Generated x = o_Discarded x + o_Killed x + o_Survived x" if "x \<in> set (fold summary_step (cos @ [co]) [])" for x
  proof -
    have "x = ?z \<or> x \<in> set (pre @ post)" using that sc by (auto simp: summary_step_def)
    then show ?thesis
    proof
      assume x: "x = ?z"
      show ?thesis using z prior nonneg bools unfolding x by (simp add: grown)
    next
      assume x: "x \<in> set (pre @ post)"
      then show ?thesis using rows [OF old [OF x]] by (simp add: other [OF x])
    qed
  qed
  then show ?case using dist by blast
qed simp

subsection \<open>The validator accepts a measurement\<close>

text \<open>What the preparation leaves of a fresh target, and what the enumeration gives: distinct, named candidates, the budgeted part
  of them.\<close>

definition fresh_skeleton :: "work \<Rightarrow> finding \<Rightarrow> bool" where
  "fresh_skeleton w sk \<longleftrightarrow> f_Kills sk = [] \<and> f_Survivors sk = [] \<and> f_Killed sk = 0 \<and> f_Mutants sk = 0 \<and> f_Discarded sk = 0 \<and>
     f_Generated sk = int (length (wo_candidates w)) \<and> f_Generated sk \<le> max_int \<and> 0 \<le> f_Budget sk \<and>
     f_Generated sk = (if f_Budget sk > 0 then min (f_Budget sk) (f_CandidateCount sk) else f_CandidateCount sk)"

definition named_candidates :: "candidate list \<Rightarrow> bool" where
  "named_candidates cs \<longleftrightarrow> distinct (map c_key cs) \<and> list_all (\<lambda>c. c_Position c \<noteq> [] \<and> c_Operator c \<noteq> []) cs"

definition killers_named :: "nat \<Rightarrow> window_scores \<Rightarrow> bool" where
  "killers_named n scores \<longleftrightarrow> list_all (\<lambda>mi. ws_outcomes scores ! mi = MutantKilled \<longrightarrow> ws_killers scores ! mi \<noteq> []) [0..<n]"

lemma keys_distinct: "distinct (map c_key cs) \<Longrightarrow> i < length cs \<Longrightarrow> j < length cs \<Longrightarrow> c_key (cs ! i) = c_key (cs ! j) \<Longrightarrow> i = j"
  by (metis length_map nth_eq_iff_index_eq nth_map)

lemma scored_as_less: "mi \<in> set (scored_as v outcomes n) \<longleftrightarrow> mi < n \<and> outcomes ! mi = v"
  by (auto simp: scored_as_def)

lemma scored_keys_distinct:
  assumes "distinct (map c_key cs)" shows "distinct (map (\<lambda>mi. c_key (cs ! mi)) (scored_as v outcomes (length cs)))"
proof -
  have "inj_on (\<lambda>mi. c_key (cs ! mi)) (set (scored_as v outcomes (length cs)))"
    using keys_distinct [OF assms] by (auto intro!: inj_onI simp: scored_as_less)
  then show ?thesis by (simp add: distinct_map) (simp add: scored_as_def)
qed

lemma survivors_of_keys: "survivors_of svs op = int (length (filter (\<lambda>k. snd k = op) (map s_key svs)))"
  by (simp add: survivors_of_def filter_map comp_def s_key_def)

lemma counted_survivors:
  "operator_count op MutantSurvived (map (\<lambda>i. (cs ! i, outcomes ! i)) [0..<length cs]) =
     int (length (filter (\<lambda>k. snd k = op) (map (\<lambda>mi. c_key (cs ! mi)) (scored_as MutantSurvived outcomes (length cs)))))"
  by (simp add: operator_count_def scored_as_def filter_map comp_def c_key_def conj_commute)

lemma summarized_rows:
  assumes "x \<in> set (summarizeOperators cs outcomes)"
  shows "o_Operator x \<in> c_Operator ` set cs" "o_Generated x > 0" "o_Killed x \<ge> 0" "o_Discarded x \<ge> 0"
    "o_Generated x = o_Discarded x + o_Killed x + o_Survived x"
    "o_Survived x = int (length (filter (\<lambda>k. snd k = o_Operator x) (map (\<lambda>mi. c_key (cs ! mi)) (scored_as MutantSurvived outcomes (length cs)))))"
proof -
  have x: "x \<in> set (fold summary_step (map (\<lambda>i. (cs ! i, outcomes ! i)) [0..<length cs]) [])" using assms by (simp add: summarizeOperators_def)
  note row = bspec [OF conjunct2 [OF summary_rows] x]
  from row obtain i where "i < length cs" "o_Operator x = c_Operator (cs ! i)" by auto
  then show "o_Operator x \<in> c_Operator ` set cs" by simp
  show "o_Generated x > 0" "o_Killed x \<ge> 0" "o_Discarded x \<ge> 0" "o_Generated x = o_Discarded x + o_Killed x + o_Survived x"
    using row by (simp_all add: operator_count_def)
  show "o_Survived x = int (length (filter (\<lambda>k. snd k = o_Operator x) (map (\<lambda>mi. c_key (cs ! mi)) (scored_as MutantSurvived outcomes (length cs)))))"
    using row counted_survivors [of "o_Operator x" cs outcomes] by simp
qed

text \<open>C7: A fresh record is well-formed as the record's decoder demands. With distinct, named candidates and a named killer for each
  kill, the assembled record passes the validator's count, kill and operator checks: its totals reconcile and stay in range, its kill
  rows are distinct, named and disjoint from its survivors, and its operator rows are sorted and add up.\<close>
theorem fresh_record_is_well_formed:
  assumes "fresh_item cg it skeleton cache = Assembled f heard cache'"
    and "fresh_skeleton (it_work it) skeleton" "named_candidates (wo_candidates (it_work it))" "killers_named (length (wo_candidates (it_work it))) (it_scores it)"
  shows "counts_wf f \<and> kills_wf f \<and> operators_wf f"
proof -
  let ?cs = "wo_candidates (it_work it)" and ?os = "ws_outcomes (it_scores it)"
  note sk = assms(2) [unfolded fresh_skeleton_def]
  have dk: "distinct (map c_key ?cs)" and nc: "\<And>c. c \<in> set ?cs \<Longrightarrow> c_Position c \<noteq> [] \<and> c_Operator c \<noteq> []"
    using assms(3) by (auto simp: named_candidates_def list_all_iff)
  obtain b where b: "(f, heard) = carried_dispositions cg it b" "f_Kills b = map (kill_row ?cs (it_scores it)) (scored_as MutantKilled ?os (length ?cs))"
    "map s_key (f_Survivors b) = map (\<lambda>mi. c_key (?cs ! mi)) (scored_as MutantSurvived ?os (length ?cs))"
    "f_Killed b = int (length (scored_as MutantKilled ?os (length ?cs)))"
    "f_Mutants b = int (length (scored_as MutantKilled ?os (length ?cs))) + int (length (scored_as MutantSurvived ?os (length ?cs)))"
    "f_Discarded b = int (length (scored_as MutantDiscarded ?os (length ?cs)))" "f_Operators b = summarizeOperators ?cs ?os"
    "f_Generated b = f_Generated skeleton" "f_CandidateCount b = f_CandidateCount skeleton" "f_Budget b = f_Budget skeleton"
    by (rule fresh_item_parts [OF assms(1)]) (use sk in simp)
  have f: "f = fst (carried_dispositions cg it b)" using b(1) by (metis fst_conv)
  have svs: "length (f_Survivors b) = length (scored_as MutantSurvived ?os (length ?cs))" using arg_cong [OF b(3), of length] by simp
  have counts: "counts_wf f"
    using sk b(4-6,8-10) svs scored_as_partition [of ?os "length ?cs"] by (auto simp: f carried_fields counts_wf_def)
  have kk: "map k_key (f_Kills b) = map (\<lambda>mi. c_key (?cs ! mi)) (scored_as MutantKilled ?os (length ?cs))"
    by (simp add: b(2) kill_row_def k_key_def c_key_def)
  have disjoint: "set (map k_key (f_Kills b)) \<inter> set (map s_key (f_Survivors b)) = {}"
    unfolding kk b(3) using keys_distinct [OF dk] by (auto simp: scored_as_less) (metis outcome.distinct(6))
  have named: "k_Position k \<noteq> [] \<and> k_Operator k \<noteq> [] \<and> k_Killer k \<noteq> []" if "k \<in> set (f_Kills b)" for k
    using that nc nth_mem assms(4) by (auto simp: b(2) kill_row_def scored_as_less killers_named_def list_all_iff)
  have kills: "kills_wf f"
    using disjoint named scored_keys_distinct [OF dk, of MutantKilled ?os, folded kk] b(2,4) by (auto simp: f carried_fields kills_wf_def)
  have rows: "operator_row_ok (f_Survivors b) x" if x: "x \<in> set (summarizeOperators ?cs ?os)" for x
  proof -
    obtain c where "c \<in> set ?cs" "o_Operator x = c_Operator c" using summarized_rows(1) [OF x] by blast
    then have "o_Operator x \<noteq> []" using nc by simp
    then show ?thesis unfolding operator_row_ok_def survivors_of_keys b(3) using summarized_rows(2-) [OF x] by auto
  qed
  have part: "sorted_wrt (<) (map o_Operator (summarizeOperators ?cs ?os))" "sum_list (map o_Generated (summarizeOperators ?cs ?os)) = int (length ?cs)"
    using summaries_partition [of ?cs ?os] by (simp_all add: Let_def)
  have operators: "operators_wf f"
    using rows part sk b(4,6,7,8) svs by (simp add: f carried_fields operators_wf_def summarize_sums)
  show ?thesis using counts kills operators by blast
qed

subsection \<open>Dispositions of a re-measure\<close>

lemma domain_held_frame: "domain_held it rec (f\<lparr>f_Attested := as, f_Withdrawn := ws\<rparr>) = domain_held it rec f"
  by (simp add: domain_held_def mutationDomainHeld_def sameAttestationPins_def OracleExecutionPolicyIssue_def timeoutPinMatchesRecord_def)

lemma contradicted_row:
  assumes "a \<in> set prior" "\<not> surviving svs (a_key a)" "a_key a \<in> k_key ` set kills"
  shows "\<exists>killer. \<lparr>con_Symbol = symbol, con_Position = a_Position a, con_Operator = a_Operator a, con_Killer = killer, con_Reason = a_Reason a\<rparr>
    \<in> set (contradictKilledDispositions symbol prior svs kills) \<and> (\<exists>k \<in> set kills. k_key k = a_key a \<and> k_Killer k = killer)"
proof -
  have "a_key a \<in> fst ` set (map (\<lambda>k. (k_key k, k_Killer k)) kills)" using assms(3) by force
  from map_last_isSome [OF this] obtain killer where killer: "map_last (map (\<lambda>k. (k_key k, k_Killer k)) kills) (a_key a) = Some killer" by blast
  have "(a_key a, killer) \<in> set (map (\<lambda>k. (k_key k, k_Killer k)) kills)" by (rule map_last_Some_in [OF killer])
  then have "\<exists>k \<in> set kills. k_key k = a_key a \<and> k_Killer k = killer" by auto
  moreover have "\<lparr>con_Symbol = symbol, con_Position = a_Position a, con_Operator = a_Operator a, con_Killer = killer, con_Reason = a_Reason a\<rparr>
    \<in> set (contradictKilledDispositions symbol prior svs kills)"
    unfolding contradictions_are_kills using assms(1,2) killer by (intro bexI [of _ a]) simp_all
  ultimately show ?thesis by blast
qed

lemma carried_answers:
  assumes carried: "carried_dispositions cg it b = (f, heard)" and prior: "cg_prior cg (it_Symbol it) = Some rec" "domain_held it rec f"
    and a: "a \<in> set (f_Attested rec)"
  shows "(\<exists>x \<in> set (f_Attested f). a_key x = a_key a \<and> a_Reason x = a_Reason a \<and> a_Site x = siteOf (f_Survivors f) (a_key a) \<and> surviving (f_Survivors f) (a_key a)) \<or>
    (\<exists>d. ToldSiteShed (f_Symbol f) d \<in> set heard \<and> sh_key d = a_key a) \<or>
    (\<exists>k \<in> set (f_Kills f). k_key k = a_key a \<and> ToldContradiction \<lparr>con_Symbol = f_Symbol f, con_Position = a_Position a, con_Operator = a_Operator a,
       con_Killer = k_Killer k, con_Reason = a_Reason a\<rparr> \<in> set heard) \<or>
    a_key a \<notin> s_key ` set (f_Survivors f) \<and> a_key a \<notin> k_key ` set (f_Kills f)"
proof -
  obtain kept siteSheds gone where parts: "carryAnchoredAttestations (f_Attested rec) (f_Survivors b) = (kept, siteSheds, gone)"
    by (cases "carryAnchoredAttestations (f_Attested rec) (f_Survivors b)") auto
  define moved where "moved x \<longleftrightarrow> a_Site x \<noteq> [] \<and> a_Site x \<noteq> siteOf (f_Survivors b) (a_key x)" for x
  have split: "gone = filter (\<lambda>x. \<not> surviving (f_Survivors b) (a_key x)) (f_Attested rec)"
    "map sh_key siteSheds = map a_key (filter (\<lambda>x. surviving (f_Survivors b) (a_key x) \<and> moved x) (f_Attested rec))"
    "kept = map (\<lambda>x. x\<lparr>a_Site := siteOf (f_Survivors b) (a_key x)\<rparr>) (filter (\<lambda>x. surviving (f_Survivors b) (a_key x) \<and> \<not> moved x) (f_Attested rec))"
    using carry_partitions [of "f_Attested rec" "f_Survivors b"] by (simp_all add: parts moved_def Let_def)
  have fields: "f_Survivors f = f_Survivors b" "f_Kills f = f_Kills b" "f_Symbol f = f_Symbol b"
    using carried_fields [of cg it b] by (simp_all add: carried)
  have held: "domain_held it rec b"
  proof (rule ccontr)
    assume no: "\<not> domain_held it rec b"
    then have "f = b" using carried prior(1) by (simp add: carried_dispositions_def)
    then show False using no prior(2) by simp
  qed
  have told: "set kept \<subseteq> set (f_Attested f)" "ToldSiteShed (f_Symbol b) ` set siteSheds \<subseteq> set heard"
    "ToldContradiction ` set (contradictKilledDispositions (f_Symbol b) gone (f_Survivors b) (f_Kills b)) \<subseteq> set heard"
    using carried prior(1) held by (auto simp: carried_dispositions_def parts Let_def)
  consider "surviving (f_Survivors b) (a_key a)" "\<not> moved a" | "surviving (f_Survivors b) (a_key a)" "moved a" | "\<not> surviving (f_Survivors b) (a_key a)" by blast
  then show ?thesis
  proof cases
    case 1
    then have "a\<lparr>a_Site := siteOf (f_Survivors b) (a_key a)\<rparr> \<in> set kept" using a by (auto simp: split(3))
    then show ?thesis using told(1) 1(1) fields by (intro disjI1 bexI [of _ "a\<lparr>a_Site := siteOf (f_Survivors b) (a_key a)\<rparr>"]) (auto simp: a_key_def)
  next
    case 2
    then have "a_key a \<in> set (map sh_key siteSheds)" using a by (auto simp: split(2))
    then obtain d where "d \<in> set siteSheds" "sh_key d = a_key a" by auto
    then show ?thesis using told(2) fields by blast
  next
    case 3
    show ?thesis
    proof (cases "a_key a \<in> k_key ` set (f_Kills b)")
      case True
      have "a \<in> set gone" using 3 a by (simp add: split(1))
      from contradicted_row [OF this 3 True, of "f_Symbol b"] obtain k where
        k: "k \<in> set (f_Kills f)" "k_key k = a_key a" "\<lparr>con_Symbol = f_Symbol b, con_Position = a_Position a, con_Operator = a_Operator a,
            con_Killer = k_Killer k, con_Reason = a_Reason a\<rparr> \<in> set (contradictKilledDispositions (f_Symbol b) gone (f_Survivors b) (f_Kills b))"
        unfolding fields by blast
      have "ToldContradiction \<lparr>con_Symbol = f_Symbol f, con_Position = a_Position a, con_Operator = a_Operator a,
            con_Killer = k_Killer k, con_Reason = a_Reason a\<rparr> \<in> set heard"
        using subsetD [OF told(3) imageI [OF k(3)]] by (simp add: fields)
      then show ?thesis using k(1,2) by (intro disjI2 disjI1 bexI [of _ k] conjI)
    next
      case False
      then show ?thesis using 3 fields by (simp add: surviving_def)
    qed
  qed
qed

text \<open>C8: A re-measure answers every disposition of the record it replaces. Where the mutation domain holds, each attested survivor of
  the prior record is attested in the new one, with its reason and at the surviving mutant's site; or its shed is reported because the
  site's content changed; or it is reported as contradicted by the killer of the new kill row; or the mutant was
  neither killed nor survived.\<close>
theorem remeasure_answers_every_disposition:
  assumes "fresh_item cg it skeleton cache = Assembled f heard cache'" and "cg_prior cg (it_Symbol it) = Some rec" "domain_held it rec f"
    and "a \<in> set (f_Attested rec)"
  shows "(\<exists>x \<in> set (f_Attested f). a_key x = a_key a \<and> a_Reason x = a_Reason a \<and> a_Site x = siteOf (f_Survivors f) (a_key a) \<and> surviving (f_Survivors f) (a_key a)) \<or>
    (\<exists>d. ToldSiteShed (f_Symbol f) d \<in> set heard \<and> sh_key d = a_key a) \<or>
    (\<exists>k \<in> set (f_Kills f). k_key k = a_key a \<and> ToldContradiction \<lparr>con_Symbol = f_Symbol f, con_Position = a_Position a, con_Operator = a_Operator a,
       con_Killer = k_Killer k, con_Reason = a_Reason a\<rparr> \<in> set heard) \<or>
    a_key a \<notin> s_key ` set (f_Survivors f) \<and> a_key a \<notin> k_key ` set (f_Kills f)"
proof -
  obtain b where "(f, heard) = carried_dispositions cg it b" by (rule fresh_item_parts [OF assms(1)])
  from carried_answers [OF this [symmetric] assms(2-)] show ?thesis .
qed

subsection \<open>What reaches the commit\<close>

lemma validate_modules_stands: "(True, Moved e) \<in> set modules \<Longrightarrow> \<exists>e'. validate_modules modules acc = Moved e'"
proof (induction modules arbitrary: acc)
  case (Cons m modules)
  obtain producer check where m: "m = (producer, check)" by (cases m)
  show ?case using Cons by (cases check) (auto simp: m)
qed simp

lemma validation_stands:
  assumes "producerValidation modules = Inr unavailable" shows "(True, Moved e) \<notin> set modules"
  using assms validate_modules_stands [of e modules Holds] by (auto simp: producerValidation_def validateProducers_def split: module_check.splits)

lemma revalidated_parts:
  assumes "revalidated cg it f cache = Inr (g, cache')"
  obtains unavailable where "producerValidation (it_modules it) = Inr unavailable" "unavailable \<noteq> [] \<longrightarrow> f_EvidenceFault g \<noteq> []"
proof -
  obtain unavailable where un: "producerValidation (it_modules it) = Inr unavailable"
    using assms by (cases "producerValidation (it_modules it)") (simp_all add: revalidated_def)
  define h where "h = (if unavailable = [] then (f, cache) else let u = stampUnverifiable unavailable f in
    if unstable cg u then bucketed cg it 0 (u, cache) else (u, cache))"
  have st: "stamped cg it [] (fst h) = Inr g"
    using assms by (cases "stamped cg it [] (fst h)") (auto simp: revalidated_def un h_def Let_def split: prod.splits if_splits sum.splits)
  have "f_EvidenceFault (fst h) \<noteq> []" if "unavailable \<noteq> []" using that by (simp add: h_def Let_def)
  then have "unavailable \<noteq> [] \<Longrightarrow> f_EvidenceFault g \<noteq> []" using stamp_keeps_fault [OF st [unfolded stamped_def]] by blast
  then show thesis using un by (intro that) auto
qed

lemma finished_fields [simp]: "f_Run (finished cg f) = cg_RunID cg" "f_EvidenceFault (finished cg f) = f_EvidenceFault f"
  by (simp_all add: finished_def)

text \<open>Whatever arm assembled it: validated, under this run's id, and faulted when the proof was unavailable.\<close>

lemma assembled_is_validated:
  assumes "assembled_item cg it st = Assembled f heard cache"
  shows "f_Run f = cg_RunID cg \<and> (\<exists>unavailable. producerValidation (it_modules it) = Inr unavailable \<and> (unavailable \<noteq> [] \<longrightarrow> f_EvidenceFault f \<noteq> []))"
proof (cases "wo_serve (it_work it)")
  case None
  show ?thesis
  proof (cases "wo_extend (it_work it)")
    case None
    then have "fresh_item cg it (rn_findings st ! it_target it) (rn_coverage st) = Assembled f heard cache"
      using assms \<open>wo_serve (it_work it) = None\<close> by (simp add: assembled_item_def)
    then obtain b unavailable where b: "(f, heard) = carried_dispositions cg it b" "producerValidation (it_modules it) = Inr unavailable"
      "f_Run b = cg_RunID cg" "unavailable \<noteq> [] \<longrightarrow> f_EvidenceFault b \<noteq> []" by (rule fresh_item_parts)
    have "f = fst (carried_dispositions cg it b)" using b(1) by (metis fst_conv)
    then show ?thesis using b(2-) by (simp add: carried_fields)
  next
    case (Some rec)
    then have "extended_item cg it rec (rn_coverage st) = Assembled f heard cache"
      using assms \<open>wo_serve (it_work it) = None\<close> by (simp add: assembled_item_def)
    then obtain e g cache' where "revalidated cg it e (rn_coverage st) = Inr (g, cache')" and
      "f_Run f = cg_RunID cg" "f_EvidenceFault f = f_EvidenceFault g"
      by (auto simp: extended_item_def evidence_outcome_def Let_def split: sum.splits prod.splits evidence_error.splits if_splits
        dest: arg_cong [of _ _ "f_EvidenceFault \<circ> fst"] intro: that)
    then show ?thesis by (metis revalidated_parts)
  qed
next
  case (Some rec)
  then have "served_item cg it rec (rn_coverage st) = Assembled f heard cache" using assms by (simp add: assembled_item_def)
  then obtain e g cache' where "revalidated cg it e (rn_coverage st) = Inr (g, cache')" and
    "f_Run f = cg_RunID cg" "f_EvidenceFault f = f_EvidenceFault g"
    by (auto simp: served_item_def evidence_outcome_def Let_def split: sum.splits prod.splits evidence_error.splits reconcile_error.splits if_splits
      dest: arg_cong [of _ _ "f_EvidenceFault \<circ> fst"] intro: that)
  then show ?thesis by (metis revalidated_parts)
qed

lemma annotated_fields [simp]:
  "f_Run (annotateCrossSelection others f) = f_Run f" "f_EvidenceFault (annotateCrossSelection others f) = f_EvidenceFault f"
  "f_Selection (annotateCrossSelection others f) = f_Selection f"
  by (simp_all add: annotateCrossSelection_def Let_def nth_Annotate annotated_at_def)

text \<open>One item: nothing is persisted, or one validated record.\<close>

lemma item_persists:
  assumes "aggregate_item cg it st = (r, st')"
  shows "rn_persisted st' = rn_persisted st \<or>
    (\<exists>f unavailable. rn_persisted st' = rn_persisted st @ [f] \<and> \<not> it_discard it \<and> it_target it \<in> set (rn_committed st') \<and>
       f_Selection f = cg_selKey cg \<and> f_Run f = cg_RunID cg \<and> producerValidation (it_modules it) = Inr unavailable \<and>
       (unavailable \<noteq> [] \<longrightarrow> f_EvidenceFault f \<noteq> []))"
proof (cases "\<not> it_discard it \<and> (\<exists>f heard cache. assembled_item cg it st = Assembled f heard cache)")
  case True
  then obtain f heard cache where f: "assembled_item cg it st = Assembled f heard cache" and nd: "\<not> it_discard it" by blast
  obtain unavailable where v: "f_Run f = cg_RunID cg" "producerValidation (it_modules it) = Inr unavailable" "unavailable \<noteq> [] \<longrightarrow> f_EvidenceFault f \<noteq> []"
    using assembled_is_validated [OF f] by blast
  show ?thesis using assms nd v by (auto simp: aggregate_item_def f commitAndAttribute_def Let_def selected_def split: option.splits)
next
  case False
  then show ?thesis using assms by (auto simp: aggregate_item_def refuseTarget_def split: if_splits assembly.splits)
qed

text \<open>C9: Nothing is committed over a moved tree. What aggregating one item persists is nothing, or one record: its item was not
  discarded by a drain, no producing module of its views has moved, and a proof the analysis could not re-establish leaves an
  evidence fault on the record, under this run's id and selection.\<close>
theorem committed_record_was_validated:
  "rn_persisted (snd (aggregate_item cg it st)) = rn_persisted st \<or>
    (\<exists>f. rn_persisted (snd (aggregate_item cg it st)) = rn_persisted st @ [f] \<and> \<not> it_discard it \<and>
       (\<nexists>e. (True, Moved e) \<in> set (it_modules it)) \<and> (f_EvidenceFault f = [] \<longrightarrow> producerValidation (it_modules it) = Inr []) \<and>
       f_Run f = cg_RunID cg \<and> f_Selection f = cg_selKey cg)"
proof -
  obtain r st' where a: "aggregate_item cg it st = (r, st')" by fastforce
  from item_persists [OF a] show ?thesis using validation_stands by (auto simp: a)
qed

subsection \<open>A window\<close>

definition dispositioned :: "item \<Rightarrow> run_state \<Rightarrow> bool" where
  "dispositioned it st \<longleftrightarrow> it_discard it \<or> it_target it \<in> set (rn_committed st) \<or> it_Symbol it \<in> fst ` set (rn_drifted st)"

lemma item_grows:
  assumes "aggregate_item cg it st = (r, st')"
  shows "(\<exists>cs. rn_committed st' = rn_committed st @ cs) \<and> (\<exists>ds. rn_drifted st' = rn_drifted st @ ds) \<and>
    (r = None \<longrightarrow> rn_done st' = rn_done st @ [it_target it] \<and> dispositioned it st')"
  using assms by (auto simp: aggregate_item_def refuseTarget_def commitAndAttribute_def dispositioned_def Let_def split: if_splits assembly.splits option.splits)

lemma dispositioned_grows:
  "dispositioned it st \<Longrightarrow> rn_committed st' = rn_committed st @ cs \<Longrightarrow> rn_drifted st' = rn_drifted st @ ds \<Longrightarrow> dispositioned it st'"
  by (auto simp: dispositioned_def)

lemma window_grows:
  assumes "aggregateWindow cg its st = (r, st')"
  shows "(\<exists>cs. rn_committed st' = rn_committed st @ cs) \<and> (\<exists>ds. rn_drifted st' = rn_drifted st @ ds)"
  using assms
proof (induction its arbitrary: st)
  case (Cons it its)
  obtain r1 st1 where one: "aggregate_item cg it st = (r1, st1)" by fastforce
  show ?case
  proof (cases r1)
    case None
    then have "aggregateWindow cg its st1 = (r, st')" using Cons.prems by (simp add: one)
    from Cons.IH [OF this] item_grows [OF one] show ?thesis by (metis append.assoc)
  next
    case (Some a)
    then show ?thesis using Cons.prems item_grows [OF one] by (simp add: one)
  qed
qed simp

lemma window_dispositions:
  assumes "aggregateWindow cg its st = (None, st')"
  shows "rn_done st' = rn_done st @ map it_target its \<and> (\<forall>it \<in> set its. dispositioned it st')"
  using assms
proof (induction its arbitrary: st)
  case (Cons it its)
  obtain r1 st1 where one: "aggregate_item cg it st = (r1, st1)" by fastforce
  then have none: "r1 = None" and rest: "aggregateWindow cg its st1 = (None, st')" using Cons.prems by (auto split: option.splits)
  have "dispositioned it st1" "rn_done st1 = rn_done st @ [it_target it]" using item_grows [OF one] none by auto
  moreover have "dispositioned it st'" using calculation(1) window_grows [OF rest] dispositioned_grows by blast
  ultimately show ?case using Cons.IH [OF rest] by simp
qed simp

text \<open>A window that is aggregated leaves no target open. When no item aborts the run, each item's target is done exactly once,
  in the window's order, and was committed, or is named in the drift, or was discarded whole by the drain.\<close>
theorem window_leaves_no_target_open:
  assumes "aggregateWindow cg its st = (None, st')"
  shows "rn_done st' = rn_done st @ map it_target its \<and>
    (\<forall>it \<in> set its. it_discard it \<or> it_target it \<in> set (rn_committed st') \<or> it_Symbol it \<in> fst ` set (rn_drifted st'))"
  using window_dispositions [OF assms] by (simp add: dispositioned_def)

text \<open>C11: An abort takes nothing back. When an item aborts the run, the items before it are aggregated as if the window ended
  there, and what they committed stays committed.\<close>
theorem abort_keeps_the_commits:
  assumes "aggregateWindow cg its st = (Some a, st')"
  shows "\<exists>k before. k < length its \<and> aggregateWindow cg (take k its) st = (None, before) \<and> aggregate_item cg (its ! k) before = (Some a, st') \<and>
    (\<exists>more. rn_committed st' = rn_committed before @ more) \<and> take (length (rn_persisted before)) (rn_persisted st') = rn_persisted before"
proof -
  have "\<exists>k before. k < length its \<and> aggregateWindow cg (take k its) st = (None, before) \<and> aggregate_item cg (its ! k) before = (Some a, st')"
    using assms
  proof (induction its arbitrary: st)
    case (Cons it its)
    obtain r1 st1 where one: "aggregate_item cg it st = (r1, st1)" by fastforce
    show ?case
    proof (cases r1)
      case None
      then have "aggregateWindow cg its st1 = (Some a, st')" using Cons.prems by (simp add: one)
      from Cons.IH [OF this] obtain k before where "k < length its" "aggregateWindow cg (take k its) st1 = (None, before)" "aggregate_item cg (its ! k) before = (Some a, st')" by blast
      then show ?thesis by (intro exI [of _ "Suc k"] exI [of _ before]) (simp add: one None)
    next
      case (Some b)
      then show ?thesis using Cons.prems one by (intro exI [of _ 0] exI [of _ st]) simp
    qed
  qed simp
  then obtain k before where k: "k < length its" "aggregateWindow cg (take k its) st = (None, before)" "aggregate_item cg (its ! k) before = (Some a, st')" by blast
  have "take (length (rn_persisted before)) (rn_persisted st') = rn_persisted before" using item_persists [OF k(3)] by auto
  then show ?thesis using k item_grows [OF k(3)] by blast
qed

subsection \<open>Examples\<close>

definition sample_prior :: finding where
  "sample_prior = zero_finding\<lparr>f_Attested := [\<lparr>a_Position = ''2'', a_Operator = ''neg'', a_Reason = ''equivalent'', a_Site = ''s''\<rparr>]\<rparr>"

definition sample_campaign :: campaign where
  "sample_campaign = \<lparr>cg_ops = plain_runtime, cg_treeDir = ''/r'', cg_durations = some_durations, cg_clauses = plain_ops, cg_Exemptions = [],
     cg_RunID = ''run1'', cg_Budget = 0, cg_memoryPin = 0, cg_groupBudget = None, cg_OracleTimeout = 0, cg_deriveBudgets = False,
     cg_world = Provenance.sample_world [], cg_manifests = sample_manifests, cg_repository = sample_repository False,
     cg_coverage = \<lparr>cs_folded = (\<lambda>_ _. None), cs_probe = (\<lambda>_ _. None)\<rparr>, cg_inputPaths = (\<lambda>_. None), cg_selKey = [], cg_crossSelectionPrior = [],
     cg_prior = (\<lambda>_. Some sample_prior), cg_residue = [],
     cg_Commit = (\<lambda>f. if f_Symbol f = ''broken'' then Some ''disk full'' else None), cg_Guidance = None\<rparr>"

definition sample_item :: "nat \<Rightarrow> string \<Rightarrow> item" where
  "sample_item i symbol = \<lparr>it_target = i, it_Symbol = symbol, it_Labels = [],
     it_work = Execution.sample_work\<lparr>wo_candidates := [cand ''1'' ''neg'', cand ''2'' ''neg'', cand ''3'' ''add'']\<rparr>, it_modules = [(True, Holds)],
     it_targetView = sample_view, it_oracleViews = [], it_shapedFiles = [], it_preserved = (\<lambda>_. True), it_currentLedger = no_ledger, it_coverPkg = ''p'',
     it_scores = some_scores, it_observations = [], it_incompletes = [[], [], []], it_discard = False\<rparr>"

definition sample_run :: "string list \<Rightarrow> run_state" where
  "sample_run symbols = \<lparr>rn_findings = map (\<lambda>s. zero_finding\<lparr>f_Symbol := s\<rparr>) symbols, rn_committed = [], rn_drifted = [], rn_done = [],
     rn_persisted = [], rn_coverage = Map.empty, rn_told = []\<rparr>"

abbreviation sample_fresh_item :: assembly where
  "sample_fresh_item \<equiv> fresh_item sample_campaign (sample_item 0 ''p.F'') zero_finding Map.empty"

lemma sample_assembles:
  "case sample_fresh_item of Assembled f heard cache \<Rightarrow> length (f_Kills f) = 1 \<and> domain_held (sample_item 0 ''p.F'') sample_prior f | _ \<Rightarrow> False"
  by code_simp

lemma sample_budgeted:
  "case fresh_item sample_campaign (sample_item 0 ''p.F'') (zero_finding\<lparr>f_Generated := 3, f_CandidateCount := 5, f_Budget := 3\<rparr>) Map.empty of
     Assembled f heard cache \<Rightarrow> True | _ \<Rightarrow> False"
  by code_simp

lemma sample_assembled:
  obtains f heard cache where "sample_fresh_item = Assembled f heard cache" "length (f_Kills f) = 1" "domain_held (sample_item 0 ''p.F'') sample_prior f"
  using sample_assembles by (cases sample_fresh_item) auto

lemma sample_windows:
  "fst (aggregateWindow sample_campaign [sample_item 0 ''p.F'', sample_item 1 ''p.G''] (sample_run [''p.F'', ''p.G''])) = None"
  "case aggregateWindow sample_campaign [sample_item 0 ''p.F'', sample_item 1 ''broken''] (sample_run [''p.F'', ''broken'']) of
     (Some (CommitAbort e), st') \<Rightarrow> e = ''disk full'' \<and> rn_committed st' = [0] | _ \<Rightarrow> False"
  by code_simp+

lemma sample_item_commits:
  "length (rn_persisted (snd (aggregate_item sample_campaign (sample_item 0 ''p.F'') (sample_run [''p.F''])))) = 1"
  by code_simp

theorem fresh_record_accounts_witness:
  "\<exists>f heard cache. sample_fresh_item = Assembled f heard cache \<and> f_Killed f = 1 \<and> f_Mutants f + f_Discarded f = 3"
proof -
  obtain f heard cache where f: "sample_fresh_item = Assembled f heard cache" "length (f_Kills f) = 1" by (rule sample_assembled)
  have "length (wo_candidates (it_work (sample_item 0 ''p.F''))) = 3" by (simp add: sample_item_def)
  then show ?thesis using fresh_record_accounts [OF f(1)] f by (auto simp: zero_finding_def)
qed

theorem fresh_record_is_well_formed_witness:
  "\<exists>f heard cache. fresh_item sample_campaign (sample_item 0 ''p.F'') (zero_finding\<lparr>f_Generated := 3, f_CandidateCount := 5, f_Budget := 3\<rparr>) Map.empty
     = Assembled f heard cache \<and> operators_wf f"
proof -
  obtain f heard cache where f: "fresh_item sample_campaign (sample_item 0 ''p.F'') (zero_finding\<lparr>f_Generated := 3, f_CandidateCount := 5, f_Budget := 3\<rparr>) Map.empty
      = Assembled f heard cache"
    using sample_budgeted by (cases "fresh_item sample_campaign (sample_item 0 ''p.F'') (zero_finding\<lparr>f_Generated := 3, f_CandidateCount := 5, f_Budget := 3\<rparr>) Map.empty") auto
  have sk: "fresh_skeleton (it_work (sample_item 0 ''p.F'')) (zero_finding\<lparr>f_Generated := 3, f_CandidateCount := 5, f_Budget := 3\<rparr>)"
    "named_candidates (wo_candidates (it_work (sample_item 0 ''p.F'')))"
    "killers_named (length (wo_candidates (it_work (sample_item 0 ''p.F'')))) (it_scores (sample_item 0 ''p.F''))"
    by (simp_all add: fresh_skeleton_def named_candidates_def killers_named_def sample_item_def zero_finding_def max_int_def c_key_def cand_def some_scores_def upt_rec)
  show ?thesis using fresh_record_is_well_formed [OF f sk] f by blast
qed

theorem remeasure_answers_every_disposition_witness:
  "\<exists>f heard cache. sample_fresh_item = Assembled f heard cache \<and>
    ((\<exists>x \<in> set (f_Attested f). a_Reason x = ''equivalent'') \<or> heard \<noteq> [] \<or> (''2'', ''neg'') \<notin> s_key ` set (f_Survivors f))"
proof -
  obtain f heard cache where f: "sample_fresh_item = Assembled f heard cache" "domain_held (sample_item 0 ''p.F'') sample_prior f" by (rule sample_assembled)
  have prior: "cg_prior sample_campaign (it_Symbol (sample_item 0 ''p.F'')) = Some sample_prior" by (simp add: sample_campaign_def sample_prior_def)
  have a: "\<lparr>a_Position = ''2'', a_Operator = ''neg'', a_Reason = ''equivalent'', a_Site = ''s''\<rparr> \<in> set (f_Attested sample_prior)" by (simp add: sample_prior_def)
  from remeasure_answers_every_disposition [OF f(1) prior f(2) a] show ?thesis using f(1) by (auto simp: a_key_def)
qed

theorem committed_record_was_validated_witness:
  "\<exists>f. rn_persisted (snd (aggregate_item sample_campaign (sample_item 0 ''p.F'') (sample_run [''p.F'']))) = [f] \<and> f_Run f = ''run1''"
proof -
  have none: "rn_persisted (sample_run [''p.F'']) = []" by (simp add: sample_run_def)
  have id: "cg_RunID sample_campaign = ''run1''" by (simp add: sample_campaign_def)
  from committed_record_was_validated [of sample_campaign "sample_item 0 ''p.F''" "sample_run [''p.F'']"] sample_item_commits
  show ?thesis unfolding none id by auto
qed

theorem window_leaves_no_target_open_witness:
  "\<exists>st'. aggregateWindow sample_campaign [sample_item 0 ''p.F'', sample_item 1 ''p.G''] (sample_run [''p.F'', ''p.G'']) = (None, st') \<and> rn_done st' = [0, 1]"
proof -
  obtain st' where w: "aggregateWindow sample_campaign [sample_item 0 ''p.F'', sample_item 1 ''p.G''] (sample_run [''p.F'', ''p.G'']) = (None, st')"
    using sample_windows(1) by (metis prod.collapse)
  from window_leaves_no_target_open [OF w] show ?thesis using w by (auto simp: sample_run_def sample_item_def)
qed

theorem abort_keeps_the_commits_witness:
  "\<exists>st' k before. aggregateWindow sample_campaign [sample_item 0 ''p.F'', sample_item 1 ''broken''] (sample_run [''p.F'', ''broken'']) =
      (Some (CommitAbort ''disk full''), st') \<and> k < 2 \<and>
    aggregateWindow sample_campaign (take k [sample_item 0 ''p.F'', sample_item 1 ''broken'']) (sample_run [''p.F'', ''broken'']) = (None, before)"
proof -
  obtain r st' where p: "aggregateWindow sample_campaign [sample_item 0 ''p.F'', sample_item 1 ''broken''] (sample_run [''p.F'', ''broken'']) = (r, st')"
    by fastforce
  have w: "aggregateWindow sample_campaign [sample_item 0 ''p.F'', sample_item 1 ''broken''] (sample_run [''p.F'', ''broken'']) =
      (Some (CommitAbort ''disk full''), st')"
    using sample_windows(2) unfolding p by (auto split: option.splits abort.splits)
  from abort_keeps_the_commits [OF w] show ?thesis using w by (auto simp: numeral_2_eq_2)
qed

end
