(* ===== verification/Reports.thy ===== *)
theory Reports
  imports Inspection Ledger Buckets
begin

text \<open>
  What a run and an inspection report (\<open>run.go\<close>, \<open>inspection.go\<close>, \<open>delta.go\<close>, \<open>banked.go\<close>, \<open>grammar.go\<close>):
  the posture of each record and its capped roster, the run's totals, the cut of open survivors by a changed
  ref, the walk over a document both faces render, the tallies of a run and the texts of its events.

  The context's cancellation inside the cut is left out; Go's durations arrive as text. A record's
  layer is \<open>Layer\<close> of the portable line under its environment.
\<close>

subsection \<open>Posture\<close>

record posture_reason =
  pr_Channel :: string
  pr_Reason :: string

record record_posture =
  po_Symbol :: string
  po_Measurement :: string
  po_Reuse :: "finding_state option"
  po_Reasons :: "posture_reason list"
  po_Analysis :: string

definition AnalysisRemeasure :: string where "AnalysisRemeasure = ''re-measure''"
definition AnalysisReexecute :: string where "AnalysisReexecute = ''the next run re-executes the affected evidence''"
definition AnalysisSource :: string where "AnalysisSource = ''no re-judgment lifts it '' @ em_dash @ '' a source change, a vouch, or a discharge does''"
definition AnalysisJudge :: string where "AnalysisJudge = ''re-judge once the tree loads''"

definition reason_on :: "string \<Rightarrow> string \<Rightarrow> posture_reason" where
  "reason_on channel reason = \<lparr>pr_Channel = channel, pr_Reason = reason\<rparr>"

definition judged_posture :: "record_posture \<Rightarrow> inspection \<Rightarrow> record_posture" where
  "judged_posture p insp =
     (if in_State insp = FindingCurrent then p\<lparr>po_Reuse := Some FindingCurrent\<rparr>
      else
        let channel = (if in_Channel insp = [] then PostureFreshness else in_Channel insp) in
        p\<lparr>po_Reuse := Some (in_State insp),
          po_Reasons := po_Reasons p @ [reason_on channel (in_Reason insp)] @
            (if channel \<noteq> PostureCandidateEvidence \<and> in_CandidateEvidence insp \<noteq> []
             then [reason_on PostureCandidateEvidence (candidateEvidenceReason (in_CandidateEvidence insp))] else []),
          po_Analysis :=
            (if in_State insp = FindingStale \<or> in_State insp = FindingDetached then AnalysisRemeasure
             else if channel = PostureCandidateEvidence \<or> channel = PostureRuntimeInputs then AnalysisReexecute
             else AnalysisSource)\<rparr>)"

definition posture :: "finding \<Rightarrow> inspection \<Rightarrow> string option \<Rightarrow> record_posture" where
  "posture f insp judgeErr =
     (let p = \<lparr>po_Symbol = f_Symbol f, po_Measurement = (if f_Cached f then ''cached'' else ''measured''), po_Reuse = None,
            po_Reasons = [], po_Analysis = []\<rparr>;
          p = (case judgeErr of
              Some e \<Rightarrow> p\<lparr>po_Reuse := Some FindingUnverifiable,
                po_Reasons := [reason_on PostureFreshness (''judgment unavailable: '' @ e)], po_Analysis := AnalysisJudge\<rparr>
            | None \<Rightarrow> judged_posture p insp);
          proof_reason = fp_ProofReason (e_Fingerprint (f_TargetEvidence f)) in
      if po_Reuse p \<noteq> Some FindingCurrent \<and> \<not> fp_Observable (e_Fingerprint (f_TargetEvidence f)) \<and> proof_reason \<noteq> [] \<and>
         proof_reason \<noteq> trim_prefix (in_Reason insp) ''target: ''
      then p\<lparr>po_Reasons := po_Reasons p @ [reason_on PostureStoredObservation proof_reason]\<rparr>
      else p)"

definition RecordedPosture :: "finding \<Rightarrow> inspection \<Rightarrow> string option \<Rightarrow> record_posture" where
  "RecordedPosture f insp judgeErr = (posture f insp judgeErr)\<lparr>po_Measurement := ''recorded''\<rparr>"

definition posture_line :: "record_posture \<Rightarrow> string" where
  "posture_line p =
     (if po_Measurement p = ''skipped'' then ''skipped''
      else join ''; '' ([case po_Reuse p of None \<Rightarrow> [] | Some st \<Rightarrow> state_text st] @
        map (\<lambda>r. pr_Channel r @ '': '' @ pr_Reason r) (po_Reasons p) @
        (if po_Analysis p \<noteq> [] then [''analysis: '' @ po_Analysis p] else [])))"

subsection \<open>Totals\<close>

record run_summary =
  su_Targets :: nat
  su_Measured :: nat
  su_Cached :: nat
  su_Skipped :: nat
  su_Generated :: int
  su_Discarded :: int
  su_Killed :: int
  su_Survived :: int
  su_Attested :: nat
  su_Open :: nat
  su_DarkPackages :: "string list"
  su_Selection :: string
  su_Unreached :: "string list"
  su_Reusable :: nat
  su_NotReusable :: "record_posture list"
  su_OmittedNotReusable :: nat

definition PostureCap :: nat where "PostureCap = 20"

definition add_posture :: "record_posture \<Rightarrow> run_summary \<Rightarrow> run_summary" where
  "add_posture p s =
     (if po_Measurement p = ''skipped'' then s
      else if po_Reuse p = Some FindingCurrent then s\<lparr>su_Reusable := su_Reusable s + 1\<rparr>
      else if length (su_NotReusable s) < PostureCap then s\<lparr>su_NotReusable := su_NotReusable s @ [p]\<rparr>
      else s\<lparr>su_OmittedNotReusable := su_OmittedNotReusable s + 1\<rparr>)"

definition AddPostures :: "record_posture list \<Rightarrow> run_summary \<Rightarrow> run_summary" where
  "AddPostures postures s = fold add_posture (sort_key po_Symbol postures) s"

definition count_finding :: "finding \<Rightarrow> run_summary \<Rightarrow> run_summary" where
  "count_finding f s =
     (let s = (if f_Skipped f \<noteq> [] then s\<lparr>su_Skipped := su_Skipped s + 1\<rparr>
          else if f_Cached f then s\<lparr>su_Cached := su_Cached s + 1\<rparr>
          else s\<lparr>su_Measured := su_Measured s + 1\<rparr>) in
      s\<lparr>su_Generated := su_Generated s + f_Generated f, su_Discarded := su_Discarded s + f_Discarded f,
        su_Killed := su_Killed s + f_Killed f, su_Survived := su_Survived s + (f_Mutants f - f_Killed f),
        su_Attested := su_Attested s + length (f_Attested f), su_Open := su_Open s + length (Open f)\<rparr>)"

definition empty_summary :: "finding list \<Rightarrow> selection \<Rightarrow> run_summary" where
  "empty_summary findings sel = \<lparr>su_Targets = length findings, su_Measured = 0, su_Cached = 0, su_Skipped = 0, su_Generated = 0,
     su_Discarded = 0, su_Killed = 0, su_Survived = 0, su_Attested = 0, su_Open = 0, su_DarkPackages = [], su_Selection = SelectionKey sel,
     su_Unreached = (case CoverageBoundOf findings sel [] of None \<Rightarrow> [] | Some b \<Rightarrow> cov_Unreached b), su_Reusable = 0, su_NotReusable = [],
     su_OmittedNotReusable = 0\<rparr>"

definition SummarizeRun :: "finding list \<Rightarrow> selection \<Rightarrow> (string \<Rightarrow> string) \<Rightarrow> run_summary" where
  "SummarizeRun findings sel packageOf =
     (fold count_finding findings (empty_summary findings sel))\<lparr>su_DarkPackages :=
        map ps_Package (filter (\<lambda>r. Dark r \<and> ps_Targets r > 1) (SkippedPackageRadius findings packageOf))\<rparr>"

subsection \<open>The delta cut\<close>

record line_range =
  lr_From :: int
  lr_To :: int

definition Contains :: "line_range \<Rightarrow> int \<Rightarrow> bool" where
  "Contains r line \<longleftrightarrow> lr_From r \<le> line \<and> line < lr_To r"

record delta_cut =
  dc_Ref :: string
  dc_Added :: "(string \<times> line_range list) list"
  dc_Changed :: "string list"

definition OnDelta :: "delta_cut \<Rightarrow> string \<Rightarrow> int \<Rightarrow> bool" where
  "OnDelta dcut path line = list_ex (\<lambda>r. Contains r line) (get_or [] (map_of (dc_Added dcut) path))"

definition changed_cut :: "string \<Rightarrow> (string \<times> line_range list) list \<Rightarrow> target list \<Rightarrow> delta_cut" where
  "changed_cut ref added targets = \<lparr>dc_Ref = ref, dc_Added = added, dc_Changed = map t_Symbol targets\<rparr>"

function through_ancestor :: "world \<Rightarrow> string \<Rightarrow> string \<Rightarrow> string option" where
  "through_ancestor wd dir rest =
     (case wd_resolve wd dir of
        Some resolved \<Rightarrow> Some (if rest = [] then resolved else path_join resolved rest)
      | None \<Rightarrow>
          let parent = path_dir dir in
          if parent = dir then None else through_ancestor wd parent (path_join (path_base dir) rest))"
  by pat_completeness auto
termination by (relation "measure (\<lambda>(_, d, _). dir_rank d)") (auto simp: parent_rank)

declare through_ancestor.simps [simp del]

definition resolveThroughAncestor :: "world \<Rightarrow> string \<Rightarrow> string option" where
  "resolveThroughAncestor wd p = through_ancestor wd p []"

definition treeRelative :: "world \<Rightarrow> string \<Rightarrow> string \<Rightarrow> string option" where
  "treeRelative wd treeDir p =
     (let bases = treeDir # (case wd_resolve wd treeDir of None \<Rightarrow> [] | Some r \<Rightarrow> if r \<noteq> treeDir then [r] else []);
          forms = p # (case resolveThroughAncestor wd p of None \<Rightarrow> [] | Some r \<Rightarrow> if r \<noteq> p then [r] else []);
          rels = List.map_filter (\<lambda>(b, f). path_rel b f) (List.product bases forms) in
      find (\<lambda>rel. rel \<noteq> ''..'' \<and> \<not> has_prefix rel ''../'') rels)"

record delta_survivors =
  ds_OnDelta :: "survivor list"
  ds_Remainder :: "survivor list"
  ds_placed :: "nat list"

definition cut_survivor :: "(string \<Rightarrow> string option) \<Rightarrow> delta_cut \<Rightarrow> string \<Rightarrow> nat \<times> survivor \<Rightarrow> delta_survivors \<Rightarrow> delta_survivors" where
  "cut_survivor relative dcut pkgDir is ds =
     (case splitSurvivorPosition (s_Position (snd is)) of
        None \<Rightarrow> ds\<lparr>ds_Remainder := ds_Remainder ds @ [snd is]\<rparr>
      | Some (file_name, line, _) \<Rightarrow>
          (case relative (path_join pkgDir file_name) of
             None \<Rightarrow> ds\<lparr>ds_Remainder := ds_Remainder ds @ [snd is]\<rparr>
           | Some rel \<Rightarrow>
               if OnDelta dcut rel line then ds\<lparr>ds_OnDelta := ds_OnDelta ds @ [snd is], ds_placed := ds_placed ds @ [fst is]\<rparr>
               else ds\<lparr>ds_Remainder := ds_Remainder ds @ [snd is]\<rparr>))"

text \<open>\<open>bodyHash\<close> and \<open>packageDir\<close> are the loaded tree's, \<open>None\<close> where it has no answer.\<close>

definition CutSurvivors :: "world \<Rightarrow> string \<Rightarrow> (string \<Rightarrow> string option) \<Rightarrow> (string \<Rightarrow> string option) \<Rightarrow> finding \<Rightarrow> delta_cut \<Rightarrow> delta_survivors" where
  "CutSurvivors wd treeDir bodyHash packageDir f dcut =
     (let open_rows = Open f; whole = \<lparr>ds_OnDelta = [], ds_Remainder = open_rows, ds_placed = []\<rparr> in
      if open_rows = [] \<or> dc_Added dcut = [] \<or> f_Symbol f \<notin> set (dc_Changed dcut) then whole
      else if bodyHash (f_Symbol f) \<noteq> Some (f_BodyHash f) then whole
      else case packageDir (f_Symbol f) of
          None \<Rightarrow> whole
        | Some pkgDir \<Rightarrow>
            fold (cut_survivor (treeRelative wd treeDir) dcut pkgDir) (List.enumerate 0 open_rows)
              \<lparr>ds_OnDelta = [], ds_Remainder = [], ds_placed = []\<rparr>)"

subsection \<open>The inspection walk\<close>

definition FilterRecords :: "finding list \<Rightarrow> record_filter \<Rightarrow> finding list" where
  "FilterRecords all r = filter (Admits r) all"

record inspected_record =
  ir_Finding :: finding
  ir_Inspection :: inspection
  ir_Layer :: layer
  ir_LayerReason :: string
  ir_Delta :: "delta_survivors option"

record inspection_result =
  ix_Rows :: "inspected_record list"
  ix_Repo :: nat
  ix_Local :: nat

definition row_for :: "line_env \<Rightarrow> (finding \<Rightarrow> delta_survivors) option \<Rightarrow> finding \<times> inspection \<Rightarrow> inspected_record" where
  "row_for env dcut fi =
     \<lparr>ir_Finding = fst fi, ir_Inspection = snd fi, ir_Layer = fst (Layer env (fst fi)), ir_LayerReason = snd (Layer env (fst fi)),
      ir_Delta = (case dcut of None \<Rightarrow> None | Some split_open \<Rightarrow> Some (split_open (fst fi)))\<rparr>"

definition InspectDocument :: "line_env \<Rightarrow> (finding list \<Rightarrow> string + inspection list) option \<Rightarrow> string \<Rightarrow> (finding \<Rightarrow> delta_survivors) option \<Rightarrow>
    finding list \<Rightarrow> string + inspection_result" where
  "InspectDocument env judge state dcut matched =
     (case (case judge of None \<Rightarrow> Inr (map RecordedInspection matched)
            | Some pass \<Rightarrow> if matched = [] then Inr (map RecordedInspection matched) else pass matched) of
        Inl e \<Rightarrow> Inl e
      | Inr inspections \<Rightarrow>
          let rows = map (row_for env dcut) (filter (\<lambda>fi. state = [] \<or> state_text (in_State (snd fi)) = state) (zip matched inspections)) in
          Inr \<lparr>ix_Rows = sort_key (\<lambda>r. (f_Symbol (ir_Finding r), f_Selection (ir_Finding r))) rows,
               ix_Repo = length (filter (\<lambda>r. ir_Layer r = LayerRepo) rows),
               ix_Local = length (filter (\<lambda>r. ir_Layer r \<noteq> LayerRepo) rows)\<rparr>)"

definition Given :: "record_filter \<Rightarrow> string" where
  "Given r = join ''/'' ((if rf_Label r \<noteq> [] then [''label''] else []) @ (if rf_Symbol r \<noteq> [] then [''symbol''] else []) @
     (if rf_Run r \<noteq> [] then [''run''] else []) @ (if rf_HasSelection r \<or> rf_Selection r \<noteq> [] then [''selection''] else []))"

definition NoRecordsNote :: "string \<Rightarrow> nat \<Rightarrow> nat \<Rightarrow> record_filter \<Rightarrow> string \<Rightarrow> string" where
  "NoRecordsNote document_path n_recorded n_matched r state =
     (if n_recorded = 0 then ''no findings recorded at '' @ document_path @ '' - run measures the tree first''
      else if n_matched = 0 then
        (let given = Given r; one = \<not> str_contains given ''/'' in
         ''the '' @ given @ '' '' @ (if one then ''filter'' else ''filters'') @ '' matched none of '' @ nat_dec n_recorded @
         '' recorded finding(s); drop '' @ (if one then ''it'' else ''them'') @ '' to list the document'')
      else if state \<noteq> [] then
        ''state='' @ state @ '' matched none of the '' @ nat_dec n_matched @ '' finding(s) the other filters kept; drop it to list them''
      else [])"


subsection \<open>The texts of a run's events\<close>

record preparation_event =
  pe_Stage :: string
  pe_Symbol :: string
  pe_Package :: string
  pe_OracleBudget :: string
  pe_Banked :: bool
  pe_Subjects :: nat
  pe_Packages :: nat

definition pricedPass :: "string \<Rightarrow> string list \<Rightarrow> (string \<Rightarrow> string) \<Rightarrow> preparation_event" where
  "pricedPass stage symbols packageOf = \<lparr>pe_Stage = stage, pe_Symbol = [], pe_Package = [], pe_OracleBudget = [], pe_Banked = False,
     pe_Subjects = card (set symbols), pe_Packages = card (packageOf ` set symbols)\<rparr>"

definition preparation_text :: "preparation_event \<Rightarrow> string" where
  "preparation_text e = join '' '' ([pe_Stage e] @ filter (\<lambda>part. part \<noteq> []) [pe_Symbol e, pe_Package e, pe_OracleBudget e] @
     (if pe_Banked e then [''(banked)''] else []) @
     (if pe_Subjects e > 0 then [countNoun (pe_Subjects e) ''subject'' @ '' over '' @ countNoun (pe_Packages e) ''package''] else []))"

record run_decision =
  rd_Symbol :: string
  rd_Action :: string
  rd_Reason :: string
  rd_Candidates :: int

definition decision_text :: "run_decision \<Rightarrow> string \<times> string" where
  "decision_text d = (rd_Action d, rd_Symbol d @ (if rd_Action d = ''measure'' then ''  '' @ itoa (rd_Candidates d) @ '' candidates'' else []) @
     (if rd_Reason d \<noteq> [] then '' ('' @ rd_Reason d @ '')'' else []))"

record execution_event =
  ee_Phase :: string
  ee_TargetIndex :: int
  ee_TargetCount :: int
  ee_Symbol :: string
  ee_CandidatesDone :: int
  ee_CandidatesTotal :: int
  ee_ConfirmationsDone :: int
  ee_ConfirmationsTotal :: int
  ee_FlipPosition :: string
  ee_FlipKiller :: string
  ee_AuditedNarrowed :: int
  ee_AuditDisagreed :: int
  ee_EstimateProjected :: string
  ee_EstimateAudit :: string
  ee_EstimateNarrowed :: int
  ee_EstimateFull :: int
  ee_EstimateUnknown :: int
  ee_EstimateNoSignal :: "string list"
  ee_ProbesDone :: int
  ee_ProbesTotal :: int
  ee_ProbesUnpriced :: int

definition of_total :: "int \<Rightarrow> int \<Rightarrow> string" where
  "of_total n n_total = itoa n @ ''/'' @ itoa n_total"

definition target_text :: "execution_event \<Rightarrow> string \<Rightarrow> string" where
  "target_text e selectionNote = ''target '' @ of_total (ee_TargetIndex e) (ee_TargetCount e) @ '' '' @ ee_Symbol e @ selectionNote"

definition probing_text :: "execution_event \<Rightarrow> string \<Rightarrow> string" where
  "probing_text e selectionNote = target_text e selectionNote @ ''  probes '' @ of_total (ee_ProbesDone e) (ee_ProbesTotal e) @
     (if ee_ProbesDone e = 0 then
        (if ee_EstimateProjected e \<noteq> [] then ''  (up to ~'' @ ee_EstimateProjected e @
           (if ee_ProbesUnpriced e > 0 then '', '' @ itoa (ee_ProbesUnpriced e) @ '' unpriced'' else []) @ '')''
         else if ee_ProbesUnpriced e > 0 then ''  ('' @ itoa (ee_ProbesUnpriced e) @ '' unpriced)'' else [])
      else [])"

definition estimate_text :: "execution_event \<Rightarrow> string \<Rightarrow> string" where
  "estimate_text e selectionNote = target_text e selectionNote @
     (if ee_EstimateProjected e \<noteq> [] then ''  window ~'' @ ee_EstimateProjected e else []) @
     ''  ('' @ itoa (ee_EstimateNarrowed e) @ '' narrowed, '' @ itoa (ee_EstimateFull e) @ '' full'' @
     (if ee_EstimateUnknown e > 0 then '', '' @ itoa (ee_EstimateUnknown e) @ '' unpriced'' else []) @
     (if ee_EstimateNoSignal e \<noteq> [] then ''; no signal: '' @ join ''; '' (ee_EstimateNoSignal e) else []) @ '')'' @
     (if ee_EstimateAudit e \<noteq> [] then ''  audit ~'' @ ee_EstimateAudit e else [])"

definition execution_text :: "execution_event \<Rightarrow> string \<Rightarrow> string \<Rightarrow> (string \<times> string) option" where
  "execution_text e selectionNote suffix =
     (if ee_Phase e = ''tick'' then None
      else if ee_Phase e = ''probing'' then Some (''probing'', probing_text e selectionNote)
      else if ee_Phase e = ''estimate'' then Some (''estimate'', estimate_text e selectionNote)
      else if ee_Phase e = ''audit-flip'' then Some (''audit'', ''FLIP: '' @ ee_Symbol e @ '' '' @ ee_FlipPosition e @ '' - narrowed survivor killed by '' @
        ee_FlipKiller e @ '' under the full oracle; verdict re-scored'')
      else if ee_Phase e = ''audit'' then Some (''audit'', itoa (ee_AuditedNarrowed e) @ '' narrowed survivor(s) re-scored under the full oracle, '' @
        itoa (ee_AuditDisagreed e) @ '' disagreed'')
      else if ee_Phase e = ''confirmation-flip'' then Some (''confirmation'', ''FLIP: '' @ ee_Symbol e @ '' '' @ ee_FlipPosition e @
        '' - provisional kill by '' @ ee_FlipKiller e @ '' re-scored survivor on serial re-run'')
      else Some (ee_Phase e, target_text e selectionNote @
        (if ee_Phase e \<noteq> ''confirming'' then ''  candidates '' @ of_total (ee_CandidatesDone e) (ee_CandidatesTotal e) else []) @
        (if ee_ConfirmationsTotal e > 0 then ''  confirmations '' @ of_total (ee_ConfirmationsDone e) (ee_ConfirmationsTotal e) else []) @ suffix))"

definition execution_stretch :: "execution_event \<Rightarrow> string" where
  "execution_stretch e =
     (if ee_Phase e = ''tick'' then ''executing mutants '' @ ee_Symbol e @ '' '' @ of_total (ee_CandidatesDone e) (ee_CandidatesTotal e)
      else if ee_Phase e = ''probing'' then ''probing '' @ of_total (ee_ProbesDone e) (ee_ProbesTotal e) @ '' '' @ ee_Symbol e
      else if ee_Phase e = ''estimate'' then ''estimating '' @ ee_Symbol e
      else if ee_Phase e = ''executing'' then ''executing mutants '' @ ee_Symbol e
      else if ee_Phase e = ''confirming'' then ''confirming '' @ ee_Symbol e
      else [])"

record analysis_event =
  ae_Phase :: string
  ae_Package :: string
  ae_Index :: nat
  ae_Total :: nat
  ae_Served :: string
  ae_Detail :: string

definition analysisVocabulary :: "(string \<times> string) list" where
  "analysisVocabulary =
    [(''analysis-unavailable'', ''attributed reachability unavailable for''),
     (''budget-exhausted'', ''freshness-proof pass cut by the analysis budget''),
     (''cancelled'', ''freshness analysis cancelled''),
     (''list'', ''listing package dependencies (gofresh analysis)''),
     (''typecheck'', ''type-checking package graphs (gofresh analysis)''),
     (''load'', ''loading package graphs (gofresh analysis)''),
     (''hash'', ''folding package closures (gofresh analysis)''),
     (''observe'', ''observing oracle runtime inputs (freshness evidence)''),
     (''runtime'', ''validating runtime-input evidence (oracle freshness)''),
     (''prove'', ''proving oracle closure freshness (gofresh hash proof)''),
     (''probe-failed'', ''coverage probe batch failed for''),
     (''served'', ''served from the persistent memo''),
     (''baseline-output'', ''oracle baseline output for'')]"

definition analysis_head :: "analysis_event \<Rightarrow> string" where
  "analysis_head a =
     (let phrase = get_or (ae_Phase a) (map_of analysisVocabulary (ae_Phase a)) in
      if ae_Phase a = ''served'' \<and> ae_Served a \<noteq> [] then phrase @ '': '' @ ae_Served a @ '' for '' @ countNoun (ae_Index a) ''package''
      else trim_space (phrase @ '' '' @ ae_Package a) @
        (if ae_Total a > 0 \<and> ae_Index a > 0 then '' ('' @ nat_dec (ae_Index a) @ ''/'' @ nat_dec (ae_Total a) @ '')''
         else if ae_Total a > 0 then '' (of '' @ nat_dec (ae_Total a) @ '')'' else []))"

definition analysis_text :: "analysis_event \<Rightarrow> string" where
  "analysis_text a = (let detail = trim_space (ae_Detail a) in
     if detail \<noteq> [] then analysis_head a @ '' '' @ em_dash @ '' '' @ detail else analysis_head a)"

definition StretchAnalysis :: "analysis_event \<Rightarrow> string" where
  "StretchAnalysis a = ''analysis '' @ analysis_head a"

text \<open>\<open>isUnit\<close> is the engine's per-unit phase set.\<close>

definition analysis_stretch :: "(string \<Rightarrow> bool) \<Rightarrow> analysis_event \<Rightarrow> string option" where
  "analysis_stretch isUnit a = (if ae_Detail a \<noteq> [] \<or> \<not> isUnit (ae_Phase a) then None else Some (StretchAnalysis a))"

definition propertyOracleNote :: "string \<Rightarrow> string option" where
  "propertyOracleNote runtime =
     (if runtime = ''rapid'' then Some (''draws pinned (-rapid.seed=1) and reproducer files suppressed (-rapid.nofailfile) - verdicts reproducible'')
      else if runtime = ''gopter'' then
        Some (''gomutant cannot pin gopter'' @ [CHR 0x27] @ ''s draws - ensure the suite fixes its seed, or verdicts are unreproducible'')
      else None)"

subsection \<open>The tallies of a run\<close>

record run_tallies =
  ta_Committed :: nat
  ta_CommittedLocal :: nat
  ta_Killed :: int
  ta_Open :: nat
  ta_Selected :: nat
  ta_Served :: nat
  ta_Skipped :: nat
  ta_Narrowed :: int
  ta_Disagreed :: int

datatype callback = CommitReturned finding "string option" | Decided run_decision | Executing execution_event

text \<open>\<open>persists\<close> says that the caller gave a commit; \<open>layerOf\<close> is its \<open>Layer\<close>. A commit comes with the error the caller
  returned. The second component is \<open>started\<close>.\<close>

definition tally_callback :: "bool \<Rightarrow> (finding \<Rightarrow> layer) option \<Rightarrow> callback \<Rightarrow> run_tallies \<times> bool \<Rightarrow> run_tallies \<times> bool" where
  "tally_callback persists layerOf c ts =
     (case c of
        CommitReturned f err \<Rightarrow>
          if \<not> persists \<or> err \<noteq> None then ts
          else ((fst ts)\<lparr>ta_Committed := ta_Committed (fst ts) + 1,
              ta_CommittedLocal := ta_CommittedLocal (fst ts) + (case layerOf of Some l \<Rightarrow> if l f = LayerLocal then 1 else 0 | None \<Rightarrow> 0),
              ta_Killed := ta_Killed (fst ts) + f_Killed f, ta_Open := ta_Open (fst ts) + length (Open f)\<rparr>, snd ts)
      | Decided d \<Rightarrow>
          if rd_Action d = ''cached'' then ((fst ts)\<lparr>ta_Served := ta_Served (fst ts) + 1\<rparr>, snd ts)
          else if rd_Action d = ''skipped'' then ((fst ts)\<lparr>ta_Skipped := ta_Skipped (fst ts) + 1\<rparr>, snd ts)
          else ts
      | Executing e \<Rightarrow>
          (if ee_Phase e = ''audit'' then (fst ts)\<lparr>ta_Narrowed := ta_Narrowed (fst ts) + ee_AuditedNarrowed e,
             ta_Disagreed := ta_Disagreed (fst ts) + ee_AuditDisagreed e\<rparr> else fst ts, True))"

definition run_tally :: "bool \<Rightarrow> (finding \<Rightarrow> layer) option \<Rightarrow> nat \<Rightarrow> callback list \<Rightarrow> run_tallies \<times> bool" where
  "run_tally persists layerOf selected cs = fold (tally_callback persists layerOf) cs
     (\<lparr>ta_Committed = 0, ta_CommittedLocal = 0, ta_Killed = 0, ta_Open = 0, ta_Selected = selected, ta_Served = 0, ta_Skipped = 0,
       ta_Narrowed = 0, ta_Disagreed = 0\<rparr>, False)"

record banked_state =
  bs_Cause :: string
  bs_Committed :: nat
  bs_Local :: nat
  bs_Killed :: int
  bs_Open :: nat
  bs_Selected :: nat
  bs_Served :: nat
  bs_Skipped :: nat
  bs_Elapsed :: string

definition Banked :: "run_tallies \<Rightarrow> string \<Rightarrow> string \<Rightarrow> banked_state" where
  "Banked t cause elapsed = \<lparr>bs_Cause = cause, bs_Committed = ta_Committed t, bs_Local = ta_CommittedLocal t, bs_Killed = ta_Killed t,
     bs_Open = ta_Open t, bs_Selected = ta_Selected t, bs_Served = ta_Served t, bs_Skipped = ta_Skipped t, bs_Elapsed = elapsed\<rparr>"

definition layers :: "banked_state \<Rightarrow> string" where
  "layers b =
     (if bs_Committed b = 0 then ''none to the findings document''
      else if bs_Local b = 0 then nat_dec (bs_Committed b) @ '' to the findings document, none machine-local''
      else if bs_Local b = bs_Committed b then ''every one machine-local (kept beside the findings document, none in it)''
      else itoa (int (bs_Committed b) - int (bs_Local b)) @ '' to the findings document, '' @ nat_dec (bs_Local b) @ '' machine-local (kept beside it)'')"

definition banked_text :: "banked_state \<Rightarrow> string" where
  "banked_text b = bs_Cause b @ '' after '' @ bs_Elapsed b @ '': '' @ nat_dec (bs_Committed b) @ '' target(s) committed this run '' @ em_dash @ '' '' @
     layers b @ '' ('' @ itoa (bs_Killed b) @ '' killed, '' @ nat_dec (bs_Open b) @ '' open among them); selection was '' @ nat_dec (bs_Selected b) @
     '' target(s) '' @ em_dash @ '' '' @ nat_dec (bs_Served b) @ '' served, '' @ nat_dec (bs_Skipped b) @
     '' skipped before exit; every committed target is kept (REQ-exec-cancellation), the rest re-measure '' @ em_dash @
     '' a gracefully drained prefix extends '' @ em_dash @ '' on the next run''"

datatype exit_error = Interrupted | DeadlineExceeded | Canceled | Aborted string

definition ExitCause :: "exit_error \<Rightarrow> string" where
  "ExitCause err = (case err of
     Interrupted \<Rightarrow> ''interrupted gracefully - measured prefixes committed; re-run to extend''
   | DeadlineExceeded \<Rightarrow> ''command timeout''
   | Canceled \<Rightarrow> ''interrupt/cancellation''
   | Aborted e \<Rightarrow> ''aborted ('' @ e @ '')'')"

section \<open>Properties\<close>

subsection \<open>The roster\<close>

definition reusable :: "record_posture \<Rightarrow> bool" where
  "reusable p \<longleftrightarrow> po_Measurement p \<noteq> ''skipped'' \<and> po_Reuse p = Some FindingCurrent"

definition refused :: "record_posture \<Rightarrow> bool" where
  "refused p \<longleftrightarrow> po_Measurement p \<noteq> ''skipped'' \<and> po_Reuse p \<noteq> Some FindingCurrent"

lemma fold_add_posture:
  assumes "length (su_NotReusable s) \<le> PostureCap" and "su_OmittedNotReusable s > 0 \<longrightarrow> length (su_NotReusable s) = PostureCap"
  shows "fold add_posture ps s = s\<lparr>su_Reusable := su_Reusable s + length (filter reusable ps),
     su_NotReusable := su_NotReusable s @ take (PostureCap - length (su_NotReusable s)) (filter refused ps),
     su_OmittedNotReusable := su_OmittedNotReusable s + (length (filter refused ps) - (PostureCap - length (su_NotReusable s)))\<rparr>"
  using assms
proof (induction ps arbitrary: s)
  case (Cons p ps)
  show ?case
  proof (cases "refused p")
    case True
    then have nr: "\<not> reusable p" and step: "add_posture p s = (if length (su_NotReusable s) < PostureCap then s\<lparr>su_NotReusable := su_NotReusable s @ [p]\<rparr>
        else s\<lparr>su_OmittedNotReusable := su_OmittedNotReusable s + 1\<rparr>)" by (auto simp: refused_def reusable_def add_posture_def)
    show ?thesis
    proof (cases "length (su_NotReusable s) < PostureCap")
      case room: True
      then have om: "su_OmittedNotReusable s = 0" using Cons.prems(2) by auto
      obtain k where k: "PostureCap - length (su_NotReusable s) = Suc k" "PostureCap - Suc (length (su_NotReusable s)) = k"
        using room by (metis Suc_diff_Suc)
      show ?thesis using Cons.IH [of "s\<lparr>su_NotReusable := su_NotReusable s @ [p]\<rparr>"] room om True nr step k by simp
    next
      case False
      then show ?thesis using Cons.IH [of "s\<lparr>su_OmittedNotReusable := su_OmittedNotReusable s + 1\<rparr>"] Cons.prems True nr step by simp
    qed
  next
    case False
    then have "add_posture p s = (if reusable p then s\<lparr>su_Reusable := su_Reusable s + 1\<rparr> else s)"
      by (auto simp: refused_def reusable_def add_posture_def)
    then show ?thesis using Cons.IH [of "add_posture p s"] Cons.prems False by simp
  qed
qed simp

lemma AddPostures_fresh:
  assumes "su_NotReusable s = []" and "su_OmittedNotReusable s = 0"
  shows "AddPostures ps s = s\<lparr>su_Reusable := su_Reusable s + length (filter reusable (sort_key po_Symbol ps)),
     su_NotReusable := take PostureCap (filter refused (sort_key po_Symbol ps)),
     su_OmittedNotReusable := length (filter refused (sort_key po_Symbol ps)) - PostureCap\<rparr>"
  using fold_add_posture [of s "sort_key po_Symbol ps"] assms by (simp add: AddPostures_def)

lemma length_filter_sort_key: "length (filter P (sort_key f xs)) = length (filter P xs)"
  by (metis mset_sort size_mset mset_filter)

subsection \<open>The totals\<close>

lemma fold_count_finding:
  "fold count_finding fs s = s\<lparr>su_Skipped := su_Skipped s + length (filter (\<lambda>f. f_Skipped f \<noteq> []) fs),
     su_Cached := su_Cached s + length (filter (\<lambda>f. f_Skipped f = [] \<and> f_Cached f) fs),
     su_Measured := su_Measured s + length (filter (\<lambda>f. f_Skipped f = [] \<and> \<not> f_Cached f) fs),
     su_Generated := su_Generated s + (\<Sum>f\<leftarrow>fs. f_Generated f), su_Discarded := su_Discarded s + (\<Sum>f\<leftarrow>fs. f_Discarded f),
     su_Killed := su_Killed s + (\<Sum>f\<leftarrow>fs. f_Killed f), su_Survived := su_Survived s + (\<Sum>f\<leftarrow>fs. f_Mutants f - f_Killed f),
     su_Attested := su_Attested s + (\<Sum>f\<leftarrow>fs. length (f_Attested f)), su_Open := su_Open s + (\<Sum>f\<leftarrow>fs. length (Open f))\<rparr>"
proof (induction fs arbitrary: s)
  case (Cons f fs)
  show ?case unfolding fold_simps Cons.IH by (rule run_summary.equality) (simp_all add: count_finding_def Let_def)
qed simp

lemma three_ways: "length (filter (\<lambda>x. \<not> P x \<and> \<not> Q x) xs) + length (filter (\<lambda>x. \<not> P x \<and> Q x) xs) + length (filter P xs) = length xs"
  by (induction xs) auto

lemma sum_list_parts: "(\<Sum>x\<leftarrow>xs. f x) + (\<Sum>x\<leftarrow>xs. g x - f x) = (\<Sum>x\<leftarrow>xs. g x :: int)"
  by (induction xs) auto

text \<open>The totals of a run account for every record: each is measured, served or skipped, killed and survived together are the
  executed mutants, and what is reported open is the open survivors of the records.\<close>
theorem run_totals_account:
  "su_Measured (SummarizeRun fs sel pkg) + su_Cached (SummarizeRun fs sel pkg) + su_Skipped (SummarizeRun fs sel pkg) = length fs \<and>
   su_Targets (SummarizeRun fs sel pkg) = length fs \<and>
   su_Killed (SummarizeRun fs sel pkg) + su_Survived (SummarizeRun fs sel pkg) = (\<Sum>f\<leftarrow>fs. f_Mutants f) \<and>
   su_Open (SummarizeRun fs sel pkg) = length (concat (map Open fs))"
  using three_ways [of "\<lambda>f. f_Skipped f \<noteq> []" f_Cached fs] sum_list_parts [of f_Killed fs f_Mutants]
  by (simp add: SummarizeRun_def fold_count_finding empty_summary_def length_concat o_def)

text \<open>C22: The roster of refused records is bounded and loses none: over any postures the summary lists at most twenty refused records,
  the first by symbol, counts the rest as omitted, and every record that was not skipped is reusable, listed or omitted.\<close>
theorem posture_roster_bounded:
  "length (su_NotReusable (AddPostures ps (SummarizeRun fs sel pkg))) \<le> PostureCap \<and>
   su_NotReusable (AddPostures ps (SummarizeRun fs sel pkg)) = take PostureCap (filter refused (sort_key po_Symbol ps)) \<and>
   su_Reusable (AddPostures ps (SummarizeRun fs sel pkg)) + length (su_NotReusable (AddPostures ps (SummarizeRun fs sel pkg))) +
     su_OmittedNotReusable (AddPostures ps (SummarizeRun fs sel pkg)) = length (filter (\<lambda>p. po_Measurement p \<noteq> ''skipped'') ps)"
proof -
  have fresh: "su_NotReusable (SummarizeRun fs sel pkg) = []" "su_OmittedNotReusable (SummarizeRun fs sel pkg) = 0" "su_Reusable (SummarizeRun fs sel pkg) = 0"
    by (simp_all add: SummarizeRun_def fold_count_finding empty_summary_def)
  have split: "length (filter reusable ps) + length (filter refused ps) = length (filter (\<lambda>p. po_Measurement p \<noteq> ''skipped'') ps)"
    by (induction ps) (auto simp: reusable_def refused_def)
  show ?thesis using split fresh(3) by (simp add: AddPostures_fresh [OF fresh(1,2)] length_filter_sort_key min_def)
qed

subsection \<open>The cut\<close>

definition on_delta :: "world \<Rightarrow> string \<Rightarrow> (string \<Rightarrow> string option) \<Rightarrow> (string \<Rightarrow> string option) \<Rightarrow> finding \<Rightarrow> delta_cut \<Rightarrow> survivor \<Rightarrow> bool" where
  "on_delta wd treeDir bodyHash packageDir f dcut s \<longleftrightarrow>
     f_Symbol f \<in> set (dc_Changed dcut) \<and> bodyHash (f_Symbol f) = Some (f_BodyHash f) \<and>
     (case (packageDir (f_Symbol f), splitSurvivorPosition (s_Position s)) of
        (Some d, Some (base, line, _)) \<Rightarrow>
          (case treeRelative wd treeDir (path_join d base) of Some rel \<Rightarrow> OnDelta dcut rel line | None \<Rightarrow> False)
      | _ \<Rightarrow> False)"

definition placed_by :: "(string \<Rightarrow> string option) \<Rightarrow> delta_cut \<Rightarrow> string \<Rightarrow> survivor \<Rightarrow> bool" where
  "placed_by relative dcut d s \<longleftrightarrow>
     (case splitSurvivorPosition (s_Position s) of
        None \<Rightarrow> False
      | Some (base, line, _) \<Rightarrow> (case relative (path_join d base) of None \<Rightarrow> False | Some rel \<Rightarrow> OnDelta dcut rel line))"

lemma cut_survivor_placed:
  "cut_survivor relative dcut d is ds =
     (if placed_by relative dcut d (snd is) then ds\<lparr>ds_OnDelta := ds_OnDelta ds @ [snd is], ds_placed := ds_placed ds @ [fst is]\<rparr>
      else ds\<lparr>ds_Remainder := ds_Remainder ds @ [snd is]\<rparr>)"
  by (auto simp: cut_survivor_def placed_by_def split: option.splits)

lemma fold_cut_survivor:
  "fold (cut_survivor relative dcut d) (List.enumerate n ss) ds =
     ds\<lparr>ds_OnDelta := ds_OnDelta ds @ filter (placed_by relative dcut d) ss,
       ds_Remainder := ds_Remainder ds @ filter (\<lambda>s. \<not> placed_by relative dcut d s) ss,
       ds_placed := ds_placed ds @ map fst (filter (\<lambda>is. placed_by relative dcut d (snd is)) (List.enumerate n ss))\<rparr>"
  by (induction ss arbitrary: n ds) (simp_all add: cut_survivor_placed)

lemma nothing_added: "dc_Added dcut = [] \<Longrightarrow> \<not> on_delta wd treeDir bodyHash packageDir f dcut s"
  by (auto simp: on_delta_def OnDelta_def get_or_def split: option.splits)

text \<open>C23: The cut by a changed ref splits a record's open survivors and widens nothing: in their order, exactly those whose position
  the current tree places on an added line of a changed symbol, in a record of its current body, are on the delta, and every other one
  is in the remainder.\<close>
theorem cut_splits_the_open_survivors:
  "ds_OnDelta (CutSurvivors wd treeDir bodyHash packageDir f dcut) = filter (on_delta wd treeDir bodyHash packageDir f dcut) (Open f) \<and>
   ds_Remainder (CutSurvivors wd treeDir bodyHash packageDir f dcut) = filter (\<lambda>s. \<not> on_delta wd treeDir bodyHash packageDir f dcut s) (Open f)"
proof -
  let ?P = "on_delta wd treeDir bodyHash packageDir f dcut"
  consider "Open f = []" | "dc_Added dcut = []" | "f_Symbol f \<notin> set (dc_Changed dcut) \<or> bodyHash (f_Symbol f) \<noteq> Some (f_BodyHash f) \<or> packageDir (f_Symbol f) = None"
    | d where "Open f \<noteq> []" "dc_Added dcut \<noteq> []" "f_Symbol f \<in> set (dc_Changed dcut)" "bodyHash (f_Symbol f) = Some (f_BodyHash f)" "packageDir (f_Symbol f) = Some d" by blast
  then show ?thesis
  proof cases
    case 1 then show ?thesis by (simp add: CutSurvivors_def)
  next
    case 2 then show ?thesis by (simp add: CutSurvivors_def nothing_added)
  next
    case 3
    then have "\<And>s. \<not> ?P s" by (auto simp: on_delta_def)
    then show ?thesis using 3 by (auto simp: CutSurvivors_def Let_def split: option.split)
  next
    case 4
    have "?P = placed_by (treeRelative wd treeDir) dcut d"
      using 4 by (auto simp: on_delta_def placed_by_def fun_eq_iff split: option.split)
    then show ?thesis using 4 by (simp add: CutSurvivors_def Let_def fold_cut_survivor)
  qed
qed

subsection \<open>The tallies\<close>

definition banked_commits :: "bool \<Rightarrow> callback list \<Rightarrow> finding list" where
  "banked_commits persists cs = (if persists then List.map_filter (\<lambda>c. case c of CommitReturned f None \<Rightarrow> Some f | _ \<Rightarrow> None) cs else [])"

lemma banked_commits_simps [simp]:
  "banked_commits persists [] = []"
  "banked_commits persists (CommitReturned f None # cs) = (if persists then f # banked_commits persists cs else banked_commits persists cs)"
  "banked_commits persists (CommitReturned f (Some e) # cs) = banked_commits persists cs"
  "banked_commits persists (Decided d # cs) = banked_commits persists cs"
  "banked_commits persists (Executing x # cs) = banked_commits persists cs"
  by (simp_all add: banked_commits_def List.map_filter_simps)

definition lands_local :: "(finding \<Rightarrow> layer) option \<Rightarrow> finding \<Rightarrow> bool" where
  "lands_local layerOf f \<longleftrightarrow> (case layerOf of None \<Rightarrow> False | Some l \<Rightarrow> l f = LayerLocal)"

lemma tally_commit:
  "tally_callback persists layerOf (CommitReturned f err) ts =
     (if persists \<and> err = None
      then ((fst ts)\<lparr>ta_Committed := ta_Committed (fst ts) + 1, ta_CommittedLocal := ta_CommittedLocal (fst ts) + of_bool (lands_local layerOf f),
          ta_Killed := ta_Killed (fst ts) + f_Killed f, ta_Open := ta_Open (fst ts) + length (Open f)\<rparr>, snd ts)
      else ts)"
  by (auto simp: tally_callback_def lands_local_def split: option.split)

lemma tally_other:
  "let t = fst (tally_callback persists layerOf (Decided d) ts) in ta_Committed t = ta_Committed (fst ts) \<and>
     ta_CommittedLocal t = ta_CommittedLocal (fst ts) \<and> ta_Killed t = ta_Killed (fst ts) \<and> ta_Open t = ta_Open (fst ts) \<and> ta_Selected t = ta_Selected (fst ts)"
  "let t = fst (tally_callback persists layerOf (Executing x) ts) in ta_Committed t = ta_Committed (fst ts) \<and>
     ta_CommittedLocal t = ta_CommittedLocal (fst ts) \<and> ta_Killed t = ta_Killed (fst ts) \<and> ta_Open t = ta_Open (fst ts) \<and> ta_Selected t = ta_Selected (fst ts)"
  by (simp_all add: tally_callback_def Let_def)

lemma fold_tally:
  "let t = fst (fold (tally_callback persists layerOf) cs ts); fs = banked_commits persists cs in
    ta_Committed t = ta_Committed (fst ts) + length fs \<and> ta_CommittedLocal t = ta_CommittedLocal (fst ts) + length (filter (lands_local layerOf) fs) \<and>
    ta_Killed t = ta_Killed (fst ts) + (\<Sum>f\<leftarrow>fs. f_Killed f) \<and> ta_Open t = ta_Open (fst ts) + length (concat (map Open fs)) \<and>
    ta_Selected t = ta_Selected (fst ts)"
proof (induction cs arbitrary: ts)
  case (Cons c cs)
  show ?case
  proof (cases c)
    case (CommitReturned f err)
    then show ?thesis using Cons.IH [of "tally_callback persists layerOf c ts"]
      unfolding fold_simps Let_def by (cases err) (simp_all add: tally_commit)
  next
    case (Decided d)
    then show ?thesis using Cons.IH [of "tally_callback persists layerOf c ts"] unfolding fold_simps Let_def by (simp add: tally_other [unfolded Let_def])
  next
    case (Executing e)
    then show ?thesis using Cons.IH [of "tally_callback persists layerOf c ts"] unfolding fold_simps Let_def by (simp add: tally_other [unfolded Let_def])
  qed
qed simp

text \<open>C24: A run banks exactly its successful commits: whatever the sequence of commits, decisions and execution events, the tallies
  count the commits that returned without an error, with their kills and open survivors, and none when the caller persists nothing; the
  machine-local share counts those of them whose layer is local, so what the report leaves to the document is never negative.\<close>
theorem tallies_count_the_commits:
  "ta_Committed (fst (run_tally persists layerOf n cs)) = length (banked_commits persists cs) \<and>
   ta_CommittedLocal (fst (run_tally persists layerOf n cs)) = length (filter (lands_local layerOf) (banked_commits persists cs)) \<and>
   ta_Killed (fst (run_tally persists layerOf n cs)) = (\<Sum>f\<leftarrow>banked_commits persists cs. f_Killed f) \<and>
   ta_Open (fst (run_tally persists layerOf n cs)) = length (concat (map Open (banked_commits persists cs))) \<and>
   ta_CommittedLocal (fst (run_tally persists layerOf n cs)) \<le> ta_Committed (fst (run_tally persists layerOf n cs))"
  using fold_tally [of persists layerOf cs] by (simp add: run_tally_def Let_def)

end
