(* ===== verification/Campaign.thy ===== *)
theory Campaign
  imports Measure Schedule Reports
begin

text \<open>
  The campaign loop of a run (\<open>runCounted\<close> in \<open>run.go\<close>, after its preparation): prepared items gather into windows,
  the cheapest ready window executes next, the window executed before it is aggregated first, and the run ends with
  the completion check, in the middle of a drain, or in an error.

  Preparation and execution run concurrently in the code: which windows are ready at a pick depends on timing. Here
  that is a step relation: a window may arrive at any moment, a pick needs a ready one, a failed preparation may be seen
  before any pick. \<open>coming\<close> are the windows the gatherer will still send. The run's findings, drift and caches are the
  state of the window aggregation. Cancellation is left out, and a plan-only run is \<open>plan_end\<close>.
\<close>

subsection \<open>The items of a window\<close>

definition scored_item :: "executed_window \<Rightarrow> nat \<times> item \<Rightarrow> item" where
  "scored_item xw p =
     (case p of (i, it) \<Rightarrow> it\<lparr>it_work := xw_window xw ! i, it_scores := xw_scores xw ! i, it_observations := xw_observations xw ! i,
        it_incompletes := xw_incompletes xw ! i, it_discard := (case xw_discard xw of None \<Rightarrow> False | Some ds \<Rightarrow> ds ! i)\<rparr>)"

definition executed_items :: "executed_window \<Rightarrow> item list \<Rightarrow> item list" where
  "executed_items xw window = map (scored_item xw) (enumerate 0 window)"

text \<open>A drained fresh work restamps its finding as candidate-capped.\<close>

definition cap_finding :: "executed_window \<Rightarrow> nat \<times> item \<Rightarrow> run_state \<Rightarrow> run_state" where
  "cap_finding xw p st =
     (case p of (i, it) \<Rightarrow>
       (case xw_caps xw ! i of
          None \<Rightarrow> st
        | Some k \<Rightarrow> st\<lparr>rn_findings := (rn_findings st)[it_target it := (rn_findings st ! it_target it)\<lparr>f_Budget := int k, f_Generated := int k\<rparr>]\<rparr>))"

definition capped_findings :: "executed_window \<Rightarrow> item list \<Rightarrow> run_state \<Rightarrow> run_state" where
  "capped_findings xw window st = fold (cap_finding xw) (enumerate 0 window) st"

subsection \<open>The loop\<close>

record engine =
  en_campaign :: campaign
  en_symbols :: "string list"
  en_jobs :: int
  en_execute :: "work \<Rightarrow> mutant \<Rightarrow> string + scored"
  en_serial :: "work list \<Rightarrow> string serial_run"
  en_baselineDur :: "(oracle_group \<Rightarrow> int option) option"
  en_prepErr :: "string option"
  en_modes :: "(bool \<times> module_check) list list"

record loop_state =
  lp_coming :: "item list list"
  lp_pool :: "item list list"
  lp_held :: "item list option"
  lp_run :: run_state

definition mkReady :: "engine \<Rightarrow> item list \<Rightarrow> ready_window" where
  "mkReady en window = (let (cost, priced) = windowPrice (map it_work window) (en_baselineDur en) in
     \<lparr>rw_window = map it_work window, rw_cost = cost, rw_priced = priced\<rparr>)"

definition pick :: "engine \<Rightarrow> item list list \<Rightarrow> nat" where
  "pick en pool = nextReadyWindow (map (mkReady en) pool)"

definition without :: "nat \<Rightarrow> 'a list \<Rightarrow> 'a list" where
  "without i xs = take i xs @ drop (Suc i) xs"

definition aggregateHeld :: "engine \<Rightarrow> item list option \<Rightarrow> run_state \<Rightarrow> abort option \<times> run_state" where
  "aggregateHeld en held_window st = (case held_window of None \<Rightarrow> (None, st) | Some window \<Rightarrow> aggregateWindow (en_campaign en) window st)"

definition execute_window :: "engine \<Rightarrow> stop_point \<Rightarrow> item list \<Rightarrow> string + executed_window" where
  "execute_window en stop window = executeWindow (en_jobs en) (en_execute en) (en_serial en (map it_work window)) stop (map it_work window)"

inductive loop_step :: "engine \<Rightarrow> loop_state \<Rightarrow> loop_state \<Rightarrow> bool" for en where
  arrive: "lp_coming lp = window # rest \<Longrightarrow>
    loop_step en lp (lp\<lparr>lp_coming := rest, lp_pool := lp_pool lp @ [window]\<rparr>)"
| dispatch: "lp_pool lp \<noteq> [] \<Longrightarrow> i = pick en (lp_pool lp) \<Longrightarrow> window = lp_pool lp ! i \<Longrightarrow>
    aggregateHeld en (lp_held lp) (lp_run lp) = (None, st) \<Longrightarrow> execute_window en None window = Inr xw \<Longrightarrow>
    loop_step en lp (lp\<lparr>lp_pool := without i (lp_pool lp), lp_held := Some (executed_items xw window), lp_run := st\<rparr>)"

datatype run_end = Completed "finding list" | TreeDrift "finding list" "(string \<times> string) list" string | Truncated "string list"
  | DrainedRun | AbortedRun abort | FailedExecution string | FailedPreparation string

definition drift_text :: "nat \<Rightarrow> (string \<times> string) list \<Rightarrow> string \<Rightarrow> string" where
  "drift_text completed drifted transient = ''tree changed under measurement: '' @
     (case drifted of
        [] \<Rightarrow> transient @ ''; every measured target'' @ [CHR 0x27] @ ''s producer evidence re-validated, served records were validated at serve time; re-run to confirm''
      | first # others \<Rightarrow> fst first @ '': '' @ snd first @ (if others \<noteq> [] then '' (and '' @ nat_dec (length others) @ '' more targets)'' else []) @
          ''; '' @ nat_dec completed @ '' completed target(s) kept in the findings document; re-run to measure the refused set'')"

text \<open>The first mode whose views do not validate, an unavailable proof included.\<close>

definition epilogue_drift :: "engine \<Rightarrow> string option" where
  "epilogue_drift en =
     (case find (\<lambda>c. c \<noteq> Holds) (map validateProducers (en_modes en)) of
        Some (AnalysisUnavailable e) \<Rightarrow> Some e | Some (Moved e) \<Rightarrow> Some e | _ \<Rightarrow> None)"

definition unfinished :: "engine \<Rightarrow> run_state \<Rightarrow> string list" where
  "unfinished en st =
     map (\<lambda>i. en_symbols en ! i) (filter (\<lambda>i. \<not> (f_Cached (rn_findings st ! i) \<or> f_Skipped (rn_findings st ! i) \<noteq> [] \<or> i \<in> set (rn_committed st) \<or>
        en_symbols en ! i \<in> fst ` set (rn_drifted st))) [0..<length (rn_findings st)])"

definition completed_end :: "engine \<Rightarrow> run_state \<Rightarrow> run_end" where
  "completed_end en st =
     (if unfinished en st \<noteq> [] then Truncated (unfinished en st)
      else if rn_drifted st \<noteq> [] then TreeDrift (completedFindings (rn_findings st) (map fst (rn_drifted st))) (rn_drifted st) []
      else case epilogue_drift en of
          Some e \<Rightarrow> TreeDrift (completedFindings (rn_findings st) []) [] e
        | None \<Rightarrow> Completed (rn_findings st))"

definition ended :: "run_end \<Rightarrow> abort option \<times> run_state \<Rightarrow> run_end \<times> run_state" where
  "ended otherwise result = (case fst result of Some a \<Rightarrow> (AbortedRun a, snd result) | None \<Rightarrow> (otherwise, snd result))"

text \<open>How a run ends from a state of the loop, with the run state it leaves.\<close>

inductive loop_end :: "engine \<Rightarrow> loop_state \<Rightarrow> run_end \<times> run_state \<Rightarrow> bool" for en where
  preparation_failed: "en_prepErr en = Some e \<Longrightarrow>
    loop_end en lp (ended (FailedPreparation e) (aggregateHeld en (lp_held lp) (lp_run lp)))"
| held_aborted: "lp_pool lp \<noteq> [] \<Longrightarrow> aggregateHeld en (lp_held lp) (lp_run lp) = (Some a, st) \<Longrightarrow> loop_end en lp (AbortedRun a, st)"
| execution_failed: "lp_pool lp \<noteq> [] \<Longrightarrow> aggregateHeld en (lp_held lp) (lp_run lp) = (None, st) \<Longrightarrow>
    execute_window en stop (lp_pool lp ! pick en (lp_pool lp)) = Inl e \<Longrightarrow> loop_end en lp (FailedExecution e, st)"
| drained: "lp_pool lp \<noteq> [] \<Longrightarrow> aggregateHeld en (lp_held lp) (lp_run lp) = (None, st) \<Longrightarrow> window = lp_pool lp ! pick en (lp_pool lp) \<Longrightarrow>
    execute_window en (Some stop) window = Inr xw \<Longrightarrow>
    loop_end en lp (ended DrainedRun (aggregateWindow (en_campaign en) (executed_items xw window) (capped_findings xw window st)))"
| finished: "lp_coming lp = [] \<Longrightarrow> lp_pool lp = [] \<Longrightarrow> en_prepErr en = None \<Longrightarrow>
    aggregateHeld en (lp_held lp) (lp_run lp) = (None, st) \<Longrightarrow> loop_end en lp (completed_end en st, st)"
| last_aborted: "lp_coming lp = [] \<Longrightarrow> lp_pool lp = [] \<Longrightarrow> en_prepErr en = None \<Longrightarrow>
    aggregateHeld en (lp_held lp) (lp_run lp) = (Some a, st) \<Longrightarrow> loop_end en lp (AbortedRun a, st)"

inductive loop_reach :: "engine \<Rightarrow> loop_state \<Rightarrow> loop_state \<Rightarrow> bool" for en where
  start: "loop_reach en lp lp"
| next_step: "loop_reach en lp mid \<Longrightarrow> loop_step en mid lp' \<Longrightarrow> loop_reach en lp lp'"

text \<open>The windows of the prepared items, as the gatherer sends them.\<close>

fun split_lengths :: "nat list \<Rightarrow> 'a list \<Rightarrow> 'a list list" where
  "split_lengths [] xs = []"
| "split_lengths (n # ns) xs = take n xs # split_lengths ns (drop n xs)"

definition item_windows :: "int \<Rightarrow> int \<Rightarrow> item list \<Rightarrow> item list list" where
  "item_windows ceiling minimum items = split_lengths (map length (run_windows ceiling minimum (map it_work items))) items"

definition loop_start :: "int \<Rightarrow> int \<Rightarrow> item list \<Rightarrow> run_state \<Rightarrow> loop_state" where
  "loop_start ceiling minimum items st = \<lparr>lp_coming = item_windows ceiling minimum items, lp_pool = [], lp_held = None, lp_run = st\<rparr>"

text \<open>A plan executes nothing: it returns what is complete without execution, or the drift preparation found.\<close>

definition plan_end :: "engine \<Rightarrow> run_state \<Rightarrow> run_end" where
  "plan_end en st =
     (case epilogue_drift en of
        Some e \<Rightarrow> TreeDrift [] [] e
      | None \<Rightarrow> if rn_drifted st \<noteq> [] then TreeDrift [] (rn_drifted st) []
          else Completed (filter (\<lambda>f. f_Cached f \<or> f_Skipped f \<noteq> []) (rn_findings st)))"

subsection \<open>Postures\<close>

text \<open>Every completed record's posture, judged over the views of the mode its admission decided.\<close>

definition run_posture :: "tree_ops \<Rightarrow> freshness_ops \<Rightarrow> (reading_key \<Rightarrow> reading) \<Rightarrow> (bool \<Rightarrow> view_set option) \<Rightarrow> finding \<Rightarrow> record_posture" where
  "run_posture tr fo rd modes f =
     (if f_Skipped f \<noteq> [] then \<lparr>po_Symbol = f_Symbol f, po_Measurement = ''skipped'', po_Reuse = None, po_Reasons = [], po_Analysis = []\<rparr>
      else case judge_record tr fo rd modes f (admitFinding tr f) of
          Inl e \<Rightarrow> posture f (inspected FindingUnverifiable []) (Some e)
        | Inr insp \<Rightarrow> posture f insp None)"

definition run_postures :: "tree_ops \<Rightarrow> freshness_ops \<Rightarrow> (reading_key \<Rightarrow> reading) \<Rightarrow> (bool \<Rightarrow> view_set option) \<Rightarrow> engine \<Rightarrow> run_state \<Rightarrow> record_posture list" where
  "run_postures tr fo rd modes en st =
     map (\<lambda>i. run_posture tr fo rd modes (rn_findings st ! i))
       (filter (\<lambda>i. en_symbols en ! i \<notin> fst ` set (rn_drifted st)) [0..<length (rn_findings st)])"

section \<open>Properties\<close>

subsection \<open>Windows and items\<close>

lemma split_lengths_concat: "sum_list ns = length xs \<Longrightarrow> concat (split_lengths ns xs) = xs"
proof (induction ns arbitrary: xs)
  case (Cons n ns)
  then have "sum_list ns = length (drop n xs)" by simp
  from Cons.IH [OF this] show ?case by simp
qed simp

lemma item_windows_concat: "concat (item_windows ceiling minimum items) = items"
proof -
  have "length (concat (run_windows ceiling minimum (map it_work items))) = length items"
    using windows_fuel_facts [of "map it_work items" "length (map it_work items)"] by (simp add: run_windows_def)
  then show ?thesis by (simp add: item_windows_def split_lengths_concat length_concat)
qed

lemma executed_map:
  assumes "\<And>p. g (scored_item xw p) = g (snd p)" shows "map g (executed_items xw window) = map g window"
proof -
  have "map g (executed_items xw window) = map g (map snd (enumerate 0 window))"
    unfolding executed_items_def by (simp only: map_map comp_def assms)
  then show ?thesis by simp
qed

lemma executed_items_keep [simp]: "map it_target (executed_items xw window) = map it_target window"
  "map (\<lambda>it. (it_target it, it_Symbol it)) (executed_items xw window) = map (\<lambda>it. (it_target it, it_Symbol it)) window"
  by (rule executed_map, simp add: scored_item_def case_prod_beta)+

lemma undrained: "execute_window en None window = Inr xw \<Longrightarrow> it \<in> set (executed_items xw window) \<Longrightarrow> \<not> it_discard it"
  by (auto simp: execute_window_def executeWindow_def executed_items_def scored_item_def Let_def split: sum.splits prod.splits)

lemma pick_less: "pool \<noteq> [] \<Longrightarrow> pick en pool < length pool"
  using next_window_is_first_best [of "map (mkReady en) pool"] by (simp add: pick_def)

lemma without_concat: "i < length xss \<Longrightarrow> mset (concat xss) = mset (xss ! i) + mset (concat (without i xss))"
proof -
  assume "i < length xss"
  then have "concat xss = concat (take i xss @ xss ! i # drop (Suc i) xss)" by (simp add: id_take_nth_drop [symmetric])
  then show ?thesis by (simp add: without_def)
qed

lemma without_length: "i < length xs \<Longrightarrow> length (without i xs) = length xs - 1"
  by (simp add: without_def)

subsection \<open>No state is stuck\<close>

definition lp_left :: "loop_state \<Rightarrow> nat" where
  "lp_left lp = 2 * length (lp_coming lp) + length (lp_pool lp)"

lemma step_consumes: "loop_step en lp lp' \<Longrightarrow> lp_left lp' < lp_left lp"
  by (induction rule: loop_step.induct) (auto simp: lp_left_def without_length pick_less)

lemma step_or_end: "(\<exists>lp'. loop_step en lp lp') \<or> (\<exists>r. loop_end en lp r)"
proof (cases "lp_pool lp = []")
  case empty: True
  show ?thesis
  proof (cases "lp_coming lp")
    case Nil
    obtain r st where a: "aggregateHeld en (lp_held lp) (lp_run lp) = (r, st)" by fastforce
    show ?thesis
    proof (cases "en_prepErr en")
      case None
      then show ?thesis using empty Nil a by (cases r) (auto intro: loop_end.finished loop_end.last_aborted)
    next
      case (Some e)
      then show ?thesis using loop_end.preparation_failed [OF Some, of lp] by blast
    qed
  next
    case (Cons window rest)
    then show ?thesis by (auto intro: loop_step.arrive)
  qed
next
  case False
  obtain r st where a: "aggregateHeld en (lp_held lp) (lp_run lp) = (r, st)" by fastforce
  show ?thesis
  proof (cases r)
    case None
    show ?thesis
    proof (cases "execute_window en None (lp_pool lp ! pick en (lp_pool lp))")
      case (Inl e)
      then show ?thesis using False a None by (auto intro: loop_end.execution_failed)
    next
      case (Inr xw)
      then show ?thesis using loop_step.dispatch [OF False refl refl _ Inr] a None by auto
    qed
  next
    case (Some a')
    then show ?thesis using False a by (auto intro: loop_end.held_aborted)
  qed
qed

lemma reach_trans: "loop_reach en b c \<Longrightarrow> loop_reach en a b \<Longrightarrow> loop_reach en a c"
  by (induction rule: loop_reach.induct) (auto intro: loop_reach.intros)

text \<open>C6: A campaign ends. Every step of the loop consumes what is left to do, and from any state, whatever arrived when and
  however windows executed before, the loop reaches an end.\<close>
theorem campaign_ends:
  "(\<forall>lp'. loop_step en lp lp' \<longrightarrow> lp_left lp' < lp_left lp) \<and> (\<exists>lp' r st. loop_reach en lp lp' \<and> loop_end en lp' (r, st))"
proof
  show "\<forall>lp'. loop_step en lp lp' \<longrightarrow> lp_left lp' < lp_left lp" using step_consumes by blast
  show "\<exists>lp' r st. loop_reach en lp lp' \<and> loop_end en lp' (r, st)"
  proof (induction "lp_left lp" arbitrary: lp rule: less_induct)
    case less
    from step_or_end [of en lp] show ?case
    proof
      assume "\<exists>lp'. loop_step en lp lp'"
      then obtain mid where mid: "loop_step en lp mid" by blast
      from less [OF step_consumes [OF mid]] obtain lp' r st where "loop_reach en mid lp'" "loop_end en lp' (r, st)" by blast
      moreover have "loop_reach en lp mid" using mid by (auto intro: loop_reach.intros)
      ultimately show ?thesis using reach_trans by blast
    next
      assume "\<exists>r. loop_end en lp r"
      then show ?thesis by (metis loop_reach.start surj_pair)
    qed
  qed
qed

subsection \<open>Every target is done once\<close>

definition item_key :: "item \<Rightarrow> nat \<times> string" where
  "item_key it = (it_target it, it_Symbol it)"

definition settled :: "nat \<times> string \<Rightarrow> run_state \<Rightarrow> bool" where
  "settled ts st \<longleftrightarrow> fst ts \<in> set (rn_committed st) \<or> snd ts \<in> fst ` set (rn_drifted st)"

definition waiting :: "loop_state \<Rightarrow> item list" where
  "waiting lp = (case lp_held lp of None \<Rightarrow> [] | Some window \<Rightarrow> window) @ concat (lp_pool lp) @ concat (lp_coming lp)"

text \<open>The loop's invariant, over the keys of the prepared items, the targets done before it started and its findings then.\<close>

definition loop_inv :: "item list \<Rightarrow> run_state \<Rightarrow> loop_state \<Rightarrow> bool" where
  "loop_inv items st0 lp \<longleftrightarrow>
     mset (rn_done (lp_run lp)) + mset (map it_target (waiting lp)) = mset (rn_done st0) + mset (map it_target items) \<and>
     (\<forall>ts \<in> item_key ` set items. settled ts (lp_run lp) \<or> ts \<in> item_key ` set (waiting lp)) \<and> item_key ` set (waiting lp) \<subseteq> item_key ` set items \<and>
     list_all (\<lambda>it. \<not> it_discard it) (waiting lp) \<and> fst ` set (rn_drifted st0) \<subseteq> fst ` set (rn_drifted (lp_run lp)) \<and>
     length (rn_findings (lp_run lp)) = length (rn_findings st0) \<and>
     (\<forall>i < length (rn_findings st0). i \<in> it_target ` set items \<or> rn_findings (lp_run lp) ! i = rn_findings st0 ! i)"

lemma item_findings:
  "length (rn_findings (snd (aggregate_item cg it st))) = length (rn_findings st)"
  "i \<noteq> it_target it \<Longrightarrow> rn_findings (snd (aggregate_item cg it st)) ! i = rn_findings st ! i"
  by (auto simp: aggregate_item_def refuseTarget_def commitAndAttribute_def Let_def split: assembly.splits option.splits)

lemma window_findings:
  "length (rn_findings (snd (aggregateWindow cg its st))) = length (rn_findings st) \<and>
   (i \<notin> it_target ` set its \<longrightarrow> rn_findings (snd (aggregateWindow cg its st)) ! i = rn_findings st ! i)"
proof (induction its arbitrary: st)
  case (Cons it its)
  obtain r st1 where one: "aggregate_item cg it st = (r, st1)" by fastforce
  have "length (rn_findings st1) = length (rn_findings st)" "i \<noteq> it_target it \<Longrightarrow> rn_findings st1 ! i = rn_findings st ! i"
    using item_findings(1) [of cg it st] item_findings(2) [of i it cg st] by (simp_all add: one)
  then show ?case using Cons.IH [of st1] by (cases r) (auto simp: one)
qed simp

lemma held_aggregates:
  assumes "aggregateHeld en held_window st = (None, st')" and "list_all (\<lambda>it. \<not> it_discard it) (case held_window of None \<Rightarrow> [] | Some window \<Rightarrow> window)"
  defines "its \<equiv> (case held_window of None \<Rightarrow> [] | Some window \<Rightarrow> window)"
  shows "rn_done st' = rn_done st @ map it_target its" "\<And>ts. ts \<in> item_key ` set its \<Longrightarrow> settled ts st'" "\<And>ts. settled ts st \<Longrightarrow> settled ts st'"
    "fst ` set (rn_drifted st) \<subseteq> fst ` set (rn_drifted st')" "length (rn_findings st') = length (rn_findings st)"
    "\<And>i. i \<notin> it_target ` set its \<Longrightarrow> rn_findings st' ! i = rn_findings st ! i"
proof -
  have w: "aggregateWindow (en_campaign en) its st = (None, st')" using assms(1) by (cases held_window) (simp_all add: its_def aggregateHeld_def)
  obtain cs ds where g: "rn_committed st' = rn_committed st @ cs" "rn_drifted st' = rn_drifted st @ ds" using window_grows [OF w] by blast
  show "rn_done st' = rn_done st @ map it_target its" using window_dispositions [OF w] by simp
  show "settled ts st'" if "ts \<in> item_key ` set its" for ts
    using that window_dispositions [OF w] assms(2) by (auto simp: its_def settled_def dispositioned_def item_key_def list_all_iff)
  show "settled ts st'" if "settled ts st" for ts using that by (auto simp: settled_def g)
  show "fst ` set (rn_drifted st) \<subseteq> fst ` set (rn_drifted st')" by (auto simp: g)
  show "length (rn_findings st') = length (rn_findings st)" "\<And>i. i \<notin> it_target ` set its \<Longrightarrow> rn_findings st' ! i = rn_findings st ! i"
    using window_findings [of "en_campaign en" its st] by (auto simp: w)
qed

lemma keys_targets: "item_key ` A \<subseteq> item_key ` B \<Longrightarrow> it_target ` A \<subseteq> it_target ` B"
proof -
  assume "item_key ` A \<subseteq> item_key ` B"
  then have "fst ` item_key ` A \<subseteq> fst ` item_key ` B" by (rule image_mono)
  then show ?thesis by (simp add: image_image item_key_def)
qed

lemma executed_keys: "item_key ` set (executed_items xw window) = item_key ` set window"
  by (simp only: item_key_def [abs_def] set_map [symmetric] executed_items_keep(2))

lemma step_keeps: "loop_step en lp lp' \<Longrightarrow> loop_inv items st0 lp \<Longrightarrow> loop_inv items st0 lp'"
proof (induction rule: loop_step.induct)
  case (arrive lp window rest)
  have w: "waiting (lp\<lparr>lp_coming := rest, lp_pool := lp_pool lp @ [window]\<rparr>) = waiting lp" using arrive.hyps by (simp add: waiting_def split: option.split)
  show ?case using arrive.prems by (simp add: loop_inv_def w)
next
  case (dispatch lp i window st xw)
  let ?lp = "lp\<lparr>lp_pool := without i (lp_pool lp), lp_held := Some (executed_items xw window), lp_run := st\<rparr>"
  define its where "its = (case lp_held lp of None \<Rightarrow> [] | Some window \<Rightarrow> window)"
  note inv = dispatch.prems [unfolded loop_inv_def]
  have sub: "item_key ` set (waiting lp) \<subseteq> item_key ` set items" using inv by (elim conjE) assumption
  have i: "i < length (lp_pool lp)" using pick_less [OF dispatch.hyps(1)] dispatch.hyps(2) by simp
  have nd: "list_all (\<lambda>it. \<not> it_discard it) its" using inv by (simp add: waiting_def its_def)
  note agg = held_aggregates [OF dispatch.hyps(4) nd [unfolded its_def], folded its_def]
  have pool: "mset (concat (lp_pool lp)) = mset window + mset (concat (without i (lp_pool lp)))"
    unfolding dispatch.hyps(3) by (rule without_concat [OF i])
  have split: "set (concat (lp_pool lp)) = set window \<union> set (concat (without i (lp_pool lp)))" using arg_cong [OF pool, of set_mset] by simp
  have old: "waiting lp = its @ concat (lp_pool lp) @ concat (lp_coming lp)" by (simp add: waiting_def its_def)
  have new: "waiting ?lp = executed_items xw window @ concat (without i (lp_pool lp)) @ concat (lp_coming lp)" by (simp add: waiting_def)
  have counted: "mset (map it_target (concat (lp_pool lp))) = mset (map it_target window) + mset (map it_target (concat (without i (lp_pool lp))))"
    unfolding mset_map pool by simp
  have targets: "mset (map it_target (waiting lp)) = mset (map it_target its) + mset (map it_target (waiting ?lp))"
    unfolding old new map_append mset_append counted executed_items_keep by (simp only: ac_simps)
  have keys: "item_key ` set (waiting lp) = item_key ` set its \<union> item_key ` set (waiting ?lp)"
    unfolding old new set_append image_Un split executed_keys by auto
  have its_sub: "it_target ` set its \<subseteq> it_target ` set items" using sub unfolding keys by (intro keys_targets) (rule order_trans [OF Un_upper1])
  have fresh: "list_all (\<lambda>it. \<not> it_discard it) (waiting ?lp)"
    using inv split undrained [OF dispatch.hyps(5)] unfolding old new list_all_iff by (auto simp del: set_concat)
  have run: "lp_run ?lp = st" by simp
  have same: "rn_findings st ! j = rn_findings st0 ! j" if "j < length (rn_findings st0)" "j \<notin> it_target ` set items" for j
  proof -
    have "rn_findings (lp_run lp) ! j = rn_findings st0 ! j" using inv that by blast
    then show ?thesis using agg(6) [of j] its_sub that(2) by fastforce
  qed
  show ?case unfolding loop_inv_def run
  proof (intro conjI allI ballI impI)
    show "mset (rn_done st) + mset (map it_target (waiting ?lp)) = mset (rn_done st0) + mset (map it_target items)"
      using inv targets by (simp add: agg(1) ac_simps)
    show "settled ts st \<or> ts \<in> item_key ` set (waiting ?lp)" if "ts \<in> item_key ` set items" for ts
    proof (rule disjE [OF bspec [OF conjunct1 [OF conjunct2 [OF inv]] that]])
      assume "settled ts (lp_run lp)"
      from agg(3) [OF this] show ?thesis ..
    next
      assume "ts \<in> item_key ` set (waiting lp)"
      then have "ts \<in> item_key ` set its \<or> ts \<in> item_key ` set (waiting ?lp)" unfolding keys Un_iff .
      then show ?thesis by (rule disjE) (rule disjI1, erule agg(2), erule disjI2)
    qed
    show "item_key ` set (waiting ?lp) \<subseteq> item_key ` set items" using sub unfolding keys by (rule order_trans [OF Un_upper2])
    show "list_all (\<lambda>it. \<not> it_discard it) (waiting ?lp)" by (rule fresh)
    show "fst ` set (rn_drifted st0) \<subseteq> fst ` set (rn_drifted st)" by (rule order_trans [OF _ agg(4)], insert inv, elim conjE, assumption)
    show "length (rn_findings st) = length (rn_findings st0)" using inv agg(5) by simp
    show "j \<in> it_target ` set items \<or> rn_findings st ! j = rn_findings st0 ! j" if "j < length (rn_findings st0)" for j using same that by blast
  qed
qed

lemma reach_inv: "loop_reach en lp lp' \<Longrightarrow> loop_inv items st0 lp \<Longrightarrow> loop_inv items st0 lp'"
  by (induction rule: loop_reach.induct) (auto intro: step_keeps)

lemma start_inv:
  assumes "list_all (\<lambda>it. \<not> it_discard it) items" shows "loop_inv items st0 (loop_start ceiling minimum items st0)"
proof -
  have "waiting (loop_start ceiling minimum items st0) = items" by (simp add: waiting_def loop_start_def item_windows_concat)
  then show ?thesis using assms by (simp add: loop_inv_def loop_start_def)
qed

text \<open>What a run that came to its completion check left.\<close>

lemma finished_inv:
  assumes reach: "loop_reach en (loop_start ceiling minimum items st0) lp" and items: "list_all (\<lambda>it. \<not> it_discard it) items"
    and ends: "lp_coming lp = []" "lp_pool lp = []" "aggregateHeld en (lp_held lp) (lp_run lp) = (None, st)"
  shows "mset (rn_done st) = mset (rn_done st0) + mset (map it_target items)" "\<And>it. it \<in> set items \<Longrightarrow> settled (item_key it) st"
    "fst ` set (rn_drifted st0) \<subseteq> fst ` set (rn_drifted st)" "length (rn_findings st) = length (rn_findings st0)"
    "\<And>i. i < length (rn_findings st0) \<Longrightarrow> i \<notin> it_target ` set items \<Longrightarrow> rn_findings st ! i = rn_findings st0 ! i"
proof -
  note inv = reach_inv [OF reach start_inv [OF items], unfolded loop_inv_def]
  have w: "waiting lp = (case lp_held lp of None \<Rightarrow> [] | Some window \<Rightarrow> window)" using ends(1,2) by (simp add: waiting_def)
  have nd: "list_all (\<lambda>it. \<not> it_discard it) (case lp_held lp of None \<Rightarrow> [] | Some window \<Rightarrow> window)" using inv w by simp
  note agg = held_aggregates [OF ends(3) nd, folded w]
  show "mset (rn_done st) = mset (rn_done st0) + mset (map it_target items)" using inv by (simp add: agg(1))
  show "settled (item_key it) st" if "it \<in> set items" for it
    by (rule disjE [OF bspec [OF conjunct1 [OF conjunct2 [OF inv]] imageI [OF that]]]) (erule agg(3), erule agg(2))
  show "fst ` set (rn_drifted st0) \<subseteq> fst ` set (rn_drifted st)" by (rule order_trans [OF _ agg(4)], insert inv, elim conjE, assumption)
  show "length (rn_findings st) = length (rn_findings st0)" using inv agg(5) by simp
  show "rn_findings st ! i = rn_findings st0 ! i" if "i < length (rn_findings st0)" "i \<notin> it_target ` set items" for i
  proof -
    have "it_target ` set (waiting lp) \<subseteq> it_target ` set items" by (rule keys_targets, insert inv, elim conjE, assumption)
    then have "i \<notin> it_target ` set (waiting lp)" using that(2) by blast
    then have kept: "rn_findings st ! i = rn_findings (lp_run lp) ! i" by (rule agg(6))
    have "\<forall>i < length (rn_findings st0). i \<in> it_target ` set items \<or> rn_findings (lp_run lp) ! i = rn_findings st0 ! i" using inv by (elim conjE) assumption
    then have "rn_findings (lp_run lp) ! i = rn_findings st0 ! i" using that by blast
    then show ?thesis by (simp only: kept)
  qed
qed

lemma campaign_completes_lemma:
  assumes reach: "loop_reach en (loop_start ceiling minimum items st0) lp" and ends: "loop_end en lp (r, st)" "\<exists>symbols fs ds e. r = Truncated symbols \<or> r = Completed fs \<or> r = TreeDrift fs ds e"
    and items: "list_all (\<lambda>it. \<not> it_discard it \<and> it_Symbol it = en_symbols en ! it_target it) items"
    and roster: "list_all (\<lambda>i. i \<in> it_target ` set items \<or> f_Cached (rn_findings st0 ! i) \<or> f_Skipped (rn_findings st0 ! i) \<noteq> [] \<or>
      en_symbols en ! i \<in> fst ` set (rn_drifted st0)) [0..<length (rn_findings st0)]"
  shows "unfinished en st = [] \<and> r = completed_end en st \<and> mset (rn_done st) = mset (rn_done st0) + mset (map it_target items)"
proof -
  have fin: "lp_coming lp = [] \<and> lp_pool lp = [] \<and> aggregateHeld en (lp_held lp) (lp_run lp) = (None, st) \<and> r = completed_end en st"
    using ends by (cases rule: loop_end.cases) (auto simp: ended_def split: option.splits)
  have nd: "list_all (\<lambda>it. \<not> it_discard it) items" using items by (simp add: list_all_iff)
  note e = conjunct1 [OF fin] conjunct1 [OF conjunct2 [OF fin]] conjunct1 [OF conjunct2 [OF conjunct2 [OF fin]]]
  note facts = finished_inv [OF reach nd e] and r = conjunct2 [OF conjunct2 [OF conjunct2 [OF fin]]]
  have "\<not> \<not> (f_Cached (rn_findings st ! i) \<or> f_Skipped (rn_findings st ! i) \<noteq> [] \<or> i \<in> set (rn_committed st) \<or> en_symbols en ! i \<in> fst ` set (rn_drifted st))"
    if i: "i < length (rn_findings st)" for i
  proof (cases "i \<in> it_target ` set items")
    case True
    then obtain it where it: "it \<in> set items" "i = it_target it" by blast
    from facts(2) [OF it(1)] show ?thesis using it items by (auto simp: settled_def item_key_def list_all_iff)
  next
    case False
    then have len: "i < length (rn_findings st0)" using i facts(4) by simp
    moreover have "rn_findings st ! i = rn_findings st0 ! i" by (rule facts(5) [OF len False])
    moreover have "f_Cached (rn_findings st0 ! i) \<or> f_Skipped (rn_findings st0 ! i) \<noteq> [] \<or> en_symbols en ! i \<in> fst ` set (rn_drifted st0)"
      using bspec [OF roster [unfolded list_all_iff], of i] len False by simp
    ultimately show ?thesis using subsetD [OF facts(3)] by auto
  qed
  then have "unfinished en st = []" by (auto simp: unfinished_def filter_empty_conv)
  then show ?thesis using facts(1) r by blast
qed

text \<open>C5: A campaign leaves no target open. Whatever the timing of preparation and the order of execution, when every announced target
  was prepared, served, skipped or refused before the loop, a run that comes to its completion check finds nothing unfinished and is
  not truncated: every prepared target is done exactly once, and each was committed or is named in the drift.\<close>
theorem campaign_leaves_no_target_open:
  assumes "loop_reach en (loop_start ceiling minimum items st0) lp"
    and "loop_end en lp (r, st)" "\<exists>symbols fs ds e. r = Truncated symbols \<or> r = Completed fs \<or> r = TreeDrift fs ds e"
    and "list_all (\<lambda>it. \<not> it_discard it \<and> it_Symbol it = en_symbols en ! it_target it) items"
    and "list_all (\<lambda>i. i \<in> it_target ` set items \<or> f_Cached (rn_findings st0 ! i) \<or> f_Skipped (rn_findings st0 ! i) \<noteq> [] \<or>
      en_symbols en ! i \<in> fst ` set (rn_drifted st0)) [0..<length (rn_findings st0)]"
  shows "unfinished en st = [] \<and> (\<nexists>symbols. r = Truncated symbols) \<and> mset (rn_done st) = mset (rn_done st0) + mset (map it_target items)"
proof -
  note facts = campaign_completes_lemma [OF assms]
  have "completed_end en st \<noteq> Truncated symbols" for symbols using facts by (auto simp: completed_end_def split: option.split)
  then show ?thesis using facts by auto
qed

subsection \<open>Examples\<close>

definition sample_engine :: engine where
  "sample_engine = \<lparr>en_campaign = sample_campaign, en_symbols = [''p.F''], en_jobs = 1, en_execute = (\<lambda>_ _. Inr zero_scored),
     en_serial = (\<lambda>_ _ _. Inr zero_scored), en_baselineDur = None, en_prepErr = None, en_modes = []\<rparr>"

abbreviation sample_loop :: loop_state where
  "sample_loop \<equiv> loop_start 10 1 [sample_item 0 ''p.F''] (sample_run [''p.F''])"

lemma sample_windows_of: "item_windows 10 1 [sample_item 0 ''p.F''] = [[sample_item 0 ''p.F'']]"
proof -
  have "map length (run_windows 10 1 (map it_work [sample_item 0 ''p.F''])) = [1]" by code_simp
  then show ?thesis by (simp add: item_windows_def)
qed

lemma sample_execution:
  "case execute_window sample_engine None [sample_item 0 ''p.F''] of Inl _ \<Rightarrow> False
   | Inr xw \<Rightarrow> fst (aggregateHeld sample_engine (Some (executed_items xw [sample_item 0 ''p.F''])) (sample_run [''p.F''])) = None"
  by code_simp

theorem campaign_ends_witness:
  "lp_left (sample_loop\<lparr>lp_coming := [], lp_pool := [[sample_item 0 ''p.F'']]\<rparr>) < lp_left sample_loop \<and>
    (\<exists>lp' r st. loop_reach sample_engine sample_loop lp' \<and> loop_end sample_engine lp' (r, st))"
proof -
  have "loop_step sample_engine sample_loop (sample_loop\<lparr>lp_coming := [], lp_pool := lp_pool sample_loop @ [[sample_item 0 ''p.F'']]\<rparr>)"
    by (rule loop_step.arrive) (simp add: loop_start_def sample_windows_of)
  moreover have "lp_pool sample_loop = []" by (simp add: loop_start_def)
  ultimately have "loop_step sample_engine sample_loop (sample_loop\<lparr>lp_coming := [], lp_pool := [[sample_item 0 ''p.F'']]\<rparr>)" by simp
  then show ?thesis using campaign_ends [of sample_engine sample_loop] by blast
qed

theorem campaign_leaves_no_target_open_witness:
  "\<exists>lp r st. loop_reach sample_engine sample_loop lp \<and> loop_end sample_engine lp (r, st) \<and> unfinished sample_engine st = [] \<and> mset (rn_done st) = {#0#}"
proof -
  let ?window = "[sample_item 0 ''p.F'']"
  obtain xw where x: "execute_window sample_engine None ?window = Inr xw"
    and a: "fst (aggregateHeld sample_engine (Some (executed_items xw ?window)) (sample_run [''p.F''])) = None"
    using sample_execution by (auto split: sum.splits)
  obtain st where st: "aggregateHeld sample_engine (Some (executed_items xw ?window)) (sample_run [''p.F'']) = (None, st)" using a by (metis prod.collapse)
  define mid where "mid = \<lparr>lp_coming = [], lp_pool = [?window], lp_held = None, lp_run = sample_run [''p.F'']\<rparr>"
  define last where "last = \<lparr>lp_coming = [], lp_pool = [], lp_held = Some (executed_items xw ?window), lp_run = sample_run [''p.F'']\<rparr>"
  have mid: "loop_step sample_engine sample_loop mid"
    using loop_step.arrive [of sample_loop ?window "[]" sample_engine] by (simp add: loop_start_def sample_windows_of mid_def)
  have p: "pick sample_engine (lp_pool mid) = 0" using pick_less [of "lp_pool mid" sample_engine] by (simp add: mid_def)
  have "loop_step sample_engine mid (mid\<lparr>lp_pool := without 0 (lp_pool mid), lp_held := Some (executed_items xw ?window), lp_run := sample_run [''p.F'']\<rparr>)"
    by (rule loop_step.dispatch [OF _ p [symmetric] _ _ x]) (simp_all add: mid_def aggregateHeld_def)
  then have last: "loop_step sample_engine mid last" by (simp add: mid_def last_def without_def)
  have reach: "loop_reach sample_engine sample_loop last" by (rule loop_reach.next_step [OF loop_reach.next_step [OF loop_reach.start mid] last])
  have ends: "loop_end sample_engine last (completed_end sample_engine st, st)"
    by (rule loop_end.finished) (simp_all add: last_def st sample_engine_def [of] st [unfolded sample_engine_def])
  have kind: "\<exists>symbols fs ds e. completed_end sample_engine st = Truncated symbols \<or> completed_end sample_engine st = Completed fs \<or> completed_end sample_engine st = TreeDrift fs ds e"
    by (auto simp: completed_end_def split: option.split)
  have items: "list_all (\<lambda>it. \<not> it_discard it \<and> it_Symbol it = en_symbols sample_engine ! it_target it) ?window"
    by (simp add: sample_item_def sample_engine_def)
  have roster: "list_all (\<lambda>i. i \<in> it_target ` set ?window \<or> f_Cached (rn_findings (sample_run [''p.F'']) ! i) \<or> f_Skipped (rn_findings (sample_run [''p.F'']) ! i) \<noteq> [] \<or>
      en_symbols sample_engine ! i \<in> fst ` set (rn_drifted (sample_run [''p.F'']))) [0..<length (rn_findings (sample_run [''p.F'']))]"
    by (simp add: sample_item_def sample_run_def)
  have "unfinished sample_engine st = [] \<and> mset (rn_done st) = {#0#}"
    using campaign_leaves_no_target_open [OF reach ends kind items roster] by (simp add: sample_run_def sample_item_def)
  then show ?thesis using reach ends by blast
qed

end
