(* ===== verification/Bank.thy ===== *)
theory Bank
  imports Freshness Coverage
begin

text \<open>
  The baseline bank (\<open>bank.go\<close>): the machine-local file of passing baseline measurements, served across runs while the pins
  of an entry still verify. A deposit rewrites the file at once, over what another process left there, and evicts the oldest
  entries while the file is over its ceiling.

  A map is an association list with distinct keys. \<open>bank_io\<close> is the file system and the encoder: the length of a bank's JSON, the
  file as it decodes now, if it exists, is below the ceiling and decodes, and whether the directory, the write and the rename succeed.
  The mutex and the file lock are left out; so is \<open>json.Marshal\<close> failing, which no bank makes it.
\<close>

subsection \<open>Keys\<close>

record bank_key =
  bk_pkg :: string
  bk_run :: string
  bk_flags :: string
  bk_moduleDir :: string
  bk_packageDir :: string

definition baselineKeyFor :: "oracle_group \<Rightarrow> bank_key" where
  "baselineKeyFor g = \<lparr>bk_pkg = hd (gr_pkgs g), bk_run = gr_runRegex g, bk_flags = join [nul] (gr_flags g),
     bk_moduleDir = gr_moduleDir g, bk_packageDir = gr_packageDir g\<rparr>"

definition persistedKey :: "bank_key \<Rightarrow> string \<Rightarrow> string" where
  "persistedKey k scope = bk_pkg k @ [nul] @ bk_run k @ [nul] @ bk_flags k @ [nul] @ bk_moduleDir k @ [nul] @ bk_packageDir k @ [nul] @ scope"

definition bankScopeString :: "string list \<Rightarrow> (string \<times> string) list \<Rightarrow> string" where
  "bankScopeString brackets namespaces =
     join [CHR 0x1F] (sort brackets) @ [CHR 0x1E] @ join [CHR 0x1F] (sort (map (\<lambda>(dir, pattern). dir @ '':'' @ pattern) namespaces))"

subsection \<open>The file\<close>

record banked_baseline =
  bb_Evidence :: "subject_evidence list"
  bb_Manifest :: string
  bb_Digest :: string
  bb_RawMillis :: int
  bb_PassedTests :: "string list"
  bb_TestDurationMillis :: "(string \<times> int) list"
  bb_MeasuredAtUnix :: int

record closure_row =
  cw_Symbol :: string
  cw_MaximalClosure :: string
  cw_TestVariantClosure :: string
  cw_Toolchain :: string
  cw_BuildConfig :: string

record banked_batch =
  ba_Index :: int
  ba_Fns :: "string list"
  ba_DurMillis :: int
  ba_Coverage :: persisted_coverage

record banked_failure =
  bl_Index :: int
  bl_Fns :: "string list"
  bl_Reason :: string

record banked_coverage =
  bc_Evidence :: "closure_row list"
  bc_CoverRow :: closure_row
  bc_Plan :: int
  bc_Batches :: "banked_batch list"
  bc_Failed :: "banked_failure list"

record bank_file =
  bf_Version :: int
  bf_Baselines :: "(string \<times> banked_baseline) list"
  bf_Coverage :: "(string \<times> banked_coverage) list"

definition bankVersion :: int where "bankVersion = 3"
definition bankFileCeiling :: nat where "bankFileCeiling = 8 * 2 ^ 20"

record bank =
  bn_path :: string
  bn_file :: bank_file
  bn_dirty :: bool
  bn_dirtyKeys :: "string set"

record bank_io =
  bi_size :: "bank_file \<Rightarrow> nat"
  bi_disk :: "bank_file option"
  bi_writes :: bool

text \<open>A version-2 file keeps its payloads and loses the identities of its passing tests.\<close>

definition unnamed :: "banked_baseline \<Rightarrow> banked_baseline" where
  "unnamed e = e\<lparr>bb_PassedTests := []\<rparr>"

definition decoded_bank :: "bank_file option \<Rightarrow> bank_file option" where
  "decoded_bank disk =
     (case disk of
        None \<Rightarrow> None
      | Some d \<Rightarrow>
          if bf_Version d = bankVersion then Some d
          else if bf_Version d = 2 then Some (d\<lparr>bf_Version := bankVersion, bf_Baselines := map (\<lambda>(k, e). (k, unnamed e)) (bf_Baselines d)\<rparr>)
          else None)"

definition openBaselineBank :: "string option \<Rightarrow> bank_file option \<Rightarrow> bank" where
  "openBaselineBank path disk =
     \<lparr>bn_path = get_or [] path,
      bn_file = (case path of None \<Rightarrow> \<lparr>bf_Version = bankVersion, bf_Baselines = [], bf_Coverage = []\<rparr>
        | Some _ \<Rightarrow> get_or \<lparr>bf_Version = bankVersion, bf_Baselines = [], bf_Coverage = []\<rparr> (decoded_bank disk)),
      bn_dirty = False, bn_dirtyKeys = {}\<rparr>"

subsection \<open>The rewrite\<close>

definition adopt_entry :: "string set \<Rightarrow> string \<times> banked_baseline \<Rightarrow> (string \<times> banked_baseline) list \<Rightarrow> (string \<times> banked_baseline) list" where
  "adopt_entry dirtyKeys entry own =
     (case map_of own (fst entry) of
        None \<Rightarrow> AList.update (fst entry) (snd entry) own
      | Some cur \<Rightarrow>
          if fst entry \<notin> dirtyKeys \<and> bb_MeasuredAtUnix (snd entry) > bb_MeasuredAtUnix cur then AList.update (fst entry) (snd entry) own else own)"

definition keep_coverage :: "string \<times> banked_coverage \<Rightarrow> (string \<times> banked_coverage) list \<Rightarrow> (string \<times> banked_coverage) list" where
  "keep_coverage entry own = (case map_of own (fst entry) of None \<Rightarrow> AList.update (fst entry) (snd entry) own | Some _ \<Rightarrow> own)"

definition merge_disk :: "string set \<Rightarrow> bank_file option \<Rightarrow> bank_file \<Rightarrow> bank_file" where
  "merge_disk dirtyKeys disk own =
     (case decoded_bank disk of
        None \<Rightarrow> own
      | Some d \<Rightarrow> own\<lparr>bf_Baselines := fold (adopt_entry dirtyKeys) (bf_Baselines d) (bf_Baselines own),
          bf_Coverage := fold keep_coverage (bf_Coverage d) (bf_Coverage own)\<rparr>)"

definition older_entry :: "string \<times> banked_baseline \<Rightarrow> (string \<times> int) option \<Rightarrow> (string \<times> int) option" where
  "older_entry entry oldest =
     (let (k, e) = entry in
      case oldest of
        None \<Rightarrow> Some (k, bb_MeasuredAtUnix e)
      | Some (oldestKey, oldestTime) \<Rightarrow>
          if bb_MeasuredAtUnix e < oldestTime \<or> (bb_MeasuredAtUnix e = oldestTime \<and> k < oldestKey) then Some (k, bb_MeasuredAtUnix e) else oldest)"

definition oldest_entry :: "(string \<times> banked_baseline) list \<Rightarrow> (string \<times> int) option" where
  "oldest_entry entries = fold older_entry entries None"

lemma older_entry_mem:
  "fold older_entry entries oldest = Some (k, t) \<Longrightarrow> oldest = Some (k, t) \<or> (\<exists>e. (k, e) \<in> set entries \<and> bb_MeasuredAtUnix e = t)"
  by (induction entries arbitrary: oldest) (fastforce simp: older_entry_def split: option.splits prod.splits if_splits)+

lemma older_entry_some: "entries \<noteq> [] \<or> oldest \<noteq> None \<Longrightarrow> fold older_entry entries oldest \<noteq> None"
  by (induction entries arbitrary: oldest) (auto simp: older_entry_def Let_def split: option.splits prod.splits if_splits)

lemma oldest_entry_mem: "oldest_entry entries = Some (k, t) \<Longrightarrow> \<exists>e. (k, e) \<in> set entries \<and> bb_MeasuredAtUnix e = t"
  unfolding oldest_entry_def by (drule older_entry_mem) simp

lemma delete_shorter: "k \<in> fst ` set entries \<Longrightarrow> length (AList.delete k entries) < length entries"
  unfolding AList.delete_eq by (erule imageE, rule length_filter_less) auto

function (sequential) evict :: "(bank_file \<Rightarrow> nat) \<Rightarrow> bank_file \<Rightarrow> bank_file" where
  "evict len bank =
     (if len bank > bankFileCeiling \<and> length (bf_Baselines bank) > 1 then
        (case oldest_entry (bf_Baselines bank) of
           None \<Rightarrow> bank
         | Some (oldestKey, _) \<Rightarrow> evict len (bank\<lparr>bf_Baselines := AList.delete oldestKey (bf_Baselines bank)\<rparr>))
      else bank)"
  by pat_completeness auto
termination
proof (relation "measure (\<lambda>(len, bank). length (bf_Baselines bank))", goal_cases)
  case (2 len bank x2 x y)
  then have "x \<in> fst ` set (bf_Baselines bank)" using oldest_entry_mem by (metis fst_conv image_eqI)
  then show ?case by (simp add: delete_shorter)
qed simp

declare evict.simps [simp del]

definition persistLocked :: "bank_io \<Rightarrow> bank \<Rightarrow> bank \<times> bank_file option" where
  "persistLocked io b =
     (if \<not> bn_dirty b \<or> bn_path b = [] then (b, None)
      else let written = evict (bi_size io) (merge_disk (bn_dirtyKeys b) (bi_disk io) (bn_file b)) in
        if bi_writes io then (b\<lparr>bn_file := written, bn_dirty := False, bn_dirtyKeys := {}\<rparr>, Some written)
        else (b\<lparr>bn_file := written\<rparr>, None))"

definition putBaseline :: "bank_io \<Rightarrow> string \<Rightarrow> banked_baseline \<Rightarrow> bank \<Rightarrow> bank \<times> bank_file option" where
  "putBaseline io key e b =
     persistLocked io (b\<lparr>bn_file := (bn_file b)\<lparr>bf_Baselines := AList.update key e (bf_Baselines (bn_file b))\<rparr>,
       bn_dirtyKeys := insert key (bn_dirtyKeys b), bn_dirty := True\<rparr>)"

text \<open>A nil bank holds nothing.\<close>

definition banked_for :: "bank option \<Rightarrow> string \<Rightarrow> banked_baseline option" where
  "banked_for b key = (case b of None \<Rightarrow> None | Some b \<Rightarrow> map_of (bf_Baselines (bn_file b)) key)"

definition millisecond :: int where "millisecond = 1000000"

definition longestBaselineFor :: "bank option \<Rightarrow> string \<Rightarrow> int option" where
  "longestBaselineFor b pkg =
     (case b of
        None \<Rightarrow> None
      | Some b \<Rightarrow>
          fold (\<lambda>(key, e) longest.
              if (case str_cut [nul] key of Some (entryPkg, _) \<Rightarrow> entryPkg | None \<Rightarrow> key) \<noteq> pkg then longest
              else let raw = bb_RawMillis e * millisecond in
                case longest of None \<Rightarrow> Some raw | Some l \<Rightarrow> if raw > l then Some raw else longest)
            (bf_Baselines (bn_file b)) None)"

subsection \<open>Durations\<close>

text \<open>Go divides towards zero; only positive milliseconds are kept, where the two divisions agree.\<close>

definition durationsToMillis :: "(string \<times> int) list \<Rightarrow> (string \<times> int) list" where
  "durationsToMillis durs = concat (map (\<lambda>(k, d).
     (let ms = d div millisecond in if ms > 0 then [(k, ms)] else if d > 0 then [(k, 1)] else [])) durs)"

definition millisToDurations :: "(string \<times> int) list \<Rightarrow> (string \<times> int) list" where
  "millisToDurations ms = concat (map (\<lambda>(k, v). if v > 0 then [(k, v * millisecond)] else []) ms)"

subsection \<open>The pins\<close>

definition bankPinsHold :: "freshness_ops \<Rightarrow> (nat \<Rightarrow> reading_key \<Rightarrow> reading) \<Rightarrow> subject_evidence list \<Rightarrow> judged_view list \<Rightarrow> string + bool" where
  "bankPinsHold fo current rows views =
     (if length rows \<noteq> length views \<or> \<not> distinct (map e_Symbol rows) then Inr False
      else case pair_oracle rows views of
          None \<Rightarrow> Inr False
        | Some pairs \<Rightarrow> pairs_match fo current pairs)"

section \<open>Properties\<close>

subsection \<open>What a rewrite leaves on disk\<close>

definition newer :: "string set \<Rightarrow> string \<Rightarrow> banked_baseline option \<Rightarrow> banked_baseline option \<Rightarrow> banked_baseline option" where
  "newer dirtyKeys k own disk =
     (case own of
        None \<Rightarrow> disk
      | Some x \<Rightarrow> (case disk of
            None \<Rightarrow> Some x
          | Some y \<Rightarrow> if k \<notin> dirtyKeys \<and> bb_MeasuredAtUnix x < bb_MeasuredAtUnix y then Some y else Some x))"

lemma adopt_entry_lookup:
  "map_of (adopt_entry dirtyKeys (k', y) own) k = (if k = k' then newer dirtyKeys k (map_of own k) (Some y) else map_of own k)"
  by (simp add: adopt_entry_def newer_def split: option.splits)

lemma adopted_lookup:
  "distinct (map fst disk) \<Longrightarrow> map_of (fold (adopt_entry dirtyKeys) disk own) k = newer dirtyKeys k (map_of own k) (map_of disk k)"
proof (induction disk arbitrary: own)
  case Nil
  then show ?case by (simp add: newer_def split: option.splits)
next
  case (Cons entry disk)
  obtain k' y where entry: "entry = (k', y)" by (cases entry)
  have absent: "map_of disk k' = None" using Cons.prems entry by (simp add: map_of_eq_None_iff)
  show ?case using Cons absent by (simp add: entry adopt_entry_lookup) (simp add: newer_def split: option.splits)
qed

lemma adopted_distinct: "distinct (map fst own) \<Longrightarrow> distinct (map fst (fold (adopt_entry dirtyKeys) disk own))"
  by (induction disk arbitrary: own) (simp_all add: adopt_entry_def distinct_update split: option.splits)

lemma coverage_lookup: "map_of (fold keep_coverage disk own) k = (case map_of own k of None \<Rightarrow> map_of disk k | Some x \<Rightarrow> Some x)"
proof (induction disk arbitrary: own)
  case (Cons entry disk)
  then show ?case by (cases entry) (auto simp: keep_coverage_def split: option.splits)
qed (simp split: option.splits)

lemma older_entry_least:
  "fold older_entry entries oldest = Some (k, t) \<Longrightarrow>
     (\<forall>(k', e) \<in> set entries. t \<le> bb_MeasuredAtUnix e) \<and> (\<forall>k' t'. oldest = Some (k', t') \<longrightarrow> t \<le> t')"
proof (induction entries arbitrary: oldest)
  case (Cons entry entries)
  have "older_entry entry oldest \<noteq> None" using older_entry_some [of "[entry]" oldest] by simp
  then obtain k1 t1 where step: "older_entry entry oldest = Some (k1, t1)" by auto
  then have "t \<le> t1" "\<forall>(k', e) \<in> set entries. t \<le> bb_MeasuredAtUnix e" using Cons by auto
  moreover have "t1 \<le> bb_MeasuredAtUnix (snd entry) \<and> (\<forall>k' t'. oldest = Some (k', t') \<longrightarrow> t1 \<le> t')"
    using step by (cases entry) (auto simp: older_entry_def split: option.splits prod.splits if_splits)
  ultimately show ?case by (cases entry) fastforce
qed simp

lemma oldest_entry_least: "oldest_entry entries = Some (k, t) \<Longrightarrow> (k', e) \<in> set entries \<Longrightarrow> t \<le> bb_MeasuredAtUnix e"
  unfolding oldest_entry_def by (drule older_entry_least) blast

lemma evict_step:
  "len bank > bankFileCeiling \<Longrightarrow> length (bf_Baselines bank) > 1 \<Longrightarrow>
     \<exists>old t. oldest_entry (bf_Baselines bank) = Some (old, t) \<and>
       evict len bank = evict len (bank\<lparr>bf_Baselines := AList.delete old (bf_Baselines bank)\<rparr>)"
proof -
  assume large: "len bank > bankFileCeiling" and many: "length (bf_Baselines bank) > 1"
  then have "bf_Baselines bank \<noteq> []" by auto
  then have "oldest_entry (bf_Baselines bank) \<noteq> None" unfolding oldest_entry_def by (rule older_entry_some [OF disjI1])
  then show ?thesis using large many by (subst evict.simps) auto
qed

lemma evict_done: "\<not> (len bank > bankFileCeiling \<and> length (bf_Baselines bank) > 1) \<Longrightarrow> evict len bank = bank"
  by (subst evict.simps) (simp only: if_False)

lemma evict_rule [case_names kept step]:
  assumes "\<And>bank. len bank \<le> bankFileCeiling \<or> length (bf_Baselines bank) \<le> 1 \<Longrightarrow> evict len bank = bank \<Longrightarrow> P bank"
    and "\<And>bank old t. oldest_entry (bf_Baselines bank) = Some (old, t) \<Longrightarrow> P (bank\<lparr>bf_Baselines := AList.delete old (bf_Baselines bank)\<rparr>) \<Longrightarrow>
      evict len bank = evict len (bank\<lparr>bf_Baselines := AList.delete old (bf_Baselines bank)\<rparr>) \<Longrightarrow> P bank"
  shows "P bank"
proof (induction "length (bf_Baselines bank)" arbitrary: bank rule: less_induct)
  case less
  show ?case
  proof (cases "len bank > bankFileCeiling \<and> length (bf_Baselines bank) > 1")
    case True
    then obtain old t where old: "oldest_entry (bf_Baselines bank) = Some (old, t)"
        "evict len bank = evict len (bank\<lparr>bf_Baselines := AList.delete old (bf_Baselines bank)\<rparr>)"
      using evict_step by blast
    then have "old \<in> fst ` set (bf_Baselines bank)" using oldest_entry_mem by (metis fst_conv image_eqI)
    then have "P (bank\<lparr>bf_Baselines := AList.delete old (bf_Baselines bank)\<rparr>)" by (intro less) (simp add: delete_shorter)
    then show ?thesis by (rule assms(2) [OF old(1) _ old(2)])
  next
    case False
    then show ?thesis by (intro assms(1) evict_done) auto
  qed
qed

lemma evicted_fields: "bf_Version (evict len bank) = bf_Version bank \<and> bf_Coverage (evict len bank) = bf_Coverage bank"
  by (induction bank rule: evict_rule [of len]) simp_all

lemma evict_bound: "len (evict len bank) \<le> bankFileCeiling \<or> length (bf_Baselines (evict len bank)) \<le> 1"
  by (induction bank rule: evict_rule [of len]) simp_all

lemma evict_mem: "set (bf_Baselines (evict len bank)) \<subseteq> set (bf_Baselines bank)"
  by (induction bank rule: evict_rule [of len]) (auto simp: AList.delete_eq)

lemma evict_lookup:
  "distinct (map fst (bf_Baselines bank)) \<Longrightarrow>
     map_of (bf_Baselines (evict len bank)) k = map_of (bf_Baselines bank) k \<or>
     map_of (bf_Baselines (evict len bank)) k = None \<and>
       (\<forall>x. map_of (bf_Baselines bank) k = Some x \<longrightarrow> (\<forall>(k', y) \<in> set (bf_Baselines (evict len bank)). bb_MeasuredAtUnix x \<le> bb_MeasuredAtUnix y))"
proof (induction bank rule: evict_rule [of len])
  case (kept bank)
  then show ?case by simp
next
  case (step bank old t)
  note old = step(1)
  let ?rest = "bank\<lparr>bf_Baselines := AList.delete old (bf_Baselines bank)\<rparr>"
  have evicted: "evict len bank = evict len ?rest" using step by blast
  have IH: "map_of (bf_Baselines (evict len ?rest)) k = map_of (bf_Baselines ?rest) k \<or>
     map_of (bf_Baselines (evict len ?rest)) k = None \<and>
     (\<forall>x. map_of (bf_Baselines ?rest) k = Some x \<longrightarrow> (\<forall>(k', y) \<in> set (bf_Baselines (evict len ?rest)). bb_MeasuredAtUnix x \<le> bb_MeasuredAtUnix y))"
    using step by (simp add: distinct_delete)
  show ?case
  proof (cases "k = old")
    case False
    then have same: "map_of (bf_Baselines ?rest) k = map_of (bf_Baselines bank) k" by (simp add: delete_conv')
    show ?thesis using IH unfolding same evicted .
  next
    case True
    obtain e where e: "(old, e) \<in> set (bf_Baselines bank)" "bb_MeasuredAtUnix e = t" using oldest_entry_mem [OF old] by blast
    have found: "map_of (bf_Baselines bank) k = Some e" using e(1) step.prems True by (simp add: map_of_is_SomeI)
    have gone: "map_of (bf_Baselines (evict len ?rest)) k = None" using IH True by (auto simp: delete_conv')
    have "\<forall>(k', y) \<in> set (bf_Baselines (evict len ?rest)). t \<le> bb_MeasuredAtUnix y"
      using evict_mem [of len ?rest] oldest_entry_least [OF old] by (fastforce simp: AList.delete_eq)
    then have "\<forall>x. map_of (bf_Baselines bank) k = Some x \<longrightarrow> (\<forall>(k', y) \<in> set (bf_Baselines (evict len ?rest)). bb_MeasuredAtUnix x \<le> bb_MeasuredAtUnix y)"
      using found e(2) by simp
    then show ?thesis using gone unfolding evicted by blast
  qed
qed

text \<open>A deposit rewrites the bank over what another process left on disk and loses none of it: of each key the rewritten file holds the
  entry this run measured, else the newer of its own and the disk's, or it evicted that entry, and then no entry it
  kept is older; the file is below its ceiling unless one entry alone exceeds it, and historical coverage entries stay.\<close>

theorem deposit_keeps_concurrent_entries:
  assumes put: "putBaseline io key e b = (b', Some newfile)"
    and disk: "decoded_bank (bi_disk io) = Some d" "distinct (map fst (bf_Baselines d))" "distinct (map fst (bf_Baselines (bn_file b)))"
  shows "\<forall>k. map_of (bf_Baselines newfile) k = newer (insert key (bn_dirtyKeys b)) k (((map_of (bf_Baselines (bn_file b)))(key \<mapsto> e)) k) (map_of (bf_Baselines d) k) \<or>
      map_of (bf_Baselines newfile) k = None \<and>
      (\<forall>x. newer (insert key (bn_dirtyKeys b)) k (((map_of (bf_Baselines (bn_file b)))(key \<mapsto> e)) k) (map_of (bf_Baselines d) k) = Some x \<longrightarrow>
        (\<forall>(k', y) \<in> set (bf_Baselines newfile). bb_MeasuredAtUnix x \<le> bb_MeasuredAtUnix y))"
    and "bi_size io newfile \<le> bankFileCeiling \<or> length (bf_Baselines newfile) \<le> 1"
    and "map_of (bf_Coverage newfile) = map_of (bf_Coverage d) ++ map_of (bf_Coverage (bn_file b))"
proof -
  let ?dirty = "insert key (bn_dirtyKeys b)"
  let ?own = "(bn_file b)\<lparr>bf_Baselines := AList.update key e (bf_Baselines (bn_file b))\<rparr>"
  let ?merged = "merge_disk ?dirty (bi_disk io) ?own"
  have newfile: "newfile = evict (bi_size io) ?merged"
    using put by (simp add: putBaseline_def persistLocked_def Let_def split: if_splits)
  have distinct: "distinct (map fst (bf_Baselines ?merged))" using disk by (simp add: merge_disk_def adopted_distinct distinct_update)
  have lookup: "map_of (bf_Baselines ?merged) k = newer ?dirty k (((map_of (bf_Baselines (bn_file b)))(key \<mapsto> e)) k) (map_of (bf_Baselines d) k)" for k
    using disk by (simp add: merge_disk_def adopted_lookup)
  show "\<forall>k. map_of (bf_Baselines newfile) k = newer ?dirty k (((map_of (bf_Baselines (bn_file b)))(key \<mapsto> e)) k) (map_of (bf_Baselines d) k) \<or>
      map_of (bf_Baselines newfile) k = None \<and>
      (\<forall>x. newer ?dirty k (((map_of (bf_Baselines (bn_file b)))(key \<mapsto> e)) k) (map_of (bf_Baselines d) k) = Some x \<longrightarrow>
        (\<forall>(k', y) \<in> set (bf_Baselines newfile). bb_MeasuredAtUnix x \<le> bb_MeasuredAtUnix y))"
    using evict_lookup [OF distinct] unfolding newfile lookup by blast
  show "bi_size io newfile \<le> bankFileCeiling \<or> length (bf_Baselines newfile) \<le> 1" unfolding newfile by (rule evict_bound)
  show "map_of (bf_Coverage newfile) = map_of (bf_Coverage d) ++ map_of (bf_Coverage (bn_file b))"
    unfolding newfile using disk(1) by (simp add: evicted_fields merge_disk_def fun_eq_iff coverage_lookup map_add_def split: option.splits)
qed

subsection \<open>Witness\<close>

definition sample_entry :: "int \<Rightarrow> banked_baseline" where
  "sample_entry measured = \<lparr>bb_Evidence = [], bb_Manifest = ''m'', bb_Digest = ''d'', bb_RawMillis = 5, bb_PassedTests = [''p.TestA''],
     bb_TestDurationMillis = [], bb_MeasuredAtUnix = measured\<rparr>"

definition sample_bank :: bank where
  "sample_bank = openBaselineBank (Some ''/h/baselines.json'') None"

definition sample_io :: bank_io where
  "sample_io = \<lparr>bi_size = (\<lambda>_. 0), bi_disk = Some \<lparr>bf_Version = 3, bf_Baselines = [(''k'', sample_entry 1)], bf_Coverage = []\<rparr>, bi_writes = True\<rparr>"

definition sample_rewritten :: bank_file where
  "sample_rewritten = \<lparr>bf_Version = 3, bf_Baselines = [(''n'', sample_entry 2), (''k'', sample_entry 1)], bf_Coverage = []\<rparr>"

lemma sample_deposit:
  "putBaseline sample_io ''n'' (sample_entry 2) sample_bank =
     (sample_bank\<lparr>bn_file := sample_rewritten, bn_dirty := False, bn_dirtyKeys := {}\<rparr>, Some sample_rewritten)"
  by (subst putBaseline_def, subst persistLocked_def)
    (simp add: sample_io_def sample_bank_def openBaselineBank_def decoded_bank_def bankVersion_def merge_disk_def adopt_entry_def evict_done sample_rewritten_def Let_def)

theorem deposit_keeps_concurrent_entries_witness:
  "map_of (bf_Coverage sample_rewritten) = Map.empty"
  using deposit_keeps_concurrent_entries(3) [OF sample_deposit, of "\<lparr>bf_Version = 3, bf_Baselines = [(''k'', sample_entry 1)], bf_Coverage = []\<rparr>"]
  by (simp add: sample_io_def sample_bank_def openBaselineBank_def decoded_bank_def bankVersion_def)

end
