(* ===== verification/Baselines.thy ===== *)
theory Baselines
  imports Bank Measure Ledger
begin

text \<open>
  The baselines of a target's oracle groups (\<open>probeGroupBaselines\<close> in \<open>run.go\<close>, \<open>orderOracleGroups\<close> in \<open>prepare.go\<close>,
  \<open>depositGroupBaseline\<close> in \<open>bank.go\<close>): each group's unmutated tests run once in a run, or their banked measurement is adopted; a
  failing baseline is remembered and skips every target that shares the group.

  \<open>probe_env\<close> is what a run gives the probes. A step number stands for the time of a measurement: the \<open>n\<close>-th one sees
  \<open>pe_probe n\<close>, \<open>pe_current n\<close>, \<open>pe_io n\<close>. The state \<open>probing\<close> is the run's maps, its bank and the events it reported. The probe
  gate, the mutex and cancellation are left out, and the nil checks of a deposit's views: a target that probes has its producer views.
\<close>

subsection \<open>Budgets\<close>

definition second :: int where "second = 1000 * millisecond"
definition ephemeralBudgetFloor :: int where "ephemeralBudgetFloor = 5 * second"
definition campaignBaselineLeash :: int where "campaignBaselineLeash = 3600 * second"

definition derivedOracleBudget :: "int \<Rightarrow> int" where
  "derivedOracleBudget baseline = (let budget = 4 * baseline in if budget < ephemeralBudgetFloor then ephemeralBudgetFloor else budget)"

definition leashFor :: "int \<Rightarrow> int \<Rightarrow> int" where
  "leashFor fixed banked = (let lifted = derivedOracleBudget banked in if lifted > fixed then lifted else fixed)"

subsection \<open>The measurements of a run\<close>

record baseline_result =
  br_Ran :: int
  br_Passed :: bool
  br_Tests :: "string list"
  br_Failed :: "string list"
  br_Diagnostic :: string
  br_Observation :: observation
  br_Coverage :: "coverage option"
  br_TestDurations :: "(string \<times> int) list"

record group_baseline =
  gb_raw :: int
  gb_budget :: int
  gb_passed :: "string list"
  gb_testDurations :: "(string \<times> int) list"
  gb_coverage :: "coverage option"
  gb_coverPkgs :: "string list"

record pending_bank_deposit =
  pd_manifest :: string
  pd_digest :: string
  pd_raw :: int
  pd_passed :: "string list"
  pd_testDurations :: "(string \<times> int) list"

record probe_env =
  pe_ops :: runtime_ops
  pe_digest :: "observation \<Rightarrow> string"
  pe_treeDir :: string
  pe_freshness :: freshness_ops
  pe_current :: "nat \<Rightarrow> nat \<Rightarrow> reading_key \<Rightarrow> reading"
  pe_probe :: "nat \<Rightarrow> oracle_group \<Rightarrow> int \<Rightarrow> string list \<Rightarrow> string option \<times> baseline_result \<times> int"
  pe_OracleTimeout :: int
  pe_derive :: bool
  pe_Force :: bool
  pe_bankScope :: string
  pe_coverPkgs :: "string \<Rightarrow> string list"
  pe_covered :: bool
  pe_sibling :: "nat \<Rightarrow> gofresh_subject list \<Rightarrow> bool"
  pe_validate :: "nat \<Rightarrow> nat \<Rightarrow> module_check"
  pe_io :: "nat \<Rightarrow> bank_io"
  pe_now :: "nat \<Rightarrow> int"
  pe_reaches :: "string \<Rightarrow> string \<Rightarrow> bool"

datatype probe_event = BaselineEvent string string bool | BudgetEvent string string int | OutputEvent string string

record probing =
  pb_failures :: "bank_key \<Rightarrow> string option"
  pb_cache :: "bank_key \<Rightarrow> observation option"
  pb_groups :: "bank_key \<Rightarrow> group_baseline option"
  pb_pending :: "bank_key \<Rightarrow> pending_bank_deposit option"
  pb_bank :: "bank option"
  pb_measured :: nat
  pb_events :: "probe_event list"

record probed_target =
  pt_Symbol :: string
  pt_explicit :: bool
  pt_targetView :: "judged_view option"
  pt_oracleViews :: "judged_view list"
  pt_work :: work

definition group_pkg :: "oracle_group \<Rightarrow> string" where
  "group_pkg g = hd (gr_pkgs g)"

definition groupOracleViews :: "judged_view list \<Rightarrow> oracle_group \<Rightarrow> judged_view list" where
  "groupOracleViews views g = filter (\<lambda>v. subject_package (vw_subject v) = group_pkg g) views"

definition target_package :: "probed_target \<Rightarrow> string" where
  "target_package t = (case pt_targetView t of None \<Rightarrow> [] | Some v \<Rightarrow> subject_package (vw_subject v))"

subsection \<open>A banked measurement\<close>

definition banked_serve :: "probe_env \<Rightarrow> probed_target \<Rightarrow> oracle_group \<Rightarrow> banked_baseline option \<Rightarrow> nat \<Rightarrow> observation option" where
  "banked_serve env t g banked n =
     (case banked of
        None \<Rightarrow> None
      | Some b \<Rightarrow>
          if pe_Force env then None
          else case bankPinsHold (pe_freshness env) (pe_current env n) (bb_Evidence b) (groupOracleViews (pt_oracleViews t) g) of
              Inl _ \<Rightarrow> None
            | Inr ok \<Rightarrow>
                if \<not> ok \<or> bb_PassedTests b = [] then None
                else case ri_adopt (pe_ops env) (bb_Manifest b) (pe_treeDir env) of
                    Inl _ \<Rightarrow> None
                  | Inr adopted \<Rightarrow> if pe_digest env adopted = bb_Digest b then Some adopted else None)"

definition banked_group :: "probe_env \<Rightarrow> banked_baseline \<Rightarrow> group_baseline" where
  "banked_group env b =
     (let raw = bb_RawMillis b * millisecond in
      \<lparr>gb_raw = raw, gb_budget = (if pe_derive env then derivedOracleBudget raw else 0), gb_passed = bb_PassedTests b,
       gb_testDurations = millisToDurations (bb_TestDurationMillis b), gb_coverage = None, gb_coverPkgs = []\<rparr>)"

definition budget_events :: "probe_env \<Rightarrow> probed_target \<Rightarrow> oracle_group \<Rightarrow> group_baseline \<Rightarrow> probe_event list" where
  "budget_events env t g entry = (if pe_derive env then [BudgetEvent (pt_Symbol t) (group_pkg g) (gb_budget entry)] else [])"

subsection \<open>A deposit\<close>

definition depositGroupBaseline :: "probe_env \<Rightarrow> probed_target \<Rightarrow> oracle_group \<Rightarrow> baseline_result \<Rightarrow> int \<Rightarrow> nat \<Rightarrow> bank option \<Rightarrow> bool \<times> bank option" where
  "depositGroupBaseline env t g result raw n b =
     (let observed = br_Observation result; views = groupOracleViews (pt_oracleViews t) g; modules = remdups (map vw_snapshot views) in
      case b of
        None \<Rightarrow> (False, b)
      | Some bk \<Rightarrow>
          if ob_Unverifiable observed \<or> ri_manifest (pe_ops env) observed = [] \<or> views = [] then (False, b)
          else if \<not> list_all (\<lambda>m. pe_sibling env m (map vw_subject (filter (\<lambda>v. vw_snapshot v = m) views))) modules then (False, b)
          else case attachOracleEvidence (pe_ops env) observed (map subject_view.truncate views) of
              Inl _ \<Rightarrow> (False, b)
            | Inr rows \<Rightarrow>
                (case producerValidation (map (\<lambda>m. (True, pe_validate env n m)) modules) of
                   Inl _ \<Rightarrow> (False, b)
                 | Inr unavailable \<Rightarrow>
                     if unavailable \<noteq> [] \<or> list_ex e_RuntimeUnverifiable rows then (False, b)
                     else (True, Some (fst (putBaseline (pe_io env n) (persistedKey (baselineKeyFor g) (pe_bankScope env))
                       \<lparr>bb_Evidence = rows, bb_Manifest = ri_manifest (pe_ops env) observed, bb_Digest = pe_digest env observed,
                        bb_RawMillis = raw div millisecond, bb_PassedTests = br_Tests result,
                        bb_TestDurationMillis = durationsToMillis (br_TestDurations result), bb_MeasuredAtUnix = pe_now env n\<rparr> bk)))))"

subsection \<open>A probe\<close>

definition probe_reason :: "oracle_group \<Rightarrow> string option \<Rightarrow> baseline_result \<Rightarrow> string" where
  "probe_reason g err result =
     (case err of
        Some e \<Rightarrow> ''oracle baseline probe failed in '' @ group_pkg g @ '': '' @ e
      | None \<Rightarrow>
          if br_Ran result = 0 then ''oracle baseline matched no tests in '' @ group_pkg g
          else if \<not> br_Passed result then
            ''oracle baseline does not pass in '' @ group_pkg g @ '' (failed: '' @ join '', '' (br_Failed result) @ '')''
          else [])"

definition escape_note :: "probed_target \<Rightarrow> oracle_group \<Rightarrow> string" where
  "escape_note t g =
     (if \<not> pt_explicit t \<and> pt_targetView t \<noteq> None \<and> group_pkg g \<noteq> target_package t then
        '' '' @ em_dash @ '' a consumer package of the derived oracle; fix its suite, or pass an explicit oracle to measure '' @ pt_Symbol t @ '' without it''
      else [])"

definition cover_packages :: "probe_env \<Rightarrow> probed_target \<Rightarrow> oracle_group \<Rightarrow> string list" where
  "cover_packages env t g =
     (let pkgs = pe_coverPkgs env (group_pkg g); own = target_package t in
      if \<not> wo_shaped (pt_work t) \<and> own \<noteq> [] \<and> own \<notin> set pkgs then sort (pkgs @ [own]) else pkgs)"

definition probe_bound :: "probe_env \<Rightarrow> banked_baseline option \<Rightarrow> int" where
  "probe_bound env banked =
     (if pe_derive env then leashFor (pe_OracleTimeout env) ((case banked of None \<Rightarrow> 0 | Some b \<Rightarrow> bb_RawMillis b) * millisecond) else pe_OracleTimeout env)"

definition probed_group :: "probe_env \<Rightarrow> probed_target \<Rightarrow> oracle_group \<Rightarrow> baseline_result \<Rightarrow> int \<Rightarrow> group_baseline" where
  "probed_group env t g result elapsed =
     \<lparr>gb_raw = elapsed, gb_budget = (if pe_derive env then derivedOracleBudget elapsed else 0), gb_passed = br_Tests result,
      gb_testDurations = br_TestDurations result, gb_coverage = br_Coverage result, gb_coverPkgs = cover_packages env t g\<rparr>"

definition probe_fresh :: "probe_env \<Rightarrow> probed_target \<Rightarrow> oracle_group \<Rightarrow> banked_baseline option \<Rightarrow> probing \<Rightarrow> (string + observation) \<times> probing" where
  "probe_fresh env t g banked s =
     (let n = pb_measured s; key = baselineKeyFor g;
          covers = (if \<not> wo_shaped (pt_work t) \<and> pe_covered env then cover_packages env t g else []);
          (err, result, elapsed) = pe_probe env n g (probe_bound env banked) covers;
          reason = probe_reason g err result;
          s = s\<lparr>pb_measured := Suc n, pb_events := pb_events s @ [BaselineEvent (pt_Symbol t) (group_pkg g) False] @
            (if reason \<noteq> [] \<and> br_Diagnostic result \<noteq> [] then [OutputEvent (group_pkg g) (br_Diagnostic result)] else [])\<rparr> in
      if reason \<noteq> [] then
        (Inl (reason @ escape_note t g), s\<lparr>pb_failures := (pb_failures s)(key \<mapsto> reason @ escape_note t g)\<rparr>)
      else
        let observed = br_Observation result; entry = probed_group env t g result elapsed;
            s = s\<lparr>pb_groups := (pb_groups s)(key \<mapsto> entry)\<rparr>;
            s = (if \<not> ob_Unverifiable observed \<and> ri_manifest (pe_ops env) observed \<noteq> [] then
                   let (deposited, b) = depositGroupBaseline env t g result elapsed n (pb_bank s); s = s\<lparr>pb_bank := b\<rparr> in
                   if deposited then s
                   else s\<lparr>pb_pending := (pb_pending s)(key \<mapsto> \<lparr>pd_manifest = ri_manifest (pe_ops env) observed, pd_digest = pe_digest env observed,
                     pd_raw = elapsed, pd_passed = br_Tests result, pd_testDurations = br_TestDurations result\<rparr>)\<rparr>
                 else s) in
        (Inr observed, s\<lparr>pb_events := pb_events s @ budget_events env t g entry, pb_cache := (pb_cache s)(key \<mapsto> observed)\<rparr>))"

definition measure_group :: "probe_env \<Rightarrow> probed_target \<Rightarrow> oracle_group \<Rightarrow> probing \<Rightarrow> (string + observation) \<times> probing" where
  "measure_group env t g s =
     (let key = baselineKeyFor g; banked = banked_for (pb_bank s) (persistedKey key (pe_bankScope env)) in
      case banked_serve env t g banked (pb_measured s) of
        Some adopted \<Rightarrow>
          let entry = banked_group env (the banked) in
          (Inr adopted, s\<lparr>pb_measured := Suc (pb_measured s), pb_groups := (pb_groups s)(key \<mapsto> entry), pb_cache := (pb_cache s)(key \<mapsto> adopted),
             pb_events := pb_events s @ [BaselineEvent (pt_Symbol t) (group_pkg g) True] @ budget_events env t g entry\<rparr>)
      | None \<Rightarrow> probe_fresh env t g banked s)"

definition group_baseline_of :: "probe_env \<Rightarrow> probed_target \<Rightarrow> oracle_group \<Rightarrow> probing \<Rightarrow> (string + observation) \<times> probing" where
  "group_baseline_of env t g s =
     (case pb_failures s (baselineKeyFor g) of
        Some reason \<Rightarrow> (Inl reason, s)
      | None \<Rightarrow>
          (case pb_cache s (baselineKeyFor g) of
             Some state \<Rightarrow> (Inr state, s)
           | None \<Rightarrow> measure_group env t g s))"

definition passed_of :: "probing \<Rightarrow> oracle_group \<Rightarrow> string list" where
  "passed_of s g = (case pb_groups s (baselineKeyFor g) of None \<Rightarrow> [] | Some b \<Rightarrow> gb_passed b)"

fun probe_groups :: "probe_env \<Rightarrow> probed_target \<Rightarrow> oracle_group list \<Rightarrow> probing \<Rightarrow> (string + (oracle_group \<times> observation) list) \<times> probing" where
  "probe_groups env t [] s = (Inr [], s)"
| "probe_groups env t (g # gs) s =
     (case group_baseline_of env t g s of
        (Inl reason, s) \<Rightarrow> (Inl reason, s)
      | (Inr state, s) \<Rightarrow>
          (case probe_groups env t gs s of
             (Inl reason, s') \<Rightarrow> (Inl reason, s')
           | (Inr rest, s') \<Rightarrow> (Inr ((g\<lparr>gr_passed := passed_of s g\<rparr>, state) # rest), s')))"

subsection \<open>The order of the groups\<close>

text \<open>A work item's oracle set is the set of its oracle; the code ranges over it to sum durations and to find a test, in any order.\<close>

definition first_pkg :: "oracle_group \<Rightarrow> string" where
  "first_pkg g = (case gr_pkgs g of [] \<Rightarrow> [] | pkg # _ \<Rightarrow> pkg)"

definition ranked_tests :: "work \<Rightarrow> oracle_group \<Rightarrow> string list" where
  "ranked_tests w g =
     (if gr_passed g = [] then filter (\<lambda>sym. fst (splitTestSymbol sym) = first_pkg g) (remdups (wo_oracle w)) else gr_passed g)"

definition counted_tests :: "work \<Rightarrow> oracle_group \<Rightarrow> string list" where
  "counted_tests w g = filter (\<lambda>sym. fst (splitTestSymbol sym) = first_pkg g \<and> sym \<in> wo_oracleSet w) (ranked_tests w g)"

definition rta_reaches :: "(string \<Rightarrow> string \<Rightarrow> bool) \<Rightarrow> string \<Rightarrow> string \<Rightarrow> work \<Rightarrow> oracle_group \<Rightarrow> bool" where
  "rta_reaches reaches targetSymbol targetPkg w g \<longleftrightarrow>
     (if ranked_tests w g = [] then first_pkg g = targetPkg \<or> targetSymbol = []
      else \<exists>sym \<in> set (counted_tests w g). targetSymbol = [] \<or> reaches sym targetSymbol)"

definition effective_duration :: "(oracle_group \<Rightarrow> int \<times> (string \<times> int) list) \<Rightarrow> work \<Rightarrow> oracle_group \<Rightarrow> int" where
  "effective_duration groupStats w g =
     (let (raw, durations) = groupStats g;
          tests = sum_list (map (\<lambda>sym. max 0 (get_or 0 (map_of durations sym))) (counted_tests w g)) in
      if tests \<le> 0 then raw else tests)"

definition group_rank :: "(string \<Rightarrow> string \<Rightarrow> bool) \<Rightarrow> string \<Rightarrow> string \<Rightarrow> (oracle_group \<Rightarrow> int \<times> (string \<times> int) list) \<Rightarrow> work \<Rightarrow> oracle_group \<Rightarrow>
    bool \<times> int \<times> int \<times> bool \<times> string \<times> string" where
  "group_rank reaches targetSymbol targetPkg groupStats w g =
     (\<not> rta_reaches reaches targetSymbol targetPkg w g, effective_duration groupStats w g, fst (groupStats g), first_pkg g \<noteq> targetPkg, first_pkg g, gr_runRegex g)"

definition with_baselines :: "work \<Rightarrow> (oracle_group \<times> observation option) list" where
  "with_baselines w = map (\<lambda>(i, g). (g, if i < length (wo_baselines w) then Some (wo_baselines w ! i) else None)) (enumerate 0 (wo_groups w))"

definition orderOracleGroups :: "(string \<Rightarrow> string \<Rightarrow> bool) \<Rightarrow> string \<Rightarrow> string \<Rightarrow> (oracle_group \<Rightarrow> int \<times> (string \<times> int) list) \<Rightarrow> work \<Rightarrow> work" where
  "orderOracleGroups reaches targetSymbol targetPkg groupStats w =
     (if wo_shaped w \<or> length (wo_groups w) \<le> 1 then w
      else let ranked = sort_key (group_rank reaches targetSymbol targetPkg groupStats w \<circ> fst) (with_baselines w) in
        w\<lparr>wo_groups := map fst ranked,
          wo_baselines := map (\<lambda>(i, old). if i < length ranked then get_or old (snd (ranked ! i)) else old) (enumerate 0 (wo_baselines w))\<rparr>)"

definition group_stats :: "probing \<Rightarrow> oracle_group \<Rightarrow> int \<times> (string \<times> int) list" where
  "group_stats s g = (case pb_groups s (baselineKeyFor g) of None \<Rightarrow> (0, []) | Some b \<Rightarrow> (gb_raw b, gb_testDurations b))"

subsection \<open>The baselines of a target\<close>

definition probeGroupBaselines :: "probe_env \<Rightarrow> probed_target \<Rightarrow> probing \<Rightarrow> (string + work) \<times> probing" where
  "probeGroupBaselines env t s =
     (case probe_groups env t (wo_groups (pt_work t)) s of
        (Inl reason, s) \<Rightarrow> (Inl reason, s)
      | (Inr pairs, s) \<Rightarrow>
          let w = (pt_work t)\<lparr>wo_groups := map fst pairs, wo_baselines := map snd pairs\<rparr> in
          (Inr (if \<not> wo_shaped w \<and> length (wo_groups w) > 1 \<and> pt_targetView t \<noteq> None
             then orderOracleGroups (pe_reaches env) (pt_Symbol t) (target_package t) (group_stats s) w else w), s))"

text \<open>The targets of a run in their order, over one state; the bank is what the run opened.\<close>

definition start_probing :: "bank option \<Rightarrow> probing" where
  "start_probing b = \<lparr>pb_failures = Map.empty, pb_cache = Map.empty, pb_groups = Map.empty, pb_pending = Map.empty, pb_bank = b,
     pb_measured = 0, pb_events = []\<rparr>"

fun probe_run :: "probe_env \<Rightarrow> probed_target list \<Rightarrow> probing \<Rightarrow> (string + work) list \<times> probing" where
  "probe_run env [] s = ([], s)"
| "probe_run env (t # ts) s =
     (let (result, s) = probeGroupBaselines env t s; (results, s) = probe_run env ts s in (result # results, s))"

section \<open>Properties\<close>

subsection \<open>Every baseline is grounded\<close>

definition passing_probe :: "probe_env \<Rightarrow> bank_key \<Rightarrow> observation \<Rightarrow> bool" where
  "passing_probe env key ob \<longleftrightarrow>
     (\<exists>n g bound covers result elapsed. baselineKeyFor g = key \<and> pe_probe env n g bound covers = (None, result, elapsed) \<and>
        br_Ran result \<noteq> 0 \<and> br_Passed result \<and> br_Observation result = ob)"

definition adopted_entry :: "probe_env \<Rightarrow> bank_key \<Rightarrow> observation \<Rightarrow> bool" where
  "adopted_entry env key ob \<longleftrightarrow> \<not> pe_Force env \<and>
     (\<exists>n bk b (t::probed_target) g. baselineKeyFor g = key \<and> banked_for (Some bk) (persistedKey key (pe_bankScope env)) = Some b \<and>
        bankPinsHold (pe_freshness env) (pe_current env n) (bb_Evidence b) (groupOracleViews (pt_oracleViews t) g) = Inr True \<and> bb_PassedTests b \<noteq> [] \<and>
        ri_adopt (pe_ops env) (bb_Manifest b) (pe_treeDir env) = Inr ob \<and> pe_digest env ob = bb_Digest b)"

definition probing_inv :: "probe_env \<Rightarrow> probing \<Rightarrow> bool" where
  "probing_inv env s \<longleftrightarrow>
     (\<forall>key ob. pb_cache s key = Some ob \<longrightarrow> passing_probe env key ob \<or> adopted_entry env key ob) \<and>
     (\<forall>key. pb_failures s key \<noteq> None \<longrightarrow> pb_cache s key = None) \<and>
     finite (dom (pb_cache s) \<union> dom (pb_failures s)) \<and> pb_measured s = card (dom (pb_cache s) \<union> dom (pb_failures s))"

lemma start_probing_inv: "probing_inv env (start_probing b)"
  by (simp add: probing_inv_def start_probing_def)

lemma banked_serve_grounded:
  assumes "banked_serve env t g (banked_for b (persistedKey (baselineKeyFor g) (pe_bankScope env))) n = Some ob"
  shows "adopted_entry env (baselineKeyFor g) ob"
proof -
  obtain bk where bk: "b = Some bk" using assms by (auto simp: banked_serve_def banked_for_def split: option.splits)
  show ?thesis using assms unfolding bk adopted_entry_def
    by (fastforce simp: banked_serve_def split: option.splits sum.splits if_splits)
qed

lemma probe_reason_passing: "probe_reason g err result = [] \<longleftrightarrow> err = None \<and> br_Ran result \<noteq> 0 \<and> br_Passed result"
  by (simp add: probe_reason_def split: option.splits)

lemma probe_fresh_step:
  assumes "probe_fresh env t g banked s = (r, s')"
  shows "pb_measured s' = Suc (pb_measured s)"
    and "r = Inl reason \<Longrightarrow> pb_failures s' = (pb_failures s)(baselineKeyFor g \<mapsto> reason) \<and> pb_cache s' = pb_cache s"
    and "r = Inr ob \<Longrightarrow> pb_failures s' = pb_failures s \<and> pb_cache s' = (pb_cache s)(baselineKeyFor g \<mapsto> ob) \<and> passing_probe env (baselineKeyFor g) ob"
proof -
  let ?covers = "if \<not> wo_shaped (pt_work t) \<and> pe_covered env then cover_packages env t g else []"
  obtain err result elapsed where probe: "pe_probe env (pb_measured s) g (probe_bound env banked) ?covers = (err, result, elapsed)"
    by (metis prod_cases3)
  show "pb_measured s' = Suc (pb_measured s)"
    using assms probe by (auto simp: probe_fresh_def Let_def split: if_splits prod.splits)
  show "r = Inl reason \<Longrightarrow> pb_failures s' = (pb_failures s)(baselineKeyFor g \<mapsto> reason) \<and> pb_cache s' = pb_cache s"
    using assms probe by (auto simp: probe_fresh_def Let_def split: if_splits prod.splits)
  assume ok: "r = Inr ob"
  then have "probe_reason g err result = []" and ob: "ob = br_Observation result"
    using assms probe by (auto simp: probe_fresh_def Let_def split: if_splits prod.splits)
  then have "passing_probe env (baselineKeyFor g) ob" using probe unfolding probe_reason_passing passing_probe_def by blast
  moreover have "pb_failures s' = pb_failures s \<and> pb_cache s' = (pb_cache s)(baselineKeyFor g \<mapsto> ob)"
    using assms probe ok by (auto simp: probe_fresh_def Let_def split: if_splits prod.splits)
  ultimately show "pb_failures s' = pb_failures s \<and> pb_cache s' = (pb_cache s)(baselineKeyFor g \<mapsto> ob) \<and> passing_probe env (baselineKeyFor g) ob"
    by blast
qed

lemma measure_group_step:
  assumes "measure_group env t g s = (r, s')"
  shows "pb_measured s' = Suc (pb_measured s)"
    and "r = Inl reason \<Longrightarrow> pb_failures s' = (pb_failures s)(baselineKeyFor g \<mapsto> reason) \<and> pb_cache s' = pb_cache s"
    and "r = Inr ob \<Longrightarrow> pb_failures s' = pb_failures s \<and> pb_cache s' = (pb_cache s)(baselineKeyFor g \<mapsto> ob) \<and>
      (passing_probe env (baselineKeyFor g) ob \<or> adopted_entry env (baselineKeyFor g) ob)"
  using assms probe_fresh_step [of env t g _ s r s'] banked_serve_grounded
  by (fastforce simp: measure_group_def Let_def split: option.splits)+

lemma probing_inv_measured:
  assumes inv: "probing_inv env s" and new: "pb_failures s (baselineKeyFor g) = None" "pb_cache s (baselineKeyFor g) = None"
    and step: "measure_group env t g s = (r, s')"
  shows "probing_inv env s' \<and> dom (pb_cache s') \<union> dom (pb_failures s') = insert (baselineKeyFor g) (dom (pb_cache s) \<union> dom (pb_failures s)) \<and>
    (\<forall>key ob. pb_cache s key = Some ob \<longrightarrow> pb_cache s' key = Some ob) \<and> (\<forall>ob. r = Inr ob \<longrightarrow> pb_cache s' (baselineKeyFor g) = Some ob)"
proof (cases r)
  case (Inl reason)
  note parts = measure_group_step(1) [OF step] measure_group_step(2) [OF step Inl]
  show ?thesis using inv new parts Inl unfolding probing_inv_def by (auto simp: domIff)
next
  case (Inr ob)
  note parts = measure_group_step(1) [OF step] measure_group_step(3) [OF step Inr]
  show ?thesis using inv new parts Inr unfolding probing_inv_def by (auto simp: domIff)
qed

lemma group_baseline_inv:
  assumes inv: "probing_inv env s" and step: "group_baseline_of env t g s = (r, s')"
  shows "probing_inv env s' \<and> dom (pb_cache s') \<union> dom (pb_failures s') = insert (baselineKeyFor g) (dom (pb_cache s) \<union> dom (pb_failures s)) \<and>
    (\<forall>key ob. pb_cache s key = Some ob \<longrightarrow> pb_cache s' key = Some ob) \<and> (\<forall>ob. r = Inr ob \<longrightarrow> pb_cache s' (baselineKeyFor g) = Some ob)"
proof (cases "pb_failures s (baselineKeyFor g) = None \<and> pb_cache s (baselineKeyFor g) = None")
  case True
  then have "measure_group env t g s = (r, s')" using step by (simp add: group_baseline_of_def)
  then show ?thesis using probing_inv_measured [OF inv] True by blast
next
  case False
  then have "s' = s" "\<forall>ob. r = Inr ob \<longrightarrow> pb_cache s (baselineKeyFor g) = Some ob" "baselineKeyFor g \<in> dom (pb_cache s) \<union> dom (pb_failures s)"
    using step by (auto simp: group_baseline_of_def split: option.splits)
  then show ?thesis using inv by (simp add: insert_absorb)
qed

lemma baselineKey_passed [simp]: "baselineKeyFor (g\<lparr>gr_passed := p\<rparr>) = baselineKeyFor g"
  by (simp add: baselineKeyFor_def)

lemma probe_groups_inv:
  "probing_inv env s \<Longrightarrow> probe_groups env t gs s = (r, s') \<Longrightarrow>
     probing_inv env s' \<and> dom (pb_cache s') \<union> dom (pb_failures s') \<subseteq> baselineKeyFor ` set gs \<union> (dom (pb_cache s) \<union> dom (pb_failures s)) \<and>
     (\<forall>key ob. pb_cache s key = Some ob \<longrightarrow> pb_cache s' key = Some ob) \<and>
     (\<forall>pairs. r = Inr pairs \<longrightarrow> map (baselineKeyFor \<circ> fst) pairs = map baselineKeyFor gs \<and> (\<forall>(g, ob) \<in> set pairs. pb_cache s' (baselineKeyFor g) = Some ob))"
proof (induction gs arbitrary: s r s')
  case (Cons g gs)
  obtain r1 s1 where one: "group_baseline_of env t g s = (r1, s1)" by (metis surj_pair)
  note head = group_baseline_inv [OF Cons.prems(1) one]
  show ?case
  proof (cases r1)
    case (Inl reason)
    then have "r = Inl reason" "s' = s1" using Cons.prems one by auto
    then show ?thesis using head by auto
  next
    case (Inr state)
    obtain r2 s2 where rest: "probe_groups env t gs s1 = (r2, s2)" by (metis surj_pair)
    note tail = Cons.IH [OF conjunct1 [OF head] rest]
    have s': "s' = s2" using Cons.prems one Inr rest by (auto split: sum.splits)
    have keys: "dom (pb_cache s') \<union> dom (pb_failures s') \<subseteq> baselineKeyFor ` set (g # gs) \<union> (dom (pb_cache s) \<union> dom (pb_failures s))"
      using head tail unfolding s' by auto
    have stays: "\<forall>key ob. pb_cache s key = Some ob \<longrightarrow> pb_cache s' key = Some ob" using head tail unfolding s' by blast
    have mine: "pb_cache s' (baselineKeyFor g) = Some state" using head tail Inr unfolding s' by blast
    have "map (baselineKeyFor \<circ> fst) pairs = map baselineKeyFor (g # gs) \<and> (\<forall>(g, ob) \<in> set pairs. pb_cache s' (baselineKeyFor g) = Some ob)"
      if "r = Inr pairs" for pairs
    proof -
      note result = that
      obtain more_pairs where r2: "r2 = Inr more_pairs" and pairs: "pairs = (g\<lparr>gr_passed := passed_of s1 g\<rparr>, state) # more_pairs"
        using result Cons.prems one Inr rest by (auto split: sum.splits)
      show ?thesis using tail mine unfolding pairs r2 s' by (simp add: comp_def)
    qed
    then show ?thesis using keys stays tail unfolding s' by blast
  qed
qed auto

subsection \<open>Ordering loses nothing\<close>

lemma with_baselines_zip: "length (wo_baselines w) = length (wo_groups w) \<Longrightarrow> with_baselines w = zip (wo_groups w) (map Some (wo_baselines w))"
  by (rule nth_equalityI) (simp_all add: with_baselines_def nth_enumerate_eq)

lemma ordered_pairs:
  assumes lengths: "length (wo_baselines w) = length (wo_groups w)" and ordered: "\<not> wo_shaped w" "length (wo_groups w) > 1"
  shows "with_baselines (orderOracleGroups reaches symbol pkg stats w) = sort_key (group_rank reaches symbol pkg stats w \<circ> fst) (with_baselines w)"
    and "length (wo_baselines (orderOracleGroups reaches symbol pkg stats w)) = length (wo_groups (orderOracleGroups reaches symbol pkg stats w))"
proof -
  let ?ranked = "sort_key (group_rank reaches symbol pkg stats w \<circ> fst) (with_baselines w)"
  let ?w = "orderOracleGroups reaches symbol pkg stats w"
  have len: "length ?ranked = length (wo_groups w)" by (simp add: with_baselines_def)
  have groups: "wo_groups ?w = map fst ?ranked" using ordered by (simp add: orderOracleGroups_def Let_def)
  have held: "snd p \<noteq> None" if "p \<in> set ?ranked" for p
  proof -
    note member = that
    obtain n where "Some (wo_baselines w ! n) = snd p" using member unfolding set_sort with_baselines_zip [OF lengths] by (auto simp: in_set_zip)
    then show ?thesis by (metis option.distinct(1))
  qed
  have baselines: "map Some (wo_baselines ?w) = map snd ?ranked"
  proof (rule nth_equalityI)
    show "length (map Some (wo_baselines ?w)) = length (map snd ?ranked)" using ordered lengths len by (simp add: orderOracleGroups_def Let_def)
    fix i assume "i < length (map Some (wo_baselines ?w))"
    then have i: "i < length ?ranked" "i < length (wo_baselines w)" using ordered lengths len by (simp_all add: orderOracleGroups_def Let_def)
    then obtain b where "snd (?ranked ! i) = Some b" using held [OF nth_mem [OF i(1)]] by auto
    then show "map Some (wo_baselines ?w) ! i = map snd ?ranked ! i"
      using ordered i by (simp add: orderOracleGroups_def Let_def nth_enumerate_eq)
  qed
  have "length (map Some (wo_baselines ?w)) = length (map snd ?ranked)" unfolding baselines by simp
  then show lens: "length (wo_baselines ?w) = length (wo_groups ?w)" unfolding groups by simp
  show "with_baselines ?w = ?ranked" unfolding with_baselines_zip [OF lens] baselines groups by (simp add: zip_map_fst_snd)
qed

lemma ordered_mset:
  assumes "length (wo_baselines w) = length (wo_groups w)" "\<not> wo_shaped w" "length (wo_groups w) > 1"
  shows "mset (zip (wo_groups (orderOracleGroups reaches symbol pkg stats w)) (wo_baselines (orderOracleGroups reaches symbol pkg stats w))) =
      mset (zip (wo_groups w) (wo_baselines w))"
proof -
  note order = ordered_pairs [OF assms, of reaches symbol pkg stats]
  have the_pairs: "map (map_prod id the) (with_baselines v) = zip (wo_groups v) (wo_baselines v)" if "length (wo_baselines v) = length (wo_groups v)" for v
    unfolding with_baselines_zip [OF that] by (simp add: zip_map2 comp_def map_prod_def split_def)
  show ?thesis
    unfolding the_pairs [OF order(2), symmetric] the_pairs [OF assms(1), symmetric] mset_map order(1) by simp
qed

text \<open>The oracle groups of a target are reordered without narrowing its oracle or separating a group from its baseline: the groups whose
  tests reach the target come first, of these and of the rest the cheaper ones.\<close>

theorem ordering_keeps_every_group:
  assumes "length (wo_baselines w) = length (wo_groups w)" "\<not> wo_shaped w" "length (wo_groups w) > 1"
  shows "mset (zip (wo_groups (orderOracleGroups reaches symbol pkg stats w)) (wo_baselines (orderOracleGroups reaches symbol pkg stats w))) =
      mset (zip (wo_groups w) (wo_baselines w))"
    and "sorted (map (group_rank reaches symbol pkg stats w) (wo_groups (orderOracleGroups reaches symbol pkg stats w)))"
    and "i < j \<Longrightarrow> j < length (wo_groups w) \<Longrightarrow> rta_reaches reaches symbol pkg w (wo_groups (orderOracleGroups reaches symbol pkg stats w) ! j) \<Longrightarrow>
      rta_reaches reaches symbol pkg w (wo_groups (orderOracleGroups reaches symbol pkg stats w) ! i)"
proof -
  let ?w = "orderOracleGroups reaches symbol pkg stats w"
  note order = ordered_pairs [OF assms, of reaches symbol pkg stats]
  show "mset (zip (wo_groups ?w) (wo_baselines ?w)) = mset (zip (wo_groups w) (wo_baselines w))" by (rule ordered_mset [OF assms])
  have "sorted (map (group_rank reaches symbol pkg stats w \<circ> fst) (with_baselines ?w))" unfolding order(1) by (rule sorted_sort_key)
  moreover have "map fst (with_baselines ?w) = wo_groups ?w" unfolding with_baselines_zip [OF order(2)] using order(2) by simp
  ultimately show sorted: "sorted (map (group_rank reaches symbol pkg stats w) (wo_groups ?w))" by (metis map_map)
  assume "i < j" "j < length (wo_groups w)" and reached: "rta_reaches reaches symbol pkg w (wo_groups ?w ! j)"
  moreover have "length (wo_groups ?w) = length (wo_groups w)" using assms by (simp add: orderOracleGroups_def Let_def with_baselines_def)
  ultimately have "group_rank reaches symbol pkg stats w (wo_groups ?w ! i) \<le> group_rank reaches symbol pkg stats w (wo_groups ?w ! j)"
    using sorted_nth_mono [OF sorted, of i j] by simp
  then show "rta_reaches reaches symbol pkg w (wo_groups ?w ! i)" using reached by (auto simp: group_rank_def less_eq_prod_def)
qed

subsection \<open>The run\<close>

lemma probed_target_inv:
  assumes inv: "probing_inv env s" and step: "probeGroupBaselines env t s = (r, s')"
  shows "probing_inv env s' \<and> dom (pb_cache s') \<union> dom (pb_failures s') \<subseteq> baselineKeyFor ` set (wo_groups (pt_work t)) \<union> (dom (pb_cache s) \<union> dom (pb_failures s)) \<and>
    (\<forall>w. r = Inr w \<longrightarrow> length (wo_baselines w) = length (wo_groups w) \<and>
      mset (map baselineKeyFor (wo_groups w)) = mset (map baselineKeyFor (wo_groups (pt_work t))) \<and>
      (\<forall>(g, ob) \<in> set (zip (wo_groups w) (wo_baselines w)). pb_cache s' (baselineKeyFor g) = Some ob))"
proof -
  obtain r1 s1 where groups: "probe_groups env t (wo_groups (pt_work t)) s = (r1, s1)" by (metis surj_pair)
  note kept = probe_groups_inv [OF inv groups]
  have s': "s' = s1" using step groups by (auto simp: probeGroupBaselines_def Let_def split: sum.splits)
  have "length (wo_baselines w) = length (wo_groups w) \<and>
      mset (map baselineKeyFor (wo_groups w)) = mset (map baselineKeyFor (wo_groups (pt_work t))) \<and>
      (\<forall>(g, ob) \<in> set (zip (wo_groups w) (wo_baselines w)). pb_cache s1 (baselineKeyFor g) = Some ob)" if "r = Inr w" for w
  proof -
    note result = that
    obtain pairs where r1: "r1 = Inr pairs" using result step groups by (auto simp: probeGroupBaselines_def Let_def split: sum.splits)
    let ?w = "(pt_work t)\<lparr>wo_groups := map fst pairs, wo_baselines := map snd pairs\<rparr>"
    have keys: "map baselineKeyFor (map fst pairs) = map baselineKeyFor (wo_groups (pt_work t))"
      and held: "\<forall>(g, ob) \<in> set pairs. pb_cache s1 (baselineKeyFor g) = Some ob" using kept r1 by (simp_all add: map_map [symmetric] del: map_map)
    have chosen: "w = (if \<not> wo_shaped ?w \<and> length (wo_groups ?w) > 1 \<and> pt_targetView t \<noteq> None
        then orderOracleGroups (pe_reaches env) (pt_Symbol t) (target_package t) (group_stats s1) ?w else ?w)"
      using result step unfolding probeGroupBaselines_def groups r1 prod.case sum.case Let_def by simp
    show ?thesis
    proof (cases "\<not> wo_shaped ?w \<and> length (wo_groups ?w) > 1 \<and> pt_targetView t \<noteq> None")
      case False
      then have "w = ?w" by (subst chosen) (rule if_not_P)
      then show ?thesis using keys held by (simp add: zip_map_fst_snd)
    next
      case True
      then have w: "w = orderOracleGroups (pe_reaches env) (pt_Symbol t) (target_package t) (group_stats s1) ?w"
        using True by (subst chosen) (rule if_P)
      have zipped: "zip (wo_groups ?w) (wo_baselines ?w) = pairs" by (simp add: zip_map_fst_snd)
      have lens: "length (wo_baselines ?w) = length (wo_groups ?w)" by simp
      note order = ordered_pairs [OF lens, of "pe_reaches env" "pt_Symbol t" "target_package t" "group_stats s1"]
      have several: "\<not> wo_shaped ?w" "length (wo_groups ?w) > 1" using True by blast+
      have same: "mset (zip (wo_groups w) (wo_baselines w)) = mset pairs" using ordered_mset [OF lens several] unfolding w zipped .
      have lens': "length (wo_baselines w) = length (wo_groups w)" unfolding w by (rule order(2) [OF several])
      have "set (zip (wo_groups w) (wo_baselines w)) = set pairs" using same by (metis set_mset_mset)
      moreover have "mset (map baselineKeyFor (wo_groups w)) = mset (map (baselineKeyFor \<circ> fst) (zip (wo_groups w) (wo_baselines w)))"
        using lens' by (simp add: map_map [symmetric] del: map_map)
      then have "mset (map baselineKeyFor (wo_groups w)) = mset (map baselineKeyFor (map fst pairs))" using same by (simp add: image_mset.compositionality [symmetric])
      then have "mset (map baselineKeyFor (wo_groups w)) = mset (map baselineKeyFor (wo_groups (pt_work t)))" unfolding keys .
      ultimately show ?thesis using lens' held by simp
    qed
  qed
  then show ?thesis using kept unfolding s' by blast
qed

lemma probe_run_inv:
  "probing_inv env s \<Longrightarrow> probe_run env ts s = (results, s') \<Longrightarrow>
     probing_inv env s' \<and> dom (pb_cache s') \<union> dom (pb_failures s') \<subseteq> (\<Union>t \<in> set ts. baselineKeyFor ` set (wo_groups (pt_work t))) \<union> (dom (pb_cache s) \<union> dom (pb_failures s)) \<and>
     length results = length ts \<and>
     (\<forall>i < length ts. \<forall>w. results ! i = Inr w \<longrightarrow> length (wo_baselines w) = length (wo_groups w) \<and>
        mset (map baselineKeyFor (wo_groups w)) = mset (map baselineKeyFor (wo_groups (pt_work (ts ! i)))) \<and>
        (\<forall>(g, ob) \<in> set (zip (wo_groups w) (wo_baselines w)). passing_probe env (baselineKeyFor g) ob \<or> adopted_entry env (baselineKeyFor g) ob))"
proof (induction ts arbitrary: s results)
  case (Cons t ts)
  obtain r1 s1 where one: "probeGroupBaselines env t s = (r1, s1)" by (metis surj_pair)
  obtain rest s2 where run: "probe_run env ts s1 = (rest, s2)" by (metis surj_pair)
  have results: "results = r1 # rest" "s' = s2" using Cons.prems one run by simp_all
  note head = probed_target_inv [OF Cons.prems(1) one]
  note tail = Cons.IH [OF conjunct1 [OF head] run [folded results(2)]]
  have grounded: "\<forall>key ob. pb_cache s1 key = Some ob \<longrightarrow> passing_probe env key ob \<or> adopted_entry env key ob" using head unfolding probing_inv_def by blast
  have mine: "\<forall>w. r1 = Inr w \<longrightarrow> length (wo_baselines w) = length (wo_groups w) \<and>
      mset (map baselineKeyFor (wo_groups w)) = mset (map baselineKeyFor (wo_groups (pt_work t))) \<and>
      (\<forall>(g, ob) \<in> set (zip (wo_groups w) (wo_baselines w)). passing_probe env (baselineKeyFor g) ob \<or> adopted_entry env (baselineKeyFor g) ob)"
    using head grounded by fast
  have keys: "dom (pb_cache s') \<union> dom (pb_failures s') \<subseteq> (\<Union>t \<in> set (t # ts). baselineKeyFor ` set (wo_groups (pt_work t))) \<union> (dom (pb_cache s) \<union> dom (pb_failures s))"
    (is "?C \<subseteq> ?Z \<union> ?B")
  proof -
    let ?X = "baselineKeyFor ` set (wo_groups (pt_work t))" and ?Y = "\<Union>t \<in> set ts. baselineKeyFor ` set (wo_groups (pt_work t))"
    have "dom (pb_cache s1) \<union> dom (pb_failures s1) \<subseteq> ?X \<union> ?B" using head by (elim conjE) assumption
    moreover have "?C \<subseteq> ?Y \<union> (dom (pb_cache s1) \<union> dom (pb_failures s1))" using tail by (elim conjE) assumption
    ultimately have "?C \<subseteq> ?Y \<union> (?X \<union> ?B)" by (meson Un_mono order_refl order_trans)
    moreover have "?Z \<union> ?B = ?Y \<union> (?X \<union> ?B)" by (simp add: Un_ac)
    ultimately show ?thesis by simp
  qed
  show ?case unfolding results(1)
  proof (intro conjI allI impI keys)
    show "probing_inv env s'" "length (r1 # rest) = length (t # ts)" using tail by simp_all
    fix i w assume i: "i < length (t # ts)" "(r1 # rest) ! i = Inr w"
    have this_one: "length (wo_baselines w) = length (wo_groups w) \<and>
        mset (map baselineKeyFor (wo_groups w)) = mset (map baselineKeyFor (wo_groups (pt_work ((t # ts) ! i)))) \<and>
        (\<forall>(g, ob) \<in> set (zip (wo_groups w) (wo_baselines w)). passing_probe env (baselineKeyFor g) ob \<or> adopted_entry env (baselineKeyFor g) ob)"
      using i mine tail by (cases i) simp_all
    show "length (wo_baselines w) = length (wo_groups w)"
      "mset (map baselineKeyFor (wo_groups w)) = mset (map baselineKeyFor (wo_groups (pt_work ((t # ts) ! i))))"
      "\<forall>(g, ob) \<in> set (zip (wo_groups w) (wo_baselines w)). passing_probe env (baselineKeyFor g) ob \<or> adopted_entry env (baselineKeyFor g) ob"
      using this_one by blast+
  qed
qed simp

text \<open>No target is measured on a baseline nobody saw pass: every work item that leaves the baseline probes carries one baseline for each of its
  oracle groups, and each is the observation of a probe that ran and passed, or an adopted entry of the bank, when the run is not forced, whose pins
  held, whose digest was reproduced and which names the tests that passed.\<close>

theorem baselines_are_grounded:
  assumes "probe_run env ts (start_probing b) = (results, s)" "i < length ts" "results ! i = Inr w"
  shows "length (wo_baselines w) = length (wo_groups w)"
    and "mset (map baselineKeyFor (wo_groups w)) = mset (map baselineKeyFor (wo_groups (pt_work (ts ! i))))"
    and "\<forall>(g, ob) \<in> set (zip (wo_groups w) (wo_baselines w)). passing_probe env (baselineKeyFor g) ob \<or> adopted_entry env (baselineKeyFor g) ob"
  using probe_run_inv [OF start_probing_inv assms(1)] assms(2,3) by blast+

text \<open>A run measures each oracle group once: however many targets share a group, and whether its baseline passed or failed, the number of
  measurements is at most the number of distinct groups of the targets.\<close>

theorem each_group_is_measured_once:
  "pb_measured (snd (probe_run env ts (start_probing b))) \<le> card (\<Union>t \<in> set ts. baselineKeyFor ` set (wo_groups (pt_work t)))"
proof -
  let ?s = "snd (probe_run env ts (start_probing b))"
  let ?keys = "\<Union>t \<in> set ts. baselineKeyFor ` set (wo_groups (pt_work t))"
  have run: "probe_run env ts (start_probing b) = (fst (probe_run env ts (start_probing b)), ?s)" by simp
  have "dom (pb_cache ?s) \<union> dom (pb_failures ?s) \<subseteq> ?keys" "pb_measured ?s = card (dom (pb_cache ?s) \<union> dom (pb_failures ?s))"
    using probe_run_inv [OF start_probing_inv run] by (simp_all add: start_probing_def probing_inv_def)
  then show ?thesis by (simp add: card_mono)
qed

subsection \<open>A work item ready to execute\<close>

text \<open>Each oracle package is one group, of exactly its tests, and each group's baseline was seen to pass.\<close>

definition grounded :: "probe_env \<Rightarrow> oracle_group \<times> observation \<Rightarrow> bool" where
  "grounded env p \<longleftrightarrow> passing_probe env (baselineKeyFor (fst p)) (snd p) \<or> adopted_entry env (baselineKeyFor (fst p)) (snd p)"

definition key_run :: "bank_key \<Rightarrow> string \<times> string" where
  "key_run k = (bk_pkg k, bk_run k)"

definition group_run :: "oracle_group \<Rightarrow> string \<times> string" where
  "group_run g = (hd (gr_pkgs g), gr_runRegex g)"

lemma group_run_key: "group_run = key_run \<circ> baselineKeyFor"
  by (simp add: fun_eq_iff group_run_def key_run_def baselineKeyFor_def)

lemma probed_oracle: "probeGroupBaselines env t s = (Inr w, s') \<Longrightarrow> wo_oracle w = wo_oracle (pt_work t) \<and> wo_oracleSet w = wo_oracleSet (pt_work t)"
  by (auto simp: probeGroupBaselines_def orderOracleGroups_def Let_def split: prod.splits sum.splits if_splits)

lemma probed_ready:
  assumes "probing_inv env s" "probeGroupBaselines env t s = (Inr w, s')"
  shows "length (wo_baselines w) = length (wo_groups w)" "mset (map group_run (wo_groups w)) = mset (map group_run (wo_groups (pt_work t)))"
    "list_all (grounded env) (zip (wo_groups w) (wo_baselines w))"
proof -
  note step = probed_target_inv [OF assms]
  have w: "length (wo_baselines w) = length (wo_groups w)" "mset (map baselineKeyFor (wo_groups w)) = mset (map baselineKeyFor (wo_groups (pt_work t)))"
    "\<forall>(g, ob) \<in> set (zip (wo_groups w) (wo_baselines w)). pb_cache s' (baselineKeyFor g) = Some ob" using step by blast+
  show "length (wo_baselines w) = length (wo_groups w)" by (rule w(1))
  have "image_mset key_run (mset (map baselineKeyFor (wo_groups w))) = image_mset key_run (mset (map baselineKeyFor (wo_groups (pt_work t))))" by (simp only: w(2))
  then show "mset (map group_run (wo_groups w)) = mset (map group_run (wo_groups (pt_work t)))"
    by (simp add: group_run_key image_mset.compositionality [symmetric])
  have "probing_inv env s'" using step by blast
  then have "\<forall>key ob. pb_cache s' key = Some ob \<longrightarrow> passing_probe env key ob \<or> adopted_entry env key ob" unfolding probing_inv_def by blast
  then show "list_all (grounded env) (zip (wo_groups w) (wo_baselines w))" using w(3) by (fastforce simp: list_all_iff grounded_def)
qed

subsection \<open>The remembered reason\<close>

text \<open>The remembered reason of a failing group is the first target's own: when the target that met the failure derived its oracle and the
  group is a consumer package of it, its advice, naming that target, skips every later target of the group, also one that stated its
  oracle itself; had that target come first, its reason would carry no advice.\<close>

theorem remembered_reason_names_another_target:
  assumes same: "baselineKeyFor g' = baselineKeyFor g" and derived: "\<not> pt_explicit t" "pt_targetView t \<noteq> None" "group_pkg g \<noteq> target_package t"
    and stated: "pt_explicit t'" and fails: "\<And>n h bound covers. \<exists>result elapsed. pe_probe env n h bound covers = (Some e, result, elapsed)"
  shows "fst (group_baseline_of env t' g' (snd (group_baseline_of env t g (start_probing None)))) =
      Inl (''oracle baseline probe failed in '' @ group_pkg g @ '': '' @ e @ escape_note t g)"
    and "escape_note t g = '' '' @ em_dash @ '' a consumer package of the derived oracle; fix its suite, or pass an explicit oracle to measure '' @ pt_Symbol t @ '' without it''"
    and "fst (group_baseline_of env t' g' (start_probing None)) = Inl (''oracle baseline probe failed in '' @ group_pkg g' @ '': '' @ e)"
proof -
  have first: "\<exists>s. group_baseline_of env u h (start_probing None) = (Inl (''oracle baseline probe failed in '' @ group_pkg h @ '': '' @ e @ escape_note u h), s) \<and>
      pb_failures s (baselineKeyFor h) = Some (''oracle baseline probe failed in '' @ group_pkg h @ '': '' @ e @ escape_note u h)" for u h
  proof -
    obtain result elapsed where probe: "pe_probe env 0 h (probe_bound env None)
        (if \<not> wo_shaped (pt_work u) \<and> pe_covered env then cover_packages env u h else []) = (Some e, result, elapsed)"
      using fails by blast
    show ?thesis
      by (simp add: group_baseline_of_def measure_group_def start_probing_def banked_for_def banked_serve_def probe_fresh_def probe probe_reason_def Let_def)
  qed
  obtain s where s: "group_baseline_of env t g (start_probing None) = (Inl (''oracle baseline probe failed in '' @ group_pkg g @ '': '' @ e @ escape_note t g), s)"
      "pb_failures s (baselineKeyFor g) = Some (''oracle baseline probe failed in '' @ group_pkg g @ '': '' @ e @ escape_note t g)"
    using first by blast
  show "fst (group_baseline_of env t' g' (snd (group_baseline_of env t g (start_probing None)))) =
      Inl (''oracle baseline probe failed in '' @ group_pkg g @ '': '' @ e @ escape_note t g)"
    unfolding s(1) by (simp add: group_baseline_of_def same s(2))
  show "escape_note t g = '' '' @ em_dash @ '' a consumer package of the derived oracle; fix its suite, or pass an explicit oracle to measure '' @ pt_Symbol t @ '' without it''"
    using derived by (simp add: escape_note_def)
  obtain s' where "group_baseline_of env t' g' (start_probing None) = (Inl (''oracle baseline probe failed in '' @ group_pkg g' @ '': '' @ e @ escape_note t' g'), s')"
    using first by blast
  then show "fst (group_baseline_of env t' g' (start_probing None)) = Inl (''oracle baseline probe failed in '' @ group_pkg g' @ '': '' @ e)"
    using stated by (simp add: escape_note_def)
qed

subsection \<open>Witnesses\<close>

definition sample_probe_env :: "string option \<Rightarrow> probe_env" where
  "sample_probe_env err = \<lparr>pe_ops = plain_runtime, pe_digest = ob_Rest, pe_treeDir = ''/r'', pe_freshness = sample_fresh, pe_current = (\<lambda>_ _. sample_reading),
     pe_probe = (\<lambda>_ _ _ _. (err, \<lparr>br_Ran = 1, br_Passed = True, br_Tests = [''p.TestA''], br_Failed = [], br_Diagnostic = [],
       br_Observation = \<lparr>ob_Unverifiable = False, ob_Rest = []\<rparr>, br_Coverage = None, br_TestDurations = []\<rparr>, 7)),
     pe_OracleTimeout = campaignBaselineLeash, pe_derive = False, pe_Force = False, pe_bankScope = [], pe_coverPkgs = (\<lambda>_. []), pe_covered = False,
     pe_sibling = (\<lambda>_ _. True), pe_validate = (\<lambda>_ _. Holds), pe_io = (\<lambda>_. \<lparr>bi_size = (\<lambda>_. 0), bi_disk = None, bi_writes = True\<rparr>),
     pe_now = int, pe_reaches = (\<lambda>_ _. True)\<rparr>"

definition sample_probed :: "bool \<Rightarrow> work \<Rightarrow> probed_target" where
  "sample_probed stated w = \<lparr>pt_Symbol = ''p.F'', pt_explicit = stated, pt_targetView = Some sample_judged, pt_oracleViews = [], pt_work = w\<rparr>"

definition other_group :: oracle_group where
  "other_group = sample_group\<lparr>gr_pkgs := [''q'']\<rparr>"

lemma sample_probes:
  "probe_run (sample_probe_env None) [sample_probed True sample_work, sample_probed True sample_work] (start_probing None) =
     ([Inr (sample_work\<lparr>wo_groups := [sample_group], wo_baselines := [\<lparr>ob_Unverifiable = False, ob_Rest = []\<rparr>]\<rparr>),
       Inr (sample_work\<lparr>wo_groups := [sample_group], wo_baselines := [\<lparr>ob_Unverifiable = False, ob_Rest = []\<rparr>]\<rparr>)],
      snd (probe_run (sample_probe_env None) [sample_probed True sample_work, sample_probed True sample_work] (start_probing None)))"
  by (simp add: probeGroupBaselines_def group_baseline_of_def measure_group_def start_probing_def banked_for_def banked_serve_def
    probe_fresh_def sample_probe_env_def sample_probed_def sample_work_def sample_group_def probe_reason_def plain_runtime_def
    passed_of_def probed_group_def Let_def)

theorem baselines_are_grounded_witness:
  "length (wo_baselines (sample_work\<lparr>wo_groups := [sample_group], wo_baselines := [\<lparr>ob_Unverifiable = False, ob_Rest = []\<rparr>]\<rparr>)) = 1"
  using baselines_are_grounded(1) [OF sample_probes, of 1] by simp

definition two_groups :: work where
  "two_groups = sample_work\<lparr>wo_groups := [sample_group, other_group],
     wo_baselines := [\<lparr>ob_Unverifiable = False, ob_Rest = ''a''\<rparr>, \<lparr>ob_Unverifiable = False, ob_Rest = ''b''\<rparr>]\<rparr>"

theorem ordering_keeps_every_group_witness:
  "sorted (map (group_rank (\<lambda>_ _. True) ''p.F'' ''p'' (\<lambda>_. (0, [])) two_groups)
     (wo_groups (orderOracleGroups (\<lambda>_ _. True) ''p.F'' ''p'' (\<lambda>_. (0, [])) two_groups)))"
  by (rule ordering_keeps_every_group(2)) (simp_all add: two_groups_def sample_work_def)

theorem remembered_reason_names_another_target_witness:
  "fst (group_baseline_of (sample_probe_env (Some ''boom'')) (sample_probed True sample_work) other_group
      (snd (group_baseline_of (sample_probe_env (Some ''boom'')) (sample_probed False sample_work) other_group (start_probing None)))) =
    Inl (''oracle baseline probe failed in q: boom'' @ escape_note (sample_probed False sample_work) other_group)"
  using remembered_reason_names_another_target(1) [of other_group other_group "sample_probed False sample_work" "sample_probed True sample_work"
      "sample_probe_env (Some ''boom'')" "''boom''"]
  by (simp add: sample_probed_def other_group_def group_pkg_def target_package_def sample_judged_def sample_probe_env_def)

end
