(* ===== verification/Prepare.thy ===== *)
theory Prepare
  imports Baselines Reports Inspection
begin

text \<open>
  The preparation of a run (\<open>Run\<close> in \<open>run.go\<close>, before its campaign loop): every target is resolved to an oracle and a body, and then
  served, extended, spliced or measured anew, with one decision streamed for each in target order; what has to execute leaves as a work item.

  \<open>prep_env\<close> is what the preparation is given: the run's pins (\<open>pp_campaign\<close>), its targets, and the engine's and the library's
  answers: the oracle derivation, the body hash, the decision views of each mode, the producer union, the candidate generation, the
  property runtimes. Memos of answers that do not change during a run are not modelled; the memo of baselines is (\<open>Baselines\<close>).
  The state is the run's (\<open>Measure\<close>), the decisions, the baselines and the property notes. Cancellation, progress events and the
  enrolment of producer modules, which the epilogue's validation reads, are left out.
\<close>

subsection \<open>Oracle packages\<close>

definition testRunRegex :: "string list \<Rightarrow> string" where
  "testRunRegex fns = ''^('' @ join ''|'' fns @ '')$''"

definition pkgRuns :: "string list \<Rightarrow> (string \<times> string) list" where
  "pkgRuns oracle =
     (let names = filter (\<lambda>(pkg, fn). pkg \<noteq> [] \<and> fn \<noteq> []) (map splitTestSymbol oracle) in
      map (\<lambda>pkg. (pkg, testRunRegex (sort (map snd (filter (\<lambda>n. fst n = pkg) names))))) (sort (remdups (map fst names))))"

definition explicitOracle :: "target \<Rightarrow> bool" where
  "explicitOracle tg \<longleftrightarrow> t_OracleExplicit tg \<or> t_Oracle tg \<noteq> []"

definition Shaped :: "target \<Rightarrow> bool" where
  "Shaped tg \<longleftrightarrow> t_Structural tg \<noteq> None \<or> t_Manual tg \<noteq> None"

definition target_shape_of :: "target \<Rightarrow> target_shape" where
  "target_shape_of tg = \<lparr>ts_Structural = t_Structural tg, ts_Manual = t_Manual tg\<rparr>"

definition validate_structural :: "(string \<Rightarrow> string) \<Rightarrow> string \<Rightarrow> structural_spec \<Rightarrow> string option" where
  "validate_structural quote symbol s =
     (if st_Class s = ''import-boundary'' then
        (if st_Packages s = [] \<or> st_Forbidden s = [] then Some (''target '' @ symbol @ '': import-boundary requires packages and forbidden'')
         else if st_Type s \<noteq> [] \<or> st_Interface s \<noteq> [] then Some (''target '' @ symbol @ '': import-boundary takes no type/interface parameters'')
         else None)
      else if st_Class s = ''interface-satisfaction'' then
        (if st_Type s = [] \<or> st_Interface s = [] then Some (''target '' @ symbol @ '': interface-satisfaction requires type and interface'')
         else if st_Packages s \<noteq> [] \<or> st_Forbidden s \<noteq> [] then
           Some (''target '' @ symbol @ '': interface-satisfaction takes no packages/forbidden parameters'')
         else None)
      else Some (''target '' @ symbol @ '': unknown structural class '' @ quote (st_Class s)))"

fun validate_edits :: "string \<Rightarrow> nat \<Rightarrow> manual_edit list \<Rightarrow> string option" where
  "validate_edits symbol i [] = None"
| "validate_edits symbol i (e # es) =
     (if me_Find e = [] then Some (''target '' @ symbol @ '': manual edit '' @ nat_dec i @ '' has an empty find'')
      else if me_Find e = me_Replace e then Some (''target '' @ symbol @ '': manual edit '' @ nat_dec i @ '' replaces find with itself'')
      else validate_edits symbol (Suc i) es)"

definition validate_manual :: "string \<Rightarrow> manual_spec \<Rightarrow> string option" where
  "validate_manual symbol m =
     (if mn_File m = [] \<or> mn_Edits m = [] then Some (''target '' @ symbol @ '': a manual recipe requires file and edits'')
      else validate_edits symbol 0 (mn_Edits m))"

definition validateShapedTarget :: "(string \<Rightarrow> string) \<Rightarrow> target \<Rightarrow> string option" where
  "validateShapedTarget quote tg =
     (if t_Structural tg \<noteq> None \<and> t_Manual tg \<noteq> None then Some (''target '' @ t_Symbol tg @ '' declares both structural and manual forms'')
      else if t_Oracle tg = [] then Some (''target '' @ t_Symbol tg @ '': a shaped target requires an explicit oracle'')
      else case (case t_Structural tg of None \<Rightarrow> None | Some s \<Rightarrow> validate_structural quote (t_Symbol tg) s) of
          Some e \<Rightarrow> Some e
        | None \<Rightarrow> (case t_Manual tg of None \<Rightarrow> None | Some m \<Rightarrow> validate_manual (t_Symbol tg) m))"

subsection \<open>The run's inputs and state\<close>

datatype body_error = NotAFunction | Vanished string | BodyFault string
datatype shaped_error = ShapedDrift string | ShapedFault string
datatype generation_error = SourceDrift string | GenerationFault string

record resolved_target =
  rt_index :: nat
  rt_oracle :: "string list"
  rt_oracleNote :: string
  rt_attested :: bool
  rt_shaped :: "candidate list option"
  rt_shapedDigest :: string
  rt_shapedFiles :: "string list"

record prep_env =
  pp_campaign :: campaign
  pp_targets :: "target list"
  pp_Force :: bool
  pp_PlanOnly :: bool
  pp_packageOf :: "string \<Rightarrow> string + string"
  pp_deriveOracle :: "string \<Rightarrow> string + string list \<times> string list"
  pp_scopeOracle :: "string \<Rightarrow> string \<Rightarrow> string list \<Rightarrow> string list"
  pp_validateOracle :: "string list \<Rightarrow> string option"
  pp_shapedCandidates :: "target \<Rightarrow> shaped_error + candidate list \<times> string \<times> string list"
  pp_bodyHash :: "string \<Rightarrow> body_error + string"
  pp_tree :: tree_ops
  pp_freshness :: freshness_ops
  pp_current :: "nat \<Rightarrow> nat \<Rightarrow> reading_key \<Rightarrow> reading"
  pp_viewChanged :: "string \<Rightarrow> bool"
  pp_viewFault :: "bool \<Rightarrow> string \<Rightarrow> string option"
  pp_views :: "bool \<Rightarrow> string \<Rightarrow> judged_view option"
  pp_runtimes :: "string + (string \<Rightarrow> string list)"
  pp_preflight :: "string option"
  pp_union :: "bool \<Rightarrow> string list \<Rightarrow> string list \<Rightarrow> string + (string \<Rightarrow> judged_view option) \<times> (string \<Rightarrow> string option)"
  pp_narrow :: "string list \<Rightarrow> string + (string \<Rightarrow> judged_view)"
  pp_rebuild :: "string list \<Rightarrow> string + (string \<Rightarrow> judged_view)"
  pp_ledger :: "judged_view \<Rightarrow> string + compartment_ledger"
  pp_generate :: "string \<Rightarrow> int \<Rightarrow> generation_error + generation"
  pp_packageContext :: "string \<Rightarrow> string + string \<times> string"
  pp_probes :: probe_env

record prep_state =
  ps_run :: run_state
  ps_pending :: "nat \<Rightarrow> run_decision option"
  ps_streamed :: "run_decision list"
  ps_probing :: probing
  ps_noted :: "(string \<times> string) list"

definition env_target :: "prep_env \<Rightarrow> nat \<Rightarrow> target" where
  "env_target env i = pp_targets env ! i"

definition env_symbol :: "prep_env \<Rightarrow> nat \<Rightarrow> string" where
  "env_symbol env i = t_Symbol (env_target env i)"

definition env_prior :: "prep_env \<Rightarrow> nat \<Rightarrow> finding option" where
  "env_prior env i = cg_prior (pp_campaign env) (env_symbol env i)"

text \<open>The first record of the run's selection is a symbol's prior; the others are read across selections.\<close>

definition split_prior :: "finding list \<Rightarrow> campaign \<Rightarrow> campaign" where
  "split_prior recs cg = cg\<lparr>cg_prior := (\<lambda>symbol. find (\<lambda>f. f_Selection f = cg_selKey cg \<and> f_Symbol f = symbol) recs),
     cg_crossSelectionPrior := filter (\<lambda>f. f_Selection f \<noteq> cg_selKey cg) recs\<rparr>"

subsection \<open>Terminal dispositions\<close>

text \<open>\<open>targetDone\<close> releases a target's proof unit once; before the units exist it has none to release. The list keeps every terminal
  disposition, also the ones of that earlier phase.\<close>

definition update_finding :: "nat \<Rightarrow> (finding \<Rightarrow> finding) \<Rightarrow> prep_state \<Rightarrow> prep_state" where
  "update_finding i g st =
     st\<lparr>ps_run := (ps_run st)\<lparr>rn_findings := (rn_findings (ps_run st))[i := g (rn_findings (ps_run st) ! i)]\<rparr>\<rparr>"

definition targetDone :: "nat \<Rightarrow> prep_state \<Rightarrow> prep_state" where
  "targetDone i st =
     (if i \<in> set (rn_done (ps_run st)) then st else st\<lparr>ps_run := (ps_run st)\<lparr>rn_done := rn_done (ps_run st) @ [i]\<rparr>\<rparr>)"

definition decide :: "nat \<Rightarrow> run_decision \<Rightarrow> bool \<Rightarrow> prep_state \<Rightarrow> prep_state" where
  "decide i decision emit st =
     (if emit then st\<lparr>ps_pending := (ps_pending st)(i \<mapsto> decision), ps_streamed := ps_streamed st @ [decision]\<rparr>
      else st\<lparr>ps_pending := (ps_pending st)(i \<mapsto> decision)\<rparr>)"

definition skipTarget :: "prep_env \<Rightarrow> nat \<Rightarrow> string \<Rightarrow> bool \<Rightarrow> prep_state \<Rightarrow> prep_state" where
  "skipTarget env i reason emit st =
     targetDone i (decide i \<lparr>rd_Symbol = env_symbol env i, rd_Action = ''skipped'', rd_Reason = reason, rd_Candidates = 0\<rparr> emit
       (update_finding i (\<lambda>f. f\<lparr>f_Skipped := reason\<rparr>) st))"

definition refuse_drifted :: "prep_env \<Rightarrow> nat \<Rightarrow> string \<Rightarrow> prep_state \<Rightarrow> prep_state" where
  "refuse_drifted env i reason st =
     targetDone i (st\<lparr>ps_run := (ps_run st)\<lparr>rn_drifted := rn_drifted (ps_run st) @ [(env_symbol env i, reason)]\<rparr>\<rparr>)"

definition refuseSkipped :: "prep_env \<Rightarrow> nat \<Rightarrow> string \<Rightarrow> bool \<Rightarrow> prep_state \<Rightarrow> prep_state" where
  "refuseSkipped env i reason emit st =
     (let full = reason @ cg_residue (pp_campaign env) in skipTarget env i full emit (refuse_drifted env i full st))"

definition cacheTarget :: "prep_env \<Rightarrow> nat \<Rightarrow> string \<Rightarrow> prep_state \<Rightarrow> prep_state" where
  "cacheTarget env i reason st =
     targetDone i (decide i \<lparr>rd_Symbol = env_symbol env i, rd_Action = ''cached'', rd_Reason = reason, rd_Candidates = 0\<rparr> True st)"

subsection \<open>Resolution\<close>

definition prep_oracle :: "prep_env \<Rightarrow> target \<Rightarrow> string + string list \<times> string list \<times> bool" where
  "prep_oracle env tg =
     (if explicitOracle tg then Inr (t_Oracle tg, [], False)
      else case pp_packageOf env (t_Symbol tg) of
          Inl e \<Rightarrow> Inl e
        | Inr pkg \<Rightarrow>
            if pkg = [] then Inr ([], [], False)
            else case pp_deriveOracle env pkg of
                Inl e \<Rightarrow> Inl e
              | Inr (oracle, stoodDown) \<Rightarrow> Inr (pp_scopeOracle env pkg (t_Symbol tg) oracle, stoodDown, True))"

definition stood_down_text :: "string list \<Rightarrow> string" where
  "stood_down_text stoodDown = ''derivation stood down on: '' @ join '', '' stoodDown"

definition oracle_note :: "target \<Rightarrow> string list \<Rightarrow> string list \<Rightarrow> string" where
  "oracle_note tg oracle stoodDown =
     (if explicitOracle tg then []
      else (if oracle \<noteq> [] then ''; oracle: '' @ countNoun (length oracle) ''test'' @ '' across '' @ countNoun (length (pkgRuns oracle)) ''package'' else []) @
        (if stoodDown \<noteq> [] then ''; '' @ stood_down_text stoodDown else []))"

definition no_oracle_reason :: "string list \<Rightarrow> string" where
  "no_oracle_reason stoodDown =
     ''no oracle'' @ (if stoodDown \<noteq> [] then '' '' @ em_dash @ '' '' @ stood_down_text stoodDown @ ''; resolve the closure, or pass an explicit oracle'' else [])"

definition fresh_finding :: "prep_env \<Rightarrow> target \<Rightarrow> finding" where
  "fresh_finding env tg =
     (let cg = pp_campaign env in
      zero_finding\<lparr>f_Symbol := t_Symbol tg, f_Selection := cg_selKey cg, f_Labels := t_Labels tg, f_OperatorSet := OperatorSet,
        f_OracleExplicit := explicitOracle tg,
        f_OracleTimeout := show_duration (cg_durations cg) (if cg_deriveBudgets cg then ephemeralBudgetFloor else cg_OracleTimeout cg),
        f_OracleTimeoutDerived := cg_deriveBudgets cg, f_OracleMemoryBytes := cg_memoryPin cg\<rparr>)"

definition resolve_shaped :: "prep_env \<Rightarrow> nat \<Rightarrow> string list \<Rightarrow> string \<Rightarrow> prep_state \<Rightarrow> resolved_target option \<times> prep_state" where
  "resolve_shaped env i oracle note st =
     (let tg = env_target env i in
      case pp_shapedCandidates env tg of
        Inl (ShapedDrift e) \<Rightarrow> (None, refuseSkipped env i (''shaped source drifted since load: '' @ e @ '' - re-run when the tree settles'') False st)
      | Inl (ShapedFault e) \<Rightarrow> (None, skipTarget env i (''shaped resolution failed: '' @ e) False st)
      | Inr (candidates, digest, files) \<Rightarrow>
          (Some \<lparr>rt_index = i, rt_oracle = oracle, rt_oracleNote = note,
             rt_attested = packageProcessAttestable (tr_packageOf (pp_tree env)) (t_Symbol tg) oracle,
             rt_shaped = Some candidates, rt_shapedDigest = digest, rt_shapedFiles = files\<rparr>,
           update_finding i (\<lambda>f. f\<lparr>f_BodyHash := digest, f_OperatorSet := shapedOperatorSet, f_Shape := Some (target_shape_of tg)\<rparr>) st))"

definition resolve_symbol :: "prep_env \<Rightarrow> nat \<Rightarrow> string list \<Rightarrow> string \<Rightarrow> prep_state \<Rightarrow> resolved_target option \<times> prep_state" where
  "resolve_symbol env i oracle note st =
     (let tg = env_target env i in
      case pp_bodyHash env (t_Symbol tg) of
        Inl NotAFunction \<Rightarrow> (None, skipTarget env i ''not a function - for mutation adequacy, target its methods or the bound function-level subjects'' False st)
      | Inl (Vanished e) \<Rightarrow> (None, refuseSkipped env i (''source vanished since load: '' @ e @ '' - re-run when the tree settles'') False st)
      | Inl (BodyFault e) \<Rightarrow> (None, skipTarget env i (''target resolution failed: '' @ e) False st)
      | Inr bodyHash \<Rightarrow>
          (Some \<lparr>rt_index = i, rt_oracle = oracle, rt_oracleNote = note,
             rt_attested = packageProcessAttestable (tr_packageOf (pp_tree env)) (t_Symbol tg) oracle,
             rt_shaped = None, rt_shapedDigest = [], rt_shapedFiles = []\<rparr>,
           update_finding i (\<lambda>f. f\<lparr>f_BodyHash := bodyHash\<rparr>) st))"

definition resolve_target :: "prep_env \<Rightarrow> nat \<Rightarrow> prep_state \<Rightarrow> string + resolved_target option \<times> prep_state" where
  "resolve_target env i st =
     (let tg = env_target env i; st = update_finding i (\<lambda>_. fresh_finding env tg) st in
      case (if Shaped tg then validateShapedTarget (tr_quote (pp_tree env)) tg else None) of
        Some e \<Rightarrow> Inr (None, skipTarget env i (''shaped target refused: '' @ e) False st)
      | None \<Rightarrow>
          (case prep_oracle env tg of
             Inl e \<Rightarrow> Inl e
           | Inr (oracle, stoodDown, derived) \<Rightarrow>
               if oracle = [] then
                 Inr (None, update_finding i (\<lambda>f. f\<lparr>f_Unreached := derived \<and> stoodDown = []\<rparr>) (skipTarget env i (no_oracle_reason stoodDown) False st))
               else (case pp_validateOracle env oracle of
                   Some e \<Rightarrow> Inr (None, skipTarget env i (''oracle validation failed: '' @ e) False st)
                 | None \<Rightarrow>
                     Inr ((if Shaped tg then resolve_shaped else resolve_symbol) env i oracle (oracle_note tg oracle stoodDown) st))))"

fun resolve_from :: "prep_env \<Rightarrow> nat list \<Rightarrow> prep_state \<Rightarrow> string + resolved_target list \<times> prep_state" where
  "resolve_from env [] st = Inr ([], st)"
| "resolve_from env (i # ks) st =
     (case resolve_target env i st of
        Inl e \<Rightarrow> Inl e
      | Inr (resolved, st) \<Rightarrow>
          (case resolve_from env ks st of
             Inl e \<Rightarrow> Inl e
           | Inr (rest, st) \<Rightarrow> Inr ((case resolved of None \<Rightarrow> rest | Some rt \<Rightarrow> rt # rest), st)))"

definition resolve_targets :: "prep_env \<Rightarrow> prep_state \<Rightarrow> string + resolved_target list \<times> prep_state" where
  "resolve_targets env st =
     (case find (\<lambda>i. env_symbol env i \<in> set (map (env_symbol env) [0..<i])) [0..<length (pp_targets env)] of
        Some i \<Rightarrow> Inl (''gomutant: duplicate target symbol '' @ env_symbol env i)
      | None \<Rightarrow> resolve_from env [0..<length (pp_targets env)] st)"

definition needed_symbols :: "prep_env \<Rightarrow> resolved_target \<Rightarrow> string list" where
  "needed_symbols env rt = (if rt_shaped rt = None then env_symbol env (rt_index rt) # rt_oracle rt else rt_oracle rt)"

definition view_cause :: "prep_env \<Rightarrow> resolved_target \<Rightarrow> string option" where
  "view_cause env rt =
     (case find (\<lambda>symbol. pp_viewFault env (rt_attested rt) symbol \<noteq> None \<or> pp_views env (rt_attested rt) symbol = None) (needed_symbols env rt) of
        None \<Rightarrow> None
      | Some symbol \<Rightarrow> (case pp_viewFault env (rt_attested rt) symbol of Some e \<Rightarrow> Some e | None \<Rightarrow> Some (''no decision view for '' @ symbol)))"

fun keep_viewed :: "prep_env \<Rightarrow> resolved_target list \<Rightarrow> prep_state \<Rightarrow> resolved_target list \<times> prep_state" where
  "keep_viewed env [] st = ([], st)"
| "keep_viewed env (rt # rts) st =
     (case view_cause env rt of
        None \<Rightarrow> (let (kept, st) = keep_viewed env rts st in (rt # kept, st))
      | Some cause \<Rightarrow> keep_viewed env rts (skipTarget env (rt_index rt) (''decision evidence unavailable: '' @ cause) False st))"

subsection \<open>Reuse\<close>

definition PropertyRegimeRapid :: string where "PropertyRegimeRapid = ''rapid:nofailfile,seed=1''"

definition propertyOracleFlags :: "bool \<Rightarrow> string list" where
  "propertyOracleFlags rapid = (if rapid then [''-rapid.nofailfile'', ''-rapid.seed=1''] else [])"

definition regime_of :: "(string \<Rightarrow> string list) \<Rightarrow> string list \<Rightarrow> string" where
  "regime_of runtimes oracle = (if list_ex (\<lambda>run. ''rapid'' \<in> set (runtimes (fst run))) (pkgRuns oracle) then PropertyRegimeRapid else [])"

definition decision_view :: "prep_env \<Rightarrow> resolved_target \<Rightarrow> string \<Rightarrow> judged_view" where
  "decision_view env rt symbol = the (pp_views env (rt_attested rt) symbol)"

definition prep_pins :: "prep_env \<Rightarrow> finding \<Rightarrow> string \<Rightarrow> string \<Rightarrow> run_pins" where
  "prep_pins env f operators regime =
     (let cg = pp_campaign env in
      \<lparr>pn_oracleExplicit = f_OracleExplicit f, pn_operatorSet = operators, pn_timeout = show_duration (cg_durations cg) (cg_OracleTimeout cg),
       pn_timeoutDerived = cg_deriveBudgets cg, pn_memoryPin = cg_memoryPin cg, pn_regime = regime\<rparr>)"

definition serveCheckRefusal :: "prep_env \<Rightarrow> string \<Rightarrow> string" where
  "serveCheckRefusal env e = (if pp_viewChanged env e then ''drift: the tree moved past the run-start view capture: '' @ e else e)"

text \<open>The inspection of the attribution reads the runtime inputs once more, over the run's decision views.\<close>

definition movedPinAttribution :: "prep_env \<Rightarrow> resolved_target \<Rightarrow> finding \<Rightarrow> string \<Rightarrow> string" where
  "movedPinAttribution env rt rec fallback =
     (case inspectFindingState (pp_tree env) (pp_freshness env) (pp_current env (rt_index rt) 0) rec (Some (rt_attested rt, pp_views env (rt_attested rt))) of
        Inl _ \<Rightarrow> fallback
      | Inr insp \<Rightarrow>
          if in_State insp \<noteq> FindingCurrent \<and> in_Reason insp \<noteq> [] then state_text (in_State insp) @ '': '' @ in_Reason insp else fallback)"

datatype reuse = ServeWhole finding | Measures "finding option" "finding option" string | RefusesCheck string | FailsCheck string

definition target_matches :: "prep_env \<Rightarrow> resolved_target \<Rightarrow> finding \<Rightarrow> string \<Rightarrow> finding \<Rightarrow> string + bool" where
  "target_matches env rt f regime rec =
     evidenceSetMatches (pp_freshness env) (pp_current env (rt_index rt)) (prep_pins env f OperatorSet regime) rec
       (decision_view env rt (env_symbol env (rt_index rt))) (map (decision_view env rt) (rt_oracle rt))"

definition budget_reason :: "finding \<Rightarrow> int \<Rightarrow> string" where
  "budget_reason rec budget = ''budget: prior generated '' @ itoa (f_Generated rec) @ '' of '' @ itoa (f_CandidateCount rec) @
     '' candidates, request wants budget '' @ itoa budget"

definition reuse_of :: "prep_env \<Rightarrow> resolved_target \<Rightarrow> finding \<Rightarrow> string \<Rightarrow> reuse" where
  "reuse_of env rt f regime =
     (case env_prior env (rt_index rt) of
        None \<Rightarrow> Measures None None ''no-prior''
      | Some rec \<Rightarrow>
          if pp_Force env then Measures None None ''forced''
          else if budgetCovers rec (cg_Budget (pp_campaign env)) then
            (case target_matches env rt f regime rec of
               Inl e \<Rightarrow> RefusesCheck (serveCheckRefusal env e)
             | Inr True \<Rightarrow> if f_CandidateEvidence rec = [] then ServeWhole rec else Measures (Some rec) None ''stale''
             | Inr False \<Rightarrow> Measures None None (movedPinAttribution env rt rec
                 ''stale: a measurement pin moved (oracle timeout, oracle selection, operator set, or runtime inputs moved during evaluation)''))
          else
            let reason = budget_reason rec (cg_Budget (pp_campaign env)) in
            if f_CandidateEvidence rec \<noteq> [] then
              Measures None None (reason @ ''; prior candidate evidence re-executes only under its recorded budget, so the whole target re-measures'' @
                (if OracleExecutionPolicyIssue rec \<noteq> [] then ''; '' @ OracleExecutionPolicyIssue rec else []))
            else (case target_matches env rt f regime rec of
                Inl e \<Rightarrow> FailsCheck e
              | Inr True \<Rightarrow> Measures None (Some rec) reason
              | Inr False \<Rightarrow> Measures None None (reason @ ''; '' @
                  movedPinAttribution env rt rec ''a measurement pin also moved, so the measured prefix cannot stand'')))"

subsection \<open>Work items\<close>

record prepared =
  pd_target :: nat
  pd_reason :: string
  pd_work :: work
  pd_targetView :: "judged_view option"
  pd_oracleViews :: "judged_view list"
  pd_shapedFiles :: "string list"
  pd_currentLedger :: "compartment_ledger option"

datatype prep_end = Finished | Executes prepared | FailsRun string

definition provenance_of :: "judged_view \<Rightarrow> provenance_view" where
  "provenance_of v = provenance_view.truncate v"

text \<open>A record served whole is stamped again; a plan commits nothing.\<close>

definition restamped :: "prep_env \<Rightarrow> resolved_target \<Rightarrow> provenance_view option \<Rightarrow> finding \<Rightarrow> string + finding" where
  "restamped env rt target rec =
     (let cg = pp_campaign env; served = rec\<lparr>f_Selection := cg_selKey cg, f_Labels := t_Labels (env_target env (rt_index rt)), f_Cached := True\<rparr> in
      case stampProvenance (cg_world cg) (cg_manifests cg) (cg_treeDir cg) (cg_repository cg) target
          (map (provenance_of \<circ> decision_view env rt) (rt_oracle rt)) (rt_shapedFiles rt) served of
        Inl e \<Rightarrow> Inl e
      | Inr f \<Rightarrow> Inr (annotateCrossSelection (cg_crossSelectionPrior cg) f))"

definition commit_served :: "prep_env \<Rightarrow> finding \<Rightarrow> prep_state \<Rightarrow> string option \<times> prep_state" where
  "commit_served env f st =
     (if pp_PlanOnly env then (None, st)
      else case cg_Commit (pp_campaign env) f of
          Some e \<Rightarrow> (Some e, st)
        | None \<Rightarrow> (None, st\<lparr>ps_run := (ps_run st)\<lparr>rn_persisted := rn_persisted (ps_run st) @ [f]\<rparr>\<rparr>))"

definition serve_whole :: "prep_env \<Rightarrow> resolved_target \<Rightarrow> finding \<Rightarrow> prep_state \<Rightarrow> prep_end \<times> prep_state" where
  "serve_whole env rt rec st =
     (let i = rt_index rt in
      case restamped env rt (Some (provenance_of (decision_view env rt (env_symbol env i)))) rec of
        Inl stagedDrift \<Rightarrow> (Finished, refuseSkipped env i (''staged drift: '' @ stagedDrift) True st)
      | Inr cached \<Rightarrow>
          (case commit_served env cached (update_finding i (\<lambda>_. cached) st) of
             (Some e, st) \<Rightarrow> (FailsRun e, st)
           | (None, st) \<Rightarrow> (Finished, cacheTarget env i (''served: body, oracle closure, and runtime inputs unchanged'' @ rt_oracleNote rt) st)))"

text \<open>The oracle groups, and a note for each property runtime of a package not yet noted in the run.\<close>

definition note_property :: "string \<Rightarrow> string \<Rightarrow> (string \<times> string) list \<Rightarrow> (string \<times> string) list" where
  "note_property pkg runtime noted =
     (if propertyOracleNote runtime \<noteq> None \<and> (pkg, runtime) \<notin> set noted then noted @ [(pkg, runtime)] else noted)"

fun build_groups :: "prep_env \<Rightarrow> (string \<Rightarrow> string list) \<Rightarrow> (string \<times> string) list \<Rightarrow> (string \<times> string) list \<Rightarrow>
    (string + oracle_group list) \<times> (string \<times> string) list" where
  "build_groups env runtimes [] noted = (Inr [], noted)"
| "build_groups env runtimes ((pkg, regex) # runs) noted =
     (let noted = fold (note_property pkg) (runtimes pkg) noted in
      case pp_packageContext env pkg of
        Inl e \<Rightarrow> (Inl e, noted)
      | Inr (moduleDir, packageDir) \<Rightarrow>
          (let (rest, noted) = build_groups env runtimes runs noted in
           (case rest of
              Inl e \<Rightarrow> Inl e
            | Inr groups \<Rightarrow> Inr (\<lparr>gr_pkgs = [pkg], gr_passed = [], gr_runRegex = regex, gr_flags = propertyOracleFlags (''rapid'' \<in> set (runtimes pkg)),
                gr_moduleDir = moduleDir, gr_packageDir = packageDir\<rparr> # groups), noted)))"

definition probed_item :: "prep_env \<Rightarrow> prepared \<Rightarrow> probed_target" where
  "probed_item env pd = \<lparr>pt_Symbol = env_symbol env (pd_target pd), pt_explicit = explicitOracle (env_target env (pd_target pd)),
     pt_targetView = pd_targetView pd, pt_oracleViews = pd_oracleViews pd, pt_work = pd_work pd\<rparr>"

text \<open>From the decision to the item: a plan streams it and stops, a run probes the baselines first.\<close>

definition stream :: "run_decision \<Rightarrow> prep_state \<Rightarrow> prep_state" where
  "stream decision st = st\<lparr>ps_streamed := ps_streamed st @ [decision]\<rparr>"

definition execute_or_plan :: "prep_env \<Rightarrow> prepared \<Rightarrow> run_decision \<Rightarrow> prep_state \<Rightarrow> prep_end \<times> prep_state" where
  "execute_or_plan env pd decision st =
     (if pp_PlanOnly env then (Finished, stream decision st)
      else case pp_runtimes env of
          Inl e \<Rightarrow> (Finished, skipTarget env (pd_target pd) (''property-runtime detection unavailable: '' @ e) True st)
        | Inr runtimes \<Rightarrow>
            (case build_groups env runtimes (pkgRuns (wo_oracle (pd_work pd))) (ps_noted st) of
               (Inl e, noted) \<Rightarrow> (FailsRun e, st\<lparr>ps_noted := noted\<rparr>)
             | (Inr groups, noted) \<Rightarrow>
                 (let pd = pd\<lparr>pd_work := (pd_work pd)\<lparr>wo_groups := groups\<rparr>\<rparr>; st = st\<lparr>ps_noted := noted\<rparr> in
                  case probeGroupBaselines (pp_probes env) (probed_item env pd) (ps_probing st) of
                    (Inl reason, probing) \<Rightarrow> (Finished, skipTarget env (pd_target pd) reason True (st\<lparr>ps_probing := probing\<rparr>))
                  | (Inr w, probing) \<Rightarrow> (Executes (pd\<lparr>pd_work := w\<rparr>), stream decision (st\<lparr>ps_probing := probing\<rparr>)))))"

subsection \<open>Producer views\<close>

text \<open>The targets of one mode whose oracles share their packages are proved together; a target whose own proof faults is rebuilt once alone.\<close>

definition unit_packages :: "resolved_target \<Rightarrow> string list" where
  "unit_packages rt = map fst (pkgRuns (rt_oracle rt))"

definition unit_symbols :: "prep_env \<Rightarrow> resolved_target list \<Rightarrow> resolved_target \<Rightarrow> string list" where
  "unit_symbols env rts rt =
     sort (remdups (concat (map (needed_symbols env) (filter (\<lambda>r. rt_attested r = rt_attested rt \<and> unit_packages r = unit_packages rt) rts))))"

definition forTarget :: "prep_env \<Rightarrow> (string \<Rightarrow> judged_view option) \<times> (string \<Rightarrow> string option) \<Rightarrow> string list \<Rightarrow> string + (string \<Rightarrow> judged_view)" where
  "forTarget env proved symbols =
     (case find (\<lambda>symbol. fst proved symbol = None) symbols of
        Some symbol \<Rightarrow> Inl (case snd proved symbol of Some e \<Rightarrow> e | None \<Rightarrow> ''union view set carries no subject '' @ symbol)
      | None \<Rightarrow> pp_narrow env symbols)"

datatype producer = ProducerFails string | ProducerFault string | ProducerViews "string \<Rightarrow> judged_view"

definition producerViewsFor :: "prep_env \<Rightarrow> resolved_target list \<Rightarrow> resolved_target \<Rightarrow> string list \<Rightarrow> producer" where
  "producerViewsFor env rts rt symbols =
     (let members = unit_symbols env rts rt in
      case pp_union env (rt_attested rt) (unit_packages rt) members of
        Inl e \<Rightarrow> ProducerFails (''freshness proofs (unit over '' @ nat_dec (length members) @ '' subjects): '' @ e)
      | Inr proved \<Rightarrow>
          (case forTarget env proved symbols of
             Inr views \<Rightarrow> ProducerViews views
           | Inl _ \<Rightarrow> (case pp_rebuild env symbols of Inl fault \<Rightarrow> ProducerFault fault | Inr views \<Rightarrow> ProducerViews views)))"

definition observed_views :: "prep_env \<Rightarrow> resolved_target list \<Rightarrow> resolved_target \<Rightarrow> string list \<Rightarrow> producer" where
  "observed_views env rts rt symbols = (if pp_PlanOnly env then ProducerViews (decision_view env rt) else producerViewsFor env rts rt symbols)"

subsection \<open>A symbol target\<close>

definition new_work :: "resolved_target \<Rightarrow> bool \<Rightarrow> finding option \<Rightarrow> finding option \<Rightarrow> candidate list \<Rightarrow> work" where
  "new_work rt is_shaped srv grown candidates =
     \<lparr>wo_oracle = rt_oracle rt, wo_shaped = is_shaped, wo_candidates = candidates, wo_groups = [], wo_oracleSet = set (rt_oracle rt),
      wo_baselines = [], wo_serve = srv, wo_flagged = {}, wo_extend = grown, wo_extendFrom = 0\<rparr>"

definition drift_or_fail :: "prep_env \<Rightarrow> nat \<Rightarrow> generation_error \<Rightarrow> prep_state \<Rightarrow> prep_end \<times> prep_state" where
  "drift_or_fail env i e st =
     (case e of
        SourceDrift path \<Rightarrow> (Finished, refuseSkipped env i (''source changed since load: '' @ path @ '' - re-run when the tree settles'') True st)
      | GenerationFault e \<Rightarrow> (FailsRun (''target '' @ env_symbol env i @ '': '' @ e), st))"

text \<open>What the regenerated candidates make of the reuse: a spliced record, an extended one, or the whole target anew.\<close>

definition measured_anew :: "prep_env \<Rightarrow> resolved_target \<Rightarrow> string \<Rightarrow> generation \<Rightarrow> prepared \<Rightarrow> prep_state \<Rightarrow> prep_end \<times> prep_state" where
  "measured_anew env rt reason g pd st =
     execute_or_plan env (pd\<lparr>pd_reason := reason, pd_work := new_work rt False None None (g_Candidates g)\<rparr>)
       \<lparr>rd_Symbol = env_symbol env (rt_index rt), rd_Action = ''measure'', rd_Reason = reason @ rt_oracleNote rt, rd_Candidates = int (length (g_Candidates g))\<rparr>
       (update_finding (rt_index rt) (\<lambda>f. f\<lparr>f_Budget := cg_Budget (pp_campaign env), f_CandidateCount := int (g_CandidateCount g),
          f_Generated := int (length (g_Candidates g))\<rparr>) st)"

definition spliced_or_anew :: "prep_env \<Rightarrow> resolved_target \<Rightarrow> finding \<Rightarrow> string \<Rightarrow> generation \<Rightarrow> prepared \<Rightarrow> prep_state \<Rightarrow> prep_end \<times> prep_state" where
  "spliced_or_anew env rt rec reason g pd st =
     (let i = rt_index rt; wanted = cg_Budget (pp_campaign env) in
      case flaggedCandidateIndexes g rec of
        Some fls \<Rightarrow>
          execute_or_plan env (pd\<lparr>pd_work := (new_work rt False (Some rec) None (g_Candidates g))\<lparr>wo_flagged := fls\<rparr>\<rparr>)
            \<lparr>rd_Symbol = env_symbol env i, rd_Action = ''cached'',
             rd_Reason = ''served: pins unchanged; re-executing '' @ countNoun (card fls) ''candidate'' @ rt_oracleNote rt, rd_Candidates = int (card fls)\<rparr> st
      | None \<Rightarrow>
          if f_Budget rec = wanted then measured_anew env rt reason g pd st
          else case pp_generate env (env_symbol env i) wanted of
              Inl e \<Rightarrow> drift_or_fail env i e st
            | Inr g \<Rightarrow> measured_anew env rt reason g pd st)"

definition extended_or_anew :: "prep_env \<Rightarrow> resolved_target \<Rightarrow> finding \<Rightarrow> string \<Rightarrow> generation \<Rightarrow> prepared \<Rightarrow> prep_state \<Rightarrow> prep_end \<times> prep_state" where
  "extended_or_anew env rt rec reason g pd st =
     (let stands = nat (f_Generated rec); suffix = length (g_Candidates g) - stands in
      if extendedPrefixStands g rec then
        execute_or_plan env (pd\<lparr>pd_work := (new_work rt False None (Some rec) (g_Candidates g))\<lparr>wo_extendFrom := stands\<rparr>\<rparr>)
          \<lparr>rd_Symbol = env_symbol env (rt_index rt), rd_Action = ''measure'',
           rd_Reason = ''served: prefix of '' @ countNoun stands ''candidate'' @ '' stands; measuring '' @ nat_dec suffix @ '' more'' @ rt_oracleNote rt,
           rd_Candidates = int suffix\<rparr> st
      else measured_anew env rt (reason @ ''; deterministic regeneration cannot re-identify the measured prefix'') g pd st)"

definition measure_symbol :: "prep_env \<Rightarrow> resolved_target list \<Rightarrow> resolved_target \<Rightarrow> finding option \<Rightarrow> finding option \<Rightarrow> string \<Rightarrow> prep_state \<Rightarrow>
    prep_end \<times> prep_state" where
  "measure_symbol env rts rt srv grown reason st =
     (let i = rt_index rt; symbol = env_symbol env i; oracle = rt_oracle rt in
      case pp_preflight env of
        Some e \<Rightarrow> (FailsRun e, st)
      | None \<Rightarrow>
     (case observed_views env rts rt (symbol # oracle) of
        ProducerFails e \<Rightarrow> (FailsRun e, st)
      | ProducerFault fault \<Rightarrow>
          (Finished, skipTarget env i (''freshness proof unavailable (oracle '' @ join '', '' oracle @ ''): '' @ fault) True st)
      | ProducerViews views \<Rightarrow>
     (case pp_ledger env (views symbol) of
        Inl e \<Rightarrow> (FailsRun e, st)
      | Inr ledger \<Rightarrow>
     (case pp_generate env symbol (case srv of Some rec \<Rightarrow> f_Budget rec | None \<Rightarrow> cg_Budget (pp_campaign env)) of
        Inl e \<Rightarrow> drift_or_fail env i e st
      | Inr g \<Rightarrow>
          (let pd = \<lparr>pd_target = i, pd_reason = reason, pd_work = new_work rt False srv grown [], pd_targetView = Some (views symbol),
                 pd_oracleViews = map views oracle, pd_shapedFiles = [], pd_currentLedger = Some ledger\<rparr> in
           case srv of
             Some rec \<Rightarrow> spliced_or_anew env rt rec reason g pd st
           | None \<Rightarrow>
               (case grown of
                  Some rec \<Rightarrow> extended_or_anew env rt rec reason g pd st
                | None \<Rightarrow> measured_anew env rt reason g pd st))))))"

definition with_regime :: "prep_env \<Rightarrow> resolved_target \<Rightarrow> string \<Rightarrow> prep_state \<Rightarrow> prep_state" where
  "with_regime env rt regime st =
     update_finding (rt_index rt) (\<lambda>f. f\<lparr>f_PropertyRegime := regime, f_OracleExecutionPolicy := FullOracleExecutionPolicy\<rparr>) st"

definition prepare_symbol :: "prep_env \<Rightarrow> resolved_target list \<Rightarrow> resolved_target \<Rightarrow> prep_state \<Rightarrow> prep_end \<times> prep_state" where
  "prepare_symbol env rts rt st =
     (let i = rt_index rt in
      case pp_runtimes env of
        Inl e \<Rightarrow> (Finished, skipTarget env i (''property-runtime detection unavailable: '' @ e) True st)
      | Inr runtimes \<Rightarrow>
          (let regime = regime_of runtimes (rt_oracle rt); st = with_regime env rt regime st in
           case reuse_of env rt (rn_findings (ps_run st) ! i) regime of
             ServeWhole rec \<Rightarrow> serve_whole env rt rec st
           | RefusesCheck reason \<Rightarrow> (Finished, refuseSkipped env i reason True st)
           | FailsCheck e \<Rightarrow> (FailsRun e, st)
           | Measures srv grown reason \<Rightarrow> measure_symbol env rts rt srv grown reason st))"

subsection \<open>A shaped target\<close>

definition shaped_matches :: "prep_env \<Rightarrow> resolved_target \<Rightarrow> finding \<Rightarrow> string \<Rightarrow> finding \<Rightarrow> string + bool" where
  "shaped_matches env rt f regime rec =
     shapedEvidenceMatches (pp_freshness env) (pp_current env (rt_index rt)) (prep_pins env f shapedOperatorSet regime) rec
       (map (decision_view env rt) (rt_oracle rt))"

definition shaped_reuse :: "prep_env \<Rightarrow> resolved_target \<Rightarrow> finding \<Rightarrow> string \<Rightarrow> reuse" where
  "shaped_reuse env rt f regime =
     (case env_prior env (rt_index rt) of
        None \<Rightarrow> Measures None None ''no-prior''
      | Some rec \<Rightarrow>
          if pp_Force env then Measures None None ''forced''
          else case shaped_matches env rt f regime rec of
              Inl e \<Rightarrow> RefusesCheck (serveCheckRefusal env e)
            | Inr matches \<Rightarrow>
                if matches \<and> f_BodyHash rec = rt_shapedDigest rt \<and> f_Shape rec = Some (target_shape_of (env_target env (rt_index rt))) then ServeWhole rec
                else Measures None None
                  (if OracleExecutionPolicyIssue rec \<noteq> [] then ''stale: '' @ OracleExecutionPolicyIssue rec
                   else if \<not> matches then ''stale: an oracle or measurement pin moved''
                   else if f_BodyHash rec \<noteq> rt_shapedDigest rt then ''stale: the declared shape or a probed file moved''
                   else ''stale''))"

definition serve_shaped :: "prep_env \<Rightarrow> resolved_target \<Rightarrow> finding \<Rightarrow> prep_state \<Rightarrow> prep_end \<times> prep_state" where
  "serve_shaped env rt rec st =
     (case restamped env rt None rec of
        Inl stagedDrift \<Rightarrow> (Finished, refuseSkipped env (rt_index rt) (''staged drift: '' @ stagedDrift) True st)
      | Inr served \<Rightarrow>
          (Finished, cacheTarget env (rt_index rt) (''served: shape and oracle pins unchanged'' @ rt_oracleNote rt) (update_finding (rt_index rt) (\<lambda>_. served) st)))"

definition measure_shaped :: "prep_env \<Rightarrow> resolved_target list \<Rightarrow> resolved_target \<Rightarrow> candidate list \<Rightarrow> string \<Rightarrow> prep_state \<Rightarrow> prep_end \<times> prep_state" where
  "measure_shaped env rts rt candidates reason st =
     (let i = rt_index rt in
      case pp_preflight env of
        Some e \<Rightarrow> (FailsRun e, st)
      | None \<Rightarrow>
     (case observed_views env rts rt (rt_oracle rt) of
        ProducerFails e \<Rightarrow> (FailsRun e, st)
      | ProducerFault fault \<Rightarrow> (Finished, skipTarget env i (''producer evidence unavailable: '' @ fault) True st)
      | ProducerViews views \<Rightarrow>
          execute_or_plan env
            \<lparr>pd_target = i, pd_reason = reason, pd_work = new_work rt True None None candidates, pd_targetView = None,
             pd_oracleViews = map views (rt_oracle rt), pd_shapedFiles = rt_shapedFiles rt, pd_currentLedger = None\<rparr>
            \<lparr>rd_Symbol = env_symbol env i, rd_Action = ''measure'', rd_Reason = reason @ rt_oracleNote rt, rd_Candidates = int (length candidates)\<rparr>
            (update_finding i (\<lambda>f. f\<lparr>f_Budget := 0, f_CandidateCount := int (length candidates), f_Generated := int (length candidates)\<rparr>) st)))"

definition prepareShaped :: "prep_env \<Rightarrow> resolved_target list \<Rightarrow> resolved_target \<Rightarrow> candidate list \<Rightarrow> prep_state \<Rightarrow> prep_end \<times> prep_state" where
  "prepareShaped env rts rt candidates st =
     (let i = rt_index rt in
      case pp_runtimes env of
        Inl e \<Rightarrow> (Finished, skipTarget env i (''property-runtime detection unavailable: '' @ e) True st)
      | Inr runtimes \<Rightarrow>
          (let regime = regime_of runtimes (rt_oracle rt); st = with_regime env rt regime st in
           case shaped_reuse env rt (rn_findings (ps_run st) ! i) regime of
             ServeWhole rec \<Rightarrow> serve_shaped env rt rec st
           | RefusesCheck reason \<Rightarrow> (Finished, refuseSkipped env i reason True st)
           | FailsCheck e \<Rightarrow> (FailsRun e, st)
           | Measures srv grown reason \<Rightarrow> measure_shaped env rts rt candidates reason st))"

subsection \<open>A target\<close>

text \<open>A staged run refuses inputs the index snapshot cannot vouch for.\<close>

definition staged_refusal :: "prep_env \<Rightarrow> resolved_target \<Rightarrow> string option" where
  "staged_refusal env rt =
     (let cg = pp_campaign env in
      if \<not> rp_staged (cg_repository cg) then None
      else let (external, unlisted) = externalInputs (cg_world cg) (cg_treeDir cg) (cg_repository cg)
             (if rt_shaped rt = None then Some (provenance_of (decision_view env rt (env_symbol env (rt_index rt)))) else None)
             (map (provenance_of \<circ> decision_view env rt) (rt_oracle rt)) (rt_shapedFiles rt) in
        if unlisted \<noteq> [] then Some (unlistedRefusal unlisted ''; measure unstaged'')
        else if external \<noteq> [] then
          Some (''measured input outside the repository: '' @ cappedJoin external 8 @ '' - the index snapshot cannot vouch for it; measure unstaged'')
        else None)"

definition prepareTarget :: "prep_env \<Rightarrow> resolved_target list \<Rightarrow> resolved_target \<Rightarrow> prep_state \<Rightarrow> prep_end \<times> prep_state" where
  "prepareTarget env rts rt st =
     (case staged_refusal env rt of
        Some reason \<Rightarrow> (Finished, refuseSkipped env (rt_index rt) reason True st)
      | None \<Rightarrow> (case rt_shaped rt of Some candidates \<Rightarrow> prepareShaped env rts rt candidates st | None \<Rightarrow> prepare_symbol env rts rt st))"

text \<open>The walk over every target in order: the next resolved one is prepared, another's resolve-phase decision streams.\<close>

fun deliver_prepared :: "prep_env \<Rightarrow> resolved_target list \<Rightarrow> nat list \<Rightarrow> resolved_target list \<Rightarrow> prep_state \<Rightarrow> (string option \<times> prepared list) \<times> prep_state" where
  "deliver_prepared env rts [] coming st = ((None, []), st)"
| "deliver_prepared env rts (i # ks) coming st =
     (case coming of
        rt # rest \<Rightarrow>
          if rt_index rt = i then
            (case prepareTarget env rts rt st of
               (FailsRun e, st) \<Rightarrow> ((Some e, []), st)
             | (Finished, st) \<Rightarrow> deliver_prepared env rts ks rest st
             | (Executes pd, st) \<Rightarrow> (case deliver_prepared env rts ks rest st of ((err, items), st) \<Rightarrow> ((err, pd # items), st)))
          else deliver_prepared env rts ks coming (case ps_pending st i of None \<Rightarrow> st | Some decision \<Rightarrow> stream decision st)
      | [] \<Rightarrow> deliver_prepared env rts ks [] (case ps_pending st i of None \<Rightarrow> st | Some decision \<Rightarrow> stream decision st))"

definition start_prep :: "prep_env \<Rightarrow> bank option \<Rightarrow> prep_state" where
  "start_prep env b = \<lparr>ps_run = \<lparr>rn_findings = replicate (length (pp_targets env)) zero_finding, rn_committed = [], rn_drifted = [], rn_done = [],
     rn_persisted = [], rn_coverage = Map.empty, rn_told = []\<rparr>, ps_pending = Map.empty, ps_streamed = [], ps_probing = start_probing b, ps_noted = []\<rparr>"

definition prepare_run :: "prep_env \<Rightarrow> bank option \<Rightarrow> (string option \<times> prepared list) \<times> prep_state" where
  "prepare_run env b =
     (case resolve_targets env (start_prep env b) of
        Inl e \<Rightarrow> ((Some e, []), start_prep env b)
      | Inr (resolved, st) \<Rightarrow> (let (kept, st) = keep_viewed env resolved st in deliver_prepared env kept [0..<length (pp_targets env)] kept st))"

section \<open>Properties\<close>

subsection \<open>What a preparation changes\<close>

definition ready_work :: "probe_env \<Rightarrow> work \<Rightarrow> bool" where
  "ready_work env w \<longleftrightarrow> length (wo_baselines w) = length (wo_groups w) \<and> mset (map group_run (wo_groups w)) = mset (pkgRuns (wo_oracle w)) \<and>
     list_all (grounded env) (zip (wo_groups w) (wo_baselines w))"

definition prep_step :: "prep_env \<Rightarrow> nat \<Rightarrow> prep_state \<Rightarrow> prep_end \<times> prep_state \<Rightarrow> bool" where
  "prep_step env i st result \<longleftrightarrow>
     (let (e, st') = result in
      (case e of
         FailsRun _ \<Rightarrow> True
       | Finished \<Rightarrow> pp_PlanOnly env \<or> i \<in> set (rn_done (ps_run st'))
       | Executes pd \<Rightarrow> pd_target pd = i \<and> \<not> pp_PlanOnly env \<and> set (rn_done (ps_run st')) = set (rn_done (ps_run st))) \<and>
      ((\<forall>f. e \<noteq> FailsRun f) \<longrightarrow> (\<exists>d. rd_Symbol d = env_symbol env i \<and> ps_streamed st' = ps_streamed st @ [d])) \<and>
      (\<forall>j. j \<noteq> i \<longrightarrow> ps_pending st' j = ps_pending st j) \<and>
      set (rn_done (ps_run st)) \<subseteq> set (rn_done (ps_run st')) \<and> set (rn_done (ps_run st')) \<subseteq> insert i (set (rn_done (ps_run st))) \<and>
      (pp_PlanOnly env \<longrightarrow> ps_probing st' = ps_probing st \<and> rn_persisted (ps_run st') = rn_persisted (ps_run st)) \<and>
      (probing_inv (pp_probes env) (ps_probing st) \<longrightarrow> probing_inv (pp_probes env) (ps_probing st') \<and>
         (\<forall>pd. e = Executes pd \<longrightarrow> ready_work (pp_probes env) (pd_work pd))))"

lemma update_finding_simps [simp]:
  "ps_streamed (update_finding i g st) = ps_streamed st" "ps_pending (update_finding i g st) = ps_pending st"
  "ps_probing (update_finding i g st) = ps_probing st" "rn_done (ps_run (update_finding i g st)) = rn_done (ps_run st)"
  "rn_persisted (ps_run (update_finding i g st)) = rn_persisted (ps_run st)" "ps_noted (update_finding i g st) = ps_noted st"
  by (simp_all add: update_finding_def)

lemma targetDone_simps [simp]:
  "ps_streamed (targetDone i st) = ps_streamed st" "ps_pending (targetDone i st) = ps_pending st"
  "ps_probing (targetDone i st) = ps_probing st" "set (rn_done (ps_run (targetDone i st))) = insert i (set (rn_done (ps_run st)))"
  "rn_persisted (ps_run (targetDone i st)) = rn_persisted (ps_run st)"
  by (auto simp: targetDone_def)

lemma decide_simps [simp]:
  "ps_streamed (decide i d emit st) = ps_streamed st @ (if emit then [d] else [])" "ps_pending (decide i d emit st) = (ps_pending st)(i \<mapsto> d)"
  "ps_probing (decide i d emit st) = ps_probing st" "ps_run (decide i d emit st) = ps_run st"
  by (simp_all add: decide_def)

lemma skipTarget_simps [simp]:
  "ps_streamed (skipTarget env i r emit st) =
     ps_streamed st @ (if emit then [\<lparr>rd_Symbol = env_symbol env i, rd_Action = ''skipped'', rd_Reason = r, rd_Candidates = 0\<rparr>] else [])"
  "ps_pending (skipTarget env i r emit st) = (ps_pending st)(i \<mapsto> \<lparr>rd_Symbol = env_symbol env i, rd_Action = ''skipped'', rd_Reason = r, rd_Candidates = 0\<rparr>)"
  "ps_probing (skipTarget env i r emit st) = ps_probing st" "set (rn_done (ps_run (skipTarget env i r emit st))) = insert i (set (rn_done (ps_run st)))"
  "rn_persisted (ps_run (skipTarget env i r emit st)) = rn_persisted (ps_run st)"
  by (simp_all add: skipTarget_def)

lemma refuseSkipped_simps [simp]:
  "ps_streamed (refuseSkipped env i r emit st) =
     ps_streamed st @ (if emit then [\<lparr>rd_Symbol = env_symbol env i, rd_Action = ''skipped'', rd_Reason = r @ cg_residue (pp_campaign env), rd_Candidates = 0\<rparr>] else [])"
  "ps_pending (refuseSkipped env i r emit st) =
     (ps_pending st)(i \<mapsto> \<lparr>rd_Symbol = env_symbol env i, rd_Action = ''skipped'', rd_Reason = r @ cg_residue (pp_campaign env), rd_Candidates = 0\<rparr>)"
  "ps_probing (refuseSkipped env i r emit st) = ps_probing st" "set (rn_done (ps_run (refuseSkipped env i r emit st))) = insert i (set (rn_done (ps_run st)))"
  "rn_persisted (ps_run (refuseSkipped env i r emit st)) = rn_persisted (ps_run st)"
  by (simp_all add: refuseSkipped_def refuse_drifted_def Let_def)

lemma cacheTarget_simps [simp]:
  "ps_streamed (cacheTarget env i r st) = ps_streamed st @ [\<lparr>rd_Symbol = env_symbol env i, rd_Action = ''cached'', rd_Reason = r, rd_Candidates = 0\<rparr>]"
  "ps_pending (cacheTarget env i r st) = (ps_pending st)(i \<mapsto> \<lparr>rd_Symbol = env_symbol env i, rd_Action = ''cached'', rd_Reason = r, rd_Candidates = 0\<rparr>)"
  "ps_probing (cacheTarget env i r st) = ps_probing st" "set (rn_done (ps_run (cacheTarget env i r st))) = insert i (set (rn_done (ps_run st)))"
  "rn_persisted (ps_run (cacheTarget env i r st)) = rn_persisted (ps_run st)"
  by (simp_all add: cacheTarget_def)

lemma stream_simps [simp]:
  "ps_streamed (stream d st) = ps_streamed st @ [d]" "ps_pending (stream d st) = ps_pending st" "ps_probing (stream d st) = ps_probing st"
  "ps_run (stream d st) = ps_run st"
  by (simp_all add: stream_def)

lemma with_regime_simps [simp]:
  "ps_streamed (with_regime env rt r st) = ps_streamed st" "ps_pending (with_regime env rt r st) = ps_pending st"
  "ps_probing (with_regime env rt r st) = ps_probing st" "rn_done (ps_run (with_regime env rt r st)) = rn_done (ps_run st)"
  "rn_persisted (ps_run (with_regime env rt r st)) = rn_persisted (ps_run st)"
  by (simp_all add: with_regime_def)

lemma prep_step_leaf [simp]:
  "prep_step env i st (FailsRun e, st)"
  "prep_step env i st (Finished, skipTarget env i r True st)"
  "prep_step env i st (Finished, refuseSkipped env i r True st)"
  "prep_step env i (update_finding j g st) result \<longleftrightarrow> prep_step env i st result"
  "prep_step env i (with_regime env rt r st) result \<longleftrightarrow> prep_step env i st result"
  unfolding prep_step_def update_finding_simps with_regime_simps by (auto simp: Let_def)

lemma update_finding_step: "prep_step env i (update_finding j g st) result \<Longrightarrow> prep_step env i st result"
  by simp

lemma with_regime_step: "prep_step env i (with_regime env rt r st) result \<Longrightarrow> prep_step env i st result"
  by simp

lemma build_groups_runs: "build_groups env runtimes runs noted = (Inr gs, noted') \<Longrightarrow> map group_run gs = runs"
  by (induction runs arbitrary: gs noted noted') (auto simp: group_run_def Let_def split: sum.splits prod.splits)

text \<open>What the probes make of a work item, and what they keep of their own state.\<close>

lemma probed_step:
  assumes inv: "probing_inv (pp_probes env) probing"
    and build: "build_groups env runtimes (pkgRuns (wo_oracle (pd_work pd))) noted = (Inr gs, noted')"
    and probe: "probeGroupBaselines (pp_probes env) (probed_item env (pd\<lparr>pd_work := (pd_work pd)\<lparr>wo_groups := gs\<rparr>\<rparr>)) probing = (r, probing')"
  shows "probing_inv (pp_probes env) probing' \<and> (\<forall>w. r = Inr w \<longrightarrow> ready_work (pp_probes env) w)"
proof (intro conjI allI impI)
  show "probing_inv (pp_probes env) probing'" using probed_target_inv [OF inv probe] by blast
  fix w assume r: "r = Inr w"
  note ready = probed_ready [OF inv probe [unfolded r]]
  have "wo_oracle w = wo_oracle (pd_work pd)" using probed_oracle [OF probe [unfolded r]] by (simp add: probed_item_def)
  then show "ready_work (pp_probes env) w"
    using ready build_groups_runs [OF build] by (simp add: ready_work_def probed_item_def)
qed

lemma execute_or_plan_step:
  assumes "pd_target pd = i" "rd_Symbol d = env_symbol env i"
  shows "prep_step env i st (execute_or_plan env pd d st)"
proof (cases "pp_PlanOnly env")
  case True
  then show ?thesis using assms by (auto simp: execute_or_plan_def prep_step_def)
next
  case run: False
  show ?thesis
  proof (cases "pp_runtimes env")
    case (Inl e)
    then show ?thesis using assms run by (auto simp: execute_or_plan_def prep_step_def)
  next
    case (Inr runtimes)
    obtain gr noted where build: "build_groups env runtimes (pkgRuns (wo_oracle (pd_work pd))) (ps_noted st) = (gr, noted)" by (metis surj_pair)
    show ?thesis
    proof (cases gr)
      case (Inl e)
      then show ?thesis using assms run Inr build by (auto simp: execute_or_plan_def prep_step_def)
    next
      case groups: (Inr gs)
      obtain r probing where probe: "probeGroupBaselines (pp_probes env) (probed_item env (pd\<lparr>pd_work := (pd_work pd)\<lparr>wo_groups := gs\<rparr>\<rparr>)) (ps_probing st)
          = (r, probing)" by (metis surj_pair)
      have kept: "probing_inv (pp_probes env) (ps_probing st) \<longrightarrow>
          probing_inv (pp_probes env) probing \<and> (\<forall>w. r = Inr w \<longrightarrow> ready_work (pp_probes env) w)"
        using probed_step [OF _ build [unfolded groups] probe] by blast
      show ?thesis using assms run Inr build probe kept unfolding groups
        by (cases r) (auto simp: execute_or_plan_def prep_step_def Let_def)
    qed
  qed
qed

lemma drift_or_fail_step [simp]: "prep_step env i st (drift_or_fail env i e st)"
  by (simp add: drift_or_fail_def split: generation_error.splits)

lemma measured_anew_step: "pd_target pd = rt_index rt \<Longrightarrow> prep_step env (rt_index rt) st (measured_anew env rt reason g pd st)"
  unfolding measured_anew_def by (rule update_finding_step, rule execute_or_plan_step) simp_all

lemma spliced_or_anew_step: "pd_target pd = rt_index rt \<Longrightarrow> prep_step env (rt_index rt) st (spliced_or_anew env rt rec reason g pd st)"
  by (simp add: spliced_or_anew_def Let_def execute_or_plan_step measured_anew_step split: option.split sum.split)

lemma extended_or_anew_step: "pd_target pd = rt_index rt \<Longrightarrow> prep_step env (rt_index rt) st (extended_or_anew env rt rec reason g pd st)"
  by (simp add: extended_or_anew_def Let_def execute_or_plan_step measured_anew_step)

lemma measure_symbol_step: "prep_step env (rt_index rt) st (measure_symbol env rts rt srv grown reason st)"
  by (simp add: measure_symbol_def Let_def spliced_or_anew_step extended_or_anew_step measured_anew_step split: option.split sum.split producer.split)

lemma serve_whole_step: "prep_step env (rt_index rt) st (serve_whole env rt rec st)"
  by (auto simp: serve_whole_def commit_served_def prep_step_def Let_def split: sum.split option.split)

lemma prepare_symbol_step: "prep_step env (rt_index rt) st (prepare_symbol env rts rt st)"
proof (cases "pp_runtimes env")
  case (Inr runtimes)
  show ?thesis
    by (rule with_regime_step [of env _ rt "regime_of runtimes (rt_oracle rt)"])
      (simp add: prepare_symbol_def Inr Let_def measure_symbol_step serve_whole_step del: prep_step_leaf(5) split: reuse.split)
qed (simp add: prepare_symbol_def)

lemma serve_shaped_step: "prep_step env (rt_index rt) st (serve_shaped env rt rec st)"
  by (auto simp: serve_shaped_def prep_step_def split: sum.split)

lemma measure_shaped_step: "prep_step env (rt_index rt) st (measure_shaped env rts rt candidates reason st)"
  by (simp add: measure_shaped_def Let_def split: option.split producer.split)
    (intro allI impI update_finding_step [OF execute_or_plan_step], simp_all)

lemma prepareShaped_step: "prep_step env (rt_index rt) st (prepareShaped env rts rt candidates st)"
proof (cases "pp_runtimes env")
  case (Inr runtimes)
  show ?thesis
    by (rule with_regime_step [of env _ rt "regime_of runtimes (rt_oracle rt)"])
      (simp add: prepareShaped_def Inr Let_def measure_shaped_step serve_shaped_step del: prep_step_leaf(5) split: reuse.split)
qed (simp add: prepareShaped_def)

lemma prepareTarget_step: "prep_step env (rt_index rt) st (prepareTarget env rts rt st)"
  by (simp add: prepareTarget_def prepareShaped_step prepare_symbol_step split: option.split)

end
