(* ===== verification/Preparation.thy ===== *)
theory Preparation
  imports Prepare
begin

text \<open>
  What the preparation of a run guarantees (\<open>Run\<close> in \<open>run.go\<close>): every target is decided once, in target order, and what it
  leaves to execute is what no disposition ended.
\<close>

subsection \<open>One decision for each target\<close>

definition resolve_step :: "prep_env \<Rightarrow> nat \<Rightarrow> prep_state \<Rightarrow> resolved_target option \<times> prep_state \<Rightarrow> bool" where
  "resolve_step env i st result \<longleftrightarrow>
     (let (resolved, st') = result in
      ps_streamed st' = ps_streamed st \<and> ps_probing st' = ps_probing st \<and> rn_persisted (ps_run st') = rn_persisted (ps_run st) \<and>
      (\<forall>j. j \<noteq> i \<longrightarrow> ps_pending st' j = ps_pending st j) \<and>
      (case resolved of
         Some rt \<Rightarrow> rt_index rt = i \<and> rn_done (ps_run st') = rn_done (ps_run st)
       | None \<Rightarrow> (\<exists>d. ps_pending st' i = Some d \<and> rd_Symbol d = env_symbol env i) \<and> set (rn_done (ps_run st')) = insert i (set (rn_done (ps_run st)))))"

lemma resolve_target_step:
  assumes "resolve_target env i st = Inr result"
  shows "resolve_step env i st result"
proof -
  have body: "resolve_step env i st (resolve_symbol env i orc nt (update_finding i g st))"
    "resolve_step env i st (resolve_shaped env i orc nt (update_finding i g st))" for orc nt g
    by (auto simp: resolve_symbol_def resolve_shaped_def resolve_step_def Let_def split: sum.splits body_error.splits shaped_error.splits prod.splits)
  have skipped: "resolve_step env i st (None, skipTarget env i r False (update_finding i g st))"
    "resolve_step env i st (None, update_finding i h (skipTarget env i r False (update_finding i g st)))" for r g h
    by (auto simp: resolve_step_def)
  show ?thesis using assms body skipped
    by (auto simp: resolve_target_def Let_def split: option.splits sum.splits prod.splits if_splits)
qed

lemma resolve_from_step:
  "resolve_from env ks st = Inr (resolved, st') \<Longrightarrow> distinct ks \<Longrightarrow>
     ps_streamed st' = ps_streamed st \<and> ps_probing st' = ps_probing st \<and> rn_persisted (ps_run st') = rn_persisted (ps_run st) \<and>
     (\<forall>j. j \<notin> set ks \<longrightarrow> ps_pending st' j = ps_pending st j) \<and> map rt_index resolved = filter (\<lambda>i. i \<in> rt_index ` set resolved) ks \<and>
     (\<forall>i \<in> set ks. i \<notin> rt_index ` set resolved \<longrightarrow> (\<exists>d. ps_pending st' i = Some d \<and> rd_Symbol d = env_symbol env i)) \<and>
     set (rn_done (ps_run st')) = set (rn_done (ps_run st)) \<union> {i \<in> set ks. i \<notin> rt_index ` set resolved}"
proof (induction ks arbitrary: st resolved)
  case (Cons i ks)
  obtain r st1 where one: "resolve_target env i st = Inr (r, st1)" using Cons.prems(1) by (auto split: sum.splits prod.splits)
  obtain rest where rest: "resolve_from env ks st1 = Inr (rest, st')" and resolved: "resolved = (case r of None \<Rightarrow> rest | Some rt \<Rightarrow> rt # rest)"
    using Cons.prems(1) one by (auto split: sum.splits prod.splits)
  note head = resolve_target_step [OF one, unfolded resolve_step_def Let_def prod.case]
  have apart: "i \<notin> set ks" "distinct ks" using Cons.prems(2) by simp_all
  note tail = Cons.IH [OF rest apart(2)]
  have inside: "rt_index ` set rest \<subseteq> set ks" using tail by (metis filter_is_subset image_set)
  show ?case
  proof (cases r)
    case None
    then have r: "resolved = rest" using resolved by simp
    have "\<exists>d. ps_pending st' i = Some d \<and> rd_Symbol d = env_symbol env i" using head None tail apart by simp
    moreover have "i \<notin> rt_index ` set rest" using inside apart by blast
    ultimately show ?thesis using head None tail apart unfolding r by auto
  next
    case (Some rt)
    then have r: "resolved = rt # rest" "rt_index rt = i" using resolved head by simp_all
    have "filter (\<lambda>j. j \<in> insert i (rt_index ` set rest)) ks = filter (\<lambda>j. j \<in> rt_index ` set rest) ks" using apart by (intro filter_cong) auto
    then have "map rt_index resolved = filter (\<lambda>j. j \<in> rt_index ` set resolved) (i # ks)" using tail unfolding r by (simp add: r(2))
    then show ?thesis using head Some tail apart unfolding r by (auto simp: r(2))
  qed
qed simp

definition dropped :: "resolved_target list \<Rightarrow> resolved_target list \<Rightarrow> nat set" where
  "dropped rts kept = {i \<in> rt_index ` set rts. i \<notin> rt_index ` set kept}"

lemma keep_viewed_step:
  "keep_viewed env rts st = (kept, st') \<Longrightarrow> distinct (map rt_index rts) \<Longrightarrow>
     ps_streamed st' = ps_streamed st \<and> ps_probing st' = ps_probing st \<and> rn_persisted (ps_run st') = rn_persisted (ps_run st) \<and>
     (\<forall>j. j \<notin> dropped rts kept \<longrightarrow> ps_pending st' j = ps_pending st j) \<and> set kept \<subseteq> set rts \<and>
     map rt_index kept = filter (\<lambda>i. i \<in> rt_index ` set kept) (map rt_index rts) \<and>
     (\<forall>i \<in> dropped rts kept. \<exists>d. ps_pending st' i = Some d \<and> rd_Symbol d = env_symbol env i) \<and>
     set (rn_done (ps_run st')) = set (rn_done (ps_run st)) \<union> dropped rts kept"
proof (induction rts arbitrary: st kept)
  case (Cons rt rts)
  have apart: "rt_index rt \<notin> rt_index ` set rts" "distinct (map rt_index rts)" using Cons.prems(2) by simp_all
  show ?case
  proof (cases "view_cause env rt")
    case None
    obtain rest where rest: "keep_viewed env rts st = (rest, st')" and kept: "kept = rt # rest"
      using Cons.prems(1) None by (auto split: prod.splits)
    note tail = Cons.IH [OF rest apart(2)]
    have "filter (\<lambda>j. j \<in> insert (rt_index rt) (rt_index ` set rest)) (map rt_index rts) = filter (\<lambda>j. j \<in> rt_index ` set rest) (map rt_index rts)"
      by (rule filter_cong [OF refl]) (use apart(1) in \<open>metis insert_iff list.set_map\<close>)
    then have "map rt_index kept = filter (\<lambda>i. i \<in> rt_index ` set kept) (map rt_index (rt # rts))" using tail unfolding kept by simp
    moreover have "dropped (rt # rts) kept = dropped rts rest"
      using apart(1) unfolding kept dropped_def list.set image_insert by blast
    ultimately show ?thesis using tail unfolding kept by auto
  next
    case (Some cause)
    let ?st = "skipTarget env (rt_index rt) (''decision evidence unavailable: '' @ cause) False st"
    have rest: "keep_viewed env rts ?st = (kept, st')" using Cons.prems(1) Some by simp
    note tail = Cons.IH [OF rest apart(2)]
    have gone: "rt_index rt \<notin> rt_index ` set kept" using tail apart by (metis image_mono subsetD)
    have dropped: "dropped (rt # rts) kept = insert (rt_index rt) (dropped rts kept)" "rt_index rt \<notin> dropped rts kept"
      using apart(1) gone by (auto simp: dropped_def)
    have "map rt_index kept = filter (\<lambda>i. i \<in> rt_index ` set kept) (map rt_index (rt # rts))" using tail gone by simp
    then show ?thesis using tail dropped unfolding dropped(1) by auto
  qed
qed (simp add: dropped_def)

text \<open>The walk hands on the resolved targets in their order, and the resolve-phase decision of every other.\<close>

definition awaits :: "prep_env \<Rightarrow> nat list \<Rightarrow> resolved_target list \<Rightarrow> prep_state \<Rightarrow> bool" where
  "awaits env ks coming st \<longleftrightarrow>
     distinct ks \<and> map rt_index coming = filter (\<lambda>i. i \<in> rt_index ` set coming) ks \<and>
     (\<forall>i \<in> set ks. i \<notin> rt_index ` set coming \<longrightarrow> (\<exists>d. ps_pending st i = Some d \<and> rd_Symbol d = env_symbol env i) \<and> i \<in> set (rn_done (ps_run st))) \<and>
     (\<forall>i \<in> rt_index ` set coming. i \<notin> set (rn_done (ps_run st)))"

lemma awaits_parts:
  assumes "awaits env ks coming st"
  shows "distinct ks" "map rt_index coming = filter (\<lambda>i. i \<in> rt_index ` set coming) ks"
    "\<And>i. i \<in> set ks \<Longrightarrow> i \<notin> rt_index ` set coming \<Longrightarrow> (\<exists>d. ps_pending st i = Some d \<and> rd_Symbol d = env_symbol env i) \<and> i \<in> set (rn_done (ps_run st))"
    "\<And>i. i \<in> rt_index ` set coming \<Longrightarrow> i \<notin> set (rn_done (ps_run st))"
proof -
  note all = assms[unfolded awaits_def]
  show "distinct ks" "map rt_index coming = filter (\<lambda>i. i \<in> rt_index ` set coming) ks"
    by (rule all[THEN conjunct1], rule all[THEN conjunct2, THEN conjunct1])
  show "(\<exists>d. ps_pending st i = Some d \<and> rd_Symbol d = env_symbol env i) \<and> i \<in> set (rn_done (ps_run st))"
    if "i \<in> set ks" "i \<notin> rt_index ` set coming" for i
    using all[THEN conjunct2, THEN conjunct2, THEN conjunct1] that by (elim ballE impE; blast)
  show "i \<notin> set (rn_done (ps_run st))" if "i \<in> rt_index ` set coming" for i
    using all[THEN conjunct2, THEN conjunct2, THEN conjunct2] that by (elim ballE; blast)
qed

lemma awaits_next:
  assumes "awaits env (i # ks) (rt # rest) st" "rt_index rt = i" "prep_step env i st result"
  shows "awaits env ks rest (snd result)"
proof -
  obtain e st' where result: "result = (e, st')" by (cases result)
  have apart: "i \<notin> set ks" "distinct ks" using assms(1) unfolding awaits_def by simp_all
  have order: "map rt_index rest = filter (\<lambda>j. j \<in> insert i (rt_index ` set rest)) ks" using assms(1,2) unfolding awaits_def by simp
  have same: "filter (\<lambda>j. j \<in> insert i (rt_index ` set rest)) ks = filter (\<lambda>j. j \<in> rt_index ` set rest) ks" using apart by (intro filter_cong) auto
  have inside: "rt_index ` set rest \<subseteq> set ks" using order by (metis filter_is_subset list.set_map)
  note step = assms(3)[unfolded prep_step_def result Let_def prod.case]
  have changes: "\<forall>j \<in> set ks. ps_pending st' j = ps_pending st j"
    "set (rn_done (ps_run st)) \<subseteq> set (rn_done (ps_run st'))" "set (rn_done (ps_run st')) \<subseteq> insert i (set (rn_done (ps_run st)))"
    using step apart by auto
  have before: "\<forall>j \<in> set ks. j \<notin> rt_index ` set rest \<longrightarrow> (\<exists>d. ps_pending st j = Some d \<and> rd_Symbol d = env_symbol env j) \<and> j \<in> set (rn_done (ps_run st))"
  proof (intro ballI impI)
    fix j assume j: "j \<in> set ks" "j \<notin> rt_index ` set rest"
    have "j \<noteq> i" using apart(1) j(1) by metis
    then have "j \<notin> rt_index ` set (rt # rest)" "j \<in> set (i # ks)" using j assms(2) by simp_all
    then show "(\<exists>d. ps_pending st j = Some d \<and> rd_Symbol d = env_symbol env j) \<and> j \<in> set (rn_done (ps_run st))" using awaits_parts(3) [OF assms(1)] by blast
  qed
  have fresh: "\<forall>j \<in> rt_index ` set rest. j \<notin> set (rn_done (ps_run st))" using awaits_parts(4) [OF assms(1)] by simp
  have after: "\<forall>j \<in> set ks. j \<notin> rt_index ` set rest \<longrightarrow> (\<exists>d. ps_pending st' j = Some d \<and> rd_Symbol d = env_symbol env j) \<and> j \<in> set (rn_done (ps_run st'))"
  proof (intro ballI impI)
    fix j assume j: "j \<in> set ks" "j \<notin> rt_index ` set rest"
    have "ps_pending st' j = ps_pending st j" using changes(1) j(1) by blast
    moreover have "j \<in> set (rn_done (ps_run st'))" using changes(2) before j by blast
    ultimately show "(\<exists>d. ps_pending st' j = Some d \<and> rd_Symbol d = env_symbol env j) \<and> j \<in> set (rn_done (ps_run st'))" using before j by simp
  qed
  have "\<forall>j \<in> rt_index ` set rest. j \<notin> set (rn_done (ps_run st'))" using changes(3) fresh inside apart(1) by blast
  then show ?thesis using apart(2) order same after unfolding awaits_def result snd_conv by simp
qed

lemma awaits_pending:
  assumes awaits: "awaits env (i # ks) coming st" and head: "\<nexists>rt rest. coming = rt # rest \<and> rt_index rt = i"
  shows "\<exists>d. ps_pending st i = Some d \<and> rd_Symbol d = env_symbol env i \<and> awaits env ks coming (stream d st)"
    and "i \<in> set (rn_done (ps_run st))"
proof -
  note parts = awaits_parts [OF awaits]
  have out: "i \<notin> rt_index ` set coming"
  proof
    assume "i \<in> rt_index ` set coming"
    then have "map rt_index coming = i # filter (\<lambda>j. j \<in> rt_index ` set coming) ks" using parts(2) by simp
    then show False using head by (cases coming) auto
  qed
  obtain d where d: "ps_pending st i = Some d" "rd_Symbol d = env_symbol env i" "i \<in> set (rn_done (ps_run st))"
    using parts(3) [of i] out by auto
  have "map rt_index coming = filter (\<lambda>j. j \<in> rt_index ` set coming) ks" using parts(2) out by simp
  then have "awaits env ks coming (stream d st)"
    using parts(1,3,4) unfolding awaits_def by simp
  then show "\<exists>d. ps_pending st i = Some d \<and> rd_Symbol d = env_symbol env i \<and> awaits env ks coming (stream d st)" "i \<in> set (rn_done (ps_run st))"
    using d by blast+
qed

lemma deliver_prepared_step:
  "deliver_prepared env rts ks coming st = ((None, items), st') \<Longrightarrow> awaits env ks coming st \<Longrightarrow>
     map rd_Symbol (ps_streamed st') = map rd_Symbol (ps_streamed st) @ map (env_symbol env) ks \<and>
     set (rn_done (ps_run st)) \<subseteq> set (rn_done (ps_run st')) \<and> set (rn_done (ps_run st')) \<subseteq> set (rn_done (ps_run st)) \<union> rt_index ` set coming \<and>
     (\<not> pp_PlanOnly env \<longrightarrow> map pd_target items = filter (\<lambda>i. i \<notin> set (rn_done (ps_run st'))) ks)"
proof (induction ks arbitrary: coming st items)
  case (Cons i ks)
  show ?case
  proof (cases "\<exists>rt rest. coming = rt # rest \<and> rt_index rt = i")
    case True
    then obtain rt rest where coming: "coming = rt # rest" "rt_index rt = i" by blast
    obtain e st1 where prep: "prepareTarget env rts rt st = (e, st1)" by (metis surj_pair)
    have step: "prep_step env i st (e, st1)" using prepareTarget_step [of env rt st rts] prep coming by simp
    have next_awaits: "awaits env ks rest st1" using awaits_next [OF Cons.prems(2) [unfolded coming(1)] coming(2) step] by simp
    note parts = awaits_parts [OF Cons.prems(2)]
    have apart: "i \<notin> rt_index ` set rest"
    proof -
      have "distinct (map rt_index coming)" using parts(1,2) by (metis distinct_filter)
      then show ?thesis using coming by simp
    qed
    have undone: "i \<notin> set (rn_done (ps_run st))" using parts(4) [of i] coming by simp
    note facts = step[unfolded prep_step_def Let_def prod.case]
    have live: "\<forall>f. e \<noteq> FailsRun f" using Cons.prems(1) coming prep by auto
    define tail where "tail = (case e of Executes pd \<Rightarrow> tl items | _ \<Rightarrow> items)"
    have run: "deliver_prepared env rts ks rest st1 = ((None, tail), st')" "\<And>pd. e = Executes pd \<Longrightarrow> items = pd # tail" "e = Finished \<Longrightarrow> items = tail"
      using Cons.prems(1) coming prep unfolding tail_def by (auto split: prep_end.splits prod.splits)
    note IH = Cons.IH [OF run(1) next_awaits]
    obtain d where d: "rd_Symbol d = env_symbol env i" "ps_streamed st1 = ps_streamed st @ [d]" using facts live by blast
    have grow: "set (rn_done (ps_run st)) \<subseteq> set (rn_done (ps_run st1))" "set (rn_done (ps_run st1)) \<subseteq> insert i (set (rn_done (ps_run st)))"
      using facts by blast+
    have items: "map pd_target items = filter (\<lambda>i. i \<notin> set (rn_done (ps_run st'))) (i # ks)" if run_on: "\<not> pp_PlanOnly env"
    proof (cases e)
      case Finished
      then have "i \<in> set (rn_done (ps_run st1))" using facts run_on by simp
      then have "i \<in> set (rn_done (ps_run st'))" using IH by blast
      then show ?thesis using IH run_on run(3) [OF Finished] by simp
    next
      case (Executes pd)
      then have "pd_target pd = i" "set (rn_done (ps_run st1)) = set (rn_done (ps_run st))" using facts by simp_all
      moreover from this have "i \<notin> set (rn_done (ps_run st'))" using IH undone apart by auto
      ultimately show ?thesis using IH run_on run(2) [OF Executes] by simp
    qed (use live in simp)
    have "map rd_Symbol (ps_streamed st') = map rd_Symbol (ps_streamed st) @ map (env_symbol env) (i # ks)" using IH d by simp
    moreover have "set (rn_done (ps_run st)) \<subseteq> set (rn_done (ps_run st'))" using IH grow by blast
    moreover have "set (rn_done (ps_run st')) \<subseteq> set (rn_done (ps_run st)) \<union> rt_index ` set coming" using IH grow coming by auto
    ultimately show ?thesis using items by blast
  next
    case False
    obtain d where d: "ps_pending st i = Some d" "rd_Symbol d = env_symbol env i" "awaits env ks coming (stream d st)"
      using awaits_pending(1) [OF Cons.prems(2) False] by blast
    have "deliver_prepared env rts ks coming (stream d st) = ((None, items), st')"
      using Cons.prems(1) False d(1) by (cases coming) auto
    note IH = Cons.IH [OF this d(3)]
    have "i \<in> set (rn_done (ps_run st'))" using IH awaits_pending(2) [OF Cons.prems(2) False] by auto
    then show ?thesis using IH d(2) by auto
  qed
qed simp


lemma deliver_prepared_plan:
  "deliver_prepared env rts ks coming st = ((err, items), st') \<Longrightarrow> pp_PlanOnly env \<Longrightarrow>
     items = [] \<and> rn_persisted (ps_run st') = rn_persisted (ps_run st)"
proof (induction ks arbitrary: coming st)
  case (Cons i ks)
  show ?case
  proof (cases "\<exists>rt rest. coming = rt # rest \<and> rt_index rt = i")
    case True
    then obtain rt rest where coming: "coming = rt # rest" "rt_index rt = i" by blast
    obtain e st1 where prep: "prepareTarget env rts rt st = (e, st1)" by (metis surj_pair)
    have step: "prep_step env i st (e, st1)" using prepareTarget_step [of env rt st rts] prep coming by simp
    then have same: "rn_persisted (ps_run st1) = rn_persisted (ps_run st)" "\<And>pd. e \<noteq> Executes pd"
      using Cons.prems(2) unfolding prep_step_def Let_def prod.case by (blast, auto)
    then show ?thesis using Cons.prems coming prep Cons.IH [of rest st1] by (cases e) auto
  next
    case False
    define st1 where "st1 = (case ps_pending st i of None \<Rightarrow> st | Some decision \<Rightarrow> stream decision st)"
    have "deliver_prepared env rts ks coming st1 = ((err, items), st')"
      using Cons.prems(1) False unfolding st1_def by (cases coming) auto
    moreover have "rn_persisted (ps_run st1) = rn_persisted (ps_run st)" unfolding st1_def by (simp split: option.split)
    ultimately show ?thesis using Cons.IH [of coming st1] Cons.prems(2) by simp
  qed
qed simp

subsection \<open>A preparation\<close>

lemma resolve_targets_awaits:
  assumes "resolve_targets env (start_prep env b) = Inr (resolved, st)"
  shows "distinct (map rt_index resolved)" "awaits env [0..<length (pp_targets env)] resolved st" "ps_streamed st = []"
    "ps_probing st = start_probing b" "rn_persisted (ps_run st) = []"
proof -
  let ?ks = "[0..<length (pp_targets env)]"
  have from_start: "resolve_from env ?ks (start_prep env b) = Inr (resolved, st)"
    using assms by (auto simp: resolve_targets_def split: option.splits)
  note step = resolve_from_step [OF from_start distinct_upt]
  have order: "map rt_index resolved = filter (\<lambda>i. i \<in> rt_index ` set resolved) ?ks" using step by blast
  then show "distinct (map rt_index resolved)" by (metis distinct_filter distinct_upt)
  show "ps_streamed st = []" "ps_probing st = start_probing b" "rn_persisted (ps_run st) = []"
    using step by (simp_all add: start_prep_def)
  have ended: "set (rn_done (ps_run st)) = {i \<in> set ?ks. i \<notin> rt_index ` set resolved}" using step by (simp add: start_prep_def)
  have pending: "\<forall>i \<in> set ?ks. i \<notin> rt_index ` set resolved \<longrightarrow> (\<exists>d. ps_pending st i = Some d \<and> rd_Symbol d = env_symbol env i)" using step by blast
  show "awaits env ?ks resolved st" unfolding awaits_def
  proof (intro conjI order ballI impI distinct_upt)
    fix i assume i: "i \<in> set ?ks" "i \<notin> rt_index ` set resolved"
    then show "\<exists>d. ps_pending st i = Some d \<and> rd_Symbol d = env_symbol env i" "i \<in> set (rn_done (ps_run st))" using pending unfolding ended by blast+
  next
    fix i assume "i \<in> rt_index ` set resolved"
    then show "i \<notin> set (rn_done (ps_run st))" unfolding ended by blast
  qed
qed

lemma keep_viewed_awaits:
  assumes keep: "keep_viewed env rts st = (kept, st')" and apart: "distinct (map rt_index rts)" and awaits: "awaits env ks rts st"
  shows "awaits env ks kept st'"
proof -
  note step = keep_viewed_step [OF keep apart] and parts = awaits_parts [OF awaits]
  have sub: "rt_index ` set kept \<subseteq> rt_index ` set rts" using step by blast
  have order: "map rt_index kept = filter (\<lambda>i. i \<in> rt_index ` set kept) ks"
  proof -
    have "map rt_index kept = filter (\<lambda>i. i \<in> rt_index ` set kept) (map rt_index rts)" using step by blast
    also have "\<dots> = filter (\<lambda>i. i \<in> rt_index ` set rts \<and> i \<in> rt_index ` set kept) ks" by (subst parts(2)) (simp add: conj_commute)
    also have "\<dots> = filter (\<lambda>i. i \<in> rt_index ` set kept) ks" using sub by (intro filter_cong) blast+
    finally show ?thesis .
  qed
  have ended: "set (rn_done (ps_run st')) = set (rn_done (ps_run st)) \<union> dropped rts kept" using step by blast
  have untouched: "\<forall>j. j \<notin> dropped rts kept \<longrightarrow> ps_pending st' j = ps_pending st j" using step by blast
  have fell: "\<forall>i \<in> dropped rts kept. \<exists>d. ps_pending st' i = Some d \<and> rd_Symbol d = env_symbol env i" using step by blast
  show ?thesis unfolding awaits_def
  proof (intro conjI order ballI impI parts(1))
    fix i assume i: "i \<in> set ks" "i \<notin> rt_index ` set kept"
    show "\<exists>d. ps_pending st' i = Some d \<and> rd_Symbol d = env_symbol env i"
    proof (cases "i \<in> rt_index ` set rts")
      case True
      then show ?thesis using fell i(2) by (simp add: dropped_def)
    next
      case False
      then show ?thesis using parts(3) [OF i(1) False] untouched by (simp add: dropped_def)
    qed
    show "i \<in> set (rn_done (ps_run st'))" using parts(3) [OF i(1)] i(2) unfolding ended dropped_def by blast
  next
    fix i assume "i \<in> rt_index ` set kept"
    then show "i \<notin> set (rn_done (ps_run st'))" using parts(4) [of i] sub unfolding ended dropped_def by blast
  qed
qed

lemma prepare_run_parts:
  assumes "prepare_run env b = ((err, items), st)" "resolve_targets env (start_prep env b) = Inr (resolved, st0)"
  obtains kept st1 where "keep_viewed env resolved st0 = (kept, st1)"
    "deliver_prepared env kept [0..<length (pp_targets env)] kept st1 = ((err, items), st)"
  using assms by (cases "keep_viewed env resolved st0") (auto simp: prepare_run_def)

text \<open>C21: A preparation that does not fail decides every target exactly once, in target order, and leaves to execute, in target
  order, exactly the targets whose disposition it did not end: a target that is neither terminal nor handed on,
  or is both, is impossible; and a plan hands on nothing and commits nothing.\<close>

theorem every_target_is_decided_once:
  assumes run: "prepare_run env b = ((None, items), st)"
  shows "map rd_Symbol (ps_streamed st) = map t_Symbol (pp_targets env) \<and>
    (\<not> pp_PlanOnly env \<longrightarrow> map pd_target items = filter (\<lambda>i. i \<notin> set (rn_done (ps_run st))) [0..<length (pp_targets env)]) \<and>
    (pp_PlanOnly env \<longrightarrow> items = [] \<and> rn_persisted (ps_run st) = [])"
proof -
  let ?ks = "[0..<length (pp_targets env)]"
  obtain resolved st0 where resolved: "resolve_targets env (start_prep env b) = Inr (resolved, st0)"
    using run by (auto simp: prepare_run_def split: sum.splits)
  obtain kept st1 where parts: "keep_viewed env resolved st0 = (kept, st1)" "deliver_prepared env kept ?ks kept st1 = ((None, items), st)"
    by (rule prepare_run_parts [OF run resolved])
  note start = resolve_targets_awaits [OF resolved]
  note walked = keep_viewed_step [OF parts(1) start(1)] and awaits = keep_viewed_awaits [OF parts(1) start(1,2)]
  note all = deliver_prepared_step [OF parts(2) awaits] and plan = deliver_prepared_plan [OF parts(2)]
  have "map (env_symbol env) ?ks = map t_Symbol (pp_targets env)"
    by (rule nth_equalityI) (simp_all add: env_symbol_def env_target_def)
  moreover have "ps_streamed st1 = []" "rn_persisted (ps_run st1) = []" using walked start(3,5) by simp_all
  ultimately show ?thesis using all plan by simp
qed


subsection \<open>Where the preparation departs from its specification\<close>

text \<open>A failed evidence check is the target's own condition where the record's budget covers the request; where the record is to be
  extended to a wider budget, the same failure is returned and ends the run.\<close>

theorem extension_check_fails_the_run:
  assumes target: "staged_refusal env rt = None" "rt_shaped rt = None" "pp_runtimes env = Inr runtimes"
    and prior: "env_prior env (rt_index rt) = Some rec" "\<not> pp_Force env" "f_CandidateEvidence rec = []"
    and failed: "target_matches env rt (rn_findings (ps_run (with_regime env rt (regime_of runtimes (rt_oracle rt)) st)) ! rt_index rt)
      (regime_of runtimes (rt_oracle rt)) rec = Inl e"
  shows "fst (prepareTarget env rts rt st) = (if budgetCovers rec (cg_Budget (pp_campaign env)) then Finished else FailsRun e)"
  using assms by (simp add: prepareTarget_def prepare_symbol_def reuse_of_def Let_def)

text \<open>A served record of a shaped target is committed by the run's final merge alone, one of a symbol when it is served.\<close>

lemma execute_or_plan_persisted: "rn_persisted (ps_run (snd (execute_or_plan env pd d st))) = rn_persisted (ps_run st)"
  by (simp add: execute_or_plan_def Let_def split: sum.split prod.split)

lemma with_regime_persisted: "rn_persisted (ps_run (with_regime env rt r st)) = rn_persisted (ps_run st)"
  by simp

theorem shaped_serve_commits_nothing:
  assumes "rt_shaped rt = Some candidates"
  shows "rn_persisted (ps_run (snd (prepareTarget env rts rt st))) = rn_persisted (ps_run st)"
proof -
  have served: "rn_persisted (ps_run (snd (serve_shaped env rt rec st))) = rn_persisted (ps_run st)" for rec st
    by (simp add: serve_shaped_def split: sum.split)
  have measured: "rn_persisted (ps_run (snd (measure_shaped env rts rt candidates reason st))) = rn_persisted (ps_run st)" for reason st
    by (simp add: measure_shaped_def execute_or_plan_persisted Let_def split: option.split producer.split)
  show ?thesis
    using assms by (simp add: prepareTarget_def prepareShaped_def served measured Let_def split: option.split sum.split reuse.split)
qed

theorem symbol_serve_commits:
  assumes "staged_refusal env rt = None" "rt_shaped rt = None" "pp_runtimes env = Inr runtimes" "\<not> pp_PlanOnly env"
    and "reuse_of env rt (rn_findings (ps_run (with_regime env rt (regime_of runtimes (rt_oracle rt)) st)) ! rt_index rt)
      (regime_of runtimes (rt_oracle rt)) = ServeWhole rec"
    and "restamped env rt (Some (provenance_of (decision_view env rt (env_symbol env (rt_index rt))))) rec = Inr served" "cg_Commit (pp_campaign env) served = None"
  shows "rn_persisted (ps_run (snd (prepareTarget env rts rt st))) = rn_persisted (ps_run st) @ [served]"
  using assms by (simp add: prepareTarget_def prepare_symbol_def serve_whole_def commit_served_def Let_def)

subsection \<open>A small run\<close>

definition prep_target :: "string \<Rightarrow> target" where
  "prep_target symbol = \<lparr>t_Symbol = symbol, t_Oracle = [''p.TestF''], t_Labels = [], t_OracleExplicit = True, t_Structural = None, t_Manual = None\<rparr>"

text \<open>Two targets: a type, which is no function, and a function without a record, whose baseline passes.\<close>

definition sample_prep :: prep_env where
  "sample_prep = \<lparr>pp_campaign = sample_campaign\<lparr>cg_prior := (\<lambda>_. None)\<rparr>, pp_targets = [prep_target ''p.T'', prep_target ''p.F''], pp_Force = False,
     pp_PlanOnly = False, pp_packageOf = Inr \<circ> symbolPackage, pp_deriveOracle = (\<lambda>_. Inl ''unused''), pp_scopeOracle = (\<lambda>_ _ o'. o'),
     pp_validateOracle = (\<lambda>_. None), pp_shapedCandidates = (\<lambda>_. Inl (ShapedFault ''unused'')),
     pp_bodyHash = (\<lambda>s. if s = ''p.F'' then Inr ''h'' else Inl NotAFunction), pp_tree = sample_tree, pp_freshness = sample_fresh,
     pp_current = (\<lambda>_ _. sample_reading), pp_viewChanged = (\<lambda>_. False), pp_viewFault = (\<lambda>_ _. None),
     pp_views = (\<lambda>_ s. if s = ''p.F'' then Some sample_judged else Some sample_test), pp_runtimes = Inr (\<lambda>_. []), pp_preflight = None,
     pp_union = (\<lambda>_ _ _. Inr (\<lambda>s. if s = ''p.F'' then Some sample_judged else Some sample_test, \<lambda>_. None)),
     pp_narrow = (\<lambda>_. Inr (\<lambda>s. if s = ''p.F'' then sample_judged else sample_test)), pp_rebuild = (\<lambda>_. Inl ''unused''),
     pp_ledger = (\<lambda>_. Inr no_ledger), pp_generate = (\<lambda>_ _. Inr splice_generation), pp_packageContext = (\<lambda>_. Inr (''/r'', ''/r/p'')),
     pp_probes = sample_probe_env None\<rparr>"

abbreviation sample_prepared :: "(string option \<times> prepared list) \<times> prep_state" where
  "sample_prepared \<equiv> prepare_run sample_prep None"

lemma sample_prepares: "fst (fst sample_prepared) = None" "map pd_target (snd (fst sample_prepared)) = [1]"
  "map rd_Action (ps_streamed (snd sample_prepared)) = [''skipped'', ''measure'']"
  by code_simp+

lemma sample_prepared_parts: "sample_prepared = ((None, snd (fst sample_prepared)), snd sample_prepared)"
  using sample_prepares(1) by (metis prod.collapse)

theorem every_target_is_decided_once_witness:
  "map rd_Symbol (ps_streamed (snd sample_prepared)) = [''p.T'', ''p.F'']"
  using every_target_is_decided_once [OF sample_prepared_parts] by (simp add: sample_prep_def prep_target_def)


text \<open>The same record, whose evidence check fails: fully measured it refuses its target, with a candidate left it ends the run.\<close>

definition failing_check :: freshness_ops where
  "failing_check = sample_fresh\<lparr>fo_check := (\<lambda>_ _ _. Inl ''io''), fo_checkObserved := (\<lambda>_ _ _. Inl ''io''), fo_batch := (\<lambda>_ _. Inl ''io'')\<rparr>"

definition measured_prior :: "int \<Rightarrow> finding" where
  "measured_prior n = sample_served\<lparr>f_OracleExplicit := True, f_OracleTimeout := ''0'', f_CandidateCount := 3, f_Generated := n\<rparr>"

definition failing_prep :: "int \<Rightarrow> prep_env" where
  "failing_prep n = sample_prep\<lparr>pp_freshness := failing_check, pp_campaign := sample_campaign\<lparr>cg_prior := (\<lambda>_. Some (measured_prior n))\<rparr>\<rparr>"

definition sample_resolved :: resolved_target where
  "sample_resolved = \<lparr>rt_index = 1, rt_oracle = [''p.TestF''], rt_oracleNote = [], rt_attested = True, rt_shaped = None, rt_shapedDigest = [], rt_shapedFiles = []\<rparr>"

definition failing_start :: "int \<Rightarrow> prep_state" where
  "failing_start n = update_finding 1 (\<lambda>_. fresh_finding (failing_prep n) (prep_target ''p.F'')) (start_prep (failing_prep n) None)"

abbreviation failing_match :: "int \<Rightarrow> string + bool" where
  "failing_match n \<equiv> target_matches (failing_prep n) sample_resolved
     (rn_findings (ps_run (with_regime (failing_prep n) sample_resolved (regime_of (\<lambda>_. []) (rt_oracle sample_resolved)) (failing_start n))) ! rt_index sample_resolved)
     (regime_of (\<lambda>_. []) (rt_oracle sample_resolved)) (measured_prior n)"

lemma failing_matches: "failing_match 2 = Inl ''io''" "failing_match 3 = Inl ''io''"
  by code_simp+

theorem extension_check_fails_the_run_witness:
  "fst (prepareTarget (failing_prep 2) [] sample_resolved (failing_start 2)) = FailsRun ''io'' \<and>
   fst (prepareTarget (failing_prep 3) [] sample_resolved (failing_start 3)) = Finished"
proof -
  have at: "staged_refusal (failing_prep n) sample_resolved = None" "rt_shaped sample_resolved = None" "pp_runtimes (failing_prep n) = Inr (\<lambda>_. [])"
    "env_prior (failing_prep n) (rt_index sample_resolved) = Some (measured_prior n)" "\<not> pp_Force (failing_prep n)"
    "f_CandidateEvidence (measured_prior n) = []" "cg_Budget (pp_campaign (failing_prep n)) = 0" for n
    by (simp_all add: staged_refusal_def failing_prep_def sample_prep_def sample_campaign_def sample_repository_def sample_resolved_def
      env_prior_def measured_prior_def sample_served_def zero_finding_def)
  have "budgetCovers (measured_prior n) 0 \<longleftrightarrow> 3 \<le> n" for n
    by (simp add: budgetCovers_def measured_prior_def)
  then show ?thesis
    using extension_check_fails_the_run [OF at(1-6) failing_matches(1)] extension_check_fails_the_run [OF at(1-6) failing_matches(2)] by (simp add: at(7))
qed

end
